(* ===== verification/Prelude.thy ===== *)
theory Prelude
  imports Main "HOL-Library.Word"
begin

text \<open>
  What every component of the development shares: the C integer types as words, the monad in
  which kernel functions are written, its weakest preconditions, the loop combinators, and
  generic facts on functional arrays, lists and words.

  A kernel function is a HOL function from a machine state to an \<open>outcome\<close>.  It returns a
  value (\<open>Done\<close>), calls \<^verbatim>\<open>panic()\<close> (\<open>Panic\<close>, with the message and
  the state in which the machine freezes), gives up the CPU in \<^verbatim>\<open>swtch()\<close>
  (\<open>Blocked\<close>), or busy-waits for something only another hart can change (\<open>Spin\<close>).
\<close>

unbundle bit_operations_syntax

section \<open>C integer types\<close>

type_synonym u8 = "8 word"
type_synonym u16 = "16 word"
type_synonym u32 = "32 word"
type_synonym u64 = "64 word"

section \<open>Outcomes and the kernel monad\<close>

datatype ('a, 's) outcome =
    Done 'a 's
  | Panic string 's
  | Blocked 's
  | Spin 's

type_synonym ('s, 'a) kop = "'s \<Rightarrow> ('a, 's) outcome"

definition ret :: "'a \<Rightarrow> ('s, 'a) kop" where
  "ret x = (\<lambda>s. Done x s)"

definition bnd :: "('s, 'a) kop \<Rightarrow> ('a \<Rightarrow> ('s, 'b) kop) \<Rightarrow> ('s, 'b) kop" where
  "bnd f g = (\<lambda>s. case f s of
       Done x t \<Rightarrow> g x t
     | Panic m t \<Rightarrow> Panic m t
     | Blocked t \<Rightarrow> Blocked t
     | Spin t \<Rightarrow> Spin t)"

text \<open>Sequencing of two statements, the first one's value being ignored.\<close>

definition thn :: "('s, 'a) kop \<Rightarrow> ('s, 'b) kop \<Rightarrow> ('s, 'b) kop" where
  "thn f g = bnd f (\<lambda>_. g)"

definition gets :: "('s \<Rightarrow> 'a) \<Rightarrow> ('s, 'a) kop" where
  "gets f = (\<lambda>s. Done (f s) s)"

definition modify :: "('s \<Rightarrow> 's) \<Rightarrow> ('s, unit) kop" where
  "modify f = (\<lambda>s. Done () (f s))"

definition skip :: "('s, unit) kop" where
  "skip = ret ()"

definition panic :: "string \<Rightarrow> ('s, 'a) kop" where
  "panic m = (\<lambda>s. Panic m s)"

text \<open>\<^verbatim>\<open>if(cond) panic(msg);\<close>\<close>

definition panic_if :: "bool \<Rightarrow> string \<Rightarrow> ('s, unit) kop" where
  "panic_if b m = (if b then panic m else skip)"

text \<open>\<^verbatim>\<open>if(cond) stmt;\<close>\<close>

definition whenM :: "bool \<Rightarrow> ('s, unit) kop \<Rightarrow> ('s, unit) kop" where
  "whenM b f = (if b then f else skip)"

text \<open>
  A load or store through a null pointer faults in supervisor mode; \<^verbatim>\<open>kerneltrap()\<close>
  does not know the cause and panics.
\<close>

definition null_deref :: "('s, 'a) kop" where
  "null_deref = panic ''kerneltrap''"

definition deref :: "'p option \<Rightarrow> ('s, 'p) kop" where
  "deref p = (case p of None \<Rightarrow> null_deref | Some a \<Rightarrow> ret a)"

text \<open>A sequence of statements.\<close>

fun seqM :: "('s, unit) kop list \<Rightarrow> ('s, unit) kop" where
  "seqM [] = skip"
| "seqM [f] = f"
| "seqM (f # g # fs) = thn f (seqM (g # fs))"

section \<open>Loops\<close>

text \<open>\<^verbatim>\<open>for\<close> over a range, with no early exit.\<close>

primrec for_all :: "'x list \<Rightarrow> ('x \<Rightarrow> ('s, unit) kop) \<Rightarrow> ('s, unit) kop" where
  "for_all [] body = skip"
| "for_all (x # xs) body = thn (body x) (for_all xs body)"

text \<open>
  \<^verbatim>\<open>for\<close> over a range whose body may leave it with a value: \<open>Some v\<close> is a
  \<^verbatim>\<open>return\<close>, \<^verbatim>\<open>break\<close> or \<^verbatim>\<open>goto\<close> out of the loop.
\<close>

primrec for_ret :: "'x list \<Rightarrow> ('x \<Rightarrow> ('s, 'r option) kop) \<Rightarrow> ('s, 'r option) kop" where
  "for_ret [] body = ret None"
| "for_ret (x # xs) body =
     bnd (body x) (\<lambda>r. case r of None \<Rightarrow> for_ret xs body | Some v \<Rightarrow> ret (Some v))"

text \<open>
  A \<^verbatim>\<open>while\<close> loop over local variables \<open>x\<close>: the body continues with new locals
  (\<open>Inl\<close>) or leaves the loop (\<open>Inr\<close>).  The first argument bounds the number of
  iterations; a loop that has used it up is still running, which is \<open>Spin\<close>.
\<close>

primrec loopM :: "nat \<Rightarrow> ('x \<Rightarrow> ('s, 'x + 'r) kop) \<Rightarrow> 'x \<Rightarrow> ('s, 'r) kop" where
  "loopM 0 body x = (\<lambda>s. Spin s)"
| "loopM (Suc n) body x =
     bnd (body x) (\<lambda>r. case r of Inl y \<Rightarrow> loopM n body y | Inr v \<Rightarrow> ret v)"

section \<open>Running kernel functions\<close>

named_theorems run "equations that run a kernel function on a state"

lemma run_ret [run]: "ret x s = Done x s"
  by (simp add: ret_def)

lemma run_skip [run]: "skip s = Done () s"
  by (simp add: skip_def ret_def)

lemma run_gets [run]: "gets f s = Done (f s) s"
  by (simp add: gets_def)

lemma run_modify [run]: "modify f s = Done () (f s)"
  by (simp add: modify_def)

lemma run_panic [run]: "panic m s = Panic m s"
  by (simp add: panic_def)

lemma run_panic_if [run]: "panic_if b m s = (if b then Panic m s else Done () s)"
  by (simp add: panic_if_def panic_def skip_def ret_def)

lemma run_whenM [run]: "whenM b f s = (if b then f s else Done () s)"
  by (simp add: whenM_def skip_def ret_def)

lemma run_bnd [run]:
  "bnd f g s = (case f s of
       Done x t \<Rightarrow> g x t
     | Panic m t \<Rightarrow> Panic m t
     | Blocked t \<Rightarrow> Blocked t
     | Spin t \<Rightarrow> Spin t)"
  by (simp add: bnd_def)

lemma run_thn [run]:
  "thn f g s = (case f s of
       Done x t \<Rightarrow> g t
     | Panic m t \<Rightarrow> Panic m t
     | Blocked t \<Rightarrow> Blocked t
     | Spin t \<Rightarrow> Spin t)"
  by (simp add: thn_def bnd_def)

lemma run_null_deref [run]: "null_deref s = Panic ''kerneltrap'' s"
  by (simp add: null_deref_def panic_def)

lemma run_deref [run]:
  "deref p s = (case p of None \<Rightarrow> Panic ''kerneltrap'' s | Some a \<Rightarrow> Done a s)"
  by (simp add: deref_def run split: option.splits)

lemma run_loopM [run]:
  "loopM 0 body x s = Spin s"
  "loopM (Suc n) body x s = (case body x s of
       Done r t \<Rightarrow> (case r of Inl y \<Rightarrow> loopM n body y t | Inr v \<Rightarrow> Done v t)
     | Panic m t \<Rightarrow> Panic m t
     | Blocked t \<Rightarrow> Blocked t
     | Spin t \<Rightarrow> Spin t)"
  by (auto simp: run split: outcome.splits sum.splits)

declare loopM.simps [simp del]

lemma for_all_append: "for_all (xs @ ys) body = thn (for_all xs body) (for_all ys body)"
  by (induction xs) (auto simp: fun_eq_iff run split: outcome.splits)

section \<open>Weakest preconditions\<close>

text \<open>
  \<open>wp f Q s\<close>: run in \<open>s\<close>, \<open>f\<close> returns, and its value and final state satisfy
  \<open>Q\<close>.  This is total correctness: no panic, no blocking, no spinning.
\<close>

definition wp :: "('s, 'a) kop \<Rightarrow> ('a \<Rightarrow> 's \<Rightarrow> bool) \<Rightarrow> 's \<Rightarrow> bool" where
  "wp f Q s = (case f s of Done x t \<Rightarrow> Q x t | Panic m t \<Rightarrow> False | Blocked t \<Rightarrow> False | Spin t \<Rightarrow> False)"

named_theorems wps "weakest preconditions"

lemma wp_ret [wps]: "wp (ret x) Q s = Q x s"
  by (simp add: wp_def run)

lemma wp_skip [wps]: "wp skip Q s = Q () s"
  by (simp add: wp_def run)

lemma wp_gets [wps]: "wp (gets f) Q s = Q (f s) s"
  by (simp add: wp_def run)

lemma wp_modify [wps]: "wp (modify f) Q s = Q () (f s)"
  by (simp add: wp_def run)

lemma wp_panic [wps]: "wp (panic m) Q s = False"
  by (simp add: wp_def run)

lemma wp_panic_if [wps]: "wp (panic_if b m) Q s = (\<not> b \<and> Q () s)"
  by (simp add: wp_def run)

lemma wp_whenM [wps]: "wp (whenM b f) Q s = (if b then wp f Q s else Q () s)"
  by (simp add: wp_def run)

lemma wp_deref [wps]: "wp (deref p) Q s = (case p of None \<Rightarrow> False | Some a \<Rightarrow> Q a s)"
  by (simp add: wp_def run split: option.splits)

lemma wp_bnd [wps]: "wp (bnd f g) Q s = wp f (\<lambda>x. wp (g x) Q) s"
  by (simp add: wp_def run split: outcome.splits)

lemma wp_thn [wps]: "wp (thn f g) Q s = wp f (\<lambda>_. wp g Q) s"
  by (simp add: wp_def run split: outcome.splits)

lemma wp_if [wps]: "wp (if b then f else g) Q s = (if b then wp f Q s else wp g Q s)"
  by simp

lemma wp_mono: "wp f Q s \<Longrightarrow> (\<And>x t. Q x t \<Longrightarrow> R x t) \<Longrightarrow> wp f R s"
  by (simp add: wp_def split: outcome.splits)

lemma wp_conj: "wp f (\<lambda>x t. Q x t \<and> R x t) s \<longleftrightarrow> wp f Q s \<and> wp f R s"
  by (auto simp: wp_def split: outcome.splits)

lemma wp_Done: "f s = Done x t \<Longrightarrow> wp f Q s = Q x t"
  by (simp add: wp_def)

lemma wpD: "wp f Q s \<Longrightarrow> \<exists>x t. f s = Done x t \<and> Q x t"
  by (auto simp: wp_def split: outcome.splits)

lemma wp_iff: "wp f Q s \<longleftrightarrow> (\<exists>x t. f s = Done x t \<and> Q x t)"
  by (auto simp: wp_def split: outcome.splits)

lemma wp_for_all_Nil [wps]: "wp (for_all [] body) Q s = Q () s"
  by (simp add: wps)

lemma wp_for_all_Cons [wps]:
  "wp (for_all (x # xs) body) Q s = wp (body x) (\<lambda>_. wp (for_all xs body) Q) s"
  by (simp add: wps)

lemma wp_for_all_inv:
  assumes "I xs s"
    and "\<And>x ys t. I (x # ys) t \<Longrightarrow> wp (body x) (\<lambda>_. I ys) t"
  shows "wp (for_all xs body) (\<lambda>_. I []) s"
  using assms(1)
proof (induction xs arbitrary: s)
  case Nil
  then show ?case by (simp add: wps)
next
  case (Cons x xs)
  from Cons.prems have "wp (body x) (\<lambda>_. I xs) s"
    by (rule assms(2))
  then show ?case
    unfolding wp_for_all_Cons by (rule wp_mono) (rule Cons.IH)
qed

lemma wp_for_ret_Nil [wps]: "wp (for_ret [] body) Q s = Q None s"
  by (simp add: wps)

lemma wp_for_ret_Cons [wps]:
  "wp (for_ret (x # xs) body) Q s =
   wp (body x) (\<lambda>r. case r of None \<Rightarrow> wp (for_ret xs body) Q | Some v \<Rightarrow> Q (Some v)) s"
  by (auto simp: wp_def run split: outcome.splits option.splits)

section \<open>Functional arrays, lists and words\<close>

text \<open>
  C arrays of structures are functions from indices; \<open>upd f i g\<close> is
  \<^verbatim>\<open>f[i] = g(f[i])\<close>.
\<close>

definition upd :: "('i \<Rightarrow> 'v) \<Rightarrow> 'i \<Rightarrow> ('v \<Rightarrow> 'v) \<Rightarrow> 'i \<Rightarrow> 'v" where
  "upd f i g = f(i := g (f i))"

lemma upd_apply [simp]: "upd f i g j = (if j = i then g (f i) else f j)"
  by (simp add: upd_def)

lemma upd_upd_same [simp]: "upd (upd f i g) i h = upd f i (h \<circ> g)"
  by (simp add: upd_def fun_eq_iff)

lemma upd_id [simp]: "(\<And>x. g x = x) \<Longrightarrow> upd f i g = f"
  by (simp add: upd_def)

text \<open>The first element of a list that satisfies a test, as a scanning loop finds it.\<close>

lemma find_append_none: "\<forall>y \<in> set ys. \<not> P y \<Longrightarrow> List.find P (ys @ zs) = List.find P zs"
  by (induction ys) auto

lemma find_SomeD:
  "List.find P xs = Some x \<Longrightarrow> \<exists>ys zs. xs = ys @ x # zs \<and> P x \<and> (\<forall>y \<in> set ys. \<not> P y)"
proof (induction xs)
  case Nil
  then show ?case by simp
next
  case (Cons a xs)
  show ?case
  proof (cases "P a")
    case True
    with Cons.prems have "a # xs = [] @ x # xs \<and> P x" by simp
    then show ?thesis by fastforce
  next
    case False
    with Cons obtain ys zs where "xs = ys @ x # zs" "P x" "\<forall>y \<in> set ys. \<not> P y"
      by auto
    with False have "a # xs = (a # ys) @ x # zs \<and> P x \<and> (\<forall>y \<in> set (a # ys). \<not> P y)"
      by simp
    then show ?thesis by blast
  qed
qed

lemma find_cong_set: "(\<And>x. x \<in> set xs \<Longrightarrow> P x = Q x) \<Longrightarrow> List.find P xs = List.find Q xs"
  by (induction xs) auto

lemma find_in_set: "List.find P xs = Some x \<Longrightarrow> x \<in> set xs \<and> P x"
  by (auto dest: find_SomeD)

lemma unat_of_nat_small: "n < 2 ^ LENGTH('a) \<Longrightarrow> unat (of_nat n :: 'a::len word) = n"
  by (simp add: unat_of_nat)

lemma unat_of_nat_u64: "n < 2 ^ 64 \<Longrightarrow> unat (of_nat n :: u64) = n"
  by (simp add: unat_of_nat)

lemma unat_of_nat_u32: "n < 2 ^ 32 \<Longrightarrow> unat (of_nat n :: u32) = n"
  by (simp add: unat_of_nat)

lemma unat_u32_bound: "unat (n :: u32) < 2 ^ 32"
  by (rule less_le_trans [OF unsigned_less]) simp

lemma unat_u64_bound: "unat (n :: u64) < 2 ^ 64"
  by (rule less_le_trans [OF unsigned_less]) simp

lemma unat_minus_one_u64: "unat (- 1 :: u64) = 2 ^ 64 - 1"
  by (simp add: unsigned_minus_1_eq_mask mask_eq_exp_minus_1)

lemma unat_ucast_u32_u64: "unat (ucast (n :: u32) :: u64) = unat n"
  using unat_u32_bound [of n] by (simp add: unsigned_ucast_eq take_bit_nat_eq_self)

end
