(* ===== verification/Machine.thy ===== *)
theory Machine
  imports Prelude
begin

text \<open>
  The RISC-V machine as the kernel sees it: constants of \<^verbatim>\<open>kernel/param.h\<close>,
  \<^verbatim>\<open>kernel/memlayout.h\<close> and \<^verbatim>\<open>kernel/riscv.h\<close>, the supervisor
  registers of every hart with the accessors of \<^verbatim>\<open>kernel/riscv.h\<close>, the per-CPU
  structure of \<^verbatim>\<open>kernel/proc.h\<close> and the spinlocks of
  \<^verbatim>\<open>kernel/spinlock.h\<close>.

  The state record \<open>hw\<close> is the root of the development's machine state: every later component
  extends it with its own globals, so that an operation of one component runs unchanged in the
  state of any component above it.
\<close>

section \<open>Constants\<close>

text \<open>\<^verbatim>\<open>kernel/param.h\<close>\<close>

definition NPROC :: nat where "NPROC = 64"
definition NCPU :: nat where "NCPU = 8"
definition NOFILE :: nat where "NOFILE = 16"
definition NFILE :: nat where "NFILE = 100"
definition NINODE :: nat where "NINODE = 50"
definition NDEV :: nat where "NDEV = 10"
definition ROOTDEV :: u32 where "ROOTDEV = 0"
definition MAXARG :: nat where "MAXARG = 32"
definition MAXOPBLOCKS :: nat where "MAXOPBLOCKS = 10"
definition LOGSIZE :: nat where "LOGSIZE = MAXOPBLOCKS * 3"
definition NBUF :: nat where "NBUF = MAXOPBLOCKS * 3"
definition FSSIZE :: nat where "FSSIZE = 1000"
definition MAXPATH :: nat where "MAXPATH = 128"
definition NDISK :: nat where "NDISK = 2"

lemmas param_defs = NPROC_def NCPU_def NOFILE_def NFILE_def NINODE_def NDEV_def ROOTDEV_def
  MAXARG_def MAXOPBLOCKS_def LOGSIZE_def NBUF_def FSSIZE_def MAXPATH_def NDISK_def

text \<open>\<^verbatim>\<open>kernel/riscv.h\<close>: bits of the status and interrupt registers.\<close>

definition SSTATUS_SPP :: u64 where "SSTATUS_SPP = push_bit 8 1"
definition SSTATUS_SPIE :: u64 where "SSTATUS_SPIE = push_bit 5 1"
definition SSTATUS_SIE :: u64 where "SSTATUS_SIE = push_bit 1 1"
definition SIE_SEIE :: u64 where "SIE_SEIE = push_bit 9 1"
definition SIE_STIE :: u64 where "SIE_STIE = push_bit 5 1"
definition SIE_SSIE :: u64 where "SIE_SSIE = push_bit 1 1"

text \<open>\<^verbatim>\<open>kernel/riscv.h\<close>: pages and page-table entries.\<close>

definition PGSIZE :: u64 where "PGSIZE = 4096"
definition PGSHIFT :: nat where "PGSHIFT = 12"

definition PGROUNDUP :: "u64 \<Rightarrow> u64" where
  "PGROUNDUP sz = (sz + PGSIZE - 1) AND NOT (PGSIZE - 1)"

definition PGROUNDDOWN :: "u64 \<Rightarrow> u64" where
  "PGROUNDDOWN a = a AND NOT (PGSIZE - 1)"

definition PTE_V :: u64 where "PTE_V = push_bit 0 1"
definition PTE_R :: u64 where "PTE_R = push_bit 1 1"
definition PTE_W :: u64 where "PTE_W = push_bit 2 1"
definition PTE_X :: u64 where "PTE_X = push_bit 3 1"
definition PTE_U :: u64 where "PTE_U = push_bit 4 1"

definition PA2PTE :: "u64 \<Rightarrow> u64" where
  "PA2PTE pa = push_bit 10 (drop_bit 12 pa)"

definition PTE2PA :: "u64 \<Rightarrow> u64" where
  "PTE2PA pte = push_bit 12 (drop_bit 10 pte)"

definition PTE_FLAGS :: "u64 \<Rightarrow> u64" where
  "PTE_FLAGS pte = pte AND (PTE_V OR PTE_R OR PTE_W OR PTE_X OR PTE_U)"

definition PXMASK :: u64 where "PXMASK = 0x1FF"

definition PXSHIFT :: "nat \<Rightarrow> nat" where
  "PXSHIFT level = PGSHIFT + 9 * level"

definition PX :: "nat \<Rightarrow> u64 \<Rightarrow> u64" where
  "PX level va = drop_bit (PXSHIFT level) va AND PXMASK"

definition MAXVA :: u64 where "MAXVA = push_bit (9 + 9 + 9 + 12 - 1) 1"

definition SATP_SV39 :: u64 where "SATP_SV39 = push_bit 60 8"

definition MAKE_SATP :: "u64 \<Rightarrow> u64" where
  "MAKE_SATP pagetable = SATP_SV39 OR drop_bit 12 pagetable"

text \<open>\<^verbatim>\<open>kernel/memlayout.h\<close>\<close>

definition UART0 :: u64 where "UART0 = 0x10000000"
definition UART0_IRQ :: u32 where "UART0_IRQ = 10"

definition VIRTION :: "u64 \<Rightarrow> u64" where
  "VIRTION n = 0x10000000 + ((n + 1) * 0x1000)"

definition VIRTIO0_IRQ :: u32 where "VIRTIO0_IRQ = 1"
definition VIRTIO1_IRQ :: u32 where "VIRTIO1_IRQ = 2"
definition CLINT :: u64 where "CLINT = 0x2000000"
definition PLIC :: u64 where "PLIC = 0x0c000000"
definition KERNBASE :: u64 where "KERNBASE = 0x80000000"
definition PHYSTOP :: u64 where "PHYSTOP = KERNBASE + 128 * 1024 * 1024"
definition TRAMPOLINE :: u64 where "TRAMPOLINE = MAXVA - PGSIZE"

definition KSTACK :: "nat \<Rightarrow> u64" where
  "KSTACK p = TRAMPOLINE - (of_nat p + 1) * 2 * PGSIZE"

definition TRAPFRAME :: u64 where "TRAPFRAME = TRAMPOLINE - PGSIZE"

section \<open>Structures of the machine layer\<close>

text \<open>\<^verbatim>\<open>struct context\<close>: registers saved by \<^verbatim>\<open>swtch()\<close>.\<close>

record kcontext =
  ctx_ra :: u64
  ctx_sp :: u64
  ctx_s :: "nat \<Rightarrow> u64" \<comment> \<open>callee-saved \<^verbatim>\<open>s0\<close> to \<^verbatim>\<open>s11\<close>\<close>

definition zero_context :: kcontext where
  "zero_context = \<lparr>ctx_ra = 0, ctx_sp = 0, ctx_s = (\<lambda>_. 0)\<rparr>"

text \<open>\<^verbatim>\<open>struct cpu\<close>; a process is named by its index in \<^verbatim>\<open>proc[]\<close>.\<close>

record cpu =
  cpu_proc :: "nat option"
  cpu_scheduler :: kcontext
  cpu_noff :: int
  cpu_intena :: bool

text \<open>
  The kernel's locks, named by what they protect instead of by their addresses: the C pointers
  \<^verbatim>\<open>&kmem.lock\<close>, \<^verbatim>\<open>&proc[i].lock\<close>, \<^verbatim>\<open>&log[d].lock\<close>,
  \<^verbatim>\<open>&b->lock.lk\<close>, and so on.  A pipe lives in the page it was allocated in and is
  named by that page's address.
\<close>

datatype slockid = BufLock nat | InodeLock nat

datatype lockid =
    KmemLock
  | PidLock
  | ProcLock nat
  | TicksLock
  | BcacheLock
  | SleepLk slockid
  | LogLock nat
  | IcacheLock
  | FtableLock
  | PipeLock u64
  | ConsLock
  | PrLock
  | VdiskLock nat

text \<open>\<^verbatim>\<open>struct spinlock\<close>\<close>

record spinlock =
  sl_locked :: u32
  sl_name :: string
  sl_cpu :: "nat option"

text \<open>Supervisor control and status registers of one hart.\<close>

record csr =
  csr_sstatus :: u64
  csr_sie :: u64
  csr_sip :: u64
  csr_stvec :: u64
  csr_sepc :: u64
  csr_scause :: u64
  csr_stval :: u64
  csr_satp :: u64

text \<open>
  \<open>tp\<close> is the hart whose instructions are being run (the thread-pointer register holds the
  hart id), \<open>csrs\<close> and \<open>cpus\<close> are indexed by hart.
\<close>

record hw =
  tp :: nat
  csrs :: "nat \<Rightarrow> csr"
  cpus :: "nat \<Rightarrow> cpu"
  locks :: "lockid \<Rightarrow> spinlock"
  ntest_and_set :: u64

section \<open>Register access\<close>

definition upd_csr :: "(csr \<Rightarrow> csr) \<Rightarrow> ('z hw_scheme, unit) kop" where
  "upd_csr f = modify (\<lambda>s. s\<lparr>csrs := upd (csrs s) (tp s) f\<rparr>)"

definition r_sstatus :: "('z hw_scheme, u64) kop" where
  "r_sstatus = gets (\<lambda>s. csr_sstatus (csrs s (tp s)))"

definition w_sstatus :: "u64 \<Rightarrow> ('z hw_scheme, unit) kop" where
  "w_sstatus x = upd_csr (\<lambda>c. c\<lparr>csr_sstatus := x\<rparr>)"

definition r_sip :: "('z hw_scheme, u64) kop" where
  "r_sip = gets (\<lambda>s. csr_sip (csrs s (tp s)))"

definition w_sip :: "u64 \<Rightarrow> ('z hw_scheme, unit) kop" where
  "w_sip x = upd_csr (\<lambda>c. c\<lparr>csr_sip := x\<rparr>)"

definition r_sie :: "('z hw_scheme, u64) kop" where
  "r_sie = gets (\<lambda>s. csr_sie (csrs s (tp s)))"

definition w_sie :: "u64 \<Rightarrow> ('z hw_scheme, unit) kop" where
  "w_sie x = upd_csr (\<lambda>c. c\<lparr>csr_sie := x\<rparr>)"

definition w_sepc :: "u64 \<Rightarrow> ('z hw_scheme, unit) kop" where
  "w_sepc x = upd_csr (\<lambda>c. c\<lparr>csr_sepc := x\<rparr>)"

definition r_sepc :: "('z hw_scheme, u64) kop" where
  "r_sepc = gets (\<lambda>s. csr_sepc (csrs s (tp s)))"

definition w_stvec :: "u64 \<Rightarrow> ('z hw_scheme, unit) kop" where
  "w_stvec x = upd_csr (\<lambda>c. c\<lparr>csr_stvec := x\<rparr>)"

definition w_satp :: "u64 \<Rightarrow> ('z hw_scheme, unit) kop" where
  "w_satp x = upd_csr (\<lambda>c. c\<lparr>csr_satp := x\<rparr>)"

definition r_satp :: "('z hw_scheme, u64) kop" where
  "r_satp = gets (\<lambda>s. csr_satp (csrs s (tp s)))"

definition r_scause :: "('z hw_scheme, u64) kop" where
  "r_scause = gets (\<lambda>s. csr_scause (csrs s (tp s)))"

definition r_stval :: "('z hw_scheme, u64) kop" where
  "r_stval = gets (\<lambda>s. csr_stval (csrs s (tp s)))"

definition intr_on :: "('z hw_scheme, unit) kop" where
  "intr_on =
     bnd r_sie (\<lambda>x.
     thn (w_sie (x OR SIE_SEIE OR SIE_STIE OR SIE_SSIE)) (
     bnd r_sstatus (\<lambda>y.
     w_sstatus (y OR SSTATUS_SIE))))"

definition intr_off :: "('z hw_scheme, unit) kop" where
  "intr_off = bnd r_sstatus (\<lambda>x. w_sstatus (x AND NOT SSTATUS_SIE))"

definition intr_get :: "('z hw_scheme, bool) kop" where
  "intr_get = bnd r_sstatus (\<lambda>x. ret ((x AND SSTATUS_SIE) \<noteq> 0))"

definition r_tp :: "('z hw_scheme, nat) kop" where
  "r_tp = gets tp"

text \<open>\<^verbatim>\<open>cpuid()\<close> and \<^verbatim>\<open>mycpu()\<close> of \<^verbatim>\<open>kernel/proc.c\<close>; the
  pointer \<^verbatim>\<open>&cpus[id]\<close> is the index.\<close>

definition cpuid :: "('z hw_scheme, nat) kop" where
  "cpuid = r_tp"

definition mycpu :: "('z hw_scheme, nat) kop" where
  "mycpu = bnd cpuid (\<lambda>id. ret id)"

definition upd_cpu :: "nat \<Rightarrow> (cpu \<Rightarrow> cpu) \<Rightarrow> ('z hw_scheme, unit) kop" where
  "upd_cpu c f = modify (\<lambda>s. s\<lparr>cpus := upd (cpus s) c f\<rparr>)"

section \<open>Interrupt state\<close>

text \<open>Whether the running hart takes device interrupts.\<close>

definition irq_on :: "'z hw_scheme \<Rightarrow> bool" where
  "irq_on s \<longleftrightarrow> bit (csr_sstatus (csrs s (tp s))) 1"

lemma SSTATUS_SIE_nonzero: "((x :: u64) AND SSTATUS_SIE) \<noteq> 0 \<longleftrightarrow> bit x 1"
proof -
  have "x AND SSTATUS_SIE = (if bit x 1 then push_bit 1 1 else 0)"
    by (rule bit_word_eqI) (auto simp: SSTATUS_SIE_def bit_simps)
  then show ?thesis by simp
qed

lemma run_intr_get [run]: "intr_get s = Done (irq_on s) s"
  by (simp add: intr_get_def r_sstatus_def run irq_on_def SSTATUS_SIE_nonzero)

definition irq_set_off :: "'z hw_scheme \<Rightarrow> 'z hw_scheme" where
  "irq_set_off s = s\<lparr>csrs := upd (csrs s) (tp s) (\<lambda>c. c\<lparr>csr_sstatus := csr_sstatus c AND NOT SSTATUS_SIE\<rparr>)\<rparr>"

definition irq_set_on :: "'z hw_scheme \<Rightarrow> 'z hw_scheme" where
  "irq_set_on s = s\<lparr>csrs := upd (csrs s) (tp s) (\<lambda>c. c\<lparr>
     csr_sie := csr_sie c OR SIE_SEIE OR SIE_STIE OR SIE_SSIE,
     csr_sstatus := csr_sstatus c OR SSTATUS_SIE\<rparr>)\<rparr>"

lemma run_intr_off [run]: "intr_off s = Done () (irq_set_off s)"
  by (simp add: intr_off_def r_sstatus_def w_sstatus_def upd_csr_def run irq_set_off_def upd_def)

lemma run_intr_on [run]: "intr_on s = Done () (irq_set_on s)"
  by (simp add: intr_on_def r_sstatus_def w_sstatus_def r_sie_def w_sie_def upd_csr_def run
      irq_set_on_def upd_def)

lemma irq_set_off_simps [simp]:
  "tp (irq_set_off s) = tp s"
  "cpus (irq_set_off s) = cpus s"
  "locks (irq_set_off s) = locks s"
  "ntest_and_set (irq_set_off s) = ntest_and_set s"
  "hw.more (irq_set_off s) = hw.more s"
  by (simp_all add: irq_set_off_def)

lemma irq_set_on_simps [simp]:
  "tp (irq_set_on s) = tp s"
  "cpus (irq_set_on s) = cpus s"
  "locks (irq_set_on s) = locks s"
  "ntest_and_set (irq_set_on s) = ntest_and_set s"
  "hw.more (irq_set_on s) = hw.more s"
  by (simp_all add: irq_set_on_def)

lemma irq_on_set_off [simp]: "\<not> irq_on (irq_set_off s)"
  by (simp add: irq_on_def irq_set_off_def SSTATUS_SIE_def bit_simps)

lemma irq_on_set_on [simp]: "irq_on (irq_set_on s)"
  by (simp add: irq_on_def irq_set_on_def SSTATUS_SIE_def bit_simps)

lemma run_mycpu [run]: "mycpu s = Done (tp s) s"
  by (simp add: mycpu_def cpuid_def r_tp_def run)

lemma run_cpuid [run]: "cpuid s = Done (tp s) s"
  by (simp add: cpuid_def r_tp_def run)

lemma run_upd_cpu [run]: "upd_cpu c f s = Done () (s\<lparr>cpus := upd (cpus s) c f\<rparr>)"
  by (simp add: upd_cpu_def run)

section \<open>Zeroed structures\<close>

text \<open>The structures of the machine layer as the loader leaves them.\<close>

definition zero_csr :: csr where
  "zero_csr = \<lparr>csr_sstatus = 0, csr_sie = 0, csr_sip = 0, csr_stvec = 0, csr_sepc = 0, csr_scause = 0,
     csr_stval = 0, csr_satp = 0\<rparr>"

definition zero_cpu :: cpu where
  "zero_cpu = \<lparr>cpu_proc = None, cpu_scheduler = zero_context, cpu_noff = 0, cpu_intena = False\<rparr>"

definition zero_lock :: spinlock where
  "zero_lock = \<lparr>sl_locked = 0, sl_name = [], sl_cpu = None\<rparr>"

definition boot_hw :: hw where
  "boot_hw = \<lparr>tp = 0, csrs = (\<lambda>_. zero_csr), cpus = (\<lambda>_. zero_cpu), locks = (\<lambda>_. zero_lock), ntest_and_set = 0\<rparr>"

lemmas zero_defs = zero_csr_def zero_cpu_def zero_lock_def

end
