(* ===== verification/Spinlock.thy ===== *)
theory Spinlock
  imports Machine
begin

text \<open>
  Spinlocks (\<^verbatim>\<open>kernel/spinlock.c\<close>).  The operations are modelled one for one on the
  machine state \<open>hw\<close>.  Two groups of results follow: what a hart that runs alone observes
  (nesting of \<^verbatim>\<open>push_off()\<close>, a critical section leaves the locks and the interrupt
  state as it found them, every panic), and what any interleaving of harts observes (mutual
  exclusion, and that no hart's \<^verbatim>\<open>acquire()\<close> or \<^verbatim>\<open>release()\<close> panics).
\<close>

section \<open>Operations\<close>

definition upd_lock :: "lockid \<Rightarrow> (spinlock \<Rightarrow> spinlock) \<Rightarrow> ('z hw_scheme, unit) kop" where
  "upd_lock l f = modify (\<lambda>s. s\<lparr>locks := upd (locks s) l f\<rparr>)"

definition initlock :: "lockid \<Rightarrow> string \<Rightarrow> ('z hw_scheme, unit) kop" where
  "initlock l name = upd_lock l (\<lambda>k. k\<lparr>sl_name := name, sl_locked := 0, sl_cpu := None\<rparr>)"

definition push_off :: "('z hw_scheme, unit) kop" where
  "push_off =
     bnd intr_get (\<lambda>old.
     thn intr_off (
     bnd mycpu (\<lambda>c.
     bnd (gets (\<lambda>s. cpu_noff (cpus s c))) (\<lambda>n.
     thn (whenM (n = 0) (upd_cpu c (\<lambda>p. p\<lparr>cpu_intena := old\<rparr>))) (
     upd_cpu c (\<lambda>p. p\<lparr>cpu_noff := cpu_noff p + 1\<rparr>))))))"

definition pop_off :: "('z hw_scheme, unit) kop" where
  "pop_off =
     bnd mycpu (\<lambda>c.
     bnd intr_get (\<lambda>on.
     thn (panic_if on ''pop_off - interruptible'') (
     thn (upd_cpu c (\<lambda>p. p\<lparr>cpu_noff := cpu_noff p - 1\<rparr>)) (
     bnd (gets (\<lambda>s. cpus s c)) (\<lambda>p.
     thn (panic_if (cpu_noff p < 0) ''pop_off'') (
     whenM (cpu_noff p = 0 \<and> cpu_intena p) intr_on))))))"

definition holding :: "lockid \<Rightarrow> ('z hw_scheme, bool) kop" where
  "holding l =
     thn push_off (
     bnd mycpu (\<lambda>c.
     bnd (gets (\<lambda>s. sl_locked (locks s l) \<noteq> 0 \<and> sl_cpu (locks s l) = Some c)) (\<lambda>r.
     thn pop_off (
     ret r))))"

text \<open>\<^verbatim>\<open>__sync_lock_test_and_set(&lk->locked, 1)\<close>: an atomic swap.\<close>

definition test_and_set :: "lockid \<Rightarrow> ('z hw_scheme, u32) kop" where
  "test_and_set l =
     bnd (gets (\<lambda>s. sl_locked (locks s l))) (\<lambda>old.
     thn (upd_lock l (\<lambda>k. k\<lparr>sl_locked := 1\<rparr>)) (
     ret old))"

text \<open>\<^verbatim>\<open>__sync_fetch_and_add(&ntest_and_set, 1)\<close>\<close>

definition count_spin :: "('z hw_scheme, unit) kop" where
  "count_spin = modify (\<lambda>s. s\<lparr>ntest_and_set := ntest_and_set s + 1\<rparr>)"

text \<open>
  The spinning loop: when the swap finds the lock taken, only another hart can end the loop, so a
  hart that runs alone is left spinning.
\<close>

definition acquire :: "lockid \<Rightarrow> ('z hw_scheme, unit) kop" where
  "acquire l =
     thn push_off (
     bnd (holding l) (\<lambda>h.
     thn (panic_if h ''acquire'') (
     bnd (test_and_set l) (\<lambda>old.
     if old \<noteq> 0 then thn count_spin (\<lambda>s. Spin s)
     else
     bnd mycpu (\<lambda>c.
     upd_lock l (\<lambda>k. k\<lparr>sl_cpu := Some c\<rparr>))))))"

text \<open>\<^verbatim>\<open>__sync_lock_release(&lk->locked)\<close>\<close>

definition lock_release :: "lockid \<Rightarrow> ('z hw_scheme, unit) kop" where
  "lock_release l = upd_lock l (\<lambda>k. k\<lparr>sl_locked := 0\<rparr>)"

definition release :: "lockid \<Rightarrow> ('z hw_scheme, unit) kop" where
  "release l =
     bnd (holding l) (\<lambda>h.
     thn (panic_if (\<not> h) ''release'') (
     thn (upd_lock l (\<lambda>k. k\<lparr>sl_cpu := None\<rparr>)) (
     thn (lock_release l) pop_off)))"

definition sys_ntas :: "('z hw_scheme, u64) kop" where
  "sys_ntas = gets ntest_and_set"

section \<open>What one hart observes\<close>

definition lk_free :: "lockid \<Rightarrow> 'z hw_scheme \<Rightarrow> bool" where
  "lk_free l s \<longleftrightarrow> sl_locked (locks s l) = 0"

definition lk_held :: "lockid \<Rightarrow> 'z hw_scheme \<Rightarrow> bool" where
  "lk_held l s \<longleftrightarrow> sl_locked (locks s l) \<noteq> 0 \<and> sl_cpu (locks s l) = Some (tp s)"

definition depth :: "'z hw_scheme \<Rightarrow> int" where
  "depth s = cpu_noff (cpus s (tp s))"

definition curproc :: "'z hw_scheme \<Rightarrow> nat option" where
  "curproc s = cpu_proc (cpus s (tp s))"

text \<open>The invariant of the interrupt nesting: interrupts are off while a lock is held.\<close>

definition irq_wf :: "'z hw_scheme \<Rightarrow> bool" where
  "irq_wf s \<longleftrightarrow> 0 \<le> depth s \<and> (0 < depth s \<longrightarrow> \<not> irq_on s)"

lemma irq_set_off_id: "\<not> irq_on s \<Longrightarrow> irq_set_off s = s"
proof -
  assume "\<not> irq_on s"
  then have "csr_sstatus (csrs s (tp s)) AND NOT SSTATUS_SIE = csr_sstatus (csrs s (tp s))"
    by (intro bit_word_eqI) (auto simp: irq_on_def SSTATUS_SIE_def bit_simps)
  then have "upd (csrs s) (tp s) (\<lambda>c. c\<lparr>csr_sstatus := csr_sstatus c AND NOT SSTATUS_SIE\<rparr>) = csrs s"
    by (simp add: upd_def fun_eq_iff)
  then show ?thesis
    unfolding irq_set_off_def by simp
qed

definition pushed :: "bool \<Rightarrow> cpu \<Rightarrow> cpu" where
  "pushed on p = p\<lparr>cpu_intena := (if cpu_noff p = 0 then on else cpu_intena p), cpu_noff := cpu_noff p + 1\<rparr>"

lemma pushed_simps [simp]:
  "cpu_noff (pushed on p) = cpu_noff p + 1"
  "cpu_proc (pushed on p) = cpu_proc p"
  "cpu_intena (pushed on p) = (if cpu_noff p = 0 then on else cpu_intena p)"
  "cpu_scheduler (pushed on p) = cpu_scheduler p"
  by (simp_all add: pushed_def)

lemma run_push_off [run]:
  "push_off s = Done () ((irq_set_off s)\<lparr>cpus := upd (cpus s) (tp s) (pushed (irq_on s))\<rparr>)"
  by (auto simp: push_off_def run pushed_def upd_def fun_eq_iff intro!: arg_cong2 [where f = fun_upd])

lemma run_pop_off:
  "pop_off s =
    (if irq_on s then Panic ''pop_off - interruptible'' s
     else let t = s\<lparr>cpus := upd (cpus s) (tp s) (\<lambda>p. p\<lparr>cpu_noff := cpu_noff p - 1\<rparr>)\<rparr> in
       if depth s \<le> 0 then Panic ''pop_off'' t
       else if depth s = 1 \<and> cpu_intena (cpus s (tp s)) then Done () (irq_set_on t)
       else Done () t)"
  by (auto simp: pop_off_def run depth_def Let_def)

text \<open>Inside a critical section \<^verbatim>\<open>holding()\<close> changes nothing.\<close>

lemma run_holding:
  assumes "\<not> irq_on s" and "0 < depth s"
  shows "holding l s = Done (lk_held l s) s"
proof -
  have id: "upd (upd (cpus s) (tp s) (pushed False)) (tp s) (\<lambda>p. p\<lparr>cpu_noff := cpu_noff p - 1\<rparr>) = cpus s"
    using assms(2) by (auto simp: upd_def fun_eq_iff pushed_def depth_def)
  have irq: "irq_on (s\<lparr>cpus := c\<rparr>) = irq_on s" for c
    by (simp add: irq_on_def)
  show ?thesis
    using assms id
    by (auto simp: holding_def run irq_set_off_id run_pop_off irq depth_def Let_def lk_held_def
        simp del: upd_upd_same)
qed

definition csrs_off :: "(nat \<Rightarrow> csr) \<Rightarrow> nat \<Rightarrow> nat \<Rightarrow> csr" where
  "csrs_off c h = upd c h (\<lambda>r. r\<lparr>csr_sstatus := csr_sstatus r AND NOT SSTATUS_SIE\<rparr>)"

definition csrs_on :: "(nat \<Rightarrow> csr) \<Rightarrow> nat \<Rightarrow> nat \<Rightarrow> csr" where
  "csrs_on c h = upd c h (\<lambda>r. r\<lparr>
     csr_sie := csr_sie r OR SIE_SEIE OR SIE_STIE OR SIE_SSIE,
     csr_sstatus := csr_sstatus r OR SSTATUS_SIE\<rparr>)"

definition locks_acq :: "(lockid \<Rightarrow> spinlock) \<Rightarrow> lockid \<Rightarrow> nat \<Rightarrow> lockid \<Rightarrow> spinlock" where
  "locks_acq k l h = upd k l (\<lambda>x. x\<lparr>sl_locked := 1, sl_cpu := Some h\<rparr>)"

definition locks_rel :: "(lockid \<Rightarrow> spinlock) \<Rightarrow> lockid \<Rightarrow> lockid \<Rightarrow> spinlock" where
  "locks_rel k l = upd k l (\<lambda>x. x\<lparr>sl_cpu := None, sl_locked := 0\<rparr>)"

definition acq :: "lockid \<Rightarrow> 'z hw_scheme \<Rightarrow> 'z hw_scheme" where
  "acq l s = s\<lparr>csrs := csrs_off (csrs s) (tp s),
     cpus := upd (cpus s) (tp s) (pushed (irq_on s)),
     locks := locks_acq (locks s) l (tp s)\<rparr>"

definition rel :: "lockid \<Rightarrow> 'z hw_scheme \<Rightarrow> 'z hw_scheme" where
  "rel l s = s\<lparr>
     locks := locks_rel (locks s) l,
     cpus := upd (cpus s) (tp s) (\<lambda>p. p\<lparr>cpu_noff := cpu_noff p - 1\<rparr>),
     csrs := (if depth s = 1 \<and> cpu_intena (cpus s (tp s)) then csrs_on (csrs s) (tp s) else csrs s)\<rparr>"

lemma run_acquire:
  assumes "irq_wf s" and "lk_free l s"
  shows "acquire l s = Done () (acq l s)"
proof -
  let ?t = "(irq_set_off s)\<lparr>cpus := upd (cpus s) (tp s) (pushed (irq_on s))\<rparr>"
  have "\<not> irq_on ?t"
    using irq_on_set_off [of s] by (simp add: irq_on_def)
  moreover have "0 < depth ?t"
    using assms(1) by (simp add: depth_def irq_wf_def)
  ultimately have h: "holding l ?t = Done (lk_held l ?t) ?t"
    by (rule run_holding)
  have "\<not> lk_held l ?t"
    using assms(2) by (simp add: lk_held_def lk_free_def)
  with h assms(2) show ?thesis
    by (simp add: acquire_def run test_and_set_def upd_lock_def acq_def lk_free_def
        irq_set_off_def csrs_off_def locks_acq_def upd_def)
qed

lemma run_acquire_held:
  assumes "irq_wf s" and "lk_held l s"
  shows "\<exists>t. acquire l s = Panic ''acquire'' t"
proof -
  let ?t = "(irq_set_off s)\<lparr>cpus := upd (cpus s) (tp s) (pushed (irq_on s))\<rparr>"
  have "\<not> irq_on ?t"
    using irq_on_set_off [of s] by (simp add: irq_on_def)
  moreover have "0 < depth ?t"
    using assms(1) by (simp add: depth_def irq_wf_def)
  ultimately have h: "holding l ?t = Done (lk_held l ?t) ?t"
    by (rule run_holding)
  have "lk_held l ?t"
    using assms(2) by (simp add: lk_held_def)
  with h show ?thesis
    by (simp add: acquire_def run)
qed

lemma run_release:
  assumes "irq_wf s" and "0 < depth s" and "lk_held l s"
  shows "release l s = Done () (rel l s)"
proof -
  have irq: "irq_on (s\<lparr>locks := k\<rparr>) = irq_on s" "depth (s\<lparr>locks := k\<rparr>) = depth s" for k
    by (simp_all add: irq_on_def depth_def)
  have off: "\<not> irq_on s"
    using assms(1,2) by (simp add: irq_wf_def)
  have h: "holding l s = Done True s"
    using run_holding [OF off assms(2)] assms(3) by simp
  show ?thesis
    using off assms(2) h irq
    by (simp add: release_def run upd_lock_def lock_release_def run_pop_off rel_def depth_def Let_def
        locks_rel_def csrs_on_def irq_set_on_def upd_def irq_on_def)
qed

lemma run_release_not_held:
  assumes "irq_wf s" and "0 < depth s" and "\<not> lk_held l s"
  shows "release l s = Panic ''release'' s"
proof -
  have "\<not> irq_on s"
    using assms(1,2) by (simp add: irq_wf_def)
  from run_holding [OF this assms(2)] assms(3) show ?thesis
    by (simp add: release_def run)
qed

text \<open>Outside a critical section \<^verbatim>\<open>holding()\<close> may switch interrupts, its answer is the same.\<close>

lemma run_holding_any:
  assumes "irq_wf s"
  shows "\<exists>t. holding l s = Done (lk_held l s) t"
proof (cases "0 < depth s")
  case True
  with assms have "\<not> irq_on s"
    by (simp add: irq_wf_def)
  from run_holding [OF this True] show ?thesis by blast
next
  case False
  let ?t = "(irq_set_off s)\<lparr>cpus := upd (cpus s) (tp s) (pushed (irq_on s))\<rparr>"
  have "\<not> irq_on ?t"
    using irq_on_set_off [of s] by (simp add: irq_on_def)
  moreover have "depth ?t = 1"
    using assms False by (simp add: depth_def irq_wf_def)
  ultimately have "\<exists>t. pop_off ?t = Done () t"
    by (simp add: run_pop_off Let_def)
  then show ?thesis
    by (auto simp: holding_def run lk_held_def)
qed

lemma run_release_refused:
  assumes "irq_wf s" and "\<not> lk_held l s"
  shows "\<exists>t. release l s = Panic ''release'' t"
  using run_holding_any [OF assms(1), of l] assms(2) by (auto simp: release_def run)

text \<open>A lock that another hart has: the swap finds it taken, and changes neither holder nor value.\<close>

lemma run_acquire_other:
  assumes "irq_wf s" and "\<not> lk_free l s" and "\<not> lk_held l s"
  shows "\<exists>t. acquire l s = Spin t \<and> sl_cpu (locks t l) = sl_cpu (locks s l) \<and> \<not> lk_free l t \<and>
    (\<forall>k. k \<noteq> l \<longrightarrow> locks t k = locks s k)"
proof -
  let ?t = "(irq_set_off s)\<lparr>cpus := upd (cpus s) (tp s) (pushed (irq_on s))\<rparr>"
  have "\<not> irq_on ?t"
    using irq_on_set_off [of s] by (simp add: irq_on_def)
  moreover have "0 < depth ?t"
    using assms(1) by (simp add: depth_def irq_wf_def)
  ultimately have h: "holding l ?t = Done (lk_held l ?t) ?t"
    by (rule run_holding)
  have "\<not> lk_held l ?t"
    using assms(3) by (simp add: lk_held_def)
  with h assms(2) show ?thesis
    by (simp add: acquire_def run test_and_set_def count_spin_def upd_lock_def lk_free_def upd_def)
qed

lemma irq_on_acq [simp]: "\<not> irq_on (acq l s)"
  by (simp add: irq_on_def acq_def csrs_off_def SSTATUS_SIE_def bit_simps)

lemma acq_simps [simp]:
  "tp (acq l s) = tp s"
  "depth (acq l s) = depth s + 1"
  "curproc (acq l s) = curproc s"
  "lk_held l (acq l s)"
  "lk_free l' (acq l s) \<longleftrightarrow> l' \<noteq> l \<and> lk_free l' s"
  "ntest_and_set (acq l s) = ntest_and_set s"
  by (auto simp: acq_def depth_def curproc_def lk_held_def lk_free_def locks_acq_def)

lemma lk_held_acq_other: "l' \<noteq> l \<Longrightarrow> lk_held l' (acq l s) = lk_held l' s"
  by (simp add: acq_def lk_held_def locks_acq_def)

lemma irq_wf_acq [simp]: "irq_wf s \<Longrightarrow> irq_wf (acq l s)"
  by (simp add: irq_wf_def)

lemma rel_simps [simp]:
  "tp (rel l s) = tp s"
  "depth (rel l s) = depth s - 1"
  "curproc (rel l s) = curproc s"
  "lk_free l' (rel l s) \<longleftrightarrow> l' = l \<or> lk_free l' s"
  "ntest_and_set (rel l s) = ntest_and_set s"
  by (auto simp: rel_def depth_def curproc_def lk_free_def locks_rel_def)

lemma lk_held_rel_other: "l' \<noteq> l \<Longrightarrow> lk_held l' (rel l s) = lk_held l' s"
  by (simp add: rel_def lk_held_def locks_rel_def)

lemma irq_on_rel:
  "\<not> irq_on s \<Longrightarrow> irq_on (rel l s) \<longleftrightarrow> depth s = 1 \<and> cpu_intena (cpus s (tp s))"
  by (auto simp: rel_def irq_on_def csrs_on_def SSTATUS_SIE_def bit_simps)

lemma irq_wf_rel: "irq_wf s \<Longrightarrow> 0 < depth s \<Longrightarrow> irq_wf (rel l s)"
  by (auto simp: irq_wf_def irq_on_rel)

text \<open>An unlocked lock as \<^verbatim>\<open>initlock()\<close> and \<^verbatim>\<open>release()\<close> leave it.\<close>

definition lk_clean :: "lockid \<Rightarrow> 'z hw_scheme \<Rightarrow> bool" where
  "lk_clean l s \<longleftrightarrow> sl_locked (locks s l) = 0 \<and> sl_cpu (locks s l) = None"

lemma lk_clean_free: "lk_clean l s \<Longrightarrow> lk_free l s"
  by (simp add: lk_clean_def lk_free_def)

text \<open>Two states that agree on the machine layer.\<close>

definition same_hw :: "'z hw_scheme \<Rightarrow> 'z hw_scheme \<Rightarrow> bool" where
  "same_hw s t \<longleftrightarrow> tp t = tp s \<and> csrs t = csrs s \<and> cpus t = cpus s \<and> locks t = locks s"

text \<open>
  Balanced: the locks, the nesting depth, the interrupt state and the running process are as
  before, and the other harts' state is untouched.  (\<open>cpu_intena\<close> of the running hart is
  scratch at depth 0, and \<^verbatim>\<open>intr_on()\<close> may have set bits of \<^verbatim>\<open>sie\<close>.)
\<close>

definition hw_bal :: "'z hw_scheme \<Rightarrow> 'z hw_scheme \<Rightarrow> bool" where
  "hw_bal s t \<longleftrightarrow> tp t = tp s \<and> locks t = locks s \<and> depth t = depth s \<and> curproc t = curproc s
     \<and> irq_on t = irq_on s
     \<and> (0 < depth s \<longrightarrow> cpu_intena (cpus t (tp s)) = cpu_intena (cpus s (tp s)))
     \<and> (\<forall>h. h \<noteq> tp s \<longrightarrow> csrs t h = csrs s h \<and> cpus t h = cpus s h)"

lemma hw_bal_refl [simp]: "hw_bal s s"
  by (simp add: hw_bal_def)

lemma hw_bal_trans: "hw_bal s t \<Longrightarrow> hw_bal t u \<Longrightarrow> hw_bal s u"
  by (auto simp: hw_bal_def)

lemma hw_bal_irq_wf: "hw_bal s t \<Longrightarrow> irq_wf s \<Longrightarrow> irq_wf t"
  by (simp add: hw_bal_def irq_wf_def)

lemma hw_bal_lk: "hw_bal s t \<Longrightarrow> lk_free l t = lk_free l s \<and> lk_clean l t = lk_clean l s \<and> lk_held l t = lk_held l s"
  by (simp add: hw_bal_def lk_free_def lk_clean_def lk_held_def)

lemma same_hw_refl [simp]: "same_hw s s"
  by (simp add: same_hw_def)

lemma same_hw_simps:
  assumes "same_hw s t"
  shows "tp t = tp s" "depth t = depth s" "curproc t = curproc s" "irq_on t = irq_on s"
    "irq_wf t = irq_wf s" "lk_held l t = lk_held l s" "lk_free l t = lk_free l s"
  using assms by (simp_all add: same_hw_def depth_def curproc_def irq_on_def irq_wf_def lk_held_def lk_free_def)

text \<open>
  A critical section is balanced, whatever its body does above the machine layer: the lock can be
  released, and afterwards the hart is where it was.
\<close>

lemma section_release:
  assumes "irq_wf s" and "same_hw (acq l s) u"
  shows "release l u = Done () (rel l u)"
  using run_release [of u l] assms by (simp add: same_hw_simps irq_wf_def)

lemma section_balanced:
  assumes "irq_wf s" and "lk_clean l s" and "same_hw (acq l s) u"
  shows "hw_bal s (rel l u)"
proof -
  have eqs: "tp u = tp s" "csrs u = csrs_off (csrs s) (tp s)"
    "cpus u = upd (cpus s) (tp s) (pushed (irq_on s))" "locks u = locks_acq (locks s) l (tp s)"
    using assms(3) by (simp_all add: same_hw_def acq_def)
  have "locks (rel l u) = locks s"
    using assms(2) by (simp add: rel_def eqs locks_rel_def locks_acq_def lk_clean_def fun_eq_iff)
  moreover have "irq_on (rel l u) = irq_on s"
    using assms(1) same_hw_simps(4) [OF assms(3)]
    by (auto simp: irq_on_rel irq_wf_def depth_def eqs)
  ultimately show ?thesis
    using assms(1)
    by (auto simp: hw_bal_def rel_def eqs depth_def curproc_def csrs_off_def csrs_on_def irq_wf_def)
qed

subsection \<open>Nesting\<close>

primrec repeatM :: "nat \<Rightarrow> ('s, unit) kop \<Rightarrow> ('s, unit) kop" where
  "repeatM 0 f = skip"
| "repeatM (Suc n) f = thn f (repeatM n f)"

lemma push_off_step:
  assumes "irq_wf s"
  shows "\<exists>t. push_off s = Done () t \<and> depth t = depth s + 1 \<and> irq_wf t \<and> \<not> irq_on t"
proof -
  let ?t = "(irq_set_off s)\<lparr>cpus := upd (cpus s) (tp s) (pushed (irq_on s))\<rparr>"
  have "\<not> irq_on ?t"
    using irq_on_set_off [of s] by (simp add: irq_on_def)
  then show ?thesis
    using assms by (simp add: run depth_def irq_wf_def)
qed

lemma pop_off_after_push:
  assumes "irq_wf s" and "push_off s = Done () t" and "hw_bal t u"
  shows "\<exists>v. pop_off u = Done () v \<and> hw_bal s v"
proof -
  have t: "t = (irq_set_off s)\<lparr>cpus := upd (cpus s) (tp s) (pushed (irq_on s))\<rparr>"
    using assms(2) by (simp add: run)
  let ?w = "u\<lparr>cpus := upd (cpus u) (tp u) (\<lambda>p. p\<lparr>cpu_noff := cpu_noff p - 1\<rparr>)\<rparr>"
  let ?v = "if depth u = 1 \<and> cpu_intena (cpus u (tp u)) then irq_set_on ?w else ?w"
  have off: "\<not> irq_on t"
    using irq_on_set_off [of s] unfolding t by (simp add: irq_on_def)
  have d: "depth t = depth s + 1"
    unfolding t by (simp add: depth_def)
  have u: "tp u = tp s" "locks u = locks s" "depth u = depth s + 1" "curproc u = curproc s"
      "\<not> irq_on u" "cpu_intena (cpus u (tp s)) = (if depth s = 0 then irq_on s else cpu_intena (cpus s (tp s)))"
    using assms(3) off d assms(1) unfolding hw_bal_def t
    by (auto simp: curproc_def depth_def irq_wf_def)
  have other: "csrs u h = csrs s h \<and> cpus u h = cpus s h" if "h \<noteq> tp s" for h
    using assms(3) that unfolding hw_bal_def t by (auto simp: irq_set_off_def)
  have "pop_off u = Done () ?v"
    using u assms(1) by (auto simp: run_pop_off Let_def irq_wf_def)
  moreover have "irq_on ?w = irq_on u"
    by (simp add: irq_on_def)
  then have "irq_on ?v = irq_on s"
    using u assms(1) by (auto simp: irq_wf_def)
  then have "hw_bal s ?v"
    using u other assms(1)
    by (auto simp: hw_bal_def depth_def curproc_def irq_set_on_def irq_wf_def)
  ultimately show ?thesis by blast
qed

lemma repeatM_snoc: "thn (repeatM n f) f s = thn f (repeatM n f) s"
  by (induction n arbitrary: s) (auto simp: run split: outcome.splits)

lemma push_pop_nest:
  "irq_wf s \<Longrightarrow> \<exists>t. thn (repeatM n push_off) (repeatM n pop_off) s = Done () t \<and> hw_bal s t"
proof (induction n arbitrary: s)
  case 0
  then show ?case by (simp add: run)
next
  case (Suc n)
  obtain t where t: "push_off s = Done () t" "irq_wf t"
    using push_off_step [OF Suc.prems] by blast
  obtain u where u: "thn (repeatM n push_off) (repeatM n pop_off) t = Done () u" "hw_bal t u"
    using Suc.IH [OF t(2)] by blast
  obtain v where v: "pop_off u = Done () v" "hw_bal s v"
    using pop_off_after_push [OF Suc.prems t(1) u(2)] by blast
  have "thn (repeatM (Suc n) push_off) (repeatM (Suc n) pop_off) s
      = thn (repeatM n push_off) (thn (repeatM n pop_off) pop_off) t"
    using t(1) by (simp add: run repeatM_snoc [simplified run] split: outcome.splits)
  also have "\<dots> = thn (thn (repeatM n push_off) (repeatM n pop_off)) pop_off t"
    by (simp add: run split: outcome.splits)
  also have "\<dots> = Done () v"
    using u(1) v(1) by (simp add: run split: outcome.splits)
  finally show ?case
    using v(2) by blast
qed

section \<open>What interleaved harts observe\<close>

text \<open>
  The steps of \<^verbatim>\<open>acquire()\<close> and \<^verbatim>\<open>release()\<close> between two accesses to the
  lock word, and where a hart stands between them.
\<close>

definition acquire_enter :: "lockid \<Rightarrow> ('z hw_scheme, unit) kop" where
  "acquire_enter l = thn push_off (bnd (holding l) (\<lambda>h. panic_if h ''acquire''))"

definition acquire_record :: "lockid \<Rightarrow> ('z hw_scheme, unit) kop" where
  "acquire_record l = bnd mycpu (\<lambda>c. upd_lock l (\<lambda>k. k\<lparr>sl_cpu := Some c\<rparr>))"

definition release_enter :: "lockid \<Rightarrow> ('z hw_scheme, unit) kop" where
  "release_enter l = bnd (holding l) (\<lambda>h. thn (panic_if (\<not> h) ''release'') (upd_lock l (\<lambda>k. k\<lparr>sl_cpu := None\<rparr>)))"

lemma acquire_steps:
  "acquire l s = thn (acquire_enter l) (bnd (test_and_set l) (\<lambda>old.
     if old \<noteq> 0 then thn count_spin (\<lambda>s. Spin s) else acquire_record l)) s"
  by (simp add: acquire_def acquire_enter_def acquire_record_def run split: outcome.splits)

lemma release_steps:
  "release l s = thn (release_enter l) (thn (lock_release l) pop_off) s"
  by (simp add: release_def release_enter_def run split: outcome.splits)

datatype lpc = Outside | Spinning | Got | Critical | Releasing | Popping | Panicked

record spin_sys =
  sys_hw :: hw
  sys_pc :: "nat \<Rightarrow> lpc"

definition goto_pc :: "spin_sys \<Rightarrow> nat \<Rightarrow> hw \<Rightarrow> lpc \<Rightarrow> spin_sys" where
  "goto_pc S h t p = S\<lparr>sys_hw := t, sys_pc := (sys_pc S)(h := p)\<rparr>"

abbreviation hart_state :: "spin_sys \<Rightarrow> nat \<Rightarrow> hw" where
  "hart_state S h \<equiv> (sys_hw S)\<lparr>tp := h\<rparr>"

text \<open>One hart makes its next step; which one is not determined.\<close>

inductive spin_step :: "lockid \<Rightarrow> spin_sys \<Rightarrow> spin_sys \<Rightarrow> bool" for l where
  enter: "sys_pc S h = Outside \<Longrightarrow> acquire_enter l (hart_state S h) = Done () t
    \<Longrightarrow> spin_step l S (goto_pc S h t Spinning)"
| enter_panic: "sys_pc S h = Outside \<Longrightarrow> acquire_enter l (hart_state S h) = Panic m t
    \<Longrightarrow> spin_step l S (goto_pc S h t Panicked)"
| spin: "sys_pc S h = Spinning \<Longrightarrow> test_and_set l (hart_state S h) = Done old u \<Longrightarrow> old \<noteq> 0
    \<Longrightarrow> count_spin u = Done () t \<Longrightarrow> spin_step l S (goto_pc S h t Spinning)"
| got: "sys_pc S h = Spinning \<Longrightarrow> test_and_set l (hart_state S h) = Done 0 t
    \<Longrightarrow> spin_step l S (goto_pc S h t Got)"
| note_cpu: "sys_pc S h = Got \<Longrightarrow> acquire_record l (hart_state S h) = Done () t
    \<Longrightarrow> spin_step l S (goto_pc S h t Critical)"
| leave: "sys_pc S h = Critical \<Longrightarrow> release_enter l (hart_state S h) = Done () t
    \<Longrightarrow> spin_step l S (goto_pc S h t Releasing)"
| leave_panic: "sys_pc S h = Critical \<Longrightarrow> release_enter l (hart_state S h) = Panic m t
    \<Longrightarrow> spin_step l S (goto_pc S h t Panicked)"
| unlock: "sys_pc S h = Releasing \<Longrightarrow> lock_release l (hart_state S h) = Done () t
    \<Longrightarrow> spin_step l S (goto_pc S h t Popping)"
| pop: "sys_pc S h = Popping \<Longrightarrow> pop_off (hart_state S h) = Done () t
    \<Longrightarrow> spin_step l S (goto_pc S h t Outside)"
| pop_panic: "sys_pc S h = Popping \<Longrightarrow> pop_off (hart_state S h) = Panic m t
    \<Longrightarrow> spin_step l S (goto_pc S h t Panicked)"

inductive spin_reach :: "lockid \<Rightarrow> spin_sys \<Rightarrow> bool" for l where
  init: "lk_clean l (sys_hw S) \<Longrightarrow> (\<And>h. sys_pc S h = Outside \<and> cpu_noff (cpus (sys_hw S) h) = 0)
    \<Longrightarrow> spin_reach l S"
| step: "spin_reach l S \<Longrightarrow> spin_step l S T \<Longrightarrow> spin_reach l T"

text \<open>The lock word, its owner field and the harts' positions agree.\<close>

definition owner_pc :: "lpc \<Rightarrow> bool" where
  "owner_pc p \<longleftrightarrow> p = Got \<or> p = Critical \<or> p = Releasing"

lemma owner_pc_simps [simp]:
  "owner_pc Got" "owner_pc Critical" "owner_pc Releasing"
  "\<not> owner_pc Outside" "\<not> owner_pc Spinning" "\<not> owner_pc Popping" "\<not> owner_pc Panicked"
  by (simp_all add: owner_pc_def)

definition spin_inv :: "lockid \<Rightarrow> spin_sys \<Rightarrow> bool" where
  "spin_inv l S \<longleftrightarrow>
     (\<forall>h. sys_pc S h \<noteq> Panicked) \<and>
     (\<forall>h g. owner_pc (sys_pc S h) \<longrightarrow> owner_pc (sys_pc S g) \<longrightarrow> h = g) \<and>
     (\<forall>h. owner_pc (sys_pc S h) \<longrightarrow> sl_locked (locks (sys_hw S) l) \<noteq> 0) \<and>
     (\<forall>h. sl_cpu (locks (sys_hw S) l) = Some h \<longleftrightarrow> sys_pc S h = Critical) \<and>
     (\<forall>h. sys_pc S h = Outside \<longrightarrow> cpu_noff (cpus (sys_hw S) h) = 0) \<and>
     (\<forall>h. sys_pc S h \<noteq> Outside \<longrightarrow> cpu_noff (cpus (sys_hw S) h) = 1) \<and>
     (\<forall>h. sys_pc S h \<noteq> Outside \<longrightarrow> \<not> irq_on (hart_state S h))"

lemma spin_inv_init:
  "lk_clean l (sys_hw S) \<Longrightarrow> (\<And>h. sys_pc S h = Outside \<and> cpu_noff (cpus (sys_hw S) h) = 0) \<Longrightarrow> spin_inv l S"
  by (simp add: spin_inv_def owner_pc_def lk_clean_def)

lemma run_acquire_enter:
  assumes "irq_wf s"
  shows "acquire_enter l s =
    (let t = s\<lparr>csrs := csrs_off (csrs s) (tp s), cpus := upd (cpus s) (tp s) (pushed (irq_on s))\<rparr>
     in if lk_held l s then Panic ''acquire'' t else Done () t)"
proof -
  let ?t = "s\<lparr>csrs := csrs_off (csrs s) (tp s), cpus := upd (cpus s) (tp s) (pushed (irq_on s))\<rparr>"
  have p: "push_off s = Done () ?t"
    by (simp add: run irq_set_off_def csrs_off_def)
  have "\<not> irq_on ?t"
    by (simp add: irq_on_def csrs_off_def SSTATUS_SIE_def bit_simps)
  moreover have "0 < depth ?t"
    using assms by (simp add: depth_def irq_wf_def)
  ultimately have "holding l ?t = Done (lk_held l ?t) ?t"
    by (rule run_holding)
  moreover have "lk_held l ?t = lk_held l s"
    by (simp add: lk_held_def)
  ultimately show ?thesis
    using p by (simp add: acquire_enter_def Let_def run del: run_push_off)
qed

lemma run_release_enter:
  assumes "\<not> irq_on s" and "0 < depth s"
  shows "release_enter l s =
    (if lk_held l s then Done () (s\<lparr>locks := upd (locks s) l (\<lambda>k. k\<lparr>sl_cpu := None\<rparr>)\<rparr>) else Panic ''release'' s)"
  using run_holding [OF assms] by (simp add: release_enter_def run upd_lock_def)

lemma spin_inv_owner:
  "spin_inv l S \<Longrightarrow> owner_pc (sys_pc S h) \<Longrightarrow>
     sl_locked (locks (sys_hw S) l) \<noteq> 0 \<and> (\<forall>g. g \<noteq> h \<longrightarrow> \<not> owner_pc (sys_pc S g))"
  unfolding spin_inv_def by blast

lemma spin_step_inv:
  assumes "spin_step l S T" and "spin_inv l S"
  shows "spin_inv l T"
  using assms
proof (induction rule: spin_step.induct)
  case (enter S h t)
  then have "irq_wf (hart_state S h)" and "\<not> lk_held l (hart_state S h)"
    by (auto simp: irq_wf_def depth_def spin_inv_def lk_held_def)
  with enter show ?case
    by (auto simp: run_acquire_enter Let_def goto_pc_def spin_inv_def irq_on_def csrs_off_def
        SSTATUS_SIE_def bit_simps)
next
  case (enter_panic S h m t)
  then have "irq_wf (hart_state S h)" and "\<not> lk_held l (hart_state S h)"
    by (auto simp: irq_wf_def depth_def spin_inv_def lk_held_def)
  with enter_panic show ?case
    by (auto simp: run_acquire_enter Let_def)
next
  case (spin S h old u t)
  then show ?case
    by (auto simp: test_and_set_def count_spin_def upd_lock_def run goto_pc_def spin_inv_def irq_on_def)
next
  case (got S h t)
  then have "sl_locked (locks (sys_hw S) l) = 0"
    by (simp add: test_and_set_def upd_lock_def run)
  with got have "\<not> owner_pc (sys_pc S g)" for g
    by (auto simp: spin_inv_def)
  with got show ?case
    by (auto simp: test_and_set_def upd_lock_def run goto_pc_def spin_inv_def irq_on_def)
next
  case (note_cpu S h t)
  then have "sl_locked (locks (sys_hw S) l) \<noteq> 0 \<and> (\<forall>g. g \<noteq> h \<longrightarrow> \<not> owner_pc (sys_pc S g))"
    using spin_inv_owner [of l S h] by simp
  with note_cpu show ?case
    by (auto simp: acquire_record_def upd_lock_def run goto_pc_def spin_inv_def irq_on_def)
next
  case (leave S h t)
  then have "\<not> irq_on (hart_state S h)" and "0 < depth (hart_state S h)" and "owner_pc (sys_pc S h)"
    and "cpu_noff (cpus (sys_hw S) h) = 1"
    by (auto simp: spin_inv_def depth_def)
  moreover have "sl_locked (locks (sys_hw S) l) \<noteq> 0 \<and> (\<forall>g. g \<noteq> h \<longrightarrow> \<not> owner_pc (sys_pc S g))"
    using spin_inv_owner [of l S h] leave by simp
  ultimately show ?case
    using leave
    by (auto simp: run_release_enter goto_pc_def spin_inv_def irq_on_def split: if_splits)
next
  case (leave_panic S h m t)
  then have "sl_locked (locks (sys_hw S) l) \<noteq> 0"
    using spin_inv_owner [of l S h] by simp
  with leave_panic have "\<not> irq_on (hart_state S h)" and "0 < depth (hart_state S h)" and "lk_held l (hart_state S h)"
    by (auto simp: spin_inv_def depth_def lk_held_def)
  with leave_panic show ?case
    by (auto simp: run_release_enter)
next
  case (unlock S h t)
  then have "sl_locked (locks (sys_hw S) l) \<noteq> 0 \<and> (\<forall>g. g \<noteq> h \<longrightarrow> \<not> owner_pc (sys_pc S g))"
    using spin_inv_owner [of l S h] by simp
  with unlock show ?case
    by (auto simp: lock_release_def upd_lock_def run goto_pc_def spin_inv_def irq_on_def)
next
  case (pop S h t)
  then have "\<not> irq_on (hart_state S h)" and "depth (hart_state S h) = 1"
    by (auto simp: spin_inv_def depth_def)
  with pop show ?case
    by (auto simp: run_pop_off Let_def goto_pc_def spin_inv_def irq_on_def irq_set_on_def
        depth_def split: if_splits)
next
  case (pop_panic S h m t)
  then have "\<not> irq_on (hart_state S h)" and "depth (hart_state S h) = 1"
    by (auto simp: spin_inv_def depth_def)
  with pop_panic show ?case
    by (auto simp: run_pop_off Let_def split: if_splits)
qed

lemma spin_reach_inv: "spin_reach l S \<Longrightarrow> spin_inv l S"
  by (induction rule: spin_reach.induct) (auto intro: spin_inv_init spin_step_inv)

section \<open>Properties\<close>

text \<open>
  C2: In every interleaving of harts that acquire and release a spinlock, starting from an unlocked
  lock, at most one hart is in the critical section, the lock records that hart as its holder, and no
  call of \<^verbatim>\<open>acquire()\<close> or \<^verbatim>\<open>release()\<close> panics.
\<close>

theorem spinlock_mutual_exclusion:
  assumes "spin_reach l S"
  shows "(\<forall>h g. sys_pc S h = Critical \<and> sys_pc S g = Critical \<longrightarrow> h = g) \<and>
    (\<forall>h. sys_pc S h = Critical \<longrightarrow> sl_locked (locks (sys_hw S) l) \<noteq> 0 \<and> sl_cpu (locks (sys_hw S) l) = Some h) \<and>
    (\<forall>h. sys_pc S h \<noteq> Panicked)"
proof -
  have "spin_inv l S" using assms by (rule spin_reach_inv)
  then show ?thesis unfolding spin_inv_def by (metis owner_pc_simps(2))
qed

definition boot_sys :: spin_sys where
  "boot_sys = \<lparr>sys_hw = boot_hw, sys_pc = (\<lambda>_. Outside)\<rparr>"

lemma reach_boot_sys: "spin_reach l boot_sys"
  by (rule spin_reach.init) (simp_all add: boot_sys_def lk_clean_def boot_hw_def zero_defs)

lemma boot_hart_0_enters: "\<exists>S. spin_reach l S \<and> sys_pc S 0 = Critical"
proof -
  let ?s1 = "boot_hw\<lparr>csrs := csrs_off (\<lambda>_. zero_csr) 0, cpus := upd (\<lambda>_. zero_cpu) 0 (pushed False)\<rparr>"
  let ?s2 = "?s1\<lparr>locks := upd (\<lambda>_. zero_lock) l (\<lambda>k. k\<lparr>sl_locked := 1\<rparr>)\<rparr>"
  let ?S1 = "goto_pc boot_sys 0 ?s1 Spinning"
  let ?S2 = "goto_pc ?S1 0 ?s2 Got"
  have b: "hart_state boot_sys 0 = boot_hw" by (simp add: boot_sys_def boot_hw_def)
  have "irq_wf boot_hw" "\<not> lk_held l boot_hw" "\<not> irq_on boot_hw"
    by (simp_all add: irq_wf_def depth_def irq_on_def lk_held_def boot_hw_def zero_defs)
  then have "acquire_enter l (hart_state boot_sys 0) = Done () ?s1"
    unfolding b by (simp add: run_acquire_enter Let_def boot_hw_def)
  then have "spin_step l boot_sys ?S1"
    by (intro spin_step.enter) (simp add: boot_sys_def)
  moreover have "test_and_set l (hart_state ?S1 0) = Done 0 ?s2"
    by (simp add: goto_pc_def test_and_set_def upd_lock_def run boot_hw_def zero_defs)
  then have "spin_step l ?S1 ?S2"
    by (intro spin_step.got) (simp add: goto_pc_def)
  moreover obtain t where "acquire_record l (hart_state ?S2 0) = Done () t"
    by (simp add: acquire_record_def upd_lock_def run)
  then have "spin_step l ?S2 (goto_pc ?S2 0 t Critical)"
    by (intro spin_step.note_cpu) (simp add: goto_pc_def)
  ultimately have "spin_reach l (goto_pc ?S2 0 t Critical)"
    using reach_boot_sys spin_reach.step by blast
  then show ?thesis by (intro exI conjI) (auto simp: goto_pc_def)
qed

theorem spinlock_mutual_exclusion_witness:
  "\<exists>S. spin_reach KmemLock S \<and> sys_pc S 0 = Critical \<and> sys_pc S 1 \<noteq> Critical"
proof -
  obtain S where S: "spin_reach KmemLock S" "sys_pc S 0 = Critical"
    using boot_hart_0_enters by blast
  from spinlock_mutual_exclusion [OF S(1)] S(2) have "sys_pc S 1 \<noteq> Critical"
    by (metis one_neq_zero)
  with S show ?thesis by blast
qed

text \<open>
  C31: A critical section, on every state of the lock.  A free lock is taken and interrupts are
  switched off; whatever the section does above the machine layer, \<^verbatim>\<open>release()\<close> then succeeds
  and afterwards locks and interrupt state are those before the section.  Acquiring a lock that this
  hart holds panics; acquiring one that another hart holds spins and leaves it to that hart.
  Releasing any lock that this hart does not hold panics, also one that another hart holds.
\<close>

theorem critical_section:
  assumes "irq_wf s" and "lk_free l s \<longrightarrow> lk_clean l s"
  shows "(lk_free l s \<longrightarrow>
      acquire l s = Done () (acq l s) \<and> lk_held l (acq l s) \<and> \<not> irq_on (acq l s) \<and>
      (\<forall>u. same_hw (acq l s) u \<longrightarrow> (\<exists>t. release l u = Done () t \<and> hw_bal s t))) \<and>
    (lk_held l s \<longrightarrow> (\<exists>t. acquire l s = Panic ''acquire'' t)) \<and>
    (\<not> lk_free l s \<and> \<not> lk_held l s \<longrightarrow>
      (\<exists>t. acquire l s = Spin t \<and> sl_cpu (locks t l) = sl_cpu (locks s l) \<and> \<not> lk_free l t)) \<and>
    (\<not> lk_held l s \<longrightarrow> (\<exists>t. release l s = Panic ''release'' t))"
proof (intro conjI impI)
  assume "lk_free l s"
  with assms have clean: "lk_clean l s" by blast
  show "acquire l s = Done () (acq l s)"
    using assms(1) clean by (intro run_acquire lk_clean_free)
  show "\<forall>u. same_hw (acq l s) u \<longrightarrow> (\<exists>t. release l u = Done () t \<and> hw_bal s t)"
    using section_release [OF assms(1)] section_balanced [OF assms(1) clean] by blast
qed (use run_acquire_held [OF assms(1)] run_acquire_other [OF assms(1)] run_release_refused [OF assms(1)]
  in \<open>(simp | blast)+\<close>)

text \<open>
  The witness: hart 0 takes the lock, balanced; while hart 0 has it, hart 1 can neither take nor
  release it, and hart 0 cannot take it twice.
\<close>

theorem critical_section_witness:
  "(\<exists>t. release KmemLock (acq KmemLock boot_hw) = Done () t \<and> hw_bal boot_hw t) \<and>
   (\<exists>t. acquire KmemLock (acq KmemLock boot_hw) = Panic ''acquire'' t) \<and>
   (\<exists>t. acquire KmemLock ((acq KmemLock boot_hw)\<lparr>tp := 1\<rparr>) = Spin t) \<and>
   (\<exists>t. release KmemLock ((acq KmemLock boot_hw)\<lparr>tp := 1\<rparr>) = Panic ''release'' t)"
proof -
  let ?s = "acq KmemLock boot_hw"
  have 0: "irq_wf boot_hw" "lk_clean KmemLock boot_hw"
    by (simp_all add: irq_wf_def depth_def irq_on_def boot_hw_def lk_clean_def zero_defs)
  have 1: "irq_wf ?s" "lk_held KmemLock ?s" "\<not> lk_free KmemLock ?s"
    using 0 by simp_all
  have 2: "irq_wf (?s\<lparr>tp := 1\<rparr>)" "\<not> lk_held KmemLock (?s\<lparr>tp := 1\<rparr>)" "\<not> lk_free KmemLock (?s\<lparr>tp := 1\<rparr>)"
    by (simp_all add: irq_wf_def depth_def irq_on_def lk_held_def lk_free_def acq_def locks_acq_def
        csrs_off_def boot_hw_def zero_defs)
  show ?thesis
    using critical_section [of boot_hw KmemLock] 0 critical_section [of ?s KmemLock] 1
      critical_section [of "?s\<lparr>tp := 1\<rparr>" KmemLock] 2
    by (simp add: lk_clean_free) blast
qed

end
