(* ===== verification/CString.thy ===== *)
theory CString
  imports Machine
begin

text \<open>
  Memory and string routines (\<^verbatim>\<open>kernel/string.c\<close>).

  \<^verbatim>\<open>memset\<close> and \<^verbatim>\<open>memmove\<close> work on physical memory, where two regions may
  overlap; addresses are 64-bit words and pointer arithmetic wraps.  The other routines read or
  write one object each: an object behind a \<^verbatim>\<open>char *\<close> is a function from offsets to
  bytes (\<open>at_mem m p\<close> for a pointer into memory, \<open>at_list xs\<close> for a typed buffer of
  the kernel).
\<close>

section \<open>Memory\<close>

type_synonym memory = "u64 \<Rightarrow> u8"

definition in_region :: "u64 \<Rightarrow> u64 \<Rightarrow> nat \<Rightarrow> bool" where
  "in_region a p n \<longleftrightarrow> unat (a - p) < n"

primrec memset_loop :: "u8 \<Rightarrow> nat \<Rightarrow> u64 \<Rightarrow> memory \<Rightarrow> memory" where
  "memset_loop c 0 p m = m"
| "memset_loop c (Suc k) p m = memset_loop c k (p + 1) (m(p := c))"

definition memset :: "u64 \<Rightarrow> u32 \<Rightarrow> u32 \<Rightarrow> memory \<Rightarrow> memory" where
  "memset dst c n m = memset_loop (ucast c) (unat n) dst m"

text \<open>\<^verbatim>\<open>*d++ = *s++\<close> and \<^verbatim>\<open>*--d = *--s\<close>, \<open>n\<close> times.\<close>

primrec copy_up :: "nat \<Rightarrow> u64 \<Rightarrow> u64 \<Rightarrow> memory \<Rightarrow> memory" where
  "copy_up 0 d s m = m"
| "copy_up (Suc k) d s m = copy_up k (d + 1) (s + 1) (m(d := m s))"

primrec copy_down :: "nat \<Rightarrow> u64 \<Rightarrow> u64 \<Rightarrow> memory \<Rightarrow> memory" where
  "copy_down 0 d s m = m"
| "copy_down (Suc k) d s m = copy_down k (d - 1) (s - 1) (m(d - 1 := m (s - 1)))"

definition memmove :: "u64 \<Rightarrow> u64 \<Rightarrow> u32 \<Rightarrow> memory \<Rightarrow> memory" where
  "memmove dst src n m =
     (if src < dst \<and> src + ucast n > dst
      then copy_down (unat n) (dst + ucast n) (src + ucast n) m
      else copy_up (unat n) dst src m)"

definition memcpy :: "u64 \<Rightarrow> u64 \<Rightarrow> u32 \<Rightarrow> memory \<Rightarrow> memory" where
  "memcpy dst src n m = memmove dst src n m"

section \<open>Strings\<close>

type_synonym cobj = "nat \<Rightarrow> u8"

definition at_mem :: "memory \<Rightarrow> u64 \<Rightarrow> cobj" where
  "at_mem m p = (\<lambda>i. m (p + of_nat i))"

definition at_list :: "u8 list \<Rightarrow> cobj" where
  "at_list xs = (\<lambda>i. if i < length xs then xs ! i else 0)"

text \<open>\<^verbatim>\<open>while(n-- > 0)\<close> over two objects at offset \<open>i\<close>.\<close>

primrec memcmp_loop :: "nat \<Rightarrow> cobj \<Rightarrow> cobj \<Rightarrow> nat \<Rightarrow> int" where
  "memcmp_loop 0 s1 s2 i = 0"
| "memcmp_loop (Suc n) s1 s2 i =
     (if s1 i \<noteq> s2 i then uint (s1 i) - uint (s2 i) else memcmp_loop n s1 s2 (i + 1))"

definition memcmp :: "cobj \<Rightarrow> cobj \<Rightarrow> u32 \<Rightarrow> int" where
  "memcmp v1 v2 n = memcmp_loop (unat n) v1 v2 0"

primrec strncmp_loop :: "nat \<Rightarrow> cobj \<Rightarrow> cobj \<Rightarrow> nat \<Rightarrow> int" where
  "strncmp_loop 0 p q i = 0"
| "strncmp_loop (Suc n) p q i =
     (if p i \<noteq> 0 \<and> p i = q i then strncmp_loop n p q (i + 1) else uint (p i) - uint (q i))"

definition strncmp :: "cobj \<Rightarrow> cobj \<Rightarrow> u32 \<Rightarrow> int" where
  "strncmp p q n = strncmp_loop (unat n) p q 0"

text \<open>
  \<^verbatim>\<open>strncpy\<close>: the copying loop gives the object, the offset and the count left (none when
  the count ran out), the padding loop fills what is left with zeros.
\<close>

primrec strncpy_copy :: "nat \<Rightarrow> cobj \<Rightarrow> cobj \<Rightarrow> nat \<Rightarrow> cobj \<times> nat \<times> nat" where
  "strncpy_copy 0 s t i = (s, i, 0)"
| "strncpy_copy (Suc n) s t i =
     (if t i \<noteq> 0 then strncpy_copy n (s(i := t i)) t (i + 1) else (s(i := t i), i + 1, n))"

primrec strncpy_pad :: "nat \<Rightarrow> cobj \<Rightarrow> nat \<Rightarrow> cobj" where
  "strncpy_pad 0 s i = s"
| "strncpy_pad (Suc n) s i = strncpy_pad n (s(i := 0)) (i + 1)"

definition strncpy :: "cobj \<Rightarrow> cobj \<Rightarrow> int \<Rightarrow> cobj" where
  "strncpy s t n = (let (s', i, k) = strncpy_copy (nat n) s t 0 in strncpy_pad k s' i)"

text \<open>\<^verbatim>\<open>while(--n > 0 && (*s++ = *t++) != 0)\<close>, then \<^verbatim>\<open>*s = 0\<close>.\<close>

primrec safestrcpy_copy :: "nat \<Rightarrow> cobj \<Rightarrow> cobj \<Rightarrow> nat \<Rightarrow> cobj \<times> nat" where
  "safestrcpy_copy 0 s t i = (s, i)"
| "safestrcpy_copy (Suc n) s t i =
     (if t i \<noteq> 0 then safestrcpy_copy n (s(i := t i)) t (i + 1) else (s(i := t i), i + 1))"

definition safestrcpy :: "cobj \<Rightarrow> cobj \<Rightarrow> int \<Rightarrow> cobj" where
  "safestrcpy s t n =
     (if n \<le> 0 then s
      else let (s', i) = safestrcpy_copy (nat (n - 1)) s t 0 in s'(i := 0))"

text \<open>\<^verbatim>\<open>strlen\<close> does not return on an object with no zero byte.\<close>

partial_function (option) strlen_from :: "cobj \<Rightarrow> nat \<Rightarrow> nat option" where
  "strlen_from s n = (if s n = 0 then Some n else strlen_from s (n + 1))"

definition strlen :: "cobj \<Rightarrow> nat option" where
  "strlen s = strlen_from s 0"

section \<open>Memory routines: what they write\<close>

lemma in_region_0 [simp]: "\<not> in_region a p 0"
  by (simp add: in_region_def)

lemma unat_minus_1:
  assumes "x \<noteq> (0 :: u64)"
  shows "unat (x - 1) = unat x - 1"
  using assms by (simp add: unat_minus_one)

lemma in_region_Suc:
  assumes "Suc k \<le> 2 ^ 64"
  shows "in_region a p (Suc k) \<longleftrightarrow> a = p \<or> in_region a (p + 1) k"
proof (cases "a = p")
  case True
  then show ?thesis by (simp add: in_region_def)
next
  case False
  then have "a - p \<noteq> 0" by simp
  then have "unat (a - (p + 1)) = unat (a - p) - 1" "0 < unat (a - p)"
    using unat_minus_1 [of "a - p"] by (simp_all add: diff_diff_eq unat_gt_0)
  with False show ?thesis by (auto simp: in_region_def)
qed

lemma in_region_self_next:
  assumes "k < 2 ^ 64"
  shows "\<not> in_region p (p + 1) k"
proof -
  have "p - (p + 1) = (-1 :: u64)" by simp
  then have "unat (p - (p + 1)) = 2 ^ 64 - 1" by (simp only: unat_minus_one_u64)
  with assms show ?thesis by (simp add: in_region_def)
qed

lemma memset_loop_eq:
  "k \<le> 2 ^ 64 \<Longrightarrow> memset_loop c k p m = (\<lambda>a. if in_region a p k then c else m a)"
proof (induction k arbitrary: p m)
  case 0
  then show ?case by simp
next
  case (Suc k)
  then show ?case
    by (auto simp: fun_eq_iff in_region_Suc)
qed

lemma unat_u32_le: "unat (n :: u32) \<le> 2 ^ 64"
  using unat_u32_bound [of n] by simp

lemma memset_eq: "memset dst c n m = (\<lambda>a. if in_region a dst (unat n) then ucast c else m a)"
  unfolding memset_def by (rule memset_loop_eq [OF unat_u32_le])

text \<open>
  Copying upwards is right when no source byte is overwritten before it is read: no byte of the
  destination is a later byte of the source.
\<close>

lemma copy_up_eq:
  "k \<le> 2 ^ 64 \<Longrightarrow> (\<And>i j. i < j \<Longrightarrow> j < k \<Longrightarrow> d + of_nat i \<noteq> s + of_nat j) \<Longrightarrow>
   copy_up k d s m = (\<lambda>a. if in_region a d k then m (s + (a - d)) else m a)"
proof (induction k arbitrary: d s m)
  case 0
  then show ?case by simp
next
  case (Suc k)
  have next_ok: "(d + 1) + of_nat i \<noteq> (s + 1) + of_nat j" if "i < j" "j < k" for i j
    using Suc.prems(2) [of "Suc i" "Suc j"] that by (simp add: algebra_simps)
  have src: "s + (a - d) \<noteq> d" if "in_region a (d + 1) k" for a
  proof -
    from that have "unat (a - (d + 1)) < k" by (simp add: in_region_def)
    then have "d + of_nat 0 \<noteq> s + of_nat (Suc (unat (a - (d + 1))))"
      by (intro Suc.prems(2)) auto
    moreover have "of_nat (Suc (unat (a - (d + 1)))) = a - d"
      by simp
    ultimately show ?thesis by (simp only: of_nat_0 add_0_right) auto
  qed
  have "copy_up (Suc k) d s m
      = (\<lambda>a. if in_region a (d + 1) k then (m(d := m s)) (s + 1 + (a - (d + 1))) else (m(d := m s)) a)"
    using Suc.IH [OF _ next_ok] Suc.prems(1) by simp
  also have "\<dots> = (\<lambda>a. if in_region a d (Suc k) then m (s + (a - d)) else m a)"
    using Suc.prems(1) src in_region_self_next [of k d]
    by (auto simp: fun_eq_iff in_region_Suc algebra_simps)
  finally show ?case .
qed

lemma copy_down_eq:
  "k \<le> 2 ^ 64 \<Longrightarrow> (\<And>i j. i < j \<Longrightarrow> j < k \<Longrightarrow> d + of_nat j \<noteq> s + of_nat i) \<Longrightarrow>
   copy_down k (d + of_nat k) (s + of_nat k) m = (\<lambda>a. if in_region a d k then m (s + (a - d)) else m a)"
proof (induction k arbitrary: m)
  case 0
  then show ?case by simp
next
  case (Suc k)
  let ?m = "m(d + of_nat k := m (s + of_nat k))"
  have "copy_down (Suc k) (d + of_nat (Suc k)) (s + of_nat (Suc k)) m = copy_down k (d + of_nat k) (s + of_nat k) ?m"
    by (simp add: algebra_simps)
  also have "\<dots> = (\<lambda>a. if in_region a d k then ?m (s + (a - d)) else ?m a)"
    using Suc by simp
  also have "\<dots> = (\<lambda>a. if in_region a d (Suc k) then m (s + (a - d)) else m a)"
  proof
    fix a
    have "s + (a - d) \<noteq> d + of_nat k" if "in_region a d k"
    proof -
      from that have "unat (a - d) < k" by (simp add: in_region_def)
      then have "d + of_nat k \<noteq> s + of_nat (unat (a - d))"
        by (intro Suc.prems(2)) auto
      then show ?thesis by auto
    qed
    moreover have "in_region a d (Suc k) \<longleftrightarrow> in_region a d k \<or> a = d + of_nat k"
    proof -
      have "a = d + of_nat k \<longleftrightarrow> a - d = of_nat k" by (auto simp: algebra_simps)
      also have "\<dots> \<longleftrightarrow> unat (a - d) = k"
        using Suc.prems(1) by (auto simp: unat_of_nat_u64)
      finally show ?thesis by (auto simp: in_region_def)
    qed
    moreover have "\<not> in_region (d + of_nat k) d k"
      using Suc.prems(1) by (simp add: in_region_def unat_of_nat_u64)
    ultimately show "(if in_region a d k then ?m (s + (a - d)) else ?m a)
        = (if in_region a d (Suc k) then m (s + (a - d)) else m a)"
      by (auto simp: algebra_simps)
  qed
  finally show ?case .
qed

lemma add_of_nat_neq:
  assumes "unat (p :: u64) + i < 2 ^ 64" and "unat (q :: u64) + j < 2 ^ 64" and "unat p + i \<noteq> unat q + j"
  shows "p + of_nat i \<noteq> q + of_nat j"
proof
  assume "p + of_nat i = q + of_nat j"
  then have "unat (p + of_nat i) = unat (q + of_nat j)" by simp
  moreover have "unat (p + of_nat i) = unat p + i"
    using assms(1) by (simp add: unat_word_ariths unat_of_nat)
  moreover have "unat (q + of_nat j) = unat q + j"
    using assms(2) by (simp add: unat_word_ariths unat_of_nat)
  ultimately show False using assms(3) by simp
qed

lemma unat_add_ucast_u32:
  "unat (p :: u64) + unat (n :: u32) < 2 ^ 64 \<Longrightarrow> unat (p + ucast n) = unat p + unat n"
  by (simp add: unat_word_ariths unat_ucast_u32_u64)

lemma memmove_spec:
  assumes "unat src + unat n \<le> 2 ^ 64" and "unat dst + unat n \<le> 2 ^ 64"
  shows "memmove dst src n m = (\<lambda>a. if in_region a dst (unat n) then m (src + (a - dst)) else m a)"
proof (cases "src < dst \<and> src + ucast n > dst")
  case True
  then have lt: "unat src < unat dst" by (simp add: word_less_nat_alt)
  have "dst + of_nat j \<noteq> src + of_nat i" if "i < j" "j < unat n" for i j
    using that assms lt by (intro add_of_nat_neq) auto
  then have "copy_down (unat n) (dst + of_nat (unat n)) (src + of_nat (unat n)) m
      = (\<lambda>a. if in_region a dst (unat n) then m (src + (a - dst)) else m a)"
    by (intro copy_down_eq unat_u32_le)
  moreover have "(of_nat (unat n) :: u64) = ucast n"
    by (simp add: unsigned_of_nat)
  ultimately show ?thesis
    using True by (simp add: memmove_def)
next
  case False
  have "dst + of_nat i \<noteq> src + of_nat j" if "i < j" "j < unat n" for i j
  proof (rule add_of_nat_neq)
    show "unat dst + i < 2 ^ 64" "unat src + j < 2 ^ 64"
      using that assms by auto
    show "unat dst + i \<noteq> unat src + j"
    proof (cases "src < dst")
      case True
      then have "unat src < unat dst" by (simp add: word_less_nat_alt)
      with assms have "unat src + unat n < 2 ^ 64" by simp
      then have "unat src + unat n \<le> unat dst"
        using False True unat_add_ucast_u32 [of src n] by (simp add: word_less_nat_alt)
      with that show ?thesis by simp
    next
      case False
      then have "unat dst \<le> unat src" by (simp add: word_less_nat_alt)
      with that show ?thesis by simp
    qed
  qed
  then have e: "copy_up (unat n) dst src m = (\<lambda>a. if in_region a dst (unat n) then m (src + (a - dst)) else m a)"
    by (intro copy_up_eq unat_u32_le)
  show ?thesis
    by (simp only: memmove_def if_not_P [OF False] e)
qed

section \<open>String routines: what they compute\<close>

lemma uint_eq_iff_u8 [simp]: "uint (a :: u8) = uint b \<longleftrightarrow> a = b"
  by (auto intro: unsigned_word_eqI)

lemma memcmp_loop_zero: "memcmp_loop n s1 s2 i = 0 \<longleftrightarrow> (\<forall>j<n. s1 (i + j) = s2 (i + j))"
proof (induction n arbitrary: i)
  case 0
  then show ?case by simp
next
  case (Suc n)
  show ?case
    using Suc [of "i + 1"] by (auto simp: All_less_Suc2)
qed

lemma strncmp_loop_zero:
  "strncmp_loop n p q i = 0 \<longleftrightarrow> (\<forall>j<n. (\<forall>k<j. p (i + k) \<noteq> 0) \<longrightarrow> p (i + j) = q (i + j))"
proof (induction n arbitrary: i)
  case 0
  then show ?case by simp
next
  case (Suc n)
  show ?case
  proof (cases "p i \<noteq> 0 \<and> p i = q i")
    case True
    then show ?thesis
      using Suc [of "i + 1"] by (auto simp: All_less_Suc2)
  next
    case False
    then show ?thesis
      by (auto simp: All_less_Suc2)
  qed
qed

lemma strncpy_pad_eq: "strncpy_pad n s i = (\<lambda>j. if i \<le> j \<and> j < i + n then 0 else s j)"
  by (induction n arbitrary: s i) (auto simp: fun_eq_iff)

text \<open>Up to the terminating zero of \<open>t\<close>, then zeros.\<close>

definition upto_nul :: "cobj \<Rightarrow> cobj" where
  "upto_nul t = (\<lambda>j. if \<forall>k<j. t k \<noteq> 0 then t j else 0)"

lemma upto_nul_ext: "\<forall>k<i. t k \<noteq> 0 \<Longrightarrow> j \<le> i \<Longrightarrow> upto_nul t j = t j"
  by (simp add: upto_nul_def)

lemma upto_nul_after: "t i = 0 \<Longrightarrow> i < j \<Longrightarrow> upto_nul t j = 0"
  by (auto simp: upto_nul_def)

lemma strncpy_loops_eq:
  assumes "\<forall>k<i. t k \<noteq> 0"
  shows "(let (s', i', k) = strncpy_copy n s t i in strncpy_pad k s' i')
    = (\<lambda>j. if i \<le> j \<and> j < i + n then upto_nul t j else s j)"
  using assms
proof (induction n arbitrary: s i)
  case 0
  then show ?case by (auto simp: fun_eq_iff)
next
  case (Suc n)
  show ?case
  proof (cases "t i = 0")
    case True
    then show ?thesis
      using Suc.prems by (auto simp: fun_eq_iff strncpy_pad_eq upto_nul_ext upto_nul_after)
  next
    case False
    with Suc.prems have "\<forall>k<i + 1. t k \<noteq> 0" by (simp add: less_Suc_eq)
    from Suc.IH [OF this] False Suc.prems show ?thesis
      by (auto simp: fun_eq_iff upto_nul_ext)
  qed
qed

lemma strncpy_eq: "strncpy s t n = (\<lambda>j. if j < nat n then upto_nul t j else s j)"
  using strncpy_loops_eq [of 0 t "nat n" s] by (simp add: strncpy_def)

lemma safestrcpy_loop_spec:
  assumes "safestrcpy_copy n s t i = (s', i')"
  shows "(\<forall>j. j < i \<or> i + n < j \<longrightarrow> (s'(i' := 0)) j = s j)
    \<and> (\<exists>e. i \<le> e \<and> e \<le> i + n \<and> (s'(i' := 0)) e = 0 \<and> (e < i + n \<longrightarrow> t e = 0)
         \<and> (\<forall>j. i \<le> j \<and> j < e \<longrightarrow> (s'(i' := 0)) j = t j \<and> t j \<noteq> 0))"
  using assms
proof (induction n arbitrary: s i)
  case 0
  then show ?case by auto
next
  case (Suc n)
  show ?case
  proof (cases "t i = 0")
    case True
    with Suc.prems have "s' = s(i := t i)" "i' = i + 1" by auto
    with True show ?thesis
      by (intro conjI exI [of _ i]) auto
  next
    case False
    with Suc.prems have "safestrcpy_copy n (s(i := t i)) t (i + 1) = (s', i')" by simp
    from Suc.IH [OF this] obtain e where
      out: "\<forall>j. j < i + 1 \<or> i + 1 + n < j \<longrightarrow> (s'(i' := 0)) j = (s(i := t i)) j" and
      e: "i + 1 \<le> e" "e \<le> i + 1 + n" "(s'(i' := 0)) e = 0" "e < i + 1 + n \<longrightarrow> t e = 0" and
      mid: "\<forall>j. i + 1 \<le> j \<and> j < e \<longrightarrow> (s'(i' := 0)) j = t j \<and> t j \<noteq> 0"
      by blast
    have "(s'(i' := 0)) j = t j \<and> t j \<noteq> 0" if "i \<le> j \<and> j < e" for j
    proof (cases "j = i")
      case True
      have "(s'(i' := 0)) i = (s(i := t i)) i" using out by (metis less_add_one)
      with True False show ?thesis by simp
    next
      case False
      with that mid show ?thesis by simp
    qed
    moreover have "(s'(i' := 0)) j = s j" if "j < i \<or> i + Suc n < j" for j
    proof -
      have "j < i + 1 \<or> i + 1 + n < j" "j \<noteq> i" using that by auto
      with out show ?thesis by (metis fun_upd_other)
    qed
    moreover have "i \<le> e" "e \<le> i + Suc n" "e < i + Suc n \<longrightarrow> t e = 0"
      using e by auto
    ultimately show ?thesis
      using e(3) by blast
  qed
qed

lemma strlen_from_Some:
  "(\<And>j. n \<le> j \<Longrightarrow> j < k \<Longrightarrow> s j \<noteq> 0) \<Longrightarrow> s k = 0 \<Longrightarrow> n \<le> k \<Longrightarrow> strlen_from s n = Some k"
proof (induction "k - n" arbitrary: n)
  case 0
  then show ?case by (subst strlen_from.simps) simp
next
  case (Suc d)
  then have "s n \<noteq> 0" and "strlen_from s (n + 1) = Some k"
    by auto
  then show ?case by (subst strlen_from.simps) simp
qed

lemma strlen_eq: "s k = 0 \<Longrightarrow> (\<And>j. j < k \<Longrightarrow> s j \<noteq> 0) \<Longrightarrow> strlen s = Some k"
  unfolding strlen_def by (rule strlen_from_Some) auto

section \<open>Properties\<close>

text \<open>
  C39: \<^verbatim>\<open>memmove()\<close> copies correctly for any two regions that do not wrap around the
  address space, overlapping or not: afterwards every byte of the destination is the source byte as it
  was before the call, and no other byte of memory has changed.
\<close>

theorem memmove_copies:
  assumes "unat src + unat n \<le> 2 ^ 64" and "unat dst + unat n \<le> 2 ^ 64"
  shows "(\<forall>i<unat n. memmove dst src n m (dst + of_nat i) = m (src + of_nat i)) \<and>
    (\<forall>a. \<not> in_region a dst (unat n) \<longrightarrow> memmove dst src n m a = m a)"
proof -
  have "unat (of_nat i :: u64) = i" if "i < unat n" for i
    using that unat_u32_bound [of n] by (intro unat_of_nat_u64) simp
  then show ?thesis
    by (simp add: memmove_spec [OF assms] in_region_def)
qed

theorem memmove_copies_witness:
  "memmove 0x1001 0x1000 4 (\<lambda>a. ucast a) 0x1004 = 3 \<and> memmove 0x1001 0x1000 4 (\<lambda>a. ucast a) 0x1005 = 5"
proof -
  have u: "unat (0x1000 :: u64) + unat (4 :: u32) \<le> 2 ^ 64" "unat (0x1001 :: u64) + unat (4 :: u32) \<le> 2 ^ 64"
    by simp_all
  note c = memmove_copies [OF u, of "\<lambda>a. ucast a"]
  have "memmove 0x1001 0x1000 4 (\<lambda>a. ucast a) (0x1001 + of_nat 3) = (ucast (0x1000 + of_nat 3 :: u64) :: u8)"
    using c by (auto dest: spec [of _ 3])
  moreover have "memmove 0x1001 0x1000 4 (\<lambda>a. ucast a) 0x1005 = (ucast (0x1005 :: u64) :: u8)"
    using c by (simp add: in_region_def)
  ultimately show ?thesis by simp
qed

text \<open>
  \<^verbatim>\<open>safestrcpy()\<close> always leaves a terminated string within the \<^verbatim>\<open>n\<close>
  bytes of the destination (for positive \<^verbatim>\<open>n\<close>): a prefix of the source without its
  terminator, cut only when the destination is full, and nothing outside those bytes is written.
\<close>

theorem safestrcpy_terminates_string:
  assumes "0 < n"
  shows "(\<exists>e < nat n. safestrcpy s t n e = 0 \<and> (\<forall>j<e. safestrcpy s t n j = t j \<and> t j \<noteq> 0) \<and>
      (e < nat n - 1 \<longrightarrow> t e = 0)) \<and> (\<forall>j. nat n \<le> j \<longrightarrow> safestrcpy s t n j = s j)"
proof -
  obtain s' i' where r: "safestrcpy_copy (nat (n - 1)) s t 0 = (s', i')" by fastforce
  then have eq: "safestrcpy s t n = s'(i' := 0)" using assms by (simp add: safestrcpy_def)
  note spec = safestrcpy_loop_spec [OF r]
  have n: "nat n = Suc (nat (n - 1))" using assms by simp
  from spec obtain e where e: "e \<le> nat (n - 1)" "(s'(i' := 0)) e = 0" "e < nat (n - 1) \<longrightarrow> t e = 0"
      "\<forall>j<e. (s'(i' := 0)) j = t j \<and> t j \<noteq> 0"
    by auto
  have "\<forall>j. nat n \<le> j \<longrightarrow> (s'(i' := 0)) j = s j"
    using spec n by (metis Suc_le_lessD add_0)
  then show ?thesis
    unfolding eq n using e by (auto intro!: exI [of _ e] simp: less_Suc_eq_le)
qed

theorem safestrcpy_terminates_string_witness:
  "\<exists>e < nat 4. safestrcpy (\<lambda>_. 9) (\<lambda>_. 7) 4 e = 0 \<and> (\<forall>j<e. safestrcpy (\<lambda>_. 9) (\<lambda>_. 7) 4 j = 7)"
  using safestrcpy_terminates_string [of 4 "\<lambda>_. 9" "\<lambda>_. 7"] by auto

text \<open>
  \<^verbatim>\<open>strncmp()\<close> returns 0 exactly when the two strings agree up to the first
  terminator or the first \<^verbatim>\<open>n\<close> bytes.
\<close>

theorem strncmp_zero:
  "strncmp p q n = 0 \<longleftrightarrow> (\<forall>j<unat n. (\<forall>k<j. p k \<noteq> 0) \<longrightarrow> p j = q j)"
  using strncmp_loop_zero [of "unat n" p q 0] by (simp add: strncmp_def)

theorem strncmp_zero_witness:
  "strncmp (at_list [1, 2, 0, 5]) (at_list [1, 2, 0, 6]) 4 = 0"
  unfolding strncmp_zero
  by (auto simp: at_list_def numeral_eq_Suc less_Suc_eq)

end
