(* ===== verification/Kalloc.thy ===== *)
theory Kalloc
  imports Spinlock CString
begin

text \<open>
  The physical page allocator (\<^verbatim>\<open>kernel/kalloc.c\<close>).  Free pages are chained through
  their own first eight bytes (\<^verbatim>\<open>struct run\<close>), so the free list lives in physical memory;
  \<open>chain\<close> relates it to the abstract list of free pages, and the results say that
  \<^verbatim>\<open>kalloc()\<close> and \<^verbatim>\<open>kfree()\<close> are pop and push on that list.
  The locale \<open>page_allocator\<close> is the contract the clients of the allocator rely on.
\<close>

section \<open>Words in memory\<close>

definition byte_at :: "memory \<Rightarrow> u64 \<Rightarrow> nat \<Rightarrow> u64" where
  "byte_at m p i = push_bit (8 * i) (ucast (m (p + of_nat i)))"

definition load64 :: "memory \<Rightarrow> u64 \<Rightarrow> u64" where
  "load64 m p = byte_at m p 0 OR byte_at m p 1 OR byte_at m p 2 OR byte_at m p 3 OR
     byte_at m p 4 OR byte_at m p 5 OR byte_at m p 6 OR byte_at m p 7"

definition store64 :: "u64 \<Rightarrow> u64 \<Rightarrow> memory \<Rightarrow> memory" where
  "store64 p v m = (\<lambda>a. if in_region a p 8 then ucast (drop_bit (8 * unat (a - p)) v) else m a)"

lemma bit_byte_at: "bit (byte_at m p i) n \<longleftrightarrow> 8 * i \<le> n \<and> n < 64 \<and> bit (m (p + of_nat i)) (n - 8 * i)"
  by (auto simp: byte_at_def bit_simps)

lemma bit_u8_bound: "bit (x :: u8) n \<Longrightarrow> n < 8"
  using bit_imp_le_length [of x n] by simp

lemma ex_less_8:
  "(\<exists>i<8::nat. P i) \<longleftrightarrow> P 0 \<or> P 1 \<or> P 2 \<or> P 3 \<or> P 4 \<or> P 5 \<or> P 6 \<or> P 7"
  by (simp add: numeral_eq_Suc Ex_less_Suc2)

lemma bit_load64: "bit (load64 m p) n \<longleftrightarrow> n < 64 \<and> bit (m (p + of_nat (n div 8))) (n mod 8)"
proof -
  have "bit (load64 m p) n \<longleftrightarrow> (\<exists>i<8. bit (byte_at m p i) n)"
    by (simp only: load64_def ex_less_8 bit_or_iff)
  also have "\<dots> \<longleftrightarrow> n < 64 \<and> bit (m (p + of_nat (n div 8))) (n mod 8)"
  proof
    assume "\<exists>i<8. bit (byte_at m p i) n"
    then obtain i where i: "8 * i \<le> n" "n < 64" "bit (m (p + of_nat i)) (n - 8 * i)"
      by (auto simp: bit_byte_at)
    then have "n - 8 * i < 8" by (auto dest: bit_u8_bound)
    moreover obtain r where "n = 8 * i + r" using i(1) le_Suc_ex by blast
    ultimately have "n div 8 = i" "n mod 8 = n - 8 * i" by auto
    with i show "n < 64 \<and> bit (m (p + of_nat (n div 8))) (n mod 8)" by simp
  next
    assume "n < 64 \<and> bit (m (p + of_nat (n div 8))) (n mod 8)"
    then have "n div 8 < 8 \<and> bit (byte_at m p (n div 8)) n"
      by (auto simp: bit_byte_at minus_mult_div_eq_mod)
    then show "\<exists>i<8. bit (byte_at m p i) n" by blast
  qed
  finally show ?thesis .
qed

lemma load64_cong: "(\<And>i. i < 8 \<Longrightarrow> m (p + of_nat i) = m' (p + of_nat i)) \<Longrightarrow> load64 m p = load64 m' p"
  by (intro bit_word_eqI) (simp add: bit_load64)

lemma load64_store64 [simp]: "load64 (store64 p v m) p = v"
proof (rule bit_word_eqI)
  fix n
  assume "n < LENGTH(64)"
  then have "n div 8 < 8" "n < 64" by auto
  then have "unat (of_nat (n div 8) :: u64) = n div 8"
    by (intro unat_of_nat_u64) auto
  with \<open>n div 8 < 8\<close> \<open>n < 64\<close> show "bit (load64 (store64 p v m) p) n = bit v n"
    by (simp add: bit_load64 store64_def in_region_def bit_simps)
qed

section \<open>State\<close>

text \<open>
  \<^verbatim>\<open>kmem.freelist\<close> and physical memory; \<open>ksym_end\<close> is the linker's
  \<^verbatim>\<open>end\<close>, the first address after the kernel.
\<close>

record kmem = hw +
  mem :: memory
  freelist :: u64
  ksym_end :: u64

definition upd_mem :: "(memory \<Rightarrow> memory) \<Rightarrow> ('z kmem_scheme, unit) kop" where
  "upd_mem f = modify (\<lambda>s. s\<lparr>mem := f (mem s)\<rparr>)"

lemma run_upd_mem [run]: "upd_mem f s = Done () (s\<lparr>mem := f (mem s)\<rparr>)"
  by (simp add: upd_mem_def run)

section \<open>Operations\<close>

definition kfree :: "u64 \<Rightarrow> ('z kmem_scheme, unit) kop" where
  "kfree pa =
     bnd (gets ksym_end) (\<lambda>kend.
     thn (panic_if (pa mod PGSIZE \<noteq> 0 \<or> pa < kend \<or> pa \<ge> PHYSTOP) ''kfree'') (
     thn (upd_mem (memset pa 1 (ucast PGSIZE))) (
     thn (acquire KmemLock) (
     bnd (gets freelist) (\<lambda>fl.
     thn (upd_mem (store64 pa fl)) (
     thn (modify (\<lambda>s. s\<lparr>freelist := pa\<rparr>)) (
     release KmemLock)))))))"

definition kalloc :: "('z kmem_scheme, u64) kop" where
  "kalloc =
     thn (acquire KmemLock) (
     bnd (gets freelist) (\<lambda>r.
     thn (whenM (r \<noteq> 0) (modify (\<lambda>s. s\<lparr>freelist := load64 (mem s) r\<rparr>))) (
     thn (release KmemLock) (
     thn (whenM (r \<noteq> 0) (upd_mem (memset r 5 (ucast PGSIZE)))) (
     ret r)))))"

text \<open>The loop frees at most one page per page below \<^verbatim>\<open>pa_end\<close>.\<close>

definition freerange :: "u64 \<Rightarrow> u64 \<Rightarrow> ('z kmem_scheme, unit) kop" where
  "freerange pa_start pa_end =
     loopM (Suc (unat pa_end div 4096))
       (\<lambda>p. if p + PGSIZE \<le> pa_end then thn (kfree p) (ret (Inl (p + PGSIZE))) else ret (Inr ()))
       (PGROUNDUP pa_start + 4096)"

definition kinit :: "('z kmem_scheme, unit) kop" where
  "kinit = thn (initlock KmemLock ''kmem'') (bnd (gets ksym_end) (\<lambda>kend. freerange kend PHYSTOP))"

section \<open>Pages\<close>

definition page_aligned :: "u64 \<Rightarrow> bool" where
  "page_aligned pa \<longleftrightarrow> pa mod PGSIZE = 0"

definition page_of :: "u64 \<Rightarrow> nat" where
  "page_of a = unat a div 4096"

lemma page_aligned_unat: "page_aligned p \<longleftrightarrow> unat p mod 4096 = 0"
proof -
  have "unat (p mod PGSIZE) = unat p mod 4096"
    by (simp add: unat_mod PGSIZE_def)
  then show ?thesis
    by (simp add: page_aligned_def unat_eq_zero [symmetric])
qed

lemma in_page:
  assumes "page_aligned p"
  shows "in_region a p 4096 \<longleftrightarrow> page_of a = page_of p"
proof -
  obtain k where k: "unat p = 4096 * k"
    using assms by (auto simp: page_aligned_unat)
  have b: "unat p < 2 ^ 64" "unat a < 2 ^ 64"
    using unat_u64_bound by auto
  show ?thesis
  proof (cases "p \<le> a")
    case True
    then have "unat (a - p) = unat a - unat p" "unat p \<le> unat a"
      by (auto simp: unat_sub word_le_nat_alt)
    with k show ?thesis
      by (auto simp: in_region_def page_of_def)
  next
    case False
    then have lt: "unat a < unat p" by (simp add: word_le_nat_alt)
    with False have "unat (a - p) = 2 ^ 64 + unat a - unat p"
      by (simp add: unat_sub_if' word_le_nat_alt)
    moreover have "k \<le> 2 ^ 52 - 1"
      using k b(1) by simp
    ultimately have "\<not> in_region a p 4096"
      using k lt by (simp add: in_region_def)
    moreover have "unat a div 4096 < k"
      using k lt by auto
    ultimately show ?thesis
      using k by (simp add: page_of_def)
  qed
qed

lemma page_of_inj: "page_aligned p \<Longrightarrow> page_aligned q \<Longrightarrow> page_of p = page_of q \<Longrightarrow> p = q"
proof -
  assume "page_aligned p" "page_aligned q" "page_of p = page_of q"
  then have "unat p = unat q"
    unfolding page_aligned_unat page_of_def by (metis div_mult_mod_eq)
  then show "p = q" by (rule unsigned_word_eqI)
qed

lemma page_of_offset: "page_aligned p \<Longrightarrow> i < 4096 \<Longrightarrow> page_of (p + of_nat i) = page_of p"
  using in_page [of p "p + of_nat i"] by (simp add: in_region_def unat_of_nat_u64)

lemma unat_PGSIZE32 [simp]: "unat (ucast PGSIZE :: u32) = 4096"
  by (simp add: PGSIZE_def)

lemma memset_page:
  "page_aligned p \<Longrightarrow> memset p c (ucast PGSIZE) m = (\<lambda>a. if page_of a = page_of p then ucast c else m a)"
  by (simp add: memset_eq in_page)

lemma store64_other_page:
  assumes "page_aligned p" and "page_of a \<noteq> page_of p"
  shows "store64 p v m a = m a"
proof -
  have "\<not> in_region a p 4096" using assms by (simp add: in_page)
  then have "\<not> in_region a p 8" by (simp add: in_region_def)
  then show ?thesis by (simp add: store64_def)
qed

lemma load64_page_cong:
  "page_aligned p \<Longrightarrow> (\<And>a. page_of a = page_of p \<Longrightarrow> m a = m' a) \<Longrightarrow> load64 m p = load64 m' p"
  by (rule load64_cong) (simp add: page_of_offset)

section \<open>The free list\<close>

text \<open>\<open>chain m p xs\<close>: the list that starts at \<open>p\<close> runs through the pages \<open>xs\<close>.\<close>

primrec chain :: "memory \<Rightarrow> u64 \<Rightarrow> u64 list \<Rightarrow> bool" where
  "chain m p [] \<longleftrightarrow> p = 0"
| "chain m p (x # xs) \<longleftrightarrow> p = x \<and> x \<noteq> 0 \<and> chain m (load64 m x) xs"

definition page_ok :: "'z kmem_scheme \<Rightarrow> u64 \<Rightarrow> bool" where
  "page_ok s pa \<longleftrightarrow> pa mod PGSIZE = 0 \<and> ksym_end s \<le> pa \<and> pa < PHYSTOP"

definition kmem_wf :: "'z kmem_scheme \<Rightarrow> u64 list \<Rightarrow> bool" where
  "kmem_wf s xs \<longleftrightarrow> chain (mem s) (freelist s) xs \<and> distinct xs \<and> (\<forall>x \<in> set xs. page_ok s x)
     \<and> KERNBASE \<le> ksym_end s"

lemma chain_cong:
  "(\<And>x. x \<in> set xs \<Longrightarrow> load64 m' x = load64 m x) \<Longrightarrow> chain m' p xs = chain m p xs"
  by (induction xs arbitrary: p) auto

lemma chain_frame:
  assumes "\<forall>x \<in> set xs. page_aligned x \<and> page_of x \<noteq> page_of q"
    and "\<And>a. page_of a \<noteq> page_of q \<Longrightarrow> m' a = m a"
  shows "chain m' p xs = chain m p xs"
proof (rule chain_cong)
  fix x
  assume "x \<in> set xs"
  with assms(1) have "page_aligned x" "page_of x \<noteq> page_of q" by auto
  with assms(2) show "load64 m' x = load64 m x"
    by (intro load64_page_cong) auto
qed

lemma page_ok_aligned: "page_ok s x \<Longrightarrow> page_aligned x"
  by (simp add: page_ok_def page_aligned_def)

text \<open>The machine may take the allocator's lock.\<close>

definition kmem_ready :: "'z kmem_scheme \<Rightarrow> bool" where
  "kmem_ready s \<longleftrightarrow> irq_wf s \<and> lk_clean KmemLock s"

lemma acq_kmem_simps [simp]:
  "mem (acq l s) = mem s" "freelist (acq l s) = freelist s" "ksym_end (acq l s) = ksym_end s"
  "kmem.more (acq l s) = kmem.more s"
  by (simp_all add: acq_def)

lemma rel_kmem_simps [simp]:
  "mem (rel l s) = mem s" "freelist (rel l s) = freelist s" "ksym_end (rel l s) = ksym_end s"
  "kmem.more (rel l s) = kmem.more s"
  by (simp_all add: rel_def)

text \<open>
  The state after a critical section of the allocator: the machine layer is balanced, memory and
  the list head are the given ones, and everything above the allocator is untouched.
\<close>

definition kmem_step :: "'z kmem_scheme \<Rightarrow> 'z kmem_scheme \<Rightarrow> memory \<Rightarrow> u64 \<Rightarrow> bool" where
  "kmem_step s t m fl \<longleftrightarrow> hw_bal s t \<and> mem t = m \<and> freelist t = fl
     \<and> ksym_end t = ksym_end s \<and> kmem.more t = kmem.more s"

lemma hw_bal_kmem [simp]:
  "hw_bal s (t\<lparr>mem := m\<rparr>) = hw_bal s t" "hw_bal (s\<lparr>mem := m\<rparr>) t = hw_bal s t"
  "hw_bal s (t\<lparr>freelist := p\<rparr>) = hw_bal s t" "hw_bal (s\<lparr>freelist := p\<rparr>) t = hw_bal s t"
  by (simp_all add: hw_bal_def depth_def curproc_def irq_on_def)

lemma page_ok_checks:
  "(pa mod PGSIZE = 0 \<longrightarrow> pa < ksym_end s \<or> PHYSTOP \<le> pa) = (\<not> page_ok s pa)"
  unfolding page_ok_def by (metis not_le)

lemma kfree_run:
  assumes "kmem_ready s" and "page_ok s pa"
  shows "\<exists>t. kfree pa s = Done () t
    \<and> kmem_step s t (store64 pa (freelist s) (memset pa 1 (ucast PGSIZE) (mem s))) pa"
proof -
  let ?s1 = "s\<lparr>mem := memset pa 1 (ucast PGSIZE) (mem s)\<rparr>"
  let ?u = "(acq KmemLock ?s1)\<lparr>mem := store64 pa (freelist s) (mem ?s1), freelist := pa\<rparr>"
  have ok: "irq_wf ?s1" "lk_clean KmemLock ?s1"
    using assms(1) by (auto simp: kmem_ready_def irq_wf_def depth_def irq_on_def lk_clean_def)
  have hw: "same_hw (acq KmemLock ?s1) ?u"
    by (simp add: same_hw_def)
  have "acquire KmemLock ?s1 = Done () (acq KmemLock ?s1)"
    using ok by (intro run_acquire lk_clean_free)
  then have "kfree pa s = release KmemLock ?u"
    using assms(2) by (simp add: kfree_def run page_ok_checks)
  also have "\<dots> = Done () (rel KmemLock ?u)"
    by (rule section_release [OF ok(1) hw])
  finally have "kfree pa s = Done () (rel KmemLock ?u)" .
  moreover have "hw_bal ?s1 (rel KmemLock ?u)"
    by (rule section_balanced [OF ok hw])
  then have "hw_bal s (rel KmemLock ?u)"
    by simp
  ultimately show ?thesis
    by (auto simp: kmem_step_def)
qed

lemma kfree_panics:
  "\<not> page_ok s pa \<Longrightarrow> kfree pa s = Panic ''kfree'' s"
  by (simp add: kfree_def run page_ok_checks)

lemma kalloc_run:
  assumes "kmem_ready s"
  shows "\<exists>t. kalloc s = Done (freelist s) t
    \<and> (if freelist s = 0 then kmem_step s t (mem s) 0
       else kmem_step s t (memset (freelist s) 5 (ucast PGSIZE) (mem s)) (load64 (mem s) (freelist s)))"
proof -
  let ?r = "freelist s"
  let ?u = "if ?r = 0 then acq KmemLock s else (acq KmemLock s)\<lparr>freelist := load64 (mem s) ?r\<rparr>"
  have ok: "irq_wf s" "lk_clean KmemLock s"
    using assms by (auto simp: kmem_ready_def)
  have hw: "same_hw (acq KmemLock s) ?u"
    by (simp add: same_hw_def)
  have a: "acquire KmemLock s = Done () (acq KmemLock s)"
    using ok by (intro run_acquire lk_clean_free)
  have r: "release KmemLock ?u = Done () (rel KmemLock ?u)"
    by (rule section_release [OF ok(1) hw])
  have b: "hw_bal s (rel KmemLock ?u)"
    by (rule section_balanced [OF ok hw])
  show ?thesis
    using a r b by (cases "?r = 0") (auto simp: kalloc_def run kmem_step_def)
qed

text \<open>\<^verbatim>\<open>kfree()\<close> pushes, \<^verbatim>\<open>kalloc()\<close> pops.\<close>

lemma kfree_push:
  assumes "kmem_ready s" and "kmem_wf s xs" and "page_ok s pa" and "pa \<notin> set xs"
  shows "\<exists>t. kfree pa s = Done () t \<and> kmem_ready t \<and> kmem_wf t (pa # xs) \<and> hw_bal s t
    \<and> ksym_end t = ksym_end s \<and> kmem.more t = kmem.more s
    \<and> (\<forall>a. page_of a \<noteq> page_of pa \<longrightarrow> mem t a = mem s a)"
proof -
  obtain t where t: "kfree pa s = Done () t"
      and st: "kmem_step s t (store64 pa (freelist s) (memset pa 1 (ucast PGSIZE) (mem s))) pa"
    using kfree_run [OF assms(1,3)] by blast
  have al: "page_aligned pa" using assms(3) by (rule page_ok_aligned)
  have frame: "mem t a = mem s a" if "page_of a \<noteq> page_of pa" for a
    using st al that by (simp add: kmem_step_def store64_other_page memset_page)
  have others: "\<forall>x \<in> set xs. page_aligned x \<and> page_of x \<noteq> page_of pa"
    using assms(2,4) al by (auto simp: kmem_wf_def dest: page_ok_aligned page_of_inj)
  have "chain (mem t) (freelist s) xs = chain (mem s) (freelist s) xs"
    by (rule chain_frame [OF others frame])
  moreover have "pa \<noteq> 0"
    using assms(2,3) by (auto simp: page_ok_def kmem_wf_def KERNBASE_def)
  ultimately have "kmem_wf t (pa # xs)"
    using assms st by (simp add: kmem_wf_def kmem_step_def page_ok_def)
  moreover have "kmem_ready t"
    using st assms(1) hw_bal_irq_wf hw_bal_lk unfolding kmem_step_def kmem_ready_def by blast
  ultimately show ?thesis
    using t st frame by (auto simp: kmem_step_def)
qed

lemma kalloc_pop:
  assumes "kmem_ready s" and "kmem_wf s (x # xs)"
  shows "\<exists>t. kalloc s = Done x t \<and> kmem_ready t \<and> kmem_wf t xs \<and> hw_bal s t
    \<and> ksym_end t = ksym_end s \<and> kmem.more t = kmem.more s
    \<and> (\<forall>a. mem t a = (if page_of a = page_of x then 5 else mem s a))"
proof -
  have x: "freelist s = x" "x \<noteq> 0" "page_ok s x"
    using assms(2) by (auto simp: kmem_wf_def)
  obtain t where t: "kalloc s = Done x t"
      and st: "kmem_step s t (memset x 5 (ucast PGSIZE) (mem s)) (load64 (mem s) x)"
    using kalloc_run [OF assms(1)] x by auto
  have al: "page_aligned x" using x(3) by (rule page_ok_aligned)
  have m: "mem t a = (if page_of a = page_of x then 5 else mem s a)" for a
    using st al by (simp add: kmem_step_def memset_page)
  have others: "\<forall>y \<in> set xs. page_aligned y \<and> page_of y \<noteq> page_of x"
    using assms(2) al by (auto simp: kmem_wf_def dest: page_ok_aligned page_of_inj)
  have "chain (mem t) (freelist t) xs = chain (mem s) (freelist t) xs"
    by (rule chain_frame [OF others]) (simp add: m)
  then have "kmem_wf t xs"
    using assms(2) st x by (simp add: kmem_wf_def kmem_step_def page_ok_def)
  moreover have "kmem_ready t"
    using st assms(1) hw_bal_irq_wf hw_bal_lk unfolding kmem_step_def kmem_ready_def by blast
  ultimately show ?thesis
    using t st m by (auto simp: kmem_step_def)
qed

lemma kalloc_empty:
  assumes "kmem_ready s" and "kmem_wf s []"
  shows "\<exists>t. kalloc s = Done 0 t \<and> kmem_ready t \<and> kmem_wf t [] \<and> hw_bal s t
    \<and> ksym_end t = ksym_end s \<and> kmem.more t = kmem.more s \<and> mem t = mem s"
proof -
  obtain t where t: "kalloc s = Done 0 t" and st: "kmem_step s t (mem s) 0"
    using kalloc_run [OF assms(1)] assms(2) by (auto simp: kmem_wf_def)
  have "kmem_ready t"
    using st assms(1) hw_bal_irq_wf hw_bal_lk unfolding kmem_step_def kmem_ready_def by blast
  moreover have "kmem_wf t []"
    using st assms(2) by (simp add: kmem_wf_def kmem_step_def)
  ultimately show ?thesis
    using t st by (auto simp: kmem_step_def)
qed

section \<open>Rounding\<close>

lemma PGROUNDDOWN_bits: "PGROUNDDOWN a = push_bit 12 (drop_bit 12 a)"
proof -
  have "PGSIZE - 1 = mask 12"
    by (simp add: PGSIZE_def mask_eq_exp_minus_1)
  then show ?thesis
    unfolding PGROUNDDOWN_def by (intro bit_word_eqI) (auto simp: bit_simps)
qed

lemma unat_PGROUNDDOWN: "unat (PGROUNDDOWN a) = 4096 * (unat a div 4096)"
proof -
  have "unat (drop_bit 12 a) = unat a div 4096"
    by (simp add: drop_bit_eq_div unat_div)
  moreover have "unat a div 4096 * 4096 < 2 ^ 64"
    using unat_u64_bound [of a] by (rule le_less_trans [OF div_times_less_eq_dividend])
  ultimately show ?thesis
    by (simp add: PGROUNDDOWN_bits push_bit_eq_mult unat_word_ariths mult.commute)
qed

lemma page_aligned_PGROUNDDOWN [simp]: "page_aligned (PGROUNDDOWN a)"
  by (simp add: page_aligned_unat unat_PGROUNDDOWN)

lemma PGROUNDUP_conv: "PGROUNDUP a = PGROUNDDOWN (a + (PGSIZE - 1))"
  by (simp add: PGROUNDUP_def PGROUNDDOWN_def algebra_simps)

lemma unat_PGROUNDUP:
  assumes "unat a + 4095 < 2 ^ 64"
  shows "unat (PGROUNDUP a) = 4096 * ((unat a + 4095) div 4096)"
proof -
  have "unat (a + (PGSIZE - 1)) = unat a + 4095"
    using assms by (simp add: PGSIZE_def unat_word_ariths)
  then show ?thesis
    by (simp add: PGROUNDUP_conv unat_PGROUNDDOWN)
qed

section \<open>Initialisation\<close>

definition nth_page :: "nat \<Rightarrow> u64" where
  "nth_page k = of_nat (4096 * k)"

definition pages_between :: "nat \<Rightarrow> nat \<Rightarrow> u64 list" where
  "pages_between k n = map nth_page [k..<n]"

definition top_page :: nat where
  "top_page = unat PHYSTOP div 4096"

lemma top_page_eq: "top_page = 0x88000" "PHYSTOP = nth_page top_page"
  by (simp_all add: top_page_def PHYSTOP_def KERNBASE_def nth_page_def)

lemma unat_nth_page: "k \<le> top_page \<Longrightarrow> unat (nth_page k) = 4096 * k"
  unfolding nth_page_def by (rule unat_of_nat_u64) (simp add: top_page_eq)

lemma page_of_nth_page: "k \<le> top_page \<Longrightarrow> page_of (nth_page k) = k"
  by (simp add: page_of_def unat_nth_page)

lemma nth_page_add: "nth_page k + PGSIZE = nth_page (Suc k)"
  by (simp add: nth_page_def PGSIZE_def algebra_simps)

lemma nth_page_le: "j \<le> top_page \<Longrightarrow> k \<le> top_page \<Longrightarrow> nth_page j \<le> nth_page k \<longleftrightarrow> j \<le> k"
  by (simp add: word_le_nat_alt unat_nth_page)

lemma page_ok_nth_page:
  assumes "k < top_page" and "ksym_end s \<le> nth_page k"
  shows "page_ok s (nth_page k)"
proof -
  have "unat (nth_page k) < unat PHYSTOP"
    using assms(1) by (simp add: unat_nth_page top_page_eq(2))
  moreover have "nth_page k mod PGSIZE = 0"
    using assms(1) page_aligned_unat [of "nth_page k"] by (simp add: page_aligned_def unat_nth_page)
  ultimately show ?thesis
    using assms(2) by (simp add: page_ok_def word_less_nat_alt)
qed

lemma freerange_loop:
  assumes "kmem_ready s" and "kmem_wf s xs" and "\<forall>x \<in> set xs. page_of x < k"
    and "ksym_end s \<le> nth_page k" and "k \<le> top_page" and "top_page - k < fuel"
  shows "\<exists>t. loopM fuel
       (\<lambda>p. if p + PGSIZE \<le> PHYSTOP then thn (kfree p) (ret (Inl (p + PGSIZE))) else ret (Inr ()))
       (nth_page k) s = Done () t
    \<and> kmem_ready t \<and> kmem_wf t (rev (pages_between k top_page) @ xs) \<and> hw_bal s t
    \<and> ksym_end t = ksym_end s \<and> kmem.more t = kmem.more s"
  using assms
proof (induction "top_page - k" arbitrary: k s xs fuel)
  case 0
  then have "k = top_page" by simp
  moreover obtain f where "fuel = Suc f" using 0 by (cases fuel) auto
  moreover have "\<not> nth_page k + PGSIZE \<le> PHYSTOP"
  proof -
    have "unat (nth_page (Suc top_page)) = 4096 * Suc top_page"
      unfolding nth_page_def by (rule unat_of_nat_u64) (simp add: top_page_eq)
    then show ?thesis
      using \<open>k = top_page\<close> by (simp add: nth_page_add top_page_eq(2) word_le_nat_alt unat_nth_page)
  qed
  ultimately show ?case
    using 0 by (simp add: run pages_between_def)
next
  case (Suc d)
  then have k: "k < top_page" by simp
  obtain f where f: "fuel = Suc f" using Suc.prems(6) by (cases fuel) auto
  have guard: "nth_page k + PGSIZE \<le> PHYSTOP"
    using k by (simp add: nth_page_add top_page_eq(2) nth_page_le)
  have "nth_page k \<notin> set xs"
    using Suc.prems(3) k page_of_nth_page [of k] by auto
  then obtain t where t: "kfree (nth_page k) s = Done () t" "kmem_ready t" "kmem_wf t (nth_page k # xs)"
      "hw_bal s t" "ksym_end t = ksym_end s" "kmem.more t = kmem.more s"
    using kfree_push [OF Suc.prems(1,2) page_ok_nth_page [OF k Suc.prems(4)]] by blast
  have "nth_page k \<le> nth_page (Suc k)"
    using k by (simp add: nth_page_le)
  then have "ksym_end t \<le> nth_page (Suc k)"
    using t(5) Suc.prems(4) by simp
  moreover have "\<forall>x \<in> set (nth_page k # xs). page_of x < Suc k"
    using Suc.prems(3) k by (auto simp: page_of_nth_page)
  moreover have "d = top_page - Suc k"
    using Suc.hyps(2) by simp
  ultimately obtain u where u: "loopM f
       (\<lambda>p. if p + PGSIZE \<le> PHYSTOP then thn (kfree p) (ret (Inl (p + PGSIZE))) else ret (Inr ()))
       (nth_page (Suc k)) t = Done () u" "kmem_ready u"
      "kmem_wf u (rev (pages_between (Suc k) top_page) @ nth_page k # xs)" "hw_bal t u"
      "ksym_end u = ksym_end t" "kmem.more u = kmem.more t"
    using Suc.hyps(1) [of "Suc k" t "nth_page k # xs" f] Suc.hyps(2) Suc.prems(6) t k f by auto
  have "pages_between k top_page = nth_page k # pages_between (Suc k) top_page"
    using k by (simp add: pages_between_def upt_conv_Cons)
  then show ?case
    using t u guard f hw_bal_trans [OF t(4) u(4)] by (simp add: run nth_page_add)
qed

lemma kinit_run:
  assumes "irq_wf s" and "freelist s = 0"
    and "KERNBASE \<le> ksym_end s" and "unat (ksym_end s) + 2 * 4096 \<le> unat PHYSTOP"
  shows "\<exists>t. kinit s = Done () t \<and> kmem_ready t
    \<and> kmem_wf t (rev (pages_between ((unat (ksym_end s) + 4095) div 4096 + 1) top_page))
    \<and> ksym_end t = ksym_end s \<and> kmem.more t = kmem.more s"
proof -
  let ?s = "s\<lparr>locks := upd (locks s) KmemLock (\<lambda>k. k\<lparr>sl_name := ''kmem'', sl_locked := 0, sl_cpu := None\<rparr>)\<rparr>"
  let ?e = "unat (ksym_end s)"
  let ?k = "(?e + 4095) div 4096 + 1"
  have stop: "unat PHYSTOP = 4096 * top_page"
    by (simp add: top_page_eq(2) unat_nth_page)
  have k: "?k \<le> top_page"
    using assms(4) stop by (simp add: top_page_eq)
  have "unat (PGROUNDUP (ksym_end s)) = 4096 * ((?e + 4095) div 4096)"
    using assms(4) stop by (intro unat_PGROUNDUP) (simp add: top_page_eq)
  then have "unat (PGROUNDUP (ksym_end s)) = unat (nth_page ((?e + 4095) div 4096))"
    using k by (simp add: unat_nth_page)
  then have "PGROUNDUP (ksym_end s) = nth_page ((?e + 4095) div 4096)"
    by (rule unsigned_word_eqI)
  then have start: "PGROUNDUP (ksym_end s) + 4096 = nth_page ?k"
    using nth_page_add [of "(?e + 4095) div 4096"] by (simp add: PGSIZE_def)
  have "?e \<le> 4096 * ?k" by simp
  then have ge: "ksym_end s \<le> nth_page ?k"
    using k by (simp add: word_le_nat_alt unat_nth_page)
  have "kmem_ready ?s" "kmem_wf ?s []"
    using assms by (auto simp: kmem_ready_def kmem_wf_def irq_wf_def depth_def irq_on_def lk_clean_def)
  moreover have "top_page - ?k < Suc (unat PHYSTOP div 4096)"
    using stop by simp
  ultimately obtain t where "loopM (Suc (unat PHYSTOP div 4096))
       (\<lambda>p. if p + PGSIZE \<le> PHYSTOP then thn (kfree p) (ret (Inl (p + PGSIZE))) else ret (Inr ()))
       (nth_page ?k) ?s = Done () t" "kmem_ready t" "kmem_wf t (rev (pages_between ?k top_page) @ [])"
      "ksym_end t = ksym_end ?s" "kmem.more t = kmem.more ?s"
    using freerange_loop [of ?s "[]" ?k "Suc (unat PHYSTOP div 4096)"] ge k by auto
  then show ?thesis
    by (simp add: kinit_def initlock_def upd_lock_def run freerange_def start)
qed

section \<open>The contract of a page allocator\<close>

text \<open>
  What a client may rely on: \<open>inv s xs\<close> says that the allocator is usable and that \<open>xs\<close>
  are its free pages.
\<close>

locale page_allocator =
  fixes inv :: "'s \<Rightarrow> u64 list \<Rightarrow> bool"
    and valid_page :: "'s \<Rightarrow> u64 \<Rightarrow> bool"
    and alloc :: "('s, u64) kop"
    and free :: "u64 \<Rightarrow> ('s, unit) kop"
  assumes distinct_pages: "inv s xs \<Longrightarrow> distinct xs \<and> 0 \<notin> set xs \<and> (\<forall>x \<in> set xs. valid_page s x)"
    and alloc_Nil: "inv s [] \<Longrightarrow> \<exists>t. alloc s = Done 0 t \<and> inv t [] \<and> valid_page t = valid_page s"
    and alloc_Cons: "inv s (x # xs) \<Longrightarrow> \<exists>t. alloc s = Done x t \<and> inv t xs \<and> valid_page t = valid_page s"
    and free_page: "inv s xs \<Longrightarrow> valid_page s p \<Longrightarrow> p \<notin> set xs
      \<Longrightarrow> \<exists>t. free p s = Done () t \<and> inv t (p # xs) \<and> valid_page t = valid_page s"
begin

primrec alloc_n :: "nat \<Rightarrow> ('s, u64 list) kop" where
  "alloc_n 0 = ret []"
| "alloc_n (Suc n) = bnd alloc (\<lambda>p. bnd (alloc_n n) (\<lambda>ps. ret (p # ps)))"

lemma alloc_n_run:
  "inv s xs \<Longrightarrow> n \<le> length xs \<Longrightarrow> \<exists>t. alloc_n n s = Done (take n xs) t \<and> inv t (drop n xs) \<and> valid_page t = valid_page s"
proof (induction n arbitrary: s xs)
  case 0
  then show ?case by (simp add: run)
next
  case (Suc n)
  then obtain x ys where xs: "xs = x # ys" by (cases xs) auto
  obtain t where t: "alloc s = Done x t" "inv t ys" "valid_page t = valid_page s"
    using alloc_Cons Suc.prems(1) xs by blast
  obtain u where "alloc_n n t = Done (take n ys) u" "inv u (drop n ys)" "valid_page u = valid_page t"
    using Suc.IH [OF t(2)] Suc.prems(2) xs by auto
  with t xs show ?case by (simp add: run)
qed

lemma alloc_n_distinct:
  assumes "inv s xs" and "n \<le> length xs" and "alloc_n n s = Done ps t"
  shows "length ps = n \<and> distinct ps \<and> 0 \<notin> set ps"
proof -
  have "ps = take n xs" using alloc_n_run [OF assms(1,2)] assms(3) by auto
  then show ?thesis
    using assms(2) distinct_pages [OF assms(1)] by (auto dest: in_set_takeD)
qed

lemma free_then_alloc:
  assumes "inv s xs" and "valid_page s p" and "p \<notin> set xs"
  shows "\<exists>t. thn (free p) alloc s = Done p t \<and> inv t xs"
proof -
  obtain t where t: "free p s = Done () t" "inv t (p # xs)"
    using free_page [OF assms] by blast
  obtain u where "alloc t = Done p u" "inv u xs"
    using alloc_Cons [OF t(2)] by blast
  with t show ?thesis by (simp add: run)
qed

end

definition kmem_inv :: "'z kmem_scheme \<Rightarrow> u64 list \<Rightarrow> bool" where
  "kmem_inv s xs \<longleftrightarrow> kmem_ready s \<and> kmem_wf s xs"

lemma page_ok_cong: "ksym_end t = ksym_end s \<Longrightarrow> page_ok t = page_ok s"
  by (simp add: page_ok_def fun_eq_iff)

interpretation kmem_alloc: page_allocator kmem_inv page_ok kalloc kfree
proof
  fix s :: "'z kmem_scheme" and xs
  assume "kmem_inv s xs"
  then have "\<forall>x \<in> set xs. page_ok s x" "KERNBASE \<le> ksym_end s" "distinct xs"
    by (auto simp: kmem_inv_def kmem_wf_def)
  moreover from this have "0 \<notin> set xs"
    by (auto simp: page_ok_def KERNBASE_def)
  ultimately show "distinct xs \<and> 0 \<notin> set xs \<and> (\<forall>x \<in> set xs. page_ok s x)" by blast
next
  fix s :: "'z kmem_scheme"
  assume "kmem_inv s []"
  then show "\<exists>t. kalloc s = Done 0 t \<and> kmem_inv t [] \<and> page_ok t = page_ok s"
    using kalloc_empty [of s] page_ok_cong unfolding kmem_inv_def by blast
next
  fix s :: "'z kmem_scheme" and x xs
  assume "kmem_inv s (x # xs)"
  then show "\<exists>t. kalloc s = Done x t \<and> kmem_inv t xs \<and> page_ok t = page_ok s"
    using kalloc_pop [of s x xs] page_ok_cong unfolding kmem_inv_def by blast
next
  fix s :: "'z kmem_scheme" and xs p
  assume "kmem_inv s xs" "page_ok s p" "p \<notin> set xs"
  then show "\<exists>t. kfree p s = Done () t \<and> kmem_inv t (p # xs) \<and> page_ok t = page_ok s"
    using kfree_push [of s xs p] page_ok_cong unfolding kmem_inv_def by blast
qed

section \<open>Properties\<close>

text \<open>The kernel's memory at boot: nothing on the free list, the kernel image ends at \<open>kend\<close>.\<close>

definition boot_kmem :: "u64 \<Rightarrow> kmem" where
  "boot_kmem kend = \<lparr>tp = 0, csrs = (\<lambda>_. zero_csr), cpus = (\<lambda>_. zero_cpu), locks = (\<lambda>_. zero_lock),
     ntest_and_set = 0, mem = (\<lambda>_. 0), freelist = 0, ksym_end = kend\<rparr>"

lemma boot_kmem_ok: "irq_wf (boot_kmem kend)" "kmem_ready (boot_kmem kend)"
  by (simp_all add: boot_kmem_def irq_wf_def depth_def irq_on_def kmem_ready_def lk_clean_def zero_defs)

lemma boot_kmem_inv: "KERNBASE \<le> kend \<Longrightarrow> kmem_inv (boot_kmem kend) []"
  using boot_kmem_ok by (simp add: kmem_inv_def kmem_wf_def boot_kmem_def)

text \<open>
  C5: \<^verbatim>\<open>kalloc()\<close> refines removing the head of the list of free pages: it returns the
  head and fills that page with 5s, or returns 0 and changes no memory when the list is empty.  The
  invariant is kept, no byte outside the page changes, and the machine layer is balanced.
\<close>

theorem kalloc_pops:
  assumes "kmem_inv s xs"
  shows "\<exists>t. kalloc s = Done (case xs of [] \<Rightarrow> 0 | x # _ \<Rightarrow> x) t \<and> kmem_inv t (tl xs) \<and> hw_bal s t \<and>
    kmem.more t = kmem.more s \<and>
    (\<forall>a. mem t a = (if xs \<noteq> [] \<and> page_of a = page_of (hd xs) then 5 else mem s a))"
proof (cases xs)
  case Nil
  then show ?thesis using kalloc_empty [of s] assms by (auto simp: kmem_inv_def)
next
  case (Cons x ys)
  then show ?thesis using kalloc_pop [of s x ys] assms by (auto simp: kmem_inv_def)
qed

theorem kalloc_pops_witness:
  "(\<exists>s t. kfree 0x80001000 (boot_kmem KERNBASE) = Done () s \<and> kalloc s = Done 0x80001000 t \<and>
      kmem_inv t [] \<and> mem t 0x80001008 = 5) \<and>
   (\<exists>t. kalloc (boot_kmem KERNBASE) = Done 0 t \<and> kmem_inv t [])"
proof -
  have i: "kmem_inv (boot_kmem KERNBASE) []" by (rule boot_kmem_inv) simp
  have "page_ok (boot_kmem KERNBASE) 0x80001000"
    by (simp add: page_ok_def boot_kmem_def PGSIZE_def KERNBASE_def PHYSTOP_def)
  then obtain s where s: "kfree 0x80001000 (boot_kmem KERNBASE) = Done () s" "kmem_inv s [0x80001000]"
    using kfree_push [of "boot_kmem KERNBASE" "[]" "0x80001000"] i by (auto simp: kmem_inv_def)
  have "page_of 0x80001008 = page_of 0x80001000" by (simp add: page_of_def)
  with kalloc_pops [OF s(2)] have "\<exists>t. kalloc s = Done 0x80001000 t \<and> kmem_inv t [] \<and> mem t 0x80001008 = 5" by auto
  with s(1) kalloc_pops [OF i] show ?thesis by auto
qed

text \<open>
  C6: \<^verbatim>\<open>kfree()\<close> refines adding a page to the front of the list of free pages, changes no
  byte outside that page, and panics exactly when its argument is not a page of the memory the
  allocator manages.
\<close>

theorem kfree_pushes:
  assumes "kmem_inv s xs" and "pa \<notin> set xs"
  shows "(page_ok s pa \<longrightarrow> (\<exists>t. kfree pa s = Done () t \<and> kmem_inv t (pa # xs) \<and> hw_bal s t \<and>
      kmem.more t = kmem.more s \<and> (\<forall>a. page_of a \<noteq> page_of pa \<longrightarrow> mem t a = mem s a))) \<and>
    (\<not> page_ok s pa \<longrightarrow> kfree pa s = Panic ''kfree'' s)"
  using kfree_push [of s xs pa] kfree_panics [of s pa] assms by (auto simp: kmem_inv_def)

theorem kfree_pushes_witness:
  "(\<exists>t. kfree 0x80001000 (boot_kmem KERNBASE) = Done () t \<and> kmem_inv t [0x80001000]) \<and>
   kfree 0x80001001 (boot_kmem KERNBASE) = Panic ''kfree'' (boot_kmem KERNBASE)"
proof -
  have i: "kmem_inv (boot_kmem KERNBASE) []" by (rule boot_kmem_inv) simp
  have "page_ok (boot_kmem KERNBASE) 0x80001000" "\<not> page_ok (boot_kmem KERNBASE) 0x80001001"
    by (simp_all add: page_ok_def boot_kmem_def PGSIZE_def KERNBASE_def PHYSTOP_def)
  then show ?thesis
    using kfree_pushes [OF i, of "0x80001000"] kfree_pushes [OF i, of "0x80001001"] by auto
qed

text \<open>
  C28: \<^verbatim>\<open>kinit()\<close> returns with every page from the second page boundary after the kernel
  image up to \<^verbatim>\<open>PHYSTOP\<close> on the free list, highest first, and no page of the image.
\<close>

theorem kinit_frees_memory:
  assumes "irq_wf s" and "freelist s = 0" and "KERNBASE \<le> ksym_end s"
    and "unat (ksym_end s) + 2 * 4096 \<le> unat PHYSTOP"
  shows "\<exists>t. kinit s = Done () t \<and>
    kmem_inv t (rev (pages_between ((unat (ksym_end s) + 4095) div 4096 + 1) top_page))"
  using kinit_run [OF assms] by (auto simp: kmem_inv_def)

theorem kinit_frees_memory_witness:
  "\<exists>t. kinit (boot_kmem 0x87ffd800) = Done () t \<and> kmem_inv t [0x87fff000]"
proof -
  have "\<exists>t. kinit (boot_kmem 0x87ffd800) = Done () t \<and>
      kmem_inv t (rev (pages_between ((unat (ksym_end (boot_kmem 0x87ffd800)) + 4095) div 4096 + 1) top_page))"
    by (rule kinit_frees_memory)
      (simp_all add: boot_kmem_ok, simp_all add: boot_kmem_def KERNBASE_def PHYSTOP_def)
  then show ?thesis
    by (simp add: boot_kmem_def pages_between_def top_page_eq nth_page_def upt_rec numeral_eq_Suc [of "num.One"])
qed

text \<open>
  \<^verbatim>\<open>kalloc()\<close> never hands out a page twice: any sequence of calls, as long as there are
  free pages, returns distinct non-null pages.
\<close>

theorem kalloc_pages_distinct:
  assumes "kmem_inv s xs" and "n \<le> length xs"
  shows "\<exists>ps t. kmem_alloc.alloc_n n s = Done ps t \<and> length ps = n \<and> distinct ps \<and> 0 \<notin> set ps \<and>
    kmem_inv t (drop n xs)"
  using kmem_alloc.alloc_n_run [OF assms] kmem_alloc.alloc_n_distinct [OF assms] by blast

theorem kalloc_pages_distinct_witness:
  "\<exists>s :: kmem. kmem_inv s [0x80001000] \<and> (\<exists>ps t. kmem_alloc.alloc_n 1 s = Done ps t \<and> length ps = 1 \<and> kmem_inv t [])"
proof -
  have "page_ok (boot_kmem KERNBASE) 0x80001000"
    by (simp add: page_ok_def boot_kmem_def PGSIZE_def KERNBASE_def PHYSTOP_def)
  then obtain s :: kmem where s: "kmem_inv s [0x80001000]"
    using kfree_push [of "boot_kmem KERNBASE" "[]" "0x80001000"] boot_kmem_inv [of KERNBASE]
    by (auto simp: kmem_inv_def)
  have "\<exists>ps t. kmem_alloc.alloc_n 1 s = Done ps t \<and> length ps = 1 \<and> distinct ps \<and> 0 \<notin> set ps \<and>
      kmem_inv t (drop 1 [0x80001000])"
    by (rule kalloc_pages_distinct [OF s]) simp
  with s show ?thesis by auto
qed

end
