(* ===== verification/Vm.thy ===== *)
theory Vm
  imports Kalloc
begin

text \<open>
  Page tables (\<^verbatim>\<open>kernel/vm.c\<close>): the Sv39 tree lives in physical memory, a page-table
  page is 512 eight-byte entries, and every operation reads and writes it there through
  \<open>load64\<close> and \<open>store64\<close>.  A pointer to an entry is its physical address (the kernel maps
  physical memory one to one), 0 is the null pointer.
\<close>

section \<open>State\<close>

text \<open>
  \<^verbatim>\<open>kernel_pagetable\<close>, and the linker's \<^verbatim>\<open>etext\<close> and
  \<^verbatim>\<open>trampoline\<close>.
\<close>

record vmst = kmem +
  kernel_pagetable :: u64
  ksym_etext :: u64
  ksym_trampoline :: u64

section \<open>Walking the tree\<close>

definition pte_addr :: "u64 \<Rightarrow> nat \<Rightarrow> u64 \<Rightarrow> u64" where
  "pte_addr pagetable level va = pagetable + 8 * PX level va"

text \<open>One turn of the loop of \<^verbatim>\<open>walk()\<close>: the next page table, or 0.\<close>

definition walk_step :: "u64 \<Rightarrow> bool \<Rightarrow> nat \<Rightarrow> u64 \<Rightarrow> ('z kmem_scheme, u64) kop" where
  "walk_step va alloc level pagetable =
     bnd (gets (\<lambda>s. load64 (mem s) (pte_addr pagetable level va))) (\<lambda>pte.
     if pte AND PTE_V \<noteq> 0 then ret (PTE2PA pte)
     else if \<not> alloc then ret 0
     else
     bnd kalloc (\<lambda>pt.
     if pt = 0 then ret 0
     else
     thn (upd_mem (memset pt 0 (ucast PGSIZE))) (
     thn (upd_mem (store64 (pte_addr pagetable level va) (PA2PTE pt OR PTE_V))) (
     ret pt))))"

primrec walk_loop :: "u64 \<Rightarrow> bool \<Rightarrow> nat \<Rightarrow> u64 \<Rightarrow> ('z kmem_scheme, u64) kop" where
  "walk_loop va alloc 0 pagetable = ret (pte_addr pagetable 0 va)"
| "walk_loop va alloc (Suc l) pagetable =
     bnd (walk_step va alloc (Suc l) pagetable) (\<lambda>pt.
     if pt = 0 then ret 0 else walk_loop va alloc l pt)"

definition walk :: "u64 \<Rightarrow> u64 \<Rightarrow> bool \<Rightarrow> ('z kmem_scheme, u64) kop" where
  "walk pagetable va alloc =
     thn (panic_if (va \<ge> MAXVA) ''walk'') (
     walk_loop va alloc 2 pagetable)"

definition walkaddr :: "u64 \<Rightarrow> u64 \<Rightarrow> ('z kmem_scheme, u64) kop" where
  "walkaddr pagetable va =
     bnd (walk pagetable va False) (\<lambda>pte.
     if pte = 0 then ret 0
     else
     bnd (gets (\<lambda>s. load64 (mem s) pte)) (\<lambda>e.
     if e AND PTE_V = 0 then ret 0
     else if e AND PTE_U = 0 then ret 0
     else ret (PTE2PA e)))"

section \<open>Mapping\<close>

text \<open>
  The loops that step through pages end at the latest when \<^verbatim>\<open>walk()\<close> panics at
  \<^verbatim>\<open>MAXVA\<close>, so one iteration per page of the address space (and one more) is enough.
\<close>

definition max_pages :: nat where
  "max_pages = Suc (unat MAXVA div 4096)"

text \<open>One turn of the loop of \<^verbatim>\<open>mappages()\<close>, up to the page \<^verbatim>\<open>last\<close>.\<close>

definition mappages_turn :: "u64 \<Rightarrow> u64 \<Rightarrow> u64 \<Rightarrow> u64 \<times> u64 \<Rightarrow> ('z kmem_scheme, u64 \<times> u64 + int) kop" where
  "mappages_turn pagetable lst perm = (\<lambda>(a, pa).
     bnd (walk pagetable a True) (\<lambda>pte.
     if pte = 0 then ret (Inr (-1))
     else
     bnd (gets (\<lambda>s. load64 (mem s) pte)) (\<lambda>e.
     thn (panic_if (e AND PTE_V \<noteq> 0) ''remap'') (
     thn (upd_mem (store64 pte (PA2PTE pa OR perm OR PTE_V))) (
     if a = lst then ret (Inr 0)
     else ret (Inl (a + PGSIZE, pa + PGSIZE)))))))"

definition mappages :: "u64 \<Rightarrow> u64 \<Rightarrow> u64 \<Rightarrow> u64 \<Rightarrow> u64 \<Rightarrow> ('z kmem_scheme, int) kop" where
  "mappages pagetable va sz pa perm =
     (let lst = PGROUNDDOWN (va + sz - 1) in
      loopM max_pages (mappages_turn pagetable lst perm) (PGROUNDDOWN va, pa))"

definition kvmmap :: "u64 \<Rightarrow> u64 \<Rightarrow> u64 \<Rightarrow> u64 \<Rightarrow> ('z vmst_scheme, unit) kop" where
  "kvmmap va pa sz perm =
     bnd (gets kernel_pagetable) (\<lambda>kpt.
     bnd (mappages kpt va sz pa perm) (\<lambda>r.
     panic_if (r \<noteq> 0) ''kvmmap''))"

definition kvminit :: "('z vmst_scheme, unit) kop" where
  "kvminit =
     bnd kalloc (\<lambda>kpt.
     thn (modify (\<lambda>s. s\<lparr>kernel_pagetable := kpt\<rparr>)) (
     thn (upd_mem (memset kpt 0 (ucast PGSIZE))) (
     thn (kvmmap UART0 UART0 PGSIZE (PTE_R OR PTE_W)) (
     thn (kvmmap (VIRTION 0) (VIRTION 0) PGSIZE (PTE_R OR PTE_W)) (
     thn (kvmmap (VIRTION 1) (VIRTION 1) PGSIZE (PTE_R OR PTE_W)) (
     thn (kvmmap CLINT CLINT 0x10000 (PTE_R OR PTE_W)) (
     thn (kvmmap PLIC PLIC 0x400000 (PTE_R OR PTE_W)) (
     bnd (gets ksym_etext) (\<lambda>etext.
     thn (kvmmap KERNBASE KERNBASE (etext - KERNBASE) (PTE_R OR PTE_X)) (
     thn (kvmmap etext etext (PHYSTOP - etext) (PTE_R OR PTE_W)) (
     bnd (gets ksym_trampoline) (\<lambda>tramp.
     kvmmap TRAMPOLINE tramp PGSIZE (PTE_R OR PTE_X)))))))))))))"

definition kvminithart :: "('z vmst_scheme, unit) kop" where
  "kvminithart = bnd (gets kernel_pagetable) (\<lambda>kpt. w_satp (MAKE_SATP kpt))"

definition kvmpa :: "u64 \<Rightarrow> ('z vmst_scheme, u64) kop" where
  "kvmpa va =
     (let off = va mod PGSIZE in
      bnd (gets kernel_pagetable) (\<lambda>kpt.
      bnd (walk kpt va False) (\<lambda>pte.
      thn (panic_if (pte = 0) ''kvmpa'') (
      bnd (gets (\<lambda>s. load64 (mem s) pte)) (\<lambda>e.
      thn (panic_if (e AND PTE_V = 0) ''kvmpa'') (
      ret (PTE2PA e + off)))))))"

section \<open>User memory\<close>

text \<open>
  One turn of the loop of \<^verbatim>\<open>uvmunmap()\<close>.  The line printed before the panic for an
  unmapped page is left out, and so is the addition to \<^verbatim>\<open>pa\<close>, whose value is not used.
\<close>

definition uvmunmap_turn :: "u64 \<Rightarrow> u64 \<Rightarrow> bool \<Rightarrow> u64 \<Rightarrow> ('z kmem_scheme, u64 + unit) kop" where
  "uvmunmap_turn pagetable lst do_free = (\<lambda>a.
     bnd (walk pagetable a False) (\<lambda>pte.
     thn (panic_if (pte = 0) ''uvmunmap: walk'') (
     bnd (gets (\<lambda>s. load64 (mem s) pte)) (\<lambda>e.
     thn (panic_if (e AND PTE_V = 0) ''uvmunmap: not mapped'') (
     thn (panic_if (PTE_FLAGS e = PTE_V) ''uvmunmap: not a leaf'') (
     thn (whenM do_free (kfree (PTE2PA e))) (
     thn (upd_mem (store64 pte 0)) (
     if a = lst then ret (Inr ()) else ret (Inl (a + PGSIZE))))))))))"

definition uvmunmap :: "u64 \<Rightarrow> u64 \<Rightarrow> u64 \<Rightarrow> bool \<Rightarrow> ('z kmem_scheme, unit) kop" where
  "uvmunmap pagetable va sz do_free =
     (let lst = PGROUNDDOWN (va + sz - 1) in
      loopM max_pages (uvmunmap_turn pagetable lst do_free) (PGROUNDDOWN va))"

definition uvmcreate :: "('z kmem_scheme, u64) kop" where
  "uvmcreate =
     bnd kalloc (\<lambda>pt.
     thn (panic_if (pt = 0) ''uvmcreate: out of memory'') (
     thn (upd_mem (memset pt 0 (ucast PGSIZE))) (
     ret pt)))"

text \<open>A kernel object copied into physical memory: \<^verbatim>\<open>memmove(pa, src, n)\<close>.\<close>

definition put_bytes :: "u64 \<Rightarrow> u8 list \<Rightarrow> memory \<Rightarrow> memory" where
  "put_bytes p bs m = (\<lambda>a. if in_region a p (length bs) then bs ! unat (a - p) else m a)"

definition get_bytes :: "u64 \<Rightarrow> nat \<Rightarrow> memory \<Rightarrow> u8 list" where
  "get_bytes p n m = map (\<lambda>i. m (p + of_nat i)) [0..<n]"

definition uvminit :: "u64 \<Rightarrow> u8 list \<Rightarrow> ('z kmem_scheme, unit) kop" where
  "uvminit pagetable src =
     thn (panic_if (length src \<ge> unat PGSIZE) ''inituvm: more than a page'') (
     bnd kalloc (\<lambda>pg.
     thn (upd_mem (memset pg 0 (ucast PGSIZE))) (
     bnd (mappages pagetable 0 PGSIZE pg (PTE_W OR PTE_R OR PTE_X OR PTE_U)) (\<lambda>_.
     upd_mem (put_bytes pg src)))))"

definition uvmdealloc :: "u64 \<Rightarrow> u64 \<Rightarrow> u64 \<Rightarrow> ('z kmem_scheme, u64) kop" where
  "uvmdealloc pagetable oldsz newsz =
     (if newsz \<ge> oldsz then ret oldsz
      else thn (uvmunmap pagetable newsz (oldsz - newsz) True) (ret newsz))"

definition uvmalloc :: "u64 \<Rightarrow> u64 \<Rightarrow> u64 \<Rightarrow> ('z kmem_scheme, u64) kop" where
  "uvmalloc pagetable oldsz newsz =
     (if newsz < oldsz then ret oldsz
      else
      let oldsz = PGROUNDUP oldsz in
      loopM max_pages (\<lambda>a.
        if \<not> a < newsz then ret (Inr newsz)
        else
        bnd kalloc (\<lambda>pg.
        if pg = 0 then thn (uvmdealloc pagetable a oldsz) (ret (Inr 0))
        else
        thn (upd_mem (memset pg 0 (ucast PGSIZE))) (
        bnd (mappages pagetable a PGSIZE pg (PTE_W OR PTE_X OR PTE_R OR PTE_U)) (\<lambda>r.
        if r \<noteq> 0 then thn (kfree pg) (thn (uvmdealloc pagetable a oldsz) (ret (Inr 0)))
        else ret (Inl (a + PGSIZE))))))
      oldsz)"

text \<open>
  \<^verbatim>\<open>freewalk()\<close> recurses down the three levels of the tree; \<open>d\<close> bounds the depth.  A
  deeper recursion would mean a cycle in the table, on which the C code would not return.
\<close>

primrec freewalk_depth :: "nat \<Rightarrow> u64 \<Rightarrow> ('z kmem_scheme, unit) kop" where
  "freewalk_depth 0 pagetable = (\<lambda>s. Spin s)"
| "freewalk_depth (Suc d) pagetable =
     thn (for_all [0..<512] (\<lambda>i.
       bnd (gets (\<lambda>s. load64 (mem s) (pagetable + 8 * of_nat i))) (\<lambda>pte.
       if pte AND PTE_V \<noteq> 0 \<and> pte AND (PTE_R OR PTE_W OR PTE_X) = 0
       then thn (freewalk_depth d (PTE2PA pte)) (upd_mem (store64 (pagetable + 8 * of_nat i) 0))
       else panic_if (pte AND PTE_V \<noteq> 0) ''freewalk: leaf''))) (
     kfree pagetable)"

definition freewalk :: "u64 \<Rightarrow> ('z kmem_scheme, unit) kop" where
  "freewalk = freewalk_depth 3"

definition uvmfree :: "u64 \<Rightarrow> u64 \<Rightarrow> ('z kmem_scheme, unit) kop" where
  "uvmfree pagetable sz = thn (uvmunmap pagetable 0 sz True) (freewalk pagetable)"

definition uvmcopy :: "u64 \<Rightarrow> u64 \<Rightarrow> u64 \<Rightarrow> ('z kmem_scheme, int) kop" where
  "uvmcopy old new sz =
     loopM max_pages (\<lambda>i.
       if \<not> i < sz then ret (Inr 0)
       else
       bnd (walk old i False) (\<lambda>pte.
       thn (panic_if (pte = 0) ''copyuvm: pte should exist'') (
       bnd (gets (\<lambda>s. load64 (mem s) pte)) (\<lambda>e.
       thn (panic_if (e AND PTE_V = 0) ''copyuvm: page not present'') (
       bnd kalloc (\<lambda>pg.
       if pg = 0 then thn (uvmunmap new 0 i True) (ret (Inr (-1)))
       else
       thn (upd_mem (memmove pg (PTE2PA e) (ucast PGSIZE))) (
       bnd (mappages new i PGSIZE pg (PTE_FLAGS e)) (\<lambda>r.
       if r \<noteq> 0 then thn (kfree pg) (thn (uvmunmap new 0 i True) (ret (Inr (-1))))
       else ret (Inl (i + PGSIZE))))))))))
     0"

definition uvmclear :: "u64 \<Rightarrow> u64 \<Rightarrow> ('z kmem_scheme, unit) kop" where
  "uvmclear pagetable va =
     bnd (walk pagetable va False) (\<lambda>pte.
     thn (panic_if (pte = 0) ''uvmclear'') (
     upd_mem (\<lambda>m. store64 pte (load64 m pte AND NOT PTE_U) m)))"

section \<open>Copying between kernel and user\<close>

text \<open>
  \<^verbatim>\<open>va0 = (uint)PGROUNDDOWN(va)\<close>: the cast drops the upper half of the address.  Every
  iteration copies at least one byte, so the number of bytes bounds the loop.
\<close>

definition va0_of :: "u64 \<Rightarrow> u64" where
  "va0_of va = ucast (ucast (PGROUNDDOWN va) :: u32)"

text \<open>\<^verbatim>\<open>n = PGSIZE - (va - va0); if(n > len) n = len;\<close>\<close>

definition chunk :: "u64 \<Rightarrow> nat \<Rightarrow> nat" where
  "chunk va len = min (unat (PGSIZE - (va - va0_of va))) len"

text \<open>
  \<^verbatim>\<open>copyout()\<close>: the kernel object is the list of its \<^verbatim>\<open>len\<close> bytes, and the length
  argument of \<^verbatim>\<open>memmove()\<close> is a \<^verbatim>\<open>uint\<close>.  The memory of the model has every 64-bit
  address; on the machine an access outside what \<^verbatim>\<open>kvminit()\<close> maps is a fault, which
  \<^verbatim>\<open>kerneltrap()\<close> answers with a panic.  The results about these functions are for addresses
  whose offset in the page is below \<^verbatim>\<open>PGSIZE\<close>, that is below 4 GB: they access the frames of
  the page table only.
\<close>

definition copyout_turn :: "u64 \<Rightarrow> u64 \<times> u8 list \<Rightarrow> ('z kmem_scheme, (u64 \<times> u8 list) + int) kop" where
  "copyout_turn pagetable = (\<lambda>(dstva, src).
       if src = [] then ret (Inr 0)
       else
       bnd (walkaddr pagetable (va0_of dstva)) (\<lambda>pa0.
       if pa0 = 0 then ret (Inr (-1))
       else
       let n = chunk dstva (length src) in
       thn (upd_mem (put_bytes (pa0 + (dstva - va0_of dstva)) (take (n mod 2 ^ 32) src))) (
       ret (Inl (va0_of dstva + PGSIZE, drop n src)))))"

definition copyout :: "u64 \<Rightarrow> u64 \<Rightarrow> u8 list \<Rightarrow> ('z kmem_scheme, int) kop" where
  "copyout pagetable dstva src = loopM (Suc (length src)) (copyout_turn pagetable) (dstva, src)"

text \<open>
  \<^verbatim>\<open>copyin()\<close>: the status and the bytes that reached the kernel object.  Its callers ask for
  less than \<open>2 ^ 32\<close> bytes, so the length of \<^verbatim>\<open>memmove()\<close> is \<open>n\<close>.
\<close>

definition copyin_turn ::
  "u64 \<Rightarrow> u64 \<times> nat \<times> u8 list \<Rightarrow> ('z kmem_scheme, (u64 \<times> nat \<times> u8 list) + (int \<times> u8 list)) kop" where
  "copyin_turn pagetable = (\<lambda>(srcva, len, acc).
       if len = 0 then ret (Inr (0, acc))
       else
       bnd (walkaddr pagetable (va0_of srcva)) (\<lambda>pa0.
       if pa0 = 0 then ret (Inr (-1, acc))
       else
       let n = chunk srcva len in
       bnd (gets (\<lambda>s. get_bytes (pa0 + (srcva - va0_of srcva)) n (mem s))) (\<lambda>bs.
       ret (Inl (va0_of srcva + PGSIZE, len - n, acc @ bs)))))"

definition copyin :: "u64 \<Rightarrow> u64 \<Rightarrow> nat \<Rightarrow> ('z kmem_scheme, int \<times> u8 list) kop" where
  "copyin pagetable srcva len = loopM (Suc len) (copyin_turn pagetable) (srcva, len, [])"

text \<open>
  \<^verbatim>\<open>copyinstr()\<close>: the inner loop copies up to and including the terminating zero of the
  chunk, and says whether it met it.
\<close>

primrec take_string :: "u8 list \<Rightarrow> u8 list \<times> bool" where
  "take_string [] = ([], False)"
| "take_string (b # bs) =
     (if b = 0 then ([0], True) else let (r, z) = take_string bs in (b # r, z))"

definition copyinstr :: "u64 \<Rightarrow> u64 \<Rightarrow> nat \<Rightarrow> ('z kmem_scheme, int \<times> u8 list) kop" where
  "copyinstr pagetable srcva mx =
     loopM (Suc mx) (\<lambda>(srcva, mx, acc).
       if mx = 0 then ret (Inr (-1, acc))
       else
       bnd (walkaddr pagetable (va0_of srcva)) (\<lambda>pa0.
       if pa0 = 0 then ret (Inr (-1, acc))
       else
       let n = chunk srcva mx in
       bnd (gets (\<lambda>s. get_bytes (pa0 + (srcva - va0_of srcva)) n (mem s))) (\<lambda>bs.
       case take_string bs of (r, z) \<Rightarrow>
         if z then ret (Inr (0, acc @ r))
         else ret (Inl (va0_of srcva + PGSIZE, mx - n, acc @ r)))))
     (srcva, mx, [])"

end
