(* ===== verification/Sched.thy ===== *)
theory Sched
  imports Vm
begin

text \<open>
  The process table and the part of \<^verbatim>\<open>kernel/proc.c\<close> that blocks and unblocks
  processes: \<^verbatim>\<open>sched()\<close>, \<^verbatim>\<open>sleep()\<close>,
  \<^verbatim>\<open>wakeup()\<close>, \<^verbatim>\<open>yield()\<close>, \<^verbatim>\<open>kill()\<close> and the
  scheduler loop.  \<^verbatim>\<open>swtch()\<close> leaves the thread that runs, so a function that calls
  it is cut there: the part before ends in \<open>Blocked\<close>, the part after is a definition of its own
  with the suffix \<open>_resume\<close>.
\<close>

section \<open>Processes\<close>

datatype procstate = UNUSED | SLEEPING | RUNNABLE | RUNNING | ZOMBIE

text \<open>Sleep channels: the kernel addresses the code passes to \<^verbatim>\<open>sleep()\<close>.\<close>

datatype chan =
    ProcChan nat
  | TicksChan
  | SleepChan slockid
  | LogChan
  | PipeRead u64
  | PipeWrite u64
  | ConsChan
  | DescChan nat
  | BufChan nat

text \<open>
  \<^verbatim>\<open>struct proc\<close> (its lock is \<open>ProcLock i\<close>).  \<^verbatim>\<open>tf\<close> is the
  physical address of the trapframe page, files and inodes are indices of their tables.
\<close>

record proc =
  p_state :: procstate
  p_parent :: "nat option"
  p_chan :: "chan option"
  p_killed :: bool
  p_pid :: int
  p_kstack :: u64
  p_sz :: u64
  p_pagetable :: u64
  p_tf :: u64
  p_context :: kcontext
  p_ofile :: "nat \<Rightarrow> nat option"
  p_cwd :: "nat option"
  p_name :: "nat \<Rightarrow> u8"

record pst = vmst +
  procs :: "nat \<Rightarrow> proc"
  initproc :: "nat option"
  nextpid :: int
  ticks :: u32

text \<open>A process slot as the loader leaves it.\<close>

definition zero_proc :: proc where
  "zero_proc = \<lparr>p_state = UNUSED, p_parent = None, p_chan = None, p_killed = False, p_pid = 0, p_kstack = 0,
     p_sz = 0, p_pagetable = 0, p_tf = 0, p_context = zero_context, p_ofile = (\<lambda>_. None), p_cwd = None,
     p_name = (\<lambda>_. 0)\<rparr>"

definition upd_proc :: "nat \<Rightarrow> (proc \<Rightarrow> proc) \<Rightarrow> ('z pst_scheme, unit) kop" where
  "upd_proc p f = modify (\<lambda>s. s\<lparr>procs := upd (procs s) p f\<rparr>)"

definition get_proc :: "nat \<Rightarrow> (proc \<Rightarrow> 'a) \<Rightarrow> ('z pst_scheme, 'a) kop" where
  "get_proc p f = gets (\<lambda>s. f (procs s p))"

text \<open>Fields of \<^verbatim>\<open>struct trapframe\<close>, by their offsets in the trapframe page.\<close>

definition TF_KERNEL_SATP :: u64 where "TF_KERNEL_SATP = 0"
definition TF_KERNEL_SP :: u64 where "TF_KERNEL_SP = 8"
definition TF_KERNEL_TRAP :: u64 where "TF_KERNEL_TRAP = 16"
definition TF_EPC :: u64 where "TF_EPC = 24"
definition TF_KERNEL_HARTID :: u64 where "TF_KERNEL_HARTID = 32"
definition TF_SP :: u64 where "TF_SP = 48"

definition TF_A :: "nat \<Rightarrow> u64" where
  "TF_A n = 112 + 8 * of_nat n" \<comment> \<open>\<^verbatim>\<open>a0\<close> to \<^verbatim>\<open>a7\<close>\<close>

definition TF_SIZE :: u32 where "TF_SIZE = 288"

definition r_tf :: "nat \<Rightarrow> u64 \<Rightarrow> ('z pst_scheme, u64) kop" where
  "r_tf p off =
     bnd (get_proc p p_tf) (\<lambda>tf.
     if tf = 0 then null_deref else gets (\<lambda>s. load64 (mem s) (tf + off)))"

definition w_tf :: "nat \<Rightarrow> u64 \<Rightarrow> u64 \<Rightarrow> ('z pst_scheme, unit) kop" where
  "w_tf p off v =
     bnd (get_proc p p_tf) (\<lambda>tf.
     if tf = 0 then null_deref else upd_mem (store64 (tf + off) v))"

definition myproc :: "('z hw_scheme, nat option) kop" where
  "myproc =
     thn push_off (
     bnd mycpu (\<lambda>c.
     bnd (gets (\<lambda>s. cpu_proc (cpus s c))) (\<lambda>p.
     thn pop_off (
     ret p))))"

text \<open>\<^verbatim>\<open>myproc()\<close> where the code goes on to dereference it.\<close>

definition curp :: "('z hw_scheme, nat) kop" where
  "curp = bnd myproc deref"

definition allocpid :: "('z pst_scheme, int) kop" where
  "allocpid =
     thn (acquire PidLock) (
     bnd (gets nextpid) (\<lambda>pid.
     thn (modify (\<lambda>s. s\<lparr>nextpid := nextpid s + 1\<rparr>)) (
     thn (release PidLock) (
     ret pid))))"

section \<open>Blocking and waking\<close>

text \<open>\<^verbatim>\<open>swtch(&p->context, &mycpu()->scheduler)\<close>: this thread stops here.\<close>

definition swtch :: "('s, 'a) kop" where
  "swtch = (\<lambda>s. Blocked s)"

text \<open>\<^verbatim>\<open>sched()\<close> up to the switch; the saved \<^verbatim>\<open>intena\<close> is a local.\<close>

definition sched :: "('z pst_scheme, 'a) kop" where
  "sched =
     bnd curp (\<lambda>p.
     bnd (holding (ProcLock p)) (\<lambda>h.
     thn (panic_if (\<not> h) ''sched p->lock'') (
     bnd mycpu (\<lambda>c.
     bnd (gets (\<lambda>s. cpu_noff (cpus s c))) (\<lambda>n.
     thn (panic_if (n \<noteq> 1) ''sched locks'') (
     bnd (get_proc p p_state) (\<lambda>st.
     thn (panic_if (st = RUNNING) ''sched running'') (
     bnd intr_get (\<lambda>on.
     thn (panic_if on ''sched interruptible'') (
     swtch))))))))))"

definition sched_resume :: "bool \<Rightarrow> ('z pst_scheme, unit) kop" where
  "sched_resume intena = bnd mycpu (\<lambda>c. upd_cpu c (\<lambda>k. k\<lparr>cpu_intena := intena\<rparr>))"

definition yield :: "('z pst_scheme, 'a) kop" where
  "yield =
     bnd curp (\<lambda>p.
     thn (acquire (ProcLock p)) (
     thn (upd_proc p (\<lambda>q. q\<lparr>p_state := RUNNABLE\<rparr>)) (
     sched)))"

definition yield_resume :: "bool \<Rightarrow> nat \<Rightarrow> ('z pst_scheme, unit) kop" where
  "yield_resume intena p = thn (sched_resume intena) (release (ProcLock p))"

text \<open>
  \<^verbatim>\<open>sleep()\<close>, as the sequence of its statements before the call of \<^verbatim>\<open>sched()\<close>; \<open>p\<close> is
  \<^verbatim>\<open>myproc()\<close>.
\<close>

definition sleep_steps :: "nat \<Rightarrow> chan \<Rightarrow> lockid \<Rightarrow> ('z pst_scheme, unit) kop list" where
  "sleep_steps p ch lk =
     (if lk \<noteq> ProcLock p then [acquire (ProcLock p), release lk] else []) @
     [upd_proc p (\<lambda>q. q\<lparr>p_chan := Some ch, p_state := SLEEPING\<rparr>)]"

definition sleep :: "chan \<Rightarrow> lockid \<Rightarrow> ('z pst_scheme, 'a) kop" where
  "sleep ch lk =
     bnd curp (\<lambda>p.
     thn (seqM (sleep_steps p ch lk)) (
     sched))"

definition sleep_resume :: "bool \<Rightarrow> nat \<Rightarrow> lockid \<Rightarrow> ('z pst_scheme, unit) kop" where
  "sleep_resume intena p lk =
     thn (sched_resume intena) (
     thn (upd_proc p (\<lambda>q. q\<lparr>p_chan := None\<rparr>)) (
     whenM (lk \<noteq> ProcLock p) (
       thn (release (ProcLock p)) (
       acquire lk))))"

text \<open>The body of the loops of \<^verbatim>\<open>wakeup()\<close>, on one process.\<close>

definition wake :: "chan \<Rightarrow> proc \<Rightarrow> proc" where
  "wake ch q = (if p_state q = SLEEPING \<and> p_chan q = Some ch then q\<lparr>p_state := RUNNABLE\<rparr> else q)"

definition wakeup_turn :: "chan \<Rightarrow> nat \<Rightarrow> ('z pst_scheme, unit) kop list" where
  "wakeup_turn ch p = [acquire (ProcLock p), upd_proc p (wake ch), release (ProcLock p)]"

definition wakeup :: "chan \<Rightarrow> ('z pst_scheme, unit) kop" where
  "wakeup ch = for_all [0..<NPROC] (\<lambda>p. seqM (wakeup_turn ch p))"

definition wakeup1 :: "nat \<Rightarrow> ('z pst_scheme, unit) kop" where
  "wakeup1 p = upd_proc p (wake (ProcChan p))"

definition kill :: "int \<Rightarrow> ('z pst_scheme, int) kop" where
  "kill pid =
     bnd (for_ret [0..<NPROC] (\<lambda>p.
       thn (acquire (ProcLock p)) (
       bnd (get_proc p p_pid) (\<lambda>ppid.
       if ppid = pid then
         thn (upd_proc p (\<lambda>q. q\<lparr>p_killed := True\<rparr>)) (
         thn (upd_proc p (\<lambda>q. if p_state q = SLEEPING then q\<lparr>p_state := RUNNABLE\<rparr> else q)) (
         thn (release (ProcLock p)) (
         ret (Some 0))))
       else thn (release (ProcLock p)) (ret None))))) (\<lambda>r.
     ret (case r of Some v \<Rightarrow> v | None \<Rightarrow> -1))"

section \<open>The scheduler\<close>

text \<open>
  The scan over the process table: at the switch to a process the scheduler thread stops, and
  continues with \<open>scheduler_resume\<close> when that process switches back.  \<^verbatim>\<open>wfi\<close> waits
  for an interrupt and changes nothing.
\<close>

primrec scheduler_scan :: "nat list \<Rightarrow> bool \<Rightarrow> ('z pst_scheme, unit) kop" where
  "scheduler_scan [] found = whenM (\<not> found) intr_on"
| "scheduler_scan (p # ps) found =
     thn (acquire (ProcLock p)) (
     bnd (get_proc p p_state) (\<lambda>st.
     if st = RUNNABLE then
       thn (upd_proc p (\<lambda>q. q\<lparr>p_state := RUNNING\<rparr>)) (
       bnd mycpu (\<lambda>c.
       thn (upd_cpu c (\<lambda>k. k\<lparr>cpu_proc := Some p\<rparr>)) (
       swtch)))
     else
       thn (release (ProcLock p)) (
       scheduler_scan ps found)))"

definition scheduler_resume :: "nat \<Rightarrow> nat list \<Rightarrow> ('z pst_scheme, unit) kop" where
  "scheduler_resume p ps =
     bnd mycpu (\<lambda>c.
     thn (upd_cpu c (\<lambda>k. k\<lparr>cpu_proc := None\<rparr>)) (
     thn (release (ProcLock p)) (
     scheduler_scan ps True)))"

text \<open>One turn of \<^verbatim>\<open>for(;;)\<close>.\<close>

definition scheduler_pass :: "('z pst_scheme, unit) kop" where
  "scheduler_pass = thn intr_on (scheduler_scan [0..<NPROC] False)"

definition scheduler :: "('z pst_scheme, unit) kop" where
  "scheduler =
     bnd mycpu (\<lambda>c.
     thn (upd_cpu c (\<lambda>k. k\<lparr>cpu_proc := None\<rparr>)) (
     scheduler_pass))"

text \<open>
  \<^verbatim>\<open>either_copyout()\<close> and \<^verbatim>\<open>either_copyin()\<close>: the destination or source
  is a user address, a page of physical memory the kernel addresses, or a variable of the kernel, whose
  bytes are then the value.
\<close>

datatype uaddr = UserAddr u64 | KernelMem u64 | KernelObj

definition either_copyout :: "uaddr \<Rightarrow> u8 list \<Rightarrow> ('z pst_scheme, int \<times> u8 list) kop" where
  "either_copyout dst src =
     bnd myproc (\<lambda>mp.
     case dst of
       UserAddr va \<Rightarrow>
         bnd (deref mp) (\<lambda>p.
         bnd (get_proc p p_pagetable) (\<lambda>pt.
         bnd (copyout pt va src) (\<lambda>r.
         ret (r, []))))
     | KernelMem pa \<Rightarrow> thn (upd_mem (put_bytes pa src)) (ret (0, []))
     | KernelObj \<Rightarrow> ret (0, src))"

text \<open>The kernel object a \<^verbatim>\<open>copyin\<close> may read from is given by its bytes.\<close>

datatype usrc = UserSrc u64 | KernelBytes "u8 list"

definition either_copyin :: "usrc \<Rightarrow> nat \<Rightarrow> ('z pst_scheme, int \<times> u8 list) kop" where
  "either_copyin src len =
     bnd myproc (\<lambda>mp.
     case src of
       UserSrc va \<Rightarrow>
         bnd (deref mp) (\<lambda>p.
         bnd (get_proc p p_pagetable) (\<lambda>pt.
         copyin pt va len))
     | KernelBytes bs \<Rightarrow> ret (0, take len bs))"

section \<open>What a running thread observes\<close>

lemma acq_pst_simps [simp]:
  "kernel_pagetable (acq l s) = kernel_pagetable s" "ksym_etext (acq l s) = ksym_etext s"
  "ksym_trampoline (acq l s) = ksym_trampoline s" "procs (acq l s) = procs s"
  "initproc (acq l s) = initproc s" "nextpid (acq l s) = nextpid s" "ticks (acq l s) = ticks s"
  "pst.more (acq l s) = pst.more s"
  by (simp_all add: acq_def)

lemma rel_pst_simps [simp]:
  "kernel_pagetable (rel l s) = kernel_pagetable s" "ksym_etext (rel l s) = ksym_etext s"
  "ksym_trampoline (rel l s) = ksym_trampoline s" "procs (rel l s) = procs s"
  "initproc (rel l s) = initproc s" "nextpid (rel l s) = nextpid s" "ticks (rel l s) = ticks s"
  "pst.more (rel l s) = pst.more s"
  by (simp_all add: rel_def)

text \<open>
  \<open>settled L s\<close>: the interrupt nesting is well formed and no lock outside \<open>L\<close> is taken.
\<close>

definition settled :: "lockid set \<Rightarrow> 'z hw_scheme \<Rightarrow> bool" where
  "settled L s \<longleftrightarrow> irq_wf s \<and> (\<forall>l. l \<notin> L \<longrightarrow> lk_clean l s)"

text \<open>
  \<open>calm s t\<close>: nothing below the process table has changed, and of the process table at most
  that some sleepers have been made runnable.  What lies above it is not restricted.
\<close>

definition proc_calm :: "proc \<Rightarrow> proc \<Rightarrow> bool" where
  "proc_calm p q \<longleftrightarrow> q = p \<or> p_state p = SLEEPING \<and> q = p\<lparr>p_state := RUNNABLE\<rparr>"

definition calm :: "'z pst_scheme \<Rightarrow> 'z pst_scheme \<Rightarrow> bool" where
  "calm s t \<longleftrightarrow> hw_bal s t \<and> mem t = mem s \<and> freelist t = freelist s \<and> ksym_end t = ksym_end s
     \<and> kernel_pagetable t = kernel_pagetable s \<and> ksym_etext t = ksym_etext s
     \<and> ksym_trampoline t = ksym_trampoline s \<and> (\<forall>i. proc_calm (procs s i) (procs t i))
     \<and> initproc t = initproc s \<and> nextpid t = nextpid s \<and> ticks t = ticks s"

lemma proc_calm_refl [simp]: "proc_calm p p"
  by (simp add: proc_calm_def)

lemma proc_calm_trans: "proc_calm p q \<Longrightarrow> proc_calm q r \<Longrightarrow> proc_calm p r"
  by (auto simp: proc_calm_def)

lemma proc_calm_wake [simp]: "proc_calm p (wake ch p)"
  by (simp add: proc_calm_def wake_def)

lemma proc_calm_pid: "proc_calm p q \<Longrightarrow> p_pid q = p_pid p"
  by (auto simp: proc_calm_def)

lemma calm_refl [simp]: "calm s s"
  by (simp add: calm_def)

lemma calm_trans: "calm s t \<Longrightarrow> calm t u \<Longrightarrow> calm s u"
  unfolding calm_def by (auto intro: hw_bal_trans proc_calm_trans)

lemma calm_pid: "calm s t \<Longrightarrow> p_pid (procs t i) = p_pid (procs s i)"
  unfolding calm_def using proc_calm_pid by blast

lemma calm_curproc: "calm s t \<Longrightarrow> curproc t = curproc s"
  by (simp add: calm_def hw_bal_def)

lemma calm_depth: "calm s t \<Longrightarrow> depth t = depth s"
  by (simp add: calm_def hw_bal_def)

lemma calm_settled: "calm s t \<Longrightarrow> settled L t = settled L s"
  by (simp add: calm_def settled_def hw_bal_def irq_wf_def lk_clean_def)

lemma settled_mono: "settled L s \<Longrightarrow> L \<subseteq> L' \<Longrightarrow> settled L' s"
  by (auto simp: settled_def)

lemma lk_clean_acq: "l' \<noteq> l \<Longrightarrow> lk_clean l' (acq l s) = lk_clean l' s"
  by (simp add: lk_clean_def acq_def locks_acq_def)

lemma settled_acq: "settled L s \<Longrightarrow> settled (insert l L) (acq l s)"
  by (simp add: settled_def lk_clean_acq)

text \<open>A state with another content above the process table.\<close>

abbreviation with_more :: "'z pst_scheme \<Rightarrow> 'z \<Rightarrow> 'z pst_scheme" where
  "with_more s m \<equiv> s\<lparr>pst.more := m\<rparr>"

lemma same_hw_more [simp]:
  "same_hw s (with_more t m) = same_hw s t" "same_hw (with_more s m) t = same_hw s t"
  by (simp_all add: same_hw_def)

lemma hw_bal_more [simp]:
  "hw_bal s (with_more t m) = hw_bal s t" "hw_bal (with_more s m) t = hw_bal s t"
  by (simp_all add: hw_bal_def depth_def curproc_def irq_on_def)

lemma calm_more [simp]:
  "calm s (with_more t m) = calm s t" "calm (with_more s m) t = calm s t"
  by (simp_all add: calm_def)

lemma settled_more [simp]: "settled L (with_more s m) = settled L s"
  by (simp add: settled_def irq_wf_def depth_def irq_on_def lk_clean_def)

lemma run_acquire_settled: "settled L s \<Longrightarrow> l \<notin> L \<Longrightarrow> acquire l s = Done () (acq l s)"
  by (intro run_acquire lk_clean_free) (auto simp: settled_def)

lemma run_release_settled:
  "settled L s \<Longrightarrow> same_hw (acq l s) u \<Longrightarrow> release l u = Done () (rel l u)"
  by (rule section_release) (auto simp: settled_def)

text \<open>A critical section that works above the process table only.\<close>

lemma calm_section:
  assumes "settled L s" and "l \<notin> L"
  shows "calm s (rel l (with_more (acq l s) m))"
proof -
  have "irq_wf s" "lk_clean l s"
    using assms by (auto simp: settled_def)
  then have "hw_bal s (rel l (with_more (acq l s) m))"
    by (rule section_balanced) simp
  then show ?thesis
    by (simp add: calm_def)
qed

text \<open>With interrupts already off, \<^verbatim>\<open>myproc()\<close> changes nothing.\<close>

lemma run_myproc_off:
  assumes "\<not> irq_on s" and "0 < depth s"
  shows "myproc s = Done (curproc s) s"
proof -
  have id: "upd (upd (cpus s) (tp s) (pushed False)) (tp s) (\<lambda>p. p\<lparr>cpu_noff := cpu_noff p - 1\<rparr>) = cpus s"
    using assms(2) by (auto simp: upd_def fun_eq_iff pushed_def depth_def)
  have irq: "irq_on (s\<lparr>cpus := c\<rparr>) = irq_on s" for c
    by (simp add: irq_on_def)
  show ?thesis
    using assms id
    by (auto simp: myproc_def run irq_set_off_id run_pop_off irq depth_def Let_def curproc_def
        simp del: upd_upd_same)
qed

lemma run_curp_off:
  "\<not> irq_on s \<Longrightarrow> 0 < depth s \<Longrightarrow> curproc s = Some p \<Longrightarrow> curp s = Done p s"
  by (simp add: curp_def run run_myproc_off)

lemma pop_off_frame:
  assumes "pop_off u = Done () v"
  obtains c where "v = u\<lparr>cpus := c\<rparr>" | c r where "v = u\<lparr>cpus := c, csrs := r\<rparr>"
proof -
  let ?t = "u\<lparr>cpus := upd (cpus u) (tp u) (\<lambda>p. p\<lparr>cpu_noff := cpu_noff p - 1\<rparr>)\<rparr>"
  have "v = ?t \<or> v = irq_set_on ?t"
    using assms by (auto simp: run_pop_off Let_def split: if_splits)
  then show ?thesis
    using that unfolding irq_set_on_def by auto
qed

lemma run_myproc:
  fixes s :: "'z pst_scheme"
  assumes "irq_wf s"
  shows "\<exists>t. myproc s = Done (curproc s) t \<and> calm s t \<and> pst.more t = pst.more s"
proof -
  let ?t = "(irq_set_off s)\<lparr>cpus := upd (cpus s) (tp s) (pushed (irq_on s))\<rparr>"
  obtain v where v: "pop_off ?t = Done () v" "hw_bal s v"
    using pop_off_after_push [OF assms, of ?t ?t] by (auto simp: run)
  have "calm s v \<and> pst.more v = pst.more s"
    using v(2) by (cases rule: pop_off_frame [OF v(1)]) (simp_all add: calm_def irq_set_off_def)
  moreover have "myproc s = Done (curproc s) v"
    using v(1) by (simp add: myproc_def run curproc_def)
  ultimately show ?thesis by blast
qed

lemma run_curp:
  fixes s :: "'z pst_scheme"
  assumes "irq_wf s" and "curproc s = Some p"
  shows "\<exists>t. curp s = Done p t \<and> calm s t \<and> pst.more t = pst.more s"
  using run_myproc [OF assms(1)] assms(2) by (auto simp: curp_def run)

section \<open>Critical sections on one process\<close>

lemma same_hw_procs [simp]: "same_hw s (t\<lparr>procs := f\<rparr>) = same_hw s t"
  by (simp add: same_hw_def)

lemma hw_bal_procs [simp]:
  "hw_bal s (t\<lparr>procs := f\<rparr>) = hw_bal s t" "hw_bal (s\<lparr>procs := f\<rparr>) t = hw_bal s t"
  by (simp_all add: hw_bal_def depth_def curproc_def irq_on_def)

definition proc_section :: "nat \<Rightarrow> (proc \<Rightarrow> proc) \<Rightarrow> ('z pst_scheme, unit) kop" where
  "proc_section p f =
     thn (acquire (ProcLock p)) (
     thn (upd_proc p f) (
     release (ProcLock p)))"

lemma proc_section_run:
  assumes "settled L s" and "ProcLock p \<notin> L"
  shows "\<exists>t. proc_section p f s = Done () t \<and> settled L t \<and> hw_bal s t
    \<and> calm (s\<lparr>procs := procs t\<rparr>) t \<and> procs t = upd (procs s) p f
    \<and> ((\<forall>q. proc_calm q (f q)) \<longrightarrow> calm s t) \<and> pst.more t = pst.more s"
proof -
  let ?l = "ProcLock p"
  let ?u = "(acq ?l s)\<lparr>procs := upd (procs s) p f\<rparr>"
  have hw: "same_hw (acq ?l s) ?u" by simp
  have "proc_section p f s = Done () (rel ?l ?u)"
    using run_acquire_settled [OF assms] run_release_settled [OF assms(1) hw]
    by (simp add: proc_section_def upd_proc_def run)
  moreover have bal: "hw_bal s (rel ?l ?u)"
    using assms by (intro section_balanced [OF _ _ hw]) (auto simp: settled_def)
  moreover have "settled L (rel ?l ?u)"
    using assms(1) hw_bal_lk [OF bal] hw_bal_irq_wf [OF bal] by (simp add: settled_def)
  ultimately show ?thesis
    by (intro exI [of _ "rel ?l ?u"]) (simp add: calm_def)
qed

lemma wakeup_loop:
  assumes "settled L s" and "\<forall>p. ProcLock p \<notin> L" and "distinct ps"
  shows "\<exists>t. for_all ps (\<lambda>p. proc_section p (wake ch)) s = Done () t \<and> settled L t \<and> calm s t
    \<and> pst.more t = pst.more s
    \<and> (\<forall>i. procs t i = (if i \<in> set ps then wake ch (procs s i) else procs s i))"
  using assms(1,3)
proof (induction ps arbitrary: s)
  case Nil
  then show ?case by (simp add: run)
next
  case (Cons p ps)
  obtain t where t: "proc_section p (wake ch) s = Done () t" "settled L t" "calm s t"
      "procs t = upd (procs s) p (wake ch)" "pst.more t = pst.more s"
    using proc_section_run [OF Cons.prems(1), of p "wake ch"] assms(2) by auto
  obtain u where u: "for_all ps (\<lambda>p. proc_section p (wake ch)) t = Done () u" "settled L u" "calm t u"
      "pst.more u = pst.more t"
      "\<forall>i. procs u i = (if i \<in> set ps then wake ch (procs t i) else procs t i)"
    using Cons.IH [OF t(2)] Cons.prems(2) by auto
  then show ?case
    using t calm_trans [OF t(3) u(3)] Cons.prems(2) by (simp add: run)
qed

text \<open>\<^verbatim>\<open>wakeup()\<close> makes exactly the processes asleep on the channel runnable.\<close>

lemma wakeup_run:
  assumes "settled L s" and "\<forall>p. ProcLock p \<notin> L"
  shows "\<exists>t. wakeup ch s = Done () t \<and> settled L t \<and> calm s t \<and> pst.more t = pst.more s
    \<and> (\<forall>i. procs t i = (if i < NPROC then wake ch (procs s i) else procs s i))"
  using wakeup_loop [OF assms, of "[0..<NPROC]" ch]
  by (simp add: wakeup_def wakeup_turn_def proc_section_def)

text \<open>The effect of \<^verbatim>\<open>kill()\<close> on its victim.\<close>

definition kill_proc :: "proc \<Rightarrow> proc" where
  "kill_proc q = (if p_state q = SLEEPING then q\<lparr>p_killed := True, p_state := RUNNABLE\<rparr> else q\<lparr>p_killed := True\<rparr>)"

definition kill_body :: "int \<Rightarrow> nat \<Rightarrow> ('z pst_scheme, int option) kop" where
  "kill_body pid p =
       thn (acquire (ProcLock p)) (
       bnd (get_proc p p_pid) (\<lambda>ppid.
       if ppid = pid then
         thn (upd_proc p (\<lambda>q. q\<lparr>p_killed := True\<rparr>)) (
         thn (upd_proc p (\<lambda>q. if p_state q = SLEEPING then q\<lparr>p_state := RUNNABLE\<rparr> else q)) (
         thn (release (ProcLock p)) (
         ret (Some 0))))
       else thn (release (ProcLock p)) (ret None)))"

lemma kill_body_eq:
  assumes "settled L s" and "ProcLock p \<notin> L"
  shows "kill_body pid p s = (if p_pid (procs s p) = pid
     then thn (proc_section p kill_proc) (ret (Some 0)) s
     else thn (proc_section p (\<lambda>q. q)) (ret None) s)"
proof -
  have "kill_proc = (\<lambda>q. if p_state q = SLEEPING then q\<lparr>p_state := RUNNABLE\<rparr> else q) \<circ> (\<lambda>q. q\<lparr>p_killed := True\<rparr>)"
    by (simp add: fun_eq_iff kill_proc_def)
  then show ?thesis
    using run_acquire_settled [OF assms]
    by (simp add: kill_body_def proc_section_def run get_proc_def upd_proc_def)
qed

lemma kill_loop:
  assumes "settled {} s" and "distinct ps"
  shows "\<exists>t. for_ret ps (kill_body pid) s =
      Done (case List.find (\<lambda>p. p_pid (procs s p) = pid) ps of None \<Rightarrow> None | Some p \<Rightarrow> Some 0) t
    \<and> settled {} t \<and> hw_bal s t \<and> pst.more t = pst.more s \<and> calm (s\<lparr>procs := procs t\<rparr>) t
    \<and> procs t = (case List.find (\<lambda>p. p_pid (procs s p) = pid) ps of
        None \<Rightarrow> procs s | Some p \<Rightarrow> upd (procs s) p kill_proc)"
  using assms
proof (induction ps arbitrary: s)
  case Nil
  then show ?case by (simp add: run)
next
  case (Cons p ps)
  show ?case
  proof (cases "p_pid (procs s p) = pid")
    case True
    then show ?thesis
      using proc_section_run [OF Cons.prems(1), of p kill_proc] kill_body_eq [OF Cons.prems(1), of p pid]
      by (auto simp: run)
  next
    case False
    obtain t where t: "proc_section p (\<lambda>q. q) s = Done () t" "settled {} t" "hw_bal s t" "calm s t"
        "procs t = procs s" "pst.more t = pst.more s"
      using proc_section_run [OF Cons.prems(1), of p "\<lambda>q. q"] by auto
    have "calm (s\<lparr>procs := f\<rparr>) u" if "calm (t\<lparr>procs := f\<rparr>) u" for f u
      using that t(4) hw_bal_trans [of s t u] unfolding calm_def by simp
    then show ?thesis
      using t False Cons.IH [OF t(2), unfolded t(5)] Cons.prems kill_body_eq [OF Cons.prems(1), of p pid]
        hw_bal_trans [OF t(3)]
      by (auto simp: run)
  qed
qed

lemma kill_run:
  assumes "settled {} s"
  shows "\<exists>t. kill pid s =
      Done (case List.find (\<lambda>p. p_pid (procs s p) = pid) [0..<NPROC] of None \<Rightarrow> -1 | Some p \<Rightarrow> 0) t
    \<and> settled {} t \<and> pst.more t = pst.more s \<and> calm (s\<lparr>procs := procs t\<rparr>) t
    \<and> procs t = (case List.find (\<lambda>p. p_pid (procs s p) = pid) [0..<NPROC] of
        None \<Rightarrow> procs s | Some p \<Rightarrow> upd (procs s) p kill_proc)"
  using kill_loop [OF assms, of "[0..<NPROC]" pid]
  by (auto simp: kill_def kill_body_def [symmetric, abs_def] run split: option.splits)

section \<open>Blocking\<close>

lemma sched_blocks:
  assumes "\<not> irq_on s" and "depth s = 1" and "curproc s = Some p" and "lk_held (ProcLock p) s"
    and "p_state (procs s p) \<noteq> RUNNING"
  shows "sched s = Blocked s"
  using assms run_curp_off [of s p] run_holding [of s "ProcLock p"]
  by (simp add: sched_def run get_proc_def swtch_def depth_def [symmetric])

text \<open>
  The state in which a process that sleeps has given up the CPU: \<^verbatim>\<open>lk\<close> has been released,
  and \<^verbatim>\<open>p->lock\<close> is handed to the scheduler.
\<close>

definition asleep :: "nat \<Rightarrow> chan \<Rightarrow> lockid \<Rightarrow> 'z pst_scheme \<Rightarrow> 'z pst_scheme" where
  "asleep p ch lk s = (rel lk (acq (ProcLock p) (acq lk s)))
     \<lparr>procs := upd (procs s) p (\<lambda>q. q\<lparr>p_chan := Some ch, p_state := SLEEPING\<rparr>)\<rparr>"

lemma asleep_simps [simp]:
  "curproc (asleep p ch lk s) = curproc s" "depth (asleep p ch lk s) = depth s + 1"
  "procs (asleep p ch lk s) = upd (procs s) p (\<lambda>q. q\<lparr>p_chan := Some ch, p_state := SLEEPING\<rparr>)"
  "pst.more (asleep p ch lk s) = pst.more s" "mem (asleep p ch lk s) = mem s"
  by (simp_all add: asleep_def curproc_def depth_def) (simp_all add: rel_def acq_def pushed_def)

lemma asleep_locks:
  assumes "lk \<noteq> ProcLock p"
  shows "lk_held (ProcLock p) (asleep p ch lk s)"
    "l \<noteq> ProcLock p \<Longrightarrow> lk_clean l s \<Longrightarrow> lk_clean l (asleep p ch lk s)"
  using assms by (auto simp: asleep_def rel_def acq_def lk_held_def lk_clean_def locks_rel_def locks_acq_def)

lemma asleep_irq: "0 \<le> depth s \<Longrightarrow> \<not> irq_on (asleep p ch lk s)"
proof -
  assume "0 \<le> depth s"
  moreover have "irq_on (asleep p ch lk s) = irq_on (rel lk (acq (ProcLock p) (acq lk s)))"
    by (simp add: asleep_def irq_on_def)
  ultimately show ?thesis by (simp add: irq_on_rel)
qed

lemma sleep_run:
  assumes "settled {} s" and "depth s = 0" and "curproc s = Some p" and "lk \<noteq> ProcLock p"
  shows "sleep ch lk (acq lk s) = Blocked (asleep p ch lk s)"
proof -
  let ?u = "acq (ProcLock p) (acq lk s)"
  have wf: "irq_wf s" using assms(1) by (simp add: settled_def)
  have a: "acquire (ProcLock p) (acq lk s) = Done () ?u"
    using run_acquire_settled [OF settled_acq [OF assms(1)], of "ProcLock p" lk] assms(4) by auto
  have r: "release lk ?u = Done () (rel lk ?u)"
    using wf assms(2,4) lk_held_acq_other [of lk "ProcLock p" "acq lk s"] by (intro run_release) simp_all
  have "sched (asleep p ch lk s) = Blocked (asleep p ch lk s)"
    using assms asleep_locks(1) [of lk p ch s] asleep_irq [of s p ch lk] by (intro sched_blocks [where p = p]) simp_all
  then show ?thesis
    using run_curp_off [of "acq lk s" p] assms a r
    by (simp add: sleep_def sleep_steps_def run upd_proc_def asleep_def)
qed

section \<open>Properties\<close>

definition boot_pst :: pst where
  "boot_pst = \<lparr>tp = 0, csrs = (\<lambda>_. zero_csr), cpus = (\<lambda>_. zero_cpu\<lparr>cpu_proc := Some 0\<rparr>),
     locks = (\<lambda>_. zero_lock), ntest_and_set = 0, mem = (\<lambda>_. 0), freelist = 0, ksym_end = KERNBASE,
     kernel_pagetable = 0, ksym_etext = 0, ksym_trampoline = 0,
     procs = (\<lambda>_. zero_proc)(0 := zero_proc\<lparr>p_state := RUNNING, p_pid := 1\<rparr>), initproc = Some 0, nextpid = 2,
     ticks = 0\<rparr>"

lemma boot_pst_ok: "settled L boot_pst" "depth boot_pst = 0" "curproc boot_pst = Some 0"
  by (simp_all add: boot_pst_def settled_def irq_wf_def depth_def irq_on_def lk_clean_def zero_defs curproc_def)

text \<open>
  C29: \<^verbatim>\<open>kill(pid)\<close> on the first process slot with that pid sets \<^verbatim>\<open>killed\<close>, makes the
  process runnable exactly when it was asleep, leaves every other field of it and every other process
  as they were, and returns 0; it returns -1 and changes no process if no slot has the pid.  Nothing
  but the process table changes, and every lock is free again.
\<close>

theorem kill_marks:
  assumes "settled {} s"
  shows "\<exists>t. kill pid s = Done (case List.find (\<lambda>p. p_pid (procs s p) = pid) [0..<NPROC] of None \<Rightarrow> -1 | Some p \<Rightarrow> 0) t
    \<and> settled {} t \<and> calm (s\<lparr>procs := procs t\<rparr>) t \<and> pst.more t = pst.more s
    \<and> procs t = (case List.find (\<lambda>p. p_pid (procs s p) = pid) [0..<NPROC] of
        None \<Rightarrow> procs s
      | Some p \<Rightarrow> (procs s)(p := (procs s p)\<lparr>p_killed := True,
          p_state := (if p_state (procs s p) = SLEEPING then RUNNABLE else p_state (procs s p))\<rparr>))"
  using kill_run [OF assms, of pid] by (auto simp: kill_proc_def upd_def split: option.splits)

text \<open>The witness: a sleeping victim, a running one, and no victim.\<close>

definition nap_pst :: pst where
  "nap_pst = boot_pst\<lparr>procs := (procs boot_pst)(1 := zero_proc\<lparr>p_state := SLEEPING, p_chan := Some TicksChan, p_pid := 7\<rparr>)\<rparr>"

theorem kill_marks_witness:
  "(\<exists>t. kill 7 nap_pst = Done 0 t \<and> p_killed (procs t 1) \<and> p_state (procs t 1) = RUNNABLE \<and> p_pid (procs t 1) = 7) \<and>
   (\<exists>t. kill 1 nap_pst = Done 0 t \<and> p_killed (procs t 0) \<and> p_state (procs t 0) = RUNNING) \<and>
   (\<exists>t. kill 5 nap_pst = Done (-1) t \<and> procs t = procs nap_pst)"
proof -
  have ok: "settled {} nap_pst"
    by (simp add: nap_pst_def boot_pst_def settled_def irq_wf_def depth_def irq_on_def lk_clean_def zero_defs)
  have "List.find (\<lambda>p. p_pid (procs nap_pst p) = 7) [0..<NPROC] = Some 1"
    "List.find (\<lambda>p. p_pid (procs nap_pst p) = 1) [0..<NPROC] = Some 0"
    "List.find (\<lambda>p. p_pid (procs nap_pst p) = 5) [0..<NPROC] = None"
    by (simp_all add: nap_pst_def boot_pst_def zero_proc_def param_defs upt_rec find_None_iff)
  then show ?thesis
    using kill_marks [OF ok, of 7] kill_marks [OF ok, of 1] kill_marks [OF ok, of 5]
    by (auto simp: nap_pst_def boot_pst_def)
qed

text \<open>
  C30: \<^verbatim>\<open>kill(0)\<close> finds a free slot: an unused process has pid 0, so the call returns 0 and
  leaves the slot marked as killed, for the next process that is allocated in it.
\<close>

theorem kill_zero_marks_free_slot:
  assumes "settled {} s" and "p < NPROC" and "p_state (procs s p) = UNUSED" and "p_pid (procs s p) = 0"
    and "\<forall>q<p. p_pid (procs s q) \<noteq> 0"
  shows "\<exists>t. kill 0 s = Done 0 t \<and> p_state (procs t p) = UNUSED \<and> p_killed (procs t p)"
proof -
  have "[0..<NPROC] = [0..<p] @ p # [Suc p..<NPROC]"
    using assms(2) upt_conv_Cons [of p NPROC] upt_add_eq_append [of 0 p "NPROC - p"] by simp
  then have "List.find (\<lambda>p. p_pid (procs s p) = 0) [0..<NPROC] = Some p"
    using assms(4,5) by (simp add: find_append_none)
  then show ?thesis
    using kill_run [OF assms(1), of 0] assms(3) by (auto simp: kill_proc_def)
qed

theorem kill_zero_marks_free_slot_witness:
  "\<exists>t. kill 0 boot_pst = Done 0 t \<and> p_state (procs t 1) = UNUSED \<and> p_killed (procs t 1)"
  by (rule kill_zero_marks_free_slot [OF boot_pst_ok(1)]) (simp_all add: boot_pst_def param_defs zero_proc_def)

end
