(* ===== verification/Sleeplock.thy ===== *)
theory Sleeplock
  imports Sched
begin

text \<open>
  Sleep locks (\<^verbatim>\<open>kernel/sleeplock.c\<close>), and the calculus in which the components
  above the process table are run: \<open>does f s r t\<close> says that \<open>f\<close>, started in \<open>s\<close>,
  returns \<open>r\<close> and ends in \<open>t\<close>, up to what locking leaves behind in the machine layer and
  the process table.
\<close>

section \<open>Operations\<close>

record sleeplock =
  slk_locked :: u32
  slk_name :: string
  slk_pid :: int

record slst = pst +
  slocks :: "slockid \<Rightarrow> sleeplock"

definition upd_slock :: "slockid \<Rightarrow> (sleeplock \<Rightarrow> sleeplock) \<Rightarrow> ('z slst_scheme, unit) kop" where
  "upd_slock l f = modify (\<lambda>s. s\<lparr>slocks := upd (slocks s) l f\<rparr>)"

definition initsleeplock :: "slockid \<Rightarrow> string \<Rightarrow> ('z slst_scheme, unit) kop" where
  "initsleeplock l name =
     thn (initlock (SleepLk l) ''sleep lock'') (
     upd_slock l (\<lambda>k. k\<lparr>slk_name := name, slk_locked := 0, slk_pid := 0\<rparr>))"

text \<open>The loop of \<^verbatim>\<open>acquiresleep()\<close>, entered with the spinlock held, and what follows it.\<close>

definition acquiresleep_loop :: "slockid \<Rightarrow> ('z slst_scheme, unit) kop" where
  "acquiresleep_loop l =
     bnd (gets (\<lambda>s. slk_locked (slocks s l))) (\<lambda>k.
     if k \<noteq> 0 then sleep (SleepChan l) (SleepLk l)
     else
     thn (upd_slock l (\<lambda>x. x\<lparr>slk_locked := 1\<rparr>)) (
     bnd curp (\<lambda>p.
     bnd (get_proc p p_pid) (\<lambda>pid.
     thn (upd_slock l (\<lambda>x. x\<lparr>slk_pid := pid\<rparr>)) (
     release (SleepLk l))))))"

definition acquiresleep :: "slockid \<Rightarrow> ('z slst_scheme, unit) kop" where
  "acquiresleep l = thn (acquire (SleepLk l)) (acquiresleep_loop l)"

definition acquiresleep_resume :: "bool \<Rightarrow> nat \<Rightarrow> slockid \<Rightarrow> ('z slst_scheme, unit) kop" where
  "acquiresleep_resume intena p l =
     thn (sleep_resume intena p (SleepLk l)) (acquiresleep_loop l)"

definition releasesleep :: "slockid \<Rightarrow> ('z slst_scheme, unit) kop" where
  "releasesleep l =
     thn (acquire (SleepLk l)) (
     thn (upd_slock l (\<lambda>x. x\<lparr>slk_locked := 0\<rparr>)) (
     thn (upd_slock l (\<lambda>x. x\<lparr>slk_pid := 0\<rparr>)) (
     thn (wakeup (SleepChan l)) (
     release (SleepLk l)))))"

text \<open>\<^verbatim>\<open>&&\<close> evaluates \<^verbatim>\<open>myproc()->pid\<close> only when the lock is taken.\<close>

definition holdingsleep :: "slockid \<Rightarrow> ('z slst_scheme, bool) kop" where
  "holdingsleep l =
     thn (acquire (SleepLk l)) (
     bnd (gets (\<lambda>s. slk_locked (slocks s l))) (\<lambda>k.
     bnd (if k = 0 then ret False
          else
          bnd curp (\<lambda>p.
          bnd (get_proc p p_pid) (\<lambda>pid.
          gets (\<lambda>s. slk_pid (slocks s l) = pid)))) (\<lambda>r.
     thn (release (SleepLk l)) (
     ret r))))"

section \<open>Running above the process table\<close>

text \<open>\<open>eqv s t\<close>: \<open>t\<close> is \<open>s\<close> up to the machine layer and processes that were woken.\<close>

definition eqv :: "'z pst_scheme \<Rightarrow> 'z pst_scheme \<Rightarrow> bool" where
  "eqv s t \<longleftrightarrow> calm s t \<and> pst.more t = pst.more s"

definition does :: "('z pst_scheme, 'a) kop \<Rightarrow> 'z pst_scheme \<Rightarrow> 'a \<Rightarrow> 'z pst_scheme \<Rightarrow> bool" where
  "does f s r s' \<longleftrightarrow> (\<forall>s0. eqv s s0 \<longrightarrow> (\<exists>t. f s0 = Done r t \<and> eqv s' t))"

lemma eqv_refl [simp]: "eqv s s"
  by (simp add: eqv_def)

lemma eqv_trans: "eqv s t \<Longrightarrow> eqv t u \<Longrightarrow> eqv s u"
  unfolding eqv_def using calm_trans by auto

lemma eqv_settled: "eqv s t \<Longrightarrow> settled L t = settled L s"
  unfolding eqv_def using calm_settled by blast

lemma eqv_curproc: "eqv s t \<Longrightarrow> curproc t = curproc s"
  unfolding eqv_def using calm_curproc by blast

lemma eqv_pid: "eqv s t \<Longrightarrow> p_pid (procs t i) = p_pid (procs s i)"
  unfolding eqv_def using calm_pid by blast

lemma eqv_more: "eqv s t \<Longrightarrow> eqv (with_more s m) (with_more t m)"
  by (simp add: eqv_def)

lemma doesD: "does f s r s' \<Longrightarrow> \<exists>t. f s = Done r t \<and> eqv s' t"
  unfolding does_def using eqv_refl by blast

lemma does_wp: "does f s r s' \<Longrightarrow> (\<And>t. eqv s' t \<Longrightarrow> Q r t) \<Longrightarrow> wp f Q s"
  by (drule doesD) (auto simp: wp_iff)

lemma does_bnd: "does f s x s1 \<Longrightarrow> does (g x) s1 r s2 \<Longrightarrow> does (bnd f g) s r s2"
  unfolding does_def by (fastforce simp: run)

lemma does_thn: "does f s x s1 \<Longrightarrow> does g s1 r s2 \<Longrightarrow> does (thn f g) s r s2"
  unfolding thn_def by (rule does_bnd)

lemma does_ret: "does (ret x) s x s"
  by (simp add: does_def run)

lemma does_skip: "does skip s () s"
  by (simp add: does_def run)

lemma does_gets: "(\<And>t. eqv s t \<Longrightarrow> f t = f s) \<Longrightarrow> does (gets f) s (f s) s"
  unfolding does_def run_gets by blast

lemma does_modify: "(\<And>t. eqv s t \<Longrightarrow> eqv (f s) (f t)) \<Longrightarrow> does (modify f) s () (f s)"
  unfolding does_def run_modify by blast

lemma does_panic_if: "\<not> b \<Longrightarrow> does (panic_if b m) s () s"
  by (simp add: does_def run)

lemma does_whenM: "(b \<Longrightarrow> does f s () s1) \<Longrightarrow> (\<not> b \<Longrightarrow> s1 = s) \<Longrightarrow> does (whenM b f) s () s1"
  by (auto simp: does_def run)

lemma does_deref: "p = Some a \<Longrightarrow> does (deref p) s a s"
  by (simp add: does_def run)

text \<open>The fields above the process table are those of the canonical state.\<close>

named_theorems eqvs "what equivalent states agree on"

lemma more_slocks: "pst.more t = pst.more s \<Longrightarrow> slocks t = slocks s"
  by (cases s; cases t) simp

lemma more_slocks_upd: "pst.more t = pst.more s \<Longrightarrow> pst.more (t\<lparr>slocks := f\<rparr>) = pst.more (s\<lparr>slocks := f\<rparr>)"
  by (cases s; cases t) simp


lemma eqv_slocks [eqvs]: "eqv s t \<Longrightarrow> slocks t = slocks s"
  unfolding eqv_def using more_slocks by blast

lemma calm_slocks [simp]:
  "calm s (t\<lparr>slocks := f\<rparr>) = calm s t" "calm (s\<lparr>slocks := f\<rparr>) t = calm s t"
  by (simp_all add: calm_def hw_bal_def depth_def curproc_def irq_on_def)

lemma eqv_slocks_upd [eqvs]: "eqv s t \<Longrightarrow> eqv (s\<lparr>slocks := f\<rparr>) (t\<lparr>slocks := f\<rparr>)"
  unfolding eqv_def using more_slocks_upd by auto

lemma settled_slocks [simp]: "settled L (s\<lparr>slocks := f\<rparr>) = settled L s"
  by (simp add: settled_def irq_wf_def depth_def irq_on_def lk_clean_def)

lemma curproc_slocks [simp]: "curproc (s\<lparr>slocks := f\<rparr>) = curproc s"
  by (simp add: curproc_def)

lemma acq_slocks [simp]: "slocks (acq l s) = slocks s" "(acq l s)\<lparr>slocks := f\<rparr> = acq l (s\<lparr>slocks := f\<rparr>)"
  by (simp_all add: acq_def irq_on_def)

text \<open>Taking and releasing a spinlock, in canonical states.\<close>

lemma hw_bal_acq: "hw_bal s t \<Longrightarrow> hw_bal (acq l s) (acq l t)"
  by (auto simp: hw_bal_def acq_def depth_def curproc_def irq_on_def csrs_off_def bit_simps SSTATUS_SIE_def)

lemma hw_bal_rel:
  assumes "irq_wf s" and "lk_clean l s" and "hw_bal (acq l s) u"
  shows "hw_bal s (rel l u)"
proof -
  have u: "tp u = tp s" "locks u = locks_acq (locks s) l (tp s)" "depth u = depth s + 1"
      "curproc u = curproc s" "\<not> irq_on u"
      "cpu_intena (cpus u (tp s)) = (if depth s = 0 then irq_on s else cpu_intena (cpus s (tp s)))"
    using assms(1,3) by (auto simp: hw_bal_def acq_def depth_def curproc_def irq_wf_def irq_on_def
        csrs_off_def bit_simps SSTATUS_SIE_def)
  have other: "csrs u h = csrs s h \<and> cpus u h = cpus s h" if "h \<noteq> tp s" for h
    using assms(3) that by (auto simp: hw_bal_def acq_def csrs_off_def)
  have "locks (rel l u) = locks s"
    using assms(2) by (simp add: rel_def u locks_rel_def locks_acq_def lk_clean_def fun_eq_iff)
  moreover have "irq_on (rel l u) = irq_on s"
    using assms(1) u by (auto simp: irq_on_rel irq_wf_def)
  moreover have "csrs (rel l u) h = csrs s h \<and> cpus (rel l u) h = cpus s h" if "h \<noteq> tp s" for h
    using other [OF that] that u(1) by (simp add: rel_def csrs_on_def)
  moreover have "0 < depth s \<longrightarrow> cpu_intena (cpus (rel l u) (tp s)) = cpu_intena (cpus s (tp s))"
    using u(1,6) by (simp add: rel_def)
  ultimately show ?thesis
    using u by (simp add: hw_bal_def)
qed

lemma eqv_acq: "eqv s t \<Longrightarrow> eqv (acq l s) (acq l t)"
  unfolding eqv_def calm_def using hw_bal_acq by auto

lemma does_acquire: "settled L s \<Longrightarrow> l \<notin> L \<Longrightarrow> does (acquire l) s () (acq l s)"
  unfolding does_def using run_acquire_settled eqv_settled eqv_acq by blast

lemma does_release:
  assumes "settled L s" and "l \<notin> L"
  shows "does (release l) (acq l s) () s"
  unfolding does_def
proof (intro allI impI)
  fix u
  assume e: "eqv (acq l s) u"
  then have bal: "hw_bal (acq l s) u" by (simp add: eqv_def calm_def)
  have "irq_wf s" "lk_clean l s" using assms by (auto simp: settled_def)
  moreover from this have "irq_wf u" "0 < depth u" "lk_held l u"
    using bal hw_bal_lk [OF bal, of l] hw_bal_irq_wf [OF bal]
    by (auto simp: hw_bal_def irq_wf_def)
  ultimately show "\<exists>t. release l u = Done () t \<and> eqv s t"
    using e run_release [of u l] hw_bal_rel [OF _ _ bal] by (auto simp: eqv_def calm_def)
qed

lemma does_curp: "settled L s \<Longrightarrow> curproc s = Some p \<Longrightarrow> does curp s p s"
  unfolding does_def
proof (intro allI impI)
  fix t
  assume "settled L s" "curproc s = Some p" and e: "eqv s t"
  then have "irq_wf t" "curproc t = Some p"
    using eqv_settled [OF e] eqv_curproc [OF e] by (auto simp: settled_def)
  from run_curp [OF this] show "\<exists>u. curp t = Done p u \<and> eqv s u"
    using eqv_trans [OF e] by (auto simp: eqv_def)
qed

lemma does_pid: "does (get_proc p p_pid) s (p_pid (procs s p)) s"
  unfolding get_proc_def by (rule does_gets) (simp add: eqv_pid)

lemma does_wakeup:
  assumes "settled L s" and "\<forall>p. ProcLock p \<notin> L"
  shows "does (wakeup ch) s () s"
  unfolding does_def
proof (intro allI impI)
  fix t
  assume e: "eqv s t"
  then have "settled L t" using eqv_settled assms(1) by blast
  from wakeup_run [OF this assms(2), of ch] obtain u
    where "wakeup ch t = Done () u" "calm t u" "pst.more u = pst.more t" by blast
  then show "\<exists>u. wakeup ch t = Done () u \<and> eqv s u"
    using eqv_trans [OF e] by (auto simp: eqv_def)
qed

lemma does_upd_slock: "does (upd_slock l f) s () (s\<lparr>slocks := upd (slocks s) l f\<rparr>)"
  unfolding upd_slock_def by (rule does_modify) (simp add: eqvs)

section \<open>The operations in the calculus\<close>

lemma does_acquiresleep:
  assumes "settled L s" and "SleepLk l \<notin> L" and "curproc s = Some p" and "slk_locked (slocks s l) = 0"
  shows "does (acquiresleep l) s ()
    (s\<lparr>slocks := upd (slocks s) l (\<lambda>x. x\<lparr>slk_locked := 1, slk_pid := p_pid (procs s p)\<rparr>)\<rparr>)"
proof -
  let ?k = "SleepLk l"
  let ?s1 = "acq ?k (s\<lparr>slocks := upd (slocks s) l (\<lambda>x. x\<lparr>slk_locked := 1\<rparr>)\<rparr>)"
  let ?s2 = "acq ?k (s\<lparr>slocks := upd (slocks s) l (\<lambda>x. x\<lparr>slk_locked := 1, slk_pid := p_pid (procs s p)\<rparr>)\<rparr>)"
  have g: "does (gets (\<lambda>s. slk_locked (slocks s l))) (acq ?k s) 0 (acq ?k s)"
    using does_gets [of "acq ?k s" "\<lambda>s. slk_locked (slocks s l)"] assms(4) by (simp add: eqvs)
  have 1: "does (upd_slock l (\<lambda>x. x\<lparr>slk_locked := 1\<rparr>)) (acq ?k s) () ?s1"
    using does_upd_slock [of l _ "acq ?k s"] by simp
  have 2: "does curp ?s1 p ?s1"
    using assms(1,3) by (intro does_curp [of "insert ?k L"] settled_acq) simp_all
  have 3: "does (get_proc p p_pid) ?s1 (p_pid (procs s p)) ?s1"
    using does_pid [of p ?s1] by simp
  have 4: "does (upd_slock l (\<lambda>x. x\<lparr>slk_pid := p_pid (procs s p)\<rparr>)) ?s1 () ?s2"
    using does_upd_slock [of l _ ?s1] by (simp add: comp_def)
  have 5: "does (release ?k) ?s2 () (s\<lparr>slocks := upd (slocks s) l (\<lambda>x. x\<lparr>slk_locked := 1, slk_pid := p_pid (procs s p)\<rparr>)\<rparr>)"
    using assms(1,2) by (intro does_release) simp_all
  show ?thesis
    unfolding acquiresleep_def acquiresleep_loop_def
    by (rule does_thn [OF does_acquire [OF assms(1,2)]], rule does_bnd [OF g],
        simp only: refl not_True_eq_False if_False,
        intro does_thn [OF 1] does_bnd [OF 2] does_bnd [OF 3] does_thn [OF 4] 5)
qed

lemma does_releasesleep:
  assumes "settled L s" and "SleepLk l \<notin> L" and "\<forall>p. ProcLock p \<notin> L"
  shows "does (releasesleep l) s () (s\<lparr>slocks := upd (slocks s) l (\<lambda>x. x\<lparr>slk_locked := 0, slk_pid := 0\<rparr>)\<rparr>)"
proof -
  let ?k = "SleepLk l"
  let ?t = "s\<lparr>slocks := upd (slocks s) l (\<lambda>x. x\<lparr>slk_locked := 0, slk_pid := 0\<rparr>)\<rparr>"
  let ?s1 = "acq ?k (s\<lparr>slocks := upd (slocks s) l (\<lambda>x. x\<lparr>slk_locked := 0\<rparr>)\<rparr>)"
  have 1: "does (upd_slock l (\<lambda>x. x\<lparr>slk_locked := 0\<rparr>)) (acq ?k s) () ?s1"
    using does_upd_slock [of l _ "acq ?k s"] by simp
  have 2: "does (upd_slock l (\<lambda>x. x\<lparr>slk_pid := 0\<rparr>)) ?s1 () (acq ?k ?t)"
    using does_upd_slock [of l _ ?s1] by (simp add: comp_def)
  have 3: "does (wakeup (SleepChan l)) (acq ?k ?t) () (acq ?k ?t)"
    using assms(1,3) by (intro does_wakeup [of "insert ?k L"] settled_acq) simp_all
  have 4: "does (release ?k) (acq ?k ?t) () ?t"
    using assms(1,2) by (intro does_release) simp_all
  show ?thesis
    unfolding releasesleep_def
    by (intro does_thn [OF does_acquire [OF assms(1,2)]] does_thn [OF 1] does_thn [OF 2] does_thn [OF 3] 4)
qed

lemma does_holdingsleep:
  assumes "settled L s" and "SleepLk l \<notin> L" and "curproc s = Some p"
  shows "does (holdingsleep l) s (slk_locked (slocks s l) \<noteq> 0 \<and> slk_pid (slocks s l) = p_pid (procs s p)) s"
proof -
  let ?k = "SleepLk l"
  let ?s1 = "acq ?k s"
  have g: "does (gets (\<lambda>s. slk_locked (slocks s l))) ?s1 (slk_locked (slocks s l)) ?s1"
    using does_gets [of ?s1 "\<lambda>s. slk_locked (slocks s l)"] by (simp add: eqvs)
  have c: "does curp ?s1 p ?s1"
    using assms(1,3) by (intro does_curp [of "insert ?k L"] settled_acq) simp_all
  have i: "does (get_proc p p_pid) ?s1 (p_pid (procs s p)) ?s1"
    using does_pid [of p ?s1] by simp
  have q: "does (gets (\<lambda>s. slk_pid (slocks s l) = pid)) ?s1 (slk_pid (slocks s l) = pid) ?s1" for pid
    using does_gets [of ?s1 "\<lambda>s. slk_pid (slocks s l) = pid"] by (simp add: eqvs)
  have "does (if slk_locked (slocks s l) = 0 then ret False
          else bnd curp (\<lambda>p. bnd (get_proc p p_pid) (\<lambda>pid. gets (\<lambda>s. slk_pid (slocks s l) = pid)))) ?s1
      (slk_locked (slocks s l) \<noteq> 0 \<and> slk_pid (slocks s l) = p_pid (procs s p)) ?s1"
  proof (cases "slk_locked (slocks s l) = 0")
    case True
    then show ?thesis by (simp add: does_ret)
  next
    case False
    have "does (bnd curp (\<lambda>p. bnd (get_proc p p_pid) (\<lambda>pid. gets (\<lambda>s. slk_pid (slocks s l) = pid)))) ?s1
        (slk_pid (slocks s l) = p_pid (procs s p)) ?s1"
      by (intro does_bnd [OF c] does_bnd [OF i] q)
    with False show ?thesis by simp
  qed
  then show ?thesis
    unfolding holdingsleep_def
    by (intro does_thn [OF does_acquire [OF assms(1,2)]] does_bnd [OF g])
      (rule does_bnd, assumption, rule does_thn [OF does_release [OF assms(1,2)] does_ret])
qed

section \<open>Properties\<close>

lemma asleep_slocks [simp]: "slocks (asleep p ch lk s) = slocks s"
  by (simp add: asleep_def rel_def acq_def)

text \<open>
  C25: A sleep lock admits one process.  \<^verbatim>\<open>acquiresleep()\<close> on a free lock takes it in the
  caller's name; on a taken lock the caller goes to sleep on it and the lock is not touched;
  \<^verbatim>\<open>releasesleep()\<close> frees it and makes everybody who sleeps on it runnable.
\<close>

theorem sleeplock_admits_one:
  assumes "settled {} s" and "depth s = 0" and "curproc s = Some p"
  shows "(slk_locked (slocks s l) = 0 \<longrightarrow> (\<exists>t. acquiresleep l s = Done () t \<and>
        slocks t = upd (slocks s) l (\<lambda>x. x\<lparr>slk_locked := 1, slk_pid := p_pid (procs s p)\<rparr>))) \<and>
    (slk_locked (slocks s l) \<noteq> 0 \<longrightarrow> (\<exists>t. acquiresleep l s = Blocked t \<and> slocks t = slocks s \<and>
        p_state (procs t p) = SLEEPING \<and> p_chan (procs t p) = Some (SleepChan l))) \<and>
    (\<exists>t. releasesleep l s = Done () t \<and> slocks t = upd (slocks s) l (\<lambda>x. x\<lparr>slk_locked := 0, slk_pid := 0\<rparr>) \<and>
        (\<forall>i<NPROC. p_chan (procs s i) = Some (SleepChan l) \<longrightarrow> p_state (procs t i) \<noteq> SLEEPING))"
proof (intro conjI impI)
  assume "slk_locked (slocks s l) = 0"
  from doesD [OF does_acquiresleep [OF assms(1) _ assms(3) this]]
  show "\<exists>t. acquiresleep l s = Done () t \<and>
        slocks t = upd (slocks s) l (\<lambda>x. x\<lparr>slk_locked := 1, slk_pid := p_pid (procs s p)\<rparr>)"
    by (auto simp: eqvs)
next
  assume k: "slk_locked (slocks s l) \<noteq> 0"
  let ?t = "asleep p (SleepChan l) (SleepLk l) s"
  have "sleep (SleepChan l) (SleepLk l) (acq (SleepLk l) s) = Blocked ?t"
    by (rule sleep_run [OF assms]) simp
  then have "acquiresleep l s = Blocked ?t"
    using k run_acquire_settled [OF assms(1), of "SleepLk l"]
    by (simp add: acquiresleep_def acquiresleep_loop_def run)
  then show "\<exists>t. acquiresleep l s = Blocked t \<and> slocks t = slocks s \<and>
      p_state (procs t p) = SLEEPING \<and> p_chan (procs t p) = Some (SleepChan l)"
    by simp
next
  let ?s = "acq (SleepLk l) (s\<lparr>slocks := upd (slocks s) l (\<lambda>x. x\<lparr>slk_locked := 0, slk_pid := 0\<rparr>)\<rparr>)"
  let ?u = "s\<lparr>slocks := upd (slocks s) l (\<lambda>x. x\<lparr>slk_locked := 0, slk_pid := 0\<rparr>)\<rparr>"
  have st: "settled {} ?u" using assms(1) by simp
  obtain t where t: "wakeup (SleepChan l) ?s = Done () t" "calm ?s t" "pst.more t = pst.more ?s"
      "\<forall>i. procs t i = (if i < NPROC then wake (SleepChan l) (procs ?s i) else procs ?s i)"
    using wakeup_run [OF settled_acq [OF st, of "SleepLk l"], of "SleepChan l"] by auto
  have bal: "hw_bal ?s t" using t(2) by (simp add: calm_def)
  have wf: "irq_wf ?u" using st by (simp add: settled_def)
  have "irq_wf t" by (rule hw_bal_irq_wf [OF bal irq_wf_acq [OF wf]])
  moreover have "depth t = depth ?u + 1" using bal by (simp add: hw_bal_def)
  then have "0 < depth t" using wf unfolding irq_wf_def by linarith
  moreover have "lk_held (SleepLk l) t" using hw_bal_lk [OF bal, of "SleepLk l"] by simp
  ultimately have "release (SleepLk l) t = Done () (rel (SleepLk l) t)" by (rule run_release)
  then have "releasesleep l s = Done () (rel (SleepLk l) t)"
    using t(1) run_acquire_settled [OF assms(1), of "SleepLk l"]
    by (simp add: releasesleep_def run upd_slock_def comp_def)
  moreover have "slocks (rel (SleepLk l) t) = slocks ?s"
    using more_slocks [of "rel (SleepLk l) t" ?s] t(3) by simp
  ultimately show "\<exists>t. releasesleep l s = Done () t \<and> slocks t = upd (slocks s) l (\<lambda>x. x\<lparr>slk_locked := 0, slk_pid := 0\<rparr>) \<and>
        (\<forall>i<NPROC. p_chan (procs s i) = Some (SleepChan l) \<longrightarrow> p_state (procs t i) \<noteq> SLEEPING)"
    using t(4) by (intro exI [of _ "rel (SleepLk l) t"]) (simp add: wake_def)
qed

definition boot_slst :: slst where
  "boot_slst = pst.extend boot_pst \<lparr>slocks = (\<lambda>_. \<lparr>slk_locked = 0, slk_name = [], slk_pid = 0\<rparr>)\<rparr>"

lemma boot_slst_ok: "settled L boot_slst" "depth boot_slst = 0" "curproc boot_slst = Some 0"
  "slocks boot_slst l = \<lparr>slk_locked = 0, slk_name = [], slk_pid = 0\<rparr>" "p_pid (procs boot_slst 0) = 1"
  by (simp_all add: boot_slst_def boot_pst_def pst.defs settled_def irq_wf_def depth_def irq_on_def lk_clean_def
      zero_defs curproc_def)

theorem sleeplock_admits_one_witness:
  "\<exists>t. acquiresleep (InodeLock 4) boot_slst = Done () t \<and> slk_pid (slocks t (InodeLock 4)) = 1"
  using sleeplock_admits_one [OF boot_slst_ok(1-3), of "InodeLock 4"] by (auto simp: boot_slst_ok(4,5))

end
