(* ===== verification/Bio.thy ===== *)
theory Bio
  imports Sleeplock
begin

text \<open>
  The buffer cache (\<^verbatim>\<open>kernel/bio.c\<close>), with its doubly linked list kept as
  \<^verbatim>\<open>prev\<close>/\<^verbatim>\<open>next\<close> links between buffers.  The list is related to the
  sequence of buffers in most-recently-used order, and the cache as a whole to the specification
  \<open>cache\<close>: a disk, the contents clients see, and for every block how often it is referenced and
  which buffer holds it locked.  Each operation is shown to implement its counterpart there.
\<close>

section \<open>Buffers and the disk\<close>

text \<open>
  The bytes of a block are a function of their position; positions from \<^verbatim>\<open>BSIZE\<close> on
  are not part of it.  A block is named by its device and number.
\<close>

definition BSIZE :: nat where "BSIZE = 1024"

type_synonym block = "nat \<Rightarrow> u8"
type_synonym bkey = "u32 \<times> u32"

record buf =
  b_valid :: bool
  b_disk :: bool
  b_dev :: u32
  b_blockno :: u32
  b_refcnt :: u32
  b_prev :: nat
  b_next :: nat
  b_data :: block

text \<open>
  \<open>bufs\<close> holds \<^verbatim>\<open>bcache.buf[]\<close> and, at index \<open>HEAD\<close>,
  \<^verbatim>\<open>bcache.head\<close>.  \<open>disk\<close> is the content of the disks and \<open>disk_writes\<close> the
  sequence of the writes they have carried out.
\<close>

record bio = slst +
  bufs :: "nat \<Rightarrow> buf"
  disk :: "bkey \<Rightarrow> block"
  disk_writes :: "(bkey \<times> block) list"

definition HEAD :: nat where "HEAD = NBUF"

definition key :: "buf \<Rightarrow> bkey" where
  "key b = (b_dev b, b_blockno b)"

definition upd_buf :: "nat \<Rightarrow> (buf \<Rightarrow> buf) \<Rightarrow> ('z bio_scheme, unit) kop" where
  "upd_buf b f = modify (\<lambda>s. s\<lparr>bufs := upd (bufs s) b f\<rparr>)"

definition get_buf :: "nat \<Rightarrow> (buf \<Rightarrow> 'a) \<Rightarrow> ('z bio_scheme, 'a) kop" where
  "get_buf b f = gets (\<lambda>s. f (bufs s b))"

text \<open>
  A request to the disk and its completion, as the process that issues it sees them: the block has
  been transferred when \<^verbatim>\<open>virtio_disk_rw()\<close> returns.
\<close>

definition disk_read :: "nat \<Rightarrow> ('z bio_scheme, unit) kop" where
  "disk_read b = modify (\<lambda>s. s\<lparr>bufs := upd (bufs s) b (\<lambda>x. x\<lparr>b_data := disk s (key x)\<rparr>)\<rparr>)"

definition disk_write :: "nat \<Rightarrow> ('z bio_scheme, unit) kop" where
  "disk_write b = modify (\<lambda>s. let x = bufs s b in
     s\<lparr>disk := (disk s)(key x := b_data x), disk_writes := disk_writes s @ [(key x, b_data x)]\<rparr>)"

section \<open>Operations\<close>

definition binit :: "('z bio_scheme, unit) kop" where
  "binit =
     thn (initlock BcacheLock ''bcache'') (
     thn (upd_buf HEAD (\<lambda>x. x\<lparr>b_prev := HEAD\<rparr>)) (
     thn (upd_buf HEAD (\<lambda>x. x\<lparr>b_next := HEAD\<rparr>)) (
     for_all [0..<NBUF] (\<lambda>b.
       bnd (get_buf HEAD b_next) (\<lambda>n.
       thn (upd_buf b (\<lambda>x. x\<lparr>b_next := n\<rparr>)) (
       thn (upd_buf b (\<lambda>x. x\<lparr>b_prev := HEAD\<rparr>)) (
       thn (initsleeplock (BufLock b) ''buffer'') (
       bnd (get_buf HEAD b_next) (\<lambda>n.
       thn (upd_buf n (\<lambda>x. x\<lparr>b_prev := b\<rparr>)) (
       upd_buf HEAD (\<lambda>x. x\<lparr>b_next := b\<rparr>))))))))))) "

text \<open>
  The two scans of \<^verbatim>\<open>bget()\<close>: from a buffer on, along \<open>link\<close>, to the first
  buffer that passes the test or back to the head.  The list has \<^verbatim>\<open>NBUF\<close> buffers and
  the head, which bounds the scan.
\<close>

definition bscan :: "(buf \<Rightarrow> bool) \<Rightarrow> (buf \<Rightarrow> nat) \<Rightarrow> nat \<Rightarrow> ('z bio_scheme, nat option) kop" where
  "bscan test link start =
     loopM (Suc NBUF) (\<lambda>b.
       if b = HEAD then ret (Inr None)
       else
       bnd (get_buf b test) (\<lambda>found.
       if found then ret (Inr (Some b))
       else bnd (get_buf b link) (\<lambda>n. ret (Inl n))))
     start"

definition bget :: "u32 \<Rightarrow> u32 \<Rightarrow> ('z bio_scheme, nat) kop" where
  "bget dev blockno =
     thn (acquire BcacheLock) (
     bnd (get_buf HEAD b_next) (\<lambda>b0.
     bnd (bscan (\<lambda>x. b_dev x = dev \<and> b_blockno x = blockno) b_next b0) (\<lambda>r.
     case r of
       Some b \<Rightarrow>
         thn (upd_buf b (\<lambda>x. x\<lparr>b_refcnt := b_refcnt x + 1\<rparr>)) (
         thn (release BcacheLock) (
         thn (acquiresleep (BufLock b)) (
         ret b)))
     | None \<Rightarrow>
         bnd (get_buf HEAD b_prev) (\<lambda>b1.
         bnd (bscan (\<lambda>x. b_refcnt x = 0) b_prev b1) (\<lambda>r.
         case r of
           Some b \<Rightarrow>
             thn (upd_buf b (\<lambda>x. x\<lparr>b_dev := dev, b_blockno := blockno, b_valid := False, b_refcnt := 1\<rparr>)) (
             thn (release BcacheLock) (
             thn (acquiresleep (BufLock b)) (
             ret b)))
         | None \<Rightarrow> panic ''bget: no buffers'')))))"

definition bread :: "u32 \<Rightarrow> u32 \<Rightarrow> ('z bio_scheme, nat) kop" where
  "bread dev blockno =
     bnd (bget dev blockno) (\<lambda>b.
     bnd (get_buf b b_valid) (\<lambda>v.
     thn (whenM (\<not> v) (
       thn (disk_read b) (
       upd_buf b (\<lambda>x. x\<lparr>b_valid := True\<rparr>)))) (
     ret b)))"

definition bwrite :: "nat \<Rightarrow> ('z bio_scheme, unit) kop" where
  "bwrite b =
     bnd (holdingsleep (BufLock b)) (\<lambda>h.
     thn (panic_if (\<not> h) ''bwrite'') (
     disk_write b))"

text \<open>Unlinking a buffer and putting it at the head, assignment by assignment.\<close>

definition move_to_head :: "nat \<Rightarrow> ('z bio_scheme, unit) kop" where
  "move_to_head b =
     bnd (get_buf b b_next) (\<lambda>n.
     bnd (get_buf b b_prev) (\<lambda>p.
     thn (upd_buf n (\<lambda>x. x\<lparr>b_prev := p\<rparr>)) (
     bnd (get_buf b b_prev) (\<lambda>p.
     bnd (get_buf b b_next) (\<lambda>n.
     thn (upd_buf p (\<lambda>x. x\<lparr>b_next := n\<rparr>)) (
     bnd (get_buf HEAD b_next) (\<lambda>h.
     thn (upd_buf b (\<lambda>x. x\<lparr>b_next := h\<rparr>)) (
     thn (upd_buf b (\<lambda>x. x\<lparr>b_prev := HEAD\<rparr>)) (
     bnd (get_buf HEAD b_next) (\<lambda>h.
     thn (upd_buf h (\<lambda>x. x\<lparr>b_prev := b\<rparr>)) (
     upd_buf HEAD (\<lambda>x. x\<lparr>b_next := b\<rparr>))))))))))))"

definition brelse :: "nat \<Rightarrow> ('z bio_scheme, unit) kop" where
  "brelse b =
     bnd (holdingsleep (BufLock b)) (\<lambda>h.
     thn (panic_if (\<not> h) ''brelse'') (
     thn (releasesleep (BufLock b)) (
     thn (acquire BcacheLock) (
     thn (upd_buf b (\<lambda>x. x\<lparr>b_refcnt := b_refcnt x - 1\<rparr>)) (
     bnd (get_buf b b_refcnt) (\<lambda>n.
     thn (whenM (n = 0) (move_to_head b)) (
     release BcacheLock)))))))"

definition bpin :: "nat \<Rightarrow> ('z bio_scheme, unit) kop" where
  "bpin b =
     thn (acquire BcacheLock) (
     thn (upd_buf b (\<lambda>x. x\<lparr>b_refcnt := b_refcnt x + 1\<rparr>)) (
     release BcacheLock))"

definition bunpin :: "nat \<Rightarrow> ('z bio_scheme, unit) kop" where
  "bunpin b =
     thn (acquire BcacheLock) (
     thn (upd_buf b (\<lambda>x. x\<lparr>b_refcnt := b_refcnt x - 1\<rparr>)) (
     release BcacheLock))"

section \<open>The list as a sequence\<close>

text \<open>
  \<open>dll nx pv a xs c\<close>: from \<open>a\<close>, the links lead through \<open>xs\<close> to \<open>c\<close>, forwards by
  \<open>nx\<close> and backwards by \<open>pv\<close>.
\<close>

primrec dll :: "(nat \<Rightarrow> nat) \<Rightarrow> (nat \<Rightarrow> nat) \<Rightarrow> nat \<Rightarrow> nat list \<Rightarrow> nat \<Rightarrow> bool" where
  "dll nx pv a [] c \<longleftrightarrow> nx a = c \<and> pv c = a"
| "dll nx pv a (x # xs) c \<longleftrightarrow> nx a = x \<and> pv x = a \<and> dll nx pv x xs c"

lemma dll_append: "dll nx pv a (xs @ y # ys) c \<longleftrightarrow> dll nx pv a xs y \<and> dll nx pv y ys c"
  by (induction xs arbitrary: a) auto

lemma dll_next: "dll nx pv a xs c \<Longrightarrow> nx a = hd (xs @ [c])"
  by (cases xs) auto

lemma dll_prev: "dll nx pv a xs c \<Longrightarrow> pv c = last (a # xs)"
  by (induction xs arbitrary: a) auto

lemma dll_frame:
  "dll nx pv a xs c \<Longrightarrow> (\<forall>i \<in> insert a (set xs). nx' i = nx i) \<Longrightarrow> (\<forall>i \<in> insert c (set xs). pv' i = pv i)
    \<Longrightarrow> dll nx' pv' a xs c"
  by (induction xs arbitrary: a) auto

lemma dll_rev: "dll nx pv a xs c \<Longrightarrow> dll pv nx c (rev xs) a"
  by (induction xs arbitrary: a) (auto simp: dll_append)

lemma dll_unlink:
  assumes "dll nx pv a ys b" and "dll nx pv b zs c" and "distinct (ys @ b # zs)"
    and "a \<notin> set (ys @ b # zs)" and "c \<notin> set (ys @ b # zs)"
  shows "dll (nx(last (a # ys) := nx b)) (pv(nx b := last (a # ys))) a (ys @ zs) c"
  using assms
proof (induction ys arbitrary: a)
  case Nil
  show ?case
  proof (cases zs)
    case Nil
    with \<open>dll nx pv b zs c\<close> show ?thesis by simp
  next
    case (Cons z zs')
    with Nil.prems have "dll nx pv z zs' c" "nx b = z" by auto
    moreover have "dll (nx(a := z)) (pv(z := a)) z zs' c"
      using Nil.prems Cons by (intro dll_frame [OF \<open>dll nx pv z zs' c\<close>]) auto
    ultimately show ?thesis
      using Cons by (simp add: fun_upd_def)
  qed
next
  case (Cons y ys)
  from Cons.prems have "nx b \<in> insert c (set zs)"
    using dll_next [OF Cons.prems(2)] by (cases zs) auto
  then have "nx b \<noteq> y" using Cons.prems by auto
  moreover have "last (y # ys) \<noteq> a"
    using Cons.prems(4) last_in_set [of "y # ys"] by (auto simp del: last.simps)
  moreover have "dll (nx(last (y # ys) := nx b)) (pv(nx b := last (y # ys))) y (ys @ zs) c"
    using Cons.prems by (intro Cons.IH) auto
  ultimately show ?case
    using Cons.prems(1) by (auto simp: fun_upd_def)
qed

lemma dll_push:
  assumes "dll nx pv h xs h" and "b \<notin> set xs" and "b \<noteq> h" and "h \<notin> set xs" and "distinct xs"
  shows "dll (nx(b := nx h, h := b)) (pv(b := h, nx h := b)) h (b # xs) h"
proof (cases xs)
  case Nil
  with assms show ?thesis by simp
next
  case (Cons x xs')
  with assms have "nx h = x" "dll nx pv x xs' h" by auto
  moreover have "dll (nx(b := x, h := b)) (pv(b := h, x := b)) x xs' h"
    using assms Cons by (intro dll_frame [OF \<open>dll nx pv x xs' h\<close>]) auto
  ultimately show ?thesis
    using Cons assms by (auto simp: fun_upd_def)
qed

section \<open>The operations in canonical states\<close>

lemma more_bufs: "pst.more t = pst.more s \<Longrightarrow> bufs t = bufs s"
  by (cases s; cases t) simp

lemma more_bufs_upd: "pst.more t = pst.more s \<Longrightarrow> pst.more (t\<lparr>bufs := f\<rparr>) = pst.more (s\<lparr>bufs := f\<rparr>)"
  by (cases s; cases t) simp

lemma calm_bufs [simp]:
  "calm s (t\<lparr>bufs := f\<rparr>) = calm s t" "calm (s\<lparr>bufs := f\<rparr>) t = calm s t"
  by (simp_all add: calm_def hw_bal_def depth_def curproc_def irq_on_def)

lemma eqv_bufs [eqvs]:
  "eqv s t \<Longrightarrow> bufs t = bufs s" "eqv s t \<Longrightarrow> eqv (s\<lparr>bufs := f\<rparr>) (t\<lparr>bufs := f\<rparr>)"
  unfolding eqv_def using more_bufs more_bufs_upd by auto

lemma settled_bufs [simp]:
  "settled L (s\<lparr>bufs := f\<rparr>) = settled L s" "curproc (s\<lparr>bufs := f\<rparr>) = curproc s"
  by (simp_all add: settled_def irq_wf_def depth_def irq_on_def lk_clean_def curproc_def)

lemma acq_bufs [simp]: "bufs (acq l s) = bufs s" "(acq l s)\<lparr>bufs := f\<rparr> = acq l (s\<lparr>bufs := f\<rparr>)"
  by (simp_all add: acq_def irq_on_def)

lemma more_disk: "pst.more t = pst.more s \<Longrightarrow> disk t = disk s"
  by (cases s; cases t) simp

lemma more_disk_upd: "pst.more t = pst.more s \<Longrightarrow> pst.more (t\<lparr>disk := f\<rparr>) = pst.more (s\<lparr>disk := f\<rparr>)"
  by (cases s; cases t) simp

lemma calm_disk [simp]:
  "calm s (t\<lparr>disk := f\<rparr>) = calm s t" "calm (s\<lparr>disk := f\<rparr>) t = calm s t"
  by (simp_all add: calm_def hw_bal_def depth_def curproc_def irq_on_def)

lemma eqv_disk [eqvs]:
  "eqv s t \<Longrightarrow> disk t = disk s" "eqv s t \<Longrightarrow> eqv (s\<lparr>disk := f\<rparr>) (t\<lparr>disk := f\<rparr>)"
  unfolding eqv_def using more_disk more_disk_upd by auto

lemma settled_disk [simp]:
  "settled L (s\<lparr>disk := f\<rparr>) = settled L s" "curproc (s\<lparr>disk := f\<rparr>) = curproc s"
  by (simp_all add: settled_def irq_wf_def depth_def irq_on_def lk_clean_def curproc_def)

lemma acq_disk [simp]: "disk (acq l s) = disk s" "(acq l s)\<lparr>disk := f\<rparr> = acq l (s\<lparr>disk := f\<rparr>)"
  by (simp_all add: acq_def irq_on_def)

lemma more_disk_writes: "pst.more t = pst.more s \<Longrightarrow> disk_writes t = disk_writes s"
  by (cases s; cases t) simp

lemma more_disk_writes_upd: "pst.more t = pst.more s \<Longrightarrow> pst.more (t\<lparr>disk_writes := f\<rparr>) = pst.more (s\<lparr>disk_writes := f\<rparr>)"
  by (cases s; cases t) simp

lemma calm_disk_writes [simp]:
  "calm s (t\<lparr>disk_writes := f\<rparr>) = calm s t" "calm (s\<lparr>disk_writes := f\<rparr>) t = calm s t"
  by (simp_all add: calm_def hw_bal_def depth_def curproc_def irq_on_def)

lemma eqv_disk_writes [eqvs]:
  "eqv s t \<Longrightarrow> disk_writes t = disk_writes s" "eqv s t \<Longrightarrow> eqv (s\<lparr>disk_writes := f\<rparr>) (t\<lparr>disk_writes := f\<rparr>)"
  unfolding eqv_def using more_disk_writes more_disk_writes_upd by auto

lemma settled_disk_writes [simp]:
  "settled L (s\<lparr>disk_writes := f\<rparr>) = settled L s" "curproc (s\<lparr>disk_writes := f\<rparr>) = curproc s"
  by (simp_all add: settled_def irq_wf_def depth_def irq_on_def lk_clean_def curproc_def)

lemma acq_disk_writes [simp]: "disk_writes (acq l s) = disk_writes s" "(acq l s)\<lparr>disk_writes := f\<rparr> = acq l (s\<lparr>disk_writes := f\<rparr>)"
  by (simp_all add: acq_def irq_on_def)

lemma does_get_buf: "does (get_buf b f) s (f (bufs s b)) s"
  unfolding get_buf_def by (rule does_gets) (simp add: eqvs)

lemma does_upd_buf: "does (upd_buf b f) s () (s\<lparr>bufs := upd (bufs s) b f\<rparr>)"
  unfolding upd_buf_def by (rule does_modify) (simp add: eqvs)

lemma does_upd_buf_acq: "does (upd_buf b f) (acq l s) () (acq l (s\<lparr>bufs := upd (bufs s) b f\<rparr>))"
  using does_upd_buf [of b f "acq l s"] by simp

abbreviation links :: "(nat \<Rightarrow> buf) \<Rightarrow> nat list \<Rightarrow> bool" where
  "links bf xs \<equiv> dll (\<lambda>i. b_next (bf i)) (\<lambda>i. b_prev (bf i)) HEAD xs HEAD"

text \<open>The cache's list runs through all buffers, in the order \<open>xs\<close>.\<close>

definition ring :: "(nat \<Rightarrow> buf) \<Rightarrow> nat list \<Rightarrow> bool" where
  "ring bf xs \<longleftrightarrow> links bf xs \<and> distinct xs \<and> set xs = {0..<NBUF}"

lemma ring_length: "ring bf xs \<Longrightarrow> length xs = NBUF"
  using distinct_card [of xs] by (simp add: ring_def)

lemma bscan_path:
  assumes "dll (\<lambda>i. link (bufs s i)) pv a xs HEAD" and "HEAD \<notin> set xs" and "length xs < n"
  shows "does (loopM n (\<lambda>b.
       if b = HEAD then ret (Inr None)
       else bnd (get_buf b test) (\<lambda>found.
         if found then ret (Inr (Some b)) else bnd (get_buf b link) (\<lambda>n. ret (Inl n))))
     (link (bufs s a))) s (List.find (\<lambda>b. test (bufs s b)) xs) s"
  using assms
proof (induction xs arbitrary: a n)
  case Nil
  then obtain m where "n = Suc m" by (cases n) auto
  with Nil show ?case by (simp add: does_def run)
next
  case (Cons x xs)
  then obtain m where n: "n = Suc m" by (cases n) auto
  have a: "link (bufs s a) = x" "x \<noteq> HEAD" using Cons.prems by auto
  have test: "get_buf x test t = Done (test (bufs s x)) t" and lnk: "get_buf x link t = Done (link (bufs s x)) t"
    if "eqv s t" for t
    using that by (simp_all add: get_buf_def run eqvs)
  have ih: "does (loopM m (\<lambda>b.
       if b = HEAD then ret (Inr None)
       else bnd (get_buf b test) (\<lambda>found.
         if found then ret (Inr (Some b)) else bnd (get_buf b link) (\<lambda>n. ret (Inl n))))
     (link (bufs s x))) s (List.find (\<lambda>b. test (bufs s b)) xs) s"
    using Cons.prems n by (intro Cons.IH) auto
  show ?case
  proof (cases "test (bufs s x)")
    case True
    then show ?thesis
      unfolding does_def n a using a(2) test by (simp add: run)
  next
    case False
    show ?thesis
      unfolding does_def n a
    proof (intro allI impI)
      fix t
      assume t: "eqv s t"
      show "\<exists>u. loopM (Suc m) (\<lambda>b.
           if b = HEAD then ret (Inr None)
           else bnd (get_buf b test) (\<lambda>found.
             if found then ret (Inr (Some b)) else bnd (get_buf b link) (\<lambda>n. ret (Inl n))))
         x t = Done (List.find (\<lambda>b. test (bufs s b)) (x # xs)) u \<and> eqv s u"
        using ih t a(2) False test [OF t] lnk [OF t] by (simp add: run does_def)
    qed
  qed
qed

lemma HEAD_notin: "ring bf xs \<Longrightarrow> HEAD \<notin> set xs"
  by (simp add: ring_def HEAD_def)

lemma does_bscan_fwd:
  assumes "ring (bufs s) xs"
  shows "does (bscan test b_next (b_next (bufs s HEAD))) s (List.find (\<lambda>b. test (bufs s b)) xs) s"
  unfolding bscan_def
  using assms ring_length [OF assms] HEAD_notin [OF assms] by (intro bscan_path) (auto simp: ring_def)

lemma does_bscan_bwd:
  assumes "ring (bufs s) xs"
  shows "does (bscan test b_prev (b_prev (bufs s HEAD))) s (List.find (\<lambda>b. test (bufs s b)) (rev xs)) s"
proof -
  have "dll (\<lambda>i. b_prev (bufs s i)) (\<lambda>i. b_next (bufs s i)) HEAD (rev xs) HEAD"
    using assms by (auto simp: ring_def intro: dll_rev)
  then show ?thesis
    unfolding bscan_def using ring_length [OF assms] HEAD_notin [OF assms] by (intro bscan_path) auto
qed

lemma upd_slocks_bufs: "s\<lparr>bufs := f, slocks := g\<rparr> = s\<lparr>slocks := g, bufs := f\<rparr>"
  by simp

definition lock_for :: "nat \<Rightarrow> int \<Rightarrow> (slockid \<Rightarrow> sleeplock) \<Rightarrow> slockid \<Rightarrow> sleeplock" where
  "lock_for b pid k = upd k (BufLock b) (\<lambda>x. x\<lparr>slk_locked := 1, slk_pid := pid\<rparr>)"

definition unlocked :: "nat \<Rightarrow> (slockid \<Rightarrow> sleeplock) \<Rightarrow> slockid \<Rightarrow> sleeplock" where
  "unlocked b k = upd k (BufLock b) (\<lambda>x. x\<lparr>slk_locked := 0, slk_pid := 0\<rparr>)"

text \<open>
  The buffer \<^verbatim>\<open>bget()\<close> chooses, and whether it was found in the cache: the first one
  in list order with the block's key, otherwise the last one that is not referenced.
\<close>

definition bchoose :: "(nat \<Rightarrow> buf) \<Rightarrow> nat list \<Rightarrow> bkey \<Rightarrow> (nat \<times> bool) option" where
  "bchoose bf xs k =
     (case List.find (\<lambda>b. key (bf b) = k) xs of
        Some b \<Rightarrow> Some (b, True)
      | None \<Rightarrow> (case List.find (\<lambda>b. b_refcnt (bf b) = 0) (rev xs) of
          Some b \<Rightarrow> Some (b, False)
        | None \<Rightarrow> None))"

definition bgot :: "bkey \<Rightarrow> bool \<Rightarrow> buf \<Rightarrow> buf" where
  "bgot k hit x = (if hit then x\<lparr>b_refcnt := b_refcnt x + 1\<rparr>
     else x\<lparr>b_dev := fst k, b_blockno := snd k, b_valid := False, b_refcnt := 1\<rparr>)"

lemma does_bget:
  assumes "settled L s" and "BcacheLock \<notin> L" and "SleepLk (BufLock b) \<notin> L" and "curproc s = Some p"
    and "ring (bufs s) xs" and "bchoose (bufs s) xs (dev, bn) = Some (b, hit)"
    and "slk_locked (slocks s (BufLock b)) = 0"
  shows "does (bget dev bn) s b
    (s\<lparr>slocks := lock_for b (p_pid (procs s p)) (slocks s), bufs := upd (bufs s) b (bgot (dev, bn) hit)\<rparr>)"
proof -
  let ?k = BcacheLock
  let ?a = "acq ?k s"
  let ?f = "bgot (dev, bn) hit"
  let ?t = "s\<lparr>bufs := upd (bufs s) b ?f\<rparr>"
  let ?m = "\<lambda>x. b_dev x = dev \<and> b_blockno x = bn"
  have m: "(\<lambda>b. ?m (bufs s b)) = (\<lambda>b. key (bufs s b) = (dev, bn))"
    by (simp add: key_def)
  have ring: "ring (bufs ?a) xs" using assms(5) by simp
  have acq: "does (acquire ?k) s () ?a" by (rule does_acquire [OF assms(1,2)])
  have h1: "does (get_buf HEAD b_next) ?a (b_next (bufs ?a HEAD)) ?a" by (rule does_get_buf)
  have h2: "does (get_buf HEAD b_prev) ?a (b_prev (bufs ?a HEAD)) ?a" by (rule does_get_buf)
  have scan1: "does (bscan ?m b_next (b_next (bufs ?a HEAD))) ?a (List.find (\<lambda>b. key (bufs s b) = (dev, bn)) xs) ?a"
    using does_bscan_fwd [OF ring, of ?m] m by simp
  have scan2: "does (bscan (\<lambda>x. b_refcnt x = 0) b_prev (b_prev (bufs ?a HEAD))) ?a
      (List.find (\<lambda>b. b_refcnt (bufs s b) = 0) (rev xs)) ?a"
    using does_bscan_bwd [OF ring, of "\<lambda>x. b_refcnt x = 0"] by simp
  have u: "does (upd_buf b ?f) ?a () (acq ?k ?t)" by (rule does_upd_buf_acq)
  have r: "does (release ?k) (acq ?k ?t) () ?t"
    using assms(1,2) by (intro does_release) simp_all
  have l: "does (acquiresleep (BufLock b)) ?t ()
      (s\<lparr>slocks := lock_for b (p_pid (procs s p)) (slocks s), bufs := upd (bufs s) b ?f\<rparr>)"
    using does_acquiresleep [of L ?t "BufLock b" p] assms
    by (simp add: lock_for_def upd_slocks_bufs)
  note tail = does_thn [OF u does_thn [OF r does_thn [OF l does_ret]]]
  show ?thesis
  proof (cases hit)
    case True
    then have "List.find (\<lambda>b. key (bufs s b) = (dev, bn)) xs = Some b"
      using assms(6) by (auto simp: bchoose_def split: option.splits)
    moreover have "?f = (\<lambda>x. x\<lparr>b_refcnt := b_refcnt x + 1\<rparr>)"
      using True by (simp add: bgot_def fun_eq_iff)
    ultimately show ?thesis
      unfolding bget_def using scan1 tail
      by (intro does_thn [OF acq] does_bnd [OF h1] does_bnd [OF scan1]) simp
  next
    case False
    then have "List.find (\<lambda>b. key (bufs s b) = (dev, bn)) xs = None"
        "List.find (\<lambda>b. b_refcnt (bufs s b) = 0) (rev xs) = Some b"
      using assms(6) by (auto simp: bchoose_def split: option.splits)
    moreover have "?f = (\<lambda>x. x\<lparr>b_dev := dev, b_blockno := bn, b_valid := False, b_refcnt := 1\<rparr>)"
      using False by (simp add: bgot_def fun_eq_iff)
    ultimately show ?thesis
      unfolding bget_def using tail
      by (intro does_thn [OF acq] does_bnd [OF h1] does_bnd [OF scan1])
        (simp, intro does_bnd [OF h2] does_bnd [OF scan2], simp)
  qed
qed

text \<open>With every buffer referenced and the block not cached, \<^verbatim>\<open>bget()\<close> panics.\<close>

lemma bget_panics:
  assumes "settled L s" and "BcacheLock \<notin> L" and "ring (bufs s) xs" and "bchoose (bufs s) xs (dev, bn) = None"
  shows "\<exists>t. bget dev bn s = Panic ''bget: no buffers'' t"
proof -
  let ?a = "acq BcacheLock s"
  let ?m = "\<lambda>x. b_dev x = dev \<and> b_blockno x = bn"
  have ring: "ring (bufs ?a) xs" using assms(3) by simp
  have none: "List.find (\<lambda>b. key (bufs s b) = (dev, bn)) xs = None"
      "List.find (\<lambda>b. b_refcnt (bufs s b) = 0) (rev xs) = None"
    using assms(4) by (auto simp: bchoose_def split: option.splits)
  have m: "(\<lambda>b. ?m (bufs s b)) = (\<lambda>b. key (bufs s b) = (dev, bn))"
    by (simp add: key_def)
  obtain u where u: "bscan ?m b_next (b_next (bufs s HEAD)) ?a = Done None u" "eqv ?a u"
    using doesD [OF does_bscan_fwd [OF ring, of ?m]] m none by auto
  obtain v where v: "bscan (\<lambda>x. b_refcnt x = 0) b_prev (b_prev (bufs s HEAD)) u = Done None v"
    using does_bscan_bwd [OF ring, of "\<lambda>x. b_refcnt x = 0"] u(2) none unfolding does_def by fastforce
  have "bufs u = bufs s"
    using u(2) by (simp add: eqvs)
  then show ?thesis
    using run_acquire_settled [OF assms(1,2)] u v by (simp add: bget_def run get_buf_def)
qed

text \<open>What \<^verbatim>\<open>bread()\<close> makes of the buffer it gets.\<close>

definition bfill :: "(bkey \<Rightarrow> block) \<Rightarrow> buf \<Rightarrow> buf" where
  "bfill d x = (if b_valid x then x else x\<lparr>b_data := d (key x), b_valid := True\<rparr>)"

lemma does_disk_read:
  "does (disk_read b) s () (s\<lparr>bufs := upd (bufs s) b (\<lambda>x. x\<lparr>b_data := disk s (key x)\<rparr>)\<rparr>)"
  unfolding disk_read_def by (rule does_modify) (simp add: eqvs)

lemma does_disk_write:
  "does (disk_write b) s () (s\<lparr>disk := (disk s)(key (bufs s b) := b_data (bufs s b)),
     disk_writes := disk_writes s @ [(key (bufs s b), b_data (bufs s b))]\<rparr>)"
  unfolding disk_write_def Let_def by (rule does_modify) (simp add: eqvs)

lemma does_bread:
  assumes "settled L s" and "BcacheLock \<notin> L" and "SleepLk (BufLock b) \<notin> L" and "curproc s = Some p"
    and "ring (bufs s) xs" and "bchoose (bufs s) xs (dev, bn) = Some (b, hit)"
    and "slk_locked (slocks s (BufLock b)) = 0"
  shows "does (bread dev bn) s b
    (s\<lparr>slocks := lock_for b (p_pid (procs s p)) (slocks s),
       bufs := upd (bufs s) b (bfill (disk s) \<circ> bgot (dev, bn) hit)\<rparr>)"
proof -
  let ?f = "bgot (dev, bn) hit"
  let ?t = "\<lambda>f. s\<lparr>slocks := lock_for b (p_pid (procs s p)) (slocks s), bufs := upd (bufs s) b f\<rparr>"
  let ?v = "b_valid (?f (bufs s b))"
  have g: "does (bget dev bn) s b (?t ?f)" by (rule does_bget [OF assms])
  have v: "does (get_buf b b_valid) (?t ?f) ?v (?t ?f)"
    using does_get_buf [of b b_valid "?t ?f"] by simp
  have r: "does (disk_read b) (?t ?f) () (?t (\<lambda>x. (?f x)\<lparr>b_data := disk s (key (?f x))\<rparr>))"
    using does_disk_read [of b "?t ?f"] by (simp add: comp_def)
  have u: "does (upd_buf b (\<lambda>x. x\<lparr>b_valid := True\<rparr>)) (?t (\<lambda>x. (?f x)\<lparr>b_data := disk s (key (?f x))\<rparr>)) ()
      (?t (\<lambda>x. (?f x)\<lparr>b_data := disk s (key (?f x)), b_valid := True\<rparr>))"
    using does_upd_buf [of b "\<lambda>x. x\<lparr>b_valid := True\<rparr>" "?t (\<lambda>x. (?f x)\<lparr>b_data := disk s (key (?f x))\<rparr>)"]
    by (simp add: comp_def)
  have eq: "upd (bufs s) b (bfill (disk s) \<circ> ?f) =
      (if ?v then upd (bufs s) b ?f
       else upd (bufs s) b (\<lambda>x. (?f x)\<lparr>b_data := disk s (key (?f x)), b_valid := True\<rparr>))"
    by (auto simp: bfill_def fun_eq_iff)
  have w: "does (whenM (\<not> ?v) (thn (disk_read b) (upd_buf b (\<lambda>x. x\<lparr>b_valid := True\<rparr>)))) (?t ?f) ()
      (?t (bfill (disk s) \<circ> ?f))"
    unfolding eq by (rule does_whenM) (use does_thn [OF r u] in auto)
  show ?thesis
    unfolding bread_def by (intro does_bnd [OF g] does_bnd [OF v] does_thn [OF w] does_ret)
qed

lemma does_bwrite:
  assumes "settled L s" and "SleepLk (BufLock b) \<notin> L" and "curproc s = Some p"
    and "slk_locked (slocks s (BufLock b)) \<noteq> 0" and "slk_pid (slocks s (BufLock b)) = p_pid (procs s p)"
  shows "does (bwrite b) s () (s\<lparr>disk := (disk s)(key (bufs s b) := b_data (bufs s b)),
    disk_writes := disk_writes s @ [(key (bufs s b), b_data (bufs s b))]\<rparr>)"
proof -
  have "does (holdingsleep (BufLock b)) s True s"
    using does_holdingsleep [OF assms(1-3)] assms(4,5) by simp
  moreover note does_disk_write [of b s]
  moreover have "does (panic_if (\<not> True) ''bwrite'') s () s"
    by (rule does_panic_if) simp
  ultimately show ?thesis
    unfolding bwrite_def by (blast intro: does_bnd does_thn)
qed

lemma bwrite_panics:
  assumes "settled L s" and "SleepLk (BufLock b) \<notin> L" and "curproc s = Some p"
    and "slk_locked (slocks s (BufLock b)) = 0 \<or> slk_pid (slocks s (BufLock b)) \<noteq> p_pid (procs s p)"
  shows "\<exists>t. bwrite b s = Panic ''bwrite'' t"
proof -
  obtain t where "holdingsleep (BufLock b) s = Done False t"
    using doesD [OF does_holdingsleep [OF assms(1-3)]] assms(4) by auto
  then show ?thesis by (simp add: bwrite_def run)
qed

text \<open>The buffers after a buffer has been moved to the head of the list.\<close>

definition moved :: "nat \<Rightarrow> (nat \<Rightarrow> buf) \<Rightarrow> nat \<Rightarrow> buf" where
  "moved b bf =
     (let b1 = upd bf (b_next (bf b)) (\<lambda>x. x\<lparr>b_prev := b_prev (bf b)\<rparr>);
          b2 = upd b1 (b_prev (b1 b)) (\<lambda>x. x\<lparr>b_next := b_next (b1 b)\<rparr>);
          b3 = upd b2 b (\<lambda>x. x\<lparr>b_next := b_next (b2 HEAD)\<rparr>);
          b4 = upd b3 b (\<lambda>x. x\<lparr>b_prev := HEAD\<rparr>);
          b5 = upd b4 (b_next (b4 HEAD)) (\<lambda>x. x\<lparr>b_prev := b\<rparr>)
      in upd b5 HEAD (\<lambda>x. x\<lparr>b_next := b\<rparr>))"

lemma bufs_upd_simps: "bufs (s\<lparr>bufs := f\<rparr>) = f" "s\<lparr>bufs := f, bufs := g\<rparr> = s\<lparr>bufs := g\<rparr>"
  by simp_all

lemma run_move_to_head: "move_to_head b s = Done () (s\<lparr>bufs := moved b (bufs s)\<rparr>)"
  by (simp only: move_to_head_def run_bnd run_thn run_gets run_modify get_buf_def upd_buf_def outcome.case
      bufs_upd_simps moved_def Let_def)

lemma does_move_to_head: "does (move_to_head b) s () (s\<lparr>bufs := moved b (bufs s)\<rparr>)"
  unfolding does_def run_move_to_head by (auto simp: eqvs)

definition bdrop :: "nat \<Rightarrow> (nat \<Rightarrow> buf) \<Rightarrow> nat \<Rightarrow> buf" where
  "bdrop b bf = (let bf' = upd bf b (\<lambda>x. x\<lparr>b_refcnt := b_refcnt x - 1\<rparr>) in
     if b_refcnt (bf b) = 1 then moved b bf' else bf')"

lemma does_brelse:
  assumes "settled L s" and "BcacheLock \<notin> L" and "SleepLk (BufLock b) \<notin> L" and "\<forall>p. ProcLock p \<notin> L"
    and "curproc s = Some p"
    and "slk_locked (slocks s (BufLock b)) \<noteq> 0" and "slk_pid (slocks s (BufLock b)) = p_pid (procs s p)"
  shows "does (brelse b) s () (s\<lparr>slocks := unlocked b (slocks s), bufs := bdrop b (bufs s)\<rparr>)"
proof -
  let ?k = BcacheLock
  let ?s1 = "s\<lparr>slocks := unlocked b (slocks s)\<rparr>"
  let ?bf = "upd (bufs s) b (\<lambda>x. x\<lparr>b_refcnt := b_refcnt x - 1\<rparr>)"
  let ?s2 = "s\<lparr>slocks := unlocked b (slocks s), bufs := ?bf\<rparr>"
  let ?s3 = "s\<lparr>slocks := unlocked b (slocks s), bufs := bdrop b (bufs s)\<rparr>"
  have h: "does (holdingsleep (BufLock b)) s True s"
    using does_holdingsleep [OF assms(1,3,5)] assms(6,7) by simp
  have c: "does (panic_if (\<not> True) ''brelse'') s () s" by (rule does_panic_if) simp
  have r: "does (releasesleep (BufLock b)) s () ?s1"
    using does_releasesleep [OF assms(1,3,4)] by (simp add: unlocked_def)
  have a: "does (acquire ?k) ?s1 () (acq ?k ?s1)"
    using assms(1,2) by (intro does_acquire) simp_all
  have u: "does (upd_buf b (\<lambda>x. x\<lparr>b_refcnt := b_refcnt x - 1\<rparr>)) (acq ?k ?s1) () (acq ?k ?s2)"
    using does_upd_buf_acq [of b _ ?k ?s1] by simp
  have g: "does (get_buf b b_refcnt) (acq ?k ?s2) (b_refcnt (bufs s b) - 1) (acq ?k ?s2)"
    using does_get_buf [of b b_refcnt "acq ?k ?s2"] by simp
  have z: "b_refcnt (bufs s b) - 1 = 0 \<longleftrightarrow> b_refcnt (bufs s b) = 1"
    by simp
  have m: "does (whenM (b_refcnt (bufs s b) - 1 = 0) (move_to_head b)) (acq ?k ?s2) () (acq ?k ?s3)"
    unfolding z
    by (rule does_whenM) (use does_move_to_head [of b "acq ?k ?s2"] in \<open>auto simp: bdrop_def Let_def\<close>)
  have e: "does (release ?k) (acq ?k ?s3) () ?s3"
    using assms(1,2) by (intro does_release) simp_all
  show ?thesis
    unfolding brelse_def
    by (intro does_bnd [OF h] does_thn [OF c] does_thn [OF r] does_thn [OF a] does_thn [OF u]
        does_bnd [OF g] does_thn [OF m] e)
qed

lemma does_ref_section:
  assumes "settled L s" and "BcacheLock \<notin> L"
  shows "does (thn (acquire BcacheLock) (thn (upd_buf b f) (release BcacheLock))) s () (s\<lparr>bufs := upd (bufs s) b f\<rparr>)"
  by (intro does_thn [OF does_acquire [OF assms]] does_thn [OF does_upd_buf_acq] does_release)
    (use assms in simp_all)

lemma does_bpin:
  "settled L s \<Longrightarrow> BcacheLock \<notin> L \<Longrightarrow> does (bpin b) s () (s\<lparr>bufs := upd (bufs s) b (\<lambda>x. x\<lparr>b_refcnt := b_refcnt x + 1\<rparr>)\<rparr>)"
  unfolding bpin_def by (rule does_ref_section)

lemma does_bunpin:
  "settled L s \<Longrightarrow> BcacheLock \<notin> L \<Longrightarrow> does (bunpin b) s () (s\<lparr>bufs := upd (bufs s) b (\<lambda>x. x\<lparr>b_refcnt := b_refcnt x - 1\<rparr>)\<rparr>)"
  unfolding bunpin_def by (rule does_ref_section)

end
