(* ===== verification/Bcache.thy ===== *)
theory Bcache
  imports Bio
begin

text \<open>
  The buffer cache against its specification.  The invariant \<open>bc_wf\<close> keeps the list, the
  uniqueness of cached blocks and the agreement of unreferenced buffers with the disk; \<open>cabs\<close>
  reads the specification state off the buffers, and each operation of
  \<^verbatim>\<open>kernel/bio.c\<close> is shown to be the corresponding step of the specification.
\<close>

section \<open>Specification\<close>

record cache =
  c_disk :: "bkey \<Rightarrow> block"
  c_writes :: "(bkey \<times> block) list"
  c_content :: "bkey \<Rightarrow> block"
  c_ref :: "bkey \<Rightarrow> nat"
  c_held :: "bkey \<Rightarrow> nat option"

definition sp_bread :: "bkey \<Rightarrow> nat \<Rightarrow> cache \<Rightarrow> cache" where
  "sp_bread k b c = c\<lparr>c_ref := (c_ref c)(k := c_ref c k + 1), c_held := (c_held c)(k \<mapsto> b)\<rparr>"

definition sp_bwrite :: "bkey \<Rightarrow> cache \<Rightarrow> cache" where
  "sp_bwrite k c = c\<lparr>c_disk := (c_disk c)(k := c_content c k), c_writes := c_writes c @ [(k, c_content c k)]\<rparr>"

definition sp_set :: "bkey \<Rightarrow> block \<Rightarrow> cache \<Rightarrow> cache" where
  "sp_set k d c = c\<lparr>c_content := (c_content c)(k := d)\<rparr>"

definition sp_brelse :: "bkey \<Rightarrow> cache \<Rightarrow> cache" where
  "sp_brelse k c = c\<lparr>c_ref := (c_ref c)(k := c_ref c k - 1), c_held := (c_held c)(k := None)\<rparr>"

definition sp_bpin :: "bkey \<Rightarrow> cache \<Rightarrow> cache" where
  "sp_bpin k c = c\<lparr>c_ref := (c_ref c)(k := c_ref c k + 1)\<rparr>"

definition sp_bunpin :: "bkey \<Rightarrow> cache \<Rightarrow> cache" where
  "sp_bunpin k c = c\<lparr>c_ref := (c_ref c)(k := c_ref c k - 1)\<rparr>"

section \<open>Invariant and abstraction\<close>

text \<open>A buffer that caches nothing: as after boot, or recycled and not yet read.\<close>

definition clean :: "buf \<Rightarrow> bool" where
  "clean x \<longleftrightarrow> \<not> b_valid x \<and> b_refcnt x = 0"

text \<open>In list order, a block's buffer comes before any clean buffers with the same key.\<close>

definition mru :: "(nat \<Rightarrow> buf) \<Rightarrow> nat list \<Rightarrow> bool" where
  "mru bf xs \<longleftrightarrow> sorted_wrt (\<lambda>i j. key (bf i) = key (bf j) \<longrightarrow> clean (bf j)) xs"

definition buf_ok :: "int \<Rightarrow> (bkey \<Rightarrow> block) \<Rightarrow> sleeplock \<Rightarrow> buf \<Rightarrow> bool" where
  "buf_ok pid d k x \<longleftrightarrow>
     (b_refcnt x \<noteq> 0 \<longrightarrow> b_valid x) \<and>
     (b_refcnt x = 0 \<longrightarrow> slk_locked k = 0) \<and>
     (b_refcnt x = 0 \<and> b_valid x \<longrightarrow> b_data x = d (key x)) \<and>
     (slk_locked k \<noteq> 0 \<longrightarrow> slk_pid k = pid)"

definition bc_wf :: "int \<Rightarrow> (bkey \<Rightarrow> block) \<Rightarrow> (slockid \<Rightarrow> sleeplock) \<Rightarrow> (nat \<Rightarrow> buf) \<Rightarrow> nat list \<Rightarrow> bool" where
  "bc_wf pid d slk bf xs \<longleftrightarrow> ring bf xs \<and> mru bf xs \<and> (\<forall>b<NBUF. buf_ok pid d (slk (BufLock b)) (bf b))"

definition slot :: "(nat \<Rightarrow> buf) \<Rightarrow> bkey \<Rightarrow> nat option" where
  "slot bf k = List.find (\<lambda>b. key (bf b) = k \<and> \<not> clean (bf b)) [0..<NBUF]"

definition cabs_of :: "(bkey \<Rightarrow> block) \<Rightarrow> (bkey \<times> block) list \<Rightarrow> (slockid \<Rightarrow> sleeplock) \<Rightarrow> (nat \<Rightarrow> buf) \<Rightarrow> cache" where
  "cabs_of d w slk bf = \<lparr>
     c_disk = d,
     c_writes = w,
     c_content = (\<lambda>k. case slot bf k of Some b \<Rightarrow> b_data (bf b) | None \<Rightarrow> d k),
     c_ref = (\<lambda>k. case slot bf k of Some b \<Rightarrow> unat (b_refcnt (bf b)) | None \<Rightarrow> 0),
     c_held = (\<lambda>k. case slot bf k of
        Some b \<Rightarrow> (if slk_locked (slk (BufLock b)) \<noteq> 0 then Some b else None) | None \<Rightarrow> None)\<rparr>"

definition cabs :: "'z bio_scheme \<Rightarrow> cache" where
  "cabs s = cabs_of (disk s) (disk_writes s) (slocks s) (bufs s)"

definition bc_inv :: "int \<Rightarrow> 'z bio_scheme \<Rightarrow> bool" where
  "bc_inv pid s \<longleftrightarrow> (\<exists>xs. bc_wf pid (disk s) (slocks s) (bufs s) xs)"

lemma cabs_simps [simp]:
  "c_disk (cabs s) = disk s" "c_writes (cabs s) = disk_writes s"
  by (simp_all add: cabs_def cabs_of_def)

lemma cache_eqI:
  assumes "c_disk c = c_disk e" and "c_writes c = c_writes e" and "\<And>q. c_content c q = c_content e q"
    and "\<And>q. c_ref c q = c_ref e q" and "\<And>q. c_held c q = c_held e q"
  shows "c = (e :: cache)"
  by (rule cache.equality) (use assms in \<open>simp_all add: fun_eq_iff\<close>)

section \<open>The list\<close>

lemma HEAD_fresh [simp]: "b < NBUF \<Longrightarrow> b \<noteq> HEAD"
  by (simp add: HEAD_def)

lemma key_upd [simp]: "key (x\<lparr>b_refcnt := n\<rparr>) = key x" "key (x\<lparr>b_data := f\<rparr>) = key x" "key (x\<lparr>b_valid := v\<rparr>) = key x"
  by (simp_all add: key_def)

lemma upd_links_fields:
  "b_valid (upd bf i (\<lambda>x. x\<lparr>b_prev := v\<rparr>) j) = b_valid (bf j)"
  "b_valid (upd bf i (\<lambda>x. x\<lparr>b_next := v\<rparr>) j) = b_valid (bf j)"
  "b_dev (upd bf i (\<lambda>x. x\<lparr>b_prev := v\<rparr>) j) = b_dev (bf j)"
  "b_dev (upd bf i (\<lambda>x. x\<lparr>b_next := v\<rparr>) j) = b_dev (bf j)"
  "b_blockno (upd bf i (\<lambda>x. x\<lparr>b_prev := v\<rparr>) j) = b_blockno (bf j)"
  "b_blockno (upd bf i (\<lambda>x. x\<lparr>b_next := v\<rparr>) j) = b_blockno (bf j)"
  "b_refcnt (upd bf i (\<lambda>x. x\<lparr>b_prev := v\<rparr>) j) = b_refcnt (bf j)"
  "b_refcnt (upd bf i (\<lambda>x. x\<lparr>b_next := v\<rparr>) j) = b_refcnt (bf j)"
  "b_data (upd bf i (\<lambda>x. x\<lparr>b_prev := v\<rparr>) j) = b_data (bf j)"
  "b_data (upd bf i (\<lambda>x. x\<lparr>b_next := v\<rparr>) j) = b_data (bf j)"
  by simp_all

lemma moved_fields [simp]:
  "b_valid (moved b bf i) = b_valid (bf i)" "b_dev (moved b bf i) = b_dev (bf i)"
  "b_blockno (moved b bf i) = b_blockno (bf i)" "b_refcnt (moved b bf i) = b_refcnt (bf i)"
  "b_data (moved b bf i) = b_data (bf i)" "key (moved b bf i) = key (bf i)"
  by (simp_all only: moved_def Let_def key_def upd_links_fields)

lemma moved_clean [simp]: "clean (moved b bf i) = clean (bf i)"
  by (simp add: clean_def)

lemma moved_links:
  assumes "b_next (bf b) \<noteq> b" and "b_prev (bf b) \<noteq> b" and "b \<noteq> HEAD"
  defines "nx2 \<equiv> (\<lambda>i. b_next (bf i))(b_prev (bf b) := b_next (bf b))"
    and "pv2 \<equiv> (\<lambda>i. b_prev (bf i))(b_next (bf b) := b_prev (bf b))"
  shows "(\<lambda>i. b_next (moved b bf i)) = nx2(b := nx2 HEAD, HEAD := b)"
    and "(\<lambda>i. b_prev (moved b bf i)) = pv2(b := HEAD, nx2 HEAD := b)"
proof -
  let ?n = "b_next (bf b)" and ?p = "b_prev (bf b)"
  define b1 where "b1 = upd bf ?n (\<lambda>x. x\<lparr>b_prev := ?p\<rparr>)"
  define b2 where "b2 = upd b1 ?p (\<lambda>x. x\<lparr>b_next := ?n\<rparr>)"
  define b4 where "b4 = upd (upd b2 b (\<lambda>x. x\<lparr>b_next := b_next (b2 HEAD)\<rparr>)) b (\<lambda>x. x\<lparr>b_prev := HEAD\<rparr>)"
  have 1: "b_next (b1 i) = b_next (bf i)" "b_prev (b1 i) = (if i = ?n then ?p else b_prev (bf i))" for i
    by (simp_all add: b1_def)
  have 2: "b_next (b2 i) = nx2 i" "b_prev (b2 i) = pv2 i" for i
    by (simp_all add: b2_def 1 nx2_def pv2_def)
  have 4: "b_next (b4 i) = (nx2(b := nx2 HEAD)) i" "b_prev (b4 i) = (pv2(b := HEAD)) i" for i
    by (simp_all add: b4_def 2)
  have m: "moved b bf = upd (upd b4 (nx2 HEAD) (\<lambda>x. x\<lparr>b_prev := b\<rparr>)) HEAD (\<lambda>x. x\<lparr>b_next := b\<rparr>)"
    using assms(1-3) 1(2) [of b] 1(1) [of b] 4(1) [of HEAD]
    unfolding moved_def Let_def b1_def [symmetric]
    by (simp add: b2_def [symmetric] b4_def [symmetric] del: upd_upd_same)
  show "(\<lambda>i. b_next (moved b bf i)) = nx2(b := nx2 HEAD, HEAD := b)"
    by (simp add: m 4 fun_eq_iff)
  show "(\<lambda>i. b_prev (moved b bf i)) = pv2(b := HEAD, nx2 HEAD := b)"
    by (simp add: m 4 fun_eq_iff)
qed

text \<open>\<^verbatim>\<open>brelse()\<close>'s pointer surgery moves the buffer to the front of the sequence.\<close>

lemma ring_moved:
  assumes "ring bf xs" and "b < NBUF"
  shows "ring (moved b bf) (b # remove1 b xs)"
proof -
  let ?nx = "\<lambda>i. b_next (bf i)" and ?pv = "\<lambda>i. b_prev (bf i)"
  have "b \<in> set xs" using assms by (simp add: ring_def)
  then obtain ys zs where xs: "xs = ys @ b # zs" "b \<notin> set ys"
    by (auto dest: split_list_first)
  have d: "distinct (ys @ b # zs)" "HEAD \<notin> set (ys @ b # zs)"
    using assms(1) HEAD_notin [OF assms(1)] by (auto simp: ring_def xs)
  have l: "dll ?nx ?pv HEAD ys b" "dll ?nx ?pv b zs HEAD"
    using assms(1) by (auto simp: ring_def xs dll_append)
  have p: "?pv b = last (HEAD # ys)" and n: "?nx b = hd (zs @ [HEAD])"
    using dll_prev [OF l(1)] dll_next [OF l(2)] by auto
  have nb: "?nx b \<noteq> b" "?pv b \<noteq> b" "b \<noteq> HEAD"
    using d assms(2) n p by (cases zs; auto)+
  let ?nx2 = "?nx(?pv b := ?nx b)" and ?pv2 = "?pv(?nx b := ?pv b)"
  have "dll ?nx2 ?pv2 HEAD (ys @ zs) HEAD"
    using dll_unlink [OF l d(1) d(2) d(2)] by (simp only: p)
  then have "dll (?nx2(b := ?nx2 HEAD, HEAD := b)) (?pv2(b := HEAD, ?nx2 HEAD := b)) HEAD (b # (ys @ zs)) HEAD"
    using d nb by (intro dll_push) auto
  then have "links (moved b bf) (b # (ys @ zs))"
    by (simp only: moved_links [of bf b, OF nb])
  moreover have "remove1 b xs = ys @ zs"
    using xs by (simp add: remove1_append)
  ultimately show ?thesis
    using assms(1) d by (auto simp: ring_def xs)
qed

section \<open>Uniqueness of cached blocks\<close>

lemma mru_mem: "bc_wf pid d slk bf xs \<Longrightarrow> b < NBUF \<longleftrightarrow> b \<in> set xs"
  by (simp add: bc_wf_def ring_def)

lemma mru_uniq:
  assumes "mru bf xs" and "i \<in> set xs" and "j \<in> set xs" and "i \<noteq> j" and "key (bf i) = key (bf j)"
  shows "clean (bf i) \<or> clean (bf j)"
proof -
  obtain m n where "m < length xs" "n < length xs" "xs ! m = i" "xs ! n = j"
    using assms(2,3) by (auto simp: in_set_conv_nth)
  with assms(1,4,5) show ?thesis
    unfolding mru_def by (cases "m < n") (auto simp: sorted_wrt_iff_nth_less, metis linorder_neqE_nat)
qed

definition cached :: "(nat \<Rightarrow> buf) \<Rightarrow> bkey \<Rightarrow> nat \<Rightarrow> bool" where
  "cached bf k b \<longleftrightarrow> b < NBUF \<and> key (bf b) = k \<and> \<not> clean (bf b)"

definition uniq :: "(nat \<Rightarrow> buf) \<Rightarrow> bool" where
  "uniq bf \<longleftrightarrow> (\<forall>k i j. cached bf k i \<longrightarrow> cached bf k j \<longrightarrow> i = j)"

lemma bc_wf_uniq: "bc_wf pid d slk bf xs \<Longrightarrow> uniq bf"
  unfolding uniq_def cached_def using mru_uniq [of bf xs] mru_mem [of pid d slk bf xs]
  by (metis bc_wf_def)

lemma slot_Some: "slot bf k = Some b \<Longrightarrow> cached bf k b"
  by (auto simp: slot_def cached_def dest!: find_in_set)

lemma slot_None: "slot bf k = None \<longleftrightarrow> (\<forall>b. \<not> cached bf k b)"
  by (auto simp: slot_def cached_def find_None_iff)

lemma slot_eq: "uniq bf \<Longrightarrow> cached bf k b \<Longrightarrow> slot bf k = Some b"
  using slot_Some [of bf k] slot_None [of bf k] unfolding uniq_def by (metis option.exhaust)

lemma slot_cong: "(\<And>b. cached bf k b = cached bf' k b) \<Longrightarrow> uniq bf \<Longrightarrow> uniq bf' \<Longrightarrow> slot bf k = slot bf' k"
  by (metis slot_None slot_Some slot_eq option.exhaust)

lemma mru_upd:
  assumes "mru bf xs" and "distinct xs" and "xs = ys @ b # zs"
    and "\<And>i. i \<in> set ys \<Longrightarrow> key (bf i) = key x \<Longrightarrow> clean x"
    and "\<And>j. j \<in> set zs \<Longrightarrow> key x = key (bf j) \<Longrightarrow> clean (bf j)"
  shows "mru (bf(b := x)) xs"
proof -
  have d: "b \<notin> set ys" "b \<notin> set zs" "set ys \<inter> set zs = {}" using assms(2,3) by auto
  have m: "mru bf ys" "mru bf zs" "\<forall>i\<in>set ys. \<forall>j\<in>set zs. key (bf i) = key (bf j) \<longrightarrow> clean (bf j)"
    using assms(1,3) by (auto simp: mru_def sorted_wrt_append)
  have "mru (bf(b := x)) ys" "mru (bf(b := x)) zs"
    using m(1,2) d(1,2) unfolding mru_def
    by (auto elim!: sorted_wrt_mono_rel [rotated] split: if_splits)
  then show ?thesis
    using m(3) d assms(3-5) by (auto simp: mru_def sorted_wrt_append)
qed

lemma cached_replace:
  "b < NBUF \<Longrightarrow> \<not> clean x \<Longrightarrow> cached (bf(b := x)) q j \<longleftrightarrow> (if j = b then q = key x else cached bf q j)"
  by (auto simp: cached_def)

lemma slot_replace:
  assumes "uniq bf" and "b < NBUF" and "\<not> clean x" and "\<And>j. j \<noteq> b \<Longrightarrow> \<not> cached bf (key x) j"
  shows "uniq (bf(b := x))" and "slot (bf(b := x)) q = (if q = key x then Some b
      else if slot bf q = Some b then None else slot bf q)"
proof -
  note c = cached_replace [OF assms(2,3), of bf]
  show u: "uniq (bf(b := x))"
    using assms(1,4) by (auto simp: uniq_def c split: if_splits)
  show "slot (bf(b := x)) q = (if q = key x then Some b
      else if slot bf q = Some b then None else slot bf q)"
  proof (cases "q = key x")
    case True
    then show ?thesis by (simp add: slot_eq [OF u] c)
  next
    case False
    show ?thesis
    proof (cases "slot bf q")
      case None
      then have "slot (bf(b := x)) q = None" using False by (simp add: slot_None c)
      then show ?thesis using None False by simp
    next
      case (Some j)
      have j: "cached bf q j" using Some by (rule slot_Some)
      have other: "i = j" if "cached bf q i" for i
        using assms(1) j that unfolding uniq_def by blast
      show ?thesis
      proof (cases "j = b")
        case True
        then have "slot (bf(b := x)) q = None"
          using False other by (auto simp: slot_None c)
        then show ?thesis using True Some False by simp
      next
        case False
        then have "cached (bf(b := x)) q j" using j by (simp add: c)
        then show ?thesis using \<open>j \<noteq> b\<close> Some \<open>q \<noteq> key x\<close> by (simp add: slot_eq [OF u])
      qed
    qed
  qed
qed

lemma bchoose_cases:
  assumes "bc_wf pid d slk bf xs" and "bchoose bf xs k = Some (b, hit)"
  obtains ys zs where "xs = ys @ b # zs" and "b < NBUF"
    and "hit \<longrightarrow> key (bf b) = k \<and> (\<forall>i\<in>set ys. key (bf i) \<noteq> k) \<and> (\<forall>j\<in>set zs. key (bf j) = k \<longrightarrow> clean (bf j))"
    and "\<not> hit \<longrightarrow> b_refcnt (bf b) = 0 \<and> (\<forall>i<NBUF. key (bf i) \<noteq> k)"
proof (cases hit)
  case True
  then have "List.find (\<lambda>b. key (bf b) = k) xs = Some b"
    using assms(2) by (auto simp: bchoose_def split: option.splits)
  then obtain ys zs where xs: "xs = ys @ b # zs" "key (bf b) = k" "\<forall>i\<in>set ys. key (bf i) \<noteq> k"
    by (auto dest!: find_SomeD)
  have "\<forall>j\<in>set zs. key (bf j) = k \<longrightarrow> clean (bf j)"
    using assms(1) xs(1,2) by (auto simp: bc_wf_def mru_def sorted_wrt_append)
  moreover have "b < NBUF" using mru_mem [OF assms(1)] xs(1) by simp
  ultimately show ?thesis using that True xs by blast
next
  case False
  then have f: "List.find (\<lambda>b. key (bf b) = k) xs = None" "List.find (\<lambda>b. b_refcnt (bf b) = 0) (rev xs) = Some b"
    using assms(2) by (auto simp: bchoose_def split: option.splits)
  have "b \<in> set xs" "b_refcnt (bf b) = 0" using find_in_set [OF f(2)] by auto
  moreover have "\<forall>i<NBUF. key (bf i) \<noteq> k"
    using f(1) mru_mem [OF assms(1)] by (auto simp: find_None_iff)
  moreover obtain ys zs where "xs = ys @ b # zs" using split_list \<open>b \<in> set xs\<close> by metis
  ultimately show ?thesis using that False mru_mem [OF assms(1)] by blast
qed

lemma bc_wf_ok: "bc_wf pid d slk bf xs \<Longrightarrow> b < NBUF \<Longrightarrow> buf_ok pid d (slk (BufLock b)) (bf b)"
  by (simp add: bc_wf_def)

lemma ring_fields:
  "(\<And>i. b_next (bf' i) = b_next (bf i)) \<Longrightarrow> (\<And>i. b_prev (bf' i) = b_prev (bf i)) \<Longrightarrow> ring bf' xs = ring bf xs"
  by (simp add: ring_def)

lemma bgot_links [simp]:
  "b_next (bgot k hit x) = b_next x" "b_prev (bgot k hit x) = b_prev x"
  "b_next (bfill d x) = b_next x" "b_prev (bfill d x) = b_prev x"
  by (simp_all add: bgot_def bfill_def)

section \<open>The operations against the specification\<close>

text \<open>Reading a block: the buffer, its lock and the cache after \<^verbatim>\<open>bread()\<close>.\<close>

lemma bread_buffer:
  assumes wf: "bc_wf pid d slk bf xs" and ch: "bchoose bf xs k = Some (b, hit)"
    and ref: "b_refcnt (bf b) + 1 \<noteq> 0"
  defines "x \<equiv> bfill d (bgot k hit (bf b))"
  shows "b < NBUF" "key x = k" "b_valid x" "b_refcnt x \<noteq> 0" "\<not> clean x"
    "\<And>j. j \<noteq> b \<Longrightarrow> \<not> cached bf k j" "mru (bf(b := x)) xs" "ring (bf(b := x)) xs"
proof -
  obtain ys zs where xs: "xs = ys @ b # zs" and b: "b < NBUF"
    and hit: "hit \<longrightarrow> key (bf b) = k \<and> (\<forall>i\<in>set ys. key (bf i) \<noteq> k) \<and> (\<forall>j\<in>set zs. key (bf j) = k \<longrightarrow> clean (bf j))"
    and miss: "\<not> hit \<longrightarrow> b_refcnt (bf b) = 0 \<and> (\<forall>i<NBUF. key (bf i) \<noteq> k)"
    by (rule bchoose_cases [OF wf ch])
  have mem: "i < NBUF \<longleftrightarrow> i \<in> set ys \<or> i = b \<or> i \<in> set zs" for i
    using mru_mem [OF wf] by (auto simp: xs)
  show "b < NBUF" by (rule b)
  show k: "key x = k"
    using hit by (auto simp: x_def bfill_def bgot_def key_def)
  show "b_valid x" by (simp add: x_def bfill_def)
  show "b_refcnt x \<noteq> 0"
    using ref by (simp add: x_def bfill_def bgot_def)
  then show nc: "\<not> clean x" by (simp add: clean_def)
  have ys: "key (bf i) \<noteq> k" if "i \<in> set ys" for i
    using hit miss mem that by (cases hit) auto
  have zs: "clean (bf j)" if "j \<in> set zs" "key (bf j) = k" for j
    using hit miss mem that by (cases hit) auto
  show "\<not> cached bf k j" if "j \<noteq> b" for j
    using ys zs mem that by (auto simp: cached_def)
  show "mru (bf(b := x)) xs"
    using wf ys zs k xs by (intro mru_upd) (auto simp: bc_wf_def ring_def)
  show "ring (bf(b := x)) xs"
    using wf ring_fields [of "bf(b := x)" bf xs] by (auto simp: x_def bc_wf_def)
qed

lemma bread_abs:
  assumes wf: "bc_wf pid d slk bf xs" and ch: "bchoose bf xs k = Some (b, hit)"
    and free: "c_held (cabs_of d w slk bf) k = None" and ref: "c_ref (cabs_of d w slk bf) k + 1 < 2 ^ 32"
  defines "bf' \<equiv> upd bf b (bfill d \<circ> bgot k hit)" and "slk' \<equiv> lock_for b pid slk"
  shows "slk_locked (slk (BufLock b)) = 0" and "bc_wf pid d slk' bf' xs"
    and "cabs_of d w slk' bf' = sp_bread k b (cabs_of d w slk bf)"
    and "b < NBUF" and "key (bf' b) = k" and "b_data (bf' b) = c_content (cabs_of d w slk bf) k"
proof -
  have b: "b < NBUF" and hit: "hit \<longrightarrow> key (bf b) = k"
    and miss: "\<not> hit \<longrightarrow> b_refcnt (bf b) = 0 \<and> (\<forall>i<NBUF. key (bf i) \<noteq> k)"
    by (rule bchoose_cases [OF wf ch]; blast)+
  note uq = bc_wf_uniq [OF wf]
  note ok = bc_wf_ok [OF wf b]
  have sl: "slot bf k = Some b" if "hit" "\<not> clean (bf b)"
    using that hit b by (intro slot_eq [OF uq]) (auto simp: cached_def)
  show locked: "slk_locked (slk (BufLock b)) = 0"
  proof (cases "b_refcnt (bf b) = 0")
    case True
    then show ?thesis using ok by (simp add: buf_ok_def)
  next
    case False
    then show ?thesis
      using free miss sl by (cases hit) (auto simp: cabs_of_def clean_def split: if_splits)
  qed
  have bnd: "unat (b_refcnt (bf b)) + 1 < 2 ^ 32"
  proof (cases "hit \<and> \<not> clean (bf b)")
    case True
    then show ?thesis using ref sl by (simp add: cabs_of_def)
  next
    case False
    then have "b_refcnt (bf b) = 0" using miss by (auto simp: clean_def)
    then show ?thesis by simp
  qed
  then have suc: "unat (b_refcnt (bf b) + 1) = unat (b_refcnt (bf b)) + 1"
    by (simp add: unat_word_ariths)
  then have nz: "b_refcnt (bf b) + 1 \<noteq> 0" by (metis add_is_0 one_neq_zero unat_0)
  let ?x = "bfill d (bgot k hit (bf b))"
  have bf': "bf' = bf(b := ?x)" by (simp add: bf'_def upd_def)
  note x = bread_buffer [OF wf ch nz]
  have u': "uniq bf'" and slots: "\<And>q. slot bf' q = (if q = k then Some b
      else if slot bf q = Some b then None else slot bf q)"
    using slot_replace [OF uq x(1,5)] x(2,6) by (auto simp: bf')
  show "bc_wf pid d slk' bf' xs"
    using wf x(2-8) by (auto simp: bc_wf_def bf' slk'_def lock_for_def buf_ok_def)
  show "b < NBUF" by (rule b)
  show "key (bf' b) = k" using x(2) by (simp add: bf')
  have old: "slot bf k = (if hit \<and> \<not> clean (bf b) then Some b else None)"
    using sl x(6) hit miss b by (auto simp: slot_None cached_def) metis+
  have valid: "hit \<and> \<not> clean (bf b) \<longleftrightarrow> b_valid (bgot k hit (bf b))"
    using ok by (auto simp: clean_def buf_ok_def bgot_def)
  show data: "b_data (bf' b) = c_content (cabs_of d w slk bf) k"
    using hit old valid by (auto simp: bf' cabs_of_def bfill_def bgot_def key_def)
  have gone: "key (bf b) = q \<and> b_valid (bf b) \<and> b_refcnt (bf b) = 0 \<and> b_data (bf b) = d q"
    if "q \<noteq> k" "slot bf q = Some b" for q
    using slot_Some [OF that(2)] that(1) hit miss ok by (auto simp: cached_def clean_def buf_ok_def)
  have "b_refcnt ?x = (if hit then b_refcnt (bf b) + 1 else 1)"
    by (simp add: bfill_def bgot_def)
  then have "unat (b_refcnt ?x) = (case slot bf k of Some b \<Rightarrow> unat (b_refcnt (bf b)) | None \<Rightarrow> 0) + 1"
    using old suc by (auto simp: clean_def)
  moreover have "cabs_of d w slk' bf' = sp_bread k b (cabs_of d w slk bf)"
    if r: "unat (b_refcnt ?x) = (case slot bf k of Some b \<Rightarrow> unat (b_refcnt (bf b)) | None \<Rightarrow> 0) + 1"
  proof (rule cache.equality)
    have c: "c_content (cabs_of d w slk' bf') q = c_content (cabs_of d w slk bf) q" for q
    proof (cases "q = k")
      case True
      then show ?thesis using data slots [of k] by (simp add: cabs_of_def)
    next
      case False
      then show ?thesis
        using gone [of q] slots [of q] by (cases "slot bf q") (auto simp: cabs_of_def bf')
    qed
    have n: "c_ref (cabs_of d w slk' bf') q = c_ref (sp_bread k b (cabs_of d w slk bf)) q" for q
    proof (cases "q = k")
      case True
      then show ?thesis using r slots [of k] by (simp add: cabs_of_def sp_bread_def bf')
    next
      case False
      then show ?thesis
        using gone [of q] slots [of q] by (cases "slot bf q") (auto simp: cabs_of_def sp_bread_def bf')
    qed
    have h: "c_held (cabs_of d w slk' bf') q = c_held (sp_bread k b (cabs_of d w slk bf)) q" for q
    proof (cases "q = k")
      case True
      then show ?thesis using slots [of k] by (simp add: cabs_of_def sp_bread_def slk'_def lock_for_def)
    next
      case False
      then show ?thesis
        using gone [of q] slots [of q] locked
        by (cases "slot bf q") (auto simp: cabs_of_def sp_bread_def slk'_def lock_for_def)
    qed
    show "c_content (cabs_of d w slk' bf') = c_content (sp_bread k b (cabs_of d w slk bf))"
      using c by (simp add: sp_bread_def fun_eq_iff)
    show "c_ref (cabs_of d w slk' bf') = c_ref (sp_bread k b (cabs_of d w slk bf))"
      using n by (rule ext)
    show "c_held (cabs_of d w slk' bf') = c_held (sp_bread k b (cabs_of d w slk bf))"
      using h by (rule ext)
  qed (simp_all add: cabs_of_def sp_bread_def)
  ultimately show "cabs_of d w slk' bf' = sp_bread k b (cabs_of d w slk bf)" by blast
qed

text \<open>Updates that keep a cached block in its buffer.\<close>

lemma slot_same:
  assumes "uniq bf" and "cached bf k b" and "key x = k" and "\<not> clean x"
  shows "slot (bf(b := x)) = slot bf" and "uniq (bf(b := x))"
proof -
  have b: "b < NBUF" using assms(2) by (simp add: cached_def)
  have o: "\<not> cached bf (key x) j" if "j \<noteq> b" for j
    using assms that unfolding uniq_def by blast
  note r = slot_replace [OF assms(1) b assms(4) o]
  show "uniq (bf(b := x))" using r(1) by blast
  have "slot (bf(b := x)) q = slot bf q" for q
  proof (cases "q = k")
    case True
    then show ?thesis using r(2) [of q] slot_eq [OF assms(1,2)] assms(3) by simp
  next
    case False
    then have "slot bf q \<noteq> Some b" using slot_Some [of bf q b] assms(2) by (metis cached_def)
    then show ?thesis using r(2) [of q] False assms(3) by simp
  qed
  then show "slot (bf(b := x)) = slot bf" by (rule ext)
qed

lemma mru_same:
  assumes "bc_wf pid d slk bf xs" and "cached bf k b" and "key x = k" and "\<not> clean x"
  shows "mru (bf(b := x)) xs"
proof -
  have "b \<in> set xs" using assms(1,2) mru_mem [of pid d slk bf xs] by (auto simp: cached_def)
  then obtain ys zs where xs: "xs = ys @ b # zs" by (auto dest: split_list)
  have m: "mru bf xs" "distinct xs" using assms(1) by (auto simp: bc_wf_def ring_def)
  have "key (bf b) = k" "\<not> clean (bf b)" using assms(2) by (auto simp: cached_def)
  then have "\<forall>i\<in>set ys. key (bf i) \<noteq> k" "\<forall>j\<in>set zs. k = key (bf j) \<longrightarrow> clean (bf j)"
    using m(1) by (auto simp: xs mru_def sorted_wrt_append)
  then show ?thesis
    using assms(3) by (intro mru_upd [OF m xs]) auto
qed

lemma bc_wf_same:
  assumes "bc_wf pid d slk bf xs" and "cached bf k b" and "key x = k" and "\<not> clean x"
    and "b_next x = b_next (bf b)" and "b_prev x = b_prev (bf b)"
    and "buf_ok pid d (slk' (BufLock b)) x" and "\<And>j. j \<noteq> b \<Longrightarrow> slk' (BufLock j) = slk (BufLock j)"
  shows "bc_wf pid d slk' (bf(b := x)) xs"
  using mru_same [OF assms(1-4)] assms(1,5-8) ring_fields [of "bf(b := x)" bf xs]
  by (auto simp: bc_wf_def)

lemma slot_cached: "uniq bf \<Longrightarrow> slot bf k = Some b \<longleftrightarrow> cached bf k b"
  using slot_Some slot_eq by blast

lemma other_slot: "uniq bf \<Longrightarrow> cached bf k b \<Longrightarrow> q \<noteq> k \<Longrightarrow> slot bf q \<noteq> Some b"
  by (auto simp: slot_cached cached_def)

lemma set_abs:
  fixes f :: block
  assumes "bc_wf pid d slk bf xs" and "cached bf k b" and "b_refcnt (bf b) \<noteq> 0"
  defines "bf' \<equiv> upd bf b (\<lambda>x. x\<lparr>b_data := f\<rparr>)"
  shows "bc_wf pid d slk bf' xs" and "cabs_of d w slk bf' = sp_set k f (cabs_of d w slk bf)"
proof -
  let ?x = "(bf b)\<lparr>b_data := f\<rparr>"
  note uq = bc_wf_uniq [OF assms(1)]
  have b: "b < NBUF" using assms(2) by (simp add: cached_def)
  have k: "key ?x = k" "\<not> clean ?x" using assms(2) by (auto simp: cached_def key_def clean_def)
  have bf': "bf' = bf(b := ?x)" by (simp add: bf'_def upd_def)
  show "bc_wf pid d slk bf' xs"
    unfolding bf' using bc_wf_ok [OF assms(1) b] assms(3)
    by (intro bc_wf_same [OF assms(1,2) k]) (auto simp: buf_ok_def)
  show "cabs_of d w slk bf' = sp_set k f (cabs_of d w slk bf)"
    using slot_same(1) [OF uq assms(2) k] slot_eq [OF uq assms(2)] other_slot [OF uq assms(2)]
    by (auto simp: cabs_of_def sp_set_def bf' fun_eq_iff split: option.splits)
qed

lemma ref_abs:
  fixes n :: u32
  assumes "bc_wf pid d slk bf xs" and "cached bf k b" and "b_refcnt (bf b) \<noteq> 0" and "n \<noteq> 0"
  defines "bf' \<equiv> upd bf b (\<lambda>x. x\<lparr>b_refcnt := n\<rparr>)"
  shows "bc_wf pid d slk bf' xs"
    and "cabs_of d w slk bf' = (cabs_of d w slk bf)\<lparr>c_ref := (c_ref (cabs_of d w slk bf))(k := unat n)\<rparr>"
proof -
  let ?x = "(bf b)\<lparr>b_refcnt := n\<rparr>"
  note uq = bc_wf_uniq [OF assms(1)]
  have b: "b < NBUF" using assms(2) by (simp add: cached_def)
  have k: "key ?x = k" "\<not> clean ?x" using assms(2,4) by (auto simp: cached_def key_def clean_def)
  have bf': "bf' = bf(b := ?x)" by (simp add: bf'_def upd_def)
  show "bc_wf pid d slk bf' xs"
    unfolding bf' using bc_wf_ok [OF assms(1) b] assms(3,4)
    by (intro bc_wf_same [OF assms(1,2) k]) (auto simp: buf_ok_def)
  show "cabs_of d w slk bf' = (cabs_of d w slk bf)\<lparr>c_ref := (c_ref (cabs_of d w slk bf))(k := unat n)\<rparr>"
    using slot_same(1) [OF uq assms(2) k] slot_eq [OF uq assms(2)] other_slot [OF uq assms(2)]
    by (auto simp: cabs_of_def bf' fun_eq_iff split: option.splits)
qed

lemma bwrite_abs:
  assumes "bc_wf pid d slk bf xs" and "cached bf k b"
  shows "bc_wf pid (d(k := b_data (bf b))) slk bf xs"
    and "cabs_of (d(k := b_data (bf b))) (w @ [(k, b_data (bf b))]) slk bf = sp_bwrite k (cabs_of d w slk bf)"
proof -
  note uq = bc_wf_uniq [OF assms(1)]
  have "j = b" if "j < NBUF" "key (bf j) = k" "b_valid (bf j)" for j
    using uq assms(2) that unfolding uniq_def by (metis cached_def clean_def)
  then show "bc_wf pid (d(k := b_data (bf b))) slk bf xs"
    using assms(1) by (auto simp: bc_wf_def buf_ok_def)
  show "cabs_of (d(k := b_data (bf b))) (w @ [(k, b_data (bf b))]) slk bf = sp_bwrite k (cabs_of d w slk bf)"
    using slot_eq [OF uq assms(2)] by (auto simp: cabs_of_def sp_bwrite_def fun_eq_iff split: option.splits)
qed

lemma unat_dec: "(n :: u32) \<noteq> 0 \<Longrightarrow> unat (n - 1) = unat n - 1"
  by (metis unat_minus_one)

text \<open>The buffers of \<open>bdrop\<close>: the count is decremented, and at 0 the buffer goes to the front.\<close>

lemma bdrop_fields:
  "key (bdrop b bf i) = key (bf i)" "b_valid (bdrop b bf i) = b_valid (bf i)"
  "b_data (bdrop b bf i) = b_data (bf i)"
  "b_refcnt (bdrop b bf i) = (if i = b then b_refcnt (bf i) - 1 else b_refcnt (bf i))"
  by (auto simp: bdrop_def Let_def key_def)

lemma ring_bdrop:
  assumes "ring bf xs" and "b < NBUF"
  shows "ring (bdrop b bf) (if b_refcnt (bf b) = 1 then b # remove1 b xs else xs)"
proof -
  let ?bf = "upd bf b (\<lambda>x. x\<lparr>b_refcnt := b_refcnt x - 1\<rparr>)"
  have r: "ring ?bf xs"
    using assms(1) ring_fields [of ?bf bf xs] by simp
  then show ?thesis
    using ring_moved [OF r assms(2)] by (simp add: bdrop_def Let_def)
qed

lemma mru_front:
  assumes "mru bf xs" and "uniq bf" and "cached bf k b" and "set xs = {0..<NBUF}"
  shows "mru bf (b # remove1 b xs)"
proof -
  obtain ys zs where xs: "xs = ys @ b # zs" "b \<notin> set ys"
    using assms(3,4) split_list_first [of b xs] by (auto simp: cached_def)
  have "clean (bf j)" if "j \<in> set (ys @ zs)" "j \<noteq> b" "key (bf j) = k" for j
  proof (rule ccontr)
    assume "\<not> clean (bf j)"
    then have "cached bf k j" using that assms(4) xs by (auto simp: cached_def)
    then show False using assms(2,3) that(2) unfolding uniq_def by blast
  qed
  moreover have "b \<notin> set zs \<or> clean (bf b)"
    using assms(1) xs by (auto simp: mru_def sorted_wrt_append)
  then have "b \<notin> set zs" using assms(3) by (simp add: cached_def)
  ultimately show ?thesis
    using assms(1,3) xs by (auto simp: mru_def sorted_wrt_append remove1_append cached_def)
qed

lemma brelse_abs:
  assumes wf: "bc_wf pid d slk bf xs" and c: "cached bf k b" and r: "b_refcnt (bf b) \<noteq> 0"
    and coh: "b_refcnt (bf b) = 1 \<longrightarrow> b_data (bf b) = d k"
  defines "bf' \<equiv> bdrop b bf" and "slk' \<equiv> unlocked b slk"
  shows "\<exists>xs'. bc_wf pid d slk' bf' xs'"
    and "cabs_of d w slk' bf' = sp_brelse k (cabs_of d w slk bf)"
proof -
  let ?x = "(bf b)\<lparr>b_refcnt := b_refcnt (bf b) - 1\<rparr>"
  let ?xs = "if b_refcnt (bf b) = 1 then b # remove1 b xs else xs"
  note uq = bc_wf_uniq [OF wf]
  have b: "b < NBUF" using c by (simp add: cached_def)
  have v: "b_valid (bf b)" using bc_wf_ok [OF wf b] r by (simp add: buf_ok_def)
  have k: "key ?x = k" "\<not> clean ?x" using c v by (auto simp: cached_def key_def clean_def)
  let ?bf = "bf(b := ?x)"
  have same: "key (bf' i) = key (?bf i)" "clean (bf' i) = clean (?bf i)" for i
    by (auto simp: bf'_def bdrop_fields clean_def)
  have cached: "cached bf' q i = cached ?bf q i" for q i by (simp add: cached_def same)
  have uq': "uniq ?bf" and sl: "slot ?bf = slot bf"
    using slot_same [OF uq c k] by auto
  have c': "cached ?bf k b" using k b by (simp add: cached_def)
  have m: "mru ?bf xs" by (rule mru_same [OF wf c k])
  have "set xs = {0..<NBUF}" using wf by (simp add: bc_wf_def ring_def)
  from mru_front [OF m uq' c' this] m have "mru ?bf ?xs" by presburger
  then have "mru bf' ?xs" by (simp add: mru_def same)
  moreover have "ring bf' ?xs"
    unfolding bf'_def using ring_bdrop [OF _ b] wf by (simp add: bc_wf_def)
  moreover have "buf_ok pid d (slk' (BufLock i)) (bf' i)" if "i < NBUF" for i
    using bc_wf_ok [OF wf that] coh v r k
    by (cases "i = b") (auto simp: buf_ok_def bf'_def bdrop_fields slk'_def unlocked_def)
  ultimately show "\<exists>xs'. bc_wf pid d slk' bf' xs'"
    by (auto simp: bc_wf_def)
  have sl': "slot bf' = slot bf"
    using sl by (simp add: slot_def same fun_eq_iff)
  show "cabs_of d w slk' bf' = sp_brelse k (cabs_of d w slk bf)"
  proof (rule cache_eqI)
    fix q
    have sk: "slot bf k = Some b" by (rule slot_eq [OF uq c])
    have f: "b_data (bf' i) = b_data (bf i)"
        "b_refcnt (bf' i) = (if i = b then b_refcnt (bf i) - 1 else b_refcnt (bf i))" for i
      by (simp_all add: bf'_def bdrop_fields)
    show "c_content (cabs_of d w slk' bf') q = c_content (sp_brelse k (cabs_of d w slk bf)) q"
      by (cases "slot bf q") (simp_all add: cabs_of_def sp_brelse_def sl' f)
    show "c_ref (cabs_of d w slk' bf') q = c_ref (sp_brelse k (cabs_of d w slk bf)) q"
      using other_slot [OF uq c, of q] sk
      by (cases "slot bf q") (auto simp: cabs_of_def sp_brelse_def sl' f unat_dec [OF r])
    show "c_held (cabs_of d w slk' bf') q = c_held (sp_brelse k (cabs_of d w slk bf)) q"
      using other_slot [OF uq c, of q] sk
      by (cases "slot bf q") (auto simp: cabs_of_def sp_brelse_def sl' slk'_def unlocked_def)
  qed (simp_all add: cabs_of_def sp_brelse_def)
qed

section \<open>The operations on the kernel state\<close>

text \<open>
  A process may use the cache: it runs, the locks the cache takes are free, and the invariant holds
  with every locked buffer locked by this process.
\<close>

definition bready :: "lockid set \<Rightarrow> nat \<Rightarrow> 'z bio_scheme \<Rightarrow> bool" where
  "bready L p s \<longleftrightarrow> settled L s \<and> curproc s = Some p \<and> BcacheLock \<notin> L \<and> (\<forall>x. SleepLk x \<notin> L)
     \<and> (\<forall>q. ProcLock q \<notin> L) \<and> bc_inv (p_pid (procs s p)) s"

text \<open>Nothing but the cache has changed.\<close>

definition bio_same :: "'z bio_scheme \<Rightarrow> 'z bio_scheme \<Rightarrow> bool" where
  "bio_same s t \<longleftrightarrow> calm s t \<and> (\<forall>i. slocks t (InodeLock i) = slocks s (InodeLock i)) \<and> bio.more t = bio.more s"

lemma bio_same_refl [simp]: "bio_same s s"
  by (simp add: bio_same_def)

lemma bio_same_trans: "bio_same s t \<Longrightarrow> bio_same t u \<Longrightarrow> bio_same s u"
  using calm_trans by (auto simp: bio_same_def)

lemma more_bio: "pst.more t = pst.more s \<Longrightarrow> bio.more t = bio.more s"
  by (cases s; cases t) simp

lemma cabs_eqv: "eqv s t \<Longrightarrow> cabs t = cabs s"
  by (simp add: cabs_def eqvs)

lemma bready_eqv: "eqv s t \<Longrightarrow> bready L p t = bready L p s"
  by (simp add: bready_def eqv_settled eqv_curproc bc_inv_def eqvs eqv_pid)

lemma bio_same_eqv: "bio_same s s' \<Longrightarrow> eqv s' t \<Longrightarrow> bio_same s t"
  unfolding bio_same_def eqv_def using calm_trans more_bio more_slocks by metis

text \<open>The rule by which a canonical run gives a step of the specification.\<close>

lemma spec_wp:
  assumes "does f s r s'" and "bready L p s'" and "bio_same s s'" and "cabs s' = c r"
  shows "wp f (\<lambda>x t. bready L p t \<and> bio_same s t \<and> cabs t = c x) s"
  using assms(1)
proof (rule does_wp)
  fix t
  assume "eqv s' t"
  then show "bready L p t \<and> bio_same s t \<and> cabs t = c r"
    using assms(2-4) bready_eqv [of s' t] cabs_eqv [of s' t] bio_same_eqv [of s s' t] by simp
qed

lemma held_cached:
  assumes "bready L p s" and "c_held (cabs s) k = Some b"
  shows "cached (bufs s) k b" "b < NBUF" "key (bufs s b) = k" "b_data (bufs s b) = c_content (cabs s) k"
    "unat (b_refcnt (bufs s b)) = c_ref (cabs s) k" "b_refcnt (bufs s b) \<noteq> 0"
    "slk_locked (slocks s (BufLock b)) \<noteq> 0" "slk_pid (slocks s (BufLock b)) = p_pid (procs s p)"
proof -
  obtain xs where wf: "bc_wf (p_pid (procs s p)) (disk s) (slocks s) (bufs s) xs"
    using assms(1) by (auto simp: bready_def bc_inv_def)
  have sl: "slot (bufs s) k = Some b" and l: "slk_locked (slocks s (BufLock b)) \<noteq> 0"
    using assms(2) by (auto simp: cabs_def cabs_of_def split: option.splits if_splits)
  show c: "cached (bufs s) k b" using sl by (rule slot_Some)
  then show b: "b < NBUF" and "key (bufs s b) = k" by (auto simp: cached_def)
  show "b_data (bufs s b) = c_content (cabs s) k" "unat (b_refcnt (bufs s b)) = c_ref (cabs s) k"
    using sl by (simp_all add: cabs_def cabs_of_def)
  show "slk_locked (slocks s (BufLock b)) \<noteq> 0" by (rule l)
  then show "b_refcnt (bufs s b) \<noteq> 0" "slk_pid (slocks s (BufLock b)) = p_pid (procs s p)"
    using bc_wf_ok [OF wf b] by (auto simp: buf_ok_def)
qed

text \<open>There is a buffer for the block: it is referenced already, or fewer blocks than buffers are.\<close>

definition busy :: "cache \<Rightarrow> nat" where
  "busy c = card {q. c_ref c q \<noteq> 0}"

definition has_room :: "bkey \<Rightarrow> cache \<Rightarrow> bool" where
  "has_room k c \<longleftrightarrow> c_ref c k \<noteq> 0 \<or> busy c < NBUF"

lemma room_chooses:
  assumes wf: "bc_wf pid d slk bf xs" and room: "has_room k (cabs_of d w slk bf)"
  shows "\<exists>b hit. bchoose bf xs k = Some (b, hit)"
proof (rule ccontr)
  assume "\<nexists>b hit. bchoose bf xs k = Some (b, hit)"
  then have none: "\<forall>b<NBUF. key (bf b) \<noteq> k" and ref: "\<forall>b<NBUF. b_refcnt (bf b) \<noteq> 0"
    using mru_mem [OF wf] by (auto simp: bchoose_def find_None_iff split: option.splits)
  note uq = bc_wf_uniq [OF wf]
  have c: "cached bf (key (bf b)) b" if "b < NBUF" for b
    using that ref by (simp add: cached_def clean_def)
  have inj: "inj_on (\<lambda>b. key (bf b)) {0..<NBUF}"
    using uq c unfolding inj_on_def uniq_def by (metis atLeastLessThan_iff)
  have "slot bf k = None" using none by (auto simp: slot_None cached_def)
  then have "card {q. c_ref (cabs_of d w slk bf) q \<noteq> 0} < NBUF"
    using room by (simp add: has_room_def busy_def cabs_of_def)
  moreover have "q \<in> (\<lambda>b. key (bf b)) ` {0..<NBUF}" if "c_ref (cabs_of d w slk bf) q \<noteq> 0" for q
  proof -
    from that obtain b where "slot bf q = Some b"
      by (cases "slot bf q") (auto simp: cabs_of_def)
    then have "b < NBUF" "key (bf b) = q" using slot_Some [of bf q b] by (auto simp: cached_def)
    then show ?thesis by force
  qed
  then have "{q. c_ref (cabs_of d w slk bf) q \<noteq> 0} \<subseteq> (\<lambda>b. key (bf b)) ` {0..<NBUF}"
    by blast
  moreover have "(\<lambda>b. key (bf b)) ` {0..<NBUF} \<subseteq> {q. c_ref (cabs_of d w slk bf) q \<noteq> 0}"
    using slot_eq [OF uq c] ref by (auto simp: cabs_of_def unat_eq_0 simp flip: neq0_conv)
  ultimately show False
    using card_image [OF inj] by (simp add: subset_antisym)
qed

lemma bread_ok:
  assumes "bready L p s" and "c_held (cabs s) (dev, bn) = None"
    and "c_ref (cabs s) (dev, bn) + 1 < 2 ^ 32" and "has_room (dev, bn) (cabs s)"
  shows "wp (bread dev bn) (\<lambda>b t. bready L p t \<and> bio_same s t \<and> cabs t = sp_bread (dev, bn) b (cabs s)) s"
proof -
  let ?pid = "p_pid (procs s p)"
  have r: "settled L s" "BcacheLock \<notin> L" "\<And>x. SleepLk x \<notin> L" "curproc s = Some p"
    using assms(1) by (auto simp: bready_def)
  obtain xs where wf: "bc_wf ?pid (disk s) (slocks s) (bufs s) xs"
    using assms(1) by (auto simp: bready_def bc_inv_def)
  obtain b hit where ch: "bchoose (bufs s) xs (dev, bn) = Some (b, hit)"
    using room_chooses [OF wf assms(4) [unfolded cabs_def]] by blast
  note abs = bread_abs [OF wf ch assms(2,3) [unfolded cabs_def]]
  let ?t = "s\<lparr>slocks := lock_for b ?pid (slocks s), bufs := upd (bufs s) b (bfill (disk s) \<circ> bgot (dev, bn) hit)\<rparr>"
  have "does (bread dev bn) s b ?t"
    using wf ch abs(1) by (intro does_bread [OF r(1,2,3,4)]) (auto simp: bc_wf_def)
  then show ?thesis
  proof (rule spec_wp)
    show "bready L p ?t"
      using assms(1) abs(2) by (auto simp: bready_def bc_inv_def)
    show "bio_same s ?t" by (simp add: bio_same_def lock_for_def)
    show "cabs ?t = sp_bread (dev, bn) b (cabs s)"
      using abs(3) by (simp add: cabs_def)
  qed
qed

lemma bwrite_ok:
  assumes "bready L p s" and "c_held (cabs s) k = Some b"
  shows "wp (bwrite b) (\<lambda>_ t. bready L p t \<and> bio_same s t \<and> cabs t = sp_bwrite k (cabs s)) s"
proof -
  let ?pid = "p_pid (procs s p)"
  have r: "settled L s" "\<And>x. SleepLk x \<notin> L" "curproc s = Some p"
    using assms(1) by (auto simp: bready_def)
  obtain xs where wf: "bc_wf ?pid (disk s) (slocks s) (bufs s) xs"
    using assms(1) by (auto simp: bready_def bc_inv_def)
  note h = held_cached [OF assms]
  note abs = bwrite_abs [OF wf h(1)]
  let ?t = "s\<lparr>disk := (disk s)(k := b_data (bufs s b)), disk_writes := disk_writes s @ [(k, b_data (bufs s b))]\<rparr>"
  have "does (bwrite b) s () ?t"
    using does_bwrite [OF r(1) r(2) r(3) h(7,8)] h(3) by simp
  then show ?thesis
  proof (rule spec_wp)
    show "bready L p ?t"
      using assms(1) abs(1) by (auto simp: bready_def bc_inv_def)
    show "bio_same s ?t" by (simp add: bio_same_def)
    show "cabs ?t = sp_bwrite k (cabs s)"
      using abs(2) [of "disk_writes s"] by (simp add: cabs_def)
  qed
qed

lemma brelse_ok:
  assumes "bready L p s" and "c_held (cabs s) k = Some b"
    and "c_ref (cabs s) k = 1 \<longrightarrow> c_content (cabs s) k = disk s k"
  shows "wp (brelse b) (\<lambda>_ t. bready L p t \<and> bio_same s t \<and> cabs t = sp_brelse k (cabs s)) s"
proof -
  let ?pid = "p_pid (procs s p)"
  have r: "settled L s" "BcacheLock \<notin> L" "\<And>x. SleepLk x \<notin> L" "\<forall>q. ProcLock q \<notin> L" "curproc s = Some p"
    using assms(1) by (auto simp: bready_def)
  obtain xs where wf: "bc_wf ?pid (disk s) (slocks s) (bufs s) xs"
    using assms(1) by (auto simp: bready_def bc_inv_def)
  note h = held_cached [OF assms(1,2)]
  have "b_refcnt (bufs s b) = 1 \<longrightarrow> b_data (bufs s b) = disk s k"
    using assms(3) h(4,5) by auto
  note abs = brelse_abs [OF wf h(1,6) this]
  let ?t = "s\<lparr>slocks := unlocked b (slocks s), bufs := bdrop b (bufs s)\<rparr>"
  have "does (brelse b) s () ?t"
    by (rule does_brelse [OF r(1,2) r(3) r(4,5) h(7,8)])
  then show ?thesis
  proof (rule spec_wp)
    show "bready L p ?t"
      using assms(1) abs(1) by (auto simp: bready_def bc_inv_def)
    show "bio_same s ?t" by (simp add: bio_same_def unlocked_def)
    show "cabs ?t = sp_brelse k (cabs s)"
      using abs(2) by (simp add: cabs_def)
  qed
qed

lemma set_ok:
  assumes "bready L p s" and "c_held (cabs s) k = Some b"
  shows "wp (upd_buf b (\<lambda>x. x\<lparr>b_data := f\<rparr>))
    (\<lambda>_ t. bready L p t \<and> bio_same s t \<and> cabs t = sp_set k f (cabs s)) s"
proof -
  obtain xs where wf: "bc_wf (p_pid (procs s p)) (disk s) (slocks s) (bufs s) xs"
    using assms(1) by (auto simp: bready_def bc_inv_def)
  note h = held_cached [OF assms]
  note abs = set_abs [OF wf h(1,6), where f = f]
  let ?t = "s\<lparr>bufs := upd (bufs s) b (\<lambda>x. x\<lparr>b_data := f\<rparr>)\<rparr>"
  show ?thesis
  proof (rule spec_wp [OF does_upd_buf])
    show "bready L p ?t"
      using assms(1) abs(1) by (auto simp: bready_def bc_inv_def)
    show "bio_same s ?t" by (simp add: bio_same_def)
    show "cabs ?t = sp_set k f (cabs s)"
      using abs(2) by (simp add: cabs_def)
  qed
qed

lemma bpin_ok:
  assumes "bready L p s" and "c_held (cabs s) k = Some b" and "c_ref (cabs s) k + 1 < 2 ^ 32"
  shows "wp (bpin b) (\<lambda>_ t. bready L p t \<and> bio_same s t \<and> cabs t = sp_bpin k (cabs s)) s"
proof -
  obtain xs where wf: "bc_wf (p_pid (procs s p)) (disk s) (slocks s) (bufs s) xs"
    using assms(1) by (auto simp: bready_def bc_inv_def)
  have r: "settled L s" "BcacheLock \<notin> L" using assms(1) by (auto simp: bready_def)
  note h = held_cached [OF assms(1,2)]
  let ?n = "b_refcnt (bufs s b) + 1"
  have n: "unat ?n = c_ref (cabs s) k + 1"
    using assms(3) h(5) by (simp add: unat_word_ariths)
  then have "?n \<noteq> 0" by (metis add_is_0 one_neq_zero unat_0)
  note abs = ref_abs [OF wf h(1,6) this]
  let ?t = "s\<lparr>bufs := upd (bufs s) b (\<lambda>x. x\<lparr>b_refcnt := b_refcnt x + 1\<rparr>)\<rparr>"
  have eq: "?t = s\<lparr>bufs := upd (bufs s) b (\<lambda>x. x\<lparr>b_refcnt := ?n\<rparr>)\<rparr>"
    by (simp add: upd_def)
  show ?thesis
  proof (rule spec_wp [OF does_bpin [OF r]])
    show "bready L p ?t"
      unfolding eq using assms(1) abs(1) by (auto simp: bready_def bc_inv_def)
    show "bio_same s ?t" by (simp add: bio_same_def)
    show "cabs ?t = sp_bpin k (cabs s)"
      unfolding eq using abs(2) [of "disk_writes s"] n by (simp add: cabs_def sp_bpin_def)
  qed
qed

lemma bunpin_ok:
  assumes "bready L p s" and "c_held (cabs s) k = Some b" and "1 < c_ref (cabs s) k"
  shows "wp (bunpin b) (\<lambda>_ t. bready L p t \<and> bio_same s t \<and> cabs t = sp_bunpin k (cabs s)) s"
proof -
  obtain xs where wf: "bc_wf (p_pid (procs s p)) (disk s) (slocks s) (bufs s) xs"
    using assms(1) by (auto simp: bready_def bc_inv_def)
  have r: "settled L s" "BcacheLock \<notin> L" using assms(1) by (auto simp: bready_def)
  note h = held_cached [OF assms(1,2)]
  let ?n = "b_refcnt (bufs s b) - 1"
  have n: "unat ?n = c_ref (cabs s) k - 1"
    using unat_dec [OF h(6)] h(5) by simp
  then have "?n \<noteq> 0" using assms(3) by (metis less_not_refl unat_0 zero_less_diff)
  note abs = ref_abs [OF wf h(1,6) this]
  let ?t = "s\<lparr>bufs := upd (bufs s) b (\<lambda>x. x\<lparr>b_refcnt := b_refcnt x - 1\<rparr>)\<rparr>"
  have eq: "?t = s\<lparr>bufs := upd (bufs s) b (\<lambda>x. x\<lparr>b_refcnt := ?n\<rparr>)\<rparr>"
    by (simp add: upd_def)
  show ?thesis
  proof (rule spec_wp [OF does_bunpin [OF r]])
    show "bready L p ?t"
      unfolding eq using assms(1) abs(1) by (auto simp: bready_def bc_inv_def)
    show "bio_same s ?t" by (simp add: bio_same_def)
    show "cabs ?t = sp_bunpin k (cabs s)"
      unfolding eq using abs(2) [of "disk_writes s"] n by (simp add: cabs_def sp_bunpin_def)
  qed
qed

section \<open>Initialisation\<close>

definition bfresh :: "buf \<Rightarrow> bool" where
  "bfresh x \<longleftrightarrow> \<not> b_valid x \<and> b_refcnt x = 0"

text \<open>After \<open>n\<close> turns of the loop of \<^verbatim>\<open>binit()\<close>.\<close>

definition binit_inv :: "'z bio_scheme \<Rightarrow> nat \<Rightarrow> 'z bio_scheme \<Rightarrow> bool" where
  "binit_inv s n t \<longleftrightarrow> n \<le> NBUF \<and> links (bufs t) (rev [0..<n]) \<and> (\<forall>b<NBUF. bfresh (bufs t b))
     \<and> (\<forall>b<n. slk_locked (slocks t (BufLock b)) = 0 \<and> lk_clean (SleepLk (BufLock b)) t)
     \<and> lk_clean BcacheLock t \<and> disk t = disk s \<and> disk_writes t = disk_writes s \<and> bio.more t = bio.more s"

lemma wp_get_buf [wps]: "wp (get_buf b f) Q s = Q (f (bufs s b)) s"
  by (simp add: get_buf_def wps)

lemma wp_upd_buf [wps]: "wp (upd_buf b f) Q s = Q () (s\<lparr>bufs := upd (bufs s) b f\<rparr>)"
  by (simp add: upd_buf_def wps)

definition binit_link :: "nat \<Rightarrow> (nat \<Rightarrow> buf) \<Rightarrow> nat \<Rightarrow> buf" where
  "binit_link b bf =
     (let b1 = upd bf b (\<lambda>x. x\<lparr>b_next := b_next (bf HEAD)\<rparr>);
          b2 = upd b1 b (\<lambda>x. x\<lparr>b_prev := HEAD\<rparr>);
          b3 = upd b2 (b_next (b2 HEAD)) (\<lambda>x. x\<lparr>b_prev := b\<rparr>)
      in upd b3 HEAD (\<lambda>x. x\<lparr>b_next := b\<rparr>))"

lemma binit_link_fields:
  assumes "b \<noteq> HEAD"
  shows "(\<lambda>i. b_next (binit_link b bf i)) = (\<lambda>i. b_next (bf i))(b := b_next (bf HEAD), HEAD := b)"
    and "(\<lambda>i. b_prev (binit_link b bf i)) = (\<lambda>i. b_prev (bf i))(b := HEAD, b_next (bf HEAD) := b)"
    and "bfresh (binit_link b bf i) = bfresh (bf i)"
  using assms by (auto simp: binit_link_def Let_def bfresh_def fun_eq_iff)

lemma binit_body:
  assumes "binit_inv s n t" and "n < NBUF"
  shows "wp (bnd (get_buf HEAD b_next) (\<lambda>m.
       thn (upd_buf n (\<lambda>x. x\<lparr>b_next := m\<rparr>)) (
       thn (upd_buf n (\<lambda>x. x\<lparr>b_prev := HEAD\<rparr>)) (
       thn (initsleeplock (BufLock n) ''buffer'') (
       bnd (get_buf HEAD b_next) (\<lambda>m.
       thn (upd_buf m (\<lambda>x. x\<lparr>b_prev := n\<rparr>)) (
       upd_buf HEAD (\<lambda>x. x\<lparr>b_next := n\<rparr>)))))))) (\<lambda>_. binit_inv s (Suc n)) t"
proof -
  have nh: "n \<noteq> HEAD" using assms(2) by simp
  let ?bf = "binit_link n (bufs t)"
  have "links ?bf (n # rev [0..<n])"
    unfolding binit_link_fields [OF nh]
    using assms nh by (intro dll_push) (auto simp: binit_inv_def HEAD_def)
  moreover have "\<forall>b<NBUF. bfresh (?bf b)"
    using assms(1) by (simp add: binit_inv_def binit_link_fields(3) [OF nh])
  ultimately have inv: "binit_inv s (Suc n) (t\<lparr>locks := upd (locks t) (SleepLk (BufLock n)) f,
      slocks := upd (slocks t) (BufLock n) g, bufs := ?bf\<rparr>)"
    if "\<And>k. sl_locked (f k) = 0 \<and> sl_cpu (f k) = None" "\<And>k. slk_locked (g k) = 0" for f g
    using assms that by (auto simp: binit_inv_def lk_clean_def less_Suc_eq)
  show ?thesis
    unfolding wp_bnd wp_thn wp_get_buf wp_upd_buf initsleeplock_def initlock_def upd_lock_def upd_slock_def wp_modify
    using inv [of "\<lambda>k. k\<lparr>sl_name := ''sleep lock'', sl_locked := 0, sl_cpu := None\<rparr>"
        "\<lambda>k. k\<lparr>slk_name := ''buffer'', slk_locked := 0, slk_pid := 0\<rparr>"]
    by (simp add: binit_link_def Let_def del: upd_apply upd_upd_same)
qed

lemma binit_loop:
  assumes "binit_inv s n t"
  shows "wp (for_all [n..<NBUF] (\<lambda>b.
       bnd (get_buf HEAD b_next) (\<lambda>m.
       thn (upd_buf b (\<lambda>x. x\<lparr>b_next := m\<rparr>)) (
       thn (upd_buf b (\<lambda>x. x\<lparr>b_prev := HEAD\<rparr>)) (
       thn (initsleeplock (BufLock b) ''buffer'') (
       bnd (get_buf HEAD b_next) (\<lambda>m.
       thn (upd_buf m (\<lambda>x. x\<lparr>b_prev := b\<rparr>)) (
       upd_buf HEAD (\<lambda>x. x\<lparr>b_next := b\<rparr>))))))))) (\<lambda>_. binit_inv s NBUF) t"
  using assms
proof (induction "NBUF - n" arbitrary: n t)
  case 0
  then have "n = NBUF" by (simp add: binit_inv_def)
  with 0 show ?case by (simp add: wps)
next
  case (Suc d)
  then have n: "n < NBUF" by simp
  then have l: "[n..<NBUF] = n # [Suc n..<NBUF]" by (rule upt_conv_Cons)
  show ?case
    unfolding l wp_for_all_Cons
    using Suc.hyps(2) by (intro wp_mono [OF binit_body [OF Suc.prems n]] Suc.hyps(1)) simp_all
qed

definition empty_cache :: "(bkey \<Rightarrow> block) \<Rightarrow> (bkey \<times> block) list \<Rightarrow> cache" where
  "empty_cache d w = \<lparr>c_disk = d, c_writes = w, c_content = d, c_ref = (\<lambda>_. 0), c_held = (\<lambda>_. None)\<rparr>"

lemma binit_ok:
  assumes "\<forall>b<NBUF. bfresh (bufs s b)"
  shows "wp binit (\<lambda>_ t. (\<forall>pid. bc_inv pid t) \<and> cabs t = empty_cache (disk s) (disk_writes s)
    \<and> lk_clean BcacheLock t \<and> (\<forall>b<NBUF. lk_clean (SleepLk (BufLock b)) t) \<and> bio.more t = bio.more s) s"
proof -
  let ?s = "s\<lparr>locks := upd (locks s) BcacheLock (\<lambda>k. k\<lparr>sl_name := ''bcache'', sl_locked := 0, sl_cpu := None\<rparr>),
    bufs := upd (upd (bufs s) HEAD (\<lambda>x. x\<lparr>b_prev := HEAD\<rparr>)) HEAD (\<lambda>x. x\<lparr>b_next := HEAD\<rparr>)\<rparr>"
  have "binit_inv s 0 ?s"
    using assms by (auto simp: binit_inv_def lk_clean_def bfresh_def)
  note loop = binit_loop [OF this]
  have fin: "(\<forall>pid. bc_inv pid t) \<and> cabs t = empty_cache (disk s) (disk_writes s)
      \<and> lk_clean BcacheLock t \<and> (\<forall>b<NBUF. lk_clean (SleepLk (BufLock b)) t) \<and> bio.more t = bio.more s"
    if t: "binit_inv s NBUF t" for t
  proof -
    have c: "clean (bufs t b)" if "b < NBUF" for b
      using t that by (auto simp: binit_inv_def clean_def bfresh_def)
    then have sl: "slot (bufs t) k = None" for k by (auto simp: slot_None cached_def)
    have "ring (bufs t) (rev [0..<NBUF])"
      using t by (auto simp: binit_inv_def ring_def)
    moreover have "mru (bufs t) (rev [0..<NBUF])"
      using c by (auto simp: mru_def sorted_wrt_iff_nth_less rev_nth)
    moreover have "buf_ok pid (disk t) (slocks t (BufLock b)) (bufs t b)" if "b < NBUF" for b pid
      using t that c [OF that] by (auto simp: binit_inv_def buf_ok_def clean_def)
    ultimately have "bc_inv pid t" for pid
      unfolding bc_inv_def bc_wf_def by blast
    then show ?thesis
      using t sl by (auto simp: cabs_def cabs_of_def empty_cache_def binit_inv_def)
  qed
  show ?thesis
    using wp_mono [OF loop fin]
    unfolding binit_def wp_thn wp_upd_buf initlock_def upd_lock_def wp_modify
    by (simp del: upd_upd_same upd_apply)
qed

section \<open>A state with an empty cache\<close>

text \<open>
  The first process runs, no lock is held, every buffer is clean and the list is in the order
  \<^verbatim>\<open>binit()\<close> leaves; \<open>d\<close> is the disk and \<open>m\<close> the state above the cache.
\<close>

definition booted :: "(bkey \<Rightarrow> block) \<Rightarrow> 'z \<Rightarrow> 'z bio_scheme" where
  "booted d m = \<lparr>tp = 0, csrs = (\<lambda>_. zero_csr), cpus = (\<lambda>_. zero_cpu\<lparr>cpu_proc := Some 0\<rparr>),
     locks = (\<lambda>_. zero_lock), ntest_and_set = 0, mem = (\<lambda>_. 0), freelist = 0, ksym_end = KERNBASE,
     kernel_pagetable = 0, ksym_etext = 0, ksym_trampoline = 0,
     procs = (\<lambda>_. zero_proc)(0 := zero_proc\<lparr>p_state := RUNNING, p_pid := 1\<rparr>), initproc = Some 0, nextpid = 2,
     ticks = 0, slocks = (\<lambda>_. \<lparr>slk_locked = 0, slk_name = [], slk_pid = 0\<rparr>),
     bufs = (\<lambda>i. \<lparr>b_valid = False, b_disk = False, b_dev = 0, b_blockno = 0, b_refcnt = 0,
       b_prev = (if i = HEAD then 0 else i + 1), b_next = (if i = 0 then HEAD else i - 1), b_data = (\<lambda>_. 0)\<rparr>),
     disk = d, disk_writes = [], \<dots> = m\<rparr>"

lemma booted_simps [simp]:
  "disk (booted d m) = d" "disk_writes (booted d m) = []" "bio.more (booted d m) = m"
  "curproc (booted d m) = Some 0" "settled L (booted d m)"
  by (simp_all add: booted_def curproc_def settled_def irq_wf_def depth_def irq_on_def lk_clean_def zero_defs)

lemma booted_ring: "ring (bufs (booted d m)) (rev [0..<NBUF])"
proof -
  let ?bf = "bufs (booted d m)"
  have "dll (\<lambda>i. b_next (?bf i)) (\<lambda>i. b_prev (?bf i)) n (rev [0..<n]) HEAD" if "0 < n" "n \<le> NBUF" for n
    using that
  proof (induction n)
    case 0
    then show ?case by simp
  next
    case (Suc n)
    then show ?case by (cases n) (auto simp: booted_def HEAD_def)
  qed
  from this [of NBUF] show ?thesis
    by (auto simp: ring_def HEAD_def param_defs)
qed

lemma booted_ready: "bready {} 0 (booted d m)" "cabs (booted d m) = empty_cache d []"
proof -
  have clean: "clean (bufs (booted d m) b)" for b by (simp add: booted_def clean_def)
  then have "slot (bufs (booted d m)) k = None" for k by (simp add: slot_None cached_def)
  then show "cabs (booted d m) = empty_cache d []"
    by (simp add: cabs_def cabs_of_def empty_cache_def)
  have "mru (bufs (booted d m)) (rev [0..<NBUF])"
    using clean by (simp add: mru_def sorted_wrt_iff_nth_less)
  moreover have "buf_ok pid d (slocks (booted d m) (BufLock b)) (bufs (booted d m) b)" for pid b
    by (simp add: booted_def buf_ok_def)
  ultimately have "bc_inv pid (booted d m)" for pid
    using booted_ring unfolding bc_inv_def bc_wf_def by fastforce
  then show "bready {} 0 (booted d m)" by (simp add: bready_def)
qed

lemma empty_cache_simps [simp]:
  "c_disk (empty_cache d w) = d" "c_content (empty_cache d w) = d" "c_ref (empty_cache d w) = (\<lambda>_. 0)"
  "c_held (empty_cache d w) = (\<lambda>_. None)" "c_writes (empty_cache d w) = w"
  by (simp_all add: empty_cache_def)

lemma empty_cache_room [simp]: "busy (empty_cache d w) = 0" "has_room k (empty_cache d w)"
  by (simp_all add: has_room_def busy_def param_defs)

section \<open>Properties\<close>

text \<open>
  C3: \<^verbatim>\<open>bread()\<close> of a block that is not locked returns, whenever the block is referenced or
  a buffer is free, a buffer locked by the caller that holds the block's current content (the cached
  one, or the disk's); the cache refines the specification step, and nothing outside it changes.
\<close>

theorem bread_returns_block:
  assumes "bready L p s" and "c_held (cabs s) (dev, bn) = None"
    and "c_ref (cabs s) (dev, bn) + 1 < 2 ^ 32" and "has_room (dev, bn) (cabs s)"
  shows "\<exists>b t. bread dev bn s = Done b t \<and> bready L p t \<and> bio_same s t \<and> cabs t = sp_bread (dev, bn) b (cabs s)
    \<and> key (bufs t b) = (dev, bn) \<and> b_data (bufs t b) = c_content (cabs s) (dev, bn)
    \<and> slk_pid (slocks t (BufLock b)) = p_pid (procs t p)"
proof -
  obtain b t where t: "bread dev bn s = Done b t" "bready L p t" "bio_same s t" "cabs t = sp_bread (dev, bn) b (cabs s)"
    using bread_ok [OF assms] by (auto simp: wp_iff)
  then have "c_held (cabs t) (dev, bn) = Some b" by (simp add: sp_bread_def)
  note held_cached(3,4,8) [OF t(2) this]
  with t show ?thesis by (auto simp: sp_bread_def)
qed

theorem bread_returns_block_witness:
  "\<exists>b t. bread 0 5 (booted (\<lambda>k. if k = (0, 5) then (\<lambda>_. 7) else (\<lambda>_. 0)) ()) = Done b t \<and> b_data (bufs t b) = (\<lambda>_. 7)"
  using bread_returns_block [OF booted_ready(1) [of "\<lambda>k. if k = (0, 5) then (\<lambda>_. 7) else (\<lambda>_. 0)" "()"],
      of 0 5]
  by (auto simp: booted_ready(2))

text \<open>
  C21: Replacement is least-recently-used: \<^verbatim>\<open>bread()\<close> of a block that is not cached takes
  the last unreferenced buffer of the list and leaves the order as it is, \<^verbatim>\<open>brelse()\<close> of
  the last reference moves the buffer to the front, and when every buffer is referenced
  \<^verbatim>\<open>bget()\<close> panics.
\<close>

theorem bcache_lru:
  assumes "bready L p s" and "ring (bufs s) xs"
  shows "(\<forall>dev bn b hit. bchoose (bufs s) xs (dev, bn) = Some (b, hit) \<and> slk_locked (slocks s (BufLock b)) = 0 \<longrightarrow>
      (\<exists>t. bread dev bn s = Done b t \<and> ring (bufs t) xs)) \<and>
    (\<forall>k b. c_held (cabs s) k = Some b \<longrightarrow> (\<exists>t. brelse b s = Done () t \<and>
      ring (bufs t) (if c_ref (cabs s) k = 1 then b # remove1 b xs else xs))) \<and>
    (\<forall>dev bn. bchoose (bufs s) xs (dev, bn) = None \<longrightarrow> (\<exists>t. bget dev bn s = Panic ''bget: no buffers'' t))"
proof (intro conjI allI impI)
  note r = assms(1) [unfolded bready_def]
  fix dev bn b hit
  assume c: "bchoose (bufs s) xs (dev, bn) = Some (b, hit) \<and> slk_locked (slocks s (BufLock b)) = 0"
  let ?f = "bfill (disk s) \<circ> bgot (dev, bn) hit"
  obtain t where t: "bread dev bn s = Done b t"
      "eqv (s\<lparr>slocks := lock_for b (p_pid (procs s p)) (slocks s), bufs := upd (bufs s) b ?f\<rparr>) t"
    using doesD [OF does_bread [of L s b p xs dev bn hit]] r assms(2) c by auto
  have "bufs t = upd (bufs s) b ?f" using eqv_bufs(1) [OF t(2)] by simp
  moreover have "ring (upd (bufs s) b ?f) xs"
    using assms(2) ring_fields [of "upd (bufs s) b ?f" "bufs s" xs] by (simp add: bfill_def bgot_def)
  ultimately show "\<exists>t. bread dev bn s = Done b t \<and> ring (bufs t) xs" using t(1) by auto
next
  note r = assms(1) [unfolded bready_def]
  fix k b
  assume "c_held (cabs s) k = Some b"
  note h = held_cached [OF assms(1) this]
  obtain t where t: "brelse b s = Done () t" "eqv (s\<lparr>slocks := unlocked b (slocks s), bufs := bdrop b (bufs s)\<rparr>) t"
    using doesD [OF does_brelse [of L s b p]] r h(7,8) by auto
  have "bufs t = bdrop b (bufs s)" using eqv_bufs(1) [OF t(2)] by simp
  moreover have "b_refcnt (bufs s b) = 1 \<longleftrightarrow> c_ref (cabs s) k = 1"
    using h(5) by (metis unsigned_1 word_eq_iff_unsigned)
  ultimately show "\<exists>t. brelse b s = Done () t \<and> ring (bufs t) (if c_ref (cabs s) k = 1 then b # remove1 b xs else xs)"
    using t(1) ring_bdrop [OF assms(2) h(2)] by simp
next
  note r = assms(1) [unfolded bready_def]
  fix dev bn
  assume "bchoose (bufs s) xs (dev, bn) = None"
  then show "\<exists>t. bget dev bn s = Panic ''bget: no buffers'' t"
    using bget_panics assms(2) r by blast
qed

theorem bcache_lru_witness:
  "\<exists>t. bread 0 5 (booted (\<lambda>_ _. 0) ()) = Done 0 t \<and> ring (bufs t) (rev [0..<NBUF])"
proof -
  have "bchoose (bufs (booted (\<lambda>_ _. 0) ())) (rev [0..<NBUF]) (0, 5) = Some (0, False)"
    by (simp add: bchoose_def booted_def key_def param_defs upt_rec)
  moreover have "slk_locked (slocks (booted (\<lambda>_ _. 0) ()) (BufLock 0)) = 0"
    by (simp add: booted_def)
  ultimately show ?thesis
    using bcache_lru [OF booted_ready(1) [of "\<lambda>_ _. 0" "()"] booted_ring] by blast
qed

end
