(* ===== verification/Exec.thy ===== *)
theory Exec
  imports Bcache
begin

text \<open>
  Symbolic execution over the buffer cache.  \<open>exec L p c s f L' R\<close> runs \<open>f\<close> for process
  \<open>p\<close> from any kernel state whose cache is \<open>c\<close> in the sense of the specification and that
  is \<open>s\<close> above it, holding the spinlocks \<open>L\<close>: it returns, holding the spinlocks \<open>L'\<close>, and
  value, cache and the state above satisfy \<open>R\<close>.  The components that use the cache (log, inodes,
  directories) are verified with these rules; what the cache does inside its buffers no longer
  shows.
\<close>

definition exec :: "lockid set \<Rightarrow> nat \<Rightarrow> cache \<Rightarrow> 'z bio_scheme \<Rightarrow> ('z bio_scheme, 'a) kop \<Rightarrow> lockid set
    \<Rightarrow> ('a \<Rightarrow> cache \<Rightarrow> 'z bio_scheme \<Rightarrow> bool) \<Rightarrow> bool" where
  "exec L p c s f L' R \<longleftrightarrow>
     (\<forall>s0. bready L p s0 \<and> cabs s0 = c \<and> bio_same s s0 \<longrightarrow>
       wp f (\<lambda>x t. bready L' p t \<and> (\<exists>s1. bio_same s1 t \<and> R x (cabs t) s1)) s0)"

lemma execI:
  "(\<And>s0. bready L p s0 \<Longrightarrow> cabs s0 = c \<Longrightarrow> bio_same s s0 \<Longrightarrow>
      wp f (\<lambda>x t. bready L' p t \<and> (\<exists>s1. bio_same s1 t \<and> R x (cabs t) s1)) s0) \<Longrightarrow> exec L p c s f L' R"
  by (simp add: exec_def)

lemma execD:
  "exec L p (cabs s) s f L' R \<Longrightarrow> bready L p s \<Longrightarrow>
     wp f (\<lambda>x t. bready L' p t \<and> (\<exists>s1. bio_same s1 t \<and> R x (cabs t) s1)) s"
  by (simp add: exec_def)

lemma exec_ret: "R x c s \<Longrightarrow> exec L p c s (ret x) L R"
  by (auto simp: exec_def wps)

lemma exec_skip: "R () c s \<Longrightarrow> exec L p c s skip L R"
  by (auto simp: exec_def wps)

lemma exec_mono: "exec L p c s f L' R \<Longrightarrow> (\<And>x c' s'. R x c' s' \<Longrightarrow> Q x c' s') \<Longrightarrow> exec L p c s f L' Q"
  unfolding exec_def by (blast intro: wp_mono)

lemma exec_bnd:
  assumes "exec L p c s f L1 Q" and "\<And>x c' s'. Q x c' s' \<Longrightarrow> exec L1 p c' s' (g x) L' R"
  shows "exec L p c s (bnd f g) L' R"
proof (rule execI)
  fix s0
  assume s0: "bready L p s0" "cabs s0 = c" "bio_same s s0"
  have "wp f (\<lambda>x t. bready L1 p t \<and> (\<exists>s1. bio_same s1 t \<and> Q x (cabs t) s1)) s0"
    using assms(1) s0 by (simp add: exec_def)
  then show "wp (bnd f g) (\<lambda>x t. bready L' p t \<and> (\<exists>s1. bio_same s1 t \<and> R x (cabs t) s1)) s0"
    unfolding wp_bnd
  proof (rule wp_mono)
    fix x t
    assume "bready L1 p t \<and> (\<exists>s1. bio_same s1 t \<and> Q x (cabs t) s1)"
    then obtain s1 where "bready L1 p t" "bio_same s1 t" "Q x (cabs t) s1" by blast
    then show "wp (g x) (\<lambda>x t. bready L' p t \<and> (\<exists>s1. bio_same s1 t \<and> R x (cabs t) s1)) t"
      using assms(2) by (simp add: exec_def)
  qed
qed

lemma exec_thn:
  "exec L p c s f L1 Q \<Longrightarrow> (\<And>x c' s'. Q x c' s' \<Longrightarrow> exec L1 p c' s' g L' R) \<Longrightarrow> exec L p c s (thn f g) L' R"
  unfolding thn_def by (rule exec_bnd)

text \<open>A last statement is a statement followed by nothing.\<close>

lemma thn_skip: "thn f skip s = f s"
  by (simp add: run split: outcome.splits)

lemma exec_tail: "exec L p c s (thn f skip) L' R \<Longrightarrow> exec L p c s f L' R"
  by (simp add: exec_def wp_def thn_skip)

lemma exec_tail_ret: "exec L p c s (bnd f ret) L' R \<Longrightarrow> exec L p c s f L' R"
  by (auto simp: exec_def wp_def run split: outcome.splits)

lemma exec_gets:
  assumes "\<And>t. bio_same s t \<Longrightarrow> f t = f s" and "exec L p c s (g (f s)) L' R"
  shows "exec L p c s (bnd (gets f) g) L' R"
proof (rule execI)
  fix s0
  assume s0: "bready L p s0" "cabs s0 = c" "bio_same s s0"
  have "f s0 = f s" by (rule assms(1) [OF s0(3)])
  then show "wp (bnd (gets f) g) (\<lambda>x t. bready L' p t \<and> (\<exists>s1. bio_same s1 t \<and> R x (cabs t) s1)) s0"
    using assms(2) s0 unfolding exec_def wp_bnd wp_gets by simp
qed

lemma exec_modify:
  assumes "\<And>t. bio_same s t \<Longrightarrow> bio_same (f s) (f t)" and "\<And>t. bready L p (f t) = bready L p t"
    and "\<And>t. cabs (f t) = cabs t" and "exec L p c (f s) g L' R"
  shows "exec L p c s (thn (modify f) g) L' R"
proof (rule execI)
  fix s0
  assume s0: "bready L p s0" "cabs s0 = c" "bio_same s s0"
  have "bready L p (f s0)" "cabs (f s0) = c" "bio_same (f s) (f s0)"
    using assms(1) [OF s0(3)] assms(2) [of s0] assms(3) [of s0] s0 by simp_all
  then show "wp (thn (modify f) g) (\<lambda>x t. bready L' p t \<and> (\<exists>s1. bio_same s1 t \<and> R x (cabs t) s1)) s0"
    using assms(4) unfolding exec_def wp_thn wp_modify by simp
qed

lemma exec_panic_if: "\<not> b \<Longrightarrow> exec L p c s g L' R \<Longrightarrow> exec L p c s (thn (panic_if b m) g) L' R"
  by (simp add: exec_def wps)

lemma exec_when:
  "(b \<Longrightarrow> exec L p c s (thn f g) L' R) \<Longrightarrow> (\<not> b \<Longrightarrow> exec L p c s g L' R) \<Longrightarrow> exec L p c s (thn (whenM b f) g) L' R"
  by (auto simp: exec_def wps)

lemma wp_seq_fun: "wp (bnd f h) Q = wp f (\<lambda>x. wp (h x) Q)" "wp (thn f g) Q = wp f (\<lambda>_. wp g Q)"
  by (rule ext, simp add: wps)+

lemma exec_assoc: "exec L p c s (thn f (thn g h)) L' R \<Longrightarrow> exec L p c s (thn (thn f g) h) L' R"
  by (simp add: exec_def wp_seq_fun)

lemma exec_assoc_bnd: "exec L p c s (bnd f (\<lambda>x. thn (g x) h)) L' R \<Longrightarrow> exec L p c s (thn (bnd f g) h) L' R"
  by (simp add: exec_def wp_seq_fun)

lemma exec_bnd_assoc: "exec L p c s (bnd f (\<lambda>x. bnd (g x) h)) L' R \<Longrightarrow> exec L p c s (bnd (bnd f g) h) L' R"
  by (simp add: exec_def wp_seq_fun)

lemma exec_bnd_thn: "exec L p c s (thn f (bnd g h)) L' R \<Longrightarrow> exec L p c s (bnd (thn f g) h) L' R"
  by (simp add: exec_def wp_seq_fun)

lemma exec_bnd_ret: "exec L p c s (g x) L' R \<Longrightarrow> exec L p c s (bnd (ret x) g) L' R"
  by (simp add: exec_def wps)

lemma exec_thn_ret: "exec L p c s g L' R \<Longrightarrow> exec L p c s (thn (ret x) g) L' R"
  by (simp add: exec_def wps)

lemma exec_thn_skip: "exec L p c s g L' R \<Longrightarrow> exec L p c s (thn skip g) L' R"
  by (simp add: exec_def wps)

section \<open>The cache\<close>

lemma exec_spec:
  assumes "\<And>s0. bready L p s0 \<Longrightarrow> cabs s0 = c \<Longrightarrow>
      wp f (\<lambda>x t. bready L p t \<and> bio_same s0 t \<and> cabs t = c' x) s0"
    and "\<And>x. exec L p (c' x) s (g x) L' R"
  shows "exec L p c s (bnd f g) L' R"
proof (rule exec_bnd)
  show "exec L p c s f L (\<lambda>x cc ss. cc = c' x \<and> ss = s)"
    unfolding exec_def using assms(1) bio_same_trans by (fastforce elim: wp_mono)
  show "exec L p cc ss (g x) L' R" if "cc = c' x \<and> ss = s" for x cc ss
    using that assms(2) by simp
qed

lemma exec_bread:
  assumes "c_held c (dev, bn) = None" and "c_ref c (dev, bn) + 1 < 2 ^ 32" and "has_room (dev, bn) c"
    and "\<And>b. exec L p (sp_bread (dev, bn) b c) s (g b) L' R"
  shows "exec L p c s (bnd (bread dev bn) g) L' R"
  using bread_ok assms(1-3) by (intro exec_spec [OF _ assms(4)]) blast

lemma exec_bwrite:
  assumes "c_held c k = Some b" and "exec L p (sp_bwrite k c) s g L' R"
  shows "exec L p c s (thn (bwrite b) g) L' R"
  unfolding thn_def using bwrite_ok assms(1) by (intro exec_spec [OF _ assms(2)]) blast

lemma exec_brelse:
  assumes "c_held c k = Some b" and "c_ref c k = 1 \<longrightarrow> c_content c k = c_disk c k"
    and "exec L p (sp_brelse k c) s g L' R"
  shows "exec L p c s (thn (brelse b) g) L' R"
proof -
  have "wp (brelse b) (\<lambda>_ t. bready L p t \<and> bio_same s0 t \<and> cabs t = sp_brelse k c) s0"
    if "bready L p s0" "cabs s0 = c" for s0
    using brelse_ok [OF that(1), of k b] that(2) assms(1,2) by auto
  then show ?thesis
    unfolding thn_def by (rule exec_spec) (auto intro: assms(3))
qed

lemma exec_bpin:
  assumes "c_held c k = Some b" and "c_ref c k + 1 < 2 ^ 32" and "exec L p (sp_bpin k c) s g L' R"
  shows "exec L p c s (thn (bpin b) g) L' R"
  unfolding thn_def using bpin_ok assms(1,2) by (intro exec_spec [OF _ assms(3)]) blast

lemma exec_bunpin:
  assumes "c_held c k = Some b" and "1 < c_ref c k" and "exec L p (sp_bunpin k c) s g L' R"
  shows "exec L p c s (thn (bunpin b) g) L' R"
  unfolding thn_def using bunpin_ok assms(1,2) by (intro exec_spec [OF _ assms(3)]) blast

text \<open>Reading and writing the bytes and the key of a buffer that is held.\<close>

lemma exec_get_buf:
  fixes s :: "'z bio_scheme"
  assumes "\<And>s0 :: 'z bio_scheme. bready L p s0 \<Longrightarrow> cabs s0 = c \<Longrightarrow> f (bufs s0 b) = v" and "exec L p c s (g v) L' R"
  shows "exec L p c s (bnd (get_buf b f) g) L' R"
proof (rule execI)
  fix s0
  assume s0: "bready L p s0" "cabs s0 = c" "bio_same s s0"
  have "f (bufs s0 b) = v" by (rule assms(1) [OF s0(1,2)])
  then show "wp (bnd (get_buf b f) g) (\<lambda>x t. bready L' p t \<and> (\<exists>s1. bio_same s1 t \<and> R x (cabs t) s1)) s0"
    using assms(2) s0 unfolding exec_def wp_bnd wp_get_buf by simp
qed

lemma exec_get_data:
  "c_held c k = Some b \<Longrightarrow> exec L p c s (g (c_content c k)) L' R \<Longrightarrow> exec L p c s (bnd (get_buf b b_data) g) L' R"
  by (rule exec_get_buf [where v = "c_content c k"]) (auto dest: held_cached(4))

lemma exec_get_dev:
  "c_held c k = Some b \<Longrightarrow> exec L p c s (g (fst k)) L' R \<Longrightarrow> exec L p c s (bnd (get_buf b b_dev) g) L' R"
  by (rule exec_get_buf [where v = "fst k"]) (auto simp: key_def dest!: held_cached(3))

lemma exec_get_blockno:
  "c_held c k = Some b \<Longrightarrow> exec L p c s (g (snd k)) L' R \<Longrightarrow> exec L p c s (bnd (get_buf b b_blockno) g) L' R"
  by (rule exec_get_buf [where v = "snd k"]) (auto simp: key_def dest!: held_cached(3))

definition upd_data :: "nat \<Rightarrow> (block \<Rightarrow> block) \<Rightarrow> ('z bio_scheme, unit) kop" where
  "upd_data b f = upd_buf b (\<lambda>x. x\<lparr>b_data := f (b_data x)\<rparr>)"

lemma exec_upd_data:
  assumes "c_held c k = Some b" and "exec L p (sp_set k (f (c_content c k)) c) s g L' R"
  shows "exec L p c s (thn (upd_data b f) g) L' R"
proof -
  have "wp (upd_data b f) (\<lambda>_ t. bready L p t \<and> bio_same s0 t \<and> cabs t = sp_set k (f (c_content c k)) c) s0"
    if s0: "bready L p s0" "cabs s0 = c" for s0
  proof -
    have h: "c_held (cabs s0) k = Some b" using s0 assms(1) by simp
    have "upd (bufs s0) b (\<lambda>x. x\<lparr>b_data := f (b_data x)\<rparr>) = upd (bufs s0) b (\<lambda>x. x\<lparr>b_data := f (c_content c k)\<rparr>)"
      using held_cached(4) [OF s0(1) h] s0(2) by (simp add: upd_def)
    then show ?thesis
      using set_ok [OF s0(1) h, of "f (c_content c k)"] s0(2) by (simp add: upd_data_def wps)
  qed
  then show ?thesis
    unfolding thn_def by (rule exec_spec) (auto intro: assms(2))
qed

text \<open>Blocks that nobody references agree with the disk and are not held.\<close>

lemma unreferenced:
  assumes "bready L p s" and "c_ref (cabs s) k = 0"
  shows "c_content (cabs s) k = c_disk (cabs s) k \<and> c_held (cabs s) k = None"
proof (cases "slot (bufs s) k")
  case None
  then show ?thesis by (simp add: cabs_def cabs_of_def)
next
  case (Some b)
  obtain xs where wf: "bc_wf (p_pid (procs s p)) (disk s) (slocks s) (bufs s) xs"
    using assms(1) by (auto simp: bready_def bc_inv_def)
  have c: "b < NBUF" "key (bufs s b) = k" "\<not> clean (bufs s b)"
    using slot_Some [OF Some] by (auto simp: cached_def)
  have "b_refcnt (bufs s b) = 0"
    using assms(2) Some by (simp add: cabs_def cabs_of_def unat_eq_0)
  then show ?thesis
    using bc_wf_ok [OF wf c(1)] c(2,3) Some by (auto simp: cabs_def cabs_of_def buf_ok_def clean_def)
qed

lemma exec_unreferenced:
  assumes "(\<And>k. c_ref c k = 0 \<Longrightarrow> c_content c k = c_disk c k \<and> c_held c k = None) \<Longrightarrow> exec L p c s f L' R"
  shows "exec L p c s f L' R"
proof (rule execI)
  fix s0
  assume s0: "bready L p s0" "cabs s0 = c" "bio_same s s0"
  then have "c_ref c k = 0 \<Longrightarrow> c_content c k = c_disk c k \<and> c_held c k = None" for k
    using unreferenced [OF s0(1), of k] by simp
  from assms [OF this] s0
  show "wp f (\<lambda>x t. bready L' p t \<and> (\<exists>s1. bio_same s1 t \<and> R x (cabs t) s1)) s0"
    by (simp add: exec_def)
qed

text \<open>Only finitely many blocks are referenced: no more than there are buffers.\<close>

lemma referenced_finite: "finite {k. c_ref (cabs s) k \<noteq> 0}"
proof (rule finite_subset)
  show "{k. c_ref (cabs s) k \<noteq> 0} \<subseteq> (\<lambda>b. key (bufs s b)) ` {0..<NBUF}"
  proof
    fix k
    assume "k \<in> {k. c_ref (cabs s) k \<noteq> 0}"
    then obtain b where "slot (bufs s) k = Some b"
      by (cases "slot (bufs s) k") (auto simp: cabs_def cabs_of_def)
    then have "b < NBUF" "key (bufs s b) = k" using slot_Some by (auto simp: cached_def)
    then show "k \<in> (\<lambda>b. key (bufs s b)) ` {0..<NBUF}" by force
  qed
qed simp

lemma exec_finite:
  assumes "finite {k. c_ref c k \<noteq> 0} \<Longrightarrow> exec L p c s f L' R"
  shows "exec L p c s f L' R"
  using assms referenced_finite unfolding exec_def by blast

lemma busy_mono:
  assumes "finite {k. c_ref c k \<noteq> 0}" and "\<And>k. c_ref c k = 0 \<longrightarrow> c_ref c' k = 0"
  shows "busy c' \<le> busy c"
  unfolding busy_def
proof (rule card_mono [OF assms(1)], rule Collect_mono, rule impI)
  fix k
  assume "c_ref c' k \<noteq> 0"
  with assms(2) [of k] show "c_ref c k \<noteq> 0" by auto
qed

section \<open>Spinlocks, wakeups and the current process\<close>

definition cache_lock :: "lockid \<Rightarrow> bool" where
  "cache_lock l \<longleftrightarrow> (case l of BcacheLock \<Rightarrow> True | SleepLk x \<Rightarrow> True | ProcLock q \<Rightarrow> True | _ \<Rightarrow> False)"

lemma acq_bio_simps [simp]: "bio.more (acq l s) = bio.more s" "cabs (acq l s) = cabs s"
  by (simp_all add: acq_def cabs_def)

lemma calm_acq: "calm s t \<Longrightarrow> calm (acq l s) (acq l t)"
  unfolding calm_def using hw_bal_acq by auto

lemma bio_same_acq: "bio_same s t \<Longrightarrow> bio_same (acq l s) (acq l t)"
  by (simp add: bio_same_def calm_acq)

lemma bready_acq: "bready L p s \<Longrightarrow> \<not> cache_lock l \<Longrightarrow> bready (insert l L) p (acq l s)"
  unfolding bready_def using settled_acq by (auto simp: bc_inv_def cache_lock_def split: lockid.splits)

lemma exec_acquire:
  assumes "l \<notin> L" and "\<not> cache_lock l" and "settled L s \<Longrightarrow> exec (insert l L) p c (acq l s) g L' R"
  shows "exec L p c s (thn (acquire l) g) L' R"
proof (rule execI)
  fix s0
  assume s0: "bready L p s0" "cabs s0 = c" "bio_same s s0"
  then have st: "settled L s0" "settled L s"
    using calm_settled by (auto simp: bready_def bio_same_def)
  have "acquire l s0 = Done () (acq l s0)"
    by (rule run_acquire_settled [OF st(1) assms(1)])
  moreover have "wp g (\<lambda>x t. bready L' p t \<and> (\<exists>s1. bio_same s1 t \<and> R x (cabs t) s1)) (acq l s0)"
    using assms(3) [OF st(2)] s0 bready_acq [OF s0(1) assms(2)] bio_same_acq [OF s0(3)]
    by (simp add: exec_def)
  ultimately show "wp (thn (acquire l) g) (\<lambda>x t. bready L' p t \<and> (\<exists>s1. bio_same s1 t \<and> R x (cabs t) s1)) s0"
    by (simp add: wp_def run)
qed

lemma more_bio_fields:
  "pst.more t = pst.more s \<Longrightarrow> bufs t = bufs s \<and> slocks t = slocks s \<and> disk t = disk s \<and> cabs t = cabs s \<and> bio.more t = bio.more s"
  using more_bufs more_slocks more_disk more_disk_writes more_bio by (metis cabs_def)

lemma acq_with_more: "acq l (with_more s m) = with_more (acq l s) m"
  by (cases s) (simp add: acq_def irq_on_def)

lemma release_from_acq:
  assumes "settled L s" and "l \<notin> L" and "bready (insert l L) p s0" and "bio_same (acq l s) s0"
  shows "\<exists>t. release l s0 = Done () t \<and> bready L p t \<and> bio_same s t \<and> cabs t = cabs s0"
proof -
  let ?s = "with_more s (pst.more s0)"
  have "does (release l) (acq l ?s) () ?s"
    using assms(1,2) by (intro does_release) simp_all
  moreover have "eqv (acq l ?s) s0"
    using assms(4) by (simp add: eqv_def bio_same_def acq_with_more)
  ultimately obtain t where t: "release l s0 = Done () t" "eqv ?s t"
    unfolding does_def by blast
  have more: "pst.more t = pst.more s0" and c: "calm s t"
    using t(2) by (auto simp: eqv_def)
  note f = more_bio_fields [OF more]
  have p: "p_pid (procs t p) = p_pid (procs s0 p)"
    using calm_pid [OF c, of p] calm_pid [of "acq l s" s0 p] assms(4) by (simp add: bio_same_def)
  have "bready L p t"
    using assms(1,3) c f p calm_settled [OF c] calm_curproc [OF c] calm_curproc [of "acq l s" s0] assms(4)
    by (auto simp: bready_def bc_inv_def bio_same_def)
  moreover have "bio_same s t"
    using c f assms(4) by (simp add: bio_same_def)
  ultimately show ?thesis using t(1) f by blast
qed

lemma exec_release:
  assumes "settled L s" and "l \<notin> L" and "exec L p c s g L' R"
  shows "exec (insert l L) p c (acq l s) (thn (release l) g) L' R"
proof (rule execI)
  fix s0
  assume s0: "bready (insert l L) p s0" "cabs s0 = c" "bio_same (acq l s) s0"
  obtain t where t: "release l s0 = Done () t" "bready L p t" "bio_same s t" "cabs t = cabs s0"
    using release_from_acq [OF assms(1,2) s0(1,3)] by blast
  then show "wp (thn (release l) g) (\<lambda>x t. bready L' p t \<and> (\<exists>s1. bio_same s1 t \<and> R x (cabs t) s1)) s0"
    using assms(3) s0(2) by (simp add: exec_def wp_def run)
qed

lemma exec_does:
  assumes "\<And>s0. bready L p s0 \<Longrightarrow> does f s0 r s0" and "exec L p c s (g r) L' R"
  shows "exec L p c s (bnd f g) L' R"
proof (rule execI)
  fix s0
  assume s0: "bready L p s0" "cabs s0 = c" "bio_same s s0"
  obtain t where t: "f s0 = Done r t" "eqv s0 t"
    using doesD [OF assms(1) [OF s0(1)]] by blast
  have "bready L p t" "cabs t = c" "bio_same s t"
    using s0 t(2) bready_eqv cabs_eqv bio_same_eqv by auto
  then show "wp (bnd f g) (\<lambda>x t. bready L' p t \<and> (\<exists>s1. bio_same s1 t \<and> R x (cabs t) s1)) s0"
    using assms(2) t(1) by (simp add: exec_def wp_def run)
qed

lemma exec_wakeup: "exec L p c s g L' R \<Longrightarrow> exec L p c s (thn (wakeup ch) g) L' R"
  unfolding thn_def by (rule exec_does [where r = "()"]) (auto simp: bready_def intro: does_wakeup)

lemma exec_curp: "exec L p c s (g p) L' R \<Longrightarrow> exec L p c s (bnd curp g) L' R"
  by (rule exec_does [where r = p]) (auto simp: bready_def intro: does_curp)

section \<open>Loops\<close>

lemma exec_for_all:
  assumes "I xs c s" and "\<And>x ys c s. I (x # ys) c s \<Longrightarrow> exec L p c s (body x) L (\<lambda>_. I ys)"
  shows "exec L p c s (for_all xs body) L (\<lambda>_. I [])"
  using assms(1)
proof (induction xs arbitrary: c s)
  case Nil
  then show ?case by (simp add: exec_skip)
next
  case (Cons x xs)
  show ?case
    by (simp, rule exec_thn [OF assms(2) [OF Cons.prems]]) (rule Cons.IH)
qed

text \<open>
  A counting loop whose turns take the cache through the states \<open>C 0\<close>, \<open>C 1\<close>, ... and the
  state above it through \<open>S 0\<close>, \<open>S 1\<close>, ....
\<close>

lemma exec_for_seq:
  assumes "\<And>i. i < n \<Longrightarrow> exec L p (C i) (S i) (body i) L (\<lambda>_ c' s'. c' = C (Suc i) \<and> s' = S (Suc i))"
  shows "exec L p (C 0) (S 0) (for_all [0..<n] body) L (\<lambda>_ c' s'. c' = C n \<and> s' = S n)"
proof -
  have "exec L p (C m) (S m) (for_all [m..<n] body) L (\<lambda>_ c' s'. c' = C n \<and> s' = S n)" if "m \<le> n" for m
    using that
  proof (induction "n - m" arbitrary: m)
    case 0
    then show ?case by (simp add: exec_skip)
  next
    case (Suc d)
    then have m: "m < n" by simp
    then have l: "[m..<n] = m # [Suc m..<n]" by (rule upt_conv_Cons)
    show ?case
      unfolding l for_all.simps
    proof (rule exec_thn [OF assms [OF m]])
      fix c' s'
      assume "c' = C (Suc m) \<and> s' = S (Suc m)"
      then show "exec L p c' s' (for_all [Suc m..<n] body) L (\<lambda>_ c' s'. c' = C n \<and> s' = S n)"
        using Suc.hyps(1) [of "Suc m"] Suc.hyps(2) Suc.prems m by simp
    qed
  qed
  then show ?thesis by simp
qed

lemma exec_for_count:
  assumes "\<And>i. i < n \<Longrightarrow> exec L p (C i) s (body i) L (\<lambda>_ c' s'. c' = C (Suc i) \<and> s' = s)"
  shows "exec L p (C 0) s (for_all [0..<n] body) L (\<lambda>_ c' s'. c' = C n \<and> s' = s)"
  using exec_for_seq [where S = "\<lambda>_. s"] assms by blast

text \<open>Facts on the fields above the cache, collected component by component.\<close>

named_theorems sames "what states that agree above the cache have in common"

end
