(* ===== verification/Log.thy ===== *)
theory Log
  imports Exec
begin

text \<open>
  The write-ahead log (\<^verbatim>\<open>kernel/log.c\<close>): transactions, commit, recovery.  The
  header block is encoded in the bytes of its block as \<^verbatim>\<open>struct logheader\<close> lies
  there.  \<^verbatim>\<open>begin_op()\<close> may sleep and is cut at the switch like the functions of
  \<open>Sched\<close>.
\<close>

section \<open>Little-endian words in a block\<close>

definition get32 :: "block \<Rightarrow> nat \<Rightarrow> u32" where
  "get32 d i = ucast (d i) OR push_bit 8 (ucast (d (i + 1))) OR push_bit 16 (ucast (d (i + 2)))
     OR push_bit 24 (ucast (d (i + 3)))"

definition put32 :: "nat \<Rightarrow> u32 \<Rightarrow> block \<Rightarrow> block" where
  "put32 i v d = d(i := ucast v, i + 1 := ucast (drop_bit 8 v), i + 2 := ucast (drop_bit 16 v),
     i + 3 := ucast (drop_bit 24 v))"

section \<open>State\<close>

text \<open>
  \<^verbatim>\<open>struct log\<close> with its \<^verbatim>\<open>struct logheader\<close>.  \<^verbatim>\<open>start\<close>
  and the block numbers are only added to and compared as \<^verbatim>\<open>uint\<close> and kept as words.
\<close>

record log_t =
  lg_start :: u32
  lg_size :: int
  lg_outstanding :: int
  lg_committing :: bool
  lg_dev :: u32
  lh_n :: int
  lh_block :: "nat \<Rightarrow> u32"

record lgst = bio +
  logs :: "u32 \<Rightarrow> log_t"

definition LogLk :: "u32 \<Rightarrow> lockid" where
  "LogLk dev = LogLock (unat dev)"

definition get_log :: "u32 \<Rightarrow> (log_t \<Rightarrow> 'a) \<Rightarrow> ('z lgst_scheme, 'a) kop" where
  "get_log dev f = gets (\<lambda>s. f (logs s dev))"

definition upd_log :: "u32 \<Rightarrow> (log_t \<Rightarrow> log_t) \<Rightarrow> ('z lgst_scheme, unit) kop" where
  "upd_log dev f = modify (\<lambda>s. s\<lparr>logs := upd (logs s) dev f\<rparr>)"

section \<open>Commit and recovery\<close>

text \<open>Copy committed blocks from the log to their home location.\<close>

definition install_step :: "u32 \<Rightarrow> nat \<Rightarrow> ('z lgst_scheme, unit) kop" where
  "install_step dev tail =
     bnd (get_log dev lg_start) (\<lambda>start.
     bnd (bread dev (start + of_nat tail + 1)) (\<lambda>lbuf.
     bnd (get_log dev (\<lambda>l. lh_block l tail)) (\<lambda>home.
     bnd (bread dev home) (\<lambda>dbuf.
     bnd (get_buf lbuf b_data) (\<lambda>d.
     thn (upd_data dbuf (\<lambda>_. d)) (
     thn (bwrite dbuf) (
     thn (bunpin dbuf) (
     thn (brelse lbuf) (
     brelse dbuf)))))))))"

definition install_trans :: "u32 \<Rightarrow> ('z lgst_scheme, unit) kop" where
  "install_trans dev = bnd (get_log dev lh_n) (\<lambda>n. for_all [0..<nat n] (install_step dev))"

definition read_head :: "u32 \<Rightarrow> ('z lgst_scheme, unit) kop" where
  "read_head dev =
     bnd (get_log dev lg_start) (\<lambda>start.
     bnd (bread dev start) (\<lambda>b.
     bnd (get_buf b b_data) (\<lambda>d.
     thn (upd_log dev (\<lambda>l. l\<lparr>lh_n := sint (get32 d 0)\<rparr>)) (
     bnd (get_log dev lh_n) (\<lambda>n.
     thn (for_all [0..<nat n] (\<lambda>i.
       upd_log dev (\<lambda>l. l\<lparr>lh_block := (lh_block l)(i := get32 d (4 + 4 * i))\<rparr>))) (
     brelse b))))))"

definition write_head :: "u32 \<Rightarrow> ('z lgst_scheme, unit) kop" where
  "write_head dev =
     bnd (get_log dev lg_start) (\<lambda>start.
     bnd (bread dev start) (\<lambda>b.
     bnd (get_log dev lh_n) (\<lambda>n.
     thn (upd_data b (put32 0 (word_of_int n))) (
     thn (for_all [0..<nat n] (\<lambda>i.
       bnd (get_log dev (\<lambda>l. lh_block l i)) (\<lambda>bn.
       upd_data b (put32 (4 + 4 * i) bn)))) (
     thn (bwrite b) (
     brelse b))))))"

definition recover_from_log :: "u32 \<Rightarrow> ('z lgst_scheme, unit) kop" where
  "recover_from_log dev =
     thn (read_head dev) (
     thn (install_trans dev) (
     thn (upd_log dev (\<lambda>l. l\<lparr>lh_n := 0\<rparr>)) (
     write_head dev)))"

definition initlog :: "u32 \<Rightarrow> u32 \<Rightarrow> u32 \<Rightarrow> ('z lgst_scheme, unit) kop" where
  "initlog dev logstart nlog =
     thn (panic_if (4 + 4 * LOGSIZE \<ge> BSIZE) ''initlog: too big logheader'') (
     thn (initlock (LogLk dev) ''log'') (
     thn (upd_log dev (\<lambda>l. l\<lparr>lg_start := logstart, lg_size := sint nlog, lg_dev := dev\<rparr>)) (
     recover_from_log dev)))"

text \<open>Copy modified blocks from the cache to the log.\<close>

definition write_log_step :: "u32 \<Rightarrow> nat \<Rightarrow> ('z lgst_scheme, unit) kop" where
  "write_log_step dev tail =
     bnd (get_log dev lg_start) (\<lambda>start.
     bnd (bread dev (start + of_nat tail + 1)) (\<lambda>to.
     bnd (get_log dev (\<lambda>l. lh_block l tail)) (\<lambda>home.
     bnd (bread dev home) (\<lambda>from.
     bnd (get_buf from b_data) (\<lambda>d.
     thn (upd_data to (\<lambda>_. d)) (
     thn (bwrite to) (
     thn (brelse from) (
     brelse to))))))))"

definition write_log :: "u32 \<Rightarrow> ('z lgst_scheme, unit) kop" where
  "write_log dev = bnd (get_log dev lh_n) (\<lambda>n. for_all [0..<nat n] (write_log_step dev))"

definition commit :: "u32 \<Rightarrow> ('z lgst_scheme, unit) kop" where
  "commit dev =
     bnd (get_log dev lh_n) (\<lambda>n.
     whenM (n > 0) (
       thn (write_log dev) (
       thn (write_head dev) (
       thn (install_trans dev) (
       thn (upd_log dev (\<lambda>l. l\<lparr>lh_n := 0\<rparr>)) (
       write_head dev))))))"

section \<open>Transactions\<close>

text \<open>The loop of \<^verbatim>\<open>begin_op()\<close>, entered with the log's lock held.\<close>

definition begin_op_loop :: "u32 \<Rightarrow> ('z lgst_scheme, unit) kop" where
  "begin_op_loop dev =
     bnd (get_log dev id) (\<lambda>l.
     if lg_committing l then sleep LogChan (LogLk dev)
     else if lh_n l + (lg_outstanding l + 1) * int MAXOPBLOCKS > int LOGSIZE then sleep LogChan (LogLk dev)
     else
     thn (upd_log dev (\<lambda>l. l\<lparr>lg_outstanding := lg_outstanding l + 1\<rparr>)) (
     release (LogLk dev)))"

definition begin_op :: "u32 \<Rightarrow> ('z lgst_scheme, unit) kop" where
  "begin_op dev = thn (acquire (LogLk dev)) (begin_op_loop dev)"

definition begin_op_resume :: "bool \<Rightarrow> nat \<Rightarrow> u32 \<Rightarrow> ('z lgst_scheme, unit) kop" where
  "begin_op_resume intena p dev = thn (sleep_resume intena p (LogLk dev)) (begin_op_loop dev)"

definition end_op :: "u32 \<Rightarrow> ('z lgst_scheme, unit) kop" where
  "end_op dev =
     thn (acquire (LogLk dev)) (
     thn (upd_log dev (\<lambda>l. l\<lparr>lg_outstanding := lg_outstanding l - 1\<rparr>)) (
     bnd (get_log dev id) (\<lambda>l.
     thn (panic_if (lg_committing l) ''log[dev].committing'') (
     bnd (if lg_outstanding l = 0
          then thn (upd_log dev (\<lambda>l. l\<lparr>lg_committing := True\<rparr>)) (ret True)
          else thn (wakeup LogChan) (ret False)) (\<lambda>do_commit.
     thn (release (LogLk dev)) (
     whenM do_commit (
       thn (commit dev) (
       thn (acquire (LogLk dev)) (
       thn (upd_log dev (\<lambda>l. l\<lparr>lg_committing := False\<rparr>)) (
       thn (wakeup LogChan) (
       release (LogLk dev))))))))))))"

definition log_write :: "nat \<Rightarrow> ('z lgst_scheme, unit) kop" where
  "log_write b =
     bnd (get_buf b b_dev) (\<lambda>dev.
     bnd (get_log dev id) (\<lambda>l.
     thn (panic_if (lh_n l \<ge> int LOGSIZE \<or> lh_n l \<ge> lg_size l - 1) ''too big a transaction'') (
     thn (panic_if (lg_outstanding l < 1) ''log_write outside of trans'') (
     thn (acquire (LogLk dev)) (
     bnd (get_buf b b_blockno) (\<lambda>bn.
     bnd (get_log dev lh_n) (\<lambda>n.
     bnd (for_ret [0..<nat n] (\<lambda>i.
       get_log dev (\<lambda>l. if lh_block l i = bn then Some i else None))) (\<lambda>r.
     let i = (case r of Some i \<Rightarrow> i | None \<Rightarrow> nat n) in
     thn (upd_log dev (\<lambda>l. l\<lparr>lh_block := (lh_block l)(i := bn)\<rparr>)) (
     thn (whenM (int i = n) (
       thn (bpin b) (
       upd_log dev (\<lambda>l. l\<lparr>lh_n := lh_n l + 1\<rparr>)))) (
     release (LogLk dev)))))))))))"

text \<open>
  \<^verbatim>\<open>crash_op()\<close>: the aid of the crash test, it always ends in a panic.
  \<^verbatim>\<open>docommit & do_commit\<close> is bitwise.  A negative \<^verbatim>\<open>dev\<close> is a large
  word here, and the line printed before the commit is left out.
\<close>

definition crash_op :: "u32 \<Rightarrow> u32 \<Rightarrow> ('z lgst_scheme, unit) kop" where
  "crash_op dev docommit =
     thn (acquire (LogLk dev)) (
     thn (panic_if (unat dev \<ge> NDISK) ''end_op: invalid disk'') (
     bnd (get_log dev lg_outstanding) (\<lambda>out.
     thn (panic_if (out = 0) ''end_op: already closed'') (
     thn (upd_log dev (\<lambda>l. l\<lparr>lg_outstanding := lg_outstanding l - 1\<rparr>)) (
     bnd (get_log dev id) (\<lambda>l.
     thn (panic_if (lg_committing l) ''log[dev].committing'') (
     bnd (if lg_outstanding l = 0
          then thn (upd_log dev (\<lambda>l. l\<lparr>lg_committing := True\<rparr>)) (ret 1)
          else ret 0) (\<lambda>do_commit.
     thn (release (LogLk dev)) (
     thn (whenM (docommit AND do_commit \<noteq> 0) (
       bnd (get_log dev lh_n) (\<lambda>n.
       whenM (n > 0) (
         thn (write_log dev) (
         write_head dev))))) (
     panic ''crashed file system; please restart xv6 and run crashtest\<newline>''))))))))))"

section \<open>Words and headers\<close>

lemma bit_u8_ge: "8 \<le> n \<Longrightarrow> \<not> bit (x :: u8) n"
  using bit_u8_bound [of x n] by auto

lemma bit_get32: "bit (get32 d i) n \<longleftrightarrow> n < 32 \<and> bit (d (i + n div 8)) (n mod 8)"
proof (cases "n < 32")
  case True
  obtain q r where n: "n = 8 * q + r" "r < 8" "q = n div 8" "r = n mod 8" by simp
  then have "q = 0 \<or> q = 1 \<or> q = 2 \<or> q = 3" using True by auto
  then show ?thesis
    unfolding n(3,4) [symmetric] unfolding n(1) using n(2)
    by (elim disjE) (simp_all add: get32_def bit_simps bit_u8_ge)
next
  case False
  then show ?thesis using bit_imp_le_length [of "get32 d i" n] by auto
qed

lemma bit_put32: "bit (put32 i v d (i + k)) n = (if k < 4 then n < 8 \<and> bit v (8 * k + n) else bit (d (i + k)) n)"
proof -
  have "k = 0 \<or> k = 1 \<or> k = 2 \<or> k = 3 \<or> 4 \<le> k" by auto
  then show ?thesis
    by (elim disjE) (auto simp: put32_def bit_simps)
qed

lemma get32_put32 [simp]: "get32 (put32 i v d) i = v"
proof (rule bit_word_eqI)
  fix n
  assume "n < LENGTH(32)"
  then show "bit (get32 (put32 i v d) i) n = bit v n"
    by (simp add: bit_get32 bit_put32 less_mult_imp_div_less)
qed

lemma put32_other: "j < i \<or> i + 4 \<le> j \<Longrightarrow> put32 i v d j = d j"
  by (auto simp: put32_def)

lemma get32_put32_other: "i + 4 \<le> j \<or> j + 4 \<le> i \<Longrightarrow> get32 (put32 i v d) j = get32 d j"
  by (auto simp: get32_def put32_other)

text \<open>The header block with \<open>n\<close> and the first \<open>m\<close> block numbers stored in it.\<close>

primrec put_blocks :: "nat \<Rightarrow> (nat \<Rightarrow> u32) \<Rightarrow> block \<Rightarrow> block" where
  "put_blocks 0 f d = d"
| "put_blocks (Suc m) f d = put32 (4 + 4 * m) (f m) (put_blocks m f d)"

definition head_block :: "int \<Rightarrow> (nat \<Rightarrow> u32) \<Rightarrow> block \<Rightarrow> block" where
  "head_block n f d = put_blocks (nat n) f (put32 0 (word_of_int n) d)"

lemma get32_put_blocks_n [simp]: "get32 (put_blocks m f d) 0 = get32 d 0"
  by (induction m) (simp_all add: get32_put32_other)

lemma get32_put_blocks: "i < m \<Longrightarrow> get32 (put_blocks m f d) (4 + 4 * i) = f i"
  by (induction m) (auto simp: less_Suc_eq get32_put32_other)

lemma head_block_n: "0 \<le> n \<Longrightarrow> n \<le> int LOGSIZE \<Longrightarrow> sint (get32 (head_block n f d) 0) = n"
  by (simp add: head_block_def param_defs signed_of_int signed_take_bit_int_eq_self)

lemma head_block_nth: "i < nat n \<Longrightarrow> get32 (head_block n f d) (4 + 4 * i) = f i"
  by (simp add: head_block_def get32_put_blocks)

section \<open>Rules\<close>

lemma more_logs: "bio.more t = bio.more s \<Longrightarrow> logs t = logs s"
  by (cases s; cases t) simp

lemma more_logs_upd: "bio.more t = bio.more s \<Longrightarrow> bio.more (t\<lparr>logs := f\<rparr>) = bio.more (s\<lparr>logs := f\<rparr>)"
  by (cases s; cases t) simp

lemma frame_logs [simp]:
  "calm s (t\<lparr>logs := f\<rparr>) = calm s t" "calm (s\<lparr>logs := f\<rparr>) t = calm s t"
  "settled L (s\<lparr>logs := f\<rparr>) = settled L s" "curproc (s\<lparr>logs := f\<rparr>) = curproc s"
  "logs (acq l s) = logs s" "(acq l s)\<lparr>logs := f\<rparr> = acq l (s\<lparr>logs := f\<rparr>)"
  "cabs (s\<lparr>logs := f\<rparr>) = cabs s" "bready L p (s\<lparr>logs := f\<rparr>) = bready L p s"
  by (simp_all add: calm_def hw_bal_def depth_def curproc_def irq_on_def settled_def irq_wf_def
      lk_clean_def acq_def cabs_def bready_def bc_inv_def)

lemma same_logs [sames]:
  "bio_same s t \<Longrightarrow> logs t = logs s" "bio_same s t \<Longrightarrow> bio_same (s\<lparr>logs := f\<rparr>) (t\<lparr>logs := f\<rparr>)"
  unfolding bio_same_def using more_logs more_logs_upd by auto

lemma exec_get_log:
  "exec L p c s (g (f (logs s dev))) L' R \<Longrightarrow> exec L p c s (bnd (get_log dev f) g) L' R"
  unfolding get_log_def by (rule exec_gets) (simp_all add: sames)

lemma exec_upd_log:
  "exec L p c (s\<lparr>logs := upd (logs s) dev f\<rparr>) g L' R \<Longrightarrow> exec L p c s (thn (upd_log dev f) g) L' R"
  unfolding upd_log_def by (rule exec_modify) (simp_all add: sames)

end
