(* ===== verification/Commit.thy ===== *)
theory Commit
  imports Log
begin

text \<open>
  Commit and recovery.  Both are executed against the cache specification; the disk writes of a
  commit are determined exactly, and recovery is shown to complete a transaction from any prefix
  of them.
\<close>

section \<open>Blocks of a transaction\<close>

text \<open>The header block, the log blocks and the home blocks of the transaction in \<open>l\<close>.\<close>

definition head_key :: "u32 \<Rightarrow> log_t \<Rightarrow> bkey" where
  "head_key dev l = (dev, lg_start l)"

definition log_key :: "u32 \<Rightarrow> log_t \<Rightarrow> nat \<Rightarrow> bkey" where
  "log_key dev l i = (dev, lg_start l + of_nat i + 1)"

definition home_key :: "u32 \<Rightarrow> log_t \<Rightarrow> nat \<Rightarrow> bkey" where
  "home_key dev l i = (dev, lh_block l i)"

definition len :: "log_t \<Rightarrow> nat" where
  "len l = nat (lh_n l)"

text \<open>Writing a block through the cache and to the disk at once.\<close>

definition sp_store :: "bkey \<Rightarrow> block \<Rightarrow> cache \<Rightarrow> cache" where
  "sp_store k v c = c\<lparr>c_disk := (c_disk c)(k := v), c_writes := c_writes c @ [(k, v)],
     c_content := (c_content c)(k := v)\<rparr>"

definition replay :: "(bkey \<times> block) list \<Rightarrow> (bkey \<Rightarrow> block) \<Rightarrow> bkey \<Rightarrow> block" where
  "replay ws d = foldl (\<lambda>d (k, v). d(k := v)) d ws"

definition stores :: "(bkey \<times> block) list \<Rightarrow> cache \<Rightarrow> cache" where
  "stores ws c = c\<lparr>c_disk := replay ws (c_disk c), c_writes := c_writes c @ ws,
     c_content := replay ws (c_content c)\<rparr>"

lemma replay_Nil [simp]: "replay [] d = d"
  by (simp add: replay_def)

lemma replay_snoc [simp]: "replay (ws @ [(k, v)]) d = (replay ws d)(k := v)"
  by (simp add: replay_def)

lemma replay_append: "replay (ws @ vs) d = replay vs (replay ws d)"
  by (simp add: replay_def)

lemma replay_notin: "k \<notin> fst ` set ws \<Longrightarrow> replay ws d k = d k"
  by (induction ws rule: rev_induct) (auto simp: replay_def split: prod.splits)

lemma replay_in:
  "distinct (map fst ws) \<Longrightarrow> (k, v) \<in> set ws \<Longrightarrow> replay ws d k = v"
proof (induction ws rule: rev_induct)
  case Nil
  then show ?case by simp
next
  case (snoc w ws)
  obtain q u where w: "w = (q, u)" by (cases w)
  show ?case
  proof (cases "k = q")
    case True
    then have "(k, v) \<notin> set ws" using snoc.prems(1) w by (auto simp: image_iff)
    then show ?thesis using snoc.prems(2) True w by auto
  next
    case False
    then show ?thesis using snoc w by auto
  qed
qed

lemma stores_snoc: "stores (ws @ [(k, v)]) c = sp_store k v (stores ws c)"
  by (simp add: stores_def sp_store_def)

lemma stores_simps [simp]:
  "c_disk (stores ws c) = replay ws (c_disk c)" "c_content (stores ws c) = replay ws (c_content c)"
  "c_writes (stores ws c) = c_writes c @ ws" "c_ref (stores ws c) = c_ref c" "c_held (stores ws c) = c_held c"
  by (simp_all add: stores_def)

lemma stores_append: "stores vs (stores ws c) = stores (ws @ vs) c"
  by (simp add: stores_def replay_append)

lemma stores_Nil [simp]: "stores [] c = c"
  by (simp add: stores_def)

lemmas sp_defs = sp_bread_def sp_bwrite_def sp_set_def sp_brelse_def sp_bpin_def sp_bunpin_def sp_store_def

section \<open>One block\<close>

text \<open>The body of \<^verbatim>\<open>write_log()\<close>: a cached block reaches its place in the log.\<close>

lemma exec_log_block:
  assumes "lk \<noteq> hk" and "c_ref c lk = 0" and "0 < c_ref c hk" and "c_held c hk = None"
    and "c_ref c hk + 1 < 2 ^ 32" and "busy c < NBUF"
    and "lk = (dev, lg_start (logs s dev) + of_nat i + 1)" and "hk = (dev, lh_block (logs s dev) i)"
  shows "exec L p c s (write_log_step dev i)
     L (\<lambda>_ c' s'. c' = sp_store lk (c_content c hk) c \<and> s' = s)"
proof (rule exec_unreferenced)
  assume un: "\<And>k. c_ref c k = 0 \<Longrightarrow> c_content c k = c_disk c k \<and> c_held c k = None"
  let ?v = "c_content c hk"
  have held: "c_held c lk = None" using un assms(2) by simp
  have fin: "sp_brelse lk (sp_brelse hk (sp_bwrite lk (sp_set lk ?v (sp_bread hk b2 (sp_bread lk b1 c))))) = sp_store lk ?v c"
    for b1 b2
    by (rule cache_eqI) (use assms held in \<open>auto simp: sp_defs\<close>)
  have v: "c_content (sp_bread hk b2 (sp_bread lk b1 c)) hk = ?v" for b1 b2
    by (simp add: sp_defs)
  note side = sp_defs has_room_def assms(1-6) assms(1) [symmetric] assms(5) [simplified] gr_implies_not0 [OF assms(3)] held
  show ?thesis
    unfolding write_log_step_def
    apply (rule exec_get_log, rule exec_bread, unfold assms(7) [symmetric], (simp_all add: side)[3])
    apply (rule exec_get_log, rule exec_bread, unfold assms(8) [symmetric], (simp_all add: side)[3])
    apply (rule exec_get_data [where k = hk], (simp add: side)[1])
    apply (rule exec_upd_data [where k = lk], (simp add: side)[1], unfold v)
    apply (rule exec_bwrite [where k = lk], (simp add: side)[1])
    apply (rule exec_brelse [where k = hk], (simp_all add: side)[2])
    apply (rule exec_tail, rule exec_brelse [where k = lk], (simp_all add: side)[2])
    apply (rule exec_skip, simp only: fin)
    done
qed

text \<open>
  The body of \<^verbatim>\<open>install_trans()\<close> in a commit: a block that the transaction pinned goes
  to its home location, and its pin is given back.
\<close>

definition sp_unref :: "bkey \<Rightarrow> cache \<Rightarrow> cache" where
  "sp_unref k c = c\<lparr>c_ref := (c_ref c)(k := c_ref c k - 1)\<rparr>"

lemma exec_install_block:
  assumes "lk \<noteq> hk" and "c_ref c lk = 0" and "0 < c_ref c hk" and "c_held c hk = None"
    and "c_ref c hk + 1 < 2 ^ 32" and "busy c < NBUF"
    and "lk = (dev, lg_start (logs s dev) + of_nat i + 1)" and "hk = (dev, lh_block (logs s dev) i)"
  shows "exec L p c s (install_step dev i)
     L (\<lambda>_ c' s'. c' = sp_unref hk (sp_store hk (c_content c lk) c) \<and> s' = s)"
proof (rule exec_unreferenced)
  assume un: "\<And>k. c_ref c k = 0 \<Longrightarrow> c_content c k = c_disk c k \<and> c_held c k = None"
  let ?v = "c_content c lk"
  have held: "c_held c lk = None" using un assms(2) by simp
  have fin: "sp_brelse hk (sp_brelse lk (sp_bunpin hk (sp_bwrite hk (sp_set hk ?v (sp_bread hk b2 (sp_bread lk b1 c))))))
      = sp_unref hk (sp_store hk ?v c)" for b1 b2
    by (rule cache_eqI) (use assms held in \<open>auto simp: sp_defs sp_unref_def\<close>)
  have v: "c_content (sp_bread hk b2 (sp_bread lk b1 c)) lk = ?v" for b1 b2
    by (simp add: sp_defs)
  note side = sp_defs has_room_def assms(1-6) assms(1) [symmetric] assms(5) [simplified]
    gr_implies_not0 [OF assms(3)] held un [OF assms(2)]
  show ?thesis
    unfolding install_step_def
    apply (rule exec_get_log, rule exec_bread, unfold assms(7) [symmetric], (simp_all add: side)[3])
    apply (rule exec_get_log, rule exec_bread, unfold assms(8) [symmetric], (simp_all add: side)[3])
    apply (rule exec_get_data [where k = lk], (simp add: side)[1])
    apply (rule exec_upd_data [where k = hk], (simp add: side)[1], unfold v)
    apply (rule exec_bwrite [where k = hk], (simp add: side)[1])
    apply (rule exec_bunpin [where k = hk], (simp_all add: side)[2])
    apply (rule exec_brelse [where k = lk], (simp_all add: side)[2])
    apply (rule exec_tail, rule exec_brelse [where k = hk], (simp_all add: side)[2])
    apply (rule exec_skip, simp only: fin)
    done
qed

section \<open>The header\<close>

lemma exec_put_blocks:
  assumes "c_held c k = Some b"
  shows "exec L p c s (for_all [0..<n] (\<lambda>i.
       bnd (get_log dev (\<lambda>l. lh_block l i)) (\<lambda>bn. upd_data b (put32 (4 + 4 * i) bn)))) L
     (\<lambda>_ c' s'. c' = sp_set k (put_blocks n (lh_block (logs s dev)) (c_content c k)) c \<and> s' = s)"
proof -
  let ?C = "\<lambda>i. sp_set k (put_blocks i (lh_block (logs s dev)) (c_content c k)) c"
  have "exec L p (?C 0) s (for_all [0..<n] (\<lambda>i.
       bnd (get_log dev (\<lambda>l. lh_block l i)) (\<lambda>bn. upd_data b (put32 (4 + 4 * i) bn)))) L
     (\<lambda>_ c' s'. c' = ?C n \<and> s' = s)"
  proof (rule exec_for_count)
    fix i
    show "exec L p (?C i) s (bnd (get_log dev (\<lambda>l. lh_block l i)) (\<lambda>bn. upd_data b (put32 (4 + 4 * i) bn))) L
       (\<lambda>_ c' s'. c' = ?C (Suc i) \<and> s' = s)"
      by (rule exec_get_log, rule exec_tail, rule exec_upd_data [where k = k])
        (use assms in \<open>auto simp: sp_set_def intro!: exec_skip\<close>)
  qed
  then show ?thesis by (simp add: sp_set_def)
qed

text \<open>\<^verbatim>\<open>write_head()\<close> stores the in-memory header in the header block.\<close>

lemma exec_write_head:
  assumes "c_ref c h0 = 0" and "busy c < NBUF" and "h0 = (dev, lg_start (logs s dev))"
  shows "exec L p c s (write_head dev) L (\<lambda>_ c' s'.
     c' = sp_store h0 (head_block (lh_n (logs s dev)) (lh_block (logs s dev)) (c_content c h0)) c \<and> s' = s)"
proof (rule exec_unreferenced)
  assume un: "\<And>k. c_ref c k = 0 \<Longrightarrow> c_content c k = c_disk c k \<and> c_held c k = None"
  let ?l = "logs s dev"
  let ?d = "put32 0 (word_of_int (lh_n ?l)) (c_content c h0)"
  let ?h = "head_block (lh_n ?l) (lh_block ?l) (c_content c h0)"
  have held: "c_held c h0 = None" using un assms(1) by simp
  have fin: "sp_brelse h0 (sp_bwrite h0 (sp_set h0 ?h (sp_set h0 ?d (sp_bread h0 b c)))) = sp_store h0 ?h c" for b
    by (rule cache_eqI) (use assms held in \<open>auto simp: sp_defs\<close>)
  note side = sp_defs has_room_def assms(1,2) held
  show ?thesis
    unfolding write_head_def
    apply (rule exec_get_log, rule exec_bread, unfold assms(3) [symmetric], (simp_all add: side)[3])
    apply (rule exec_get_log, rule exec_upd_data [where k = h0], (simp add: side)[1])
    apply (rule exec_thn [OF exec_put_blocks [where k = h0]], (simp add: side)[1], elim conjE, hypsubst)
    apply (rule exec_bwrite [where k = h0], (simp add: side)[1])
    apply (rule exec_tail, rule exec_brelse [where k = h0], (simp_all add: side)[2])
    apply (rule exec_skip)
    using fin by (simp add: head_block_def sp_defs)
qed

section \<open>Commit\<close>

text \<open>
  A transaction that can be committed: its blocks are distinct, lie outside the log, are pinned and
  not locked; the blocks of the log are not in use; and a buffer is left.
\<close>

definition txn_ok :: "u32 \<Rightarrow> log_t \<Rightarrow> cache \<Rightarrow> bool" where
  "txn_ok dev l c \<longleftrightarrow>
     0 \<le> lh_n l \<and> lh_n l \<le> int LOGSIZE \<and> inj_on (lh_block l) {..<len l} \<and>
     (\<forall>i<len l. \<forall>j<len l. home_key dev l i \<noteq> log_key dev l j) \<and>
     (\<forall>i<len l. home_key dev l i \<noteq> head_key dev l) \<and>
     (\<forall>i<len l. 0 < c_ref c (home_key dev l i) \<and> c_ref c (home_key dev l i) + 1 < 2 ^ 32
        \<and> c_held c (home_key dev l i) = None) \<and>
     (\<forall>i<len l. c_ref c (log_key dev l i) = 0) \<and>
     c_ref c (head_key dev l) = 0 \<and> busy c < NBUF"

lemma len_le: "txn_ok dev l c \<Longrightarrow> len l \<le> LOGSIZE"
  by (simp add: txn_ok_def len_def nat_le_iff)

lemma log_key_inj:
  assumes "i < LOGSIZE" and "j < LOGSIZE"
  shows "log_key dev l i = log_key dev l j \<longleftrightarrow> i = j"
proof
  assume "log_key dev l i = log_key dev l j"
  then have "(of_nat i :: u32) = of_nat j" by (simp add: log_key_def)
  moreover have "unat (of_nat i :: u32) = i" "unat (of_nat j :: u32) = j"
    using assms by (auto intro!: unat_of_nat_u32 simp: param_defs)
  ultimately show "i = j" by metis
qed simp

lemma log_key_head: "i < LOGSIZE \<Longrightarrow> log_key dev l i \<noteq> head_key dev l"
proof
  assume i: "i < LOGSIZE" and "log_key dev l i = head_key dev l"
  then have "of_nat (i + 1) = (0 :: u32)"
    by (simp add: log_key_def head_key_def algebra_simps)
  then have "unat (of_nat (i + 1) :: u32) = 0" by simp
  moreover have "unat (of_nat (i + 1) :: u32) = i + 1"
    using i by (intro unat_of_nat_u32) (simp add: param_defs)
  ultimately show False by simp
qed

lemma home_key_inj: "txn_ok dev l c \<Longrightarrow> i < len l \<Longrightarrow> j < len l \<Longrightarrow> home_key dev l i = home_key dev l j \<longleftrightarrow> i = j"
  by (auto simp: txn_ok_def home_key_def inj_on_def)

lemma busy_stores [simp]: "busy (stores ws c) = busy c"
  by (simp add: busy_def)

lemma map_upt_Suc: "map f [0..<Suc i] = map f [0..<i] @ [f i]"
  by simp

lemma exec_write_log:
  assumes ok: "txn_ok dev l c" and l: "l = logs s dev"
  shows "exec L p c s (write_log dev) L (\<lambda>_ c' s'.
    c' = stores (map (\<lambda>i. (log_key dev l i, c_content c (home_key dev l i))) [0..<len l]) c \<and> s' = s)"
proof -
  let ?W = "\<lambda>i. map (\<lambda>i. (log_key dev l i, c_content c (home_key dev l i))) [0..<i]"
  let ?C = "\<lambda>i. stores (?W i) c"
  have "exec L p (?C 0) s (for_all [0..<len l] (write_log_step dev)) L (\<lambda>_ c' s'. c' = ?C (len l) \<and> s' = s)"
  proof (rule exec_for_count)
    fix i
    assume i: "i < len l"
    have "c_content (?C i) (home_key dev l i) = c_content c (home_key dev l i)"
      using ok i by (auto simp: txn_ok_def intro!: replay_notin)
    then have C: "sp_store (log_key dev l i) (c_content (?C i) (home_key dev l i)) (?C i) = ?C (Suc i)"
      unfolding map_upt_Suc stores_snoc by simp
    have "exec L p (?C i) s (write_log_step dev i) L
      (\<lambda>_ c' s'. c' = sp_store (log_key dev l i) (c_content (?C i) (home_key dev l i)) (?C i) \<and> s' = s)"
    proof (rule exec_log_block)
      show "log_key dev l i \<noteq> home_key dev l i" using ok i unfolding txn_ok_def by metis
    qed (use ok i in \<open>simp_all add: txn_ok_def log_key_def home_key_def l\<close>)
    then show "exec L p (?C i) s (write_log_step dev i) L (\<lambda>_ c' s'. c' = ?C (Suc i) \<and> s' = s)"
      unfolding C .
  qed
  then show ?thesis
    unfolding write_log_def by (intro exec_get_log) (simp add: len_def l)
qed

text \<open>The pins of the first \<open>i\<close> home blocks have been given back.\<close>

definition unpinned :: "u32 \<Rightarrow> log_t \<Rightarrow> nat \<Rightarrow> cache \<Rightarrow> cache" where
  "unpinned dev l i c = c\<lparr>c_ref := (\<lambda>k. if k \<in> home_key dev l ` {..<i} then c_ref c k - 1 else c_ref c k)\<rparr>"

lemma unpinned_simps [simp]:
  "c_disk (unpinned dev l i c) = c_disk c" "c_content (unpinned dev l i c) = c_content c"
  "c_writes (unpinned dev l i c) = c_writes c" "c_held (unpinned dev l i c) = c_held c"
  "unpinned dev l 0 c = c"
  by (simp_all add: unpinned_def)

lemma stores_unpinned: "stores ws (unpinned dev l i c) = unpinned dev l i (stores ws c)"
  by (rule cache_eqI) (simp_all add: unpinned_def)

lemma exec_install_trans:
  assumes ok: "txn_ok dev l c" and l: "l = logs s dev"
  shows "exec L p c s (install_trans dev) L (\<lambda>_ c' s'.
    c' = unpinned dev l (len l) (stores (map (\<lambda>i. (home_key dev l i, c_content c (log_key dev l i))) [0..<len l]) c) \<and> s' = s)"
proof (rule exec_finite)
  assume fin: "finite {k. c_ref c k \<noteq> 0}"
  let ?W = "\<lambda>i. map (\<lambda>i. (home_key dev l i, c_content c (log_key dev l i))) [0..<i]"
  let ?C = "\<lambda>i. unpinned dev l i (stores (?W i) c)"
  have "exec L p (?C 0) s (for_all [0..<len l] (install_step dev)) L (\<lambda>_ c' s'. c' = ?C (len l) \<and> s' = s)"
  proof (rule exec_for_count)
    fix i
    assume i: "i < len l"
    have new: "home_key dev l i \<notin> home_key dev l ` {..<i}"
    proof
      assume "home_key dev l i \<in> home_key dev l ` {..<i}"
      then obtain j where "j < i" "home_key dev l i = home_key dev l j" by auto
      then show False using home_key_inj [OF ok i, of j] i by simp
    qed
    have lk: "log_key dev l i \<notin> home_key dev l ` {..<i}"
      using ok i unfolding txn_ok_def by (metis imageE lessThan_iff less_trans)
    have "c_content (?C i) (log_key dev l i) = c_content c (log_key dev l i)"
      using lk by (auto intro!: replay_notin)
    then have C: "sp_unref (home_key dev l i) (sp_store (home_key dev l i) (c_content (?C i) (log_key dev l i)) (?C i)) = ?C (Suc i)"
      unfolding map_upt_Suc stores_snoc using new
      by (intro cache_eqI) (auto simp: sp_unref_def sp_store_def unpinned_def lessThan_Suc)
    have "busy (?C i) \<le> busy c"
      by (rule busy_mono [OF fin]) (simp add: unpinned_def)
    then have room: "busy (?C i) < NBUF" using ok by (simp add: txn_ok_def)
    have "exec L p (?C i) s (install_step dev i) L
      (\<lambda>_ c' s'. c' = sp_unref (home_key dev l i) (sp_store (home_key dev l i) (c_content (?C i) (log_key dev l i)) (?C i)) \<and> s' = s)"
    proof (rule exec_install_block)
      show "log_key dev l i \<noteq> home_key dev l i" using ok i unfolding txn_ok_def by metis
      show "busy (?C i) < NBUF" by (rule room)
      show "log_key dev l i = (dev, lg_start (logs s dev) + of_nat i + 1)"
        "home_key dev l i = (dev, lh_block (logs s dev) i)"
        by (simp_all add: log_key_def home_key_def l)
    qed (use ok i new in \<open>simp_all add: txn_ok_def unpinned_def\<close>)
    then show "exec L p (?C i) s (install_step dev i) L (\<lambda>_ c' s'. c' = ?C (Suc i) \<and> s' = s)"
      unfolding C .
  qed
  then show ?thesis
    unfolding install_trans_def by (intro exec_get_log) (simp add: len_def l)
qed

lemma txn_ok_stores [simp]: "txn_ok dev l (stores ws c) = txn_ok dev l c"
  by (simp add: txn_ok_def)

text \<open>
  The writes of a commit: the log blocks, the header with the block numbers, the home blocks, and the
  header with count 0.
\<close>

definition log_writes :: "u32 \<Rightarrow> log_t \<Rightarrow> cache \<Rightarrow> (bkey \<times> block) list" where
  "log_writes dev l c = map (\<lambda>i. (log_key dev l i, c_content c (home_key dev l i))) [0..<len l]"

definition home_writes :: "u32 \<Rightarrow> log_t \<Rightarrow> cache \<Rightarrow> (bkey \<times> block) list" where
  "home_writes dev l c = map (\<lambda>i. (home_key dev l i, c_content c (home_key dev l i))) [0..<len l]"

definition full_head :: "u32 \<Rightarrow> log_t \<Rightarrow> cache \<Rightarrow> block" where
  "full_head dev l c = head_block (lh_n l) (lh_block l) (c_content c (head_key dev l))"

definition commit_writes :: "u32 \<Rightarrow> log_t \<Rightarrow> cache \<Rightarrow> (bkey \<times> block) list" where
  "commit_writes dev l c = log_writes dev l c @ [(head_key dev l, full_head dev l c)] @ home_writes dev l c @
     [(head_key dev l, put32 0 0 (full_head dev l c))]"

lemma fst_log_writes: "fst ` set (log_writes dev l c) = log_key dev l ` {..<len l}"
  by (force simp: log_writes_def)

lemma fst_home_writes: "fst ` set (home_writes dev l c) = home_key dev l ` {..<len l}"
  by (force simp: home_writes_def)

lemma log_writes_keys: "txn_ok dev l c \<Longrightarrow> head_key dev l \<notin> fst ` set (log_writes dev l c)"
  unfolding fst_log_writes by (metis imageE lessThan_iff log_key_head len_le less_le_trans)

lemma home_writes_keys: "txn_ok dev l c \<Longrightarrow> head_key dev l \<notin> fst ` set (home_writes dev l c)"
  unfolding fst_home_writes txn_ok_def by (metis imageE lessThan_iff)

lemma distinct_log_writes:
  assumes "txn_ok dev l c"
  shows "distinct (map fst (log_writes dev l c))"
proof -
  have "inj_on (log_key dev l) (set [0..<len l])"
    using log_key_inj len_le [OF assms] by (fastforce simp: inj_on_def)
  then show ?thesis by (simp add: log_writes_def distinct_map comp_def)
qed

lemma distinct_home_writes: "txn_ok dev l c \<Longrightarrow> distinct (map fst (home_writes dev l c))"
  using home_key_inj [of dev l c] by (auto simp: home_writes_def distinct_map comp_def inj_on_def)

lemma logged_content:
  assumes "txn_ok dev l c" and "i < len l"
  shows "replay (log_writes dev l c @ [(head_key dev l, h)]) d (log_key dev l i) = c_content c (home_key dev l i)"
  using replay_in [OF distinct_log_writes [OF assms(1)], of "log_key dev l i" "c_content c (home_key dev l i)" d]
    log_key_head [of i dev l] assms(2) len_le [OF assms(1)]
  by (simp add: log_writes_def)

lemma unpinned_busy:
  assumes "txn_ok dev l c" and "finite {k. c_ref c k \<noteq> 0}"
  shows "busy (unpinned dev l i c) < NBUF" "c_ref (unpinned dev l (len l) c) (head_key dev l) = 0"
proof -
  have "busy (unpinned dev l i c) \<le> busy c"
    by (rule busy_mono [OF assms(2)]) (simp add: unpinned_def)
  then show "busy (unpinned dev l i c) < NBUF" using assms(1) by (simp add: txn_ok_def)
  show "c_ref (unpinned dev l (len l) c) (head_key dev l) = 0"
    using assms(1) by (simp add: txn_ok_def unpinned_def)
qed

lemma exec_commit:
  assumes ok: "txn_ok dev l c" and l: "l = logs s dev" and n: "0 < lh_n l"
  shows "exec L p c s (commit dev) L (\<lambda>_ c' s'.
    c' = unpinned dev l (len l) (stores (commit_writes dev l c) c)
    \<and> s' = s\<lparr>logs := upd (logs s) dev (\<lambda>l. l\<lparr>lh_n := 0\<rparr>)\<rparr>)"
proof (rule exec_finite)
  assume fin: "finite {k. c_ref c k \<noteq> 0}"
  let ?h = "head_key dev l" and ?H = "full_head dev l c"
  let ?W = "log_writes dev l c @ [(?h, ?H)]"
  let ?V = "?W @ home_writes dev l c"
  let ?s = "s\<lparr>logs := upd (logs s) dev (\<lambda>l. l\<lparr>lh_n := 0\<rparr>)\<rparr>"
  have h: "replay (log_writes dev l c) (c_content c) ?h = c_content c ?h"
    by (rule replay_notin [OF log_writes_keys [OF ok]])
  have 1: "exec L p c s (write_log dev) L (\<lambda>_ c' s'. c' = stores (log_writes dev l c) c \<and> s' = s)"
    using exec_write_log [OF ok l] by (simp add: log_writes_def)
  have 2: "exec L p (stores (log_writes dev l c) c) s (write_head dev) L (\<lambda>_ c' s'. c' = stores ?W c \<and> s' = s)"
    using exec_write_head [of "stores (log_writes dev l c) c" ?h dev s L p] ok
    by (simp add: txn_ok_def head_key_def l stores_snoc full_head_def h [unfolded head_key_def l])
  have w: "map (\<lambda>i. (home_key dev l i, c_content (stores ?W c) (log_key dev l i))) [0..<len l] = home_writes dev l c"
    using logged_content [OF ok] by (simp add: home_writes_def del: replay_snoc)
  have 3: "exec L p (stores ?W c) s (install_trans dev) L (\<lambda>_ c' s'. c' = unpinned dev l (len l) (stores ?V c) \<and> s' = s)"
    using exec_install_trans [of dev l "stores ?W c" s L p] ok l
    unfolding w by (simp add: stores_append del: replay_snoc)
  let ?c = "unpinned dev l (len l) (stores ?V c)"
  have "c_content ?c ?h = ?H"
    using replay_notin [OF home_writes_keys [OF ok]] by (simp add: replay_append [of ?W] del: append_assoc)
  then have H: "head_block 0 f (c_content ?c ?h) = put32 0 0 ?H" for f
    by (simp add: head_block_def)
  have 4: "exec L p ?c ?s (write_head dev) L (\<lambda>_ c' s'. c' = sp_store ?h (put32 0 0 ?H) ?c \<and> s' = ?s)"
  proof (rule exec_mono [OF exec_write_head [of ?c ?h dev ?s]])
    show "c_ref ?c ?h = 0" "busy ?c < NBUF"
      using unpinned_busy [of dev l "stores ?V c"] ok fin by simp_all
    show "?h = (dev, lg_start (logs ?s dev))" by (simp add: head_key_def l)
    have z: "lh_n (logs ?s dev) = 0" by simp
    show "c' = sp_store ?h (put32 0 0 ?H) ?c \<and> s' = ?s"
      if "c' = sp_store ?h (head_block (lh_n (logs ?s dev)) (lh_block (logs ?s dev)) (c_content ?c ?h)) ?c \<and> s' = ?s"
      for c' s'
      using that unfolding z H .
  qed
  have e: "sp_store ?h (put32 0 0 ?H) ?c = unpinned dev l (len l) (stores (commit_writes dev l c) c)"
    using stores_unpinned [of "[(?h, put32 0 0 ?H)]" dev l "len l" "stores ?V c"]
      stores_snoc [of "[]" ?h "put32 0 0 ?H" ?c]
    by (simp add: stores_append commit_writes_def)
  show ?thesis
    unfolding commit_def
    apply (rule exec_get_log, rule exec_tail, rule exec_when)
     apply (rule exec_assoc, rule exec_thn [OF 1], elim conjE, hypsubst)
     apply (rule exec_assoc, rule exec_thn [OF 2], elim conjE, hypsubst)
     apply (rule exec_assoc, rule exec_thn [OF 3], elim conjE, hypsubst)
     apply (rule exec_assoc, rule exec_upd_log, rule exec_thn [OF 4], elim conjE, hypsubst)
     apply (rule exec_skip, simp only: e)
    using n by (simp add: l)
qed

end
