(* ===== verification/Recovery.thy ===== *)
theory Recovery
  imports Commit
begin

text \<open>
  Recovery after a crash.  \<^verbatim>\<open>install_trans()\<close> gives back a pin that nobody took when it
  runs in recovery: the reference count of every installed block passes through 0 and ends at
  \<open>2 ^ 32 - 1\<close>, so its buffer is never recycled.  Recovery is executed with that effect made
  explicit, and a commit is shown to be atomic with respect to a crash after any of its disk writes.
\<close>

section \<open>Giving back a pin that was not taken\<close>

lemma ref_link_comm:
  "upd (upd bf b (\<lambda>x. x\<lparr>b_refcnt := b_refcnt x - 1\<rparr>)) i (\<lambda>x. x\<lparr>b_prev := v\<rparr>) =
   upd (upd bf i (\<lambda>x. x\<lparr>b_prev := v\<rparr>)) b (\<lambda>x. x\<lparr>b_refcnt := b_refcnt x - 1\<rparr>)"
  "upd (upd bf b (\<lambda>x. x\<lparr>b_refcnt := b_refcnt x - 1\<rparr>)) i (\<lambda>x. x\<lparr>b_next := v\<rparr>) =
   upd (upd bf i (\<lambda>x. x\<lparr>b_next := v\<rparr>)) b (\<lambda>x. x\<lparr>b_refcnt := b_refcnt x - 1\<rparr>)"
  by (auto simp: upd_def fun_eq_iff)

lemma ref_links:
  "b_next (upd bf b (\<lambda>x. x\<lparr>b_refcnt := b_refcnt x - 1\<rparr>) i) = b_next (bf i)"
  "b_prev (upd bf b (\<lambda>x. x\<lparr>b_refcnt := b_refcnt x - 1\<rparr>) i) = b_prev (bf i)"
  by simp_all

lemma moved_ref:
  "moved b' (upd bf b (\<lambda>x. x\<lparr>b_refcnt := b_refcnt x - 1\<rparr>)) =
   upd (moved b' bf) b (\<lambda>x. x\<lparr>b_refcnt := b_refcnt x - 1\<rparr>)"
  by (simp only: moved_def Let_def ref_links ref_link_comm)

lemma bdrop_comm:
  assumes "b \<noteq> b'"
  shows "bdrop b' (upd bf b (\<lambda>x. x\<lparr>b_refcnt := b_refcnt x - 1\<rparr>)) =
    upd (bdrop b' bf) b (\<lambda>x. x\<lparr>b_refcnt := b_refcnt x - 1\<rparr>)"
proof -
  let ?f = "\<lambda>x :: buf. x\<lparr>b_refcnt := b_refcnt x - 1\<rparr>"
  have "upd (upd bf b ?f) b' ?f = upd (upd bf b' ?f) b ?f"
    using assms by (auto simp: upd_def)
  then show ?thesis
    using assms moved_ref [of b' "upd bf b' ?f" b] by (simp add: bdrop_def Let_def del: upd_upd_same)
qed

lemma unlock_abs:
  assumes "bc_wf pid d slk bf xs" and "cached bf k b" and "b_refcnt (bf b) \<noteq> 0"
  shows "bc_wf pid d (unlocked b slk) bf xs"
    and "cabs_of d w (unlocked b slk) bf = (cabs_of d w slk bf)\<lparr>c_held := (c_held (cabs_of d w slk bf))(k := None)\<rparr>"
proof -
  have b: "b < NBUF" using assms(2) by (simp add: cached_def)
  show "bc_wf pid d (unlocked b slk) bf xs"
    using assms(1,3) by (auto simp: bc_wf_def unlocked_def buf_ok_def)
  note uq = bc_wf_uniq [OF assms(1)]
  have o: "c_held (cabs_of d w (unlocked b slk) bf) q = ((c_held (cabs_of d w slk bf))(k := None)) q" for q
    using slot_eq [OF uq assms(2)] other_slot [OF uq assms(2), of q]
    by (cases "slot bf q") (auto simp: cabs_of_def unlocked_def)
  show "cabs_of d w (unlocked b slk) bf = (cabs_of d w slk bf)\<lparr>c_held := (c_held (cabs_of d w slk bf))(k := None)\<rparr>"
    by (rule cache_eqI) (use o in \<open>simp_all add: cabs_of_def\<close>)
qed

text \<open>The effect on the specification: \<open>lk\<close> is released, \<open>hk\<close> is left with a count that wrapped.\<close>

definition sp_leak :: "bkey \<Rightarrow> bkey \<Rightarrow> cache \<Rightarrow> cache" where
  "sp_leak lk hk c = (let c = sp_brelse lk c in
     c\<lparr>c_ref := (c_ref c)(hk := 2 ^ 32 - 1), c_held := (c_held c)(hk := None)\<rparr>)"

lemma leak_ok:
  assumes s: "bready L p s" and lk: "c_held (cabs s) lk = Some b'" and hk: "c_held (cabs s) hk = Some b"
    and "lk \<noteq> hk" and one: "c_ref (cabs s) hk = 1" and coh: "c_ref (cabs s) lk = 1 \<longrightarrow> c_content (cabs s) lk = disk s lk"
  shows "wp (thn (bunpin b) (thn (brelse b') (brelse b)))
    (\<lambda>_ t. bready L p t \<and> bio_same s t \<and> cabs t = sp_leak lk hk (cabs s)) s"
proof -
  let ?pid = "p_pid (procs s p)" and ?f = "\<lambda>x :: buf. x\<lparr>b_refcnt := b_refcnt x - 1\<rparr>"
  have r: "settled L s" "BcacheLock \<notin> L" "\<And>x. SleepLk x \<notin> L" "\<forall>q. ProcLock q \<notin> L" "curproc s = Some p"
    using s by (auto simp: bready_def)
  obtain xs where wf: "bc_wf ?pid (disk s) (slocks s) (bufs s) xs"
    using s by (auto simp: bready_def bc_inv_def)
  note h = held_cached [OF s hk] and h' = held_cached [OF s lk]
  have ne: "b \<noteq> b'" using h(3) h'(3) assms(4) by auto
  have ref: "b_refcnt (bufs s b) = 1"
    using h(5) one by (metis unsigned_1 word_eq_iff_unsigned)
  have "b_refcnt (bufs s b') = 1 \<longrightarrow> b_data (bufs s b') = disk s lk"
    using coh h'(4,5) by auto
  note rel = brelse_abs [OF wf h'(1,6) this]
  let ?B = "bdrop b' (bufs s)" and ?S = "unlocked b' (slocks s)"
  obtain ys where wf1: "bc_wf ?pid (disk s) ?S ?B ys" using rel(1) by blast
  have c1: "cached ?B hk b" and ref1: "b_refcnt (?B b) = 1"
    using h(1) ne ref by (auto simp: cached_def clean_def bdrop_fields)
  let ?C = "upd ?B b (\<lambda>x. x\<lparr>b_refcnt := - 1\<rparr>)"
  have "b_refcnt (?B b) \<noteq> 0" "(- 1 :: u32) \<noteq> 0" using ref1 by simp_all
  note leak = ref_abs [OF wf1 c1 this]
  have c2: "cached ?C hk b" "b_refcnt (?C b) \<noteq> 0"
    using c1 by (auto simp: cached_def clean_def key_def)
  note un = unlock_abs [OF leak(1) c2]
  let ?t = "s\<lparr>slocks := unlocked b ?S, bufs := ?C\<rparr>"
  let ?s1 = "s\<lparr>bufs := upd (bufs s) b ?f\<rparr>"
  let ?s2 = "s\<lparr>slocks := ?S, bufs := upd ?B b ?f\<rparr>"
  have d1: "does (bunpin b) s () ?s1" by (rule does_bunpin [OF r(1,2)])
  have "does (brelse b') ?s1 () (?s1\<lparr>slocks := unlocked b' (slocks ?s1), bufs := bdrop b' (bufs ?s1)\<rparr>)"
    using r h'(7,8) by (intro does_brelse [where L = L and p = p]) simp_all
  then have d2: "does (brelse b') ?s1 () ?s2" by (simp add: bdrop_comm [OF ne])
  have "does (brelse b) ?s2 () (?s2\<lparr>slocks := unlocked b (slocks ?s2), bufs := bdrop b (bufs ?s2)\<rparr>)"
    using r h(7,8) ne by (intro does_brelse [where L = L and p = p]) (simp_all add: unlocked_def)
  moreover have "bdrop b (upd ?B b ?f) = ?C"
    using ref1 by (simp add: bdrop_def Let_def upd_def)
  ultimately have d3: "does (brelse b) ?s2 () ?t" by simp
  show ?thesis
  proof (rule spec_wp [OF does_thn [OF d1 does_thn [OF d2 d3]]])
    have "bc_inv ?pid ?t" unfolding bc_inv_def using un(1) by (auto simp del: upd_apply)
    then show "bready L p ?t"
      using s by (simp add: bready_def)
    show "bio_same s ?t" by (simp add: bio_same_def unlocked_def)
    show "cabs ?t = sp_leak lk hk (cabs s)"
      using un(2) [of "disk_writes s"] leak(2) [of "disk_writes s"] rel(2) [of "disk_writes s"]
      by (simp add: cabs_def sp_leak_def Let_def unsigned_minus_1_eq_mask mask_eq_exp_minus_1 del: upd_apply)
  qed
qed

lemma exec_leak:
  assumes "c_held c lk = Some b'" and "c_held c hk = Some b" and "lk \<noteq> hk" and "c_ref c hk = 1"
    and "c_ref c lk = 1 \<longrightarrow> c_content c lk = c_disk c lk" and "R () (sp_leak lk hk c) s"
  shows "exec L p c s (thn (bunpin b) (thn (brelse b') (brelse b))) L R"
proof (rule exec_tail, unfold thn_def [of _ skip], rule exec_spec)
  show "wp (thn (bunpin b) (thn (brelse b') (brelse b)))
      (\<lambda>x t. bready L p t \<and> bio_same s0 t \<and> cabs t = sp_leak lk hk c) s0"
    if "bready L p s0" "cabs s0 = c" for s0
    using leak_ok [OF that(1), of lk b' hk b] assms(1-5) that(2) by auto
  show "exec L p (sp_leak lk hk c) s skip L R" for x :: unit
    using assms(6) by (rule exec_skip)
qed

section \<open>Recovery\<close>

text \<open>
  A header that recovery can install: fewer blocks than there are buffers, distinct and outside the
  log.
\<close>

definition rec_ok :: "u32 \<Rightarrow> log_t \<Rightarrow> bool" where
  "rec_ok dev l \<longleftrightarrow> len l < NBUF \<and> inj_on (lh_block l) {..<len l} \<and>
     (\<forall>i<len l. \<forall>j<len l. home_key dev l i \<noteq> log_key dev l j) \<and>
     (\<forall>i<len l. home_key dev l i \<noteq> head_key dev l)"

definition leaked :: "u32 \<Rightarrow> log_t \<Rightarrow> nat \<Rightarrow> cache \<Rightarrow> cache" where
  "leaked dev l i c = c\<lparr>c_ref := (\<lambda>k. if k \<in> home_key dev l ` {..<i} then 2 ^ 32 - 1 else c_ref c k)\<rparr>"

lemma leaked_simps [simp]:
  "c_disk (leaked dev l i c) = c_disk c" "c_content (leaked dev l i c) = c_content c"
  "c_writes (leaked dev l i c) = c_writes c" "c_held (leaked dev l i c) = c_held c"
  "leaked dev l 0 c = c"
  by (simp_all add: leaked_def)

lemma busy_le:
  assumes "finite S" and "\<And>k. k \<notin> S \<Longrightarrow> c_ref c k = 0"
  shows "busy c \<le> card S"
  unfolding busy_def
proof (rule card_mono [OF assms(1)], rule subsetI)
  fix k
  assume "k \<in> {k. c_ref c k \<noteq> 0}"
  then show "k \<in> S" using assms(2) [of k] by (cases "k \<in> S") simp_all
qed

lemma busy_leaked:
  assumes "\<forall>k. c_ref c k = 0"
  shows "busy (leaked dev l i c) \<le> i" "busy (sp_bread q b (leaked dev l i c)) \<le> Suc i"
proof -
  let ?S = "home_key dev l ` {..<i}"
  have c: "card ?S \<le> i" using card_image_le [of "{..<i}" "home_key dev l"] by simp
  have "busy (leaked dev l i c) \<le> card ?S"
    by (rule busy_le) (auto simp: leaked_def assms)
  then show "busy (leaked dev l i c) \<le> i" using c by simp
  have "busy (sp_bread q b (leaked dev l i c)) \<le> card (insert q ?S)"
    by (rule busy_le) (auto simp: leaked_def assms sp_bread_def)
  also have "\<dots> \<le> Suc (card ?S)" by (rule card_insert_le_m1) simp_all
  finally show "busy (sp_bread q b (leaked dev l i c)) \<le> Suc i" using c by simp
qed

lemma exec_recover_block:
  assumes "lk \<noteq> hk" and "c_ref c lk = 0" and "c_ref c hk = 0" and "busy c < NBUF"
    and "\<And>b. busy (sp_bread lk b c) < NBUF"
    and "lk = (dev, lg_start (logs s dev) + of_nat i + 1)" and "hk = (dev, lh_block (logs s dev) i)"
  shows "exec L p c s (install_step dev i) L (\<lambda>_ c' s'.
     c' = (sp_store hk (c_content c lk) c)\<lparr>c_ref := (c_ref c)(hk := 2 ^ 32 - 1)\<rparr> \<and> s' = s)"
proof (rule exec_unreferenced)
  assume un: "\<And>k. c_ref c k = 0 \<Longrightarrow> c_content c k = c_disk c k \<and> c_held c k = None"
  let ?v = "c_content c lk"
  have held: "c_held c lk = None" "c_held c hk = None" using un assms(2,3) by simp_all
  have fin: "sp_leak lk hk (sp_bwrite hk (sp_set hk ?v (sp_bread hk b2 (sp_bread lk b1 c))))
      = (sp_store hk ?v c)\<lparr>c_ref := (c_ref c)(hk := 2 ^ 32 - 1)\<rparr>" for b1 b2
    by (rule cache_eqI) (use assms(1-3) held in \<open>auto simp: sp_defs sp_leak_def\<close>)
  have v: "c_content (sp_bread hk b2 (sp_bread lk b1 c)) lk = ?v" for b1 b2
    by (simp add: sp_defs)
  have room: "has_room lk c" "has_room hk (sp_bread lk b c)" for b
    using assms(4,5) by (simp_all add: has_room_def)
  note side = sp_defs assms(1-3) assms(1) [symmetric] held un [OF assms(2)]
  show ?thesis
    unfolding install_step_def
    apply (rule exec_get_log, rule exec_bread, unfold assms(6) [symmetric], (simp_all add: side room)[3])
    apply (rule exec_get_log, rule exec_bread, unfold assms(7) [symmetric], (simp add: side)[1], (simp add: side)[1], rule room)
    apply (rule exec_get_data [where k = lk], (simp add: side)[1])
    apply (rule exec_upd_data [where k = hk], (simp add: side)[1], unfold v)
    apply (rule exec_bwrite [where k = hk], (simp add: side)[1])
    apply (rule exec_leak [where lk = lk and hk = hk], (simp_all add: side)[5])
    using fin by (simp add: sp_defs)
qed

lemma exec_recover_install:
  assumes ok: "rec_ok dev l" and l: "l = logs s dev" and z: "\<forall>k. c_ref c k = 0"
  shows "exec L p c s (install_trans dev) L (\<lambda>_ c' s'.
    c' = leaked dev l (len l) (stores (map (\<lambda>i. (home_key dev l i, c_content c (log_key dev l i))) [0..<len l]) c) \<and> s' = s)"
proof -
  let ?W = "\<lambda>i. map (\<lambda>i. (home_key dev l i, c_content c (log_key dev l i))) [0..<i]"
  let ?C = "\<lambda>i. leaked dev l i (stores (?W i) c)"
  have "exec L p (?C 0) s (for_all [0..<len l] (install_step dev)) L (\<lambda>_ c' s'. c' = ?C (len l) \<and> s' = s)"
  proof (rule exec_for_count)
    fix i
    assume i: "i < len l"
    have new: "home_key dev l i \<notin> home_key dev l ` {..<i}"
    proof
      assume "home_key dev l i \<in> home_key dev l ` {..<i}"
      then obtain j where j: "j < i" "lh_block l i = lh_block l j" by (auto simp: home_key_def)
      moreover have "inj_on (lh_block l) {..<len l}" using ok by (simp add: rec_ok_def)
      ultimately show False using inj_onD [of "lh_block l" "{..<len l}" i j] i by simp
    qed
    have lk: "log_key dev l i \<notin> home_key dev l ` {..<i}"
      using ok i unfolding rec_ok_def by (metis imageE lessThan_iff less_trans)
    have "c_content (?C i) (log_key dev l i) = c_content c (log_key dev l i)"
      using lk by (auto intro!: replay_notin)
    then have C: "(sp_store (home_key dev l i) (c_content (?C i) (log_key dev l i)) (?C i))
        \<lparr>c_ref := (c_ref (?C i))(home_key dev l i := 2 ^ 32 - 1)\<rparr> = ?C (Suc i)"
      unfolding map_upt_Suc stores_snoc using new
      by (intro cache_eqI) (auto simp: sp_store_def leaked_def lessThan_Suc)
    have z': "\<forall>k. c_ref (stores (?W i) c) k = 0" using z by simp
    note room = busy_leaked [OF z', where dev = dev and l = l and i = i]
    have n: "Suc i < NBUF" using ok i by (simp add: rec_ok_def)
    have "exec L p (?C i) s (install_step dev i) L
      (\<lambda>_ c' s'. c' = (sp_store (home_key dev l i) (c_content (?C i) (log_key dev l i)) (?C i))
        \<lparr>c_ref := (c_ref (?C i))(home_key dev l i := 2 ^ 32 - 1)\<rparr> \<and> s' = s)"
    proof (rule exec_recover_block)
      show "log_key dev l i \<noteq> home_key dev l i" using ok i unfolding rec_ok_def by metis
      show "busy (?C i) < NBUF" "busy (sp_bread (log_key dev l i) b (?C i)) < NBUF" for b
        using room(1) room(2) [of "log_key dev l i" b] n by simp_all
      show "log_key dev l i = (dev, lg_start (logs s dev) + of_nat i + 1)"
        "home_key dev l i = (dev, lh_block (logs s dev) i)"
        by (simp_all add: log_key_def home_key_def l)
      show "c_ref (?C i) (log_key dev l i) = 0" "c_ref (?C i) (home_key dev l i) = 0"
        using new lk by (simp_all add: leaked_def spec [OF z])
    qed
    then show "exec L p (?C i) s (install_step dev i) L (\<lambda>_ c' s'. c' = ?C (Suc i) \<and> s' = s)"
      unfolding C .
  qed
  then show ?thesis
    unfolding install_trans_def by (intro exec_get_log) (simp add: len_def l)
qed

text \<open>The in-memory header read from the header block \<open>d\<close>.\<close>

definition read_hdr :: "block \<Rightarrow> log_t \<Rightarrow> log_t" where
  "read_hdr d l = l\<lparr>lh_n := sint (get32 d 0),
     lh_block := (\<lambda>i. if i < nat (sint (get32 d 0)) then get32 d (4 + 4 * i) else lh_block l i)\<rparr>"

lemma exec_read_blocks:
  "exec L p c (s\<lparr>logs := upd (logs s) dev (\<lambda>l. l\<lparr>lh_n := m\<rparr>)\<rparr>) (for_all [0..<n] (\<lambda>i.
       upd_log dev (\<lambda>l. l\<lparr>lh_block := (lh_block l)(i := get32 d (4 + 4 * i))\<rparr>))) L
    (\<lambda>_ c' s'. c' = c \<and> s' = s\<lparr>logs := upd (logs s) dev (\<lambda>l. l\<lparr>lh_n := m,
        lh_block := (\<lambda>i. if i < n then get32 d (4 + 4 * i) else lh_block l i)\<rparr>)\<rparr>)"
proof -
  let ?S = "\<lambda>n. s\<lparr>logs := upd (logs s) dev (\<lambda>l. l\<lparr>lh_n := m,
        lh_block := (\<lambda>i. if i < n then get32 d (4 + 4 * i) else lh_block l i)\<rparr>)\<rparr>"
  have "exec L p c (?S 0) (for_all [0..<n] (\<lambda>i.
       upd_log dev (\<lambda>l. l\<lparr>lh_block := (lh_block l)(i := get32 d (4 + 4 * i))\<rparr>))) L
    (\<lambda>_ c' s'. c' = c \<and> s' = ?S n)"
  proof (rule exec_for_seq [where C = "\<lambda>_. c"])
    fix i
    show "exec L p c (?S i) (upd_log dev (\<lambda>l. l\<lparr>lh_block := (lh_block l)(i := get32 d (4 + 4 * i))\<rparr>)) L
       (\<lambda>_ c' s'. c' = c \<and> s' = ?S (Suc i))"
      by (rule exec_tail, rule exec_upd_log, rule exec_skip)
        (auto simp: comp_def upd_def fun_eq_iff less_Suc_eq intro!: arg_cong [where f = "\<lambda>f. s\<lparr>logs := f\<rparr>"])
  qed
  then show ?thesis by simp
qed

lemma exec_read_head:
  assumes "c_ref c (head_key dev (logs s dev)) = 0" and "busy c < NBUF"
  shows "exec L p c s (read_head dev) L (\<lambda>_ c' s'. c' = c \<and>
    s' = s\<lparr>logs := upd (logs s) dev (read_hdr (c_content c (head_key dev (logs s dev))))\<rparr>)"
proof (rule exec_unreferenced)
  assume un: "\<And>k. c_ref c k = 0 \<Longrightarrow> c_content c k = c_disk c k \<and> c_held c k = None"
  define h where "h = head_key dev (logs s dev)"
  have k: "(dev, lg_start (logs s dev)) = h" by (simp add: h_def head_key_def)
  note a = assms [folded h_def]
  have held: "c_held c h = None" using un [of h] a by simp
  have fin: "sp_brelse h (sp_bread h b c) = c" for b
    by (rule cache_eqI) (use a held in \<open>auto simp: sp_defs\<close>)
  have v: "c_content (sp_bread h b c) h = c_content c h" for b by (simp add: sp_defs)
  note side = sp_defs has_room_def a held un
  show ?thesis
    unfolding read_head_def h_def [symmetric]
    apply (rule exec_get_log, rule exec_bread, unfold k, (simp_all add: side)[3])
    apply (rule exec_get_data [where k = h], (simp add: side)[1], rule exec_upd_log, rule exec_get_log, unfold v)
    apply (rule exec_thn [OF exec_read_blocks], elim conjE, hypsubst)
    apply (rule exec_tail, rule exec_brelse [where k = h], (simp_all add: side)[2])
    apply (rule exec_skip, unfold fin)
    by (simp add: read_hdr_def upd_def)
qed

lemma read_hdr_keys [simp]:
  "head_key dev (read_hdr d l) = head_key dev l" "log_key dev (read_hdr d l) = log_key dev l"
  "lg_start (read_hdr d l) = lg_start l"
  by (simp_all add: read_hdr_def head_key_def log_key_def fun_eq_iff)

text \<open>The writes of recovery, from the disk \<open>d\<close> and the in-memory log \<open>l\<close>.\<close>

definition recovered :: "u32 \<Rightarrow> log_t \<Rightarrow> (bkey \<Rightarrow> block) \<Rightarrow> log_t" where
  "recovered dev l d = read_hdr (d (head_key dev l)) l"

definition recovery_writes :: "u32 \<Rightarrow> log_t \<Rightarrow> (bkey \<Rightarrow> block) \<Rightarrow> (bkey \<times> block) list" where
  "recovery_writes dev l d = (let r = recovered dev l d in
     map (\<lambda>i. (home_key dev r i, d (log_key dev l i))) [0..<len r] @
     [(head_key dev l, put32 0 0 (d (head_key dev l)))])"

lemma exec_recover:
  assumes z: "\<forall>k. c_ref c k = 0" and l: "l = logs s dev" and ok: "rec_ok dev (recovered dev l (c_disk c))"
  shows "exec L p c s (recover_from_log dev) L (\<lambda>_ c' s'.
    c' = leaked dev (recovered dev l (c_disk c)) (len (recovered dev l (c_disk c))) (stores (recovery_writes dev l (c_disk c)) c)
    \<and> s' = s\<lparr>logs := upd (logs s) dev (\<lambda>_. (recovered dev l (c_disk c))\<lparr>lh_n := 0\<rparr>)\<rparr>)"
proof (rule exec_unreferenced)
  assume un: "\<And>k. c_ref c k = 0 \<Longrightarrow> c_content c k = c_disk c k \<and> c_held c k = None"
  have cd: "c_content c = c_disk c" using un z by auto
  define h r where "h = head_key dev l" and "r = recovered dev l (c_disk c)"
  let ?W = "map (\<lambda>i. (home_key dev r i, c_disk c (log_key dev l i))) [0..<len r]"
  let ?s1 = "s\<lparr>logs := upd (logs s) dev (\<lambda>_. r)\<rparr>"
  let ?s2 = "s\<lparr>logs := upd (logs s) dev (\<lambda>_. r\<lparr>lh_n := 0\<rparr>)\<rparr>"
  have b: "busy c < NBUF" using busy_leaked(1) [OF z, of dev l 0] by (simp add: param_defs)
  have r: "read_hdr (c_content c h) l = r" by (simp add: cd h_def r_def recovered_def)
  have "exec L p c s (read_head dev) L (\<lambda>_ c' s'. c' = c \<and> s' = s\<lparr>logs := upd (logs s) dev (read_hdr (c_content c h))\<rparr>)"
    using exec_read_head [of c dev s] b z by (auto simp: h_def l)
  moreover have "upd (logs s) dev (read_hdr (c_content c h)) = upd (logs s) dev (\<lambda>_. r)"
    using r by (simp add: upd_def l)
  ultimately have 1: "exec L p c s (read_head dev) L (\<lambda>_ c' s'. c' = c \<and> s' = ?s1)" by simp
  have keys: "log_key dev r = log_key dev l" "head_key dev r = h" by (simp_all add: r_def recovered_def h_def)
  have okr: "rec_ok dev r" using ok by (simp add: r_def)
  have 2: "exec L p c ?s1 (install_trans dev) L (\<lambda>_ c' s'. c' = leaked dev r (len r) (stores ?W c) \<and> s' = ?s1)"
    using exec_recover_install [OF okr, of ?s1 c] z by (simp add: keys cd)
  let ?c = "leaked dev r (len r) (stores ?W c)"
  have hh: "h \<notin> home_key dev r ` {..<len r}"
    using okr unfolding rec_ok_def keys by auto
  then have H: "c_content ?c h = c_disk c h"
    using replay_notin [of h ?W "c_content c"] by (simp add: cd image_image atLeast0LessThan)
  have 3: "exec L p ?c ?s2 (write_head dev) L (\<lambda>_ c' s'. c' = sp_store h (put32 0 0 (c_disk c h)) ?c \<and> s' = ?s2)"
  proof (rule exec_mono [OF exec_write_head [of ?c h dev ?s2]])
    show "c_ref ?c h = 0" using hh by (simp add: leaked_def spec [OF z])
    have z': "\<forall>k. c_ref (stores ?W c) k = 0" using z by simp
    show "busy ?c < NBUF" using busy_leaked(1) [OF z', of dev r "len r"] okr by (simp add: rec_ok_def)
    show "h = (dev, lg_start (logs ?s2 dev))"
      by (simp add: h_def head_key_def r_def recovered_def l)
    have n0: "lh_n (logs ?s2 dev) = 0" by simp
    show "c' = sp_store h (put32 0 0 (c_disk c h)) ?c \<and> s' = ?s2"
      if "c' = sp_store h (head_block (lh_n (logs ?s2 dev)) (lh_block (logs ?s2 dev)) (c_content ?c h)) ?c \<and> s' = ?s2" for c' s'
      using that unfolding n0 H by (simp add: head_block_def)
  qed
  have e: "sp_store h (put32 0 0 (c_disk c h)) ?c = leaked dev r (len r) (stores (recovery_writes dev l (c_disk c)) c)"
    unfolding recovery_writes_def Let_def r_def [symmetric] h_def [symmetric] stores_snoc
    by (rule cache_eqI) (simp_all add: sp_store_def leaked_def)
  have s2: "?s1\<lparr>logs := upd (logs ?s1) dev (\<lambda>l. l\<lparr>lh_n := 0\<rparr>)\<rparr> = ?s2" by (simp add: comp_def)
  show ?thesis
    unfolding recover_from_log_def r_def [symmetric]
    apply (rule exec_thn [OF 1], elim conjE, hypsubst, rule exec_thn [OF 2], elim conjE, hypsubst)
    apply (rule exec_upd_log, unfold s2, rule exec_mono [OF 3], unfold e, assumption)
    done
qed

section \<open>Crash during a commit\<close>

text \<open>The blocks of the log that the transaction in \<open>l\<close> uses, and its home blocks.\<close>

definition log_area :: "u32 \<Rightarrow> log_t \<Rightarrow> bkey set" where
  "log_area dev l = insert (head_key dev l) (log_key dev l ` {..<len l})"

definition homes :: "u32 \<Rightarrow> log_t \<Rightarrow> bkey set" where
  "homes dev l = home_key dev l ` {..<len l}"

lemma homes_area: "txn_ok dev l c \<Longrightarrow> homes dev l \<inter> log_area dev l = {}"
  unfolding txn_ok_def homes_def log_area_def by (auto, metis)

lemma replay_take_notin: "k \<notin> fst ` set ws \<Longrightarrow> replay (take j ws) d k = d k"
  by (rule replay_notin) (use set_take_subset [of j ws] in blast)

lemma length_writes [simp]: "length (log_writes dev l c) = len l" "length (home_writes dev l c) = len l"
  by (simp_all add: log_writes_def home_writes_def)

lemma home_written:
  assumes "txn_ok dev l c" and "k \<in> homes dev l"
  shows "replay (home_writes dev l c) d k = c_content c k"
proof -
  obtain i where "i < len l" "k = home_key dev l i" using assms(2) by (auto simp: homes_def)
  then have "(k, c_content c k) \<in> set (home_writes dev l c)" by (auto simp: home_writes_def)
  then show ?thesis by (rule replay_in [OF distinct_home_writes [OF assms(1)]])
qed

text \<open>The disk when the first \<open>m\<close> writes of the commit have been carried out.\<close>

lemma crash_before:
  assumes "txn_ok dev l c" and "m \<le> len l" and "k \<notin> log_key dev l ` {..<len l}"
  shows "replay (take m (commit_writes dev l c)) d k = d k"
  using assms(2,3) replay_take_notin [of k "log_writes dev l c" m d]
  by (simp add: commit_writes_def fst_log_writes)

lemma crash_between:
  fixes d :: "bkey \<Rightarrow> block"
  assumes "txn_ok dev l c" and "len l < m" and "m \<le> 2 * len l + 1"
  defines "e \<equiv> replay (take m (commit_writes dev l c)) d"
  shows "e (head_key dev l) = full_head dev l c"
    and "i < len l \<Longrightarrow> e (log_key dev l i) = c_content c (home_key dev l i)"
    and "k \<notin> homes dev l \<Longrightarrow> k \<notin> log_area dev l \<Longrightarrow> e k = d k"
proof -
  let ?h = "head_key dev l" and ?W = "log_writes dev l c @ [(head_key dev l, full_head dev l c)]"
  have "take m (commit_writes dev l c) = ?W @ take (m - len l - 1) (home_writes dev l c)"
    using assms(2,3) by (cases "m - len l") (auto simp: commit_writes_def)
  then have e: "e = replay (take (m - len l - 1) (home_writes dev l c)) (replay ?W d)"
    unfolding e_def by (simp only: replay_append)
  have keep: "e q = replay ?W d q" if "q \<notin> homes dev l" for q
    unfolding e using that by (intro replay_take_notin) (simp add: fst_home_writes homes_def)
  have out: "q \<notin> homes dev l" if "q \<in> log_area dev l" for q
    using homes_area [OF assms(1)] that by blast
  show "e ?h = full_head dev l c"
    using keep [OF out, of ?h] by (simp add: log_area_def)
  show "e (log_key dev l i) = c_content c (home_key dev l i)" if "i < len l"
    using keep [OF out, of "log_key dev l i"] logged_content [OF assms(1) that] that by (simp add: log_area_def)
  show "e k = d k" if "k \<notin> homes dev l" "k \<notin> log_area dev l"
    using keep [OF that(1)] that(2) replay_notin [of k "log_writes dev l c" d]
    by (simp add: log_area_def fst_log_writes)
qed

lemma crash_after:
  fixes d :: "bkey \<Rightarrow> block"
  assumes "txn_ok dev l c" and "2 * len l + 1 < m"
  defines "e \<equiv> replay (take m (commit_writes dev l c)) d"
  shows "e (head_key dev l) = put32 0 0 (full_head dev l c)"
    and "k \<notin> log_area dev l \<Longrightarrow> e k = (if k \<in> homes dev l then c_content c k else d k)"
proof -
  let ?h = "head_key dev l" and ?W = "log_writes dev l c @ [(head_key dev l, full_head dev l c)]"
  have "take m (commit_writes dev l c) = (?W @ home_writes dev l c) @ [(?h, put32 0 0 (full_head dev l c))]"
    using assms(2) by (simp add: commit_writes_def)
  then have e: "e = (replay (home_writes dev l c) (replay ?W d))(?h := put32 0 0 (full_head dev l c))"
    unfolding e_def by (simp only: replay_snoc [of "?W @ home_writes dev l c"] replay_append [of ?W])
  show "e ?h = put32 0 0 (full_head dev l c)" by (simp add: e)
  show "e k = (if k \<in> homes dev l then c_content c k else d k)" if k: "k \<notin> log_area dev l"
  proof (cases "k \<in> homes dev l")
    case True
    then show ?thesis using home_written [OF assms(1) True] k by (simp add: e log_area_def)
  next
    case False
    then have "replay (home_writes dev l c) (replay ?W d) k = replay ?W d k"
      by (intro replay_notin) (simp add: fst_home_writes homes_def)
    then show ?thesis
      using False k replay_notin [of k "log_writes dev l c" d] by (simp add: e log_area_def fst_log_writes)
  qed
qed

text \<open>What recovery makes of these disks.\<close>

lemma recover_empty:
  assumes "get32 (d (head_key dev l)) 0 = 0"
  shows "rec_ok dev (recovered dev l d)"
    and "replay (recovery_writes dev l d) d k = (if k = head_key dev l then put32 0 0 (d k) else d k)"
proof -
  have n: "len (recovered dev l d) = 0"
    using assms by (simp add: len_def recovered_def read_hdr_def)
  show "rec_ok dev (recovered dev l d)" by (simp add: rec_ok_def n param_defs)
  show "replay (recovery_writes dev l d) d k = (if k = head_key dev l then put32 0 0 (d k) else d k)"
    by (simp add: recovery_writes_def n replay_def Let_def)
qed

lemma recover_full:
  assumes ok: "txn_ok dev l c" and room: "len l < NBUF" and h: "e (head_key dev l) = full_head dev l c"
    and logged: "\<And>i. i < len l \<Longrightarrow> e (log_key dev l i) = c_content c (home_key dev l i)"
    and start: "lg_start l' = lg_start l"
  shows "rec_ok dev (recovered dev l' e)"
    and "k \<notin> log_area dev l \<Longrightarrow> replay (recovery_writes dev l' e) e k = (if k \<in> homes dev l then c_content c k else e k)"
proof -
  let ?r = "recovered dev l' e"
  have keys: "head_key dev l' = head_key dev l" "log_key dev l' = log_key dev l"
    using start by (simp_all add: head_key_def log_key_def fun_eq_iff)
  have n: "lh_n ?r = lh_n l"
    using head_block_n [of "lh_n l"] ok by (simp add: recovered_def read_hdr_def keys h full_head_def txn_ok_def)
  then have len: "len ?r = len l" by (simp add: len_def)
  have blk: "lh_block ?r i = lh_block l i" if "i < len l" for i
    using that n head_block_nth [of i "lh_n l" "lh_block l" "c_content c (head_key dev l)"]
    by (simp add: recovered_def read_hdr_def keys h full_head_def len_def)
  have home: "home_key dev ?r i = home_key dev l i" if "i < len l" for i
    using blk [OF that] by (simp add: home_key_def)
  have rk: "log_key dev ?r = log_key dev l" "head_key dev ?r = head_key dev l"
    by (simp_all add: recovered_def keys)
  have "inj_on (lh_block ?r) {..<len l}" using ok blk by (simp add: txn_ok_def inj_on_def)
  then show "rec_ok dev ?r"
    using ok room home by (simp add: rec_ok_def txn_ok_def len rk)
  have w: "recovery_writes dev l' e = home_writes dev l c @ [(head_key dev l, put32 0 0 (full_head dev l c))]"
    using home logged by (simp add: recovery_writes_def Let_def len keys h home_writes_def)
  show "replay (recovery_writes dev l' e) e k = (if k \<in> homes dev l then c_content c k else e k)"
    if "k \<notin> log_area dev l"
    unfolding w using that home_written [OF ok, of k e] replay_notin [of k "home_writes dev l c" e]
    by (auto simp: log_area_def fst_home_writes homes_def)
qed

lemma crash_recovered:
  assumes ok: "txn_ok dev l c" and room: "len l < NBUF" and d: "get32 (d (head_key dev l)) 0 = 0"
    and start: "lg_start l' = lg_start l"
  defines "e \<equiv> \<lambda>m. replay (take m (commit_writes dev l c)) d"
  shows "rec_ok dev (recovered dev l' (e m))"
    and "k \<notin> log_area dev l \<Longrightarrow> replay (recovery_writes dev l' (e m)) (e m) k =
      (if len l < m \<and> k \<in> homes dev l then c_content c k else d k)"
proof -
  have h: "head_key dev l' = head_key dev l" using start by (simp add: head_key_def)
  have hk: "head_key dev l \<notin> log_key dev l ` {..<len l}"
    using log_writes_keys [OF ok] by (simp add: fst_log_writes)
  consider "m \<le> len l" | "len l < m" "m \<le> 2 * len l + 1" | "2 * len l + 1 < m" by linarith
  then have "rec_ok dev (recovered dev l' (e m)) \<and> (k \<notin> log_area dev l \<longrightarrow>
      replay (recovery_writes dev l' (e m)) (e m) k = (if len l < m \<and> k \<in> homes dev l then c_content c k else d k))"
  proof cases
    case 1
    then have "get32 (e m (head_key dev l')) 0 = 0"
      unfolding e_def h using crash_before [OF ok 1 hk] d by simp
    note r = recover_empty [of "e m" dev l', OF this]
    show ?thesis using r crash_before [OF ok 1, of k d] 1 by (auto simp: e_def h log_area_def)
  next
    case 2
    note b = crash_between [OF ok 2, where d = d]
    note r = recover_full [OF ok room b(1) b(2) start]
    show ?thesis unfolding e_def using r b(3) [of k] 2 by auto
  next
    case 3
    note b = crash_after [OF ok 3, where d = d]
    have "get32 (e m (head_key dev l')) 0 = 0" unfolding e_def h b(1) by simp
    note r = recover_empty [of "e m" dev l', OF this]
    show ?thesis using r b(2) [of k] 3 by (auto simp: e_def h log_area_def)
  qed
  then show "rec_ok dev (recovered dev l' (e m))"
    and "k \<notin> log_area dev l \<Longrightarrow> replay (recovery_writes dev l' (e m)) (e m) k =
      (if len l < m \<and> k \<in> homes dev l then c_content c k else d k)" by blast+
qed

end
