(* ===== verification/Transaction.thy ===== *)
theory Transaction
  imports Recovery
begin

text \<open>
  Transactions: \<^verbatim>\<open>begin_op()\<close>, \<^verbatim>\<open>log_write()\<close> and
  \<^verbatim>\<open>end_op()\<close> executed over the cache specification, and the properties of the log.
\<close>

section \<open>Recording a block\<close>

text \<open>The in-memory log after \<^verbatim>\<open>log_write()\<close> of block \<open>bn\<close>.\<close>

definition absorbed :: "u32 \<Rightarrow> log_t \<Rightarrow> bool" where
  "absorbed bn l \<longleftrightarrow> bn \<in> lh_block l ` {..<len l}"

definition logged :: "u32 \<Rightarrow> log_t \<Rightarrow> log_t" where
  "logged bn l = (if absorbed bn l then l
     else l\<lparr>lh_block := (lh_block l)(len l := bn), lh_n := lh_n l + 1\<rparr>)"

lemma for_ret_find:
  "for_ret xs (\<lambda>i. gets (\<lambda>s. if P s i then Some i else None)) = gets (\<lambda>s. List.find (P s) xs)"
  by (induction xs) (auto simp: fun_eq_iff run)

lemma find_absorbed:
  assumes "List.find (\<lambda>i. lh_block l i = bn) [0..<nat (lh_n l)] = r"
  shows "case r of Some i \<Rightarrow> absorbed bn l \<and> i < len l \<and> lh_block l i = bn | None \<Rightarrow> \<not> absorbed bn l"
  using assms by (auto simp: absorbed_def len_def find_None_iff dest: find_in_set split: option.split)

lemma exec_log_write:
  assumes h: "c_held c (dev, bn) = Some b" and l: "l = logs s dev"
    and n: "0 \<le> lh_n l" "lh_n l < int LOGSIZE" "lh_n l < lg_size l - 1" and out: "1 \<le> lg_outstanding l"
    and L: "LogLk dev \<notin> L" and r: "c_ref c (dev, bn) + 1 < 2 ^ 32"
  shows "exec L p c s (log_write b) L (\<lambda>_ c' s'. c' = (if absorbed bn l then c else sp_bpin (dev, bn) c)
    \<and> s' = s\<lparr>logs := upd (logs s) dev (logged bn)\<rparr>)"
proof -
  have lk: "\<not> cache_lock (LogLk dev)" by (simp add: cache_lock_def LogLk_def)
  have scan: "for_ret [0..<nat m] (\<lambda>i. get_log dev (\<lambda>l. if lh_block l i = bn then Some i else None)) =
      gets (\<lambda>s. List.find (\<lambda>i. lh_block (logs s dev) i = bn) [0..<nat m])" for m
    unfolding get_log_def by (rule for_ret_find)
  obtain r0 where find: "List.find (\<lambda>i. lh_block l i = bn) [0..<nat (lh_n l)] = r0" by simp
  note f = find_absorbed [OF find]
  let ?k = "LogLk dev" and ?S = "\<lambda>g. s\<lparr>logs := upd (logs s) dev g\<rparr>"
  let ?R = "\<lambda>(_ :: unit) c' s'. c' = (if absorbed bn l then c else sp_bpin (dev, bn) c) \<and> s' = ?S (logged bn)"
  have rest: "exec (insert ?k L) p c (acq ?k s) (let i = (case r0 of Some i \<Rightarrow> i | None \<Rightarrow> nat (lh_n l)) in
      thn (upd_log dev (\<lambda>l. l\<lparr>lh_block := (lh_block l)(i := bn)\<rparr>)) (
      thn (whenM (int i = lh_n l) (
        thn (bpin b) (
        upd_log dev (\<lambda>l. l\<lparr>lh_n := lh_n l + 1\<rparr>)))) (
      release ?k))) L ?R" if st: "settled L s"
  proof (cases r0)
    case (Some i)
    then have i: "absorbed bn l" "i < len l" "lh_block l i = bn" using f by auto
    have e: "upd (logs s) dev (\<lambda>l. l\<lparr>lh_block := (lh_block l)(i := bn)\<rparr>) = upd (logs s) dev (logged bn)"
      using i by (auto simp: upd_def logged_def l fun_upd_idem)
    have "int i \<noteq> lh_n l" using i(2) by (simp add: len_def)
    then show ?thesis
      using st i(1) unfolding Some option.case Let_def
      by (intro exec_upd_log exec_when) (auto simp: e intro!: exec_tail [OF exec_release] exec_skip L)
  next
    case None
    then have a: "\<not> absorbed bn l" using f by simp
    have e: "upd (upd (logs s) dev (\<lambda>l'. l'\<lparr>lh_block := (lh_block l')(nat (lh_n l) := bn)\<rparr>)) dev (\<lambda>l. l\<lparr>lh_n := lh_n l + 1\<rparr>)
        = upd (logs s) dev (logged bn)"
      using a by (simp add: upd_def logged_def l len_def)
    have e2: "(acq ?k s)\<lparr>logs := g, logs := f\<rparr> = acq ?k (s\<lparr>logs := f\<rparr>)" "logs ((acq ?k s)\<lparr>logs := g\<rparr>) = g" for f g
      by simp_all
    show ?thesis
      unfolding None option.case Let_def
      apply (rule exec_upd_log, rule exec_when)
       apply (rule exec_assoc, rule exec_bpin [OF h r], rule exec_upd_log)
       apply (simp only: e2 e frame_logs(5), rule exec_tail, rule exec_release, (simp_all add: st L)[2])
       apply (rule exec_skip, simp add: a)
      using n by simp
  qed
  note side = h l [symmetric] n out r
  show ?thesis
    unfolding log_write_def
    apply (rule exec_get_dev [OF h], unfold fst_conv, rule exec_get_log, rule exec_panic_if, (use side in simp)[1])
    apply (rule exec_panic_if, (use side in simp)[1], rule exec_acquire [OF L lk])
    apply (rule exec_get_blockno [OF h], rule exec_get_log, unfold snd_conv scan)
    apply (rule exec_gets, (simp add: sames)[1])
    using rest by (simp only: frame_logs(5) l [symmetric] find)
qed

section \<open>Beginning and ending a transaction\<close>

lemma cache_lock_LogLk [simp]: "\<not> cache_lock (LogLk dev)"
  by (simp add: cache_lock_def LogLk_def)

lemma exec_begin_op:
  assumes "\<not> lg_committing (logs s dev)" and "LogLk dev \<notin> L"
    and "lh_n (logs s dev) + (lg_outstanding (logs s dev) + 1) * int MAXOPBLOCKS \<le> int LOGSIZE"
  shows "exec L p c s (begin_op dev) L (\<lambda>_ c' s'. c' = c \<and>
    s' = s\<lparr>logs := upd (logs s) dev (\<lambda>l. l\<lparr>lg_outstanding := lg_outstanding l + 1\<rparr>)\<rparr>)"
  unfolding begin_op_def begin_op_loop_def
  apply (rule exec_acquire [OF assms(2) cache_lock_LogLk], rule exec_get_log)
  apply (simp only: frame_logs(5) id_apply assms(1) assms(3) [folded linorder_not_less] if_False, rule exec_upd_log)
  by (simp, rule exec_tail, rule exec_release) (simp_all add: assms(2) exec_skip)

text \<open>The cache after the transaction in \<open>l\<close> has been committed.\<close>

definition committed :: "u32 \<Rightarrow> log_t \<Rightarrow> cache \<Rightarrow> cache" where
  "committed dev l c = (if lh_n l = 0 then c else unpinned dev l (len l) (stores (commit_writes dev l c) c))"

lemma exec_commit_any:
  assumes "txn_ok dev (logs s dev) c"
  shows "exec L p c s (commit dev) L (\<lambda>_ c' s'. c' = committed dev (logs s dev) c
    \<and> s' = s\<lparr>logs := upd (logs s) dev (\<lambda>l. l\<lparr>lh_n := 0\<rparr>)\<rparr>)"
proof (cases "lh_n (logs s dev) = 0")
  case True
  have "upd (logs s) dev (\<lambda>l. l\<lparr>lh_n := 0\<rparr>) = logs s"
    using True by (simp add: upd_def fun_upd_idem)
  then show ?thesis
    unfolding commit_def by (intro exec_get_log, simp add: True whenM_def committed_def) (rule exec_skip, simp)
next
  case False
  then have "0 < lh_n (logs s dev)" using assms by (simp add: txn_ok_def)
  then show ?thesis
    using exec_commit [OF assms refl, of L p] False by (simp add: committed_def)
qed

text \<open>The protocol fields do not matter for what a commit does.\<close>

definition proto :: "int \<Rightarrow> bool \<Rightarrow> log_t \<Rightarrow> log_t" where
  "proto n b l = l\<lparr>lg_outstanding := n, lg_committing := b\<rparr>"

lemma proto_simps [simp]:
  "lh_n (proto n b l) = lh_n l" "lh_block (proto n b l) = lh_block l" "lg_start (proto n b l) = lg_start l"
  "len (proto n b l) = len l" "lg_committing (proto n b l) = b" "lg_outstanding (proto n b l) = n"
  "proto n b (proto m a l) = proto n b l"
  by (simp_all add: proto_def len_def)

lemma proto_keys [simp]:
  "head_key dev (proto n b l) = head_key dev l" "log_key dev (proto n b l) = log_key dev l"
  "home_key dev (proto n b l) = home_key dev l"
  by (simp_all add: head_key_def log_key_def home_key_def fun_eq_iff)

lemma proto_txn [simp]:
  "txn_ok dev (proto n b l) c = txn_ok dev l c" "committed dev (proto n b l) c = committed dev l c"
  by (simp_all add: txn_ok_def committed_def unpinned_def commit_writes_def log_writes_def home_writes_def
      full_head_def)

lemma exec_end_op:
  assumes "lg_outstanding (logs s dev) = 1" and nc: "\<not> lg_committing (logs s dev)" and L: "LogLk dev \<notin> L"
    and ok: "txn_ok dev (logs s dev) c"
  shows "exec L p c s (end_op dev) L (\<lambda>_ c' s'. c' = committed dev (logs s dev) c \<and>
    s' = s\<lparr>logs := upd (logs s) dev (\<lambda>l. (proto 0 False l)\<lparr>lh_n := 0\<rparr>)\<rparr>)"
proof -
  let ?S = "\<lambda>f. s\<lparr>logs := upd (logs s) dev f\<rparr>"
  have u1: "upd (logs s) dev (\<lambda>l. l\<lparr>lg_outstanding := lg_outstanding l - 1\<rparr>) = upd (logs s) dev (proto 0 False)"
    using assms(1) nc by (cases "logs s dev") (simp add: upd_def proto_def)
  have u2: "upd (upd (logs s) dev (proto 0 False)) dev (\<lambda>l. l\<lparr>lg_committing := True\<rparr>) = upd (logs s) dev (proto 0 True)"
    by (simp add: upd_def proto_def)
  have u3: "upd (upd (logs s) dev (\<lambda>l. (proto 0 True l)\<lparr>lh_n := 0\<rparr>)) dev (\<lambda>l. l\<lparr>lg_committing := False\<rparr>) = upd (logs s) dev (\<lambda>l. (proto 0 False l)\<lparr>lh_n := 0\<rparr>)"
    by (cases "logs s dev") (simp add: upd_def proto_def)
  have "exec L p c (?S (proto 0 True)) (commit dev) L (\<lambda>_ c' s'. c' = committed dev (logs s dev) c \<and> s' = ?S (\<lambda>l. (proto 0 True l)\<lparr>lh_n := 0\<rparr>))"
    using exec_commit_any [of dev "?S (proto 0 True)" c L p] ok by (simp add: comp_def)
  note com = this
  note st = frame_logs bufs_upd_simps
  have e1: "logs (acq l (s\<lparr>logs := f\<rparr>)) = f" "(acq l (s\<lparr>logs := f\<rparr>))\<lparr>logs := g\<rparr> = acq l (s\<lparr>logs := g\<rparr>)"
     "(acq l s)\<lparr>logs := f\<rparr> = acq l (s\<lparr>logs := f\<rparr>)" for l f g by simp_all
  show ?thesis
    unfolding end_op_def
    apply (rule exec_acquire [OF L cache_lock_LogLk], rule exec_upd_log)
    apply (unfold e1 frame_logs(5) u1, rule exec_get_log, rule exec_panic_if, (simp add: e1)[1])
    apply (simp add: e1, rule exec_bnd_thn, rule exec_upd_log, unfold e1 u2, rule exec_bnd_ret)
    apply (rule exec_release, simp, rule L, unfold whenM_def if_True)
    apply (rule exec_thn [OF com], elim conjE, hypsubst)
    apply (rule exec_acquire [OF L cache_lock_LogLk], rule exec_upd_log, unfold e1 u3)
    apply (rule exec_wakeup, rule exec_tail, rule exec_release, simp, rule L)
    by (rule exec_skip) simp
qed

section \<open>Properties\<close>

lemma stores_committed:
  "c_disk (committed dev l c) = replay (if lh_n l = 0 then [] else commit_writes dev l c) (c_disk c)"
  "c_writes (committed dev l c) = c_writes c @ (if lh_n l = 0 then [] else commit_writes dev l c)"
  by (simp_all add: committed_def)

lemma recover_run:
  assumes "bready L p u" and "cabs u = empty_cache d w" and "rec_ok dev (recovered dev (logs u dev) d)"
  shows "\<exists>v. recover_from_log dev u = Done () v \<and> bready L p v \<and> lh_n (logs v dev) = 0 \<and>
    disk v = replay (recovery_writes dev (logs u dev) d) d \<and> cabs v = leaked dev (recovered dev (logs u dev) d) (len (recovered dev (logs u dev) d))
      (stores (recovery_writes dev (logs u dev) d) (empty_cache d w))"
proof -
  have "exec L p (cabs u) u (recover_from_log dev) L (\<lambda>_ c' s'.
     c' = leaked dev (recovered dev (logs u dev) d) (len (recovered dev (logs u dev) d))
      (stores (recovery_writes dev (logs u dev) d) (empty_cache d w)) \<and> lh_n (logs s' dev) = 0)"
    using assms by (intro exec_mono [OF exec_recover [of _ "logs u dev" u]]) auto
  then obtain v where v: "recover_from_log dev u = Done () v" "bready L p v" "lh_n (logs v dev) = 0"
      "cabs v = leaked dev (recovered dev (logs u dev) d) (len (recovered dev (logs u dev) d))
        (stores (recovery_writes dev (logs u dev) d) (empty_cache d w))"
    using execD [OF _ assms(1)] by (fastforce simp: wp_iff dest: same_logs(1))
  moreover have "disk v = replay (recovery_writes dev (logs u dev) d) d"
    using arg_cong [OF v(4), of c_disk] by simp
  ultimately show ?thesis by blast
qed

lemma commit_end:
  assumes "txn_ok dev l c" and "0 < lh_n l" and "k \<in> homes dev l"
  shows "replay (commit_writes dev l c) d k = c_content c k"
proof -
  have "k \<notin> log_area dev l" using homes_area [OF assms(1)] assms(3) by blast
  then show ?thesis
    using crash_after(2) [OF assms(1), of "2 * len l + 2" k d] assms(3)
    by (simp add: commit_writes_def)
qed

text \<open>
  C1: Crash atomicity of transactions.  \<^verbatim>\<open>end_op()\<close> of the last outstanding operation
  returns with every block of the transaction at its home location.  If the machine stops after any
  number \<open>m\<close> of the disk writes this takes, then \<^verbatim>\<open>recover_from_log()\<close>, run on the
  disk as it was left, returns and leaves every block outside the log either as before the
  transaction (when the header had not been written) or as the transaction made it.
\<close>

theorem end_op_atomic:
  assumes "bready L p s" and "LogLk dev \<notin> L" and "lg_outstanding (logs s dev) = 1"
    and "\<not> lg_committing (logs s dev)" and ok: "txn_ok dev (logs s dev) (cabs s)"
    and room: "len (logs s dev) < NBUF" and head: "get32 (disk s (head_key dev (logs s dev))) 0 = 0"
  shows "\<exists>t ws. end_op dev s = Done () t \<and> disk_writes t = disk_writes s @ ws \<and> disk t = replay ws (disk s) \<and>
    (\<forall>k \<in> homes dev (logs s dev). disk t k = c_content (cabs s) k) \<and>
    (\<forall>m q u w. bready {} q u \<and> cabs u = empty_cache (replay (take m ws) (disk s)) w \<and>
        lg_start (logs u dev) = lg_start (logs s dev) \<longrightarrow>
      (\<exists>v. recover_from_log dev u = Done () v \<and> (\<forall>k. k \<notin> log_area dev (logs s dev) \<longrightarrow>
        disk v k = (if len (logs s dev) < m \<and> k \<in> homes dev (logs s dev) then c_content (cabs s) k else disk s k))))"
proof -
  let ?l = "logs s dev" and ?c = "cabs s"
  let ?ws = "if lh_n ?l = 0 then [] else commit_writes dev ?l ?c"
  obtain t where t: "end_op dev s = Done () t" "cabs t = committed dev ?l ?c"
    using execD [OF exec_end_op [OF assms(3,4,2) ok] assms(1)] by (auto simp: wp_iff)
  have d: "disk t = replay ?ws (disk s)" "disk_writes t = disk_writes s @ ?ws"
    using stores_committed [of dev ?l ?c] t(2) by (metis cabs_simps)+
  have n: "0 < lh_n ?l" if "lh_n ?l \<noteq> 0" using ok that by (simp add: txn_ok_def)
  have rec: "rec_ok dev (recovered dev l' (replay (take m ?ws) (disk s)))"
      "k \<notin> log_area dev ?l \<Longrightarrow> replay (recovery_writes dev l' (replay (take m ?ws) (disk s))) (replay (take m ?ws) (disk s)) k
        = (if len ?l < m \<and> k \<in> homes dev ?l then c_content ?c k else disk s k)"
    if st: "lg_start l' = lg_start ?l" for l' m k
  proof -
    have h: "head_key dev l' = head_key dev ?l" using st by (simp add: head_key_def)
    note none = recover_empty [of "disk s" dev l', unfolded h, OF head]
    note some = crash_recovered [where d = "disk s" and m = m, OF ok room head st]
    have z: "homes dev ?l = {}" if "lh_n ?l = 0" using that by (simp add: homes_def len_def)
    show "rec_ok dev (recovered dev l' (replay (take m ?ws) (disk s)))"
      using none(1) some(1) by simp
    show "replay (recovery_writes dev l' (replay (take m ?ws) (disk s))) (replay (take m ?ws) (disk s)) k
        = (if len ?l < m \<and> k \<in> homes dev ?l then c_content ?c k else disk s k)" if "k \<notin> log_area dev ?l"
      using none(2) [of k] some(2) [OF that] that z by (auto simp: log_area_def)
  qed
  have "\<exists>v. recover_from_log dev u = Done () v \<and> (\<forall>k. k \<notin> log_area dev ?l \<longrightarrow>
      disk v k = (if len ?l < m \<and> k \<in> homes dev ?l then c_content ?c k else disk s k))"
    if u: "bready {} q u" "cabs u = empty_cache (replay (take m ?ws) (disk s)) w" "lg_start (logs u dev) = lg_start ?l"
    for m q u w
  proof -
    obtain v where v: "recover_from_log dev u = Done () v"
        "disk v = replay (recovery_writes dev (logs u dev) (replay (take m ?ws) (disk s))) (replay (take m ?ws) (disk s))"
      using recover_run [OF u(1,2) rec(1) [OF u(3)]] by blast
    show ?thesis using v rec(2) [OF u(3)] by metis
  qed
  moreover have "\<forall>k \<in> homes dev ?l. disk t k = c_content ?c k"
    using d(1) commit_end [OF ok n] by (auto simp: homes_def len_def)
  ultimately show ?thesis using t(1) d by blast
qed

text \<open>A transaction that writes one block, on a fresh disk.\<close>

definition idle_log :: log_t where
  "idle_log = \<lparr>lg_start = 2, lg_size = 30, lg_outstanding = 0, lg_committing = False, lg_dev = 0, lh_n = 0,
     lh_block = (\<lambda>_. 0)\<rparr>"

definition fresh_fs :: lgst where
  "fresh_fs = booted (\<lambda>_ _. 0) \<lparr>logs = (\<lambda>_. idle_log)\<rparr>"

definition write_one :: "block \<Rightarrow> ('z lgst_scheme, unit) kop" where
  "write_one v =
     thn (begin_op 0) (
     bnd (bread 0 100) (\<lambda>b.
     thn (upd_data b (\<lambda>_. v)) (
     thn (log_write b) (
     brelse b))))"

lemma logs_fresh [simp]: "logs fresh_fs = (\<lambda>_. idle_log)"
  by (simp add: fresh_fs_def booted_def)

lemma write_one_run:
  "\<exists>s b. write_one v fresh_fs = Done () s \<and> bready {} 0 s \<and>
     logs s 0 = idle_log\<lparr>lg_outstanding := 1, lh_block := (\<lambda>_. 0)(0 := 100), lh_n := 1\<rparr> \<and>
     cabs s = sp_brelse (0, 100) (sp_bpin (0, 100) (sp_set (0, 100) v (sp_bread (0, 100) b (empty_cache (\<lambda>_ _. 0) []))))"
proof -
  let ?k = "(0, 100) :: bkey" and ?e = "empty_cache (\<lambda>_ _. 0) []"
  let ?c = "\<lambda>b. sp_set ?k v (sp_bread ?k b ?e)"
  let ?s = "fresh_fs\<lparr>logs := upd (logs fresh_fs) 0 (\<lambda>l. l\<lparr>lg_outstanding := lg_outstanding l + 1\<rparr>)\<rparr>"
  have bo: "exec {} 0 ?e fresh_fs (begin_op 0) {} (\<lambda>_ c' s'. c' = ?e \<and> s' = ?s)"
    by (rule exec_begin_op) (simp_all add: idle_log_def param_defs)
  have lw: "exec {} 0 (?c b) ?s (log_write b) {} (\<lambda>_ c' s'. c' = sp_bpin ?k (?c b) \<and>
      s' = ?s\<lparr>logs := upd (logs ?s) 0 (logged 100)\<rparr>)" for b
    using exec_log_write [of "?c b" 0 100 b "logs ?s 0" ?s "{}" 0]
    by (simp add: idle_log_def param_defs sp_defs absorbed_def len_def)
  have "exec {} 0 ?e fresh_fs (write_one v) {} (\<lambda>_ c' s'. (\<exists>b. c' = sp_brelse ?k (sp_bpin ?k (?c b))) \<and>
      s' = ?s\<lparr>logs := upd (logs ?s) 0 (logged 100)\<rparr>)"
    unfolding write_one_def
    apply (rule exec_thn [OF bo], elim conjE, hypsubst, rule exec_bread, (simp_all)[3])
    apply (rule exec_upd_data [where k = ?k], (simp add: sp_defs)[1], rule exec_thn [OF lw], elim conjE, hypsubst)
    apply (rule exec_tail, rule exec_brelse [where k = ?k], (simp_all add: sp_defs)[2])
    apply (rule exec_skip, blast)
    done
  note x = this
  have r: "bready {} 0 fresh_fs" "cabs fresh_fs = ?e"
    by (simp_all add: fresh_fs_def booted_ready)
  show ?thesis
    using execD [OF x [folded r(2)] r(1)] unfolding wp_iff
    by (fastforce dest: same_logs(1) simp: logged_def absorbed_def idle_log_def len_def r(2))
qed

lemma write_one_txn:
  assumes "cabs s = sp_brelse (0, 100) (sp_bpin (0, 100) (sp_set (0, 100) v (sp_bread (0, 100) b (empty_cache d w))))"
    and "logs s 0 = idle_log\<lparr>lg_outstanding := 1, lh_block := (\<lambda>_. 0)(0 := 100), lh_n := 1\<rparr>"
  shows "txn_ok 0 (logs s 0) (cabs s)"
proof -
  have "busy (cabs s) \<le> card {(0, 100) :: bkey}"
    by (rule busy_le) (auto simp: assms(1) sp_defs)
  then show ?thesis
    unfolding txn_ok_def assms
    by (simp add: idle_log_def len_def home_key_def log_key_def head_key_def sp_defs param_defs inj_on_def)
qed

theorem end_op_atomic_witness:
  "\<exists>s t ws. write_one (\<lambda>_. 7) fresh_fs = Done () s \<and> end_op 0 s = Done () t \<and> disk_writes t = disk_writes s @ ws \<and>
    disk t (0, 100) = (\<lambda>_. 7) \<and>
    (\<exists>v. recover_from_log 0 (booted (replay (take 1 ws) (disk s)) \<lparr>logs = (\<lambda>_. idle_log)\<rparr>) = Done () v \<and> disk v (0, 100) = (\<lambda>_. 0)) \<and>
    (\<exists>v. recover_from_log 0 (booted (replay (take 2 ws) (disk s)) \<lparr>logs = (\<lambda>_. idle_log)\<rparr>) = Done () v \<and> disk v (0, 100) = (\<lambda>_. 7))"
proof -
  obtain s b where s: "write_one (\<lambda>_. 7) fresh_fs = Done () s" "bready {} 0 s"
      "logs s 0 = idle_log\<lparr>lg_outstanding := 1, lh_block := (\<lambda>_. 0)(0 := 100), lh_n := 1\<rparr>"
      "cabs s = sp_brelse (0, 100) (sp_bpin (0, 100) (sp_set (0, 100) (\<lambda>_. 7) (sp_bread (0, 100) b (empty_cache (\<lambda>_ _. 0) []))))"
    using write_one_run by blast
  have d: "disk s = (\<lambda>_ _. 0)" using arg_cong [OF s(4), of c_disk] by (simp add: sp_defs)
  have c: "c_content (cabs s) (0, 100) = (\<lambda>_. 7)" by (simp add: s(4) sp_defs)
  have k: "homes 0 (logs s 0) = {(0, 100)}" "(0, 100) \<notin> log_area 0 (logs s 0)" "len (logs s 0) = 1"
    by (auto simp: s(3) homes_def log_area_def home_key_def log_key_def head_key_def len_def idle_log_def)
  let ?u = "\<lambda>e. booted e \<lparr>logs = (\<lambda>_. idle_log)\<rparr>"
  have st: "lg_start (logs (?u e) 0) = lg_start (logs s 0)" for e by (simp add: s(3) idle_log_def booted_def)
  have pre: "LogLk 0 \<notin> {}" "lg_outstanding (logs s 0) = 1" "\<not> lg_committing (logs s 0)"
      "len (logs s 0) < NBUF" "get32 (disk s (head_key 0 (logs s 0))) 0 = 0"
    using k(3) by (simp_all add: s(3) d param_defs get32_def) (simp add: idle_log_def)
  obtain t ws where t: "end_op 0 s = Done () t" "disk_writes t = disk_writes s @ ws"
      "\<forall>k \<in> homes 0 (logs s 0). disk t k = c_content (cabs s) k"
      "\<forall>m q (u :: lgst) w. bready {} q u \<and> cabs u = empty_cache (replay (take m ws) (disk s)) w \<and>
        lg_start (logs u 0) = lg_start (logs s 0) \<longrightarrow>
      (\<exists>v. recover_from_log 0 u = Done () v \<and> (\<forall>k. k \<notin> log_area 0 (logs s 0) \<longrightarrow>
        disk v k = (if len (logs s 0) < m \<and> k \<in> homes 0 (logs s 0) then c_content (cabs s) k else disk s k)))"
    using end_op_atomic [OF s(2) pre(1-3) write_one_txn [OF s(4,3)] pre(4,5)] by blast
  have "\<exists>v. recover_from_log 0 (?u (replay (take m ws) (disk s))) = Done () v \<and>
        disk v (0, 100) = (if 1 < m then (\<lambda>_. 7) else (\<lambda>_. 0))" for m
  proof -
    let ?v = "?u (replay (take m ws) (disk s))"
    have "bready {} 0 ?v \<and> cabs ?v = empty_cache (replay (take m ws) (disk s)) [] \<and> lg_start (logs ?v 0) = lg_start (logs s 0)"
      by (simp add: booted_ready st)
    with t(4) have "\<exists>v. recover_from_log 0 ?v = Done () v \<and> (\<forall>k. k \<notin> log_area 0 (logs s 0) \<longrightarrow>
        disk v k = (if len (logs s 0) < m \<and> k \<in> homes 0 (logs s 0) then c_content (cabs s) k else disk s k))"
      by blast
    then show ?thesis using k c d by auto
  qed
  then show ?thesis using s(1) t(1,2,3) k(1) c by (metis less_irrefl one_less_numeral_iff semiring_norm(76) singletonI)
qed

text \<open>
  C20: \<^verbatim>\<open>log_write()\<close> inside a transaction records the block once (a block already in the
  transaction is absorbed and not pinned again), pins the buffer of a new one, and writes nothing to
  the disk; it panics exactly when the transaction is too big or none is open.
\<close>

theorem log_write_records:
  assumes "bready L p s" and h: "c_held (cabs s) (dev, bn) = Some b" and "LogLk dev \<notin> L" and "0 \<le> lh_n (logs s dev)"
    and "c_ref (cabs s) (dev, bn) + 1 < 2 ^ 32"
  shows "if lh_n (logs s dev) \<ge> int LOGSIZE \<or> lh_n (logs s dev) \<ge> lg_size (logs s dev) - 1
    then log_write b s = Panic ''too big a transaction'' s
    else if lg_outstanding (logs s dev) < 1 then log_write b s = Panic ''log_write outside of trans'' s
    else \<exists>t. log_write b s = Done () t \<and> bready L p t \<and> logs t dev = logged bn (logs s dev) \<and>
      cabs t = (if absorbed bn (logs s dev) then cabs s else sp_bpin (dev, bn) (cabs s)) \<and>
      disk t = disk s \<and> disk_writes t = disk_writes s"
proof -
  let ?l = "logs s dev"
  have d: "b_dev (bufs s b) = dev" using held_cached(3) [OF assms(1) h] by (simp add: key_def)
  consider "lh_n ?l \<ge> int LOGSIZE \<or> lh_n ?l \<ge> lg_size ?l - 1"
    | "\<not> (lh_n ?l \<ge> int LOGSIZE \<or> lh_n ?l \<ge> lg_size ?l - 1)" "lg_outstanding ?l < 1"
    | "lh_n ?l < int LOGSIZE" "lh_n ?l < lg_size ?l - 1" "1 \<le> lg_outstanding ?l" by linarith
  then show ?thesis
  proof cases
    case 1
    then show ?thesis by (simp add: log_write_def get_buf_def get_log_def run d)
  next
    case 2
    then show ?thesis by (simp add: log_write_def get_buf_def get_log_def run d)
  next
    case 3
    obtain t s1 where t: "log_write b s = Done () t" "bready L p t" "bio_same s1 t" "s1 = s\<lparr>logs := upd (logs s) dev (logged bn)\<rparr>"
        "cabs t = (if absorbed bn ?l then cabs s else sp_bpin (dev, bn) (cabs s))"
      using execD [OF exec_log_write [OF h refl assms(4) 3 assms(3,5)] assms(1)] by (auto simp: wp_iff)
    have "disk t = disk s" "disk_writes t = disk_writes s"
      using arg_cong [OF t(5), of c_disk] arg_cong [OF t(5), of c_writes] by (simp_all add: sp_bpin_def split: if_splits)
    then show ?thesis using t 3 same_logs(1) [OF t(3)] by auto
  qed
qed

theorem log_write_records_witness:
  "\<exists>b t u. bnd (bread 0 7) ret fresh_fs = Done b t \<and> log_write b t = Panic ''log_write outside of trans'' u"
proof -
  have r: "bready {} 0 fresh_fs" "cabs fresh_fs = empty_cache (\<lambda>_ _. 0) []"
    by (simp_all add: fresh_fs_def booted_ready)
  obtain b t where t: "bread 0 7 fresh_fs = Done b t" "bready {} 0 t" "bio_same fresh_fs t"
      "cabs t = sp_bread (0, 7) b (empty_cache (\<lambda>_ _. 0) [])"
    using bread_ok [OF r(1), of 0 7] r(2) by (auto simp: wp_iff)
  have "logs t = (\<lambda>_. idle_log)" using same_logs(1) [OF t(3)] by simp
  then have "log_write b t = Panic ''log_write outside of trans'' t"
    using log_write_records [OF t(2), of 0 7 b] t(4) by (simp add: sp_bread_def idle_log_def param_defs)
  then show ?thesis using t(1) by (auto simp: run)
qed

text \<open>
  C27: Recovery gives back pins that were never taken: after \<^verbatim>\<open>recover_from_log()\<close> every
  block it installed has the reference count \<open>2 ^ 32 - 1\<close>, so the buffer that holds it is never
  recycled again.
\<close>

theorem recovery_leaks_buffers:
  assumes "bready L p u" and "cabs u = empty_cache d w" and "rec_ok dev (recovered dev (logs u dev) d)"
  shows "\<exists>v. recover_from_log dev u = Done () v \<and>
    (\<forall>i < len (recovered dev (logs u dev) d). c_ref (cabs v) (home_key dev (recovered dev (logs u dev) d) i) = 2 ^ 32 - 1)"
  using recover_run [OF assms] by (auto simp: leaked_def)

theorem recovery_leaks_buffers_witness:
  "\<exists>v. recover_from_log 0 (booted (\<lambda>k. if k = (0, 2) then head_block 1 (\<lambda>_. 100) (\<lambda>_. 0) else (\<lambda>_. 0)) \<lparr>logs = (\<lambda>_. idle_log)\<rparr>) = Done () v \<and>
    c_ref (cabs v) (0, 100) = 2 ^ 32 - 1"
proof -
  let ?d = "\<lambda>k :: bkey. if k = (0, 2) then head_block 1 (\<lambda>_. 100) (\<lambda>_. 0) else (\<lambda>_. 0)"
  let ?u = "booted ?d \<lparr>logs = (\<lambda>_. idle_log)\<rparr>"
  have l: "logs ?u 0 = idle_log" by (simp add: booted_def)
  have n: "lh_n (recovered 0 idle_log ?d) = 1" "lh_block (recovered 0 idle_log ?d) 0 = 100"
    using head_block_n [of 1 "\<lambda>_. 100" "\<lambda>_. 0"] head_block_nth [of 0 1 "\<lambda>_. 100" "\<lambda>_. 0"]
    by (simp_all add: recovered_def read_hdr_def head_key_def param_defs idle_log_def)
  have s: "lg_start (recovered 0 idle_log ?d) = 2" by (simp add: recovered_def idle_log_def)
  have len: "len (recovered 0 idle_log ?d) = 1" using n(1) by (simp add: len_def)
  have "rec_ok 0 (recovered 0 (logs ?u 0) ?d)"
    using n(2) s by (simp add: rec_ok_def len l home_key_def log_key_def head_key_def inj_on_def param_defs)
  from recovery_leaks_buffers [OF booted_ready(1,2) this] show ?thesis
    using n(2) by (auto simp: l len home_key_def)
qed

lemma asleep_logs [simp]: "logs (asleep p ch lk s) = logs s"
  by (simp add: asleep_def rel_def acq_def)

text \<open>
  C26: \<^verbatim>\<open>begin_op()\<close> admits an operation exactly when no commit is under way and the log has
  room for \<^verbatim>\<open>MAXOPBLOCKS\<close> blocks of every outstanding operation and this one; otherwise the
  caller goes to sleep on the log, whose state is left as it was.
\<close>

theorem begin_op_admits:
  assumes "bready {} p s" and "depth s = 0"
  shows "if lg_committing (logs s dev) \<or> lh_n (logs s dev) + (lg_outstanding (logs s dev) + 1) * int MAXOPBLOCKS > int LOGSIZE
    then \<exists>t. begin_op dev s = Blocked t \<and> logs t = logs s \<and> p_state (procs t p) = SLEEPING \<and> p_chan (procs t p) = Some LogChan
    else \<exists>t. begin_op dev s = Done () t \<and> bready {} p t \<and> cabs t = cabs s \<and>
      logs t = upd (logs s) dev (\<lambda>l. l\<lparr>lg_outstanding := lg_outstanding l + 1\<rparr>)"
proof (cases "lg_committing (logs s dev) \<or> lh_n (logs s dev) + (lg_outstanding (logs s dev) + 1) * int MAXOPBLOCKS > int LOGSIZE")
  case True
  have st: "settled {} s" "curproc s = Some p" using assms(1) by (auto simp: bready_def)
  have "sleep LogChan (LogLk dev) (acq (LogLk dev) s) = Blocked (asleep p LogChan (LogLk dev) s)"
    by (rule sleep_run [OF st(1) assms(2) st(2)]) (simp add: LogLk_def)
  then have "begin_op dev s = Blocked (asleep p LogChan (LogLk dev) s)"
    using True run_acquire_settled [OF st(1), of "LogLk dev"]
    by (auto simp: begin_op_def begin_op_loop_def run get_log_def)
  then show ?thesis using True by auto
next
  case False
  then have "exec {} p (cabs s) s (begin_op dev) {} (\<lambda>_ c' s'. c' = cabs s \<and>
      s' = s\<lparr>logs := upd (logs s) dev (\<lambda>l. l\<lparr>lg_outstanding := lg_outstanding l + 1\<rparr>)\<rparr>)"
    by (intro exec_begin_op) auto
  from execD [OF this assms(1)] show ?thesis
    unfolding if_not_P [OF False] by (auto simp: wp_iff dest!: same_logs(1))
qed

theorem begin_op_admits_witness: "\<exists>t. begin_op 0 fresh_fs = Done () t \<and> lg_outstanding (logs t 0) = 1"
proof -
  have "bready {} 0 fresh_fs" "depth fresh_fs = 0"
    by (simp_all add: fresh_fs_def booted_ready) (simp add: booted_def depth_def zero_defs)
  from begin_op_admits [OF this, of 0] show ?thesis
    by (auto simp: idle_log_def param_defs)
qed

end
