(* ===== verification/Fs.thy ===== *)
theory Fs
  imports Transaction
begin

text \<open>
  Blocks and inodes (\<^verbatim>\<open>kernel/fs.c\<close>, \<^verbatim>\<open>kernel/fs.h\<close>,
  \<^verbatim>\<open>kernel/file.h\<close>): the block allocator, the inode table on disk and its cache in memory,
  and the content of a file.  An inode pointer is the index of its entry in
  \<^verbatim>\<open>icache.inode[]\<close>, the null pointer is \<open>None\<close>; on-disk structures are read and
  written at their offsets in the bytes of a block.
\<close>

section \<open>Constants and structures\<close>

definition ROOTINO :: u32 where "ROOTINO = 1"
definition FSMAGIC :: u32 where "FSMAGIC = 0x10203040"
definition NDIRECT :: nat where "NDIRECT = 12"
definition NINDIRECT :: nat where "NINDIRECT = BSIZE div 4"
definition MAXFILE :: nat where "MAXFILE = NDIRECT + NINDIRECT"
definition IPB :: nat where "IPB = BSIZE div 64"
definition BPB :: nat where "BPB = BSIZE * 8"

lemmas fs_consts = ROOTINO_def FSMAGIC_def NDIRECT_def NINDIRECT_def MAXFILE_def IPB_def BPB_def BSIZE_def

record superblock =
  sb_magic :: u32
  sb_size :: u32
  sb_nblocks :: u32
  sb_ninodes :: u32
  sb_nlog :: u32
  sb_logstart :: u32
  sb_inodestart :: u32
  sb_bmapstart :: u32

definition IBLOCK :: "u32 \<Rightarrow> superblock \<Rightarrow> u32" where
  "IBLOCK i sb = i div of_nat IPB + sb_inodestart sb"

definition BBLOCK :: "u32 \<Rightarrow> superblock \<Rightarrow> u32" where
  "BBLOCK b sb = b div of_nat BPB + sb_bmapstart sb"

definition T_DIR :: u16 where "T_DIR = 1"
definition T_FILE :: u16 where "T_FILE = 2"
definition T_DEVICE :: u16 where "T_DEVICE = 3"

text \<open>The copy of an on-disk inode, which \<^verbatim>\<open>struct inode\<close> contains.\<close>

record dinode =
  d_type :: u16
  d_major :: u16
  d_minor :: u16
  d_nlink :: u16
  d_size :: u32
  d_addrs :: "nat \<Rightarrow> u32"

record inode = dinode +
  i_dev :: u32
  i_inum :: u32
  i_ref :: int
  i_valid :: bool

record fsst = lgst +
  sb :: superblock
  icache :: "nat \<Rightarrow> inode"

definition get_inode :: "nat \<Rightarrow> (inode \<Rightarrow> 'a) \<Rightarrow> ('z fsst_scheme, 'a) kop" where
  "get_inode i f = gets (\<lambda>s. f (icache s i))"

definition upd_inode :: "nat \<Rightarrow> (inode \<Rightarrow> inode) \<Rightarrow> ('z fsst_scheme, unit) kop" where
  "upd_inode i f = modify (\<lambda>s. s\<lparr>icache := upd (icache s) i f\<rparr>)"

section \<open>Structures in the bytes of a block\<close>

definition get16 :: "block \<Rightarrow> nat \<Rightarrow> u16" where
  "get16 d i = ucast (d i) OR push_bit 8 (ucast (d (i + 1)))"

definition put16 :: "nat \<Rightarrow> u16 \<Rightarrow> block \<Rightarrow> block" where
  "put16 i v d = d(i := ucast v, i + 1 := ucast (drop_bit 8 v))"

text \<open>The \<^verbatim>\<open>struct dinode\<close> at byte \<open>o\<close> of a block.\<close>

definition dinode_at :: "block \<Rightarrow> nat \<Rightarrow> dinode" where
  "dinode_at d j = \<lparr>d_type = get16 d j, d_major = get16 d (j + 2), d_minor = get16 d (j + 4),
     d_nlink = get16 d (j + 6), d_size = get32 d (j + 8), d_addrs = (\<lambda>i. get32 d (j + 12 + 4 * i))\<rparr>"

primrec put_addrs :: "nat \<Rightarrow> nat \<Rightarrow> (nat \<Rightarrow> u32) \<Rightarrow> block \<Rightarrow> block" where
  "put_addrs 0 j f d = d"
| "put_addrs (Suc n) j f d = put32 (j + 4 * n) (f n) (put_addrs n j f d)"

definition put_dinode :: "nat \<Rightarrow> 'z dinode_scheme \<Rightarrow> block \<Rightarrow> block" where
  "put_dinode j x d = put_addrs (NDIRECT + 1) (j + 12) (d_addrs x) (put32 (j + 8) (d_size x)
     (put16 (j + 6) (d_nlink x) (put16 (j + 4) (d_minor x) (put16 (j + 2) (d_major x) (put16 j (d_type x) d)))))"

definition dinode_off :: "u32 \<Rightarrow> nat" where
  "dinode_off inum = 64 * unat (inum mod of_nat IPB)"

text \<open>\<^verbatim>\<open>memset(p, 0, n)\<close> on the bytes of a block.\<close>

definition clear_bytes :: "nat \<Rightarrow> nat \<Rightarrow> block \<Rightarrow> block" where
  "clear_bytes j n d = (\<lambda>i. if j \<le> i \<and> i < j + n then 0 else d i)"

text \<open>Bytes stored at a position of a block.\<close>

definition put_list :: "nat \<Rightarrow> u8 list \<Rightarrow> block \<Rightarrow> block" where
  "put_list j bs d = (\<lambda>i. if j \<le> i \<and> i < j + length bs then bs ! (i - j) else d i)"

definition get_list :: "nat \<Rightarrow> nat \<Rightarrow> block \<Rightarrow> u8 list" where
  "get_list j n d = map (\<lambda>i. d (j + i)) [0..<n]"

section \<open>Blocks\<close>

definition superblock_at :: "block \<Rightarrow> superblock" where
  "superblock_at d = \<lparr>sb_magic = get32 d 0, sb_size = get32 d 4, sb_nblocks = get32 d 8, sb_ninodes = get32 d 12,
     sb_nlog = get32 d 16, sb_logstart = get32 d 20, sb_inodestart = get32 d 24, sb_bmapstart = get32 d 28\<rparr>"

definition readsb :: "u32 \<Rightarrow> ('z fsst_scheme, unit) kop" where
  "readsb dev =
     bnd (bread dev 1) (\<lambda>bp.
     bnd (get_buf bp b_data) (\<lambda>d.
     thn (modify (\<lambda>s. s\<lparr>sb := superblock_at d\<rparr>)) (
     brelse bp)))"

definition fsinit :: "u32 \<Rightarrow> ('z fsst_scheme, unit) kop" where
  "fsinit dev =
     thn (readsb dev) (
     bnd (gets sb) (\<lambda>sb.
     thn (panic_if (sb_magic sb \<noteq> FSMAGIC) ''invalid file system'') (
     initlog dev (sb_logstart sb) (sb_nlog sb))))"

definition bzero :: "u32 \<Rightarrow> u32 \<Rightarrow> ('z lgst_scheme, unit) kop" where
  "bzero dev bno =
     bnd (bread dev bno) (\<lambda>bp.
     thn (upd_data bp (clear_bytes 0 BSIZE)) (
     thn (log_write bp) (
     brelse bp)))"

text \<open>The bit of block \<open>bi\<close> in a block of the bitmap.\<close>

definition bit_used :: "block \<Rightarrow> nat \<Rightarrow> bool" where
  "bit_used d bi \<longleftrightarrow> d (bi div 8) AND push_bit (bi mod 8) 1 \<noteq> 0"

definition set_used :: "nat \<Rightarrow> block \<Rightarrow> block" where
  "set_used bi d = d(bi div 8 := d (bi div 8) OR push_bit (bi mod 8) 1)"

definition set_free :: "nat \<Rightarrow> block \<Rightarrow> block" where
  "set_free bi d = d(bi div 8 := d (bi div 8) AND NOT (push_bit (bi mod 8) 1))"

text \<open>
  \<^verbatim>\<open>balloc()\<close>: for every block of the bitmap, the inner loop looks for a clear bit below
  the size of the file system.
\<close>

definition balloc_block :: "u32 \<Rightarrow> nat \<Rightarrow> ('z fsst_scheme, u32 option) kop" where
  "balloc_block dev b =
     bnd (gets sb) (\<lambda>sb.
     bnd (bread dev (BBLOCK (of_nat b) sb)) (\<lambda>bp.
     bnd (for_ret [0..<min BPB (unat (sb_size sb) - b)] (\<lambda>bi.
       get_buf bp (\<lambda>x. if \<not> bit_used (b_data x) bi then Some bi else None))) (\<lambda>r.
     case r of
       Some bi \<Rightarrow>
         thn (upd_data bp (set_used bi)) (
         thn (log_write bp) (
         thn (brelse bp) (
         thn (bzero dev (of_nat (b + bi))) (
         ret (Some (of_nat (b + bi)))))))
     | None \<Rightarrow> thn (brelse bp) (ret None))))"

definition balloc :: "u32 \<Rightarrow> ('z fsst_scheme, u32) kop" where
  "balloc dev =
     bnd (gets (\<lambda>s. unat (sb_size (sb s)))) (\<lambda>size.
     bnd (for_ret (map (\<lambda>i. i * BPB) [0..<(size + BPB - 1) div BPB]) (balloc_block dev)) (\<lambda>r.
     case r of Some b \<Rightarrow> ret b | None \<Rightarrow> panic ''balloc: out of blocks''))"

definition bfree :: "u32 \<Rightarrow> u32 \<Rightarrow> ('z fsst_scheme, unit) kop" where
  "bfree dev b =
     bnd (gets sb) (\<lambda>sb.
     bnd (bread dev (BBLOCK b sb)) (\<lambda>bp.
     let bi = unat (b mod of_nat BPB) in
     bnd (get_buf bp (\<lambda>x. bit_used (b_data x) bi)) (\<lambda>used.
     thn (panic_if (\<not> used) ''freeing free block'') (
     thn (upd_data bp (set_free bi)) (
     thn (log_write bp) (
     brelse bp))))))"

section \<open>The inode cache\<close>

definition iinit :: "('z fsst_scheme, unit) kop" where
  "iinit =
     thn (initlock IcacheLock ''icache'') (
     for_all [0..<NINODE] (\<lambda>i. initsleeplock (InodeLock i) ''inode''))"

text \<open>The scan of \<^verbatim>\<open>iget()\<close>: the entry that caches the inode, or the first empty one.\<close>

primrec iget_scan :: "u32 \<Rightarrow> u32 \<Rightarrow> nat list \<Rightarrow> nat option \<Rightarrow> ('z fsst_scheme, nat + nat option) kop" where
  "iget_scan dev inum [] emp = ret (Inr emp)"
| "iget_scan dev inum (i # js) emp =
     bnd (get_inode i id) (\<lambda>ip.
     if i_ref ip > 0 \<and> i_dev ip = dev \<and> i_inum ip = inum then ret (Inl i)
     else iget_scan dev inum js (if emp = None \<and> i_ref ip = 0 then Some i else emp))"

definition iget :: "u32 \<Rightarrow> u32 \<Rightarrow> ('z fsst_scheme, nat) kop" where
  "iget dev inum =
     thn (acquire IcacheLock) (
     bnd (iget_scan dev inum [0..<NINODE] None) (\<lambda>r.
     case r of
       Inl ip \<Rightarrow>
         thn (upd_inode ip (\<lambda>x. x\<lparr>i_ref := i_ref x + 1\<rparr>)) (
         thn (release IcacheLock) (
         ret ip))
     | Inr None \<Rightarrow> panic ''iget: no inodes''
     | Inr (Some ip) \<Rightarrow>
         thn (upd_inode ip (\<lambda>x. x\<lparr>i_dev := dev, i_inum := inum, i_ref := 1, i_valid := False\<rparr>)) (
         thn (release IcacheLock) (
         ret ip))))"

definition ialloc :: "u32 \<Rightarrow> u16 \<Rightarrow> ('z fsst_scheme, nat) kop" where
  "ialloc dev ty =
     bnd (gets sb) (\<lambda>sb.
     bnd (for_ret [1..<unat (sb_ninodes sb)] (\<lambda>inum.
       bnd (bread dev (IBLOCK (of_nat inum) sb)) (\<lambda>bp.
       let j = dinode_off (of_nat inum) in
       bnd (get_buf bp (\<lambda>x. get16 (b_data x) j)) (\<lambda>t.
       if t = 0 then
         thn (upd_data bp (clear_bytes j 64)) (
         thn (upd_data bp (put16 j ty)) (
         thn (log_write bp) (
         thn (brelse bp) (
         bnd (iget dev (of_nat inum)) (\<lambda>ip.
         ret (Some ip))))))
       else thn (brelse bp) (ret None))))) (\<lambda>r.
     case r of Some ip \<Rightarrow> ret ip | None \<Rightarrow> panic ''ialloc: no inodes''))"

definition iupdate :: "nat \<Rightarrow> ('z fsst_scheme, unit) kop" where
  "iupdate ip =
     bnd (gets sb) (\<lambda>sb.
     bnd (get_inode ip id) (\<lambda>x.
     bnd (bread (i_dev x) (IBLOCK (i_inum x) sb)) (\<lambda>bp.
     thn (upd_data bp (put_dinode (dinode_off (i_inum x)) x)) (
     thn (log_write bp) (
     brelse bp)))))"

definition idup :: "nat \<Rightarrow> ('z fsst_scheme, nat) kop" where
  "idup ip =
     thn (acquire IcacheLock) (
     thn (upd_inode ip (\<lambda>x. x\<lparr>i_ref := i_ref x + 1\<rparr>)) (
     thn (release IcacheLock) (
     ret ip)))"

text \<open>The fields that come from the disk.\<close>

definition fill_inode :: "dinode \<Rightarrow> inode \<Rightarrow> inode" where
  "fill_inode d x = x\<lparr>d_type := d_type d, d_major := d_major d, d_minor := d_minor d, d_nlink := d_nlink d,
     d_size := d_size d, d_addrs := (\<lambda>i. if i \<le> NDIRECT then d_addrs d i else d_addrs x i)\<rparr>"

definition ilock :: "nat option \<Rightarrow> ('z fsst_scheme, unit) kop" where
  "ilock p =
     (case p of
        None \<Rightarrow> panic ''ilock''
      | Some ip \<Rightarrow>
     bnd (get_inode ip i_ref) (\<lambda>r.
     thn (panic_if (r < 1) ''ilock'') (
     thn (acquiresleep (InodeLock ip)) (
     bnd (get_inode ip id) (\<lambda>x.
     whenM (\<not> i_valid x) (
       bnd (gets sb) (\<lambda>sb.
       bnd (bread (i_dev x) (IBLOCK (i_inum x) sb)) (\<lambda>bp.
       bnd (get_buf bp (\<lambda>b. dinode_at (b_data b) (dinode_off (i_inum x)))) (\<lambda>d.
       thn (upd_inode ip (fill_inode d)) (
       thn (brelse bp) (
       thn (upd_inode ip (\<lambda>y. y\<lparr>i_valid := True\<rparr>)) (
       bnd (get_inode ip d_type) (\<lambda>t.
       panic_if (t = 0) ''ilock: no type'')))))))))))))"

definition iunlock :: "nat option \<Rightarrow> ('z fsst_scheme, unit) kop" where
  "iunlock p =
     (case p of
        None \<Rightarrow> panic ''iunlock''
      | Some ip \<Rightarrow>
     bnd (holdingsleep (InodeLock ip)) (\<lambda>h.
     thn (panic_if (\<not> h) ''iunlock'') (
     bnd (get_inode ip i_ref) (\<lambda>r.
     thn (panic_if (r < 1) ''iunlock'') (
     releasesleep (InodeLock ip))))))"

section \<open>File content\<close>

definition bmap :: "nat \<Rightarrow> u32 \<Rightarrow> ('z fsst_scheme, u32) kop" where
  "bmap ip bn =
     bnd (get_inode ip i_dev) (\<lambda>dev.
     if unat bn < NDIRECT then
       bnd (get_inode ip (\<lambda>x. d_addrs x (unat bn))) (\<lambda>addr.
       if addr = 0 then
         bnd (balloc dev) (\<lambda>addr.
         thn (upd_inode ip (\<lambda>x. x\<lparr>d_addrs := (d_addrs x)(unat bn := addr)\<rparr>)) (
         ret addr))
       else ret addr)
     else
     let bn = bn - of_nat NDIRECT in
     if unat bn < NINDIRECT then
       bnd (get_inode ip (\<lambda>x. d_addrs x NDIRECT)) (\<lambda>addr.
       bnd (if addr = 0 then
              bnd (balloc dev) (\<lambda>addr.
              thn (upd_inode ip (\<lambda>x. x\<lparr>d_addrs := (d_addrs x)(NDIRECT := addr)\<rparr>)) (
              ret addr))
            else ret addr) (\<lambda>addr.
       bnd (bread dev addr) (\<lambda>bp.
       bnd (get_buf bp (\<lambda>b. get32 (b_data b) (4 * unat bn))) (\<lambda>addr.
       bnd (if addr = 0 then
              bnd (balloc dev) (\<lambda>addr.
              thn (upd_data bp (put32 (4 * unat bn) addr)) (
              thn (log_write bp) (
              ret addr)))
            else ret addr) (\<lambda>addr.
       thn (brelse bp) (
       ret addr))))))
     else panic ''bmap: out of range'')"

definition itrunc :: "nat \<Rightarrow> ('z fsst_scheme, unit) kop" where
  "itrunc ip =
     bnd (get_inode ip i_dev) (\<lambda>dev.
     thn (for_all [0..<NDIRECT] (\<lambda>i.
       bnd (get_inode ip (\<lambda>x. d_addrs x i)) (\<lambda>a.
       whenM (a \<noteq> 0) (
         thn (bfree dev a) (
         upd_inode ip (\<lambda>x. x\<lparr>d_addrs := (d_addrs x)(i := 0)\<rparr>)))))) (
     bnd (get_inode ip (\<lambda>x. d_addrs x NDIRECT)) (\<lambda>ind.
     thn (whenM (ind \<noteq> 0) (
       bnd (bread dev ind) (\<lambda>bp.
       thn (for_all [0..<NINDIRECT] (\<lambda>j.
         bnd (get_buf bp (\<lambda>b. get32 (b_data b) (4 * j))) (\<lambda>a.
         whenM (a \<noteq> 0) (bfree dev a)))) (
       thn (brelse bp) (
       thn (bfree dev ind) (
       upd_inode ip (\<lambda>x. x\<lparr>d_addrs := (d_addrs x)(NDIRECT := 0)\<rparr>))))))) (
     thn (upd_inode ip (\<lambda>x. x\<lparr>d_size := 0\<rparr>)) (
     iupdate ip)))))"

definition iput :: "nat \<Rightarrow> ('z fsst_scheme, unit) kop" where
  "iput ip =
     thn (acquire IcacheLock) (
     bnd (get_inode ip id) (\<lambda>x.
     thn (whenM (i_ref x = 1 \<and> i_valid x \<and> d_nlink x = 0) (
       thn (acquiresleep (InodeLock ip)) (
       thn (release IcacheLock) (
       thn (itrunc ip) (
       thn (upd_inode ip (\<lambda>x. x\<lparr>d_type := 0\<rparr>)) (
       thn (iupdate ip) (
       thn (upd_inode ip (\<lambda>x. x\<lparr>i_valid := False\<rparr>)) (
       thn (releasesleep (InodeLock ip)) (
       acquire IcacheLock))))))))) (
     thn (upd_inode ip (\<lambda>x. x\<lparr>i_ref := i_ref x - 1\<rparr>)) (
     release IcacheLock))))"

definition iunlockput :: "nat \<Rightarrow> ('z fsst_scheme, unit) kop" where
  "iunlockput ip = thn (iunlock (Some ip)) (iput ip)"

text \<open>\<^verbatim>\<open>struct stat\<close>\<close>

record kstat =
  st_dev :: u32
  st_ino :: u32
  st_type :: u16
  st_nlink :: u16
  st_size :: u64

definition stati :: "nat \<Rightarrow> ('z fsst_scheme, kstat) kop" where
  "stati ip = get_inode ip (\<lambda>x. \<lparr>st_dev = i_dev x, st_ino = i_inum x, st_type = d_type x, st_nlink = d_nlink x,
     st_size = ucast (d_size x)\<rparr>)"

text \<open>
  \<^verbatim>\<open>m = min(n - tot, BSIZE - off%BSIZE)\<close>; it is positive while \<^verbatim>\<open>tot < n\<close>, so the
  number of bytes bounds the loops of \<^verbatim>\<open>readi()\<close> and \<^verbatim>\<open>writei()\<close>.
\<close>

definition io_chunk :: "u32 \<Rightarrow> u32 \<Rightarrow> u32 \<Rightarrow> u32" where
  "io_chunk n tot off = min (n - tot) (of_nat BSIZE - off mod of_nat BSIZE)"

definition uaddr_plus :: "uaddr \<Rightarrow> u32 \<Rightarrow> uaddr" where
  "uaddr_plus dst m = (case dst of UserAddr a \<Rightarrow> UserAddr (a + ucast m) | KernelMem a \<Rightarrow> KernelMem (a + ucast m) | KernelObj \<Rightarrow> KernelObj)"

definition usrc_plus :: "usrc \<Rightarrow> u32 \<Rightarrow> usrc" where
  "usrc_plus src m = (case src of UserSrc a \<Rightarrow> UserSrc (a + ucast m) | KernelBytes bs \<Rightarrow> KernelBytes (drop (unat m) bs))"

text \<open>One turn of the loop of \<^verbatim>\<open>readi()\<close>, over the variables of the loop and the bytes delivered.\<close>

definition readi_turn :: "nat \<Rightarrow> inode \<Rightarrow> u32 \<Rightarrow> u32 \<times> u32 \<times> uaddr \<times> u8 list
    \<Rightarrow> ('z fsst_scheme, (u32 \<times> u32 \<times> uaddr \<times> u8 list) + u8 list) kop" where
  "readi_turn ip x n = (\<lambda>(tot, off, dst, acc).
     if \<not> tot < n then ret (Inr acc)
     else
     bnd (bmap ip (off div of_nat BSIZE)) (\<lambda>addr.
     bnd (bread (i_dev x) addr) (\<lambda>bp.
     let m = io_chunk n tot off in
     bnd (get_buf bp (\<lambda>b. get_list (unat (off mod of_nat BSIZE)) (unat m) (b_data b))) (\<lambda>bs.
     bnd (either_copyout dst bs) (\<lambda>(r, out).
     thn (brelse bp) (
     if r = -1 then ret (Inr acc)
     else ret (Inl (tot + m, off + m, uaddr_plus dst m, acc @ out))))))))"

text \<open>\<^verbatim>\<open>readi()\<close>: the value, and the bytes for a destination that is a kernel variable.\<close>

definition readi :: "nat \<Rightarrow> uaddr \<Rightarrow> u32 \<Rightarrow> u32 \<Rightarrow> ('z fsst_scheme, int \<times> u8 list) kop" where
  "readi ip dst off n =
     bnd (get_inode ip id) (\<lambda>x.
     if off > d_size x \<or> off + n < off then ret (-1, [])
     else
     let n = (if off + n > d_size x then d_size x - off else n) in
     bnd (loopM (Suc (unat n)) (readi_turn ip x n) (0, off, dst, [])) (\<lambda>acc.
     ret (sint n, acc)))"

text \<open>
  \<^verbatim>\<open>writei()\<close>: a copy that fails has still put the bytes before the failure into the
  buffer.  The loop yields the final \<^verbatim>\<open>off\<close>.
\<close>

definition writei_turn :: "nat \<Rightarrow> inode \<Rightarrow> u32 \<Rightarrow> u32 \<times> u32 \<times> usrc
    \<Rightarrow> ('z fsst_scheme, (u32 \<times> u32 \<times> usrc) + u32) kop" where
  "writei_turn ip x n = (\<lambda>(tot, off, src).
     if \<not> tot < n then ret (Inr off)
     else
     bnd (bmap ip (off div of_nat BSIZE)) (\<lambda>addr.
     bnd (bread (i_dev x) addr) (\<lambda>bp.
     let m = io_chunk n tot off in
     bnd (either_copyin src (unat m)) (\<lambda>(r, bs).
     thn (upd_data bp (put_list (unat (off mod of_nat BSIZE)) bs)) (
     if r = -1 then thn (brelse bp) (ret (Inr off))
     else
     thn (log_write bp) (
     thn (brelse bp) (
     ret (Inl (tot + m, off + m, usrc_plus src m)))))))))"

definition writei :: "nat \<Rightarrow> usrc \<Rightarrow> u32 \<Rightarrow> u32 \<Rightarrow> ('z fsst_scheme, int) kop" where
  "writei ip src off n =
     bnd (get_inode ip id) (\<lambda>x.
     if off > d_size x \<or> off + n < off then ret (-1)
     else if off + n > of_nat (MAXFILE * BSIZE) then ret (-1)
     else
     bnd (loopM (Suc (unat n)) (writei_turn ip x n) (0, off, src)) (\<lambda>off.
     bnd (get_inode ip d_size) (\<lambda>sz.
     thn (whenM (n > 0 \<and> off > sz) (
       thn (upd_inode ip (\<lambda>x. x\<lparr>d_size := off\<rparr>)) (
       iupdate ip))) (
     ret (sint n)))))"

end
