(* ===== verification/Dir.thy ===== *)
theory Dir
  imports Fs
begin

text \<open>
  Directories and path names (\<^verbatim>\<open>kernel/fs.c\<close>).  A path is the list of its bytes before the
  terminator; the buffer for a path element is an array of \<^verbatim>\<open>DIRSIZ\<close> bytes, of which
  positions from \<^verbatim>\<open>DIRSIZ\<close> on are never used.
\<close>

section \<open>Directories\<close>

definition DIRSIZ :: nat where "DIRSIZ = 14"

text \<open>\<^verbatim>\<open>struct dirent\<close>: 16 bytes, the inode number and the name.\<close>

definition dirent_inum :: "u8 list \<Rightarrow> u16" where
  "dirent_inum bs = get16 (at_list bs) 0"

definition dirent_name :: "u8 list \<Rightarrow> cobj" where
  "dirent_name bs = (\<lambda>i. at_list bs (2 + i))"

definition dirent_bytes :: "u16 \<Rightarrow> cobj \<Rightarrow> u8 list" where
  "dirent_bytes inum name = [ucast inum, ucast (drop_bit 8 inum)] @ map name [0..<DIRSIZ]"

definition namecmp :: "cobj \<Rightarrow> cobj \<Rightarrow> int" where
  "namecmp s t = strncmp s t (of_nat DIRSIZ)"

text \<open>
  \<^verbatim>\<open>dirlookup()\<close>: the entry's inode and its offset (what \<^verbatim>\<open>*poff\<close> is set to).  A
  read past the 32-bit range fails, so the offset does not wrap around and the size bounds the loop.
\<close>

definition dirlookup :: "nat \<Rightarrow> cobj \<Rightarrow> ('z fsst_scheme, (nat \<times> u32) option) kop" where
  "dirlookup dp name =
     bnd (get_inode dp id) (\<lambda>x.
     thn (panic_if (d_type x \<noteq> T_DIR) ''dirlookup not DIR'') (
     loopM (Suc (unat (d_size x))) (\<lambda>off.
       bnd (get_inode dp d_size) (\<lambda>sz.
       if \<not> off < sz then ret (Inr None)
       else
       bnd (readi dp KernelObj off 16) (\<lambda>(r, de).
       thn (panic_if (r \<noteq> 16) ''dirlookup read'') (
       if dirent_inum de = 0 then ret (Inl (off + 16))
       else if namecmp name (dirent_name de) = 0 then
         bnd (get_inode dp i_dev) (\<lambda>dev.
         bnd (iget dev (ucast (dirent_inum de))) (\<lambda>ip.
         ret (Inr (Some (ip, off)))))
       else ret (Inl (off + 16))))))
     0))"

text \<open>
  \<^verbatim>\<open>dirlink()\<close>: the second loop leaves the offset of the first empty entry, or the
  directory's size.  Every byte of the new entry is assigned.
\<close>

definition dirlink :: "nat \<Rightarrow> cobj \<Rightarrow> u32 \<Rightarrow> ('z fsst_scheme, int) kop" where
  "dirlink dp name inum =
     bnd (dirlookup dp name) (\<lambda>r.
     case r of
       Some (ip, _) \<Rightarrow> thn (iput ip) (ret (-1))
     | None \<Rightarrow>
     bnd (get_inode dp d_size) (\<lambda>size.
     bnd (loopM (Suc (unat size)) (\<lambda>off.
       bnd (get_inode dp d_size) (\<lambda>sz.
       if \<not> off < sz then ret (Inr off)
       else
       bnd (readi dp KernelObj off 16) (\<lambda>(r, de).
       thn (panic_if (r \<noteq> 16) ''dirlink read'') (
       if dirent_inum de = 0 then ret (Inr off) else ret (Inl (off + 16)))))) 0) (\<lambda>off.
     let de = dirent_bytes (ucast inum) (strncpy (\<lambda>_. 0) name (int DIRSIZ)) in
     bnd (writei dp (KernelBytes de) off 16) (\<lambda>r.
     thn (panic_if (r \<noteq> 16) ''dirlink'') (
     ret 0)))))"

section \<open>Paths\<close>

definition SLASH :: u8 where "SLASH = 47"

text \<open>
  \<^verbatim>\<open>skipelem()\<close>: the path after the element, or the null pointer, and the element's
  buffer.
\<close>

definition skipelem :: "u8 list \<Rightarrow> cobj \<Rightarrow> u8 list option \<times> cobj" where
  "skipelem path name =
     (let path = dropWhile (\<lambda>c. c = SLASH) path in
      if path = [] then (None, name)
      else
      let elem = takeWhile (\<lambda>c. c \<noteq> SLASH) path;
          path = dropWhile (\<lambda>c. c \<noteq> SLASH) path;
          len = length elem;
          name = (if len \<ge> DIRSIZ then (\<lambda>i. if i < DIRSIZ then elem ! i else name i)
                  else (\<lambda>i. if i < len then elem ! i else if i = len then 0 else name i))
      in (Some (dropWhile (\<lambda>c. c = SLASH) path), name))"

text \<open>
  \<^verbatim>\<open>namex()\<close>: every turn consumes an element of the path, whose length bounds the loop.
  The value is the inode and the buffer with the last element read.
\<close>

definition namex :: "u8 list \<Rightarrow> bool \<Rightarrow> cobj \<Rightarrow> ('z fsst_scheme, nat option \<times> cobj) kop" where
  "namex path parent name =
     bnd (if path \<noteq> [] \<and> hd path = SLASH then iget ROOTDEV ROOTINO
          else
          bnd curp (\<lambda>p.
          bnd (get_proc p p_cwd) (\<lambda>cwd.
          bnd (deref cwd) idup))) (\<lambda>ip.
     loopM (Suc (length path)) (\<lambda>(path, ip, name).
       case skipelem path name of
         (None, name) \<Rightarrow>
           if parent then thn (iput ip) (ret (Inr (None, name)))
           else ret (Inr (Some ip, name))
       | (Some path, name) \<Rightarrow>
           thn (ilock (Some ip)) (
           bnd (get_inode ip d_type) (\<lambda>ty.
           if ty \<noteq> T_DIR then thn (iunlockput ip) (ret (Inr (None, name)))
           else if parent \<and> path = [] then thn (iunlock (Some ip)) (ret (Inr (Some ip, name)))
           else
           bnd (dirlookup ip name) (\<lambda>r.
           case r of
             None \<Rightarrow> thn (iunlockput ip) (ret (Inr (None, name)))
           | Some (next, _) \<Rightarrow>
               thn (iunlockput ip) (
               ret (Inl (path, next, name)))))))
     (path, ip, name))"

definition namei :: "u8 list \<Rightarrow> ('z fsst_scheme, nat option) kop" where
  "namei path = bnd (namex path False (\<lambda>_. 0)) (\<lambda>(ip, _). ret ip)"

definition nameiparent :: "u8 list \<Rightarrow> cobj \<Rightarrow> ('z fsst_scheme, nat option \<times> cobj) kop" where
  "nameiparent path name = namex path True name"

end
