(* ===== verification/Digits.thy ===== *)
theory Digits
  imports CString
begin

text \<open>
  Printing numbers, as \<^verbatim>\<open>kernel/printf.c\<close> and \<^verbatim>\<open>user/printf.c\<close> share it: the
  digits of a number in a base, least significant first, for a table of digits; and what a reader
  makes of them.  A table that can be read back is an interface of the two \<^verbatim>\<open>printint()\<close>.
\<close>

text \<open>The bytes of a string literal.\<close>

definition bytes_of :: "string \<Rightarrow> u8 list" where
  "bytes_of cs = map of_char cs"

text \<open>
  The digits of \<^verbatim>\<open>x\<close>, least significant first, as the \<^verbatim>\<open>do\<close> loop stores them; a
  32-bit number has at most 32 of them in any base.
\<close>

primrec digits_rev :: "(nat \<Rightarrow> u8) \<Rightarrow> nat \<Rightarrow> nat \<Rightarrow> nat \<Rightarrow> u8 list" where
  "digits_rev dig 0 base x = []"
| "digits_rev dig (Suc n) base x =
     dig (x mod base) # (if x div base \<noteq> 0 then digits_rev dig n base (x div base) else [])"

text \<open>The characters of a 32-bit integer, the sign (if it is printed as signed) first.\<close>

definition int_chars :: "(nat \<Rightarrow> u8) \<Rightarrow> u32 \<Rightarrow> nat \<Rightarrow> bool \<Rightarrow> u8 list" where
  "int_chars dig xx base sign =
     (let neg = sign \<and> sint xx < 0;
          x = (if neg then - xx else xx)
      in rev (digits_rev dig 32 base (unat x) @ (if neg then [45] else [])))"

definition ptr_chars :: "(nat \<Rightarrow> u8) \<Rightarrow> u64 \<Rightarrow> u8 list" where
  "ptr_chars dig x = [48, 120] @ map (\<lambda>i. dig (unat (drop_bit 60 (push_bit (4 * i) x)))) [0..<16]"

text \<open>
  The arguments of \<^verbatim>\<open>printf()\<close>.  An argument that is missing or of another kind, which C
  leaves undefined, reads as 0.
\<close>

datatype va = VInt u32 | VPtr u64 | VStr "u8 list option"

definition va_int :: "va list \<Rightarrow> u32" where
  "va_int ap = (case ap of VInt x # _ \<Rightarrow> x | _ \<Rightarrow> 0)"

definition va_ptr :: "va list \<Rightarrow> u64" where
  "va_ptr ap = (case ap of VPtr x # _ \<Rightarrow> x | _ \<Rightarrow> 0)"

definition va_str :: "va list \<Rightarrow> u8 list" where
  "va_str ap = (case ap of VStr (Some s) # _ \<Rightarrow> s | _ \<Rightarrow> [40, 110, 117, 108, 108, 41])"

text \<open>Reading a number: the value of the digits, most significant first, and the sign.\<close>

definition read_nat :: "(u8 \<Rightarrow> nat) \<Rightarrow> nat \<Rightarrow> u8 list \<Rightarrow> nat" where
  "read_nat val base cs = foldl (\<lambda>n c. n * base + val c) 0 cs"

definition read_int :: "(u8 \<Rightarrow> nat) \<Rightarrow> nat \<Rightarrow> u8 list \<Rightarrow> int" where
  "read_int val base cs =
     (case cs of [] \<Rightarrow> 0 | c # ds \<Rightarrow> if c = 45 then - int (read_nat val base ds) else int (read_nat val base cs))"

lemma sint_u32: "sint (x :: u32) = (if uint x < 2 ^ 31 then uint x else uint x - 2 ^ 32)"
proof -
  have u: "0 \<le> uint x" "uint x < 2 ^ 32" using uint_lt2p [of x] by simp_all
  have "sint x = take_bit 32 (uint x) - 2 ^ 32 * of_bool (bit (uint x) 31)"
    by (simp add: sint_uint signed_take_bit_eq_take_bit_minus)
  moreover have "take_bit 32 (uint x) = uint x" using u by (simp add: take_bit_int_eq_self)
  moreover have "uint x div 2 ^ 31 = (if uint x < 2 ^ 31 then 0 else 1)"
    using u by (auto simp: div_pos_geq)
  then have "bit (uint x) 31 \<longleftrightarrow> \<not> uint x < 2 ^ 31"
    by (simp add: bit_iff_odd split: if_splits)
  ultimately show ?thesis by simp
qed

lemma unat_pos_sint: "0 \<le> sint (x :: u32) \<Longrightarrow> sint x = uint x"
  using uint_lt2p [of x] by (simp add: sint_u32 split: if_splits)

lemma unat_neg_sint: "sint (x :: u32) < 0 \<Longrightarrow> int (unat (- x)) = - sint x"
proof -
  assume s: "sint x < 0"
  then have "uint x \<noteq> 0" by (auto simp: sint_u32)
  then have "uint (- x) = 2 ^ 32 - uint x"
    using uint_lt2p [of x] by (simp add: uint_word_ariths zmod_zminus1_eq_if)
  then show ?thesis using s uint_lt2p [of x] by (simp add: sint_u32 split: if_splits)
qed

lemma read_nat_rev_Cons: "read_nat val base (rev (d # ds)) = read_nat val base (rev ds) * base + val d"
  by (simp add: read_nat_def)

lemma mod_base_16: "1 < base \<Longrightarrow> base \<le> 16 \<Longrightarrow> x mod base < (16 :: nat)"
  using mod_less_divisor [of base x] by linarith

lemma digits_rev_ne: "digits_rev dig (Suc n) base x \<noteq> []"
  by simp

lemma digits_rev_length:
  "1 < base \<Longrightarrow> x < base ^ k \<Longrightarrow> 0 < k \<Longrightarrow> length (digits_rev dig n base x) \<le> k"
proof (induction n arbitrary: x k)
  case (Suc n)
  show ?case
  proof (cases "x div base = 0")
    case False
    with Suc.prems have "1 < k" by (cases "k = 1") auto
    moreover have "x div base < base ^ (k - 1)"
      using Suc.prems by (cases k) (auto simp: less_mult_imp_div_less mult.commute)
    ultimately have "length (digits_rev dig n base (x div base)) \<le> k - 1"
      using Suc by simp
    with \<open>1 < k\<close> show ?thesis by auto
  qed (use Suc.prems in simp)
qed simp

text \<open>The characters fit \<^verbatim>\<open>char buf[16]\<close> in the two bases the programs use.\<close>

lemma int_chars_length:
  assumes "base = 10 \<or> base = 16"
  shows "length (int_chars dig xx base sign) \<le> 11"
proof -
  have "unat (x :: u32) < base ^ 10" for x
    using assms unat_u32_bound [of x] by auto
  then have "length (digits_rev dig 32 base (unat (x :: u32))) \<le> 10" for x
    using assms by (intro digits_rev_length) auto
  from this [of xx] this [of "- xx"] show ?thesis
    by (auto simp: int_chars_def Let_def simp del: digits_rev.simps)
qed

locale digit_table =
  fixes dig :: "nat \<Rightarrow> u8" and val :: "u8 \<Rightarrow> nat"
  assumes val_dig: "i < 16 \<Longrightarrow> val (dig i) = i"
    and dig_no_sign: "i < 16 \<Longrightarrow> dig i \<noteq> 45"
begin

lemma read_digits:
  "1 < base \<Longrightarrow> base \<le> 16 \<Longrightarrow> x < base ^ n \<Longrightarrow> read_nat val base (rev (digits_rev dig n base x)) = x"
proof (induction n arbitrary: x)
  case 0
  then show ?case by (simp add: read_nat_def)
next
  case (Suc n)
  have "x mod base < 16" using Suc.prems by (intro mod_base_16)
  then have v: "val (dig (x mod base)) = x mod base" by (rule val_dig)
  have "x div base < base ^ n" using Suc.prems by (auto simp: less_mult_imp_div_less mult.commute)
  with Suc have IH: "read_nat val base (rev (digits_rev dig n base (x div base))) = x div base" by simp
  show ?case
  proof (cases "x div base = 0")
    case True
    then show ?thesis using v by (simp add: read_nat_def) (metis True div_mult_mod_eq add_0 mult_0)
  next
    case False
    have "read_nat val base (rev (digits_rev dig (Suc n) base x)) = x div base * base + x mod base"
      using False IH v by (simp only: digits_rev.simps if_True not_False_eq_True read_nat_rev_Cons)
    then show ?thesis by simp
  qed
qed

lemma digits_no_sign:
  "1 < base \<Longrightarrow> base \<le> 16 \<Longrightarrow> 45 \<notin> set (digits_rev dig n base x)"
proof (induction n arbitrary: x)
  case (Suc n)
  then have "x mod base < 16" by (intro mod_base_16)
  then show ?case using Suc dig_no_sign by (auto split: if_splits)
qed simp

lemma u32_digits: "1 < base \<Longrightarrow> unat (x :: u32) < base ^ 32"
proof -
  assume "1 < base"
  then have "(2 :: nat) ^ 32 \<le> base ^ 32" by (intro power_mono) auto
  then show ?thesis using unat_u32_bound [of x] by simp
qed

lemma int_chars_reads_back:
  assumes "1 < base" and "base \<le> 16"
  shows "read_int val base (int_chars dig xx base sign) = (if sign then sint xx else uint xx)"
proof -
  let ?neg = "sign \<and> sint xx < 0"
  have r: "read_nat val base (rev (digits_rev dig 32 base (unat x))) = unat x" for x :: u32
    by (rule read_digits [OF assms u32_digits [OF assms(1)]])
  show ?thesis
  proof (cases ?neg)
    case True
    then have "read_int val base (int_chars dig xx base sign) = - int (unat (- xx))"
      by (simp add: int_chars_def read_int_def Let_def r)
    also have "\<dots> = sint xx"
      using True unat_neg_sint [of xx] by simp
    finally show ?thesis using True by simp
  next
    case False
    let ?ds = "rev (digits_rev dig 32 base (unat xx))"
    obtain d ds where ds: "?ds = d # ds" using digits_rev_ne [of dig 31 base "unat xx"]
      by (cases ?ds) auto
    have "45 \<notin> set ?ds" using digits_no_sign [OF assms] by simp
    then have "read_int val base ?ds = int (unat xx)"
      using ds r [of xx] by (simp add: read_int_def)
    moreover have "int_chars dig xx base sign = ?ds" using False by (auto simp: int_chars_def)
    moreover have "int (unat xx) = (if sign then sint xx else uint xx)"
      using False by (auto simp: unat_pos_sint)
    ultimately show ?thesis by simp
  qed
qed

end

end
