(* ===== verification/Console.thy ===== *)
theory Console
  imports Dir Digits
begin

text \<open>
  The console: the UART driver (\<^verbatim>\<open>kernel/uart.c\<close>), formatted output
  (\<^verbatim>\<open>kernel/printf.c\<close>), the line discipline (\<^verbatim>\<open>kernel/console.c\<close>) and
  \<^verbatim>\<open>procdump()\<close> of \<^verbatim>\<open>kernel/proc.c\<close>, which the console calls.  A function that
  sleeps in a loop is cut there like the functions of \<open>Sched\<close>.
\<close>

section \<open>State\<close>

text \<open>
  The 16550 device as the driver sees it: whether the transmit register is empty, the bytes received
  and not yet read, and the writes to its registers, oldest first.
\<close>

record uart =
  u_thre :: bool
  u_rx :: "u8 list"
  u_writes :: "(nat \<times> u8) list"

definition INPUT_BUF :: nat where "INPUT_BUF = 128"

text \<open>\<^verbatim>\<open>cons\<close>: the input buffer and its read, write and edit indices.\<close>

record cons_t =
  con_buf :: "nat \<Rightarrow> u8"
  con_r :: u32
  con_w :: u32
  con_e :: u32

record cnst = fsst +
  uart0 :: uart
  panicked :: bool
  pr_locking :: bool
  cons :: cons_t

definition upd_uart :: "(uart \<Rightarrow> uart) \<Rightarrow> ('z cnst_scheme, unit) kop" where
  "upd_uart f = modify (\<lambda>s. s\<lparr>uart0 := f (uart0 s)\<rparr>)"

definition upd_cons :: "(cons_t \<Rightarrow> cons_t) \<Rightarrow> ('z cnst_scheme, unit) kop" where
  "upd_cons f = modify (\<lambda>s. s\<lparr>cons := f (cons s)\<rparr>)"

section \<open>UART\<close>

definition RHR :: nat where "RHR = 0"
definition THR :: nat where "THR = 0"
definition IER :: nat where "IER = 1"
definition FCR :: nat where "FCR = 2"
definition LCR :: nat where "LCR = 3"
definition LSR :: nat where "LSR = 5"

text \<open>
  The line status register (bit 0: input is waiting, bit 5: the transmit register is empty), and the
  receive register, whose reading takes a byte.
\<close>

definition read_lsr :: "('z cnst_scheme, u8) kop" where
  "read_lsr = gets (\<lambda>s. (if u_rx (uart0 s) \<noteq> [] then 1 else 0) OR (if u_thre (uart0 s) then push_bit 5 1 else 0))"

definition read_rhr :: "('z cnst_scheme, u8) kop" where
  "read_rhr =
     bnd (gets (\<lambda>s. u_rx (uart0 s))) (\<lambda>rx.
     thn (upd_uart (\<lambda>u. u\<lparr>u_rx := tl rx\<rparr>)) (
     ret (if rx = [] then 0 else hd rx)))"

definition WriteReg :: "nat \<Rightarrow> u8 \<Rightarrow> ('z cnst_scheme, unit) kop" where
  "WriteReg r v = upd_uart (\<lambda>u. u\<lparr>u_writes := u_writes u @ [(r, v)]\<rparr>)"

definition uartinit :: "('z cnst_scheme, unit) kop" where
  "uartinit =
     thn (WriteReg IER 0x00) (
     thn (WriteReg LCR 0x80) (
     thn (WriteReg 0 0x03) (
     thn (WriteReg 1 0x00) (
     thn (WriteReg LCR 0x03) (
     thn (WriteReg FCR 0x07) (
     WriteReg IER 0x01))))))"

text \<open>\<^verbatim>\<open>uartputc()\<close> busy-waits for the transmit register.\<close>

definition uartputc :: "u32 \<Rightarrow> ('z cnst_scheme, unit) kop" where
  "uartputc c =
     bnd read_lsr (\<lambda>l.
     if l AND push_bit 5 1 = 0 then (\<lambda>s. Spin s)
     else WriteReg THR (ucast c))"

definition uartgetc :: "('z cnst_scheme, int) kop" where
  "uartgetc =
     bnd read_lsr (\<lambda>l.
     if l AND 1 \<noteq> 0 then bnd read_rhr (\<lambda>c. ret (uint c))
     else ret (-1))"

section \<open>Output\<close>

definition BACKSPACE :: u32 where "BACKSPACE = 0x100"

definition consputc :: "u32 \<Rightarrow> ('z cnst_scheme, unit) kop" where
  "consputc c =
     bnd (gets panicked) (\<lambda>stop.
     if stop then (\<lambda>s. Spin s)
     else if c = BACKSPACE then thn (uartputc 8) (thn (uartputc 32) (uartputc 8))
     else uartputc c)"

definition putchars :: "u8 list \<Rightarrow> ('z cnst_scheme, unit) kop" where
  "putchars cs = for_all cs (\<lambda>c. consputc (ucast c))"

text \<open>\<^verbatim>\<open>"0123456789abcdef"[i]\<close>\<close>

definition digit :: "nat \<Rightarrow> u8" where
  "digit i = (if i < 10 then of_nat (48 + i) else of_nat (87 + i))"

definition printint_chars :: "u32 \<Rightarrow> nat \<Rightarrow> bool \<Rightarrow> u8 list" where
  "printint_chars xx base sign = int_chars digit xx base sign"

definition printint :: "u32 \<Rightarrow> nat \<Rightarrow> bool \<Rightarrow> ('z cnst_scheme, unit) kop" where
  "printint xx base sign = putchars (printint_chars xx base sign)"

definition printptr_chars :: "u64 \<Rightarrow> u8 list" where
  "printptr_chars x = ptr_chars digit x"

definition printptr :: "u64 \<Rightarrow> ('z cnst_scheme, unit) kop" where
  "printptr x = putchars (printptr_chars x)"

text \<open>The characters \<^verbatim>\<open>printf()\<close> sends for a format and its arguments.\<close>

fun format_chars :: "u8 list \<Rightarrow> va list \<Rightarrow> u8 list" where
  "format_chars [] ap = []"
| "format_chars (c # cs) ap =
     (if c \<noteq> 37 then c # format_chars cs ap
      else
      case cs of
        [] \<Rightarrow> []
      | k # ks \<Rightarrow>
          if k = 100 then printint_chars (va_int ap) 10 True @ format_chars ks (tl ap)
          else if k = 120 then printint_chars (va_int ap) 16 True @ format_chars ks (tl ap)
          else if k = 112 then printptr_chars (va_ptr ap) @ format_chars ks (tl ap)
          else if k = 115 then va_str ap @ format_chars ks (tl ap)
          else if k = 37 then 37 # format_chars ks ap
          else 37 # k # format_chars ks ap)"

definition kprintf :: "u8 list option \<Rightarrow> va list \<Rightarrow> ('z cnst_scheme, unit) kop" where
  "kprintf fmt ap =
     bnd (gets pr_locking) (\<lambda>locking.
     thn (whenM locking (acquire PrLock)) (
     case fmt of
       None \<Rightarrow> panic ''null fmt''
     | Some cs \<Rightarrow>
         thn (putchars (format_chars cs ap)) (
         whenM locking (release PrLock))))"

text \<open>
  \<^verbatim>\<open>panic()\<close> with its output; the other theories only keep its message, in the outcome
  \<open>Panic\<close>.
\<close>

definition kpanic :: "string \<Rightarrow> ('z cnst_scheme, unit) kop" where
  "kpanic m =
     thn (modify (\<lambda>s. s\<lparr>pr_locking := False\<rparr>)) (
     thn (kprintf (Some (bytes_of ''panic: '')) []) (
     thn (kprintf (Some (bytes_of m)) []) (
     thn (kprintf (Some [10]) []) (
     thn (modify (\<lambda>s. s\<lparr>panicked := True\<rparr>)) (
     panic m)))))"

definition printfinit :: "('z cnst_scheme, unit) kop" where
  "printfinit =
     thn (initlock PrLock ''pr'') (
     modify (\<lambda>s. s\<lparr>pr_locking := True\<rparr>))"

section \<open>Process list\<close>

definition state_name :: "procstate \<Rightarrow> u8 list" where
  "state_name st = bytes_of (case st of
     UNUSED \<Rightarrow> ''unused'' | SLEEPING \<Rightarrow> ''sleep '' | RUNNABLE \<Rightarrow> ''runble'' | RUNNING \<Rightarrow> ''run   '' | ZOMBIE \<Rightarrow> ''zombie'')"

text \<open>The string in a \<^verbatim>\<open>char[16]\<close>, which \<^verbatim>\<open>safestrcpy()\<close> always terminates.\<close>

definition name_string :: "(nat \<Rightarrow> u8) \<Rightarrow> u8 list" where
  "name_string f = takeWhile (\<lambda>c. c \<noteq> 0) (map f [0..<16])"

definition procdump :: "('z cnst_scheme, unit) kop" where
  "procdump =
     thn (kprintf (Some [10]) []) (
     for_all [0..<NPROC] (\<lambda>p.
       bnd (get_proc p id) (\<lambda>x.
       whenM (p_state x \<noteq> UNUSED) (
         thn (kprintf (Some (bytes_of ''%d %s %s'')) [VInt (word_of_int (p_pid x)), VStr (Some (state_name (p_state x))),
           VStr (Some (name_string (p_name x)))]) (
         kprintf (Some [10]) [])))))"

section \<open>Console\<close>

text \<open>\<^verbatim>\<open>C('x')\<close>\<close>

definition ctrl :: "u32 \<Rightarrow> u32" where
  "ctrl x = x - 64"

definition consolewrite :: "usrc \<Rightarrow> int \<Rightarrow> ('z cnst_scheme, int) kop" where
  "consolewrite src n =
     thn (acquire ConsLock) (
     bnd (for_ret [0..<nat n] (\<lambda>i.
       bnd (either_copyin (usrc_plus src (of_nat i)) 1) (\<lambda>(r, bs).
       if r = -1 then ret (Some ())
       else thn (putchars bs) (ret None)))) (\<lambda>_.
     thn (release ConsLock) (
     ret n)))"

text \<open>
  The loop of \<^verbatim>\<open>consoleread()\<close>, entered with the lock held and \<^verbatim>\<open>n\<close> bytes still
  to read.
\<close>

definition consoleread_loop :: "u32 \<Rightarrow> uaddr \<Rightarrow> int \<Rightarrow> ('z cnst_scheme, int) kop" where
  "consoleread_loop target dst n =
     loopM (Suc (nat n)) (\<lambda>(n, dst).
       let done = thn (release ConsLock) (ret (Inr (sint (target - word_of_int n)))) in
       if \<not> n > 0 then done
       else
       bnd (gets cons) (\<lambda>k.
       if con_r k = con_w k then
         bnd curp (\<lambda>p.
         bnd (get_proc p p_killed) (\<lambda>killed.
         if killed then thn (release ConsLock) (ret (Inr (-1)))
         else sleep ConsChan ConsLock))
       else
       let c = con_buf k (unat (con_r k) mod INPUT_BUF) in
       thn (upd_cons (\<lambda>k. k\<lparr>con_r := con_r k + 1\<rparr>)) (
       if c = 4 then
         thn (whenM (word_of_int n < target) (upd_cons (\<lambda>k. k\<lparr>con_r := con_r k - 1\<rparr>))) done
       else
       bnd (either_copyout dst [c]) (\<lambda>(r, _).
       if r = -1 then done
       else
       let n = n - 1; done = thn (release ConsLock) (ret (Inr (sint (target - word_of_int n)))) in
       if c = 10 then done
       else ret (Inl (n, uaddr_plus dst 1))))))
     (n, dst)"

definition consoleread :: "uaddr \<Rightarrow> int \<Rightarrow> ('z cnst_scheme, int) kop" where
  "consoleread dst n = thn (acquire ConsLock) (consoleread_loop (word_of_int n) dst n)"

definition consoleread_resume :: "bool \<Rightarrow> nat \<Rightarrow> u32 \<Rightarrow> uaddr \<Rightarrow> int \<Rightarrow> ('z cnst_scheme, int) kop" where
  "consoleread_resume intena p target dst n =
     thn (sleep_resume intena p ConsLock) (consoleread_loop target dst n)"

text \<open>\<^verbatim>\<open>consoleintr()\<close>; the distance from the write to the edit index bounds the erasing loop.\<close>

definition consoleintr :: "u32 \<Rightarrow> ('z cnst_scheme, unit) kop" where
  "consoleintr c =
     thn (acquire ConsLock) (
     thn (if c = ctrl 80 then procdump
          else if c = ctrl 85 then
            bnd (gets cons) (\<lambda>k.
            loopM (Suc (unat (con_e k - con_w k))) (\<lambda>_.
              bnd (gets cons) (\<lambda>k.
              if con_e k \<noteq> con_w k \<and> con_buf k (unat (con_e k - 1) mod INPUT_BUF) \<noteq> 10 then
                thn (upd_cons (\<lambda>k. k\<lparr>con_e := con_e k - 1\<rparr>)) (
                thn (consputc BACKSPACE) (
                ret (Inl ())))
              else ret (Inr ()))) ())
          else if c = ctrl 72 \<or> c = 0x7f then
            bnd (gets cons) (\<lambda>k.
            whenM (con_e k \<noteq> con_w k) (
              thn (upd_cons (\<lambda>k. k\<lparr>con_e := con_e k - 1\<rparr>)) (
              consputc BACKSPACE)))
          else
            bnd (gets cons) (\<lambda>k.
            whenM (c \<noteq> 0 \<and> con_e k - con_r k < of_nat INPUT_BUF) (
              let c = (if c = 13 then 10 else c) in
              thn (consputc c) (
              thn (upd_cons (\<lambda>k. k\<lparr>con_buf := (con_buf k)(unat (con_e k) mod INPUT_BUF := ucast c), con_e := con_e k + 1\<rparr>)) (
              bnd (gets cons) (\<lambda>k.
              whenM (c = 10 \<or> c = ctrl 68 \<or> con_e k = con_r k + of_nat INPUT_BUF) (
                thn (upd_cons (\<lambda>k. k\<lparr>con_w := con_e k\<rparr>)) (
                wakeup ConsChan)))))))) (
     release ConsLock))"

text \<open>\<^verbatim>\<open>uartintr()\<close>: the number of bytes waiting bounds the loop.\<close>

definition uartintr :: "('z cnst_scheme, unit) kop" where
  "uartintr =
     bnd (gets (\<lambda>s. length (u_rx (uart0 s)))) (\<lambda>n.
     loopM (Suc n) (\<lambda>_.
       bnd uartgetc (\<lambda>c.
       if c = -1 then ret (Inr ())
       else thn (consoleintr (word_of_int c)) (ret (Inl ())))) ())"

section \<open>Numbers on the console\<close>

text \<open>Reading a digit of the kernel's table.\<close>

definition hexval :: "u8 \<Rightarrow> nat" where
  "hexval c = (if unat c < 58 then unat c - 48 else unat c - 87)"

lemma digit_table_kernel: "\<forall>i\<in>set [0..<16]. hexval (digit i) = i \<and> digit i \<noteq> 45"
  by code_simp

interpretation kd: digit_table digit hexval
  by unfold_locales (use digit_table_kernel in auto)

text \<open>
  C37: The number the kernel's \<^verbatim>\<open>printint()\<close> prints in base 10 or 16 reads back as its
  argument, for every 32-bit argument and both signednesses (the most negative integer, whose negation
  wraps, included), and its characters fit the 16 bytes of \<^verbatim>\<open>buf\<close>.
\<close>

theorem printint_reads_back:
  assumes "base = 10 \<or> base = 16"
  shows "read_int hexval base (printint_chars xx base sign) = (if sign then sint xx else uint xx) \<and>
    length (printint_chars xx base sign) \<le> 16"
proof -
  have "1 < base" "base \<le> 16" using assms by auto
  then show ?thesis
    using kd.int_chars_reads_back [of base xx sign] int_chars_length [OF assms, of digit xx sign]
    by (simp add: printint_chars_def)
qed

theorem printint_reads_back_witness:
  "read_int hexval 10 (printint_chars 0x80000000 10 True) = - 2147483648"
  using printint_reads_back [of 10 "0x80000000" True] by simp

end
