(* ===== verification/File.thy ===== *)
theory File
  imports Console
begin

text \<open>
  Open files and pipes (\<^verbatim>\<open>kernel/file.c\<close>, \<^verbatim>\<open>kernel/pipe.c\<close>) and the device switch.
  A file pointer is an index of \<^verbatim>\<open>ftable.file[]\<close>.  A pipe is named by the address of the page
  it was allocated in; its fields are kept apart from the bytes of that page.
\<close>

section \<open>State\<close>

datatype fdtype = FD_NONE | FD_PIPE | FD_INODE | FD_DEVICE

record file_t =
  f_type :: fdtype
  f_ref :: int
  f_readable :: bool
  f_writable :: bool
  f_pipe :: u64
  f_ip :: "nat option"
  f_off :: u32
  f_major :: u16

definition PIPESIZE :: nat where "PIPESIZE = 512"

record pipe_t =
  pi_data :: "nat \<Rightarrow> u8"
  pi_nread :: u32
  pi_nwrite :: u32
  pi_readopen :: bool
  pi_writeopen :: bool

text \<open>The device switch: the only driver that is ever connected is the console.\<close>

datatype device = ConsoleDev

definition CONSOLE :: nat where "CONSOLE = 1"

record flst = cnst +
  ftable :: "nat \<Rightarrow> file_t"
  pipes :: "u64 \<Rightarrow> pipe_t"
  devsw :: "nat \<Rightarrow> device option"

definition get_file :: "nat \<Rightarrow> (file_t \<Rightarrow> 'a) \<Rightarrow> ('z flst_scheme, 'a) kop" where
  "get_file f g = gets (\<lambda>s. g (ftable s f))"

definition upd_file :: "nat \<Rightarrow> (file_t \<Rightarrow> file_t) \<Rightarrow> ('z flst_scheme, unit) kop" where
  "upd_file f g = modify (\<lambda>s. s\<lparr>ftable := upd (ftable s) f g\<rparr>)"

definition get_pipe :: "u64 \<Rightarrow> (pipe_t \<Rightarrow> 'a) \<Rightarrow> ('z flst_scheme, 'a) kop" where
  "get_pipe pi g = gets (\<lambda>s. g (pipes s pi))"

definition upd_pipe :: "u64 \<Rightarrow> (pipe_t \<Rightarrow> pipe_t) \<Rightarrow> ('z flst_scheme, unit) kop" where
  "upd_pipe pi g = modify (\<lambda>s. s\<lparr>pipes := upd (pipes s) pi g\<rparr>)"

definition consoleinit :: "('z flst_scheme, unit) kop" where
  "consoleinit =
     thn (initlock ConsLock ''cons'') (
     thn uartinit (
     modify (\<lambda>s. s\<lparr>devsw := (devsw s)(CONSOLE := Some ConsoleDev)\<rparr>)))"

text \<open>A call through \<^verbatim>\<open>devsw[major]\<close>; a null function pointer faults.\<close>

definition devread :: "u16 \<Rightarrow> uaddr \<Rightarrow> int \<Rightarrow> ('z flst_scheme, int) kop" where
  "devread major dst n =
     bnd (gets (\<lambda>s. devsw s (unat major))) (\<lambda>d.
     case d of None \<Rightarrow> null_deref | Some ConsoleDev \<Rightarrow> consoleread dst n)"

definition devwrite :: "u16 \<Rightarrow> usrc \<Rightarrow> int \<Rightarrow> ('z flst_scheme, int) kop" where
  "devwrite major src n =
     bnd (gets (\<lambda>s. devsw s (unat major))) (\<lambda>d.
     case d of None \<Rightarrow> null_deref | Some ConsoleDev \<Rightarrow> consolewrite src n)"

section \<open>Pipes\<close>

definition pipeclose :: "u64 \<Rightarrow> bool \<Rightarrow> ('z flst_scheme, unit) kop" where
  "pipeclose pi writable =
     thn (acquire (PipeLock pi)) (
     thn (if writable then
            thn (upd_pipe pi (\<lambda>x. x\<lparr>pi_writeopen := False\<rparr>)) (wakeup (PipeRead pi))
          else
            thn (upd_pipe pi (\<lambda>x. x\<lparr>pi_readopen := False\<rparr>)) (wakeup (PipeWrite pi))) (
     bnd (get_pipe pi id) (\<lambda>x.
     if \<not> pi_readopen x \<and> \<not> pi_writeopen x then
       thn (release (PipeLock pi)) (
       kfree pi)
     else release (PipeLock pi))))"

text \<open>
  The loop of \<^verbatim>\<open>pipewrite()\<close>, entered with the lock held, \<^verbatim>\<open>i\<close> bytes having been
  written: one turn of it, which may leave the function, and the whole.
\<close>

definition pipewrite_turn :: "u64 \<Rightarrow> u64 \<Rightarrow> u64 \<Rightarrow> int \<Rightarrow> int \<Rightarrow> ('z flst_scheme, int + int) kop" where
  "pipewrite_turn pi pagetable addr n i =
     (let done = thn (wakeup (PipeRead pi)) (thn (release (PipeLock pi)) (ret (Inr n))) in
        if \<not> i < n then done
        else
        bnd (get_pipe pi id) (\<lambda>x.
        if pi_nwrite x = pi_nread x + of_nat PIPESIZE then
          bnd (if \<not> pi_readopen x then ret True else bnd curp (\<lambda>p. get_proc p p_killed)) (\<lambda>stop.
          if stop then thn (release (PipeLock pi)) (ret (Inr (-1)))
          else
          thn (wakeup (PipeRead pi)) (
          sleep (PipeWrite pi) (PipeLock pi)))
        else
        bnd (copyin pagetable (addr + word_of_int i) 1) (\<lambda>(r, bs).
        if r = -1 then done
        else
        thn (upd_pipe pi (\<lambda>x. x\<lparr>pi_data := (pi_data x)(unat (pi_nwrite x) mod PIPESIZE := hd bs),
          pi_nwrite := pi_nwrite x + 1\<rparr>)) (
        ret (Inl (i + 1))))))"

definition pipewrite_loop :: "u64 \<Rightarrow> u64 \<Rightarrow> u64 \<Rightarrow> int \<Rightarrow> int \<Rightarrow> ('z flst_scheme, int) kop" where
  "pipewrite_loop pi pagetable addr n i = loopM (Suc (nat n)) (pipewrite_turn pi pagetable addr n) i"

definition pipewrite :: "u64 \<Rightarrow> u64 \<Rightarrow> int \<Rightarrow> ('z flst_scheme, int) kop" where
  "pipewrite pi addr n =
     bnd curp (\<lambda>p.
     bnd (get_proc p p_pagetable) (\<lambda>pt.
     thn (acquire (PipeLock pi)) (
     pipewrite_loop pi pt addr n 0)))"

definition pipewrite_resume :: "bool \<Rightarrow> nat \<Rightarrow> u64 \<Rightarrow> u64 \<Rightarrow> int \<Rightarrow> int \<Rightarrow> ('z flst_scheme, int) kop" where
  "pipewrite_resume intena p pi addr n i =
     thn (sleep_resume intena p (PipeLock pi)) (
     bnd (get_proc p p_pagetable) (\<lambda>pt.
     pipewrite_loop pi pt addr n i))"

text \<open>The copying loop of \<^verbatim>\<open>piperead()\<close>: the number of bytes taken.\<close>

definition piperead_turn :: "u64 \<Rightarrow> u64 \<Rightarrow> u64 \<Rightarrow> int \<Rightarrow> int \<Rightarrow> ('z flst_scheme, int + int) kop" where
  "piperead_turn pi pagetable addr n i =
       (if \<not> i < n then ret (Inr i)
       else
       bnd (get_pipe pi id) (\<lambda>x.
       if pi_nread x = pi_nwrite x then ret (Inr i)
       else
       let ch = pi_data x (unat (pi_nread x) mod PIPESIZE) in
       thn (upd_pipe pi (\<lambda>x. x\<lparr>pi_nread := pi_nread x + 1\<rparr>)) (
       bnd (copyout pagetable (addr + word_of_int i) [ch]) (\<lambda>r.
       if r = -1 then ret (Inr i) else ret (Inl (i + 1))))))"

definition piperead_copy :: "u64 \<Rightarrow> u64 \<Rightarrow> u64 \<Rightarrow> int \<Rightarrow> ('z flst_scheme, int) kop" where
  "piperead_copy pi pagetable addr n = loopM (Suc (nat n)) (piperead_turn pi pagetable addr n) 0"

definition piperead_loop :: "u64 \<Rightarrow> u64 \<Rightarrow> u64 \<Rightarrow> int \<Rightarrow> ('z flst_scheme, int) kop" where
  "piperead_loop pi pagetable addr n =
     bnd (get_pipe pi id) (\<lambda>x.
     if pi_nread x = pi_nwrite x \<and> pi_writeopen x then
       bnd curp (\<lambda>p.
       bnd (get_proc p p_killed) (\<lambda>killed.
       if killed then thn (release (PipeLock pi)) (ret (-1))
       else sleep (PipeRead pi) (PipeLock pi)))
     else
     bnd (piperead_copy pi pagetable addr n) (\<lambda>i.
     thn (wakeup (PipeWrite pi)) (
     thn (release (PipeLock pi)) (
     ret i))))"

definition piperead :: "u64 \<Rightarrow> u64 \<Rightarrow> int \<Rightarrow> ('z flst_scheme, int) kop" where
  "piperead pi addr n =
     bnd curp (\<lambda>p.
     bnd (get_proc p p_pagetable) (\<lambda>pt.
     thn (acquire (PipeLock pi)) (
     piperead_loop pi pt addr n)))"

definition piperead_resume :: "bool \<Rightarrow> nat \<Rightarrow> u64 \<Rightarrow> u64 \<Rightarrow> int \<Rightarrow> ('z flst_scheme, int) kop" where
  "piperead_resume intena p pi addr n =
     thn (sleep_resume intena p (PipeLock pi)) (
     bnd (get_proc p p_pagetable) (\<lambda>pt.
     piperead_loop pi pt addr n))"

section \<open>Files\<close>

definition fileinit :: "('z hw_scheme, unit) kop" where
  "fileinit = initlock FtableLock ''ftable''"

definition filealloc :: "('z flst_scheme, nat option) kop" where
  "filealloc =
     thn (acquire FtableLock) (
     bnd (for_ret [0..<NFILE] (\<lambda>f.
       bnd (get_file f f_ref) (\<lambda>r.
       if r = 0 then
         thn (upd_file f (\<lambda>x. x\<lparr>f_ref := 1\<rparr>)) (
         thn (release FtableLock) (
         ret (Some f)))
       else ret None))) (\<lambda>r.
     case r of
       Some f \<Rightarrow> ret (Some f)
     | None \<Rightarrow> thn (release FtableLock) (ret None)))"

definition filedup :: "nat \<Rightarrow> ('z flst_scheme, nat) kop" where
  "filedup f =
     thn (acquire FtableLock) (
     bnd (get_file f f_ref) (\<lambda>r.
     thn (panic_if (r < 1) ''filedup'') (
     thn (upd_file f (\<lambda>x. x\<lparr>f_ref := f_ref x + 1\<rparr>)) (
     thn (release FtableLock) (
     ret f)))))"

definition fileclose :: "nat \<Rightarrow> ('z flst_scheme, unit) kop" where
  "fileclose f =
     thn (acquire FtableLock) (
     bnd (get_file f f_ref) (\<lambda>r.
     thn (panic_if (r < 1) ''fileclose'') (
     thn (upd_file f (\<lambda>x. x\<lparr>f_ref := f_ref x - 1\<rparr>)) (
     if r - 1 > 0 then release FtableLock
     else
     bnd (get_file f id) (\<lambda>ff.
     thn (upd_file f (\<lambda>x. x\<lparr>f_ref := 0, f_type := FD_NONE\<rparr>)) (
     thn (release FtableLock) (
     if f_type ff = FD_PIPE then pipeclose (f_pipe ff) (f_writable ff)
     else if f_type ff = FD_INODE \<or> f_type ff = FD_DEVICE then
       bnd (deref (f_ip ff)) (\<lambda>ip.
       bnd (get_inode ip i_dev) (\<lambda>dev.
       thn (begin_op dev) (
       thn (iput ip) (
       bnd (get_inode ip i_dev) (\<lambda>dev.
       end_op dev)))))
     else skip)))))))"

text \<open>
  The bytes of a \<^verbatim>\<open>struct stat\<close>: 24, four of them padding, which is whatever the stack held
  and is 0 here.
\<close>

definition stat_bytes :: "kstat \<Rightarrow> u8 list" where
  "stat_bytes st = get_list 0 24 (put32 20 (ucast (drop_bit 32 (st_size st))) (put32 16 (ucast (st_size st))
     (put16 10 (st_nlink st) (put16 8 (st_type st) (put32 4 (st_ino st) (put32 0 (st_dev st) (\<lambda>_. 0)))))))"

definition filestat :: "nat \<Rightarrow> u64 \<Rightarrow> ('z flst_scheme, int) kop" where
  "filestat f addr =
     bnd curp (\<lambda>p.
     bnd (get_file f id) (\<lambda>x.
     if f_type x = FD_INODE \<or> f_type x = FD_DEVICE then
       thn (ilock (f_ip x)) (
       bnd (deref (f_ip x)) (\<lambda>ip.
       bnd (stati ip) (\<lambda>st.
       thn (iunlock (f_ip x)) (
       bnd (get_proc p p_pagetable) (\<lambda>pt.
       bnd (copyout pt addr (stat_bytes st)) (\<lambda>r.
       ret (if r < 0 then -1 else 0)))))))
     else ret (-1)))"

definition fileread :: "nat \<Rightarrow> u64 \<Rightarrow> int \<Rightarrow> ('z flst_scheme, int) kop" where
  "fileread f addr n =
     bnd (get_file f id) (\<lambda>x.
     if \<not> f_readable x then ret (-1)
     else
     case f_type x of
       FD_PIPE \<Rightarrow> piperead (f_pipe x) addr n
     | FD_DEVICE \<Rightarrow> devread (f_major x) (UserAddr addr) n
     | FD_INODE \<Rightarrow>
         thn (ilock (f_ip x)) (
         bnd (deref (f_ip x)) (\<lambda>ip.
         bnd (get_file f f_off) (\<lambda>off.
         bnd (readi ip (UserAddr addr) off (word_of_int n)) (\<lambda>(r, _).
         thn (whenM (r > 0) (upd_file f (\<lambda>x. x\<lparr>f_off := f_off x + word_of_int r\<rparr>))) (
         thn (iunlock (f_ip x)) (
         ret r))))))
     | FD_NONE \<Rightarrow> panic ''fileread'')"

text \<open>\<^verbatim>\<open>((MAXOPBLOCKS-1-1-2) / 2) * BSIZE\<close>\<close>

definition write_max :: int where
  "write_max = int ((MAXOPBLOCKS - 1 - 1 - 2) div 2 * BSIZE)"

definition filewrite_inode :: "nat \<Rightarrow> nat \<Rightarrow> u64 \<Rightarrow> int \<Rightarrow> ('z flst_scheme, int) kop" where
  "filewrite_inode f ip addr n =
     bnd (loopM (Suc (nat n)) (\<lambda>i.
       if \<not> i < n then ret (Inr i)
       else
       let n1 = (if n - i > write_max then write_max else n - i) in
       bnd (get_inode ip i_dev) (\<lambda>dev.
       thn (begin_op dev) (
       thn (ilock (Some ip)) (
       bnd (get_file f f_off) (\<lambda>off.
       bnd (writei ip (UserSrc (addr + word_of_int i)) off (word_of_int n1)) (\<lambda>r.
       thn (whenM (r > 0) (upd_file f (\<lambda>x. x\<lparr>f_off := f_off x + word_of_int r\<rparr>))) (
       thn (iunlock (Some ip)) (
       bnd (get_inode ip i_dev) (\<lambda>dev.
       thn (end_op dev) (
       if r < 0 then ret (Inr i)
       else
       thn (panic_if (r \<noteq> n1) ''short filewrite'') (
       ret (Inl (i + r))))))))))))) 0) (\<lambda>i.
     ret (if i = n then n else -1))"

definition filewrite :: "nat \<Rightarrow> u64 \<Rightarrow> int \<Rightarrow> ('z flst_scheme, int) kop" where
  "filewrite f addr n =
     bnd (get_file f id) (\<lambda>x.
     if \<not> f_writable x then ret (-1)
     else
     case f_type x of
       FD_PIPE \<Rightarrow> pipewrite (f_pipe x) addr n
     | FD_DEVICE \<Rightarrow> devwrite (f_major x) (UserSrc addr) n
     | FD_INODE \<Rightarrow>
         if n > 0 then bnd (deref (f_ip x)) (\<lambda>ip. filewrite_inode f ip addr n)
         else ret (if n = 0 then n else -1)
     | FD_NONE \<Rightarrow> panic ''filewrite'')"

text \<open>\<^verbatim>\<open>pipealloc()\<close>: the value, and what \<^verbatim>\<open>*f0\<close> and \<^verbatim>\<open>*f1\<close> are set to.\<close>

definition pipealloc_bad :: "nat option \<Rightarrow> nat option \<Rightarrow> ('z flst_scheme, int \<times> nat option \<times> nat option) kop" where
  "pipealloc_bad f0 f1 =
     thn (case f0 of None \<Rightarrow> skip | Some f \<Rightarrow> fileclose f) (
     thn (case f1 of None \<Rightarrow> skip | Some f \<Rightarrow> fileclose f) (
     ret (-1, f0, f1)))"

definition pipealloc :: "('z flst_scheme, int \<times> nat option \<times> nat option) kop" where
  "pipealloc =
     bnd filealloc (\<lambda>f0.
     case f0 of
       None \<Rightarrow> pipealloc_bad None None
     | Some a \<Rightarrow>
     bnd filealloc (\<lambda>f1.
     case f1 of
       None \<Rightarrow> pipealloc_bad f0 None
     | Some b \<Rightarrow>
     bnd kalloc (\<lambda>pi.
     if pi = 0 then pipealloc_bad f0 f1
     else
     thn (upd_pipe pi (\<lambda>x. x\<lparr>pi_readopen := True, pi_writeopen := True, pi_nwrite := 0, pi_nread := 0\<rparr>)) (
     thn (initlock (PipeLock pi) ''pipe'') (
     thn (upd_file a (\<lambda>x. x\<lparr>f_type := FD_PIPE, f_readable := True, f_writable := False, f_pipe := pi\<rparr>)) (
     thn (upd_file b (\<lambda>x. x\<lparr>f_type := FD_PIPE, f_readable := False, f_writable := True, f_pipe := pi\<rparr>)) (
     ret (0, f0, f1))))))))"

end
