(* ===== verification/Proc.thy ===== *)
theory Proc
  imports File
begin

text \<open>
  Processes (\<^verbatim>\<open>kernel/proc.c\<close>): creation, growth, exit and waiting.  A process pointer is an
  index of \<^verbatim>\<open>proc[]\<close>; the null pointer is \<open>None\<close>.
\<close>

section \<open>State\<close>

text \<open>
  Addresses of code, and the static variable of \<^verbatim>\<open>forkret()\<close>.
\<close>

record krst = flst +
  ksym_forkret :: u64
  ksym_usertrap :: u64
  ksym_kernelvec :: u64
  ksym_uservec :: u64
  ksym_userret :: u64
  fork_first :: bool

section \<open>Allocation\<close>

definition procinit :: "('z pst_scheme, unit) kop" where
  "procinit =
     thn (initlock PidLock ''nextpid'') (
     thn (for_all [0..<NPROC] (\<lambda>p.
       thn (initlock (ProcLock p) ''proc'') (
       bnd kalloc (\<lambda>pa.
       thn (panic_if (pa = 0) ''kalloc'') (
       let va = KSTACK p in
       thn (kvmmap va pa PGSIZE (PTE_R OR PTE_W)) (
       upd_proc p (\<lambda>x. x\<lparr>p_kstack := va\<rparr>))))))) (
     kvminithart))"

definition proc_pagetable :: "nat \<Rightarrow> ('z pst_scheme, u64) kop" where
  "proc_pagetable p =
     bnd uvmcreate (\<lambda>pagetable.
     bnd (gets ksym_trampoline) (\<lambda>tramp.
     bnd (mappages pagetable TRAMPOLINE PGSIZE tramp (PTE_R OR PTE_X)) (\<lambda>_.
     bnd (get_proc p p_tf) (\<lambda>tf.
     bnd (mappages pagetable TRAPFRAME PGSIZE tf (PTE_R OR PTE_W)) (\<lambda>_.
     ret pagetable)))))"

definition proc_freepagetable :: "u64 \<Rightarrow> u64 \<Rightarrow> ('z pst_scheme, unit) kop" where
  "proc_freepagetable pagetable sz =
     thn (uvmunmap pagetable TRAMPOLINE PGSIZE False) (
     thn (uvmunmap pagetable TRAPFRAME PGSIZE False) (
     whenM (sz > 0) (uvmfree pagetable sz)))"

text \<open>\<^verbatim>\<open>allocproc()\<close>: the scan for a free slot, which it leaves locked, and the code at \<^verbatim>\<open>found\<close>.\<close>

definition allocproc_scan :: "('z pst_scheme, nat option) kop" where
  "allocproc_scan =
     for_ret [0..<NPROC] (\<lambda>p.
       thn (acquire (ProcLock p)) (
       bnd (get_proc p p_state) (\<lambda>st.
       if st = UNUSED then ret (Some p)
       else thn (release (ProcLock p)) (ret None))))"

definition allocproc :: "('z krst_scheme, nat option) kop" where
  "allocproc =
     bnd allocproc_scan (\<lambda>r.
     case r of
       None \<Rightarrow> ret None
     | Some p \<Rightarrow>
     bnd allocpid (\<lambda>pid.
     thn (upd_proc p (\<lambda>x. x\<lparr>p_pid := pid\<rparr>)) (
     bnd kalloc (\<lambda>tf.
     thn (upd_proc p (\<lambda>x. x\<lparr>p_tf := tf\<rparr>)) (
     if tf = 0 then thn (release (ProcLock p)) (ret None)
     else
     bnd (proc_pagetable p) (\<lambda>pt.
     thn (upd_proc p (\<lambda>x. x\<lparr>p_pagetable := pt\<rparr>)) (
     bnd (gets ksym_forkret) (\<lambda>ra.
     thn (upd_proc p (\<lambda>x. x\<lparr>p_context := zero_context\<lparr>ctx_ra := ra, ctx_sp := p_kstack x + PGSIZE\<rparr>\<rparr>)) (
     ret (Some p))))))))))"

definition freeproc :: "nat \<Rightarrow> ('z pst_scheme, unit) kop" where
  "freeproc p =
     bnd (get_proc p p_tf) (\<lambda>tf.
     thn (whenM (tf \<noteq> 0) (kfree tf)) (
     thn (upd_proc p (\<lambda>x. x\<lparr>p_tf := 0\<rparr>)) (
     bnd (get_proc p id) (\<lambda>x.
     thn (whenM (p_pagetable x \<noteq> 0) (proc_freepagetable (p_pagetable x) (p_sz x))) (
     upd_proc p (\<lambda>x. x\<lparr>p_pagetable := 0, p_sz := 0, p_pid := 0, p_parent := None, p_name := (p_name x)(0 := 0),
       p_chan := None, p_killed := False, p_state := UNUSED\<rparr>))))))"

text \<open>The program of the first process.\<close>

definition initcode :: "u8 list" where
  "initcode = [
     0x17, 0x05, 0x00, 0x00, 0x13, 0x05, 0x05, 0x02,
     0x97, 0x05, 0x00, 0x00, 0x93, 0x85, 0x05, 0x02,
     0x9d, 0x48, 0x73, 0x00, 0x00, 0x00, 0x89, 0x48,
     0x73, 0x00, 0x00, 0x00, 0xef, 0xf0, 0xbf, 0xff,
     0x2f, 0x69, 0x6e, 0x69, 0x74, 0x00, 0x00, 0x01,
     0x20, 0x00, 0x00, 0x00, 0x00, 0x00, 0x00, 0x00,
     0x00, 0x00, 0x00]"

definition userinit :: "('z krst_scheme, unit) kop" where
  "userinit =
     bnd allocproc (\<lambda>r.
     thn (modify (\<lambda>s. s\<lparr>initproc := r\<rparr>)) (
     bnd (deref r) (\<lambda>p.
     bnd (get_proc p p_pagetable) (\<lambda>pt.
     thn (uvminit pt initcode) (
     thn (upd_proc p (\<lambda>x. x\<lparr>p_sz := PGSIZE\<rparr>)) (
     thn (w_tf p TF_EPC 0) (
     thn (w_tf p TF_SP PGSIZE) (
     thn (upd_proc p (\<lambda>x. x\<lparr>p_name := safestrcpy (p_name x) (at_list (bytes_of ''initcode'')) 16\<rparr>)) (
     bnd (namei [SLASH]) (\<lambda>cwd.
     thn (upd_proc p (\<lambda>x. x\<lparr>p_cwd := cwd\<rparr>)) (
     thn (upd_proc p (\<lambda>x. x\<lparr>p_state := RUNNABLE\<rparr>)) (
     release (ProcLock p)))))))))))))"

text \<open>\<^verbatim>\<open>growproc()\<close>: \<^verbatim>\<open>sz\<close> is a 32-bit variable.\<close>

definition growproc :: "int \<Rightarrow> ('z pst_scheme, int) kop" where
  "growproc n =
     bnd curp (\<lambda>p.
     bnd (get_proc p id) (\<lambda>x.
     let sz = ucast (p_sz x) :: u32; pt = p_pagetable x in
     if n > 0 then
       bnd (uvmalloc pt (ucast sz) (ucast (sz + word_of_int n))) (\<lambda>r.
       let sz = ucast r :: u32 in
       if sz = 0 then ret (-1)
       else thn (upd_proc p (\<lambda>x. x\<lparr>p_sz := ucast sz\<rparr>)) (ret 0))
     else if n < 0 then
       bnd (uvmdealloc pt (ucast sz) (ucast (sz + word_of_int n))) (\<lambda>r.
       let sz = ucast r :: u32 in
       if sz = 0 then ret (-1)
       else thn (upd_proc p (\<lambda>x. x\<lparr>p_sz := ucast sz\<rparr>)) (ret 0))
     else thn (upd_proc p (\<lambda>x. x\<lparr>p_sz := ucast sz\<rparr>)) (ret 0)))"

section \<open>Fork\<close>

definition fork :: "('z krst_scheme, int) kop" where
  "fork =
     bnd curp (\<lambda>p.
     bnd allocproc (\<lambda>r.
     case r of
       None \<Rightarrow> ret (-1)
     | Some np \<Rightarrow>
     bnd (get_proc p id) (\<lambda>x.
     bnd (get_proc np p_pagetable) (\<lambda>npt.
     bnd (uvmcopy (p_pagetable x) npt (p_sz x)) (\<lambda>e.
     if e < 0 then
       thn (freeproc np) (
       thn (release (ProcLock np)) (
       ret (-1)))
     else
     thn (upd_proc np (\<lambda>y. y\<lparr>p_sz := p_sz x\<rparr>)) (
     thn (upd_proc np (\<lambda>y. y\<lparr>p_parent := Some p\<rparr>)) (
     bnd (get_proc np p_tf) (\<lambda>ntf.
     thn (if p_tf x = 0 \<or> ntf = 0 then null_deref else upd_mem (memmove ntf (p_tf x) TF_SIZE)) (
     thn (w_tf np (TF_A 0) 0) (
     thn (for_all [0..<NOFILE] (\<lambda>i.
       bnd (get_proc p (\<lambda>x. p_ofile x i)) (\<lambda>o_f.
       case o_f of
         None \<Rightarrow> skip
       | Some f \<Rightarrow>
           bnd (filedup f) (\<lambda>g.
           upd_proc np (\<lambda>y. y\<lparr>p_ofile := (p_ofile y)(i := Some g)\<rparr>))))) (
     bnd (deref (p_cwd x)) (\<lambda>cwd.
     bnd (idup cwd) (\<lambda>ip.
     thn (upd_proc np (\<lambda>y. y\<lparr>p_cwd := Some ip\<rparr>)) (
     thn (upd_proc np (\<lambda>y. y\<lparr>p_name := safestrcpy (p_name y) (p_name x) 16\<rparr>)) (
     bnd (get_proc np p_pid) (\<lambda>pid.
     thn (upd_proc np (\<lambda>y. y\<lparr>p_state := RUNNABLE\<rparr>)) (
     thn (release (ProcLock np)) (
     ret pid))))))))))))))))))"

section \<open>Exit and wait\<close>

definition reparent :: "nat \<Rightarrow> nat \<Rightarrow> ('z pst_scheme, unit) kop" where
  "reparent p parent =
     bnd (gets initproc) (\<lambda>init.
     bnd (get_proc p p_parent) (\<lambda>par.
     let child_of_init = (par = init) in
     for_all [0..<NPROC] (\<lambda>pp.
       bnd (get_proc pp p_parent) (\<lambda>q.
       whenM (q = Some p) (
         thn (acquire (ProcLock pp)) (
         thn (upd_proc pp (\<lambda>x. x\<lparr>p_parent := init\<rparr>)) (
         bnd (get_proc pp p_state) (\<lambda>st.
         thn (whenM (st = ZOMBIE) (
           bnd (deref init) (\<lambda>i.
           thn (whenM (\<not> child_of_init) (acquire (ProcLock i))) (
           thn (wakeup1 i) (
           whenM (\<not> child_of_init) (release (ProcLock i))))))) (
         release (ProcLock pp))))))))))"

definition parent_of :: "nat \<Rightarrow> ('z pst_scheme, nat) kop" where
  "parent_of p = bnd (get_proc p p_parent) deref"

definition kexit :: "('z flst_scheme, 'a) kop" where
  "kexit =
     bnd myproc (\<lambda>mp.
     bnd (gets initproc) (\<lambda>init.
     thn (panic_if (mp = init) ''init exiting'') (
     bnd (deref mp) (\<lambda>p.
     thn (for_all [0..<NOFILE] (\<lambda>fd.
       bnd (get_proc p (\<lambda>x. p_ofile x fd)) (\<lambda>o_f.
       case o_f of
         None \<Rightarrow> skip
       | Some f \<Rightarrow>
           thn (fileclose f) (
           upd_proc p (\<lambda>x. x\<lparr>p_ofile := (p_ofile x)(fd := None)\<rparr>))))) (
     thn (begin_op ROOTDEV) (
     bnd (get_proc p p_cwd) (\<lambda>cwd.
     bnd (deref cwd) (\<lambda>ip.
     thn (iput ip) (
     thn (end_op ROOTDEV) (
     thn (upd_proc p (\<lambda>x. x\<lparr>p_cwd := None\<rparr>)) (
     thn (bnd (parent_of p) (\<lambda>q. acquire (ProcLock q))) (
     thn (acquire (ProcLock p)) (
     thn (bnd (parent_of p) (reparent p)) (
     thn (bnd (parent_of p) wakeup1) (
     thn (upd_proc p (\<lambda>x. x\<lparr>p_state := ZOMBIE\<rparr>)) (
     thn (bnd (parent_of p) (\<lambda>q. release (ProcLock q))) (
     thn (sched :: ('z flst_scheme, unit) kop) (
     panic ''zombie exit''))))))))))))))))))"

text \<open>
  One scan of \<^verbatim>\<open>wait()\<close>, entered with \<^verbatim>\<open>p->lock\<close> held: a child that was reaped
  (both locks have then been released), or whether there are children.
\<close>

primrec wait_scan :: "nat \<Rightarrow> nat list \<Rightarrow> bool \<Rightarrow> ('z pst_scheme, int + bool) kop" where
  "wait_scan p [] havekids = ret (Inr havekids)"
| "wait_scan p (np # nps) havekids =
     bnd (get_proc np p_parent) (\<lambda>q.
     if q = Some p then
       thn (acquire (ProcLock np)) (
       bnd (get_proc np p_state) (\<lambda>st.
       if st = ZOMBIE then
         bnd (get_proc np p_pid) (\<lambda>pid.
         thn (freeproc np) (
         thn (release (ProcLock np)) (
         thn (release (ProcLock p)) (
         ret (Inl pid)))))
       else
         thn (release (ProcLock np)) (
         wait_scan p nps True)))
     else wait_scan p nps havekids)"

definition wait_loop :: "nat \<Rightarrow> ('z pst_scheme, int) kop" where
  "wait_loop p =
     bnd (wait_scan p [0..<NPROC] False) (\<lambda>r.
     case r of
       Inl pid \<Rightarrow> ret pid
     | Inr havekids \<Rightarrow>
         bnd (get_proc p p_killed) (\<lambda>killed.
         if \<not> havekids \<or> killed then
           thn (release (ProcLock p)) (
           ret (-1))
         else sleep (ProcChan p) (ProcLock p)))"

definition kwait :: "('z pst_scheme, int) kop" where
  "kwait =
     bnd curp (\<lambda>p.
     thn (acquire (ProcLock p)) (
     wait_loop p))"

definition wait_resume :: "bool \<Rightarrow> nat \<Rightarrow> ('z pst_scheme, int) kop" where
  "wait_resume intena p = thn (sleep_resume intena p (ProcLock p)) (wait_loop p)"

end
