(* ===== verification/ElfExec.thy ===== *)
theory ElfExec
  imports Proc
begin

text \<open>
  Running a program (\<^verbatim>\<open>kernel/exec.c\<close>, \<^verbatim>\<open>kernel/elf.h\<close>).  The vector \<^verbatim>\<open>argv\<close> is the
  list of its string pointers before the null pointer that ends it.
\<close>

section \<open>File format\<close>

definition ELF_MAGIC :: u32 where "ELF_MAGIC = 0x464C457F"
definition ELF_PROG_LOAD :: u32 where "ELF_PROG_LOAD = 1"

text \<open>A field of a structure that was read from a file, at its offset.\<close>

definition field32 :: "u8 list \<Rightarrow> nat \<Rightarrow> u32" where
  "field32 bs i = get32 (at_list bs) i"

definition field64 :: "u8 list \<Rightarrow> nat \<Rightarrow> u64" where
  "field64 bs i = ucast (field32 bs i) OR push_bit 32 (ucast (field32 bs (i + 4)))"

record elfhdr =
  eh_magic :: u32
  eh_entry :: u64
  eh_phoff :: u64
  eh_phnum :: u16

definition elfhdr_at :: "u8 list \<Rightarrow> elfhdr" where
  "elfhdr_at bs = \<lparr>eh_magic = field32 bs 0, eh_entry = field64 bs 24, eh_phoff = field64 bs 32,
     eh_phnum = get16 (at_list bs) 56\<rparr>"

record proghdr =
  ph_type :: u32
  ph_off :: u64
  ph_vaddr :: u64
  ph_filesz :: u64
  ph_memsz :: u64

definition proghdr_at :: "u8 list \<Rightarrow> proghdr" where
  "proghdr_at bs = \<lparr>ph_type = field32 bs 0, ph_off = field64 bs 8, ph_vaddr = field64 bs 16,
     ph_filesz = field64 bs 32, ph_memsz = field64 bs 40\<rparr>"

section \<open>Loading\<close>

definition loadseg :: "u64 \<Rightarrow> u64 \<Rightarrow> nat \<Rightarrow> u32 \<Rightarrow> u32 \<Rightarrow> ('z fsst_scheme, int) kop" where
  "loadseg pagetable va ip offset sz =
     thn (panic_if (va mod PGSIZE \<noteq> 0) ''loadseg: va must be page aligned'') (
     loopM (2 ^ 20 + 1) (\<lambda>i.
       if \<not> i < sz then ret (Inr 0)
       else
       bnd (walkaddr pagetable (va + ucast i)) (\<lambda>pa.
       thn (panic_if (pa = 0) ''loadseg: address should exist'') (
       let n = (if sz - i < 4096 then sz - i else 4096) in
       bnd (readi ip (KernelMem pa) (offset + i) n) (\<lambda>(r, _).
       if word_of_int r \<noteq> n then ret (Inr (-1))
       else ret (Inl (i + 4096)))))) 0)"

text \<open>
  The loop over the program headers, with \<open>k\<close> of them to go: \<open>Inl sz\<close> where the code jumps to
  \<^verbatim>\<open>bad\<close>.
\<close>

primrec load_segments :: "u64 \<Rightarrow> nat \<Rightarrow> nat \<Rightarrow> u32 \<Rightarrow> u64 \<Rightarrow> ('z fsst_scheme, u64 + u64) kop" where
  "load_segments pagetable ip 0 off sz = ret (Inr sz)"
| "load_segments pagetable ip (Suc k) off sz =
     bnd (readi ip KernelObj off 56) (\<lambda>(r, bs).
     let ph = proghdr_at bs in
     if r \<noteq> 56 then ret (Inl sz)
     else if ph_type ph \<noteq> ELF_PROG_LOAD then load_segments pagetable ip k (off + 56) sz
     else if ph_memsz ph < ph_filesz ph then ret (Inl sz)
     else if ph_vaddr ph + ph_memsz ph < ph_vaddr ph then ret (Inl sz)
     else
     bnd (uvmalloc pagetable sz (ph_vaddr ph + ph_memsz ph)) (\<lambda>sz.
     if sz = 0 then ret (Inl sz)
     else if ph_vaddr ph mod PGSIZE \<noteq> 0 then ret (Inl sz)
     else
     bnd (loadseg pagetable (ph_vaddr ph) ip (ucast (ph_off ph)) (ucast (ph_filesz ph))) (\<lambda>e.
     if e < 0 then ret (Inl sz)
     else load_segments pagetable ip k (off + 56) sz)))"

section \<open>The stack\<close>

definition strlen_mem :: "u64 \<Rightarrow> ('z kmem_scheme, nat) kop" where
  "strlen_mem a = (\<lambda>s. case strlen (at_mem (mem s) a) of None \<Rightarrow> Spin s | Some n \<Rightarrow> Done n s)"

definition align16 :: "u64 \<Rightarrow> u64" where
  "align16 sp = sp - sp mod 16"

text \<open>The loop that pushes the argument strings; \<open>None\<close> where the code jumps to \<^verbatim>\<open>bad\<close>.\<close>

primrec push_args :: "u64 \<Rightarrow> u64 \<Rightarrow> u64 list \<Rightarrow> u64 \<Rightarrow> u64 list \<Rightarrow> ('z kmem_scheme, (u64 \<times> u64 list) option) kop" where
  "push_args pagetable stackbase [] sp ustack = ret (Some (sp, ustack))"
| "push_args pagetable stackbase (a # argv) sp ustack =
     (if length ustack \<ge> MAXARG then ret None
      else
      bnd (strlen_mem a) (\<lambda>n.
      let sp = align16 (sp - of_nat (n + 1)) in
      if sp < stackbase then ret None
      else
      bnd (gets (\<lambda>s. get_bytes a (n + 1) (mem s))) (\<lambda>bs.
      bnd (copyout pagetable sp bs) (\<lambda>e.
      if e < 0 then ret None
      else push_args pagetable stackbase argv sp (ustack @ [sp])))))"

definition bytes64 :: "u64 \<Rightarrow> u8 list" where
  "bytes64 w = map (\<lambda>i. ucast (drop_bit (8 * i) w)) [0..<8]"

text \<open>The part of the path after its last slash.\<close>

definition last_elem :: "u8 list \<Rightarrow> u8 list" where
  "last_elem path = rev (takeWhile (\<lambda>c. c \<noteq> SLASH) (rev path))"

section \<open>Exec\<close>

definition exec_bad :: "u64 \<Rightarrow> u64 \<Rightarrow> nat option \<Rightarrow> ('z fsst_scheme, int) kop" where
  "exec_bad pagetable sz ip =
     thn (whenM (pagetable \<noteq> 0) (proc_freepagetable pagetable sz)) (
     thn (case ip of None \<Rightarrow> skip | Some i \<Rightarrow> thn (iunlockput i) (end_op ROOTDEV)) (
     ret (-1)))"

text \<open>\<^verbatim>\<open>exec()\<close> after the image has been read: the stack, and the switch to the new image.\<close>

definition exec_image :: "nat \<Rightarrow> u8 list \<Rightarrow> u64 list \<Rightarrow> u64 \<Rightarrow> u64 \<Rightarrow> u64 \<Rightarrow> ('z fsst_scheme, int) kop" where
  "exec_image p path argv pagetable entry sz =
     bnd (get_proc p p_sz) (\<lambda>oldsz.
     let sz = PGROUNDUP sz in
     bnd (uvmalloc pagetable sz (sz + 2 * PGSIZE)) (\<lambda>sz.
     if sz = 0 then exec_bad pagetable sz None
     else
     thn (uvmclear pagetable (sz - 2 * PGSIZE)) (
     let stackbase = sz - PGSIZE in
     bnd (push_args pagetable stackbase argv sz []) (\<lambda>r.
     case r of
       None \<Rightarrow> exec_bad pagetable sz None
     | Some (sp, ustack) \<Rightarrow>
     let argc = length ustack; sp = align16 (sp - of_nat ((argc + 1) * 8)) in
     if sp < stackbase then exec_bad pagetable sz None
     else
     bnd (copyout pagetable sp (concat (map bytes64 (ustack @ [0])))) (\<lambda>e.
     if e < 0 then exec_bad pagetable sz None
     else
     thn (w_tf p (TF_A 1) sp) (
     thn (upd_proc p (\<lambda>x. x\<lparr>p_name := safestrcpy (p_name x) (at_list (last_elem path)) 16\<rparr>)) (
     bnd (get_proc p p_pagetable) (\<lambda>oldpagetable.
     thn (upd_proc p (\<lambda>x. x\<lparr>p_pagetable := pagetable, p_sz := sz\<rparr>)) (
     thn (w_tf p TF_EPC entry) (
     thn (w_tf p TF_SP sp) (
     thn (proc_freepagetable oldpagetable oldsz) (
     ret (int argc)))))))))))))"

definition kexec :: "u8 list \<Rightarrow> u64 list \<Rightarrow> ('z fsst_scheme, int) kop" where
  "kexec path argv =
     bnd curp (\<lambda>p.
     thn (begin_op ROOTDEV) (
     bnd (namei path) (\<lambda>r.
     case r of
       None \<Rightarrow> thn (end_op ROOTDEV) (ret (-1))
     | Some ip \<Rightarrow>
     thn (ilock (Some ip)) (
     bnd (readi ip KernelObj 0 64) (\<lambda>(r, bs).
     let elf = elfhdr_at bs in
     if r \<noteq> 64 then exec_bad 0 0 (Some ip)
     else if eh_magic elf \<noteq> ELF_MAGIC then exec_bad 0 0 (Some ip)
     else
     bnd (proc_pagetable p) (\<lambda>pagetable.
     if pagetable = 0 then exec_bad 0 0 (Some ip)
     else
     bnd (load_segments pagetable ip (unat (eh_phnum elf)) (ucast (eh_phoff elf)) 0) (\<lambda>r.
     case r of
       Inl sz \<Rightarrow> exec_bad pagetable sz (Some ip)
     | Inr sz \<Rightarrow>
         thn (iunlockput ip) (
         thn (end_op ROOTDEV) (
         exec_image p path argv pagetable (eh_entry elf) sz)))))))))"

end
