(* ===== verification/Syscall.thy ===== *)
theory Syscall
  imports ElfExec
begin

text \<open>
  System call arguments (\<^verbatim>\<open>kernel/syscall.c\<close>) and the process system calls
  (\<^verbatim>\<open>kernel/sysproc.c\<close>).  Arguments are in the trap frame of the calling process.
  \<^verbatim>\<open>argint()\<close> and \<^verbatim>\<open>argaddr()\<close> always return 0: their model is the value they store.
  An \<^verbatim>\<open>int\<close> result is extended to the 64-bit result of the system call.
\<close>

section \<open>Arguments\<close>

definition fetchaddr :: "u64 \<Rightarrow> ('z pst_scheme, u64 option) kop" where
  "fetchaddr addr =
     bnd curp (\<lambda>p.
     bnd (get_proc p id) (\<lambda>x.
     if addr \<ge> p_sz x \<or> addr + 8 > p_sz x then ret None
     else
     bnd (copyin (p_pagetable x) addr 8) (\<lambda>(e, bs).
     ret (if e \<noteq> 0 then None else Some (field64 bs 0)))))"

text \<open>The result and the bytes that were stored into the buffer, the terminating zero included.\<close>

definition fetchstr :: "u64 \<Rightarrow> nat \<Rightarrow> ('z pst_scheme, int \<times> u8 list) kop" where
  "fetchstr addr mx =
     bnd curp (\<lambda>p.
     bnd (get_proc p p_pagetable) (\<lambda>pt.
     bnd (copyinstr pt addr mx) (\<lambda>(err, bs).
     ret (if err < 0 then err else int (length (takeWhile (\<lambda>b. b \<noteq> 0) bs)), bs))))"

definition argraw :: "nat \<Rightarrow> ('z pst_scheme, u64) kop" where
  "argraw n =
     bnd curp (\<lambda>p.
     if n \<le> 5 then r_tf p (TF_A n) else panic ''argraw'')"

definition argint :: "nat \<Rightarrow> ('z pst_scheme, int) kop" where
  "argint n = bnd (argraw n) (\<lambda>w. ret (sint (ucast w :: u32)))"

definition argaddr :: "nat \<Rightarrow> ('z pst_scheme, u64) kop" where
  "argaddr n = argraw n"

text \<open>A string argument, or \<open>None\<close> when \<^verbatim>\<open>argstr()\<close> is negative.\<close>

definition argstr :: "nat \<Rightarrow> nat \<Rightarrow> ('z pst_scheme, u8 list option) kop" where
  "argstr n mx =
     bnd (argaddr n) (\<lambda>addr.
     bnd (fetchstr addr mx) (\<lambda>(r, bs).
     ret (if r < 0 then None else Some (takeWhile (\<lambda>b. b \<noteq> 0) bs))))"

section \<open>Process calls\<close>

definition int_result :: "int \<Rightarrow> u64" where
  "int_result r = word_of_int r"

text \<open>\<^verbatim>\<open>exit()\<close> does not return.\<close>

definition sys_exit :: "('z flst_scheme, u64) kop" where
  "sys_exit = kexit"

definition sys_getpid :: "('z pst_scheme, u64) kop" where
  "sys_getpid = bnd curp (\<lambda>p. bnd (get_proc p p_pid) (\<lambda>pid. ret (int_result pid)))"

definition sys_fork :: "('z krst_scheme, u64) kop" where
  "sys_fork = bnd fork (\<lambda>r. ret (int_result r))"

definition sys_wait :: "('z pst_scheme, u64) kop" where
  "sys_wait = bnd kwait (\<lambda>r. ret (int_result r))"

definition sys_sbrk :: "('z pst_scheme, u64) kop" where
  "sys_sbrk =
     bnd (argint 0) (\<lambda>n.
     bnd curp (\<lambda>p.
     bnd (get_proc p p_sz) (\<lambda>sz.
     let addr = sint (ucast sz :: u32) in
     bnd (growproc n) (\<lambda>e.
     ret (int_result (if e < 0 then -1 else addr))))))"

text \<open>
  \<^verbatim>\<open>sys_sleep()\<close>: the loop, entered with \<^verbatim>\<open>tickslock\<close> held.  The comparison is
  between unsigned integers.
\<close>

definition sleep_loop :: "u32 \<Rightarrow> int \<Rightarrow> ('z pst_scheme, u64) kop" where
  "sleep_loop ticks0 n =
     bnd (gets ticks) (\<lambda>t.
     if t - ticks0 < word_of_int n then
       bnd curp (\<lambda>p.
       bnd (get_proc p p_killed) (\<lambda>killed.
       if killed then
         thn (release TicksLock) (
         ret (int_result (-1)))
       else sleep TicksChan TicksLock))
     else
       thn (release TicksLock) (
       ret 0))"

definition sys_sleep :: "('z pst_scheme, u64) kop" where
  "sys_sleep =
     bnd (argint 0) (\<lambda>n.
     thn (acquire TicksLock) (
     bnd (gets ticks) (\<lambda>ticks0.
     sleep_loop ticks0 n)))"

definition sys_sleep_resume :: "bool \<Rightarrow> nat \<Rightarrow> u32 \<Rightarrow> int \<Rightarrow> ('z pst_scheme, u64) kop" where
  "sys_sleep_resume intena p ticks0 n =
     thn (sleep_resume intena p TicksLock) (
     sleep_loop ticks0 n)"

definition sys_kill :: "('z pst_scheme, u64) kop" where
  "sys_kill = bnd (argint 0) (\<lambda>pid. bnd (kill pid) (\<lambda>r. ret (int_result r)))"

definition sys_uptime :: "('z pst_scheme, u64) kop" where
  "sys_uptime =
     thn (acquire TicksLock) (
     bnd (gets ticks) (\<lambda>xticks.
     thn (release TicksLock) (
     ret (ucast xticks))))"

end
