(* ===== verification/SysFile.thy ===== *)
theory SysFile
  imports Syscall
begin

text \<open>
  The file system calls (\<^verbatim>\<open>kernel/sysfile.c\<close>) and the dispatch of system calls
  (\<^verbatim>\<open>syscall()\<close> of \<^verbatim>\<open>kernel/syscall.c\<close>).  A local array whose contents are not
  set yet is all zeros here.
\<close>

section \<open>Descriptors\<close>

definition argfd :: "nat \<Rightarrow> ('z pst_scheme, (nat \<times> nat) option) kop" where
  "argfd n =
     bnd (argint n) (\<lambda>fd.
     if fd < 0 \<or> fd \<ge> int NOFILE then ret None
     else
     bnd curp (\<lambda>p.
     bnd (get_proc p (\<lambda>x. p_ofile x (nat fd))) (\<lambda>f.
     ret (case f of None \<Rightarrow> None | Some f \<Rightarrow> Some (nat fd, f)))))"

definition set_ofile :: "nat \<Rightarrow> nat \<Rightarrow> nat option \<Rightarrow> ('z pst_scheme, unit) kop" where
  "set_ofile p fd f = upd_proc p (\<lambda>x. x\<lparr>p_ofile := (p_ofile x)(fd := f)\<rparr>)"

definition fdalloc :: "nat \<Rightarrow> ('z pst_scheme, nat option) kop" where
  "fdalloc f =
     bnd curp (\<lambda>p.
     for_ret [0..<NOFILE] (\<lambda>fd.
       bnd (get_proc p (\<lambda>x. p_ofile x fd)) (\<lambda>g.
       if g = None then thn (set_ofile p fd (Some f)) (ret (Some fd))
       else ret None)))"

definition sys_dup :: "('z flst_scheme, u64) kop" where
  "sys_dup =
     bnd (argfd 0) (\<lambda>a.
     case a of
       None \<Rightarrow> ret (int_result (-1))
     | Some (_, f) \<Rightarrow>
     bnd (fdalloc f) (\<lambda>fd.
     case fd of
       None \<Rightarrow> ret (int_result (-1))
     | Some fd \<Rightarrow> bnd (filedup f) (\<lambda>_. ret (int_result (int fd)))))"

definition sys_read :: "('z flst_scheme, u64) kop" where
  "sys_read =
     bnd (argfd 0) (\<lambda>a.
     case a of
       None \<Rightarrow> ret (int_result (-1))
     | Some (_, f) \<Rightarrow>
     bnd (argint 2) (\<lambda>n.
     bnd (argaddr 1) (\<lambda>p.
     bnd (fileread f p n) (\<lambda>r. ret (int_result r)))))"

definition sys_write :: "('z flst_scheme, u64) kop" where
  "sys_write =
     bnd (argfd 0) (\<lambda>a.
     case a of
       None \<Rightarrow> ret (int_result (-1))
     | Some (_, f) \<Rightarrow>
     bnd (argint 2) (\<lambda>n.
     bnd (argaddr 1) (\<lambda>p.
     bnd (filewrite f p n) (\<lambda>r. ret (int_result r)))))"

definition sys_close :: "('z flst_scheme, u64) kop" where
  "sys_close =
     bnd (argfd 0) (\<lambda>a.
     case a of
       None \<Rightarrow> ret (int_result (-1))
     | Some (fd, f) \<Rightarrow>
     bnd curp (\<lambda>p.
     thn (set_ofile p fd None) (
     thn (fileclose f) (
     ret 0))))"

definition sys_fstat :: "('z flst_scheme, u64) kop" where
  "sys_fstat =
     bnd (argfd 0) (\<lambda>a.
     case a of
       None \<Rightarrow> ret (int_result (-1))
     | Some (_, f) \<Rightarrow>
     bnd (argaddr 1) (\<lambda>st.
     bnd (filestat f st) (\<lambda>r. ret (int_result r))))"

section \<open>Links\<close>

text \<open>The code at \<^verbatim>\<open>bad\<close> of \<^verbatim>\<open>sys_link()\<close>.\<close>

definition link_bad :: "nat \<Rightarrow> ('z fsst_scheme, u64) kop" where
  "link_bad ip =
     thn (ilock (Some ip)) (
     thn (upd_inode ip (\<lambda>x. x\<lparr>d_nlink := d_nlink x - 1\<rparr>)) (
     thn (iupdate ip) (
     thn (iunlockput ip) (
     thn (end_op ROOTDEV) (
     ret (int_result (-1)))))))"

definition sys_link :: "('z fsst_scheme, u64) kop" where
  "sys_link =
     bnd (argstr 0 MAXPATH) (\<lambda>a.
     case a of None \<Rightarrow> ret (int_result (-1)) | Some oldp \<Rightarrow>
     bnd (argstr 1 MAXPATH) (\<lambda>a.
     case a of None \<Rightarrow> ret (int_result (-1)) | Some newp \<Rightarrow>
     thn (begin_op ROOTDEV) (
     bnd (namei oldp) (\<lambda>r.
     case r of
       None \<Rightarrow> thn (end_op ROOTDEV) (ret (int_result (-1)))
     | Some ip \<Rightarrow>
     thn (ilock (Some ip)) (
     bnd (get_inode ip d_type) (\<lambda>t.
     if t = T_DIR then
       thn (iunlockput ip) (
       thn (end_op ROOTDEV) (
       ret (int_result (-1))))
     else
     thn (upd_inode ip (\<lambda>x. x\<lparr>d_nlink := d_nlink x + 1\<rparr>)) (
     thn (iupdate ip) (
     thn (iunlock (Some ip)) (
     bnd (nameiparent newp (\<lambda>_. 0)) (\<lambda>(r, name).
     case r of
       None \<Rightarrow> link_bad ip
     | Some dp \<Rightarrow>
     thn (ilock (Some dp)) (
     bnd (get_inode dp i_dev) (\<lambda>ddev.
     bnd (get_inode ip id) (\<lambda>x.
     bnd (if ddev \<noteq> i_dev x then ret True
          else bnd (dirlink dp name (i_inum x)) (\<lambda>e. ret (e < 0))) (\<lambda>failed.
     if failed then
       thn (iunlockput dp) (
       link_bad ip)
     else
     thn (iunlockput dp) (
     thn (iput ip) (
     thn (end_op ROOTDEV) (
     ret 0)))))))))))))))))"

text \<open>
  \<^verbatim>\<open>isdirempty()\<close>: an offset past the file makes \<^verbatim>\<open>readi()\<close> fail, so the size bounds
  the loop.
\<close>

definition isdirempty :: "nat \<Rightarrow> ('z fsst_scheme, bool) kop" where
  "isdirempty dp =
     bnd (get_inode dp d_size) (\<lambda>size.
     loopM (Suc (unat size)) (\<lambda>off.
       if \<not> off < size then ret (Inr True)
       else
       bnd (readi dp KernelObj off 16) (\<lambda>(r, bs).
       thn (panic_if (r \<noteq> 16) ''isdirempty: readi'') (
       if dirent_inum bs \<noteq> 0 then ret (Inr False)
       else ret (Inl (off + 16))))) 32)"

definition unlink_bad :: "nat \<Rightarrow> ('z fsst_scheme, u64) kop" where
  "unlink_bad dp =
     thn (iunlockput dp) (
     thn (end_op ROOTDEV) (
     ret (int_result (-1))))"

definition sys_unlink :: "('z fsst_scheme, u64) kop" where
  "sys_unlink =
     bnd (argstr 0 MAXPATH) (\<lambda>a.
     case a of None \<Rightarrow> ret (int_result (-1)) | Some path \<Rightarrow>
     thn (begin_op ROOTDEV) (
     bnd (nameiparent path (\<lambda>_. 0)) (\<lambda>(r, name).
     case r of
       None \<Rightarrow> thn (end_op ROOTDEV) (ret (int_result (-1)))
     | Some dp \<Rightarrow>
     thn (ilock (Some dp)) (
     if namecmp name (at_list (bytes_of ''.'')) = 0 \<or> namecmp name (at_list (bytes_of ''..'')) = 0
     then unlink_bad dp
     else
     bnd (dirlookup dp name) (\<lambda>r.
     case r of
       None \<Rightarrow> unlink_bad dp
     | Some (ip, off) \<Rightarrow>
     thn (ilock (Some ip)) (
     bnd (get_inode ip id) (\<lambda>x.
     thn (panic_if (sint (d_nlink x) < 1) ''unlink: nlink < 1'') (
     bnd (if d_type x = T_DIR then isdirempty ip else ret True) (\<lambda>e.
     if \<not> e then
       thn (iunlockput ip) (
       unlink_bad dp)
     else
     bnd (writei dp (KernelBytes (replicate 16 0)) off 16) (\<lambda>r.
     thn (panic_if (r \<noteq> 16) ''unlink: writei'') (
     thn (whenM (d_type x = T_DIR) (
       thn (upd_inode dp (\<lambda>y. y\<lparr>d_nlink := d_nlink y - 1\<rparr>)) (
       iupdate dp))) (
     thn (iunlockput dp) (
     thn (upd_inode ip (\<lambda>y. y\<lparr>d_nlink := d_nlink y - 1\<rparr>)) (
     thn (iupdate ip) (
     thn (iunlockput ip) (
     thn (end_op ROOTDEV) (
     ret 0)))))))))))))))))"

section \<open>Creating files\<close>

text \<open>\<^verbatim>\<open>create()\<close> returns its inode locked.\<close>

definition create :: "u8 list \<Rightarrow> u16 \<Rightarrow> u16 \<Rightarrow> u16 \<Rightarrow> ('z fsst_scheme, nat option) kop" where
  "create path type major minor =
     bnd (nameiparent path (\<lambda>_. 0)) (\<lambda>(r, name).
     case r of
       None \<Rightarrow> ret None
     | Some dp \<Rightarrow>
     thn (ilock (Some dp)) (
     bnd (dirlookup dp name) (\<lambda>r.
     case r of
       Some (ip, _) \<Rightarrow>
         thn (iunlockput dp) (
         thn (ilock (Some ip)) (
         bnd (get_inode ip d_type) (\<lambda>t.
         if type = T_FILE \<and> (t = T_FILE \<or> t = T_DEVICE) then ret (Some ip)
         else thn (iunlockput ip) (ret None))))
     | None \<Rightarrow>
     bnd (get_inode dp i_dev) (\<lambda>dev.
     bnd (ialloc dev type) (\<lambda>ip.
     thn (ilock (Some ip)) (
     thn (upd_inode ip (\<lambda>x. x\<lparr>d_major := major, d_minor := minor, d_nlink := 1\<rparr>)) (
     thn (iupdate ip) (
     bnd (get_inode ip i_inum) (\<lambda>inum.
     thn (whenM (type = T_DIR) (
       thn (upd_inode dp (\<lambda>x. x\<lparr>d_nlink := d_nlink x + 1\<rparr>)) (
       thn (iupdate dp) (
       bnd (dirlink ip (at_list (bytes_of ''.'')) inum) (\<lambda>e.
       thn (panic_if (e < 0) ''create dots'') (
       bnd (get_inode dp i_inum) (\<lambda>pinum.
       bnd (dirlink ip (at_list (bytes_of ''..'')) pinum) (\<lambda>e.
       panic_if (e < 0) ''create dots''))))))) ) (
     bnd (dirlink dp name inum) (\<lambda>e.
     thn (panic_if (e < 0) ''create: dirlink'') (
     thn (iunlockput dp) (
     ret (Some ip))))))))))))))"

definition O_RDONLY :: u32 where "O_RDONLY = 0"
definition O_WRONLY :: u32 where "O_WRONLY = 1"
definition O_RDWR :: u32 where "O_RDWR = 2"
definition O_CREATE :: u32 where "O_CREATE = 0x200"

text \<open>The ways out of \<^verbatim>\<open>sys_open()\<close> that have a locked inode.\<close>

definition open_fail :: "nat \<Rightarrow> ('z fsst_scheme, u64) kop" where
  "open_fail ip =
     thn (iunlockput ip) (
     thn (end_op ROOTDEV) (
     ret (int_result (-1))))"

text \<open>The inode that is to be opened, locked; \<open>None\<close> after an early return.\<close>

definition open_inode :: "u8 list \<Rightarrow> u32 \<Rightarrow> ('z fsst_scheme, nat option) kop" where
  "open_inode path omode =
     (if omode AND O_CREATE \<noteq> 0 then
        bnd (create path T_FILE 0 0) (\<lambda>r.
        case r of
          None \<Rightarrow> thn (end_op ROOTDEV) (ret None)
        | Some ip \<Rightarrow> ret (Some ip))
      else
        bnd (namei path) (\<lambda>r.
        case r of
          None \<Rightarrow> thn (end_op ROOTDEV) (ret None)
        | Some ip \<Rightarrow>
            thn (ilock (Some ip)) (
            bnd (get_inode ip d_type) (\<lambda>t.
            if t = T_DIR \<and> omode \<noteq> O_RDONLY then thn (open_fail ip) (ret None)
            else ret (Some ip)))))"

definition open_file :: "nat \<Rightarrow> u32 \<Rightarrow> inode \<Rightarrow> file_t \<Rightarrow> file_t" where
  "open_file ip omode x f =
     (if d_type x = T_DEVICE then f\<lparr>f_type := FD_DEVICE, f_major := d_major x\<rparr>
      else f\<lparr>f_type := FD_INODE, f_off := 0\<rparr>)
     \<lparr>f_ip := Some ip, f_readable := (omode AND O_WRONLY = 0),
      f_writable := (omode AND O_WRONLY \<noteq> 0 \<or> omode AND O_RDWR \<noteq> 0)\<rparr>"

definition sys_open :: "('z flst_scheme, u64) kop" where
  "sys_open =
     bnd (argstr 0 MAXPATH) (\<lambda>a.
     case a of None \<Rightarrow> ret (int_result (-1)) | Some path \<Rightarrow>
     bnd (argint 1) (\<lambda>mode.
     let omode = word_of_int mode in
     thn (begin_op ROOTDEV) (
     bnd (open_inode path omode) (\<lambda>r.
     case r of
       None \<Rightarrow> ret (int_result (-1))
     | Some ip \<Rightarrow>
     bnd (get_inode ip id) (\<lambda>x.
     if d_type x = T_DEVICE \<and> (sint (d_major x) < 0 \<or> sint (d_major x) \<ge> int NDEV) then open_fail ip
     else
     bnd filealloc (\<lambda>r.
     case r of
       None \<Rightarrow> open_fail ip
     | Some f \<Rightarrow>
     bnd (fdalloc f) (\<lambda>r.
     case r of
       None \<Rightarrow> thn (fileclose f) (open_fail ip)
     | Some fd \<Rightarrow>
     thn (upd_file f (open_file ip omode x)) (
     thn (iunlock (Some ip)) (
     thn (end_op ROOTDEV) (
     ret (int_result (int fd))))))))))))"

text \<open>What \<^verbatim>\<open>sys_mkdir()\<close> and \<^verbatim>\<open>sys_mknod()\<close> do after \<^verbatim>\<open>create()\<close>.\<close>

definition finish_create :: "nat option \<Rightarrow> ('z fsst_scheme, u64) kop" where
  "finish_create r =
     (case r of
        None \<Rightarrow> thn (end_op ROOTDEV) (ret (int_result (-1)))
      | Some ip \<Rightarrow>
          thn (iunlockput ip) (
          thn (end_op ROOTDEV) (
          ret 0)))"

definition sys_mkdir :: "('z fsst_scheme, u64) kop" where
  "sys_mkdir =
     thn (begin_op ROOTDEV) (
     bnd (argstr 0 MAXPATH) (\<lambda>a.
     case a of
       None \<Rightarrow> finish_create None
     | Some path \<Rightarrow> bnd (create path T_DIR 0 0) finish_create))"

definition sys_mknod :: "('z fsst_scheme, u64) kop" where
  "sys_mknod =
     thn (begin_op ROOTDEV) (
     bnd (argstr 0 MAXPATH) (\<lambda>a.
     case a of
       None \<Rightarrow> finish_create None
     | Some path \<Rightarrow>
         bnd (argint 1) (\<lambda>major.
         bnd (argint 2) (\<lambda>minor.
         bnd (create path T_DEVICE (word_of_int major) (word_of_int minor)) finish_create))))"

definition sys_chdir :: "('z fsst_scheme, u64) kop" where
  "sys_chdir =
     bnd curp (\<lambda>p.
     thn (begin_op ROOTDEV) (
     bnd (argstr 0 MAXPATH) (\<lambda>a.
     bnd (case a of None \<Rightarrow> ret None | Some path \<Rightarrow> namei path) (\<lambda>r.
     case r of
       None \<Rightarrow> thn (end_op ROOTDEV) (ret (int_result (-1)))
     | Some ip \<Rightarrow>
     thn (ilock (Some ip)) (
     bnd (get_inode ip d_type) (\<lambda>t.
     if t \<noteq> T_DIR then open_fail ip
     else
     thn (iunlock (Some ip)) (
     bnd (get_proc p p_cwd) (\<lambda>cwd.
     bnd (deref cwd) (\<lambda>old.
     thn (iput old) (
     thn (end_op ROOTDEV) (
     thn (upd_proc p (\<lambda>x. x\<lparr>p_cwd := Some ip\<rparr>)) (
     ret 0))))))))))))"

section \<open>Exec, pipe, crash\<close>

text \<open>
  The loop of \<^verbatim>\<open>sys_exec()\<close> that fetches the arguments into pages of their own, with \<open>k\<close>
  entries of \<^verbatim>\<open>argv\<close> left; \<open>None\<close> where the call returns -1.
\<close>

primrec fetch_argv :: "nat \<Rightarrow> u64 \<Rightarrow> u64 list \<Rightarrow> ('z pst_scheme, u64 list option) kop" where
  "fetch_argv 0 uargv argv = ret None"
| "fetch_argv (Suc k) uargv argv =
     bnd (fetchaddr (uargv + of_nat (8 * length argv))) (\<lambda>r.
     case r of
       None \<Rightarrow> ret None
     | Some uarg \<Rightarrow>
     if uarg = 0 then ret (Some argv)
     else
     bnd kalloc (\<lambda>pa.
     thn (panic_if (pa = 0) ''sys_exec kalloc'') (
     bnd (fetchstr uarg (unat PGSIZE)) (\<lambda>(r, bs).
     thn (upd_mem (put_bytes pa bs)) (
     if r < 0 then ret None
     else fetch_argv k uargv (argv @ [pa]))))))"

definition sys_exec :: "('z fsst_scheme, u64) kop" where
  "sys_exec =
     bnd (argstr 0 MAXPATH) (\<lambda>a.
     case a of None \<Rightarrow> ret (int_result (-1)) | Some path \<Rightarrow>
     bnd (argaddr 1) (\<lambda>uargv.
     bnd (fetch_argv MAXARG uargv []) (\<lambda>r.
     case r of
       None \<Rightarrow> ret (int_result (-1))
     | Some argv \<Rightarrow>
     bnd (kexec path argv) (\<lambda>r.
     thn (for_all argv kfree) (
     ret (int_result r))))))"

definition bytes32 :: "u32 \<Rightarrow> u8 list" where
  "bytes32 w = map (\<lambda>i. ucast (drop_bit (8 * i) w)) [0..<4]"

definition sys_pipe :: "('z flst_scheme, u64) kop" where
  "sys_pipe =
     bnd curp (\<lambda>p.
     bnd (argaddr 0) (\<lambda>fdarray.
     bnd pipealloc (\<lambda>(e, r, w).
     if e < 0 then ret (int_result (-1))
     else
     bnd (deref r) (\<lambda>rf.
     bnd (deref w) (\<lambda>wf.
     bnd (fdalloc rf) (\<lambda>a.
     case a of
       None \<Rightarrow>
         thn (fileclose rf) (
         thn (fileclose wf) (
         ret (int_result (-1))))
     | Some fd0 \<Rightarrow>
     bnd (fdalloc wf) (\<lambda>b.
     case b of
       None \<Rightarrow>
         thn (set_ofile p fd0 None) (
         thn (fileclose rf) (
         thn (fileclose wf) (
         ret (int_result (-1)))))
     | Some fd1 \<Rightarrow>
     bnd (get_proc p p_pagetable) (\<lambda>pt.
     bnd (bnd (copyout pt fdarray (bytes32 (of_nat fd0))) (\<lambda>e0.
          if e0 < 0 then ret e0 else copyout pt (fdarray + 4) (bytes32 (of_nat fd1)))) (\<lambda>e.
     if e < 0 then
       thn (set_ofile p fd0 None) (
       thn (set_ofile p fd1 None) (
       thn (fileclose rf) (
       thn (fileclose wf) (
       ret (int_result (-1))))))
     else ret 0)))))))))"

definition sys_crash :: "('z fsst_scheme, u64) kop" where
  "sys_crash =
     bnd (argstr 0 MAXPATH) (\<lambda>a.
     case a of None \<Rightarrow> ret (int_result (-1)) | Some path \<Rightarrow>
     bnd (argint 1) (\<lambda>crash.
     bnd (create path T_FILE 0 0) (\<lambda>r.
     case r of
       None \<Rightarrow> ret (int_result (-1))
     | Some ip \<Rightarrow>
     thn (iunlockput ip) (
     bnd (get_inode ip i_dev) (\<lambda>dev.
     thn (crash_op dev (word_of_int crash)) (
     ret 0))))))"

section \<open>Dispatch\<close>

definition SYS_fork :: nat where "SYS_fork = 1"
definition SYS_exit :: nat where "SYS_exit = 2"
definition SYS_wait :: nat where "SYS_wait = 3"
definition SYS_pipe :: nat where "SYS_pipe = 4"
definition SYS_read :: nat where "SYS_read = 5"
definition SYS_kill :: nat where "SYS_kill = 6"
definition SYS_exec :: nat where "SYS_exec = 7"
definition SYS_fstat :: nat where "SYS_fstat = 8"
definition SYS_chdir :: nat where "SYS_chdir = 9"
definition SYS_dup :: nat where "SYS_dup = 10"
definition SYS_getpid :: nat where "SYS_getpid = 11"
definition SYS_sbrk :: nat where "SYS_sbrk = 12"
definition SYS_sleep :: nat where "SYS_sleep = 13"
definition SYS_uptime :: nat where "SYS_uptime = 14"
definition SYS_open :: nat where "SYS_open = 15"
definition SYS_write :: nat where "SYS_write = 16"
definition SYS_mknod :: nat where "SYS_mknod = 17"
definition SYS_unlink :: nat where "SYS_unlink = 18"
definition SYS_link :: nat where "SYS_link = 19"
definition SYS_mkdir :: nat where "SYS_mkdir = 20"
definition SYS_close :: nat where "SYS_close = 21"
definition SYS_ntas :: nat where "SYS_ntas = 22"
definition SYS_crash :: nat where "SYS_crash = 23"

definition syscalls :: "(nat \<times> ('z krst_scheme, u64) kop) list" where
  "syscalls =
     [(SYS_fork, sys_fork), (SYS_exit, sys_exit), (SYS_wait, sys_wait), (SYS_pipe, sys_pipe),
      (SYS_read, sys_read), (SYS_kill, sys_kill), (SYS_exec, sys_exec), (SYS_fstat, sys_fstat),
      (SYS_chdir, sys_chdir), (SYS_dup, sys_dup), (SYS_getpid, sys_getpid), (SYS_sbrk, sys_sbrk),
      (SYS_sleep, sys_sleep), (SYS_uptime, sys_uptime), (SYS_open, sys_open), (SYS_write, sys_write),
      (SYS_mknod, sys_mknod), (SYS_unlink, sys_unlink), (SYS_link, sys_link), (SYS_mkdir, sys_mkdir),
      (SYS_close, sys_close), (SYS_ntas, sys_ntas), (SYS_crash, sys_crash)]"

text \<open>\<^verbatim>\<open>syscall()\<close>: \<^verbatim>\<open>num\<close> is the low half of register \<^verbatim>\<open>a7\<close> as a signed number.\<close>

definition syscall :: "('z krst_scheme, unit) kop" where
  "syscall =
     bnd curp (\<lambda>p.
     bnd (r_tf p (TF_A 7)) (\<lambda>a7.
     let num = sint (ucast a7 :: u32) in
     case (if num > 0 then map_of syscalls (nat num) else None) of
       Some f \<Rightarrow>
         bnd f (\<lambda>r.
         w_tf p (TF_A 0) r)
     | None \<Rightarrow>
         bnd (get_proc p id) (\<lambda>x.
         thn (kprintf (Some (bytes_of ''%d %s: unknown sys call %d\<newline>''))
           [VInt (word_of_int (p_pid x)), VStr (Some (name_string (p_name x))), VInt (word_of_int num)]) (
         w_tf p (TF_A 0) (int_result (-1))))))"

end
