(* ===== verification/Virtio.thy ===== *)
theory Virtio
  imports SysFile
begin

text \<open>
  The driver of the virtio disk (\<^verbatim>\<open>kernel/virtio_disk.c\<close>, \<^verbatim>\<open>kernel/virtio.h\<close>).  The
  device is outside the kernel: what its registers hold is a function of the state, the register writes
  are recorded in order, and the used ring is memory the device writes.  Addresses of kernel variables in
  descriptors are symbolic.
\<close>

section \<open>Registers and rings\<close>

definition VIRTIO_MMIO_MAGIC_VALUE :: u32 where "VIRTIO_MMIO_MAGIC_VALUE = 0x000"
definition VIRTIO_MMIO_VERSION :: u32 where "VIRTIO_MMIO_VERSION = 0x004"
definition VIRTIO_MMIO_DEVICE_ID :: u32 where "VIRTIO_MMIO_DEVICE_ID = 0x008"
definition VIRTIO_MMIO_VENDOR_ID :: u32 where "VIRTIO_MMIO_VENDOR_ID = 0x00c"
definition VIRTIO_MMIO_DEVICE_FEATURES :: u32 where "VIRTIO_MMIO_DEVICE_FEATURES = 0x010"
definition VIRTIO_MMIO_DRIVER_FEATURES :: u32 where "VIRTIO_MMIO_DRIVER_FEATURES = 0x020"
definition VIRTIO_MMIO_GUEST_PAGE_SIZE :: u32 where "VIRTIO_MMIO_GUEST_PAGE_SIZE = 0x028"
definition VIRTIO_MMIO_QUEUE_SEL :: u32 where "VIRTIO_MMIO_QUEUE_SEL = 0x030"
definition VIRTIO_MMIO_QUEUE_NUM_MAX :: u32 where "VIRTIO_MMIO_QUEUE_NUM_MAX = 0x034"
definition VIRTIO_MMIO_QUEUE_NUM :: u32 where "VIRTIO_MMIO_QUEUE_NUM = 0x038"
definition VIRTIO_MMIO_QUEUE_PFN :: u32 where "VIRTIO_MMIO_QUEUE_PFN = 0x040"
definition VIRTIO_MMIO_QUEUE_NOTIFY :: u32 where "VIRTIO_MMIO_QUEUE_NOTIFY = 0x050"
definition VIRTIO_MMIO_STATUS :: u32 where "VIRTIO_MMIO_STATUS = 0x070"

definition VIRTIO_CONFIG_S_ACKNOWLEDGE :: u32 where "VIRTIO_CONFIG_S_ACKNOWLEDGE = 1"
definition VIRTIO_CONFIG_S_DRIVER :: u32 where "VIRTIO_CONFIG_S_DRIVER = 2"
definition VIRTIO_CONFIG_S_DRIVER_OK :: u32 where "VIRTIO_CONFIG_S_DRIVER_OK = 4"
definition VIRTIO_CONFIG_S_FEATURES_OK :: u32 where "VIRTIO_CONFIG_S_FEATURES_OK = 8"

definition VIRTIO_BLK_F_RO :: nat where "VIRTIO_BLK_F_RO = 5"
definition VIRTIO_BLK_F_SCSI :: nat where "VIRTIO_BLK_F_SCSI = 7"
definition VIRTIO_BLK_F_CONFIG_WCE :: nat where "VIRTIO_BLK_F_CONFIG_WCE = 11"
definition VIRTIO_BLK_F_MQ :: nat where "VIRTIO_BLK_F_MQ = 12"
definition VIRTIO_F_ANY_LAYOUT :: nat where "VIRTIO_F_ANY_LAYOUT = 27"
definition VIRTIO_RING_F_INDIRECT_DESC :: nat where "VIRTIO_RING_F_INDIRECT_DESC = 28"
definition VIRTIO_RING_F_EVENT_IDX :: nat where "VIRTIO_RING_F_EVENT_IDX = 29"

definition VNUM :: nat where "VNUM = 8"
definition VRING_DESC_F_NEXT :: u16 where "VRING_DESC_F_NEXT = 1"
definition VRING_DESC_F_WRITE :: u16 where "VRING_DESC_F_WRITE = 2"
definition VIRTIO_BLK_T_IN :: u32 where "VIRTIO_BLK_T_IN = 0"
definition VIRTIO_BLK_T_OUT :: u32 where "VIRTIO_BLK_T_OUT = 1"

datatype daddr = PhysAddr u64 | BufData nat | InfoStatus nat

record vring_desc =
  vd_addr :: daddr
  vd_len :: u32
  vd_flags :: u16
  vd_next :: u16

record vdisk =
  dk_desc :: "nat \<Rightarrow> vring_desc"
  dk_avail :: "nat \<Rightarrow> u16"
  dk_used_id :: u16
  dk_used_elems :: "nat \<Rightarrow> u32" \<comment> \<open>the \<^verbatim>\<open>id\<close> fields\<close>
  dk_free :: "nat \<Rightarrow> bool"
  dk_used_idx :: u16
  dk_info_b :: "nat \<Rightarrow> nat option"
  dk_info_status :: "nat \<Rightarrow> u8"
  dk_init :: bool
  dk_pages :: u64 \<comment> \<open>address of \<^verbatim>\<open>disk[n].pages\<close>\<close>
  dk_reg :: "u32 \<Rightarrow> u32" \<comment> \<open>what reading a register yields\<close>
  dk_regs_written :: "(u32 \<times> u32) list"

record vdst = krst +
  vdisks :: "nat \<Rightarrow> vdisk"

definition get_disk :: "nat \<Rightarrow> (vdisk \<Rightarrow> 'a) \<Rightarrow> ('z vdst_scheme, 'a) kop" where
  "get_disk n f = gets (\<lambda>s. f (vdisks s n))"

definition upd_disk :: "nat \<Rightarrow> (vdisk \<Rightarrow> vdisk) \<Rightarrow> ('z vdst_scheme, unit) kop" where
  "upd_disk n f = modify (\<lambda>s. s\<lparr>vdisks := upd (vdisks s) n f\<rparr>)"

definition read_R :: "nat \<Rightarrow> u32 \<Rightarrow> ('z vdst_scheme, u32) kop" where
  "read_R n r = get_disk n (\<lambda>d. dk_reg d r)"

definition write_R :: "nat \<Rightarrow> u32 \<Rightarrow> u32 \<Rightarrow> ('z vdst_scheme, unit) kop" where
  "write_R n r v = upd_disk n (\<lambda>d. d\<lparr>dk_regs_written := dk_regs_written d @ [(r, v)]\<rparr>)"

section \<open>Initialisation\<close>

definition driver_features :: "u64 \<Rightarrow> u64" where
  "driver_features f =
     f AND NOT (push_bit VIRTIO_BLK_F_RO 1) AND NOT (push_bit VIRTIO_BLK_F_SCSI 1)
       AND NOT (push_bit VIRTIO_BLK_F_CONFIG_WCE 1) AND NOT (push_bit VIRTIO_BLK_F_MQ 1)
       AND NOT (push_bit VIRTIO_F_ANY_LAYOUT 1) AND NOT (push_bit VIRTIO_RING_F_EVENT_IDX 1)
       AND NOT (push_bit VIRTIO_RING_F_INDIRECT_DESC 1)"

definition zero_desc :: vring_desc where
  "zero_desc = \<lparr>vd_addr = PhysAddr 0, vd_len = 0, vd_flags = 0, vd_next = 0\<rparr>"

definition virtio_disk_init :: "nat \<Rightarrow> ('z vdst_scheme, unit) kop" where
  "virtio_disk_init n =
     bnd (get_disk n dk_init) (\<lambda>init.
     whenM (\<not> init) (
     thn (kprintf (Some (bytes_of ''virtio disk init %d\<newline>'')) [VInt (of_nat n)]) (
     thn (initlock (VdiskLock n) ''virtio_disk'') (
     bnd (read_R n VIRTIO_MMIO_MAGIC_VALUE) (\<lambda>magic.
     bnd (read_R n VIRTIO_MMIO_VERSION) (\<lambda>version.
     bnd (read_R n VIRTIO_MMIO_DEVICE_ID) (\<lambda>device.
     bnd (read_R n VIRTIO_MMIO_VENDOR_ID) (\<lambda>vendor.
     thn (panic_if (magic \<noteq> 0x74726976 \<or> version \<noteq> 1 \<or> device \<noteq> 2 \<or> vendor \<noteq> 0x554d4551)
       ''could not find virtio disk'') (
     let status = VIRTIO_CONFIG_S_ACKNOWLEDGE in
     thn (write_R n VIRTIO_MMIO_STATUS status) (
     let status = status OR VIRTIO_CONFIG_S_DRIVER in
     thn (write_R n VIRTIO_MMIO_STATUS status) (
     bnd (read_R n VIRTIO_MMIO_DEVICE_FEATURES) (\<lambda>features.
     thn (write_R n VIRTIO_MMIO_DRIVER_FEATURES (ucast (driver_features (ucast features)))) (
     let status = status OR VIRTIO_CONFIG_S_FEATURES_OK in
     thn (write_R n VIRTIO_MMIO_STATUS status) (
     let status = status OR VIRTIO_CONFIG_S_DRIVER_OK in
     thn (write_R n VIRTIO_MMIO_STATUS status) (
     thn (write_R n VIRTIO_MMIO_GUEST_PAGE_SIZE (ucast PGSIZE)) (
     thn (write_R n VIRTIO_MMIO_QUEUE_SEL 0) (
     bnd (read_R n VIRTIO_MMIO_QUEUE_NUM_MAX) (\<lambda>mx.
     thn (panic_if (mx = 0) ''virtio disk has no queue 0'') (
     thn (panic_if (mx < of_nat VNUM) ''virtio disk max queue too short'') (
     thn (write_R n VIRTIO_MMIO_QUEUE_NUM (of_nat VNUM)) (
     thn (upd_disk n (\<lambda>d. d\<lparr>dk_desc := \<lambda>_. zero_desc, dk_avail := \<lambda>_. 0, dk_used_id := 0, dk_used_elems := \<lambda>_. 0\<rparr>)) (
     bnd (get_disk n dk_pages) (\<lambda>pages.
     thn (write_R n VIRTIO_MMIO_QUEUE_PFN (ucast (drop_bit PGSHIFT pages))) (
     upd_disk n (\<lambda>d. d\<lparr>dk_free := (\<lambda>i. i < VNUM \<or> dk_free d i), dk_init := True\<rparr>)))))))))))))))))))))))))"

section \<open>Descriptors\<close>

definition alloc_desc :: "nat \<Rightarrow> ('z vdst_scheme, nat option) kop" where
  "alloc_desc n =
     for_ret [0..<VNUM] (\<lambda>i.
       bnd (get_disk n (\<lambda>d. dk_free d i)) (\<lambda>f.
       if f then thn (upd_disk n (\<lambda>d. d\<lparr>dk_free := (dk_free d)(i := False)\<rparr>)) (ret (Some i))
       else ret None))"

definition upd_desc :: "nat \<Rightarrow> nat \<Rightarrow> (vring_desc \<Rightarrow> vring_desc) \<Rightarrow> ('z vdst_scheme, unit) kop" where
  "upd_desc n i f = upd_disk n (\<lambda>d. d\<lparr>dk_desc := upd (dk_desc d) i f\<rparr>)"

definition free_desc :: "nat \<Rightarrow> nat \<Rightarrow> ('z vdst_scheme, unit) kop" where
  "free_desc n i =
     thn (panic_if (i \<ge> VNUM) ''virtio_disk_intr 1'') (
     bnd (get_disk n (\<lambda>d. dk_free d i)) (\<lambda>f.
     thn (panic_if f ''virtio_disk_intr 2'') (
     thn (upd_desc n i (\<lambda>x. x\<lparr>vd_addr := PhysAddr 0\<rparr>)) (
     thn (upd_disk n (\<lambda>d. d\<lparr>dk_free := (dk_free d)(i := True)\<rparr>)) (
     wakeup (DescChan n))))))"

text \<open>\<^verbatim>\<open>free_chain()\<close> meets a free descriptor, and panics, before it frees more than all.\<close>

definition free_chain :: "nat \<Rightarrow> nat \<Rightarrow> ('z vdst_scheme, unit) kop" where
  "free_chain n i =
     loopM (Suc VNUM) (\<lambda>i.
       thn (free_desc n i) (
       bnd (get_disk n (\<lambda>d. dk_desc d i)) (\<lambda>x.
       if vd_flags x AND VRING_DESC_F_NEXT \<noteq> 0 then ret (Inl (unat (vd_next x)))
       else ret (Inr ())))) i"

primrec alloc_descs :: "nat \<Rightarrow> nat \<Rightarrow> nat list \<Rightarrow> ('z vdst_scheme, nat list option) kop" where
  "alloc_descs n 0 idx = ret (Some idx)"
| "alloc_descs n (Suc k) idx =
     bnd (alloc_desc n) (\<lambda>r.
     case r of
       Some i \<Rightarrow> alloc_descs n k (idx @ [i])
     | None \<Rightarrow>
         thn (for_all idx (free_desc n)) (
         ret None))"

definition alloc3_desc :: "nat \<Rightarrow> ('z vdst_scheme, nat list option) kop" where
  "alloc3_desc n = alloc_descs n 3 []"

section \<open>Requests\<close>

text \<open>\<^verbatim>\<open>virtio_disk_rw()\<close> while it waits for the device, and after.\<close>

definition rw_wait :: "nat \<Rightarrow> nat \<Rightarrow> nat \<Rightarrow> ('z vdst_scheme, unit) kop" where
  "rw_wait n b i =
     bnd (get_buf b b_disk) (\<lambda>busy.
     if busy then sleep (BufChan b) (VdiskLock n)
     else
     thn (upd_disk n (\<lambda>d. d\<lparr>dk_info_b := (dk_info_b d)(i := None)\<rparr>)) (
     thn (free_chain n i) (
     release (VdiskLock n))))"

text \<open>
  The three descriptors of a request; \<open>buf0\<close> is the virtual address of the header on the kernel
  stack.
\<close>

definition rw_submit :: "nat \<Rightarrow> nat \<Rightarrow> bool \<Rightarrow> u64 \<Rightarrow> u64 \<Rightarrow> nat list \<Rightarrow> ('z vdst_scheme, unit) kop" where
  "rw_submit n b write sector buf0 idx =
     (let i0 = idx ! 0; i1 = idx ! 1; i2 = idx ! 2 in
     bnd (kvmpa buf0) (\<lambda>pa.
     thn (upd_mem (put_bytes pa (bytes32 (if write then VIRTIO_BLK_T_OUT else VIRTIO_BLK_T_IN) @ bytes32 0 @ bytes64 sector))) (
     thn (upd_desc n i0 (\<lambda>_. \<lparr>vd_addr = PhysAddr pa, vd_len = 16, vd_flags = VRING_DESC_F_NEXT, vd_next = of_nat i1\<rparr>)) (
     thn (upd_desc n i1 (\<lambda>_. \<lparr>vd_addr = BufData b, vd_len = of_nat BSIZE,
       vd_flags = (if write then 0 else VRING_DESC_F_WRITE) OR VRING_DESC_F_NEXT, vd_next = of_nat i2\<rparr>)) (
     thn (upd_disk n (\<lambda>d. d\<lparr>dk_info_status := (dk_info_status d)(i0 := 0)\<rparr>)) (
     thn (upd_desc n i2 (\<lambda>_. \<lparr>vd_addr = InfoStatus i0, vd_len = 1, vd_flags = VRING_DESC_F_WRITE, vd_next = 0\<rparr>)) (
     thn (upd_buf b (\<lambda>x. x\<lparr>b_disk := True\<rparr>)) (
     thn (upd_disk n (\<lambda>d. d\<lparr>dk_info_b := (dk_info_b d)(i0 := Some b)\<rparr>)) (
     thn (upd_disk n (\<lambda>d. d\<lparr>dk_avail := (dk_avail d)(2 + unat (dk_avail d 1) mod VNUM := of_nat i0)\<rparr>)) (
     thn (upd_disk n (\<lambda>d. d\<lparr>dk_avail := (dk_avail d)(1 := dk_avail d 1 + 1)\<rparr>)) (
     thn (write_R n VIRTIO_MMIO_QUEUE_NOTIFY 0) (
     rw_wait n b i0))))))))))))"

definition rw_alloc :: "nat \<Rightarrow> nat \<Rightarrow> bool \<Rightarrow> u64 \<Rightarrow> u64 \<Rightarrow> ('z vdst_scheme, unit) kop" where
  "rw_alloc n b write sector buf0 =
     bnd (alloc3_desc n) (\<lambda>r.
     case r of
       None \<Rightarrow> sleep (DescChan n) (VdiskLock n)
     | Some idx \<Rightarrow> rw_submit n b write sector buf0 idx)"

text \<open>The sector number is computed in 32 bits.\<close>

definition virtio_disk_rw :: "nat \<Rightarrow> nat \<Rightarrow> bool \<Rightarrow> u64 \<Rightarrow> ('z vdst_scheme, unit) kop" where
  "virtio_disk_rw n b write buf0 =
     bnd (get_buf b (\<lambda>x. ucast (b_blockno x * (of_nat BSIZE div 512)))) (\<lambda>sector.
     thn (acquire (VdiskLock n)) (
     rw_alloc n b write sector buf0))"

definition rw_alloc_resume :: "bool \<Rightarrow> nat \<Rightarrow> nat \<Rightarrow> nat \<Rightarrow> bool \<Rightarrow> u64 \<Rightarrow> u64 \<Rightarrow> ('z vdst_scheme, unit) kop" where
  "rw_alloc_resume intena p n b write sector buf0 =
     thn (sleep_resume intena p (VdiskLock n)) (
     rw_alloc n b write sector buf0)"

definition rw_wait_resume :: "bool \<Rightarrow> nat \<Rightarrow> nat \<Rightarrow> nat \<Rightarrow> nat \<Rightarrow> ('z vdst_scheme, unit) kop" where
  "rw_wait_resume intena p n b i =
     thn (sleep_resume intena p (VdiskLock n)) (
     rw_wait n b i)"

text \<open>\<^verbatim>\<open>virtio_disk_intr()\<close>: the index is taken modulo the ring's size at every turn.\<close>

definition virtio_disk_intr :: "nat \<Rightarrow> ('z vdst_scheme, unit) kop" where
  "virtio_disk_intr n =
     thn (acquire (VdiskLock n)) (
     thn (loopM (Suc VNUM) (\<lambda>_.
       bnd (get_disk n id) (\<lambda>d.
       if unat (dk_used_idx d) mod VNUM = unat (dk_used_id d) mod VNUM then ret (Inr ())
       else
       let i = unat (dk_used_elems d (unat (dk_used_idx d))) in
       thn (panic_if (dk_info_status d i \<noteq> 0) ''virtio_disk_intr status'') (
       bnd (deref (dk_info_b d i)) (\<lambda>b.
       thn (upd_buf b (\<lambda>x. x\<lparr>b_disk := False\<rparr>)) (
       thn (wakeup (BufChan b)) (
       thn (upd_disk n (\<lambda>d. d\<lparr>dk_used_idx := (dk_used_idx d + 1) mod of_nat VNUM\<rparr>)) (
       ret (Inl ())))))))) ()) (
     release (VdiskLock n)))"

end
