(* ===== verification/Trap.thy ===== *)
theory Trap
  imports Virtio
begin

text \<open>
  Interrupts and traps (\<^verbatim>\<open>kernel/plic.c\<close>, \<^verbatim>\<open>kernel/trap.c\<close>), the first return of a
  process (\<^verbatim>\<open>forkret()\<close>) and \<^verbatim>\<open>main()\<close>.  The interrupt controller is a device: its
  claim register yields the interrupts that wait for a hart, and register writes are recorded.  The jump
  of \<^verbatim>\<open>usertrapret()\<close> into the trampoline is its result: the address and the two arguments.
\<close>

section \<open>The interrupt controller\<close>

definition PLIC_SENABLE :: "nat \<Rightarrow> u64" where
  "PLIC_SENABLE hart = PLIC + 0x2080 + of_nat hart * 0x100"
definition PLIC_SPRIORITY :: "nat \<Rightarrow> u64" where
  "PLIC_SPRIORITY hart = PLIC + 0x201000 + of_nat hart * 0x2000"
definition PLIC_SCLAIM :: "nat \<Rightarrow> u64" where
  "PLIC_SCLAIM hart = PLIC + 0x201004 + of_nat hart * 0x2000"

record tpst = vdst +
  plic_waiting :: "nat \<Rightarrow> u32 list"
  plic_pending_reg :: u64
  plic_written :: "(u64 \<times> u32) list"
  started :: bool

definition plic_write :: "u64 \<Rightarrow> u32 \<Rightarrow> ('z tpst_scheme, unit) kop" where
  "plic_write a v = modify (\<lambda>s. s\<lparr>plic_written := plic_written s @ [(a, v)]\<rparr>)"

definition plicinit :: "('z tpst_scheme, unit) kop" where
  "plicinit =
     thn (plic_write (PLIC + ucast UART0_IRQ * 4) 1) (
     plic_write (PLIC + ucast VIRTIO0_IRQ * 4) 1)"

definition plicinithart :: "('z tpst_scheme, unit) kop" where
  "plicinithart =
     bnd cpuid (\<lambda>hart.
     thn (plic_write (PLIC_SENABLE hart) (push_bit (unat UART0_IRQ) 1 OR push_bit (unat VIRTIO0_IRQ) 1)) (
     plic_write (PLIC_SPRIORITY hart) 0))"

definition plic_pending :: "('z tpst_scheme, u64) kop" where
  "plic_pending = gets plic_pending_reg"

definition plic_claim :: "('z tpst_scheme, u32) kop" where
  "plic_claim =
     bnd cpuid (\<lambda>hart.
     bnd (gets (\<lambda>s. plic_waiting s hart)) (\<lambda>q.
     case q of
       [] \<Rightarrow> ret 0
     | irq # irqs \<Rightarrow>
         thn (modify (\<lambda>s. s\<lparr>plic_waiting := (plic_waiting s)(hart := irqs)\<rparr>)) (
         ret irq)))"

definition plic_complete :: "u32 \<Rightarrow> ('z tpst_scheme, unit) kop" where
  "plic_complete irq = bnd cpuid (\<lambda>hart. plic_write (PLIC_SCLAIM hart) irq)"

section \<open>Interrupts\<close>

definition trapinit :: "('z hw_scheme, unit) kop" where
  "trapinit = initlock TicksLock ''time''"

definition trapinithart :: "('z krst_scheme, unit) kop" where
  "trapinithart = bnd (gets ksym_kernelvec) w_stvec"

definition clockintr :: "('z pst_scheme, unit) kop" where
  "clockintr =
     thn (acquire TicksLock) (
     thn (modify (\<lambda>s. s\<lparr>ticks := ticks s + 1\<rparr>)) (
     thn (wakeup TicksChan) (
     release TicksLock)))"

definition devintr :: "('z tpst_scheme, int) kop" where
  "devintr =
     bnd r_scause (\<lambda>scause.
     if scause AND 0x8000000000000000 \<noteq> 0 \<and> scause AND 0xff = 9 then
       bnd plic_claim (\<lambda>irq.
       thn (if irq = UART0_IRQ then uartintr
            else if irq = VIRTIO0_IRQ \<or> irq = VIRTIO1_IRQ then virtio_disk_intr (unat (irq - VIRTIO0_IRQ))
            else skip) (
       thn (plic_complete irq) (
       ret 1)))
     else if scause = 0x8000000000000001 then
       bnd cpuid (\<lambda>hart.
       thn (whenM (hart = 0) clockintr) (
       bnd r_sip (\<lambda>sip.
       thn (w_sip (sip AND NOT 2)) (
       ret 2))))
     else ret 0)"

section \<open>User traps\<close>

definition usertrapret :: "('z krst_scheme, u64 \<times> u64 \<times> u64) kop" where
  "usertrapret =
     bnd curp (\<lambda>p.
     thn intr_off (
     bnd (gets ksym_trampoline) (\<lambda>tramp.
     bnd (gets ksym_uservec) (\<lambda>uservec.
     thn (w_stvec (TRAMPOLINE + (uservec - tramp))) (
     bnd r_satp (\<lambda>ksatp.
     thn (w_tf p TF_KERNEL_SATP ksatp) (
     bnd (get_proc p p_kstack) (\<lambda>kstack.
     thn (w_tf p TF_KERNEL_SP (kstack + PGSIZE)) (
     bnd (gets ksym_usertrap) (\<lambda>ut.
     thn (w_tf p TF_KERNEL_TRAP ut) (
     bnd r_tp (\<lambda>hart.
     thn (w_tf p TF_KERNEL_HARTID (of_nat hart)) (
     bnd r_sstatus (\<lambda>x.
     thn (w_sstatus ((x AND NOT SSTATUS_SPP) OR SSTATUS_SPIE)) (
     bnd (r_tf p TF_EPC) (\<lambda>epc.
     thn (w_sepc epc) (
     bnd (get_proc p p_pagetable) (\<lambda>pt.
     bnd (gets ksym_userret) (\<lambda>userret.
     ret (TRAMPOLINE + (userret - tramp), TRAPFRAME, MAKE_SATP pt))))))))))))))))))))"

text \<open>The end of \<^verbatim>\<open>usertrap()\<close>, and where it continues after \<^verbatim>\<open>yield()\<close>.\<close>

definition usertrap_end :: "nat \<Rightarrow> int \<Rightarrow> ('z krst_scheme, u64 \<times> u64 \<times> u64) kop" where
  "usertrap_end p which_dev =
     bnd (get_proc p p_killed) (\<lambda>killed.
     if killed then kexit
     else if which_dev = 2 then yield
     else usertrapret)"

definition usertrap_resume :: "bool \<Rightarrow> nat \<Rightarrow> ('z krst_scheme, u64 \<times> u64 \<times> u64) kop" where
  "usertrap_resume intena p = thn (yield_resume intena p) usertrapret"

definition usertrap :: "('z tpst_scheme, u64 \<times> u64 \<times> u64) kop" where
  "usertrap =
     bnd r_sstatus (\<lambda>sstatus.
     thn (panic_if (sstatus AND SSTATUS_SPP \<noteq> 0) ''usertrap: not from user mode'') (
     bnd (gets ksym_kernelvec) (\<lambda>kernelvec.
     thn (w_stvec kernelvec) (
     bnd curp (\<lambda>p.
     bnd r_sepc (\<lambda>sepc.
     thn (w_tf p TF_EPC sepc) (
     bnd r_scause (\<lambda>scause.
     if scause = 8 then
       bnd (get_proc p p_killed) (\<lambda>killed.
       if killed then kexit
       else
       bnd (r_tf p TF_EPC) (\<lambda>epc.
       thn (w_tf p TF_EPC (epc + 4)) (
       thn intr_on (
       thn syscall (
       usertrap_end p 0)))))
     else
     bnd devintr (\<lambda>which_dev.
     thn (whenM (which_dev = 0) (
       bnd (get_proc p p_pid) (\<lambda>pid.
       bnd r_stval (\<lambda>stval.
       thn (kprintf (Some (bytes_of ''usertrap(): unexpected scause %p pid=%d\<newline>'')) [VPtr scause, VInt (word_of_int pid)]) (
       thn (kprintf (Some (bytes_of ''            sepc=%p stval=%p\<newline>'')) [VPtr sepc, VPtr stval]) (
       upd_proc p (\<lambda>x. x\<lparr>p_killed := True\<rparr>))))))) (
     usertrap_end p which_dev))))))))))"

section \<open>Kernel traps\<close>

definition kerneltrap_end :: "u64 \<Rightarrow> u64 \<Rightarrow> ('z hw_scheme, unit) kop" where
  "kerneltrap_end sepc sstatus = thn (w_sepc sepc) (w_sstatus sstatus)"

definition kerneltrap :: "('z tpst_scheme, unit) kop" where
  "kerneltrap =
     bnd r_sepc (\<lambda>sepc.
     bnd r_sstatus (\<lambda>sstatus.
     bnd r_scause (\<lambda>scause.
     thn (panic_if (sstatus AND SSTATUS_SPP = 0) ''kerneltrap: not from supervisor mode'') (
     bnd intr_get (\<lambda>on.
     thn (panic_if on ''kerneltrap: interrupts enabled'') (
     bnd devintr (\<lambda>which_dev.
     thn (whenM (which_dev = 0) (
       thn (kprintf (Some (bytes_of ''scause %p\<newline>'')) [VPtr scause]) (
       bnd r_sepc (\<lambda>sepc.
       bnd r_stval (\<lambda>stval.
       thn (kprintf (Some (bytes_of ''sepc=%p stval=%p\<newline>'')) [VPtr sepc, VPtr stval]) (
       panic ''kerneltrap'')))))) (
     bnd (if which_dev = 2 then
            bnd myproc (\<lambda>mp.
            case mp of
              None \<Rightarrow> ret False
            | Some p \<Rightarrow> bnd (get_proc p p_state) (\<lambda>st. ret (st = RUNNING)))
          else ret False) (\<lambda>preempt.
     if preempt then yield
     else kerneltrap_end sepc sstatus)))))))))"

definition kerneltrap_resume :: "bool \<Rightarrow> nat \<Rightarrow> u64 \<Rightarrow> u64 \<Rightarrow> ('z pst_scheme, unit) kop" where
  "kerneltrap_resume intena p sepc sstatus =
     thn (yield_resume intena p) (
     kerneltrap_end sepc sstatus)"

section \<open>Starting\<close>

definition kminor :: "u32 \<Rightarrow> u32" where
  "kminor dev = dev AND 0xFFFF"

definition forkret :: "('z krst_scheme, u64 \<times> u64 \<times> u64) kop" where
  "forkret =
     bnd curp (\<lambda>p.
     thn (release (ProcLock p)) (
     bnd (gets fork_first) (\<lambda>first.
     thn (whenM first (
       thn (modify (\<lambda>s. s\<lparr>fork_first := False\<rparr>)) (
       fsinit (kminor ROOTDEV)))) (
     usertrapret))))"

definition kmain :: "('z tpst_scheme, unit) kop" where
  "kmain =
     bnd cpuid (\<lambda>hart.
     thn (if hart = 0 then
         thn consoleinit (
         thn printfinit (
         thn (kprintf (Some (bytes_of ''\<newline>'')) []) (
         thn (kprintf (Some (bytes_of ''xv6 kernel is booting\<newline>'')) []) (
         thn (kprintf (Some (bytes_of ''\<newline>'')) []) (
         thn kinit (
         thn kvminit (
         thn kvminithart (
         thn procinit (
         thn trapinit (
         thn trapinithart (
         thn plicinit (
         thn plicinithart (
         thn binit (
         thn iinit (
         thn fileinit (
         thn (virtio_disk_init (unat (kminor ROOTDEV))) (
         thn userinit (
         modify (\<lambda>s. s\<lparr>started := True\<rparr>)))))))))))))))))))
       else
         bnd (gets started) (\<lambda>go.
         if \<not> go then (\<lambda>s. Spin s)
         else
         thn (kprintf (Some (bytes_of ''hart %d starting\<newline>'')) [VInt (of_nat hart)]) (
         thn kvminithart (
         thn trapinithart (
         plicinithart))))) (
     scheduler))"

end
