(* ===== verification/Start.thy ===== *)
theory Start
  imports Machine
begin

text \<open>
  Machine mode (\<^verbatim>\<open>kernel/start.c\<close>, the machine-mode part of \<^verbatim>\<open>kernel/riscv.h\<close>, and
  \<^verbatim>\<open>timervec\<close> of \<^verbatim>\<open>kernel/kernelvec.S\<close>).  The state is that of one hart, with its
  registers \<^verbatim>\<open>a0\<close> to \<^verbatim>\<open>a7\<close> and the timer of the platform.  \<^verbatim>\<open>timervec\<close> is
  modelled instruction by instruction, between the hardware's trap entry and \<^verbatim>\<open>mret\<close>.
\<close>

section \<open>Registers\<close>

definition MSTATUS_MPP_MASK :: u64 where "MSTATUS_MPP_MASK = push_bit 11 3"
definition MSTATUS_MPP_S :: u64 where "MSTATUS_MPP_S = push_bit 11 1"
definition MSTATUS_MIE :: u64 where "MSTATUS_MIE = push_bit 3 1"
definition MIE_MTIE :: u64 where "MIE_MTIE = push_bit 7 1"

definition CLINT_MTIMECMP :: "u64 \<Rightarrow> u64" where
  "CLINT_MTIMECMP hartid = CLINT + 0x4000 + 8 * hartid"
definition CLINT_MTIME :: u64 where "CLINT_MTIME = CLINT + 0xBFF8"

record mhart =
  mh_mhartid :: u64
  mh_mstatus :: u64
  mh_mepc :: u64
  mh_medeleg :: u64
  mh_mideleg :: u64
  mh_mie :: u64
  mh_mtvec :: u64
  mh_mscratch :: u64
  mh_satp :: u64
  mh_sip :: u64
  mh_tp :: u64
  mh_a :: "nat \<Rightarrow> u64" \<comment> \<open>\<^verbatim>\<open>a0\<close> to \<^verbatim>\<open>a7\<close>\<close>
  mh_pc :: u64
  mh_mode :: nat \<comment> \<open>0 user, 1 supervisor, 3 machine\<close>
  mh_mem :: "u64 \<Rightarrow> u64" \<comment> \<open>the 64-bit words the code accesses: the timer registers and \<^verbatim>\<open>mscratch0\<close>\<close>
  mh_main :: u64
  mh_timervec :: u64
  mh_mscratch0 :: u64

definition r_mhartid :: "(mhart, u64) kop" where "r_mhartid = gets mh_mhartid"
definition r_mstatus :: "(mhart, u64) kop" where "r_mstatus = gets mh_mstatus"
definition w_mstatus :: "u64 \<Rightarrow> (mhart, unit) kop" where "w_mstatus x = modify (\<lambda>s. s\<lparr>mh_mstatus := x\<rparr>)"
definition w_mepc :: "u64 \<Rightarrow> (mhart, unit) kop" where "w_mepc x = modify (\<lambda>s. s\<lparr>mh_mepc := x\<rparr>)"
definition r_mie :: "(mhart, u64) kop" where "r_mie = gets mh_mie"
definition w_mie :: "u64 \<Rightarrow> (mhart, unit) kop" where "w_mie x = modify (\<lambda>s. s\<lparr>mh_mie := x\<rparr>)"
definition r_medeleg :: "(mhart, u64) kop" where "r_medeleg = gets mh_medeleg"
definition w_medeleg :: "u64 \<Rightarrow> (mhart, unit) kop" where "w_medeleg x = modify (\<lambda>s. s\<lparr>mh_medeleg := x\<rparr>)"
definition r_mideleg :: "(mhart, u64) kop" where "r_mideleg = gets mh_mideleg"
definition w_mideleg :: "u64 \<Rightarrow> (mhart, unit) kop" where "w_mideleg x = modify (\<lambda>s. s\<lparr>mh_mideleg := x\<rparr>)"
definition w_mtvec :: "u64 \<Rightarrow> (mhart, unit) kop" where "w_mtvec x = modify (\<lambda>s. s\<lparr>mh_mtvec := x\<rparr>)"
definition w_mscratch :: "u64 \<Rightarrow> (mhart, unit) kop" where "w_mscratch x = modify (\<lambda>s. s\<lparr>mh_mscratch := x\<rparr>)"
definition w_tp :: "u64 \<Rightarrow> (mhart, unit) kop" where "w_tp x = modify (\<lambda>s. s\<lparr>mh_tp := x\<rparr>)"
definition w_satp_m :: "u64 \<Rightarrow> (mhart, unit) kop" where "w_satp_m x = modify (\<lambda>s. s\<lparr>mh_satp := x\<rparr>)"

definition load_word :: "u64 \<Rightarrow> (mhart, u64) kop" where
  "load_word a = gets (\<lambda>s. mh_mem s a)"

definition store_word :: "u64 \<Rightarrow> u64 \<Rightarrow> (mhart, unit) kop" where
  "store_word a x = modify (\<lambda>s. s\<lparr>mh_mem := (mh_mem s)(a := x)\<rparr>)"

text \<open>
  The instruction \<^verbatim>\<open>mret\<close>: the mode in \<^verbatim>\<open>MPP\<close>, which becomes user mode;
  \<^verbatim>\<open>MIE\<close> takes the value of \<^verbatim>\<open>MPIE\<close>, which becomes 1.
\<close>

definition mret :: "(mhart, unit) kop" where
  "mret = modify (\<lambda>s.
     let x = mh_mstatus s; y = (if bit x 7 then set_bit 3 x else unset_bit 3 x) in
     s\<lparr>mh_mode := unat (drop_bit 11 (x AND MSTATUS_MPP_MASK)), mh_pc := mh_mepc s,
       mh_mstatus := set_bit 7 (y AND NOT MSTATUS_MPP_MASK)\<rparr>)"

section \<open>Start\<close>

definition timer_interval :: u64 where "timer_interval = 1000000"

definition timerinit :: "(mhart, unit) kop" where
  "timerinit =
     bnd r_mhartid (\<lambda>i.
     bnd (load_word CLINT_MTIME) (\<lambda>now.
     thn (store_word (CLINT_MTIMECMP i) (now + timer_interval)) (
     bnd (gets (\<lambda>s. mh_mscratch0 s + 8 * (32 * i))) (\<lambda>scratch.
     thn (store_word (scratch + 8 * 4) (CLINT_MTIMECMP i)) (
     thn (store_word (scratch + 8 * 5) timer_interval) (
     thn (w_mscratch scratch) (
     bnd (gets mh_timervec) (\<lambda>vec.
     thn (w_mtvec vec) (
     thn (bnd r_mstatus (\<lambda>x. w_mstatus (x OR MSTATUS_MIE))) (
     bnd r_mie (\<lambda>x. w_mie (x OR MIE_MTIE))))))))))))"

definition start :: "(mhart, unit) kop" where
  "start =
     bnd r_mstatus (\<lambda>x.
     thn (w_mstatus ((x AND NOT MSTATUS_MPP_MASK) OR MSTATUS_MPP_S)) (
     bnd (gets mh_main) (\<lambda>main_fn.
     thn (w_mepc main_fn) (
     thn (w_satp_m 0) (
     thn (w_medeleg 0xffff) (
     thn (w_mideleg 0xffff) (
     thn timerinit (
     bnd r_mhartid (\<lambda>i.
     thn (w_tp i) (
     mret))))))))))"

section \<open>The timer interrupt\<close>

text \<open>The instructions of \<^verbatim>\<open>timervec\<close>, on the registers \<^verbatim>\<open>a0\<close> to \<^verbatim>\<open>a3\<close>.\<close>

definition csrrw_mscratch :: "nat \<Rightarrow> (mhart, unit) kop" where
  "csrrw_mscratch r = modify (\<lambda>s. s\<lparr>mh_a := (mh_a s)(r := mh_mscratch s), mh_mscratch := mh_a s r\<rparr>)"

definition i_sd :: "nat \<Rightarrow> u64 \<Rightarrow> nat \<Rightarrow> (mhart, unit) kop" where
  "i_sd r off b = bnd (gets mh_a) (\<lambda>x. store_word (x b + off) (x r))"

definition set_a :: "nat \<Rightarrow> u64 \<Rightarrow> (mhart, unit) kop" where
  "set_a r v = modify (\<lambda>s. s\<lparr>mh_a := (mh_a s)(r := v)\<rparr>)"

definition i_ld :: "nat \<Rightarrow> u64 \<Rightarrow> nat \<Rightarrow> (mhart, unit) kop" where
  "i_ld r off b = bnd (gets mh_a) (\<lambda>x. bnd (load_word (x b + off)) (set_a r))"

definition i_add :: "nat \<Rightarrow> nat \<Rightarrow> nat \<Rightarrow> (mhart, unit) kop" where
  "i_add r x y = bnd (gets mh_a) (\<lambda>v. set_a r (v x + v y))"

definition csrw_sip :: "nat \<Rightarrow> (mhart, unit) kop" where
  "csrw_sip r = modify (\<lambda>s. s\<lparr>mh_sip := mh_a s r\<rparr>)"

definition timervec :: "(mhart, unit) kop" where
  "timervec =
     thn (csrrw_mscratch 0) (
     thn (i_sd 1 0 0) (
     thn (i_sd 2 8 0) (
     thn (i_sd 3 16 0) (
     thn (i_ld 1 32 0) (
     thn (i_ld 2 40 0) (
     thn (i_ld 3 0 1) (
     thn (i_add 3 3 2) (
     thn (i_sd 3 0 1) (
     thn (set_a 1 2) (
     thn (csrw_sip 1) (
     thn (i_ld 3 16 0) (
     thn (i_ld 2 8 0) (
     thn (i_ld 1 0 0) (
     thn (csrrw_mscratch 0) (
     mret)))))))))))))))"

text \<open>
  The trap of the hardware into machine mode: \<^verbatim>\<open>MPP\<close> and \<^verbatim>\<open>mepc\<close> keep the mode and
  the place of the interrupted code, \<^verbatim>\<open>MPIE\<close> keeps \<^verbatim>\<open>MIE\<close>, which is cleared.
\<close>

definition mtrap :: "(mhart, unit) kop" where
  "mtrap = modify (\<lambda>s.
     let x = (mh_mstatus s AND NOT MSTATUS_MPP_MASK) OR push_bit 11 (of_nat (mh_mode s));
       y = (if bit x 3 then set_bit 7 x else unset_bit 7 x) in
     s\<lparr>mh_mstatus := unset_bit 3 y, mh_mepc := mh_pc s, mh_mode := 3, mh_pc := mh_mtvec s\<rparr>)"

text \<open>A timer interrupt: the trap, and the handler if \<^verbatim>\<open>mtvec\<close> names it.\<close>

definition tick :: "(mhart, unit) kop" where
  "tick =
     thn mtrap (
     bnd (gets (\<lambda>s. mh_pc s = mh_timervec s)) (\<lambda>ok.
     if ok then timervec else (\<lambda>s. Spin s)))"

section \<open>Properties\<close>

lemmas start_ops = r_mhartid_def r_mstatus_def w_mstatus_def w_mepc_def r_mie_def w_mie_def w_medeleg_def
  w_mideleg_def w_mtvec_def w_mscratch_def w_tp_def w_satp_m_def load_word_def store_word_def

lemmas timer_ops = csrrw_mscratch_def i_sd_def set_a_def i_ld_def i_add_def csrw_sip_def

text \<open>What the registers of a hart are after \<^verbatim>\<open>timerinit()\<close>.\<close>

definition scratch_of :: "mhart \<Rightarrow> u64" where
  "scratch_of s = mh_mscratch0 s + 256 * mh_mhartid s"

text \<open>The kernel's data is in RAM, above the registers of the timer.\<close>

definition scratch_in_ram :: "mhart \<Rightarrow> bool" where
  "scratch_in_ram s \<longleftrightarrow> mh_mhartid s < of_nat NCPU \<and> mh_mscratch0 s \<ge> KERNBASE \<and> mh_mscratch0 s < PHYSTOP"

lemma hart_cases:
  assumes "(h :: u64) < of_nat NCPU"
  obtains i where "i < 8" and "h = of_nat i"
proof
  show "unat h < 8" using assms by (simp add: NCPU_def word_less_nat_alt)
  show "h = of_nat (unat h)" by simp
qed

lemma scratch_disjoint:
  assumes "scratch_in_ram s" and "k \<in> {0, 8, 16, 32, 40}"
  shows "scratch_of s + k \<noteq> CLINT_MTIMECMP (mh_mhartid s)"
proof
  assume eq: "scratch_of s + k = CLINT_MTIMECMP (mh_mhartid s)"
  have m: "mh_mscratch0 s \<ge> KERNBASE" using assms by (simp add: scratch_in_ram_def)
  obtain i where i: "i < 8" "mh_mhartid s = of_nat i"
    using assms hart_cases by (auto simp: scratch_in_ram_def)
  have c: "i = 0 \<or> i = 1 \<or> i = 2 \<or> i = 3 \<or> i = 4 \<or> i = 5 \<or> i = 6 \<or> i = 7" using i(1) by arith
  have "mh_mscratch0 s = CLINT_MTIMECMP (mh_mhartid s) - k - 256 * of_nat i"
    using eq by (simp add: scratch_of_def i(2) algebra_simps)
  also have "\<dots> < KERNBASE"
    using c assms(2) by (auto simp: CLINT_MTIMECMP_def CLINT_def KERNBASE_def i(2))
  finally show False using m by simp
qed

lemmas scratch_apart = scratch_disjoint [of _ 0, simplified] scratch_disjoint [of _ 8, simplified]
  scratch_disjoint [of _ 16, simplified] scratch_disjoint [of _ 32, simplified] scratch_disjoint [of _ 40, simplified]

lemma mpp_supervisor: "unat (drop_bit 11 (((x AND NOT MSTATUS_MPP_MASK OR MSTATUS_MPP_S) OR MSTATUS_MIE) AND MSTATUS_MPP_MASK)) = 1"
proof -
  have three: "(3 :: u64) = mask 2" by (simp add: mask_eq_exp_minus_1)
  have "drop_bit 11 (((x AND NOT MSTATUS_MPP_MASK OR MSTATUS_MPP_S) OR MSTATUS_MIE) AND MSTATUS_MPP_MASK) = (1 :: u64)"
    unfolding MSTATUS_MPP_MASK_def MSTATUS_MPP_S_def MSTATUS_MIE_def three
    by (rule bit_word_eqI) (auto simp: bit_simps bit_1_iff)
  then show ?thesis by simp
qed

text \<open>
  What the timer relies on: the two words \<^verbatim>\<open>timerinit()\<close> left for the handler, and the timer
  of the hart after \<open>n\<close> interrupts.
\<close>

definition armed :: "mhart \<Rightarrow> nat \<Rightarrow> mhart \<Rightarrow> bool" where
  "armed s n v \<longleftrightarrow> mh_mscratch v = scratch_of s \<and> mh_mtvec v = mh_timervec v \<and> mh_mode v \<le> 1 \<and>
     mh_mem v (scratch_of s + 32) = CLINT_MTIMECMP (mh_mhartid s) \<and>
     mh_mem v (scratch_of s + 40) = timer_interval \<and>
     mh_mem v (CLINT_MTIMECMP (mh_mhartid s)) = mh_mem s CLINT_MTIME + of_nat (n + 1) * timer_interval"

text \<open>The words the timer handler writes.\<close>

definition timer_words :: "mhart \<Rightarrow> u64 set" where
  "timer_words s = {CLINT_MTIMECMP (mh_mhartid s), scratch_of s, scratch_of s + 8, scratch_of s + 16}"

text \<open>
  What runs between the interrupts: the kernel or a process, in supervisor or in user mode.  It may
  do anything but write the registers of machine mode, the timer and the scratch words.
\<close>

definition below_machine :: "mhart \<Rightarrow> mhart \<Rightarrow> mhart \<Rightarrow> bool" where
  "below_machine s v w \<longleftrightarrow> mh_mscratch w = mh_mscratch v \<and> mh_mtvec w = mh_mtvec v \<and> mh_timervec w = mh_timervec v \<and>
     mh_mode w \<le> 1 \<and>
     (\<forall>a \<in> {CLINT_MTIMECMP (mh_mhartid s), scratch_of s + 32, scratch_of s + 40}. mh_mem w a = mh_mem v a)"

text \<open>The life of a hart after \<^verbatim>\<open>start()\<close>, with the number of timer interrupts so far.\<close>

inductive timer_run :: "mhart \<Rightarrow> nat \<Rightarrow> mhart \<Rightarrow> bool" for s where
  started: "start s = Done () t \<Longrightarrow> timer_run s 0 t"
| works: "timer_run s n v \<Longrightarrow> below_machine s v w \<Longrightarrow> timer_run s n w"
| ticks: "timer_run s n v \<Longrightarrow> tick v = Done () w \<Longrightarrow> timer_run s (Suc n) w"

lemma start_run:
  assumes "scratch_in_ram s"
  shows "\<exists>t. start s = Done () t \<and> mh_mode t = 1 \<and> mh_pc t = mh_main s \<and> mh_satp t = 0 \<and>
    mh_tp t = mh_mhartid s \<and> mh_medeleg t = 0xffff \<and> mh_mideleg t = 0xffff \<and> bit (mh_mie t) 7 \<and>
    mh_mtvec t = mh_timervec s \<and> armed s 0 t"
proof -
  let ?a = "scratch_of s" and ?c = "CLINT_MTIMECMP (mh_mhartid s)"
  note d = scratch_apart [OF assms] scratch_apart [OF assms, symmetric]
  have a: "mh_mscratch0 s + 256 * mh_mhartid s = ?a" by (simp add: scratch_of_def)
  note mode = mpp_supervisor [of "mh_mstatus s", unfolded drop_bit_and drop_bit_or, simplified]
  obtain t where t: "start s = Done () t" "mh_mode t = 1" "mh_pc t = mh_main s" "mh_satp t = 0"
    "mh_tp t = mh_mhartid s" "mh_medeleg t = 0xffff" "mh_mideleg t = 0xffff" "bit (mh_mie t) 7"
    "mh_mtvec t = mh_timervec s" "mh_timervec t = mh_timervec s" "mh_mscratch t = ?a"
    "mh_mem t = (mh_mem s)(?c := mh_mem s CLINT_MTIME + timer_interval, ?a + 32 := ?c, ?a + 40 := timer_interval)"
    by (rule that, simp add: start_def timerinit_def start_ops mret_def run a Let_def)
      (simp_all add: mode MIE_MTIE_def bit_simps a)
  then show ?thesis by (intro exI conjI) (auto simp: armed_def d)
qed

text \<open>The trap entry and \<^verbatim>\<open>mret\<close> are inverse on the mode.\<close>

lemma mpp_kept:
  assumes "m \<le> 1" and "x = (y AND NOT MSTATUS_MPP_MASK) OR push_bit 11 (of_nat m :: u64)"
  shows "unat (drop_bit 11 (unset_bit 3 (if b then set_bit 7 x else unset_bit 7 x) AND MSTATUS_MPP_MASK)) = m"
proof -
  have three: "(3 :: u64) = mask 2" by (simp add: mask_eq_exp_minus_1)
  have two: "n < 2 \<and> n < 53" if "bit w n" "w = (of_nat m :: u64)" for w n
    using assms(1) that by (cases "m = 0") (auto simp: le_Suc_eq bit_1_iff)
  have "drop_bit 11 (unset_bit 3 (if b then set_bit 7 x else unset_bit 7 x) AND MSTATUS_MPP_MASK) = w"
    if "w = of_nat m" for w :: u64
    unfolding assms(2) MSTATUS_MPP_MASK_def three that [symmetric]
    by (rule bit_word_eqI) (auto simp: bit_simps dest: two [OF _ that])
  then show ?thesis using assms(1) by (cases "m = 0") (auto simp: le_Suc_eq)
qed

lemma tick_run:
  assumes "scratch_in_ram s" and "armed s n v"
  shows "\<exists>w. tick v = Done () w \<and> armed s (Suc n) w \<and> mh_sip w = 2 \<and> mh_mode w = mh_mode v \<and>
    mh_pc w = mh_pc v \<and> mh_a w = mh_a v \<and> mh_tp w = mh_tp v \<and> mh_satp w = mh_satp v \<and>
    (\<forall>a. a \<notin> timer_words s \<longrightarrow> mh_mem w a = mh_mem v a)"
proof -
  let ?a = "scratch_of s" and ?c = "CLINT_MTIMECMP (mh_mhartid s)"
  note d = scratch_apart [OF assms(1)] scratch_apart [OF assms(1), symmetric]
  have v: "mh_mscratch v = ?a" "mh_mtvec v = mh_timervec v" "mh_mode v \<le> 1" "mh_mem v (?a + 32) = ?c"
    "mh_mem v (?a + 40) = timer_interval" "mh_mem v ?c = mh_mem s CLINT_MTIME + of_nat (n + 1) * timer_interval"
    using assms(2) by (simp_all add: armed_def)
  obtain x where m: "mtrap v = Done () (v\<lparr>mh_mstatus := x, mh_mepc := mh_pc v, mh_mode := 3, mh_pc := mh_mtvec v\<rparr>)"
    and x: "unat (drop_bit 11 (x AND MSTATUS_MPP_MASK)) = mh_mode v"
    by (rule that, simp add: mtrap_def run Let_def) (rule mpp_kept [OF v(3) refl])
  obtain w where w: "tick v = Done () w" "mh_sip w = 2" "mh_mode w = mh_mode v" "mh_pc w = mh_pc v"
    "mh_a w = mh_a v" "mh_tp w = mh_tp v" "mh_satp w = mh_satp v" "mh_mscratch w = ?a" "mh_mtvec w = mh_mtvec v"
    "mh_timervec w = mh_timervec v"
    "mh_mem w = (mh_mem v)(?a := mh_a v 1, ?a + 8 := mh_a v 2, ?a + 16 := mh_a v 3, ?c := mh_mem v ?c + timer_interval)"
    by (rule that, simp add: tick_def run m timervec_def timer_ops start_ops mret_def Let_def v d x)
      (simp_all add: v d x fun_eq_iff drop_bit_and [symmetric] del: drop_bit_and)
  have "armed s (Suc n) w"
    using v by (simp add: armed_def w d) (simp add: algebra_simps)
  moreover have "\<forall>a. a \<notin> timer_words s \<longrightarrow> mh_mem w a = mh_mem v a"
    by (simp add: w timer_words_def)
  ultimately show ?thesis
    using w by blast
qed

lemma timer_run_armed:
  assumes "timer_run s n v" and "scratch_in_ram s"
  shows "armed s n v"
  using assms
proof (induction rule: timer_run.induct)
  case (started t)
  then show ?case using start_run by fastforce
next
  case (works n v w)
  then show ?case by (auto simp: armed_def below_machine_def)
next
  case (ticks n v w)
  then show ?case using tick_run by fastforce
qed

text \<open>
  C24: \<^verbatim>\<open>start()\<close> leaves machine mode for supervisor mode at \<^verbatim>\<open>main()\<close>, with
  paging off, every interrupt and exception delegated and the hart's number in \<^verbatim>\<open>tp\<close>.  From
  then on, whatever the kernel and the processes do below machine mode, the timer is due one interval
  after the previous interrupt: after \<open>n\<close> interrupts it is armed for \<open>n + 1\<close> intervals past the boot.
  Every interrupt runs \<^verbatim>\<open>timervec\<close>, raises a software interrupt for the supervisor, and
  returns to the interrupted code: same mode, same place, same \<^verbatim>\<open>a0\<close> to \<^verbatim>\<open>a7\<close>, and
  no memory changed but the timer and the words saved in.
\<close>

theorem start_enters_main:
  assumes "scratch_in_ram s"
  shows "(\<exists>t. start s = Done () t \<and> mh_mode t = 1 \<and> mh_pc t = mh_main s \<and> mh_satp t = 0 \<and>
      mh_tp t = mh_mhartid s \<and> mh_medeleg t = 0xffff \<and> mh_mideleg t = 0xffff \<and> bit (mh_mie t) 7 \<and>
      mh_mtvec t = mh_timervec s) \<and>
    (\<forall>n v. timer_run s n v \<longrightarrow>
      mh_mem v (CLINT_MTIMECMP (mh_mhartid s)) = mh_mem s CLINT_MTIME + of_nat (n + 1) * timer_interval \<and>
      (\<exists>w. tick v = Done () w \<and> timer_run s (Suc n) w \<and> mh_sip w = 2 \<and> mh_mode w = mh_mode v \<and>
        mh_pc w = mh_pc v \<and> mh_a w = mh_a v \<and> mh_tp w = mh_tp v \<and> mh_satp w = mh_satp v \<and>
        (\<forall>a. a \<notin> timer_words s \<longrightarrow> mh_mem w a = mh_mem v a)))"
proof (intro conjI allI impI)
  fix n v
  assume r: "timer_run s n v"
  note a = timer_run_armed [OF r assms]
  show "mh_mem v (CLINT_MTIMECMP (mh_mhartid s)) = mh_mem s CLINT_MTIME + of_nat (n + 1) * timer_interval"
    using a by (simp add: armed_def)
  show "\<exists>w. tick v = Done () w \<and> timer_run s (Suc n) w \<and> mh_sip w = 2 \<and> mh_mode w = mh_mode v \<and>
      mh_pc w = mh_pc v \<and> mh_a w = mh_a v \<and> mh_tp w = mh_tp v \<and> mh_satp w = mh_satp v \<and>
      (\<forall>a. a \<notin> timer_words s \<longrightarrow> mh_mem w a = mh_mem v a)"
    using tick_run [OF assms a] timer_run.ticks [OF r] by blast
qed (use start_run [OF assms] in blast)

definition hart_at_reset :: mhart where
  "hart_at_reset = \<lparr>mh_mhartid = 1, mh_mstatus = 0, mh_mepc = 0, mh_medeleg = 0, mh_mideleg = 0, mh_mie = 0,
     mh_mtvec = 0, mh_mscratch = 0, mh_satp = 0, mh_sip = 0, mh_tp = 0, mh_a = of_nat, mh_pc = 0x80000000, mh_mode = 3,
     mh_mem = \<lambda>_. 0, mh_main = 0x80000100, mh_timervec = 0x80000200, mh_mscratch0 = 0x80009000\<rparr>"

theorem start_enters_main_witness:
  "\<exists>t u. start hart_at_reset = Done () t \<and> mh_pc t = 0x80000100 \<and> mh_tp t = 1 \<and> mh_mem t 0x2004008 = 1000000 \<and>
    tick t = Done () u \<and> mh_pc u = 0x80000100 \<and> mh_mode u = 1 \<and> mh_mem u 0x2004008 = 2000000"
proof -
  have ok: "scratch_in_ram hart_at_reset"
    by (simp add: scratch_in_ram_def hart_at_reset_def NCPU_def KERNBASE_def PHYSTOP_def)
  note C = start_enters_main [OF ok]
  then obtain t where t: "start hart_at_reset = Done () t" "mh_pc t = mh_main hart_at_reset" "mh_mode t = 1"
    "mh_tp t = mh_mhartid hart_at_reset" by blast
  from C timer_run.started [OF t(1)] obtain u where u: "tick t = Done () u" "timer_run hart_at_reset (Suc 0) u"
    "mh_pc u = mh_pc t" "mh_mode u = mh_mode t" by blast
  have "mh_mem t (CLINT_MTIMECMP 1) = 1000000" "mh_mem u (CLINT_MTIMECMP 1) = 2000000"
    using C timer_run.started [OF t(1)] u(2) by (fastforce simp: hart_at_reset_def timer_interval_def)+
  then show ?thesis
    using t u by (intro exI [of _ t] exI [of _ u]) (simp add: hart_at_reset_def CLINT_MTIMECMP_def CLINT_def)
qed

end
