(* ===== verification/Layout.thy ===== *)
theory Layout
  imports Fs
begin

text \<open>
  On-disk layout: the structures of \<^verbatim>\<open>kernel/fs.h\<close> in the bytes of a block are read back as
  they were written, and writing one leaves the others alone.
\<close>

section \<open>Fields\<close>

text \<open>A kind of value that takes a number of bytes at a position of a block.\<close>

locale codec =
  fixes width :: nat and rd :: "block \<Rightarrow> nat \<Rightarrow> 'v" and wr :: "nat \<Rightarrow> 'v \<Rightarrow> block \<Rightarrow> block"
  assumes rd_wr: "rd (wr i v d) i = v"
    and wr_frame: "k < i \<or> i + width \<le> k \<Longrightarrow> wr i v d k = d k"
    and rd_local: "(\<And>k. i \<le> k \<Longrightarrow> k < i + width \<Longrightarrow> d k = d' k) \<Longrightarrow> rd d i = rd d' i"
begin

lemma rd_wr_other: "i + width \<le> j \<or> j + width \<le> i \<Longrightarrow> rd (wr i v d) j = rd d j"
  by (rule rd_local, rule wr_frame) auto

lemma rd_frame: "(\<And>k. k < a \<or> b \<le> k \<Longrightarrow> d' k = d k) \<Longrightarrow> b \<le> i \<or> i + width \<le> a \<Longrightarrow> rd d' i = rd d i"
  by (rule rd_local) auto

text \<open>Consecutive values.\<close>

primrec wr_array :: "nat \<Rightarrow> nat \<Rightarrow> (nat \<Rightarrow> 'v) \<Rightarrow> block \<Rightarrow> block" where
  "wr_array 0 j f d = d"
| "wr_array (Suc n) j f d = wr (j + width * n) (f n) (wr_array n j f d)"

lemma rd_wr_array: "i < n \<Longrightarrow> rd (wr_array n j f d) (j + width * i) = f i"
proof (induction n)
  case (Suc n)
  show ?case
  proof (cases "i = n")
    case True
    then show ?thesis by (simp add: rd_wr)
  next
    case False
    then have "width * Suc i \<le> width * n" using Suc.prems by (intro mult_le_mono2) simp
    then have "rd (wr (j + width * n) (f n) (wr_array n j f d)) (j + width * i) = rd (wr_array n j f d) (j + width * i)"
      by (intro rd_wr_other) simp
    then show ?thesis using Suc False by simp
  qed
qed simp

lemma wr_array_frame: "k < j \<or> j + width * n \<le> k \<Longrightarrow> wr_array n j f d k = d k"
  by (induction n) (auto simp: wr_frame)

end

lemma bit_get16: "bit (get16 d i) n \<longleftrightarrow> n < 16 \<and> bit (d (i + n div 8)) (n mod 8)"
proof (cases "n < 16")
  case True
  obtain q r where n: "n = 8 * q + r" "r < 8" "q = n div 8" "r = n mod 8" by simp
  then have "q = 0 \<or> q = 1" using True by auto
  then show ?thesis
    unfolding n(3,4) [symmetric] unfolding n(1) using n(2)
    by (elim disjE) (simp_all add: get16_def bit_simps bit_u8_ge)
next
  case False
  then show ?thesis using bit_imp_le_length [of "get16 d i" n] by auto
qed

lemma get16_put16: "get16 (put16 i v d) i = v"
proof (rule bit_word_eqI)
  fix n
  assume "n < LENGTH(16)"
  then have n: "n < 16" by simp
  then have "n < 8 \<or> n = 8 + n mod 8 \<and> n div 8 = 1" by presburger
  then consider "n < 8" | "n = 8 + n mod 8" "n div 8 = 1" by blast
  then show "bit (get16 (put16 i v d) i) n = bit v n"
  proof cases
    case 1
    then show ?thesis using n by (simp add: bit_get16 put16_def bit_simps)
  next
    case 2
    then have "bit v (8 + n mod 8) = bit v n" by simp
    then show ?thesis using n 2 by (simp add: bit_get16 put16_def bit_simps)
  qed
qed

interpretation c16: codec 2 get16 put16
  by unfold_locales (simp_all add: get16_put16, auto simp: put16_def get16_def)

interpretation c32: codec 4 get32 put32
  by unfold_locales (simp_all add: put32_other, auto simp: get32_def)

section \<open>Inodes on disk\<close>

lemma put_addrs_array: "put_addrs n j f d = c32.wr_array n j f d"
  by (induction n) simp_all

text \<open>The fields of \<open>x\<close> that are stored on disk, in an inode.\<close>

definition same_dinode :: "'a dinode_scheme \<Rightarrow> 'b dinode_scheme \<Rightarrow> bool" where
  "same_dinode x y \<longleftrightarrow> d_type x = d_type y \<and> d_major x = d_major y \<and> d_minor x = d_minor y \<and>
     d_nlink x = d_nlink y \<and> d_size x = d_size y \<and> (\<forall>i\<le>NDIRECT. d_addrs x i = d_addrs y i)"

lemma same_dinode_refl [simp]: "same_dinode d d"
  by (simp add: same_dinode_def)

lemma same_dinode_fill [simp]: "same_dinode (fill_inode d x) d"
  by (simp add: same_dinode_def fill_inode_def)

lemma put_dinode_frame: "k < j \<or> j + 64 \<le> k \<Longrightarrow> put_dinode j x d k = d k"
  by (auto simp: put_dinode_def put_addrs_array c32.wr_array_frame c32.wr_frame c16.wr_frame NDIRECT_def)

lemma dinode_at_put: "same_dinode (dinode_at (put_dinode j x d) j) x"
proof -
  let ?e = "put32 (j + 8) (d_size x) (put16 (j + 6) (d_nlink x) (put16 (j + 4) (d_minor x) (put16 (j + 2) (d_major x) (put16 j (d_type x) d))))"
  have head: "put_dinode j x d k = ?e k" if "k < j + 12" for k
    using that unfolding put_dinode_def put_addrs_array by (intro c32.wr_array_frame) simp
  have e16: "get16 (put_dinode j x d) i = get16 ?e i" if "i + 2 \<le> j + 12" for i
    using that head by (intro c16.rd_local) simp
  have e32: "get32 (put_dinode j x d) (j + 8) = get32 ?e (j + 8)"
    using head by (intro c32.rd_local) simp
  have f: "get16 (put32 (j + 8) v e) i = get16 e i" if "i + 2 \<le> j + 8" for v e i
    using that by (intro c16.rd_local) (simp add: c32.wr_frame)
  have a: "get32 (put_dinode j x d) (j + 12 + 4 * i) = d_addrs x i" if "i \<le> NDIRECT" for i
    using that unfolding put_dinode_def put_addrs_array by (intro c32.rd_wr_array) simp
  show ?thesis
    by (simp add: same_dinode_def dinode_at_def e16 e32 f a c16.rd_wr c16.rd_wr_other c32.rd_wr)
qed

lemma dinode_at_put_other:
  assumes "j + 64 \<le> i \<or> i + 64 \<le> j"
  shows "same_dinode (dinode_at (put_dinode j x d) i) (dinode_at d i)"
proof -
  have e: "put_dinode j x d k = d k" if "i \<le> k" "k < i + 64" for k
    using that assms by (intro put_dinode_frame) auto
  have e16: "get16 (put_dinode j x d) k = get16 d k" if "i \<le> k" "k + 2 \<le> i + 64" for k
    using that e by (intro c16.rd_local) auto
  have e32: "get32 (put_dinode j x d) k = get32 d k" if "i \<le> k" "k + 4 \<le> i + 64" for k
    using that e by (intro c32.rd_local) auto
  show ?thesis
    by (simp add: same_dinode_def dinode_at_def e16 e32 NDIRECT_def)
qed

text \<open>Two inodes that live in one block have disjoint places in it.\<close>

lemma dinode_off_apart:
  assumes "i \<noteq> j" and "IBLOCK i S = IBLOCK j S"
  shows "dinode_off i + 64 \<le> dinode_off j \<or> dinode_off j + 64 \<le> dinode_off i"
proof -
  have "i div 16 = j div 16" using assms(2) by (simp add: IBLOCK_def IPB_def BSIZE_def)
  then have "i mod 16 \<noteq> j mod 16" using assms(1) by (metis word_mod_div_equality)
  then have "unat (i mod 16) \<noteq> unat (j mod 16)" by (simp add: word_unat_eq_iff)
  then show ?thesis by (simp add: dinode_off_def IPB_def BSIZE_def) arith
qed

section \<open>The bitmap\<close>

lemma bit_used_bit: "bit_used d bi \<longleftrightarrow> bit (d (bi div 8)) (bi mod 8)"
  by (simp add: bit_used_def bit_iff_and_push_bit_not_eq_0)

lemma bit_used_set: "bit_used (set_used bi d) bj \<longleftrightarrow> bj = bi \<or> bit_used d bj"
proof -
  have "bj div 8 = bi div 8 \<Longrightarrow> bj mod 8 = bi mod 8 \<Longrightarrow> bj = bi" by (metis div_mult_mod_eq)
  then show ?thesis by (auto simp: bit_used_bit set_used_def bit_simps)
qed

lemma bit_used_free: "bit_used (set_free bi d) bj \<longleftrightarrow> bj \<noteq> bi \<and> bit_used d bj"
proof -
  have "bj div 8 = bi div 8 \<Longrightarrow> bj mod 8 = bi mod 8 \<Longrightarrow> bj = bi" by (metis div_mult_mod_eq)
  then show ?thesis by (auto simp: bit_used_bit set_free_def bit_simps bit_u8_bound)
qed

section \<open>Positions in a file\<close>

text \<open>The blocks of a file of \<open>sz\<close> bytes, and the blocks it takes with the indirect block.\<close>

definition nblk :: "nat \<Rightarrow> nat" where
  "nblk sz = (sz + (BSIZE - 1)) div BSIZE"

definition need :: "nat \<Rightarrow> nat" where
  "need n = (if NDIRECT < n then n + 1 else n)"

lemma need_mono: "n \<le> n' \<Longrightarrow> need n \<le> need n'"
  by (simp add: need_def)

lemma block_split:
  fixes B :: nat
  assumes "k mod B + e < B"
  shows "(k + e) div B = k div B" and "(k + e) mod B = k mod B + e"
proof -
  have k: "k + e = (k mod B + e) + B * (k div B)" by simp
  show "(k + e) div B = k div B" unfolding k using assms by (subst div_mult_self2) simp_all
  show "(k + e) mod B = k mod B + e" unfolding k using assms by (subst mod_mult_self2) simp_all
qed

lemma min_of_nat: "a < 2 ^ 32 \<Longrightarrow> b < 2 ^ 32 \<Longrightarrow> min (of_nat a :: u32) (of_nat b) = of_nat (min a b)"
  by (simp add: min_def word_le_nat_alt unat_of_nat)

lemma off_words:
  assumes "k < 2 ^ 31"
  shows "unat (of_nat k div of_nat BSIZE :: u32) = k div BSIZE" and "unat (of_nat k mod of_nat BSIZE :: u32) = k mod BSIZE"
  using assms by (simp_all add: BSIZE_def unat_div unat_mod unat_of_nat)

end
