(* ===== verification/Txn.thy ===== *)
theory Txn
  imports Transaction
begin

text \<open>
  The file system's view of an open transaction: the blocks of a device as a function of the block
  number, the buffers the caller has locked, the blocks it has logged, and how many more the log takes
  (a block that is logged again takes no more room).  The rules run
  \<^verbatim>\<open>bread()\<close>, \<^verbatim>\<open>log_write()\<close> and \<^verbatim>\<open>brelse()\<close> over this view; the disk is not
  written.
\<close>

section \<open>Open transactions\<close>

record txn =
  t_room :: nat
  t_held :: "u32 \<Rightarrow> nat option"
  t_dirty :: "u32 set" \<comment> \<open>changed and not yet logged\<close>
  t_logged :: "u32 set"
  t_view :: "u32 \<Rightarrow> block"

definition intxn :: "u32 \<Rightarrow> txn \<Rightarrow> (bkey \<Rightarrow> block) \<times> (bkey \<times> block) list \<Rightarrow> log_t \<Rightarrow> cache \<Rightarrow> bool" where
  "intxn dev T D l c \<longleftrightarrow> 0 \<le> lh_n l \<and> lh_n l + int (t_room T) < int LOGSIZE \<and> lh_n l + int (t_room T) < lg_size l - 1
     \<and> (0 < t_room T \<or> t_logged T \<noteq> {} \<longrightarrow> 1 \<le> lg_outstanding l) \<and> (\<forall>bn \<in> t_logged T. absorbed bn l) \<and> (c_disk c, c_writes c) = D \<and> finite (dom (t_held T))
     \<and> (\<forall>bn. c_content c (dev, bn) = t_view T bn) \<and> (\<forall>bn. c_held c (dev, bn) = t_held T bn)
     \<and> (\<forall>bn. c_ref c (dev, bn) = (if absorbed bn l then 1 else 0) + (if t_held T bn = None then 0 else 1))
     \<and> (\<forall>d bn. d \<noteq> dev \<longrightarrow> c_ref c (d, bn) = 0)
     \<and> (\<forall>bn. \<not> absorbed bn l \<and> bn \<notin> t_dirty T \<longrightarrow> t_view T bn = fst D (dev, bn))"

lemma intxn_ref: "intxn dev T D l c \<Longrightarrow> c_ref c (dev, bn) \<le> 2"
  by (auto simp: intxn_def)

lemma intxn_busy:
  assumes "intxn dev T D l c"
  shows "busy c \<le> nat (lh_n l) + card (dom (t_held T))"
proof -
  let ?A = "(\<lambda>bn. (dev, bn)) ` (lh_block l ` {..<len l})" and ?H = "(\<lambda>bn. (dev, bn)) ` dom (t_held T)"
  have ref: "c_ref c (dev, bn) \<noteq> 0 \<Longrightarrow> absorbed bn l \<or> bn \<in> dom (t_held T)" for bn
    using assms by (auto simp: intxn_def split: if_splits)
  have fin: "finite (dom (t_held T))" using assms by (simp add: intxn_def)
  have "{k. c_ref c k \<noteq> 0} \<subseteq> ?A \<union> ?H"
  proof
    fix k
    assume k: "k \<in> {k. c_ref c k \<noteq> 0}"
    obtain d bn where kb: "k = (d, bn)" by (cases k)
    have "d = dev" using assms k kb by (auto simp: intxn_def)
    then show "k \<in> ?A \<union> ?H" using k kb ref [of bn] by (auto simp: absorbed_def)
  qed
  then have "busy c \<le> card (?A \<union> ?H)" unfolding busy_def using fin by (intro card_mono) auto
  also have "\<dots> \<le> card ?A + card ?H" by (rule card_Un_le)
  also have "\<dots> \<le> len l + card (dom (t_held T))"
    using card_image_le [of "lh_block l ` {..<len l}" "Pair dev"] card_image_le [of "{..<len l}" "lh_block l"]
      card_image_le [OF fin, of "Pair dev"] by fastforce
  finally show ?thesis by (simp add: len_def)
qed

lemma intxn_room:
  assumes "intxn dev T D l c" and "card (dom (t_held T)) \<le> t_room T"
  shows "has_room k c"
proof -
  have "0 \<le> lh_n l" "lh_n l + int (t_room T) < 30" using assms(1) by (simp_all add: intxn_def param_defs)
  then have "busy c < NBUF" using intxn_busy [OF assms(1)] assms(2) unfolding param_defs by linarith
  then show ?thesis by (simp add: has_room_def)
qed

section \<open>Executions in a transaction\<close>

definition fsx :: "lockid set \<Rightarrow> nat \<Rightarrow> u32 \<Rightarrow> txn \<Rightarrow> 'z lgst_scheme \<Rightarrow> ('z lgst_scheme, 'a) kop \<Rightarrow> lockid set
    \<Rightarrow> ('a \<Rightarrow> txn \<Rightarrow> 'z lgst_scheme \<Rightarrow> bool) \<Rightarrow> bool" where
  "fsx L p dev T s f L' R \<longleftrightarrow> (\<forall>D lg c. intxn dev T D (lg dev) c \<longrightarrow>
     exec L p c (s\<lparr>logs := lg\<rparr>) f L' (\<lambda>x c' t. \<exists>T' lg' s'. t = s'\<lparr>logs := lg'\<rparr> \<and> intxn dev T' D (lg' dev) c' \<and> R x T' s'))"

lemma fsxD:
  "fsx L p dev T s f L' R \<Longrightarrow> intxn dev T D (lg dev) c \<Longrightarrow> exec L p c (s\<lparr>logs := lg\<rparr>) f L'
     (\<lambda>x c' t. \<exists>T' lg' s'. t = s'\<lparr>logs := lg'\<rparr> \<and> intxn dev T' D (lg' dev) c' \<and> R x T' s')"
  unfolding fsx_def by blast

lemma fsx_mono: "fsx L p dev T s f L' R \<Longrightarrow> (\<And>x T s. R x T s \<Longrightarrow> Q x T s) \<Longrightarrow> fsx L p dev T s f L' Q"
  unfolding fsx_def by (blast intro: exec_mono)

lemma fsx_ret: "R x T s \<Longrightarrow> fsx L p dev T s (ret x) L R"
  unfolding fsx_def by (auto intro!: exec_ret)

lemma fsx_skip: "R () T s \<Longrightarrow> fsx L p dev T s skip L R"
  unfolding skip_def by (rule fsx_ret)

lemma fsx_bnd:
  assumes "fsx L p dev T s f L1 Q" and "\<And>x T' s'. Q x T' s' \<Longrightarrow> fsx L1 p dev T' s' (g x) L' R"
  shows "fsx L p dev T s (bnd f g) L' R"
  unfolding fsx_def
proof (intro allI impI)
  fix D lg c
  assume "intxn dev T D (lg dev) c"
  then have "exec L p c (s\<lparr>logs := lg\<rparr>) f L1 (\<lambda>x c' t. \<exists>T' lg' s'. t = s'\<lparr>logs := lg'\<rparr> \<and> intxn dev T' D (lg' dev) c' \<and> Q x T' s')"
    by (rule fsxD [OF assms(1)])
  then show "exec L p c (s\<lparr>logs := lg\<rparr>) (bnd f g) L' (\<lambda>x c' t. \<exists>T' lg' s'. t = s'\<lparr>logs := lg'\<rparr> \<and> intxn dev T' D (lg' dev) c' \<and> R x T' s')"
    by (rule exec_bnd) (auto intro: fsxD [OF assms(2)])
qed

lemma fsx_thn:
  "fsx L p dev T s f L1 Q \<Longrightarrow> (\<And>x T' s'. Q x T' s' \<Longrightarrow> fsx L1 p dev T' s' g L' R) \<Longrightarrow> fsx L p dev T s (thn f g) L' R"
  unfolding thn_def by (rule fsx_bnd)

lemma fsx_tail: "fsx L p dev T s (thn f skip) L' R \<Longrightarrow> fsx L p dev T s f L' R"
  unfolding fsx_def by (blast intro: exec_tail)

lemma fsx_panic_if: "\<not> b \<Longrightarrow> fsx L p dev T s g L' R \<Longrightarrow> fsx L p dev T s (thn (panic_if b m) g) L' R"
  unfolding fsx_def by (blast intro: exec_panic_if)

lemma fsx_when:
  "(b \<Longrightarrow> fsx L p dev T s (thn f g) L' R) \<Longrightarrow> (\<not> b \<Longrightarrow> fsx L p dev T s g L' R) \<Longrightarrow> fsx L p dev T s (thn (whenM b f) g) L' R"
  unfolding fsx_def by (cases b) (auto intro: exec_when)

text \<open>Statements in sequence, nested to the right.\<close>

lemma seq_assoc:
  "thn (thn f1 g1) h1 = thn f1 (thn g1 h1)" "thn (bnd f2 k2) h2 = bnd f2 (\<lambda>x. thn (k2 x) h2)"
  "bnd (thn f3 g3) k3 = thn f3 (bnd g3 k3)" "bnd (bnd f4 k4) l4 = bnd f4 (\<lambda>x. bnd (k4 x) l4)"
  "bnd (ret x5) k5 = k5 x5" "thn (ret x6) h6 = h6" "thn skip h7 = h7"
  by (simp_all add: fun_eq_iff run split: outcome.split)

section \<open>Blocks\<close>

lemma fsx_bread:
  assumes "t_held T bn = None" and "card (dom (t_held T)) \<le> t_room T"
    and "\<And>b. fsx L p dev (T\<lparr>t_held := (t_held T)(bn \<mapsto> b)\<rparr>) s (g b) L' R"
  shows "fsx L p dev T s (bnd (bread dev bn) g) L' R"
  unfolding fsx_def
proof (intro allI impI, rule exec_bread)
  fix D lg c
  assume i: "intxn dev T D (lg dev) c"
  show "c_held c (dev, bn) = None" using i assms(1) by (simp add: intxn_def)
  show "c_ref c (dev, bn) + 1 < 2 ^ 32" using intxn_ref [OF i, of bn] by simp
  show "has_room (dev, bn) c" by (rule intxn_room [OF i assms(2)])
  fix b
  have "intxn dev (T\<lparr>t_held := (t_held T)(bn \<mapsto> b)\<rparr>) D (lg dev) (sp_bread (dev, bn) b c)"
    using i assms(1) by (auto simp: intxn_def sp_bread_def)
  then show "exec L p (sp_bread (dev, bn) b c) (s\<lparr>logs := lg\<rparr>) (g b) L'
      (\<lambda>x c' t. \<exists>T' lg' s'. t = s'\<lparr>logs := lg'\<rparr> \<and> intxn dev T' D (lg' dev) c' \<and> R x T' s')"
    by (rule fsxD [OF assms(3)])
qed

lemma fsx_brelse:
  assumes "t_held T bn = Some b" and "bn \<notin> t_dirty T"
    and "fsx L p dev (T\<lparr>t_held := (t_held T)(bn := None)\<rparr>) s g L' R"
  shows "fsx L p dev T s (thn (brelse b) g) L' R"
  unfolding fsx_def
proof (intro allI impI, rule exec_brelse)
  fix D lg c
  assume i: "intxn dev T D (lg dev) c"
  show "c_held c (dev, bn) = Some b" using i assms(1) by (simp add: intxn_def)
  show "c_ref c (dev, bn) = 1 \<longrightarrow> c_content c (dev, bn) = c_disk c (dev, bn)"
    using i assms(1,2) by (auto simp: intxn_def split: if_splits)
  have "dom ((t_held T)(bn := None)) = dom (t_held T) - {bn}" by auto
  then have "intxn dev (T\<lparr>t_held := (t_held T)(bn := None)\<rparr>) D (lg dev) (sp_brelse (dev, bn) c)"
    using i assms(1) by (auto simp: intxn_def sp_brelse_def)
  then show "exec L p (sp_brelse (dev, bn) c) (s\<lparr>logs := lg\<rparr>) g L'
      (\<lambda>x c' t. \<exists>T' lg' s'. t = s'\<lparr>logs := lg'\<rparr> \<and> intxn dev T' D (lg' dev) c' \<and> R x T' s')"
    by (rule fsxD [OF assms(3)])
qed

lemma fsx_get_data:
  fixes s :: "'z lgst_scheme"
  assumes "t_held T bn = Some b" and "fsx L p dev T s (g (f (t_view T bn))) L' R"
  shows "fsx L p dev T s (bnd (get_buf b (\<lambda>x. f (b_data x))) g) L' R"
  unfolding fsx_def
proof (intro allI impI)
  fix D lg c
  assume i: "intxn dev T D (lg dev) c"
  then have h: "c_held c (dev, bn) = Some b" "c_content c (dev, bn) = t_view T bn"
    using assms(1) by (simp_all add: intxn_def)
  show "exec L p c (s\<lparr>logs := lg\<rparr>) (bnd (get_buf b (\<lambda>x. f (b_data x))) g) L'
      (\<lambda>x c' t. \<exists>T' lg' s'. t = s'\<lparr>logs := lg'\<rparr> \<and> intxn dev T' D (lg' dev) c' \<and> R x T' s')"
  proof (rule exec_get_buf [where v = "f (t_view T bn)"])
    fix s0 :: "'z lgst_scheme"
    assume "bready L p s0" "cabs s0 = c"
    then show "f (b_data (bufs s0 b)) = f (t_view T bn)"
      using held_cached(4) [of L p s0 "(dev, bn)" b] h by simp
  qed (rule fsxD [OF assms(2), where lg = lg, OF i])
qed

lemma fsx_upd_data:
  assumes "t_held T bn = Some b"
    and "fsx L p dev (T\<lparr>t_dirty := insert bn (t_dirty T), t_view := (t_view T)(bn := f (t_view T bn))\<rparr>) s g L' R"
  shows "fsx L p dev T s (thn (upd_data b f) g) L' R"
  unfolding fsx_def
proof (intro allI impI, rule exec_upd_data)
  fix D lg c
  assume i: "intxn dev T D (lg dev) c"
  show "c_held c (dev, bn) = Some b" using i assms(1) by (simp add: intxn_def)
  have "intxn dev (T\<lparr>t_dirty := insert bn (t_dirty T), t_view := (t_view T)(bn := f (t_view T bn))\<rparr>) D (lg dev)
      (sp_set (dev, bn) (f (c_content c (dev, bn))) c)"
    using i by (auto simp: intxn_def sp_set_def)
  then show "exec L p (sp_set (dev, bn) (f (c_content c (dev, bn))) c) (s\<lparr>logs := lg\<rparr>) g L'
      (\<lambda>x c' t. \<exists>T' lg' s'. t = s'\<lparr>logs := lg'\<rparr> \<and> intxn dev T' D (lg' dev) c' \<and> R x T' s')"
    by (rule fsxD [OF assms(2)])
qed

lemma absorbed_logged: "absorbed x (logged bn l) \<longleftrightarrow> absorbed x l \<or> (0 \<le> lh_n l \<and> x = bn) \<or> (x = bn \<and> absorbed bn l)"
  if "0 \<le> lh_n l"
proof -
  have len: "len (l\<lparr>lh_block := f, lh_n := lh_n l + 1\<rparr>) = Suc (len l)" for f
    using that by (simp add: len_def nat_add_distrib)
  show ?thesis
    using that by (auto simp: logged_def absorbed_def len lessThan_Suc image_iff)
qed

lemma logged_simps: "0 \<le> lh_n l \<Longrightarrow> lh_n (logged bn l) \<le> lh_n l + 1" "0 \<le> lh_n l \<Longrightarrow> 0 \<le> lh_n (logged bn l)"
  "lg_size (logged bn l) = lg_size l" "lg_outstanding (logged bn l) = lg_outstanding l"
  by (auto simp: logged_def)

text \<open>Logging a block takes room unless it has been logged before.\<close>

definition can_log :: "u32 \<Rightarrow> txn \<Rightarrow> bool" where
  "can_log bn T \<longleftrightarrow> bn \<in> t_logged T \<or> 0 < t_room T"

definition logT :: "u32 \<Rightarrow> txn \<Rightarrow> txn" where
  "logT bn T = T\<lparr>t_room := (if bn \<in> t_logged T then t_room T else t_room T - 1), t_dirty := t_dirty T - {bn},
     t_logged := insert bn (t_logged T)\<rparr>"

lemma intxn_logT:
  assumes "intxn dev T D l c" and "t_held T bn = Some b" and "can_log bn T"
  shows "intxn dev (logT bn T) D (logged bn l) (if absorbed bn l then c else sp_bpin (dev, bn) c)"
proof (cases "bn \<in> t_logged T")
  case True
  then have a: "absorbed bn l" using assms(1) by (auto simp: intxn_def)
  then have "logged bn l = l" by (simp add: logged_def)
  then show ?thesis using assms(1) True a by (auto simp: intxn_def logT_def)
next
  case False
  then obtain n where n: "t_room T = Suc n" using assms(3) by (auto simp: can_log_def gr0_conv_Suc)
  have z: "0 \<le> lh_n l" using assms(1) by (simp add: intxn_def)
  show ?thesis
    using assms(1,2) n False logged_simps(1,2) [OF z, of bn]
    by (auto simp: intxn_def logT_def absorbed_logged [OF z] sp_bpin_def logged_simps(3,4))
qed

lemma fsx_log_write:
  fixes s :: "'z lgst_scheme"
  assumes "t_held T bn = Some b" and n: "can_log bn T" and L: "LogLk dev \<notin> L"
    and "fsx L p dev (logT bn T) s g L' R"
  shows "fsx L p dev T s (thn (log_write b) g) L' R"
  unfolding fsx_def
proof (intro allI impI)
  fix D lg c
  assume i: "intxn dev T D (lg dev) c"
  let ?l = "lg dev" and ?c = "if absorbed bn (lg dev) then c else sp_bpin (dev, bn) c" and ?lg = "upd lg dev (logged bn)"
  have h: "c_held c (dev, bn) = Some b" using i assms(1) by (simp add: intxn_def)
  have out: "1 \<le> lg_outstanding ?l" using i n by (auto simp: intxn_def can_log_def)
  have "exec L p c (s\<lparr>logs := lg\<rparr>) (log_write b) L (\<lambda>_ c' s'. c' = ?c \<and> s' = s\<lparr>logs := lg\<rparr>\<lparr>logs := upd (logs (s\<lparr>logs := lg\<rparr>)) dev (logged bn)\<rparr>)"
    using i out intxn_ref [OF i, of bn] by (intro exec_log_write [OF h _ _ _ _ _ L]) (simp_all add: intxn_def param_defs)
  note run = this
  have "intxn dev (logT bn T) D (?lg dev) ?c" using intxn_logT [OF i assms(1) n] by simp
  note rest = fsxD [OF assms(4), where lg = ?lg, OF this]
  show "exec L p c (s\<lparr>logs := lg\<rparr>) (thn (log_write b) g) L'
      (\<lambda>x c' t. \<exists>T' lg' s'. t = s'\<lparr>logs := lg'\<rparr> \<and> intxn dev T' D (lg' dev) c' \<and> R x T' s')"
    by (rule exec_thn [OF run], elim conjE, hypsubst) (use rest in simp)
qed

end
