(* ===== verification/Alloc.thy ===== *)
theory Alloc
  imports Layout Txn
begin

text \<open>
  The block allocator (\<^verbatim>\<open>balloc()\<close>, \<^verbatim>\<open>bfree()\<close>, \<^verbatim>\<open>bzero()\<close>) as operations
  on a set of used blocks, and the rules for the fields of the file system in a transaction.
\<close>

section \<open>Fields of the file system\<close>

lemma more_sb: "bio.more t = bio.more s \<Longrightarrow> sb t = sb s"
  by (cases s; cases t) simp

lemma more_sb_upd: "bio.more t = bio.more s \<Longrightarrow> bio.more (t\<lparr>sb := f\<rparr>) = bio.more (s\<lparr>sb := f\<rparr>)"
  by (cases s; cases t) simp

lemma frame_sb [simp]:
  "calm s (t\<lparr>sb := f\<rparr>) = calm s t" "calm (s\<lparr>sb := f\<rparr>) t = calm s t"
  "settled L (s\<lparr>sb := f\<rparr>) = settled L s" "curproc (s\<lparr>sb := f\<rparr>) = curproc s"
  "sb (acq l s) = sb s" "(acq l s)\<lparr>sb := f\<rparr> = acq l (s\<lparr>sb := f\<rparr>)"
  "cabs (s\<lparr>sb := f\<rparr>) = cabs s" "bready L p (s\<lparr>sb := f\<rparr>) = bready L p s"
  by (simp_all add: calm_def hw_bal_def depth_def curproc_def irq_on_def settled_def irq_wf_def
      lk_clean_def acq_def cabs_def bready_def bc_inv_def)

lemma same_sb [sames]:
  "bio_same s t \<Longrightarrow> sb t = sb s" "bio_same s t \<Longrightarrow> bio_same (s\<lparr>sb := f\<rparr>) (t\<lparr>sb := f\<rparr>)"
  unfolding bio_same_def using more_sb more_sb_upd by auto

lemma more_icache: "bio.more t = bio.more s \<Longrightarrow> icache t = icache s"
  by (cases s; cases t) simp

lemma more_icache_upd: "bio.more t = bio.more s \<Longrightarrow> bio.more (t\<lparr>icache := f\<rparr>) = bio.more (s\<lparr>icache := f\<rparr>)"
  by (cases s; cases t) simp

lemma frame_icache [simp]:
  "calm s (t\<lparr>icache := f\<rparr>) = calm s t" "calm (s\<lparr>icache := f\<rparr>) t = calm s t"
  "settled L (s\<lparr>icache := f\<rparr>) = settled L s" "curproc (s\<lparr>icache := f\<rparr>) = curproc s"
  "icache (acq l s) = icache s" "(acq l s)\<lparr>icache := f\<rparr> = acq l (s\<lparr>icache := f\<rparr>)"
  "cabs (s\<lparr>icache := f\<rparr>) = cabs s" "bready L p (s\<lparr>icache := f\<rparr>) = bready L p s"
  by (simp_all add: calm_def hw_bal_def depth_def curproc_def irq_on_def settled_def irq_wf_def
      lk_clean_def acq_def cabs_def bready_def bc_inv_def)

lemma same_icache [sames]:
  "bio_same s t \<Longrightarrow> icache t = icache s" "bio_same s t \<Longrightarrow> bio_same (s\<lparr>icache := f\<rparr>) (t\<lparr>icache := f\<rparr>)"
  unfolding bio_same_def using more_icache more_icache_upd by auto


lemma fsx_gets:
  assumes "\<And>lg. f (s\<lparr>logs := lg\<rparr>) = f s" and "\<And>s t. bio_same s t \<Longrightarrow> f t = f s" and "fsx L p dev T s (g (f s)) L' R"
  shows "fsx L p dev T s (bnd (gets f) g) L' R"
  unfolding fsx_def
proof (intro allI impI)
  fix D lg c
  assume i: "intxn dev T D (lg dev) c"
  show "exec L p c (s\<lparr>logs := lg\<rparr>) (bnd (gets f) g) L'
      (\<lambda>x c' t. \<exists>T' lg' s'. t = s'\<lparr>logs := lg'\<rparr> \<and> intxn dev T' D (lg' dev) c' \<and> R x T' s')"
    by (rule exec_gets, erule assms(2), unfold assms(1), rule fsxD [OF assms(3), where lg = lg, OF i])
qed

lemma fsx_modify:
  assumes "\<And>lg. f (s\<lparr>logs := lg\<rparr>) = (f s)\<lparr>logs := lg\<rparr>" and "\<And>s t. bio_same s t \<Longrightarrow> bio_same (f s) (f t)"
    and "\<And>t. bready L p (f t) = bready L p t" and "\<And>t. cabs (f t) = cabs t" and "fsx L p dev T (f s) g L' R"
  shows "fsx L p dev T s (thn (modify f) g) L' R"
  unfolding fsx_def
proof (intro allI impI)
  fix D lg c
  assume i: "intxn dev T D (lg dev) c"
  show "exec L p c (s\<lparr>logs := lg\<rparr>) (thn (modify f) g) L'
      (\<lambda>x c' t. \<exists>T' lg' s'. t = s'\<lparr>logs := lg'\<rparr> \<and> intxn dev T' D (lg' dev) c' \<and> R x T' s')"
    by (rule exec_modify, erule assms(2), rule assms(3), rule assms(4), unfold assms(1),
        rule fsxD [OF assms(5), where lg = lg, OF i])
qed

lemma fsx_sb: "fsx L p dev T s (g (sb s)) L' R \<Longrightarrow> fsx L p dev T s (bnd (gets sb) g) L' R"
  by (rule fsx_gets) (simp_all add: sames)

lemma fsx_sb_size: "fsx L p dev T s (g (unat (sb_size (sb s)))) L' R \<Longrightarrow> fsx L p dev T s (bnd (gets (\<lambda>s. unat (sb_size (sb s)))) g) L' R"
  by (rule fsx_gets) (simp_all add: sames)

lemma fsx_get_inode: "fsx L p dev T s (g (f (icache s ip))) L' R \<Longrightarrow> fsx L p dev T s (bnd (get_inode ip f) g) L' R"
  unfolding get_inode_def by (rule fsx_gets) (simp_all add: sames)

lemma fsx_upd_inode:
  "fsx L p dev T (s\<lparr>icache := upd (icache s) ip f\<rparr>) g L' R \<Longrightarrow> fsx L p dev T s (thn (upd_inode ip f) g) L' R"
  unfolding upd_inode_def by (rule fsx_modify) (simp_all add: sames)

section \<open>Loops and results\<close>

lemma fsx_for_ret:
  assumes "\<And>x. x \<in> set xs \<Longrightarrow> fsx L p dev T s (body x) L (\<lambda>r T' s'.
      case r of None \<Rightarrow> N x \<and> T' = T \<and> s' = s | Some y \<Rightarrow> Q x y T' s')"
  shows "fsx L p dev T s (for_ret xs body) L (\<lambda>r T' s'.
      case r of None \<Rightarrow> (\<forall>x\<in>set xs. N x) \<and> T' = T \<and> s' = s
      | Some y \<Rightarrow> \<exists>ys x zs. xs = ys @ x # zs \<and> (\<forall>z\<in>set ys. N z) \<and> Q x y T' s')"
  using assms
proof (induction xs)
  case Nil
  then show ?case by (simp add: fsx_ret)
next
  case (Cons x xs)
  show ?case
    unfolding for_ret.simps
  proof (rule fsx_bnd [OF Cons.prems [of x]])
    fix r T' s'
    assume r: "case r of None \<Rightarrow> N x \<and> T' = T \<and> s' = s | Some y \<Rightarrow> Q x y T' s'"
    let ?R = "\<lambda>r T' s'. case r of None \<Rightarrow> (\<forall>x\<in>set (x # xs). N x) \<and> T' = T \<and> s' = s
      | Some y \<Rightarrow> \<exists>ys x' zs. x # xs = ys @ x' # zs \<and> (\<forall>z\<in>set ys. N z) \<and> Q x' y T' s'"
    show "fsx L p dev T' s' (case r of None \<Rightarrow> for_ret xs body | Some a \<Rightarrow> ret (Some a)) L ?R"
    proof (cases r)
      case None
      then have n: "N x" "T' = T" "s' = s" using r by simp_all
      have step: "\<exists>ys' x' zs'. x # ys @ y # zs = ys' @ x' # zs' \<and> (\<forall>z\<in>set ys'. N z) \<and> Q x' a U u"
        if "\<forall>z\<in>set ys. N z" "Q y a U u" for ys y zs a U u
        by (rule exI [of _ "x # ys"], rule exI [of _ y], rule exI [of _ zs]) (use that n in simp)
      show ?thesis
        unfolding None option.case n
        by (rule fsx_mono [OF Cons.IH]) (use Cons.prems n step in \<open>auto split: option.splits\<close>)
    next
      case (Some a)
      then have q: "Q x a T' s'" using r by simp
      show ?thesis
        unfolding Some option.case
        by (rule fsx_ret, unfold option.case, rule exI [of _ "[]"], rule exI [of _ x], rule exI [of _ xs]) (use q in simp)
    qed
  qed simp
qed

text \<open>What an execution says of a run from a state in a transaction.\<close>

lemma fsx_run:
  assumes "fsx L p dev T s f L' R" and "bready L p s" and "intxn dev T D (logs s dev) (cabs s)"
  obtains x t T' s' where "f s = Done x t" and "bready L' p t" and "bio_same (s'\<lparr>logs := logs t\<rparr>) t"
    and "intxn dev T' D (logs t dev) (cabs t)" and "R x T' s'"
proof -
  have "s\<lparr>logs := logs s\<rparr> = s" by simp
  with fsxD [OF assms(1), where lg = "logs s", OF assms(3)]
  have "exec L p (cabs s) s f L' (\<lambda>x c' t. \<exists>T' lg' s'. t = s'\<lparr>logs := lg'\<rparr> \<and> intxn dev T' D (lg' dev) c' \<and> R x T' s')"
    by simp
  from execD [OF this assms(2)] obtain x t T' lg' s' where t: "f s = Done x t" "bready L' p t"
    "bio_same (s'\<lparr>logs := lg'\<rparr>) t" "intxn dev T' D (lg' dev) (cabs t)" "R x T' s'"
    by (auto simp: wp_iff)
  then have "logs t = lg'" using same_logs(1) by fastforce
  with t show thesis by (intro that) auto
qed

section \<open>Changing a block\<close>

lemma fsx_eqT: "fsx L p dev T' s f L' R \<Longrightarrow> T = T' \<Longrightarrow> fsx L p dev T s f L' R"
  by simp

text \<open>A locked block is changed, logged and released.\<close>

definition edit :: "u32 \<Rightarrow> (block \<Rightarrow> block) \<Rightarrow> txn \<Rightarrow> txn" where
  "edit bn f T = T\<lparr>t_room := (if bn \<in> t_logged T then t_room T else t_room T - 1), t_logged := insert bn (t_logged T),
     t_view := (t_view T)(bn := f (t_view T bn))\<rparr>"

lemma edit_simps [simp]:
  "t_held (edit bn f T) = t_held T" "t_dirty (edit bn f T) = t_dirty T" "t_logged (edit bn f T) = insert bn (t_logged T)"
  "t_view (edit bn f T) = (t_view T)(bn := f (t_view T bn))"
  "t_room (edit bn f T) = (if bn \<in> t_logged T then t_room T else t_room T - 1)"
  by (simp_all add: edit_def)

lemma fsx_log_edit:
  assumes "t_held T bn = Some b" and "can_log bn T" and "LogLk dev \<notin> L" and "bn \<notin> t_dirty T"
    and "fsx L p dev (edit bn f (T\<lparr>t_held := (t_held T)(bn := None)\<rparr>)) s g L' R"
  shows "fsx L p dev T s (thn (upd_data b f) (thn (log_write b) (thn (brelse b) g))) L' R"
proof -
  have d: "insert bn (t_dirty T) - {bn} = t_dirty T" using assms(4) by auto
  show ?thesis
    apply (rule fsx_upd_data [OF assms(1)], rule fsx_log_write [where bn = bn], (use assms in \<open>simp_all add: can_log_def\<close>)[3])
    apply (rule fsx_brelse [where bn = bn], (use assms in \<open>simp_all add: logT_def\<close>)[2], rule fsx_eqT [OF assms(5)])
    by (cases T) (use d in \<open>simp add: logT_def edit_def\<close>)
qed

lemma held_release: "t_held T bn = None \<Longrightarrow> (t_held T)(bn := None) = t_held T"
  by (simp add: fun_upd_idem)

lemma take_release:
  "t_held T bn = None \<Longrightarrow>
     T\<lparr>t_held := (t_held T)(bn \<mapsto> c), t_held := (t_held (T\<lparr>t_held := (t_held T)(bn \<mapsto> c)\<rparr>))(bn := None)\<rparr> = T"
  by (simp add: held_release)

lemma fsx_edit:
  assumes "t_held T bn = None" and "can_log bn T" and "card (dom (t_held T)) \<le> t_room T" and "LogLk dev \<notin> L"
    and "bn \<notin> t_dirty T"
    and "fsx L p dev (edit bn f T) s g L' R"
  shows "fsx L p dev T s (bnd (bread dev bn) (\<lambda>b. thn (upd_data b f) (thn (log_write b) (thn (brelse b) g)))) L' R"
  using assms
  by (intro fsx_bread fsx_log_edit [where bn = bn]) (simp_all add: held_release can_log_def)

lemma fsx_bzero:
  assumes "t_held T bn = None" and "can_log bn T" and "card (dom (t_held T)) \<le> t_room T" and "LogLk dev \<notin> L"
    and "bn \<notin> t_dirty T"
    and "fsx L p dev (edit bn (clear_bytes 0 BSIZE) T) s g L' R"
  shows "fsx L p dev T s (thn (bzero dev bn) g) L' R"
proof -
  show ?thesis
    unfolding bzero_def seq_assoc by (rule fsx_edit [OF assms(1-5), where f = "clear_bytes 0 BSIZE", OF assms(6)])
qed

section \<open>The bitmap as a set\<close>

text \<open>A number behind the end of the file system is not free.\<close>

definition used :: "superblock \<Rightarrow> (u32 \<Rightarrow> block) \<Rightarrow> u32 \<Rightarrow> bool" where
  "used S v b \<longleftrightarrow> sb_size S \<le> b \<or> bit_used (v (BBLOCK b S)) (unat b mod BPB)"

lemma used_in: "b < sb_size S \<Longrightarrow> used S v b = bit_used (v (BBLOCK b S)) (unat b mod BPB)"
  by (auto simp: used_def dest: leD)

text \<open>The bitmap's own blocks are marked as used.\<close>

definition bitmap_block :: "superblock \<Rightarrow> u32 \<Rightarrow> bool" where
  "bitmap_block S b \<longleftrightarrow> (\<exists>a < sb_size S. b = BBLOCK a S)"

lemma bitmap_blockI: "a < sb_size S \<Longrightarrow> bitmap_block S (BBLOCK a S)"
  by (auto simp: bitmap_block_def)

definition bitmap_wf :: "superblock \<Rightarrow> (u32 \<Rightarrow> block) \<Rightarrow> bool" where
  "bitmap_wf S v \<longleftrightarrow> (\<forall>b. bitmap_block S b \<longrightarrow> used S v b)"

text \<open>The blocks after allocating \<open>b\<close> and after freeing it.\<close>

definition after_balloc :: "superblock \<Rightarrow> u32 \<Rightarrow> (u32 \<Rightarrow> block) \<Rightarrow> u32 \<Rightarrow> block" where
  "after_balloc S b v = (let v = v(BBLOCK b S := set_used (unat b mod BPB) (v (BBLOCK b S))) in v(b := clear_bytes 0 BSIZE (v b)))"

text \<open>The transaction after it.\<close>

definition ballocT :: "superblock \<Rightarrow> u32 \<Rightarrow> txn \<Rightarrow> txn" where
  "ballocT S b T = edit b (clear_bytes 0 BSIZE) (edit (BBLOCK b S) (set_used (unat b mod BPB)) T)"

lemma ballocT_simps [simp]:
  "t_held (ballocT S b T) = t_held T" "t_dirty (ballocT S b T) = t_dirty T"
  "t_view (ballocT S b T) = after_balloc S b (t_view T)"
  "t_logged (ballocT S b T) = insert b (insert (BBLOCK b S) (t_logged T))"
  by (simp_all add: ballocT_def after_balloc_def Let_def)

definition after_bfree :: "superblock \<Rightarrow> u32 \<Rightarrow> (u32 \<Rightarrow> block) \<Rightarrow> u32 \<Rightarrow> block" where
  "after_bfree S b v = v(BBLOCK b S := set_free (unat b mod BPB) (v (BBLOCK b S)))"

lemma BBLOCK_inj: "BBLOCK a S = BBLOCK b S \<Longrightarrow> unat a mod BPB = unat b mod BPB \<Longrightarrow> a = b"
proof -
  assume "BBLOCK a S = BBLOCK b S" "unat a mod BPB = unat b mod BPB"
  then have "a div 8192 = b div 8192" and m: "unat a mod 8192 = unat b mod 8192"
    by (simp_all add: BBLOCK_def BPB_def BSIZE_def)
  then have "unat (a div 8192) = unat (b div 8192)" by simp
  then have "unat a div 8192 = unat b div 8192" by (simp add: unat_div)
  with m show "a = b" by (metis div_mult_mod_eq word_unat_eq_iff)
qed

text \<open>A small file system has one block of bitmap.\<close>

lemma BBLOCK_one: "unat b < BPB \<Longrightarrow> BBLOCK b S = sb_bmapstart S"
  by (simp add: BBLOCK_def BPB_def BSIZE_def word_unat_eq_iff [where v = "b div 8192"] word_eq_iff_unsigned unat_div div_less)

definition alloc_ready :: "superblock \<Rightarrow> txn \<Rightarrow> bool" where
  "alloc_ready S T \<longleftrightarrow> bitmap_wf S (t_view T) \<and> (\<forall>b. bitmap_block S b \<longrightarrow> t_held T b = None \<and> b \<notin> t_dirty T)
     \<and> (\<forall>b. t_held T b \<noteq> None \<or> b \<in> t_dirty T \<longrightarrow> used S (t_view T) b)"

lemma bfree_index: "unat ((b :: u32) mod of_nat BPB) = unat b mod BPB"
  by (simp add: BPB_def BSIZE_def unat_mod)

text \<open>What logging a block of the bitmap costs: nothing once all of them are logged.\<close>

definition bm_cost :: "superblock \<Rightarrow> txn \<Rightarrow> nat" where
  "bm_cost S T = (if \<forall>b. b < sb_size S \<longrightarrow> BBLOCK b S \<in> t_logged T then 0 else 1)"

lemma bm_cost_room:
  assumes "bm_cost S T < t_room T" and "card (dom (t_held T)) + bm_cost S T \<le> t_room T" and "b < sb_size S"
  shows "can_log (BBLOCK b S) T" and "0 < t_room (edit (BBLOCK b S) f T)"
    and "card (dom (t_held T)) \<le> t_room (edit (BBLOCK b S) f T)"
  using assms by (auto simp: bm_cost_def can_log_def split: if_splits)

lemma fsx_bfree:
  assumes "t_held T (BBLOCK b (sb s)) = None" and "can_log (BBLOCK b (sb s)) T" and "card (dom (t_held T)) \<le> t_room T" and "LogLk dev \<notin> L"
    and "BBLOCK b (sb s) \<notin> t_dirty T" and "b < sb_size (sb s)" "used (sb s) (t_view T) b"
    and "fsx L p dev (edit (BBLOCK b (sb s)) (set_free (unat b mod BPB)) T) s g L' R"
  shows "fsx L p dev T s (thn (bfree dev b) g) L' R"
proof -
  let ?B = "BBLOCK b (sb s)"
  have "t_view T ?B = v \<Longrightarrow> bit_used v (unat b mod BPB)" for v using assms(6,7) by (auto simp: used_in)
  note u = this
  show ?thesis
    unfolding bfree_def Let_def bfree_index seq_assoc
    apply (rule fsx_sb, rule fsx_bread [OF assms(1)], (use assms in simp)[1])
    apply (rule fsx_get_data [where bn = ?B], simp, rule fsx_panic_if, (simp add: u)[1])
    apply (rule fsx_log_edit [where bn = ?B], (use assms in \<open>simp_all add: can_log_def\<close>)[4])
    using assms(8) by (simp add: held_release [OF assms(1)])
qed

lemma for_ret_get_buf:
  "for_ret xs (\<lambda>i. get_buf b (\<lambda>x. if P (b_data x) i then Some i else None)) = get_buf b (\<lambda>x. List.find (P (b_data x)) xs)"
  unfolding get_buf_def by (rule for_ret_find)

text \<open>The blocks that one block of the bitmap describes.\<close>

lemma bitmap_index:
  assumes "b0 = i * BPB" and "bi < BPB" and "b0 + bi < 2 ^ 32"
  shows "BBLOCK (of_nat (b0 + bi)) S = BBLOCK (of_nat b0) S" and "unat (of_nat (b0 + bi) :: u32) mod BPB = bi"
proof -
  have u: "unat (of_nat (b0 + bi) :: u32) = b0 + bi" "unat (of_nat b0 :: u32) = b0"
    using assms(3) by (simp_all add: unat_of_nat take_bit_nat_eq_self del: of_nat_add)
  have "(b0 + bi) div 8192 = b0 div 8192" using assms by (simp add: BPB_def BSIZE_def)
  then have "unat (of_nat (b0 + bi) div 8192 :: u32) = unat (of_nat b0 div 8192 :: u32)"
    unfolding unat_div u by simp
  then have "(of_nat (b0 + bi) :: u32) div 8192 = of_nat b0 div 8192" by (simp only: word_unat_eq_iff)
  then show "BBLOCK (of_nat (b0 + bi)) S = BBLOCK (of_nat b0) S" by (simp only: BBLOCK_def BPB_def BSIZE_def) simp
  show "unat (of_nat (b0 + bi) :: u32) mod BPB = bi" unfolding u using assms by simp
qed

lemma find_upt_Some: "List.find P [0..<m] = Some i \<Longrightarrow> i < m \<and> P i \<and> (\<forall>j<i. \<not> P j)"
  by (auto simp: find_Some_iff)

lemma find_upt_None: "List.find P [0..<m] = None \<Longrightarrow> i < m \<Longrightarrow> \<not> P i"
  by (auto simp: find_None_iff)

lemma fsx_balloc_block:
  assumes ready: "alloc_ready (sb s) T" and L: "LogLk dev \<notin> L"
    and n: "bm_cost (sb s) T < t_room T" "card (dom (t_held T)) + bm_cost (sb s) T \<le> t_room T"
    and b0: "b0 = i * BPB" "b0 < unat (sb_size (sb s))"
  defines "m \<equiv> min BPB (unat (sb_size (sb s)) - b0)" and "S \<equiv> sb s"
  shows "fsx L p dev T s (balloc_block dev b0) L (\<lambda>r T' s'. case r of
      None \<Rightarrow> (\<forall>bi<m. used S (t_view T) (of_nat (b0 + bi))) \<and> T' = T \<and> s' = s
    | Some b \<Rightarrow> \<exists>bi<m. b = of_nat (b0 + bi) \<and> (\<forall>bj<bi. used S (t_view T) (of_nat (b0 + bj))) \<and> \<not> used S (t_view T) b \<and>
        T' = ballocT S b T \<and> s' = s)"
proof -
  let ?B = "BBLOCK (of_nat b0) (sb s)"
  have "unat (of_nat b0 :: u32) = b0" by (rule unat_of_nat_u32, rule order_less_trans [OF b0(2)], rule order_less_le_trans [OF unsigned_less]) simp
  then have B: "bitmap_block S ?B" using b0(2) unfolding S_def by (intro bitmap_blockI) (simp add: word_less_nat_alt)
  have h: "t_held T ?B = None" "?B \<notin> t_dirty T" using ready B by (auto simp: alloc_ready_def S_def)
  have small: "b0 + bi < 2 ^ 32" if "bi < m" for bi
  proof -
    have "b0 + bi < unat (sb_size (sb s))" using that b0(2) by (simp add: m_def less_diff_conv add.commute)
    also have "\<dots> < 2 ^ 32" by (rule order_less_le_trans [OF unsigned_less]) simp
    finally show ?thesis .
  qed
  have ix: "BBLOCK (of_nat (b0 + bi)) S = ?B" "unat (of_nat (b0 + bi) :: u32) mod BPB = bi" if "bi < m" for bi
    using that bitmap_index [OF b0(1) _ small [OF that]] by (simp_all add: S_def m_def)
  have lt: "of_nat (b0 + bi) < sb_size (sb s)" if "bi < m" for bi
    using that small [OF that] b0(2) by (simp add: word_less_nat_alt unat_of_nat_u32 m_def less_diff_conv add.commute del: of_nat_add)
  have bit: "used S (t_view T) (of_nat (b0 + bi)) = bit_used (t_view T ?B) bi" if "bi < m" for bi
    unfolding used_in [OF lt [OF that, folded S_def]] ix [OF that] ..
  let ?R = "\<lambda>r T' s'. case r of
      None \<Rightarrow> (\<forall>bi<m. used S (t_view T) (of_nat (b0 + bi))) \<and> T' = T \<and> s' = s
    | Some b \<Rightarrow> \<exists>bi<m. b = of_nat (b0 + bi) \<and> (\<forall>bj<bi. used S (t_view T) (of_nat (b0 + bj))) \<and> \<not> used S (t_view T) b \<and>
        T' = ballocT S b T \<and> s' = s"
  have none: "fsx L p dev (T\<lparr>t_held := (t_held T)(?B \<mapsto> c)\<rparr>) s (thn (brelse c) (ret None)) L ?R"
    if f: "List.find (\<lambda>bi. \<not> bit_used (t_view T ?B) bi) [0..<m] = None" for c
    using h find_upt_None [OF f] bit held_release [OF h(1)]
    by (intro fsx_brelse [where bn = ?B] fsx_ret) (simp_all del: of_nat_add)
  have some: "fsx L p dev (T\<lparr>t_held := (t_held T)(?B \<mapsto> c)\<rparr>) s (thn (upd_data c (set_used bi)) (thn (log_write c) (thn (brelse c)
      (thn (bzero dev (of_nat (b0 + bi))) (ret (Some (of_nat (b0 + bi)))))))) L ?R"
    if f: "List.find (\<lambda>bi. \<not> bit_used (t_view T ?B) bi) [0..<m] = Some bi" for c bi
  proof -
    have bi: "bi < m" "\<not> bit_used (t_view T ?B) bi" "\<And>bj. bj < bi \<Longrightarrow> bit_used (t_view T ?B) bj"
      using find_upt_Some [OF f] by auto
    let ?b = "of_nat (b0 + bi) :: u32"
    have free: "\<not> used S (t_view T) ?b" using bit [OF bi(1)] bi(2) by blast
    have b: "t_held T ?b = None" "?b \<notin> t_dirty T" "?b \<noteq> ?B"
      using free ready B unfolding alloc_ready_def bitmap_wf_def S_def by (blast, blast, metis)
    note room = bm_cost_room [OF n lt [OF bi(1)], folded S_def, unfolded ix(1) [OF bi(1)]]
    have below: "used S (t_view T) (of_nat (b0 + bj))" if "bj < bi" for bj
      using bit [of bj] bi(1,3) that by simp
    show ?thesis
      apply (rule fsx_log_edit [where bn = ?B], (use room(1) L h in \<open>simp_all add: can_log_def\<close>)[4])
      unfolding take_release [OF h(1)]
      apply (rule fsx_bzero, (use b room(2,3) L h in \<open>simp_all add: can_log_def del: of_nat_add\<close>)[5])
      apply (rule fsx_ret, unfold option.case, rule exI [of _ bi])
      using bi(1) below free b ix [OF bi(1)]
      by (simp add: ballocT_def del: of_nat_add)
  qed
  show ?thesis
    unfolding balloc_block_def for_ret_get_buf [where P = "\<lambda>d bi. \<not> bit_used d bi"]
    apply (rule fsx_sb, rule fsx_bread [OF h(1)], (use n in simp)[1], rule fsx_get_data [where bn = ?B], simp)
    unfolding m_def [symmetric] using none some by (auto simp del: of_nat_add split: option.split)
qed

text \<open>\<^verbatim>\<open>balloc()\<close> takes the lowest free block.\<close>

lemma fsx_balloc:
  assumes ready: "alloc_ready (sb s) T" and L: "LogLk dev \<notin> L"
    and n: "bm_cost (sb s) T < t_room T" "card (dom (t_held T)) + bm_cost (sb s) T \<le> t_room T"
    and free: "f < sb_size (sb s)" "\<not> used (sb s) (t_view T) f"
    and rest: "\<And>b. b < sb_size (sb s) \<Longrightarrow> \<not> used (sb s) (t_view T) b \<Longrightarrow> (\<And>a. a < b \<Longrightarrow> used (sb s) (t_view T) a) \<Longrightarrow>
      fsx L p dev (ballocT (sb s) b T) s (g b) L' R"
  shows "fsx L p dev T s (bnd (balloc dev) g) L' R"
proof -
  define S where "S = sb s"
  define sz where "sz = unat (sb_size S)"
  let ?m = "\<lambda>b0. min BPB (sz - b0)" and ?v = "t_view T"
  let ?xs = "map (\<lambda>i. i * BPB) [0..<(sz + BPB - 1) div BPB]"
  let ?N = "\<lambda>b0. \<forall>bi<?m b0. used S ?v (of_nat (b0 + bi))"
  let ?Q = "\<lambda>b0 b T' s'. \<exists>bi<?m b0. b = of_nat (b0 + bi) \<and> (\<forall>bj<bi. used S ?v (of_nat (b0 + bj))) \<and> \<not> used S ?v b \<and>
    T' = ballocT S b T \<and> s' = s"
  have bpb: "BPB = 8192" by (simp add: BPB_def BSIZE_def)
  have x: "\<exists>i. b0 = i * BPB \<and> b0 < sz" if "b0 \<in> set ?xs" for b0
    using that by (auto simp: bpb)
  have xs: "i * BPB \<in> set ?xs" if "i * BPB < sz" for i
    using that by (auto simp: bpb)
  have word: "of_nat (unat a div BPB * BPB + unat a mod BPB) = a" for a :: u32 by simp
  have in_block: "unat a mod BPB < ?m (unat a div BPB * BPB)" if "unat a < sz" for a :: u32
    using that by (simp add: bpb) (metis div_mult_mod_eq less_diff_conv mod_less_divisor add.commute zero_less_numeral)
  have below: "used S ?v a" if ys: "\<forall>z\<in>set ys. ?N z" "?xs = ys @ b0 # zs" and a: "unat a < b0" for a ys b0 zs
  proof -
    have len: "length ys < length ?xs" using arg_cong [OF ys(2), of length] by simp
    moreover have "?xs ! length ys = b0" unfolding ys(2) by simp
    ultimately have b0: "b0 = length ys * BPB" by simp
    then have q: "unat a div BPB < length ys" using a by (simp add: div_less_iff_less_mult bpb)
    then have "unat a div BPB * BPB = ?xs ! (unat a div BPB)" using len by simp
    also have "\<dots> = ys ! (unat a div BPB)" unfolding ys(2) using q by (simp add: nth_append)
    finally have "unat a div BPB * BPB \<in> set ys" using q by (metis nth_mem)
    moreover have "unat a < sz" using a x [of b0] unfolding ys(2) by auto
    ultimately show ?thesis using ys(1) in_block word by metis
  qed
  have "fsx L p dev T s (for_ret ?xs (balloc_block dev)) L (\<lambda>r T' s'.
      case r of None \<Rightarrow> (\<forall>x\<in>set ?xs. ?N x) \<and> T' = T \<and> s' = s
      | Some b \<Rightarrow> \<exists>ys x zs. ?xs = ys @ x # zs \<and> (\<forall>z\<in>set ys. ?N z) \<and> ?Q x b T' s')"
  proof (rule fsx_for_ret)
    fix b0
    assume "b0 \<in> set ?xs"
    then obtain i where "b0 = i * BPB" "b0 < unat (sb_size (sb s))" using x unfolding sz_def S_def by blast
    from fsx_balloc_block [OF ready L n this] show "fsx L p dev T s (balloc_block dev b0) L (\<lambda>r T' s'.
        case r of None \<Rightarrow> ?N b0 \<and> T' = T \<and> s' = s | Some y \<Rightarrow> ?Q b0 y T' s')"
      unfolding S_def sz_def .
  qed
  note scan = this
  show ?thesis
    unfolding balloc_def seq_assoc
    apply (rule fsx_sb_size) unfolding S_def [symmetric] sz_def [symmetric]
  proof (rule fsx_bnd [OF scan])
    fix r T' s'
    assume r: "case r of None \<Rightarrow> (\<forall>x\<in>set ?xs. ?N x) \<and> T' = T \<and> s' = s
      | Some b \<Rightarrow> \<exists>ys x zs. ?xs = ys @ x # zs \<and> (\<forall>z\<in>set ys. ?N z) \<and> ?Q x b T' s'"
    show "fsx L p dev T' s' (bnd (case r of None \<Rightarrow> panic ''balloc: out of blocks'' | Some b \<Rightarrow> ret b) g) L' R"
    proof (cases r)
      case None
      have f: "unat f < sz" using free(1) by (simp add: sz_def S_def word_less_nat_alt)
      then have "unat f div BPB * BPB \<in> set ?xs" by (intro xs) (simp add: bpb order_le_less_trans [OF div_times_less_eq_dividend])
      moreover have "\<forall>x\<in>set ?xs. ?N x" using r None by simp
      ultimately have "used S ?v f" using in_block [OF f] word by metis
      then show ?thesis using free(2) by (simp add: S_def)
    next
      case (Some b)
      then obtain ys b0 zs bi where b: "?xs = ys @ b0 # zs" "\<forall>z\<in>set ys. ?N z" "bi < ?m b0" "b = of_nat (b0 + bi)"
        "\<forall>bj<bi. used S ?v (of_nat (b0 + bj))" "\<not> used S ?v b" "T' = ballocT S b T" "s' = s"
        using r by auto
      have lt: "b0 + bi < sz" using b(3) by (simp add: less_diff_conv add.commute)
      moreover have "sz < 2 ^ 32" unfolding sz_def by (rule order_less_le_trans [OF unsigned_less]) simp
      ultimately have ub: "unat b = b0 + bi" by (simp add: b(4) unat_of_nat take_bit_nat_eq_self del: of_nat_add)
      have "used S ?v a" if "a < b" for a
      proof (cases "unat a < b0")
        case True
        then show ?thesis using below [OF b(2,1)] by simp
      next
        case False
        then have "unat a - b0 < bi" "a = of_nat (b0 + (unat a - b0))" using that ub by (simp_all add: word_less_nat_alt)
        then show ?thesis using b(5) by metis
      qed
      then show ?thesis
        unfolding Some option.case seq_assoc b(7,8) S_def
        using lt ub b(6) by (intro rest) (simp_all add: S_def sz_def word_less_nat_alt)
    qed
  qed
qed

section \<open>Used blocks after an operation\<close>

lemma used_after_bfree: "b < sb_size S \<Longrightarrow> used S (after_bfree S b v) a \<longleftrightarrow> a \<noteq> b \<and> used S v a"
proof (cases "BBLOCK a S = BBLOCK b S")
  assume b: "b < sb_size S"
  case True
  then have "unat a mod BPB = unat b mod BPB \<longleftrightarrow> a = b" using BBLOCK_inj by blast
  then show ?thesis using True b by (auto simp: used_def after_bfree_def bit_used_free)
next
  assume b: "b < sb_size S"
  case False
  then show ?thesis using b by (auto simp: used_def after_bfree_def)
qed

lemma used_after_balloc:
  assumes "bitmap_wf S v" and "\<not> used S v b"
  shows "used S (after_balloc S b v) a \<longleftrightarrow> a = b \<or> used S v a"
proof -
  consider "\<not> a < sb_size S" | "a < sb_size S" "BBLOCK a S = BBLOCK b S" | "a < sb_size S" "BBLOCK a S \<noteq> BBLOCK b S" by blast
  then show ?thesis
  proof cases
    case 1
    then show ?thesis by (simp add: used_def not_less)
  next
    case 2
    then have "unat a mod BPB = unat b mod BPB \<longleftrightarrow> a = b" using BBLOCK_inj by blast
    moreover have "BBLOCK a S \<noteq> b" using assms bitmap_blockI [OF 2(1)] unfolding bitmap_wf_def by blast
    ultimately show ?thesis using 2 by (auto simp: used_in after_balloc_def Let_def bit_used_set)
  next
    case 3
    moreover have "BBLOCK a S \<noteq> b" using assms bitmap_blockI [OF 3(1)] unfolding bitmap_wf_def by blast
    ultimately show ?thesis by (auto simp: used_in after_balloc_def Let_def)
  qed
qed

lemma after_balloc_other: "x \<noteq> b \<Longrightarrow> x \<noteq> BBLOCK b S \<Longrightarrow> after_balloc S b v x = v x"
  by (simp add: after_balloc_def Let_def)

lemma after_balloc_zero: "k < BSIZE \<Longrightarrow> after_balloc S b v b k = 0"
  by (simp add: after_balloc_def Let_def clear_bytes_def)

section \<open>Properties\<close>

text \<open>A file system in an open transaction that has changed nothing yet.\<close>

definition fresh_txn :: "nat \<Rightarrow> (bkey \<Rightarrow> block) \<Rightarrow> txn" where
  "fresh_txn n d = \<lparr>t_room = n, t_held = Map.empty, t_dirty = {}, t_logged = {}, t_view = (\<lambda>bn. d (0, bn))\<rparr>"

definition open_fs :: "(bkey \<Rightarrow> block) \<Rightarrow> superblock \<Rightarrow> (nat \<Rightarrow> inode) \<Rightarrow> fsst" where
  "open_fs d S ic = booted d \<lparr>logs = (\<lambda>_. idle_log\<lparr>lg_outstanding := 1\<rparr>), sb = S, icache = ic\<rparr>"

lemma open_fs_ready:
  "bready {} 0 (open_fs d S ic)" "sb (open_fs d S ic) = S" "icache (open_fs d S ic) = ic"
  "n < 29 \<Longrightarrow> intxn 0 (fresh_txn n d) (d, []) (logs (open_fs d S ic) 0) (cabs (open_fs d S ic))"
  by (simp_all add: open_fs_def booted_ready)
    (simp_all add: booted_def intxn_def fresh_txn_def idle_log_def param_defs absorbed_def len_def)

text \<open>
  C22: In a transaction with room for two more blocks \<^verbatim>\<open>balloc()\<close> returns the lowest free block
  of the file system, filled with zeros; the set of used blocks grows by exactly this block, no block
  other than it and its bitmap block changes, and nothing is written to the disk.
\<close>

theorem balloc_takes_lowest:
  assumes "bready {} p s" and "intxn dev T D (logs s dev) (cabs s)" and "alloc_ready (sb s) T"
    and "2 \<le> t_room T" and "card (dom (t_held T)) < t_room T"
    and "f < sb_size (sb s)" and "\<not> used (sb s) (t_view T) f"
  shows "\<exists>b t T'. balloc dev s = Done b t \<and> bready {} p t \<and> intxn dev T' D (logs t dev) (cabs t) \<and>
    b < sb_size (sb s) \<and> \<not> used (sb s) (t_view T) b \<and> (\<forall>a<b. used (sb s) (t_view T) a) \<and>
    (\<forall>a. used (sb s) (t_view T') a \<longleftrightarrow> a = b \<or> used (sb s) (t_view T) a) \<and> (\<forall>k<BSIZE. t_view T' b k = 0) \<and>
    (\<forall>x. x \<noteq> b \<longrightarrow> x \<noteq> BBLOCK b (sb s) \<longrightarrow> t_view T' x = t_view T x) \<and> t_held T' = t_held T \<and> sb t = sb s \<and> icache t = icache s"
proof -
  have n: "bm_cost (sb s) T < t_room T" "card (dom (t_held T)) + bm_cost (sb s) T \<le> t_room T"
    using assms(4,5) by (auto simp: bm_cost_def)
  let ?R = "\<lambda>b T' s'. s' = s \<and> b < sb_size (sb s) \<and> \<not> used (sb s) (t_view T) b \<and> (\<forall>a<b. used (sb s) (t_view T) a) \<and>
    T' = ballocT (sb s) b T"
  have "fsx {} p dev T s (bnd (balloc dev) ret) {} ?R"
    by (rule fsx_balloc [OF assms(3) _ n assms(6,7)]) (auto intro!: fsx_ret)
  then obtain b t T' s' where t: "bnd (balloc dev) ret s = Done b t" "bready {} p t"
    "bio_same (s'\<lparr>logs := logs t\<rparr>) t" "intxn dev T' D (logs t dev) (cabs t)" "?R b T' s'"
    by (rule fsx_run [OF _ assms(1,2)])
  have "balloc dev s = Done b t" using t(1) by (simp add: run split: outcome.splits)
  moreover have "sb t = sb s" "icache t = icache s" using same_sb(1) [OF t(3)] same_icache(1) [OF t(3)] t(5) by simp_all
  moreover have "bitmap_wf (sb s) (t_view T)" using assms(3) by (simp add: alloc_ready_def)
  ultimately show ?thesis
    using t by (intro exI [of _ b] exI [of _ t] exI [of _ T']) (auto simp: used_after_balloc after_balloc_zero after_balloc_other)
qed

text \<open>The layout that \<^verbatim>\<open>mkfs\<close> gives to 1000 blocks, without files: the blocks of data start at 46.\<close>

definition small_sb :: superblock where
  "small_sb = \<lparr>sb_magic = FSMAGIC, sb_size = 1000, sb_nblocks = 954, sb_ninodes = 200, sb_nlog = 30, sb_logstart = 2,
     sb_inodestart = 32, sb_bmapstart = 45\<rparr>"

definition no_files :: "bkey \<Rightarrow> block" where
  "no_files k = (if k = (0, 45) then (\<lambda>i. if i < 5 then 0xff else if i = 5 then 0x3f else 0) else (\<lambda>_. 0))"

lemma BBLOCK_small: "b < sb_size small_sb \<Longrightarrow> BBLOCK b small_sb = 45"
  by (subst BBLOCK_one) (simp_all add: small_sb_def fs_consts word_less_nat_alt)

lemma bits_below: "bit (0xff :: u8) n \<longleftrightarrow> n < 8" "bit (0x3f :: u8) n \<longleftrightarrow> n < 6"
proof -
  have m: "(0xff :: u8) = mask 8" "(0x3f :: u8) = mask 6" by (simp_all add: mask_eq_exp_minus_1)
  show "bit (0xff :: u8) n \<longleftrightarrow> n < 8" "bit (0x3f :: u8) n \<longleftrightarrow> n < 6" unfolding m by (auto simp: bit_mask_iff)
qed

lemma used_no_files: "used small_sb (\<lambda>bn. no_files (0, bn)) b \<longleftrightarrow> unat b < 46 \<or> 1000 \<le> unat b"
proof (cases "b < sb_size small_sb")
  case True
  then have b: "unat b < 1000" by (simp add: small_sb_def word_less_nat_alt)
  have "used small_sb (\<lambda>bn. no_files (0, bn)) b \<longleftrightarrow> bit (no_files (0, 45) (unat b div 8)) (unat b mod 8)"
    using b unfolding used_in [OF True] BBLOCK_small [OF True] bit_used_bit by (simp add: fs_consts)
  also have "\<dots> \<longleftrightarrow> unat b div 8 < 5 \<or> unat b div 8 = 5 \<and> unat b mod 8 < 6"
    unfolding no_files_def using bits_below [of "unat b mod 8"] by auto
  also have "\<dots> \<longleftrightarrow> unat b < 46" by presburger
  finally show ?thesis using b by simp
next
  case False
  then show ?thesis by (simp add: used_def small_sb_def not_less word_le_nat_alt)
qed

lemma no_files_wf: "bitmap_wf small_sb (\<lambda>bn. no_files (0, bn))" "bitmap_block small_sb b \<longleftrightarrow> b = 45"
proof -
  show b: "bitmap_block small_sb b \<longleftrightarrow> b = 45" for b
    using bitmap_blockI [of 0 small_sb] BBLOCK_small by (auto simp: bitmap_block_def small_sb_def BBLOCK_def)
  show "bitmap_wf small_sb (\<lambda>bn. no_files (0, bn))" by (simp add: bitmap_wf_def b used_no_files)
qed

lemma no_files_ready: "alloc_ready (sb (open_fs no_files small_sb ic)) (fresh_txn n no_files)"
  using no_files_wf by (simp add: alloc_ready_def open_fs_ready fresh_txn_def)

theorem balloc_takes_lowest_witness:
  "\<exists>t. balloc 0 (open_fs no_files small_sb (\<lambda>_. undefined)) = Done 46 t"
proof -
  let ?s = "open_fs no_files small_sb (\<lambda>_. undefined)" and ?T = "fresh_txn 5 no_files"
  have i: "intxn 0 ?T (no_files, []) (logs ?s 0) (cabs ?s)" by (rule open_fs_ready(4)) simp
  have c: "2 \<le> t_room ?T" "card (dom (t_held ?T)) < t_room ?T" by (simp_all add: fresh_txn_def)
  have u: "used (sb ?s) (t_view ?T) b \<longleftrightarrow> unat b < 46 \<or> 1000 \<le> unat b" for b
    by (simp add: open_fs_ready(2) fresh_txn_def used_no_files)
  have f: "46 < sb_size (sb ?s)" "\<not> used (sb ?s) (t_view ?T) 46" by (simp_all add: u) (simp add: open_fs_ready(2) small_sb_def)
  from balloc_takes_lowest [OF open_fs_ready(1) i no_files_ready c f] obtain b t where
    b: "balloc 0 ?s = Done b t" "\<not> unat b < 46" "\<forall>a<b. unat a < 46 \<or> 1000 \<le> unat a" unfolding u by blast
  have "\<not> 46 < b" using b(3) by fastforce
  then have "b = 46" using b(2) by (simp add: word_less_nat_alt word_unat_eq_iff)
  then show ?thesis using b(1) by blast
qed

text \<open>
  C23: \<^verbatim>\<open>bfree()\<close> of a used block of the file system removes exactly this block from the set of used blocks and
  changes no block but its bitmap block; freeing a free block panics.
\<close>

theorem bfree_releases:
  assumes "bready {} p s" and "intxn dev T D (logs s dev) (cabs s)" and "alloc_ready (sb s) T"
    and "1 \<le> t_room T" and "card (dom (t_held T)) \<le> t_room T" and "b < sb_size (sb s)"
  shows "if used (sb s) (t_view T) b
    then \<exists>t T'. bfree dev b s = Done () t \<and> bready {} p t \<and> intxn dev T' D (logs t dev) (cabs t) \<and>
      (\<forall>a. used (sb s) (t_view T') a \<longleftrightarrow> a \<noteq> b \<and> used (sb s) (t_view T) a) \<and>
      (\<forall>x. x \<noteq> BBLOCK b (sb s) \<longrightarrow> t_view T' x = t_view T x) \<and> t_held T' = t_held T \<and> sb t = sb s \<and> icache t = icache s
    else \<exists>t. bfree dev b s = Panic ''freeing free block'' t"
proof (cases "used (sb s) (t_view T) b")
  case True
  let ?R = "\<lambda>_ T' s'. s' = s \<and> T' = edit (BBLOCK b (sb s)) (set_free (unat b mod BPB)) T"
  have "fsx {} p dev T s (thn (bfree dev b) skip) {} ?R"
    using assms(3-6) True bitmap_blockI [OF assms(6)] by (intro fsx_bfree) (auto simp: alloc_ready_def can_log_def intro!: fsx_skip)
  from fsx_tail [OF this] obtain x t T' s' where t: "bfree dev b s = Done x t" "bready {} p t"
    "bio_same (s'\<lparr>logs := logs t\<rparr>) t" "intxn dev T' D (logs t dev) (cabs t)" "?R x T' s'"
    by (rule fsx_run [OF _ assms(1,2)])
  moreover have "sb t = sb s" "icache t = icache s" using same_sb(1) [OF t(3)] same_icache(1) [OF t(3)] t(5) by simp_all
  moreover have "t_view T' x = t_view T x" if "x \<noteq> BBLOCK b (sb s)" for x
    using t(5) that by simp
  moreover have "used (sb s) (t_view T') a \<longleftrightarrow> a \<noteq> b \<and> used (sb s) (t_view T) a" for a
  proof -
    have "t_view T' = after_bfree (sb s) b (t_view T)" using t(5) by (simp add: after_bfree_def)
    then show ?thesis by (simp only: used_after_bfree [OF assms(6)])
  qed
  ultimately have "\<exists>t T'. bfree dev b s = Done () t \<and> bready {} p t \<and> intxn dev T' D (logs t dev) (cabs t) \<and>
      (\<forall>a. used (sb s) (t_view T') a \<longleftrightarrow> a \<noteq> b \<and> used (sb s) (t_view T) a) \<and>
      (\<forall>x. x \<noteq> BBLOCK b (sb s) \<longrightarrow> t_view T' x = t_view T x) \<and> t_held T' = t_held T \<and> sb t = sb s \<and> icache t = icache s"
    by (intro exI [of _ t] exI [of _ T']) auto
  then show ?thesis using True by simp
next
  case False
  let ?k = "(dev, BBLOCK b (sb s))"
  have "c_held (cabs s) ?k = None" "c_ref (cabs s) ?k + 1 < 2 ^ 32" "has_room ?k (cabs s)"
    using assms intxn_ref [OF assms(2), of "BBLOCK b (sb s)"] intxn_room [OF assms(2,5)] bitmap_blockI [OF assms(6)]
    by (auto simp: intxn_def alloc_ready_def)
  from bread_ok [OF assms(1) this] obtain c t where t: "bread dev (BBLOCK b (sb s)) s = Done c t" "bready {} p t"
    "cabs t = sp_bread ?k c (cabs s)" by (auto simp: wp_iff)
  have "b_data (bufs t c) = t_view T (BBLOCK b (sb s))"
    using held_cached(4) [OF t(2), of ?k c] assms(2) t(3) by (simp add: sp_bread_def intxn_def)
  then have "bfree dev b s = Panic ''freeing free block'' t"
    using False t(1) assms(6) by (simp add: bfree_def run get_buf_def used_in bfree_index Let_def)
  then show ?thesis using False by simp
qed

theorem bfree_releases_witness:
  "(\<exists>t. bfree 0 7 (open_fs no_files small_sb (\<lambda>_. undefined)) = Done () t) \<and>
   (\<exists>t. bfree 0 46 (open_fs no_files small_sb (\<lambda>_. undefined)) = Panic ''freeing free block'' t)"
proof -
  let ?s = "open_fs no_files small_sb (\<lambda>_. undefined)" and ?T = "fresh_txn 5 no_files"
  have i: "intxn 0 ?T (no_files, []) (logs ?s 0) (cabs ?s)" by (rule open_fs_ready(4)) simp
  have c: "1 \<le> t_room ?T" "card (dom (t_held ?T)) \<le> t_room ?T" by (simp_all add: fresh_txn_def)
  have u: "used (sb ?s) (t_view ?T) b \<longleftrightarrow> unat b < 46 \<or> 1000 \<le> unat b" for b
    by (simp add: open_fs_ready(2) fresh_txn_def used_no_files)
  have z: "sb_size (sb ?s) = 1000" by (simp add: open_fs_ready(2) small_sb_def)
  note f = bfree_releases [OF open_fs_ready(1) i no_files_ready c, unfolded u z]
  show ?thesis using f [of 7] f [of 46] by auto
qed

end
