(* ===== verification/Inode.thy ===== *)
theory Inode
  imports Alloc
begin

text \<open>
  The bytes of a file (\<^verbatim>\<open>bmap()\<close> and \<^verbatim>\<open>readi()\<close> of \<^verbatim>\<open>kernel/fs.c\<close>), over the
  calculus of transactions.  \<open>kblk v x j\<close> is the block that holds
  block \<open>j\<close> of the file of inode \<open>x\<close> when the blocks of the device are \<open>v\<close>, 0 if there is none.
\<close>

section \<open>Blocks of a file\<close>

definition kind :: "'a dinode_scheme \<Rightarrow> u32" where
  "kind x = d_addrs x NDIRECT"

definition kblk :: "(u32 \<Rightarrow> block) \<Rightarrow> 'a dinode_scheme \<Rightarrow> nat \<Rightarrow> u32" where
  "kblk v x j = (if j < NDIRECT then d_addrs x j
     else if kind x = 0 then 0 else get32 (v (kind x)) (4 * (j - NDIRECT)))"

definition kbyte :: "(u32 \<Rightarrow> block) \<Rightarrow> 'a dinode_scheme \<Rightarrow> nat \<Rightarrow> u8" where
  "kbyte v x k = v (kblk v x (k div BSIZE)) (k mod BSIZE)"

definition kcontent :: "(u32 \<Rightarrow> block) \<Rightarrow> 'a dinode_scheme \<Rightarrow> u8 list" where
  "kcontent v x = map (kbyte v x) [0..<unat (d_size x)]"

section \<open>More rules\<close>

lemma fsx_loop:
  assumes "\<And>n x T s. I n x T s \<Longrightarrow> fsx L p dev T s (body x) L (\<lambda>r T' s'. case r of
      Inl y \<Rightarrow> \<exists>n'<n. I n' y T' s' | Inr v \<Rightarrow> Q v T' s')"
    and "I n x T s" and "n < N"
  shows "fsx L p dev T s (loopM N body x) L Q"
  using assms(2,3)
proof (induction N arbitrary: n x T s)
  case (Suc N)
  show ?case
    unfolding loopM.simps
  proof (rule fsx_bnd [OF assms(1) [OF Suc.prems(1)]])
    fix r T' s'
    assume r: "case r of Inl y \<Rightarrow> \<exists>n'<n. I n' y T' s' | Inr v \<Rightarrow> Q v T' s'"
    show "fsx L p dev T' s' (case r of Inl y \<Rightarrow> loopM N body y | Inr v \<Rightarrow> ret v) L Q"
    proof (cases r)
      case (Inl y)
      then obtain n' where "n' < n" "I n' y T' s'" using r by auto
      then show ?thesis using Suc.IH Suc.prems(2) Inl by simp
    next
      case (Inr v)
      then show ?thesis using r by (simp add: fsx_ret)
    qed
  qed
qed simp

lemma fsx_if_False: "\<not> b \<Longrightarrow> fsx L p dev T s (thn h g) L' R \<Longrightarrow> fsx L p dev T s (thn h (if b then f else g)) L' R"
  by simp

lemma does_myproc: "settled L s \<Longrightarrow> does myproc s (curproc s) s"
  unfolding does_def
proof (intro allI impI)
  fix t
  assume "settled L s" and e: "eqv s t"
  then have "irq_wf t" "curproc t = curproc s"
    using eqv_settled [OF e] eqv_curproc [OF e] by (auto simp: settled_def)
  with run_myproc [of t] show "\<exists>u. myproc t = Done (curproc s) u \<and> eqv s u"
    using eqv_trans [OF e] by (auto simp: eqv_def)
qed

lemma fsx_myproc: "fsx L p dev T s (g (Some p)) L' R \<Longrightarrow> fsx L p dev T s (bnd myproc g) L' R"
  unfolding fsx_def
proof (intro allI impI, rule exec_does)
  fix s0 :: "'a lgst_scheme"
  assume "bready L p s0"
  then have "settled L s0" "curproc s0 = Some p" by (simp_all add: bready_def)
  with does_myproc [OF this(1)] show "does myproc s0 (Some p) s0" by simp
qed blast

lemma fsx_copyout_obj: "fsx L p dev T s (g (0, bs)) L' R \<Longrightarrow> fsx L p dev T s (bnd (either_copyout KernelObj bs) g) L' R"
  unfolding either_copyout_def seq_assoc by (rule fsx_myproc) (simp add: seq_assoc)

lemma fsx_copyin_bytes:
  "fsx L p dev T s (g (0, take n bs)) L' R \<Longrightarrow> fsx L p dev T s (bnd (either_copyin (KernelBytes bs) n) g) L' R"
  unfolding either_copyin_def seq_assoc by (rule fsx_myproc) (simp add: seq_assoc)

section \<open>Finding a block\<close>

lemma unat_sub_direct: "NDIRECT \<le> unat bn \<Longrightarrow> unat (bn - of_nat NDIRECT :: u32) = unat bn - NDIRECT"
  by (simp add: NDIRECT_def unat_sub word_le_nat_alt)

lemma fsx_bmap_old:
  fixes s :: "'z fsst_scheme" and ip :: nat
  defines "x \<equiv> icache s ip"
  assumes "i_dev x = dev" and "unat bn < MAXFILE" and nz: "kblk (t_view T) x (unat bn) \<noteq> 0"
    and h: "NDIRECT \<le> unat bn \<Longrightarrow> t_held T (kind x) = None \<and> kind x \<notin> t_dirty T" and room: "card (dom (t_held T)) \<le> t_room T"
    and g: "fsx L p dev T s (g (kblk (t_view T) x (unat bn))) L' R"
  shows "fsx L p dev T s (bnd (bmap ip bn) g) L' R"
proof (cases "unat bn < NDIRECT")
  case True
  then show ?thesis
    unfolding bmap_def seq_assoc
    using nz g by (intro fsx_get_inode) (simp add: x_def [symmetric] seq_assoc, intro fsx_get_inode, simp add: x_def [symmetric] seq_assoc kblk_def)
next
  case False
  then have d: "unat (bn - of_nat NDIRECT) = unat bn - NDIRECT" "unat bn - NDIRECT < NINDIRECT"
    using assms(3) unat_sub_direct [of bn] by (auto simp: MAXFILE_def)
  have i: "kind x \<noteq> 0" and e: "kblk (t_view T) x (unat bn) = get32 (t_view T (kind x)) (4 * (unat bn - NDIRECT))"
    using nz False by (auto simp: kblk_def split: if_splits)
  have hk: "t_held T (kind x) = None" "kind x \<notin> t_dirty T" using h False by simp_all
  have "fsx L p dev (T\<lparr>t_held := (t_held T)(kind x \<mapsto> b)\<rparr>) s
      (thn (brelse b) (g (kblk (t_view T) x (unat bn)))) L' R" for b
    using hk g by (intro fsx_brelse [where bn = "kind x"]) (simp_all add: held_release)
  note rel = this
  show ?thesis
    unfolding bmap_def seq_assoc
    apply (rule fsx_get_inode)
    apply (simp add: False Let_def d seq_assoc del: One_nat_def)
    apply (rule fsx_get_inode)
    apply (simp add: x_def [symmetric] kind_def [symmetric] i seq_assoc assms(2))
    apply (rule fsx_bread [OF hk(1) room])
    apply (rule fsx_get_data [where bn = "kind x"], simp)
    using nz rel unfolding e by (simp add: seq_assoc)
qed

section \<open>Reading\<close>

lemma io_chunk_words:
  assumes "k < 2 ^ 31" and "n < 2 ^ 31" and "a \<le> n"
  shows "io_chunk (of_nat n) (of_nat a) (of_nat k) = of_nat (min (n - a) (BSIZE - k mod BSIZE))"
proof -
  have e1: "of_nat BSIZE - of_nat k mod of_nat BSIZE = (of_nat (BSIZE - k mod BSIZE) :: u32)"
    using off_words(2) [OF assms(1)] by (simp add: word_unat_eq_iff BSIZE_def unat_sub word_le_nat_alt unat_of_nat)
  have e2: "of_nat n - of_nat a = (of_nat (n - a) :: u32)" using assms(3) by (simp add: of_nat_diff)
  show ?thesis
    unfolding io_chunk_def e1 e2 using assms(2) by (intro min_of_nat) (auto simp: BSIZE_def)
qed

lemma upt_join: "[i..<i + a] @ [i + a..<i + a + c] = [i..<i + (a + c)]"
  using upt_add_eq_append [of i "i + a" c] by (simp add: add.assoc)

lemma kbyte_chunk:
  assumes "k mod BSIZE + m \<le> BSIZE"
  shows "get_list (k mod BSIZE) m (v (kblk v x (k div BSIZE))) = map (kbyte v x) [k..<k + m]"
proof (rule nth_equalityI)
  fix i assume "i < length (get_list (k mod BSIZE) m (v (kblk v x (k div BSIZE))))"
  then have i: "i < m" by (simp add: get_list_def)
  then show "get_list (k mod BSIZE) m (v (kblk v x (k div BSIZE))) ! i = map (kbyte v x) [k..<k + m] ! i"
    using assms block_split [of k BSIZE i] by (simp add: get_list_def kbyte_def)
qed (simp add: get_list_def)

text \<open>The blocks of a file up to its size, none of them in use by the caller.\<close>

definition readable :: "txn \<Rightarrow> 'a dinode_scheme \<Rightarrow> bool" where
  "readable T x \<longleftrightarrow> unat (d_size x) \<le> MAXFILE * BSIZE \<and> card (dom (t_held T)) \<le> t_room T
     \<and> t_held T (kind x) = None \<and> kind x \<notin> t_dirty T
     \<and> (\<forall>k < unat (d_size x). kblk (t_view T) x (k div BSIZE) \<noteq> 0 \<and> t_held T (kblk (t_view T) x (k div BSIZE)) = None
        \<and> kblk (t_view T) x (k div BSIZE) \<notin> t_dirty T)"

text \<open>The loop of \<^verbatim>\<open>readi()\<close> after \<open>a\<close> of \<open>m\<close> bytes from byte \<open>o\<close> on.\<close>

definition rd_state :: "(u32 \<Rightarrow> block) \<Rightarrow> inode \<Rightarrow> nat \<Rightarrow> nat \<Rightarrow> u32 \<times> u32 \<times> uaddr \<times> u8 list" where
  "rd_state v x k a = (of_nat a, of_nat (k + a), KernelObj, map (kbyte v x) [k..<k + a])"

lemma fsx_readi_turn:
  fixes s :: "'z fsst_scheme" and ip :: nat
  defines "x \<equiv> icache s ip"
  assumes "i_dev x = dev" and rd: "readable T x" and m: "i + m \<le> unat (d_size x)" and a: "a < m"
  defines "c \<equiv> min (m - a) (BSIZE - (i + a) mod BSIZE)"
  assumes g: "fsx L p dev T s (ret (Inl (rd_state (t_view T) x i (a + c)))) L' R"
  shows "fsx L p dev T s (readi_turn ip x (of_nat m) (rd_state (t_view T) x i a)) L' R"
proof -
  let ?v = "t_view T" and ?k = "i + a"
  let ?b = "kblk ?v x (?k div BSIZE)"
  have size: "unat (d_size x) \<le> 274432" using rd by (simp add: readable_def fs_consts)
  have k: "?k < 2 ^ 31" "?k < unat (d_size x)" "m < 2 ^ 31" using a m size by simp_all
  have hc: "?k mod BSIZE + c \<le> BSIZE" "unat (of_nat c :: u32) = c" "a \<le> m"
    using a by (auto simp: c_def BSIZE_def unat_of_nat)
  have lt: "(of_nat a :: u32) < of_nat m" using a k(3) by (simp add: word_less_nat_alt unat_of_nat)
  have j: "?k div BSIZE < MAXFILE" using k(2) size by (simp add: fs_consts div_less_iff_less_mult)
  note w = off_words [OF k(1)] and ch = io_chunk_words [OF k(1,3) hc(3), folded c_def]
  have r: "?b \<noteq> 0" "t_held T ?b = None" "?b \<notin> t_dirty T" "t_held T (kind x) = None" "kind x \<notin> t_dirty T" "card (dom (t_held T)) \<le> t_room T"
    using rd k(2) by (simp_all add: readable_def)
  have nxt: "(of_nat a + of_nat c, of_nat ?k + of_nat c, uaddr_plus KernelObj (of_nat c),
      map (kbyte ?v x) [i..<?k] @ map (kbyte ?v x) [?k..<?k + c]) = rd_state ?v x i (a + c)"
    unfolding map_append [symmetric] upt_join by (simp add: rd_state_def uaddr_plus_def add.assoc)
  have e: "get_list (?k mod BSIZE) c (t_view (T\<lparr>t_held := h\<rparr>) ?b) = map (kbyte ?v x) [?k..<?k + c]" for h
    using kbyte_chunk [OF hc(1)] by simp
  have fin: "fsx L p dev (T\<lparr>t_held := (t_held T)(?b \<mapsto> b)\<rparr>) s (thn (brelse b) (ret (Inl (rd_state ?v x i (a + c))))) L' R" for b
    by (rule fsx_brelse [where bn = ?b]) (use r g held_release [OF r(2)] in simp_all)
  show ?thesis
    apply (simp only: readi_turn_def rd_state_def [of _ _ _ a] prod.case lt not_True_eq_False if_False ch Let_def w hc(2))
    apply (rule fsx_bmap_old, unfold x_def [symmetric] w, use assms(2) in simp, rule j, rule r(1), use r in simp, rule r(6))
    apply (simp only: assms(2), rule fsx_bread [OF r(2,6)])
    apply (rule fsx_get_data [where bn = ?b], simp)
    apply (unfold e)
    by (rule fsx_copyout_obj, unfold prod.case, rule fsx_if_False, simp, unfold nxt, rule fin)
qed

lemma fsx_readi:
  fixes s :: "'z fsst_scheme" and ip :: nat
  defines "x \<equiv> icache s ip"
  assumes "i_dev x = dev" and rd: "readable T x" and off: "unat off \<le> unat (d_size x)" "unat off + unat n < 2 ^ 32"
  defines "m \<equiv> min (unat n) (unat (d_size x) - unat off)"
  assumes g: "fsx L p dev T s (g (int m, map (kbyte (t_view T) x) [unat off..<unat off + m])) L' R"
  shows "fsx L p dev T s (bnd (readi ip KernelObj off n) g) L' R"
proof -
  let ?v = "t_view T" and ?o = "unat off"
  have size: "unat (d_size x) \<le> 274432" using rd by (simp add: readable_def fs_consts)
  have m: "m < 2 ^ 31" "?o + m \<le> unat (d_size x)" "m < 2 ^ 32" using size off by (auto simp: m_def)
  have cond: "\<not> (off > d_size x \<or> off + n < off)"
    using off by (simp add: word_less_nat_alt unat_word_ariths not_less)
  have n': "(if off + n > d_size x then d_size x - off else n) = of_nat m"
    using off by (auto simp: m_def word_less_nat_alt unat_word_ariths min_def unat_sub word_le_nat_alt of_nat_diff)
  let ?I = "\<lambda>r y T' s'. T' = T \<and> s' = s \<and> (\<exists>a. a + r = m \<and> y = rd_state ?v x ?o a)"
  let ?Q = "\<lambda>acc T' s'. T' = T \<and> s' = s \<and> acc = map (kbyte ?v x) [?o..<?o + m]"
  have loop: "fsx L p dev T s (loopM (Suc m) (readi_turn ip x (of_nat m)) (rd_state ?v x ?o 0)) L ?Q"
  proof (rule fsx_loop [where I = ?I and n = m])
    fix r y U and u :: "'z fsst_scheme"
    assume "?I r y U u"
    then obtain a where a: "a + r = m" "U = T" "u = s" "y = rd_state ?v x ?o a" by blast
    let ?R = "\<lambda>q T' s'. case q of Inl y \<Rightarrow> \<exists>n'<r. ?I n' y T' s' | Inr v \<Rightarrow> ?Q v T' s'"
    show "fsx L p dev U u (readi_turn ip x (of_nat m) y) L ?R"
    proof (cases "a < m")
      case True
      let ?c = "min (m - a) (BSIZE - (?o + a) mod BSIZE)"
      have c: "0 < ?c" "a + ?c \<le> m" using True by (auto simp: BSIZE_def)
      have "?R (Inl (rd_state ?v x ?o (a + c))) T s" if "0 < c" "a + c \<le> m" for c
        unfolding sum.case
        by (intro exI [of _ "m - (a + c)"] conjI refl exI [of _ "a + c"]) (use a(1) that in auto)
      from this [OF c] show ?thesis
        unfolding a(2-4) x_def by (intro fsx_readi_turn fsx_ret) (use assms(2) rd m(2) True in \<open>simp_all add: x_def\<close>)
    next
      case False
      then have "a = m" using a(1) by simp
      then show ?thesis unfolding a(2-4) by (simp add: readi_turn_def rd_state_def fsx_ret)
    qed
  next
    show "?I m (rd_state ?v x ?o 0) T s" by auto
  qed simp
  have sm: "sint (of_nat m :: u32) = int m" using m(1) by (simp add: signed_of_nat signed_take_bit_int_eq_self)
  have st: "rd_state ?v x ?o 0 = (0, off, KernelObj, [])" by (simp add: rd_state_def)
  show ?thesis
    unfolding readi_def seq_assoc
    apply (rule fsx_get_inode)
    apply (simp only: id_apply x_def [symmetric] cond if_False Let_def n' seq_assoc unat_of_nat_u32 [OF m(3)])
    apply (rule fsx_bnd [OF loop [unfolded st]])
    using g by (simp add: sm seq_assoc)
qed

section \<open>Files in a transaction\<close>

text \<open>The blocks of a file of \<open>n\<close> blocks, with the indirect block.\<close>

definition kown :: "(u32 \<Rightarrow> block) \<Rightarrow> 'a dinode_scheme \<Rightarrow> nat \<Rightarrow> u32 set" where
  "kown v x n = kblk v x ` {..<n} \<union> (if NDIRECT < n then {kind x} else {})"

text \<open>
  A file without holes, whose blocks are its own: marked as used, and neither blocks of the bitmap nor the
  block of its inode.
\<close>

definition kfile :: "superblock \<Rightarrow> (u32 \<Rightarrow> block) \<Rightarrow> inode \<Rightarrow> nat \<Rightarrow> bool" where
  "kfile S v x n \<longleftrightarrow> n \<le> MAXFILE \<and> (\<forall>j<MAXFILE. kblk v x j = 0 \<longleftrightarrow> n \<le> j) \<and> (kind x = 0 \<longleftrightarrow> n \<le> NDIRECT)
     \<and> inj_on (kblk v x) {..<n} \<and> (NDIRECT < n \<longrightarrow> kind x \<notin> kblk v x ` {..<n})
     \<and> (\<forall>b \<in> kown v x n. used S v b \<and> \<not> bitmap_block S b \<and> b \<noteq> IBLOCK (i_inum x) S)"

definition kmeta :: "superblock \<Rightarrow> (u32 \<Rightarrow> block) \<Rightarrow> inode \<Rightarrow> bool" where
  "kmeta S v x \<longleftrightarrow> bitmap_wf S v \<and> used S v 0 \<and> used S v (IBLOCK (i_inum x) S) \<and> \<not> bitmap_block S (IBLOCK (i_inum x) S)"

definition at_rest :: "txn \<Rightarrow> bool" where
  "at_rest T \<longleftrightarrow> t_held T = Map.empty \<and> t_dirty T = {}"

lemma at_rest_ready: "at_rest T \<Longrightarrow> bitmap_wf S (t_view T) \<Longrightarrow> alloc_ready S T"
  by (simp add: at_rest_def alloc_ready_def)

definition free_blocks :: "superblock \<Rightarrow> (u32 \<Rightarrow> block) \<Rightarrow> u32 set" where
  "free_blocks S v = {b. b < sb_size S \<and> \<not> used S v b}"

lemma finite_free [simp]: "finite (free_blocks S v)"
  by (rule finite)

lemma kfileD:
  assumes "kfile S v x n"
  shows "n \<le> MAXFILE" and "j < MAXFILE \<Longrightarrow> kblk v x j = 0 \<longleftrightarrow> n \<le> j" and "kind x = 0 \<longleftrightarrow> n \<le> NDIRECT"
    and "b \<in> kown v x n \<Longrightarrow> used S v b" and "b \<in> kown v x n \<Longrightarrow> \<not> bitmap_block S b" and "b \<in> kown v x n \<Longrightarrow> b \<noteq> IBLOCK (i_inum x) S"
    and "j < n \<Longrightarrow> kblk v x j \<in> kown v x n" and "NDIRECT < n \<Longrightarrow> kind x \<in> kown v x n"
    and "j < n \<Longrightarrow> kblk v x j \<noteq> kind x"
proof -
  show "kblk v x j \<noteq> kind x" if "j < n"
  proof (cases "NDIRECT < n")
    case True
    then show ?thesis using assms that unfolding kfile_def by (metis imageI lessThan_iff)
  next
    case False
    then have "kind x = 0" "j < MAXFILE" using assms that by (auto simp: kfile_def)
    then show ?thesis using assms that unfolding kfile_def by (metis linorder_not_le)
  qed
qed (use assms in \<open>auto simp: kfile_def kown_def\<close>)

text \<open>
  \<open>kext S v x n v' x' n'\<close>: the file has been extended from \<open>n\<close> to \<open>n'\<close> blocks.  The
  new ones were free, and besides the blocks of the file only blocks of the bitmap have changed.
  \<open>kgrown\<close>: moreover the old blocks are where they were, with their bytes.
\<close>

definition kext :: "superblock \<Rightarrow> (u32 \<Rightarrow> block) \<Rightarrow> inode \<Rightarrow> nat \<Rightarrow> (u32 \<Rightarrow> block) \<Rightarrow> inode \<Rightarrow> nat \<Rightarrow> bool" where
  "kext S v x n v' x' n' \<longleftrightarrow> x' = x\<lparr>d_addrs := d_addrs x'\<rparr> \<and> n \<le> n' \<and> (n' = n \<longrightarrow> x' = x) \<and> kmeta S v' x' \<and> kfile S v' x' n'
     \<and> kown v x n \<subseteq> kown v' x' n' \<and> (\<forall>b \<in> kown v' x' n'. b \<in> kown v x n \<or> \<not> used S v b)
     \<and> (\<forall>b. used S v b \<longrightarrow> b \<notin> kown v x n \<longrightarrow> \<not> bitmap_block S b \<longrightarrow> v' b = v b)
     \<and> (\<forall>b. used S v' b \<longleftrightarrow> used S v b \<or> b \<in> kown v' x' n')
     \<and> card (free_blocks S v') + need n' = card (free_blocks S v) + need n"

definition kgrown :: "superblock \<Rightarrow> (u32 \<Rightarrow> block) \<Rightarrow> inode \<Rightarrow> nat \<Rightarrow> (u32 \<Rightarrow> block) \<Rightarrow> inode \<Rightarrow> nat \<Rightarrow> bool" where
  "kgrown S v x n v' x' n' \<longleftrightarrow> kext S v x n v' x' n' \<and> (\<forall>j<n. kblk v' x' j = kblk v x j \<and> v' (kblk v x j) = v (kblk v x j))"

lemma kgrown_refl: "kmeta S v x \<Longrightarrow> kfile S v x n \<Longrightarrow> kgrown S v x n v x n"
  by (auto simp: kgrown_def kext_def dest: kfileD(4))

lemma inode_upd_twice: "(x :: inode)\<lparr>d_addrs := f\<rparr>\<lparr>d_addrs := g\<rparr> = x\<lparr>d_addrs := g\<rparr>"
  by simp

lemma kext_trans:
  assumes 1: "kext S v x n v' x' n'" and 2: "kext S v' x' n' v'' x'' n''"
  shows "kext S v x n v'' x'' n''"
proof -
  note k = 1 [unfolded kext_def] 2 [unfolded kext_def]
  have u: "used S v'' b \<longleftrightarrow> used S v b \<or> b \<in> kown v'' x'' n''" for b using k by blast
  have "x'' = x\<lparr>d_addrs := d_addrs x''\<rparr>"
  proof -
    have "x'' = x'\<lparr>d_addrs := d_addrs x''\<rparr>" "x' = x\<lparr>d_addrs := d_addrs x'\<rparr>" using k by blast+
    then show ?thesis by (metis inode_upd_twice)
  qed
  moreover have "v'' b = v b" if "used S v b" "b \<notin> kown v x n" "\<not> bitmap_block S b" for b
  proof -
    have "used S v' b" "b \<notin> kown v' x' n'" "v' b = v b" using k(1) that by blast+
    then show ?thesis using k(2) that(3) by metis
  qed
  moreover have "n'' = n \<longrightarrow> x'' = x" using k by (metis le_antisym)
  moreover have "\<forall>b \<in> kown v'' x'' n''. b \<in> kown v x n \<or> \<not> used S v b" "kown v x n \<subseteq> kown v'' x'' n''" using k by blast+
  moreover have "card (free_blocks S v'') + need n'' = card (free_blocks S v) + need n" "n \<le> n''" using k by linarith+
  moreover have "kmeta S v'' x''" "kfile S v'' x'' n''" using k(2) by blast+
  ultimately show ?thesis unfolding kext_def using u by blast
qed

text \<open>One block more: \<open>b\<close>, and with it the indirect block if it is the first behind the direct ones.\<close>

lemma kgrown_add:
  assumes meta: "kmeta S v x" and wf: "kfile S v x n" and n: "n < MAXFILE"
    and x': "x' = x\<lparr>d_addrs := f\<rparr>"
    and F: "F = (if n = NDIRECT then {b, kind x'} else {b})" "\<And>c. c \<in> F \<Longrightarrow> \<not> used S v c \<and> c < sb_size S" "kind x' \<noteq> b"
    and i: "n \<noteq> NDIRECT \<Longrightarrow> kind x' = kind x"
    and blk': "\<And>j. j < MAXFILE \<Longrightarrow> kblk v' x' j = (if j = n then b else kblk v x j)"
    and u': "\<And>c. used S v' c \<longleftrightarrow> used S v c \<or> c \<in> F"
    and v': "\<And>c. used S v c \<Longrightarrow> \<not> bitmap_block S c \<Longrightarrow> n \<le> NDIRECT \<or> c \<noteq> kind x \<Longrightarrow> v' c = v c"
  shows "kgrown S v x n v' x' (Suc n)"
proof -
  have inum: "i_inum x' = i_inum x" by (simp add: x')
  have img: "kblk v' x' ` {..<Suc n} = insert b (kblk v x ` {..<n})"
  proof -
    have "kblk v' x' ` {..<n} = kblk v x ` {..<n}" using blk' n by (intro image_cong) auto
    then show ?thesis using blk' [OF n] by (simp add: lessThan_Suc)
  qed
  have own: "kown v' x' (Suc n) = kown v x n \<union> F"
    unfolding kown_def img F(1) using i by auto
  have bm: "bitmap_block S a \<Longrightarrow> a \<notin> F" "0 \<notin> F" "IBLOCK (i_inum x) S \<notin> F" for a
    using meta F(2) by (auto simp: kmeta_def bitmap_wf_def)
  have old: "c \<notin> F" if "c \<in> kown v x n" for c using F(2) kfileD(4) [OF wf that] by blast
  have b0: "b \<in> F" "b \<noteq> 0" using bm(2) F(1) by (auto split: if_splits)
  have "inj_on (kblk v' x') {..<Suc n}"
  proof -
    have "inj_on (kblk v' x') {..<n} \<longleftrightarrow> inj_on (kblk v x) {..<n}" using blk' n by (intro inj_on_cong) simp
    moreover have "b \<notin> kblk v x ` {..<n}" using old b0(1) by (auto simp: kown_def)
    moreover have "kblk v' x' ` {..<n} = kblk v x ` {..<n}" using blk' n by (intro image_cong) auto
    ultimately show ?thesis using wf blk' [OF n] by (simp add: lessThan_Suc kfile_def)
  qed
  moreover have "\<forall>j<MAXFILE. kblk v' x' j = 0 \<longleftrightarrow> Suc n \<le> j"
    using blk' b0(2) kfileD(2) [OF wf] by (auto simp: le_Suc_eq)
  moreover have k: "kind x' = 0 \<longleftrightarrow> Suc n \<le> NDIRECT"
    using i kfileD(3) [OF wf] bm(2) F(1) by (cases n NDIRECT rule: linorder_cases) (auto split: if_splits)
  moreover have "kind x' \<notin> kblk v' x' ` {..<Suc n}" if "NDIRECT < Suc n"
    using that F(1,3) i old wf unfolding img by (cases "n = NDIRECT") (auto simp: kown_def kfile_def)
  moreover have "used S v' c \<and> \<not> bitmap_block S c \<and> c \<noteq> IBLOCK (i_inum x') S" if "c \<in> kown v' x' (Suc n)" for c
    using that u' bm kfileD(4-6) [OF wf] unfolding own inum by blast
  ultimately have wf': "kfile S v' x' (Suc n)" using n unfolding kfile_def by simp
  have meta': "kmeta S v' x'" using meta u' by (simp add: kmeta_def bitmap_wf_def inum)
  have keep: "v' (kblk v x j) = v (kblk v x j)" if "j < n" for j
    using kfileD(4,5,7,9) [OF wf] that by (intro v') auto
  have other: "v' c = v c" if "used S v c" "c \<notin> kown v x n" "\<not> bitmap_block S c" for c
    using that by (intro v') (auto simp: kown_def)
  have "free_blocks S v' = free_blocks S v - F" "F \<subseteq> free_blocks S v" using u' F(2) by (auto simp: free_blocks_def)
  moreover have "finite F" "card F + need n = need (Suc n)" using F(1,3) by (auto simp: need_def)
  ultimately have "card (free_blocks S v') + need (Suc n) = card (free_blocks S v) + need n"
    using card_Diff_subset [of F "free_blocks S v"] card_mono [of "free_blocks S v" F] by simp
  then show ?thesis
    unfolding kgrown_def kext_def using x' wf' meta' keep other blk' n own u' F(2) kfileD(4) [OF wf] by auto
qed

section \<open>The room a block takes in the log\<close>

definition kcost :: "txn \<Rightarrow> 'a dinode_scheme \<Rightarrow> nat" where
  "kcost T x = (if kind x \<noteq> 0 \<and> kind x \<in> t_logged T then 0 else 1)"

definition dcost :: "txn \<Rightarrow> u32 \<Rightarrow> nat" where
  "dcost T b = (if b \<in> t_logged T then 0 else 1)"

text \<open>A small file system has one block of bitmap, which is logged after the first allocation.\<close>

lemma bm_cost_ballocT:
  assumes "unat (sb_size S) \<le> BPB" and "b < sb_size S"
  shows "bm_cost S (ballocT S b T) = 0" and "t_room T \<le> t_room (ballocT S b T) + bm_cost S T + 1"
proof -
  have one: "BBLOCK a S = sb_bmapstart S" if "a < sb_size S" for a
    using that assms(1) by (intro BBLOCK_one) (simp add: word_less_nat_alt)
  show "bm_cost S (ballocT S b T) = 0" using one assms(2) by (simp add: bm_cost_def)
  show "t_room T \<le> t_room (ballocT S b T) + bm_cost S T + 1"
    using assms(2) by (auto simp: bm_cost_def ballocT_def)
qed

lemma dcost_ballocT [simp]: "dcost (ballocT S b T) b = 0"
  by (simp add: dcost_def)

lemma kcost_mono: "kind x' = kind x \<Longrightarrow> t_logged T \<subseteq> t_logged T' \<Longrightarrow> kcost T' x' \<le> kcost T x"
  by (auto simp: kcost_def)

text \<open>What \<^verbatim>\<open>bmap()\<close> leaves behind.\<close>

definition bmapped :: "superblock \<Rightarrow> txn \<Rightarrow> inode \<Rightarrow> nat \<Rightarrow> nat \<Rightarrow> txn \<Rightarrow> inode \<Rightarrow> bool" where
  "bmapped S T x n j T' x' \<longleftrightarrow> at_rest T' \<and> kgrown S (t_view T) x n (t_view T') x' (max n (Suc j))
     \<and> t_room T + bm_cost S T' + kcost T' x' + dcost T' (kblk (t_view T') x' j) \<le> t_room T' + bm_cost S T + kcost T x + 1"

lemma some_free: "0 < card (free_blocks S v) \<Longrightarrow> \<exists>f. f < sb_size S \<and> \<not> used S v f"
  by (auto simp: card_gt_0_iff free_blocks_def)

lemma free_in: "\<not> used S v b \<Longrightarrow> b < sb_size S"
  by (simp add: used_def not_le)

lemma after_balloc_used:
  "bitmap_wf S v \<Longrightarrow> \<not> used S v b \<Longrightarrow> used S v c \<Longrightarrow> \<not> bitmap_block S c \<Longrightarrow> after_balloc S b v c = v c"
  by (rule after_balloc_other) (auto dest: free_in bitmap_blockI)

lemma bmapped_direct:
  assumes "at_rest T" and "kmeta S (t_view T) x" and "kfile S (t_view T) x n" and "n < NDIRECT"
    and "unat (sb_size S) \<le> BPB" and b: "b < sb_size S" "\<not> used S (t_view T) b"
  shows "bmapped S T x n n (ballocT S b T) (x\<lparr>d_addrs := (d_addrs x)(n := b)\<rparr>)"
proof -
  let ?v = "t_view T" and ?x = "x\<lparr>d_addrs := (d_addrs x)(n := b)\<rparr>" and ?T = "ballocT S b T"
  have bm: "bitmap_wf S ?v" using assms(2) by (simp add: kmeta_def)
  have k: "kind ?x = kind x" "kind x = 0" using assms(4) kfileD(3) [OF assms(3)] by (simp_all add: kind_def)
  have b0: "b \<noteq> 0" using assms(2) b(2) by (auto simp: kmeta_def)
  have "kgrown S ?v x n (t_view ?T) ?x (Suc n)"
    by (rule kgrown_add [OF assms(2,3) _ refl refl])
      (use assms(4) b k b0 bm in \<open>auto simp: MAXFILE_def kblk_def used_after_balloc after_balloc_used\<close>)
  moreover have "kcost ?T ?x \<le> kcost T x" by (rule kcost_mono) (auto simp: k)
  moreover have "kblk (t_view ?T) ?x n = b" using assms(4) by (simp add: kblk_def)
  ultimately show ?thesis
    using assms(1) bm_cost_ballocT [OF assms(5) b(1), of T] by (simp add: bmapped_def at_rest_def)
qed

text \<open>The entry of the indirect block is stored after the block is taken.\<close>

lemma used_frame: "\<not> bitmap_block S k \<Longrightarrow> used S (v(k := d)) c = used S v c"
  using bitmap_blockI [of c S] by (cases "c < sb_size S") (auto simp: used_in used_def not_less)

lemma get32_zero_bytes: "(\<And>k. i \<le> k \<Longrightarrow> k < i + 4 \<Longrightarrow> d k = 0) \<Longrightarrow> get32 d i = 0"
  by (rule bit_word_eqI) (simp add: bit_get32)

lemma get32_put32_entry: "get32 (put32 (4 * i) b d) (4 * j) = (if i = j then b else get32 d (4 * j))"
proof -
  have "4 * i + 4 \<le> 4 * j \<or> 4 * j + 4 \<le> 4 * i" if "i \<noteq> j" using that by presburger
  then show ?thesis by (auto simp: get32_put32_other)
qed

definition tableT :: "superblock \<Rightarrow> u32 \<Rightarrow> nat \<Rightarrow> u32 \<Rightarrow> txn \<Rightarrow> txn" where
  "tableT S k j b T = edit k (put32 (4 * j) b) (ballocT S b T)"

lemma tableT_view:
  assumes "bitmap_wf S v" "\<not> used S v b" "used S v k" "\<not> bitmap_block S k"
  shows "t_view (tableT S k j b T) = (after_balloc S b (t_view T))(k := put32 (4 * j) b (after_balloc S b (t_view T) k))"
    and "t_view T = v \<Longrightarrow> used S (t_view (tableT S k j b T)) c \<longleftrightarrow> c = b \<or> used S v c"
    and "t_view T = v \<Longrightarrow> t_view (tableT S k j b T) k = put32 (4 * j) b (v k)"
    and "t_view T = v \<Longrightarrow> used S v c \<Longrightarrow> \<not> bitmap_block S c \<Longrightarrow> c \<noteq> k \<Longrightarrow> t_view (tableT S k j b T) c = v c"
proof -
  show e: "t_view (tableT S k j b T) = (after_balloc S b (t_view T))(k := put32 (4 * j) b (after_balloc S b (t_view T) k))"
    by (simp add: tableT_def)
  show "t_view T = v \<Longrightarrow> used S (t_view (tableT S k j b T)) c \<longleftrightarrow> c = b \<or> used S v c"
    unfolding e using used_frame [OF assms(4)] used_after_balloc [OF assms(1,2)] by simp
  show "t_view T = v \<Longrightarrow> t_view (tableT S k j b T) k = put32 (4 * j) b (v k)"
    unfolding e using after_balloc_used [OF assms] by simp
  show "t_view T = v \<Longrightarrow> used S v c \<Longrightarrow> \<not> bitmap_block S c \<Longrightarrow> c \<noteq> k \<Longrightarrow> t_view (tableT S k j b T) c = v c"
    unfolding e using after_balloc_used [OF assms(1,2)] by simp
qed

lemma tableT_room:
  assumes "unat (sb_size S) \<le> BPB" and "b < sb_size S"
  shows "bm_cost S (tableT S k j b T) = 0"
    and "t_room T \<le> t_room (tableT S k j b T) + bm_cost S T + 1 + dcost T k"
    and "dcost (tableT S k j b T) b = 0" "dcost (tableT S k j b T) k = 0" "at_rest (tableT S k j b T) = at_rest T"
  using bm_cost_ballocT [OF assms, of T] assms(2)
  by (auto simp: tableT_def bm_cost_def dcost_def at_rest_def split: if_splits)

lemma kcost_dcost: "kind x \<noteq> 0 \<Longrightarrow> kcost T x = dcost T (kind x)"
  by (simp add: kcost_def dcost_def)

lemma bmapped_further:
  assumes "at_rest T" and "kmeta S (t_view T) x" and "kfile S (t_view T) x n" and "NDIRECT < n" "n < MAXFILE"
    and "unat (sb_size S) \<le> BPB" and b: "b < sb_size S" "\<not> used S (t_view T) b"
  defines "T' \<equiv> tableT S (kind x) (n - NDIRECT) b T"
  shows "bmapped S T x n n T' x" and "kblk (t_view T') x n = b"
proof -
  let ?v = "t_view T"
  have bm: "bitmap_wf S ?v" using assms(2) by (simp add: kmeta_def)
  have k: "kind x \<noteq> 0" "used S ?v (kind x)" "\<not> bitmap_block S (kind x)"
    using assms(4) kfileD [OF assms(3)] by auto
  note view = tableT_view [OF bm b(2) k(2,3)]
  have blk: "kblk (t_view T') x j = (if j = n then b else kblk ?v x j)" for j
    using k(1) assms(4) by (auto simp: kblk_def T'_def view(3) [OF refl] get32_put32_entry)
  show kb: "kblk (t_view T') x n = b" by (simp add: blk)
  have "kgrown S ?v x n (t_view T') x (Suc n)"
  proof (rule kgrown_add [OF assms(2,3,5) _ refl])
    show "x = x\<lparr>d_addrs := d_addrs x\<rparr>" by simp
  qed (use assms(4) b k(2) in \<open>auto simp: blk [unfolded T'_def] T'_def view(2) [OF refl] view(4) [OF refl]\<close>)
  then show "bmapped S T x n n T' x"
    using assms(1) tableT_room [OF assms(6) b(1), where T = T and k = "kind x" and j = "n - NDIRECT"] k(1)
    by (simp add: bmapped_def kb [unfolded T'_def] kcost_dcost T'_def)
qed

lemma bmapped_first:
  assumes "at_rest T" and "kmeta S (t_view T) x" and "kfile S (t_view T) x NDIRECT"
    and "unat (sb_size S) \<le> BPB" and i: "i < sb_size S" "\<not> used S (t_view T) i"
    and b: "b < sb_size S" "\<not> used S (after_balloc S i (t_view T)) b"
  defines "T' \<equiv> tableT S i 0 b (ballocT S i T)" and "x' \<equiv> x\<lparr>d_addrs := (d_addrs x)(NDIRECT := i)\<rparr>"
  shows "bmapped S T x NDIRECT NDIRECT T' x'" and "kblk (t_view T') x' NDIRECT = b"
proof -
  let ?v = "t_view T" and ?w = "after_balloc S i (t_view T)"
  have bm: "bitmap_wf S ?v" and i0: "i \<noteq> 0" using assms(2) i(2) by (auto simp: kmeta_def)
  have w: "used S ?w c \<longleftrightarrow> c = i \<or> used S ?v c" for c by (rule used_after_balloc [OF bm i(2)])
  have bw: "bitmap_wf S ?w" "used S ?w i" using bm by (simp_all add: bitmap_wf_def w)
  have bi: "\<not> bitmap_block S i" using bm i(2) by (auto simp: bitmap_wf_def)
  have ne: "b \<noteq> i" "\<not> used S ?v b" using b(2) by (auto simp: w)
  note view = tableT_view [OF bw(1) b(2) bw(2) bi]
  have k: "kind x' = i" "kind x = 0" using kfileD(3) [OF assms(3)] by (simp_all add: kind_def x'_def)
  have zero: "get32 (?w i) (4 * j) = 0" if "j < NINDIRECT" for j
    by (rule get32_zero_bytes) (use that in \<open>simp add: after_balloc_zero NINDIRECT_def BSIZE_def\<close>)
  have blk: "kblk (t_view T') x' j = (if j = NDIRECT then b else kblk ?v x j)" if "j < MAXFILE" for j
    using that k i0 zero
    by (auto simp: kblk_def T'_def view(3) get32_put32_entry [of 0, simplified] x'_def MAXFILE_def)
  show kb: "kblk (t_view T') x' NDIRECT = b" using blk [of NDIRECT] by (simp add: MAXFILE_def NINDIRECT_def BSIZE_def)
  have u': "used S (t_view T') c \<longleftrightarrow> c = b \<or> c = i \<or> used S ?v c" for c by (simp add: T'_def view(2) w)
  have keep: "t_view T' c = ?v c" if "used S ?v c" "\<not> bitmap_block S c" for c
    using that i(2) view(4) [of "ballocT S i T" c 0] after_balloc_used [OF bm i(2) that] by (auto simp: T'_def w)
  have "kgrown S ?v x NDIRECT (t_view T') x' (Suc NDIRECT)"
    by (rule kgrown_add [OF assms(2,3) _ meta_eq_to_obj_eq [OF x'_def] refl])
      (use i b(1) ne keep in \<open>auto simp: blk u' k MAXFILE_def NINDIRECT_def BSIZE_def\<close>)
  then show "bmapped S T x NDIRECT NDIRECT T' x'"
    using assms(1) tableT_room [OF assms(4) b(1), where T = "ballocT S i T" and k = i and j = 0] i0
      bm_cost_ballocT [OF assms(4) i(1), of T]
    by (simp add: bmapped_def kb [unfolded T'_def] T'_def kcost_dcost k) (simp add: kcost_def k at_rest_def)
qed

section \<open>Allocating a block of a file\<close>

lemma held_edit:
  "t_held T k = None \<Longrightarrow>
     edit k f ((ballocT S b (T\<lparr>t_held := (t_held T)(k \<mapsto> c)\<rparr>))\<lparr>t_held := (t_held T)(k := None)\<rparr>) = edit k f (ballocT S b T)"
  by (cases T) (simp add: edit_def ballocT_def fun_upd_idem)

lemma bm_cost_held [simp]: "bm_cost S (T\<lparr>t_held := h\<rparr>) = bm_cost S T"
  by (simp add: bm_cost_def)

lemma at_rest_held_ready:
  "at_rest T \<Longrightarrow> bitmap_wf S (t_view T) \<Longrightarrow> used S (t_view T) k \<Longrightarrow> \<not> bitmap_block S k \<Longrightarrow>
     alloc_ready S (T\<lparr>t_held := (t_held T)(k \<mapsto> c)\<rparr>)"
  by (auto simp: at_rest_def alloc_ready_def)

text \<open>The entry of an indirect block that is still 0.\<close>

lemma fsx_table:
  fixes s :: "'z fsst_scheme"
  assumes T: "at_rest T" "bitmap_wf S (t_view T)" "used S (t_view T) k" "\<not> bitmap_block S k" and S: "sb s = S" "unat (sb_size S) \<le> BPB"
    and L: "LogLk dev \<notin> L" and room: "bm_cost S T + 1 + dcost T k \<le> t_room T"
    and f: "0 < card (free_blocks S (t_view T))" and e: "get32 (t_view T k) (4 * j) = 0"
    and g: "\<And>b. b < sb_size S \<Longrightarrow> \<not> used S (t_view T) b \<Longrightarrow> fsx L p dev (tableT S k j b T) s (g b) L' R"
  shows "fsx L p dev T s (bnd (bread dev k) (\<lambda>bp. bnd (get_buf bp (\<lambda>b. get32 (b_data b) (4 * j))) (\<lambda>addr.
       bnd (if addr = 0 then bnd (balloc dev) (\<lambda>addr. thn (upd_data bp (put32 (4 * j) addr)) (thn (log_write bp) (ret addr)))
            else ret addr) (\<lambda>addr. thn (brelse bp) (g addr))))) L' R"
proof -
  have h: "t_held T k = None" "k \<notin> t_dirty T" "dom (t_held T) = {}" using T(1) by (simp_all add: at_rest_def)
  from some_free [OF f] obtain fr where fr: "fr < sb_size S" "\<not> used S (t_view T) fr" by blast
  have rest: "fsx L p dev (ballocT S b (T\<lparr>t_held := (t_held T)(k \<mapsto> c)\<rparr>)) s
      (thn (upd_data c (put32 (4 * j) b)) (thn (log_write c) (thn (brelse c) (g b)))) L' R"
    if b: "b < sb_size S" "\<not> used S (t_view T) b" for b c
  proof (rule fsx_log_edit [where bn = k])
    have "t_room T \<le> t_room (ballocT S b T) + bm_cost S T + 1" by (rule bm_cost_ballocT [OF S(2) b(1)])
    moreover have "t_room (ballocT S b (T\<lparr>t_held := (t_held T)(k \<mapsto> c)\<rparr>)) = t_room (ballocT S b T)" by (simp add: ballocT_def)
    ultimately show "can_log k (ballocT S b (T\<lparr>t_held := (t_held T)(k \<mapsto> c)\<rparr>))"
      using room by (auto simp: can_log_def dcost_def split: if_splits)
    show "fsx L p dev (edit k (put32 (4 * j) b) ((ballocT S b (T\<lparr>t_held := (t_held T)(k \<mapsto> c)\<rparr>))
        \<lparr>t_held := (t_held (ballocT S b (T\<lparr>t_held := (t_held T)(k \<mapsto> c)\<rparr>)))(k := None)\<rparr>)) s (g b) L' R"
      using g [OF b] held_edit [OF h(1)] by (simp add: tableT_def)
  qed (use h L in simp_all)
  show ?thesis
    apply (rule fsx_bread [OF h(1)], (simp add: h(3))[1], rule fsx_get_data [where bn = k], simp)
    apply (simp add: e seq_assoc)
    apply (rule fsx_balloc [where f = fr])
    using at_rest_held_ready [OF T] S L room fr rest h by simp_all
qed

text \<open>The first block behind the direct ones, once the indirect block \<open>i\<close> is taken.\<close>

lemma fsx_first:
  fixes s :: "'z fsst_scheme"
  assumes s: "sb s = S" "icache s ip = x" and T: "at_rest T" "kmeta S (t_view T) x" "kfile S (t_view T) x NDIRECT"
    and S: "unat (sb_size S) \<le> BPB" and L: "LogLk dev \<notin> L" and two: "2 \<le> card (free_blocks S (t_view T))"
    and room: "bm_cost S T + 2 \<le> t_room T" and i: "i < sb_size S" "\<not> used S (t_view T) i"
    and g: "\<And>T' x'. bmapped S T x NDIRECT NDIRECT T' x' \<Longrightarrow>
      fsx L p dev T' (s\<lparr>icache := (icache s)(ip := x')\<rparr>) (g (kblk (t_view T') x' NDIRECT)) L' R"
  shows "fsx L p dev (ballocT S i T) (s\<lparr>icache := upd (icache s) ip (\<lambda>x. x\<lparr>d_addrs := (d_addrs x)(NDIRECT := i)\<rparr>)\<rparr>)
     (bnd (bread dev i) (\<lambda>bp. bnd (get_buf bp (\<lambda>b. get32 (b_data b) (4 * 0))) (\<lambda>addr.
     bnd (if addr = 0 then bnd (balloc dev) (\<lambda>addr. thn (upd_data bp (put32 (4 * 0) addr)) (thn (log_write bp) (ret addr)))
          else ret addr) (\<lambda>addr. thn (brelse bp) (g addr))))) L' R"
proof (rule fsx_table)
  let ?T = "ballocT S i T"
  have bm: "bitmap_wf S (t_view T)" using T(2) by (simp add: kmeta_def)
  note w = used_after_balloc [OF bm i(2)]
  show "at_rest ?T" using T(1) by (simp add: at_rest_def)
  show "bitmap_wf S (t_view ?T)" "used S (t_view ?T) i" using bm by (simp_all add: bitmap_wf_def w)
  show "\<not> bitmap_block S i" using bm i(2) by (auto simp: bitmap_wf_def)
  show "bm_cost S ?T + 1 + dcost ?T i \<le> t_room ?T" using bm_cost_ballocT [OF S i(1), of T] room by simp
  have "free_blocks S (t_view ?T) = free_blocks S (t_view T) - {i}" by (auto simp: free_blocks_def w)
  then show "0 < card (free_blocks S (t_view ?T))" using two i by (simp add: free_blocks_def)
  show "get32 (t_view ?T i) (4 * 0) = 0" by (rule get32_zero_bytes) (simp add: after_balloc_zero BSIZE_def)
  fix b
  assume "b < sb_size S" "\<not> used S (t_view ?T) b"
  then show "fsx L p dev (tableT S i 0 b ?T) (s\<lparr>icache := upd (icache s) ip (\<lambda>x. x\<lparr>d_addrs := (d_addrs x)(NDIRECT := i)\<rparr>)\<rparr>) (g b) L' R"
    using g [of "tableT S i 0 b ?T" "x\<lparr>d_addrs := (d_addrs x)(NDIRECT := i)\<rparr>"] T s(2) S i bmapped_first [of T S x i b]
    by (simp add: upd_def)
qed (use s S L in simp_all)

text \<open>\<^verbatim>\<open>bmap()\<close> of a block of the file, or of the first one behind it.\<close>

lemma fsx_bmap:
  fixes s :: "'z fsst_scheme"
  assumes s: "sb s = S" "icache s ip = x" "i_dev x = dev" and T: "at_rest T" "kmeta S (t_view T) x" "kfile S (t_view T) x n"
    and j: "j \<le> n" "j < MAXFILE" and S: "unat (sb_size S) \<le> BPB" and L: "LogLk dev \<notin> L"
    and free: "need (Suc j) \<le> card (free_blocks S (t_view T)) + need n"
    and room: "bm_cost S T + kcost T x + 1 \<le> t_room T"
    and g: "\<And>T' x'. bmapped S T x n j T' x' \<Longrightarrow> fsx L p dev T' (s\<lparr>icache := (icache s)(ip := x')\<rparr>) (g (kblk (t_view T') x' j)) L' R"
  shows "fsx L p dev T s (bnd (bmap ip (of_nat j)) g) L' R"
proof -
  let ?v = "t_view T"
  have u: "unat (of_nat j :: u32) = j" using j(2) by (simp add: unat_of_nat_u32 MAXFILE_def NINDIRECT_def BSIZE_def NDIRECT_def)
  have bm: "bitmap_wf S ?v" and dom: "dom (t_held T) = {}" using T(1,2) by (simp_all add: kmeta_def at_rest_def)
  have same: "s\<lparr>icache := (icache s)(ip := x)\<rparr> = s" using s(2) by (simp add: fun_upd_idem)
  have fr: "0 < card (free_blocks S ?v)" if "j = n" using that free by (simp add: need_def split: if_splits)
  consider "j < n" | "j = n" "n < NDIRECT" | "j = n" "n = NDIRECT" | "j = n" "NDIRECT < n" using j(1) by linarith
  then show ?thesis
  proof cases
    case 1
    then have "bmapped S T x n j T x"
      using T kgrown_refl [OF T(2,3)] by (simp add: bmapped_def max_absorb1 dcost_def)
    from g [OF this, unfolded same] kfileD(2) [OF T(3) j(2)] 1 show ?thesis
      using T(1) j(2) by (intro fsx_bmap_old) (simp_all only: s u, simp_all add: at_rest_def)
  next
    case 2
    from some_free [OF fr [OF 2(1)]] obtain f where f: "f < sb_size S" "\<not> used S ?v f" by blast
    have a: "d_addrs x j = 0" using kfileD(2) [OF T(3) j(2)] 2 by (simp add: kblk_def)
    have step: "fsx L p dev (ballocT S b T) s (thn (upd_inode ip (\<lambda>x. x\<lparr>d_addrs := (d_addrs x)(n := b)\<rparr>)) (g b)) L' R"
      if "b < sb_size S" "\<not> used S ?v b" for b
      using g [unfolded 2(1), OF bmapped_direct [OF T 2(2) S that]] s(2) 2
      by (intro fsx_upd_inode) (simp add: upd_def kblk_def)
    show ?thesis
      unfolding bmap_def seq_assoc
      apply (rule fsx_get_inode, simp only: s u, simp only: 2 if_True seq_assoc)
      apply (rule fsx_get_inode, simp only: s a [unfolded 2(1)] simp_thms if_True seq_assoc, rule fsx_balloc [where f = f])
      using at_rest_ready [OF T(1) bm] s S L room f step dom by (simp_all add: 2)
  next
    case 3
    have i0: "kind x = 0" "d_addrs x NDIRECT = 0" using kfileD(3) [OF T(3)] 3 by (simp_all add: kind_def)
    have d: "\<not> unat (of_nat j :: u32) < NDIRECT" "unat (of_nat j - of_nat NDIRECT :: u32) = 0" "0 < NINDIRECT"
      using 3 u by (simp_all add: NINDIRECT_def BSIZE_def)
    have two: "2 \<le> card (free_blocks S ?v)" using free 3 by (simp add: need_def)
    from some_free [OF fr [OF 3(1)]] obtain f where f: "f < sb_size S" "\<not> used S ?v f" by blast
    show ?thesis
      unfolding bmap_def seq_assoc
      apply (rule fsx_get_inode, unfold s d(2) if_not_P [OF d(1)] if_P [OF d(3)] Let_def seq_assoc)
      apply (rule fsx_get_inode, unfold s i0 if_P [OF refl] seq_assoc, rule fsx_balloc [where f = f])
      apply (use at_rest_ready [OF T(1) bm] s S L room f dom in simp_all)[6]
      unfolding s(1) by (rule fsx_upd_inode, rule fsx_first [OF s(1,2) T [unfolded 3(2)] S L two]) (use room i0 g [unfolded 3] in \<open>simp_all add: kcost_def\<close>)
  next
    case 4
    have i0: "kind x \<noteq> 0" "used S ?v (kind x)" "\<not> bitmap_block S (kind x)" using 4 kfileD [OF T(3)] by auto
    have e: "get32 (?v (kind x)) (4 * (n - NDIRECT)) = 0" "n - NDIRECT < NINDIRECT"
      using kfileD(2) [OF T(3) j(2)] 4 i0 j(2) by (auto simp: kblk_def MAXFILE_def)
    have d: "\<not> unat (of_nat j :: u32) < NDIRECT" "unat (of_nat j - of_nat NDIRECT :: u32) = n - NDIRECT"
      using unat_sub_direct [of "of_nat j"] u 4 by simp_all
    have step: "fsx L p dev (tableT S (kind x) (n - NDIRECT) b T) s (g b) L' R" if "b < sb_size S" "\<not> used S ?v b" for b
      using g bmapped_further [OF T 4(2) _ S that] 4 j(2) same by fastforce
    show ?thesis
      unfolding bmap_def seq_assoc
      apply (rule fsx_get_inode, unfold s d(2) if_not_P [OF d(1)] if_P [OF e(2)] Let_def seq_assoc)
      apply (rule fsx_get_inode, unfold s kind_def [symmetric] if_not_P [OF i0(1)] seq_assoc)
      by (rule fsx_table) (use T bm s S L fr 4 step i0 e(1) room in \<open>simp_all add: kcost_dcost\<close>)
  qed
qed

section \<open>Property\<close>

lemma drop_map_upt: "take n (drop i (map f [0..<l])) = map f [i..<i + min n (l - i)]"
  by (rule nth_equalityI) auto

lemma plus_wraps:
  fixes a b :: u32
  assumes "\<not> unat a + unat b < 2 ^ 32"
  shows "a + b < a"
proof -
  have "unat a < 2 ^ 32" "unat b < 2 ^ 32" by (rule order_less_le_trans [OF unsigned_less], simp)+
  then have "unat (a + b) = unat a + unat b - 2 ^ 32" using assms by (simp add: unat_word_ariths mod_if)
  then show ?thesis using assms \<open>unat b < 2 ^ 32\<close> by (simp add: word_less_nat_alt)
qed

lemma readi_run:
  fixes s :: "'z fsst_scheme" and ip :: nat
  defines "x \<equiv> icache s ip"
  assumes "bready {} p s" and "intxn dev T D (logs s dev) (cabs s)" and "i_dev x = dev" and "readable T x"
    and "unat off \<le> unat (d_size x)" and "unat off + unat n < 2 ^ 32"
  shows "\<exists>t bs. readi ip KernelObj off n s = Done (int (length bs), bs) t \<and> bs = take (unat n) (drop (unat off) (kcontent (t_view T) x))
      \<and> bready {} p t \<and> intxn dev T D (logs t dev) (cabs t) \<and> icache t = icache s \<and> sb t = sb s"
proof -
  let ?bs = "take (unat n) (drop (unat off) (kcontent (t_view T) x))"
  have bs: "(int (min (unat n) (unat (d_size x) - unat off)),
      map (kbyte (t_view T) x) [unat off..<unat off + min (unat n) (unat (d_size x) - unat off)]) = (int (length ?bs), ?bs)"
    unfolding kcontent_def drop_map_upt by simp
  have "fsx {} p dev T s (bnd (readi ip KernelObj off n) ret) {} (\<lambda>r T' s'. r = (int (length ?bs), ?bs) \<and> T' = T \<and> s' = s)"
    by (rule fsx_readi [OF assms(4,5,6,7) [unfolded x_def]]) (use bs in \<open>auto simp: x_def intro!: fsx_ret\<close>)
  then obtain r t T' s' where t: "bnd (readi ip KernelObj off n) ret s = Done r t" "bready {} p t"
    "bio_same (s'\<lparr>logs := logs t\<rparr>) t" "intxn dev T' D (logs t dev) (cabs t)" "r = (int (length ?bs), ?bs) \<and> T' = T \<and> s' = s"
    by (rule fsx_run [OF _ assms(2,3)])
  have "readi ip KernelObj off n s = Done r t" using t(1) by (simp add: run split: outcome.splits)
  moreover have "sb t = sb s" "icache t = icache s" using same_sb(1) [OF t(3)] same_icache(1) [OF t(3)] t(5) by simp_all
  ultimately show ?thesis using t by (intro exI [of _ t] exI [of _ ?bs]) simp
qed

text \<open>
  C15: \<^verbatim>\<open>readi()\<close> to a kernel variable returns the bytes of the file from \<^verbatim>\<open>off\<close> on, at
  most \<^verbatim>\<open>n\<close> and up to its end, through direct and indirect blocks, and their number; it changes no
  block and no inode.  An \<^verbatim>\<open>off\<close> behind the end and a range that wraps around give -1.
\<close>

theorem readi_reads:
  assumes "bready {} p s" and "intxn dev T D (logs s dev) (cabs s)" and "i_dev (icache s ip) = dev" and "readable T (icache s ip)"
  shows "if unat off \<le> unat (d_size (icache s ip)) \<and> unat off + unat n < 2 ^ 32
    then \<exists>t bs. readi ip KernelObj off n s = Done (int (length bs), bs) t
      \<and> bs = take (unat n) (drop (unat off) (kcontent (t_view T) (icache s ip)))
      \<and> bready {} p t \<and> intxn dev T D (logs t dev) (cabs t) \<and> icache t = icache s \<and> sb t = sb s
    else readi ip KernelObj off n s = Done (-1, []) s"
proof (cases "unat off \<le> unat (d_size (icache s ip)) \<and> unat off + unat n < 2 ^ 32")
  case True
  with readi_run [OF assms] show ?thesis by simp
next
  case False
  then have "off > d_size (icache s ip) \<or> off + n < off" using plus_wraps [of off n] by (auto simp: word_less_nat_alt)
  then have "readi ip KernelObj off n s = Done (-1, []) s" by (simp add: readi_def run get_inode_def)
  with False show ?thesis by (simp only: if_False)
qed

text \<open>A file of two blocks, one behind the other.\<close>

definition two_blocks :: inode where
  "two_blocks = \<lparr>d_type = 2, d_major = 0, d_minor = 0, d_nlink = 1, d_size = 1026, d_addrs = (\<lambda>i. if i < 2 then of_nat (46 + i) else 0),
     i_dev = 0, i_inum = 3, i_ref = 1, i_valid = True\<rparr>"

theorem readi_reads_witness:
  "\<exists>t. readi 5 KernelObj 1022 10 (open_fs (\<lambda>k _. ucast (snd k)) small_sb (\<lambda>_. two_blocks)) = Done (4, [46, 46, 47, 47]) t"
proof -
  let ?s = "open_fs (\<lambda>k _. ucast (snd k)) small_sb (\<lambda>_. two_blocks)" and ?T = "fresh_txn 0 (\<lambda>k _. ucast (snd k))"
  have i: "intxn 0 ?T (\<lambda>k _. ucast (snd k), []) (logs ?s 0) (cabs ?s)" by (rule open_fs_ready(4)) simp
  have x: "icache ?s 5 = two_blocks" "i_dev two_blocks = 0" "d_size two_blocks = 1026" by (simp_all add: open_fs_ready(3) two_blocks_def)
  have blk: "kblk v two_blocks j = of_nat (46 + j)" if "j < 2" for v j using that by (simp add: kblk_def two_blocks_def NDIRECT_def)
  have "k div BSIZE < 2" if "k < 1026" for k using that by (simp add: BSIZE_def div_less_iff_less_mult)
  moreover have "kblk v two_blocks j \<noteq> 0" if "j < 2" for v j
  proof -
    have "unat (kblk v two_blocks j) = 46 + j" using that unfolding blk [OF that] by (simp add: unat_of_nat_u32 del: of_nat_add)
    then show ?thesis by auto
  qed
  ultimately have rd: "readable ?T two_blocks"
    by (simp add: readable_def x fresh_txn_def) (simp add: fs_consts)
  have bytes: "take 10 (drop 1022 (kcontent (t_view ?T) two_blocks)) = [46, 46, 47, 47]"
    unfolding kcontent_def drop_map_upt x(3) by (simp add: kbyte_def blk BSIZE_def fresh_txn_def upt_conv_Cons)
  from readi_reads [OF open_fs_ready(1) i, of 5 1022 10] rd bytes show ?thesis by (auto simp: x)
qed

end
