(* ===== verification/InodeWrite.thy ===== *)
theory InodeWrite
  imports Inode
begin

text \<open>
  \<^verbatim>\<open>writei()\<close> of \<^verbatim>\<open>kernel/fs.c\<close> stores the bytes it is given: the blocks it needs are
  allocated by \<^verbatim>\<open>bmap()\<close>, the log has room for the blocks it changes, and the inode on the disk
  follows the one in memory.
\<close>

section \<open>Overwriting a block\<close>

lemma kblk_data:
  assumes "kfile S v x n" and "j < n"
  shows "kblk (v(kblk v x j := d)) x k = kblk v x k"
  using kfileD(9) [OF assms] by (auto simp: kblk_def)

lemma kown_data: "kfile S v x n \<Longrightarrow> j < n \<Longrightarrow> kown (v(kblk v x j := d)) x n = kown v x n"
  by (simp add: kown_def kblk_data)

lemma kext_data:
  assumes "kmeta S v x" and "kfile S v x n" and "j < n"
  shows "kext S v x n (v(kblk v x j := d)) x n"
proof -
  let ?b = "kblk v x j"
  have own: "?b \<in> kown v x n" by (rule kfileD(7) [OF assms(2,3)])
  have u: "used S (v(?b := d)) c = used S v c" for c
    using kfileD(5) [OF assms(2) own] by (intro used_frame) blast
  have "kmeta S (v(?b := d)) x" using assms(1) by (simp add: kmeta_def bitmap_wf_def u)
  moreover have "kfile S (v(?b := d)) x n"
    using assms(2) unfolding kfile_def kown_data [OF assms(2,3)] by (simp add: kblk_data [OF assms(2,3)] u cong: image_cong inj_on_cong)
  ultimately show ?thesis
    unfolding kext_def kown_data [OF assms(2,3)]
    using own kfileD(4) [OF assms(2)] by (auto simp: u free_blocks_def)
qed

lemma block_mem:
  fixes B :: nat
  assumes "k0 mod B + c \<le> B"
  shows "k0 \<le> k \<and> k < k0 + c \<longleftrightarrow> k div B = k0 div B \<and> k0 mod B \<le> k mod B \<and> k mod B < k0 mod B + c"
proof
  assume k: "k0 \<le> k \<and> k < k0 + c"
  then obtain e where e: "k = k0 + e" "e < c" by (metis le_Suc_ex nat_add_left_cancel_less)
  then show "k div B = k0 div B \<and> k0 mod B \<le> k mod B \<and> k mod B < k0 mod B + c"
    using block_split [of k0 B e] assms by simp
next
  assume k: "k div B = k0 div B \<and> k0 mod B \<le> k mod B \<and> k mod B < k0 mod B + c"
  have "k = B * (k0 div B) + k mod B" "k0 = B * (k0 div B) + k0 mod B" using k by (metis mult_div_mod_eq)+
  then show "k0 \<le> k \<and> k < k0 + c" using k by linarith
qed

lemma kbyte_put:
  assumes "kfile S v x n" and "k0 div BSIZE < n" and "k0 mod BSIZE + length cs \<le> BSIZE" and "k < n * BSIZE"
  defines "b \<equiv> kblk v x (k0 div BSIZE)"
  shows "kbyte (v(b := put_list (k0 mod BSIZE) cs (v b))) x k = (if k0 \<le> k \<and> k < k0 + length cs then cs ! (k - k0) else kbyte v x k)"
proof -
  have "k div BSIZE < n" using assms(4) by (simp add: BSIZE_def div_less_iff_less_mult)
  then have "kblk v x (k div BSIZE) = b \<longleftrightarrow> k div BSIZE = k0 div BSIZE"
    using assms(1,2) unfolding kfile_def b_def by (auto dest: inj_onD)
  moreover have "k - k0 = k mod BSIZE - k0 mod BSIZE" if "k div BSIZE = k0 div BSIZE"
    using mult_div_mod_eq [of BSIZE k] mult_div_mod_eq [of BSIZE k0] that by (metis diff_cancel2 add.commute)
  ultimately show ?thesis
    unfolding kbyte_def b_def kblk_data [OF assms(1,2)] block_mem [OF assms(3)] by (auto simp: put_list_def)
qed

section \<open>The loop\<close>

lemma nblk_bound:
  shows "k < nblk l * BSIZE \<longleftrightarrow> k div BSIZE < nblk l" and "k < l \<Longrightarrow> k div BSIZE < nblk l"
    and "k div BSIZE \<le> nblk k" and "k \<le> l \<Longrightarrow> nblk k \<le> nblk l" and "nblk k \<le> n \<longleftrightarrow> k \<le> n * BSIZE"
proof -
  show "k < nblk l * BSIZE \<longleftrightarrow> k div BSIZE < nblk l" by (simp add: div_less_iff_less_mult BSIZE_def)
  show "k div BSIZE < nblk l" if "k < l"
    using div_le_mono [of "k + BSIZE" "l + (BSIZE - 1)" BSIZE] that by (simp add: nblk_def BSIZE_def)
  show "k div BSIZE \<le> nblk k" unfolding nblk_def by (intro div_le_mono) (simp add: BSIZE_def)
  show "nblk k \<le> nblk l" if "k \<le> l" unfolding nblk_def using that by (intro div_le_mono) simp
  have "nblk k < Suc n \<longleftrightarrow> k \<le> n * BSIZE"
    unfolding nblk_def by (subst div_less_iff_less_mult) (auto simp: BSIZE_def)
  then show "nblk k \<le> n \<longleftrightarrow> k \<le> n * BSIZE" unfolding less_Suc_eq_le .
qed

lemma chunk:
  fixes i :: nat
  assumes "a < m"
  defines "c \<equiv> min (m - a) (BSIZE - (i + a) mod BSIZE)"
  shows "0 < c" and "(i + a) mod BSIZE + c \<le> BSIZE" and "a + c \<le> m" and "nblk (i + a + c) = Suc ((i + a) div BSIZE)"
    and "a + c < m \<Longrightarrow> (i + a + c) div BSIZE = Suc ((i + a) div BSIZE)"
proof -
  show c: "0 < c" "(i + a) mod BSIZE + c \<le> BSIZE" "a + c \<le> m" using assms(1) by (auto simp: c_def BSIZE_def)
  let ?k = "i + a"
  define q r where "q = ?k div BSIZE" and "r = ?k mod BSIZE"
  have k: "?k = BSIZE * q + r" by (simp add: q_def r_def)
  have r: "r + c \<le> BSIZE" using c by (simp add: r_def)
  have "(?k + c + (BSIZE - 1)) div BSIZE = Suc q"
    unfolding k using r c(1) by (intro div_nat_eqI) (simp_all add: BSIZE_def)
  then show "nblk (i + a + c) = Suc ((i + a) div BSIZE)" by (simp add: nblk_def q_def)
  have "(?k + c) div BSIZE = Suc q" if "r + c = BSIZE"
    unfolding k using that by (intro div_nat_eqI) (simp_all add: BSIZE_def)
  moreover have "r + c = BSIZE" if "a + c < m" using that by (auto simp: c_def r_def min_def BSIZE_def split: if_splits)
  ultimately show "a + c < m \<Longrightarrow> (i + a + c) div BSIZE = Suc ((i + a) div BSIZE)" by (simp add: q_def)
qed

text \<open>The blocks still to be written, and the state after \<open>a\<close> of the bytes.\<close>

definition wleft :: "nat \<Rightarrow> nat \<Rightarrow> nat \<Rightarrow> nat" where
  "wleft i a m = (if a < m then nblk (i + m) - (i + a) div BSIZE else 0)"

definition writing :: "superblock \<Rightarrow> (u32 \<Rightarrow> block) \<Rightarrow> inode \<Rightarrow> nat \<Rightarrow> nat \<Rightarrow> u8 list \<Rightarrow> nat \<Rightarrow> txn \<Rightarrow> inode \<Rightarrow> bool" where
  "writing S v x n i bs a T' x' \<longleftrightarrow> at_rest T' \<and> kext S v x n (t_view T') x' (max n (nblk (i + a)))
     \<and> (\<forall>k. k < n * BSIZE \<or> i \<le> k \<and> k < i + a \<longrightarrow>
          kbyte (t_view T') x' k = (if i \<le> k \<and> k < i + a then bs ! (k - i) else kbyte v x k))
     \<and> bm_cost S T' + kcost T' x' + wleft i a (length bs) + 1 \<le> t_room T'"

lemma inode_addrs_other:
  "y = (x :: inode)\<lparr>d_addrs := f\<rparr> \<Longrightarrow> d_size y = d_size x" "y = (x :: inode)\<lparr>d_addrs := f\<rparr> \<Longrightarrow> i_inum y = i_inum x"
  "y = (x :: inode)\<lparr>d_addrs := f\<rparr> \<Longrightarrow> i_dev y = i_dev x"
  by simp_all

lemma inode_addrs_size: "y = (x :: inode)\<lparr>d_addrs := d_addrs y\<rparr> \<Longrightarrow>
    y\<lparr>d_size := z\<rparr> = x\<lparr>d_addrs := d_addrs (y\<lparr>d_size := z\<rparr>), d_size := d_size (y\<lparr>d_size := z\<rparr>)\<rparr>"
  by (cases x; cases y) simp

lemma kgrown_kbyte: "kgrown S v x n v' x' n' \<Longrightarrow> k < n * BSIZE \<Longrightarrow> kbyte v' x' k = kbyte v x k"
  by (simp add: kgrown_def kbyte_def BSIZE_def div_less_iff_less_mult)

lemma edit_costs: "bm_cost S (edit b f T) \<le> bm_cost S T" "kcost (edit b f T) x \<le> kcost T x" "t_room T \<le> t_room (edit b f T) + dcost T b"
  by (auto simp: bm_cost_def kcost_def dcost_def)

lemma writing_step:
  assumes w: "writing S v x n i bs a T y" and a: "a < length bs" and i: "i \<le> n * BSIZE"
  defines "j \<equiv> (i + a) div BSIZE" and "c \<equiv> min (length bs - a) (BSIZE - (i + a) mod BSIZE)"
  assumes m: "bmapped S T y (max n (nblk (i + a))) j T' y'"
  defines "b \<equiv> kblk (t_view T') y' j"
  shows "can_log b T'" and "writing S v x n i bs (a + c) (edit b (put_list ((i + a) mod BSIZE) (take c (drop a bs))) T') y'"
proof -
  let ?n = "max n (nblk (i + a))" and ?cs = "take c (drop a bs)"
  let ?T = "edit b (put_list ((i + a) mod BSIZE) ?cs) T'"
  note ch = chunk [OF a, of i, folded c_def j_def]
  have len: "length ?cs = c" using ch(3) by simp
  have n': "max ?n (Suc j) = max n (nblk (i + (a + c)))"
    using ch(4) nblk_bound(4) [of "i + a" "i + a + c"] by (auto simp: add.assoc max_def)
  let ?n' = "max n (nblk (i + (a + c)))"
  have g: "kgrown S (t_view T) y ?n (t_view T') y' ?n'" using m by (simp add: bmapped_def n')
  then have e: "kext S (t_view T) y ?n (t_view T') y' ?n'" by (simp add: kgrown_def)
  have f: "kmeta S (t_view T') y'" "kfile S (t_view T') y' ?n'" using e by (simp_all add: kext_def)
  have j: "j < ?n'" using ch(4) by (simp add: add.assoc j_def)
  have "kext S (t_view T') y' ?n' (t_view ?T) y' ?n'" unfolding edit_simps b_def by (rule kext_data [OF f j])
  with w e have "kext S v x n (t_view ?T) y' ?n'" unfolding writing_def by (blast intro: kext_trans)
  moreover have "kbyte (t_view ?T) y' k = (if i \<le> k \<and> k < i + (a + c) then bs ! (k - i) else kbyte v x k)"
    if k: "k < n * BSIZE \<or> i \<le> k \<and> k < i + (a + c)" for k
  proof -
    have kn: "k < ?n' * BSIZE"
      using k nblk_bound(1,2) [of k "i + (a + c)"] by (auto simp: max_def BSIZE_def)
    have "kbyte (t_view ?T) y' k = (if i + a \<le> k \<and> k < i + a + c then ?cs ! (k - (i + a)) else kbyte (t_view T') y' k)"
      unfolding edit_simps b_def j_def using kbyte_put [OF f(2), of "i + a" ?cs k, unfolded len] j kn ch(2) by (simp add: j_def)
    moreover have "?cs ! (k - (i + a)) = bs ! (k - i)" if "i + a \<le> k" "k < i + a + c" using that ch(3) by (simp add: add.commute)
    moreover have "kbyte (t_view T') y' k = kbyte (t_view T) y k" if "k < n * BSIZE \<or> i \<le> k \<and> k < i + a"
      by (rule kgrown_kbyte [OF g]) (use that nblk_bound(1,2) [of k "i + a"] in \<open>auto simp: max_def BSIZE_def\<close>)
    ultimately show ?thesis using k w unfolding writing_def by auto
  qed
  moreover have room: "t_room T + bm_cost S T' + kcost T' y' + dcost T' b \<le> t_room T' + bm_cost S T + kcost T y + 1"
    "bm_cost S T + kcost T y + wleft i a (length bs) + 1 \<le> t_room T" using m w by (simp_all add: bmapped_def b_def writing_def)
  moreover have left: "wleft i (a + c) (length bs) + 1 \<le> wleft i a (length bs)"
    using a ch(5) nblk_bound(2) [of "i + a" "i + length bs"] nblk_bound(2) [of "i + (a + c)" "i + length bs"]
    by (auto simp: wleft_def add.assoc j_def)
  ultimately show "writing S v x n i bs (a + c) ?T y'"
    unfolding writing_def using m edit_costs(1) [of S b "put_list ((i + a) mod BSIZE) ?cs" T']
      edit_costs(2) [of b "put_list ((i + a) mod BSIZE) ?cs" T' y']
      edit_costs(3) [of T' b "put_list ((i + a) mod BSIZE) ?cs"]
    by (auto simp: bmapped_def at_rest_def)
  show "can_log b T'" using room left by (auto simp: can_log_def dcost_def split: if_splits)
qed

text \<open>One turn.\<close>

definition wr_state :: "nat \<Rightarrow> u8 list \<Rightarrow> nat \<Rightarrow> u32 \<times> u32 \<times> usrc" where
  "wr_state i bs a = (of_nat a, of_nat (i + a), KernelBytes (drop a bs))"

lemma fsx_writei_turn:
  fixes s :: "'z fsst_scheme"
  assumes s: "sb s = S" "icache s ip = y" "i_dev x = dev" and w: "writing S v x n i bs a T y"
    and a: "a < length bs" and i: "i \<le> n * BSIZE" "i + length bs \<le> MAXFILE * BSIZE"
    and S: "unat (sb_size S) \<le> BPB" and L: "LogLk dev \<notin> L" and free: "need (nblk (i + length bs)) \<le> card (free_blocks S v) + need n"
  defines "c \<equiv> min (length bs - a) (BSIZE - (i + a) mod BSIZE)"
  assumes g: "\<And>T' y'. writing S v x n i bs (a + c) T' y' \<Longrightarrow>
      fsx L p dev T' (s\<lparr>icache := (icache s)(ip := y')\<rparr>) (ret (Inl (wr_state i bs (a + c)))) L' R"
  shows "fsx L p dev T s (writei_turn ip x (of_nat (length bs)) (wr_state i bs a)) L' R"
proof -
  let ?k = "i + a" and ?m = "length bs" and ?n = "max n (nblk (i + a))"
  note ch = chunk [OF a, of i, folded c_def]
  have k: "?k < 2 ^ 31" "?m < 2 ^ 31" "a \<le> ?m" "?k < i + ?m" using a i by (simp_all add: fs_consts)
  have hc: "unat (of_nat c :: u32) = c" using ch(2) by (simp add: BSIZE_def unat_of_nat)
  have lt: "(of_nat a :: u32) < of_nat ?m" using a k(2) by (simp add: word_less_nat_alt unat_of_nat)
  have e: "kext S v x n (t_view T) y ?n" and q: "at_rest T" "bm_cost S T + kcost T y + 1 \<le> t_room T"
    using w by (auto simp: writing_def)
  have f: "kmeta S (t_view T) y" "kfile S (t_view T) y ?n" "card (free_blocks S (t_view T)) + need ?n = card (free_blocks S v) + need n"
    "i_dev y = dev" using e s(3) unfolding kext_def by (blast, blast, blast, metis inode_addrs_other(3))
  have j: "?k div BSIZE \<le> ?n" "?k div BSIZE < MAXFILE"
    using nblk_bound(3) [of ?k] k(4) i(2) by (auto simp: max_def fs_consts div_less_iff_less_mult)
  have "need (Suc (?k div BSIZE)) \<le> need (nblk (i + ?m))"
    using nblk_bound(2) [OF k(4)] by (intro need_mono) simp
  then have fr: "need (Suc (?k div BSIZE)) \<le> card (free_blocks S (t_view T)) + need ?n" using free f(3) by simp
  note wd = off_words [OF k(1)] and io = io_chunk_words [OF k(1,2,3), folded c_def]
  have dv: "of_nat ?k div of_nat BSIZE = (of_nat (?k div BSIZE) :: u32)"
    using arg_cong [OF wd(1), of "of_nat :: nat \<Rightarrow> u32"] by (simp del: of_nat_div of_nat_add)
  have nxt: "(of_nat a + of_nat c, of_nat ?k + of_nat c, usrc_plus (KernelBytes (drop a bs)) (of_nat c)) = wr_state i bs (a + c)"
    by (simp add: wr_state_def usrc_plus_def hc add.assoc add.commute)
  have "fsx L p dev T' (s\<lparr>icache := (icache s)(ip := y')\<rparr>) (bnd (bread dev (kblk (t_view T') y' (?k div BSIZE))) (\<lambda>bp.
      bnd (either_copyin (KernelBytes (drop a bs)) c) (\<lambda>(r, bs').
        thn (upd_data bp (put_list (?k mod BSIZE) bs')) (
        if r = - 1 then thn (brelse bp) (ret (Inr (of_nat ?k)))
        else thn (log_write bp) (thn (brelse bp) (ret (Inl (wr_state i bs (a + c))))))))) L' R"
    if m: "bmapped S T y ?n (?k div BSIZE) T' y'" for T' y'
  proof -
    let ?b = "kblk (t_view T') y' (?k div BSIZE)"
    note st = writing_step [OF w a i(1) m, folded c_def]
    have h: "t_held T' ?b = None" "dom (t_held T') = {}" "?b \<notin> t_dirty T'" using m by (simp_all add: bmapped_def at_rest_def)
    show ?thesis
      apply (rule fsx_bread [OF h(1)], (simp add: h(2))[1], rule fsx_copyin_bytes, unfold prod.case, rule fsx_if_False, simp)
      apply (rule fsx_log_edit [where bn = ?b], simp, use st(1) in \<open>simp add: can_log_def\<close>, rule L, use h in simp)
      unfolding take_release [OF h(1)] by (rule g [OF st(2)])
  qed
  note rest = this
  show ?thesis
    apply (simp only: writei_turn_def wr_state_def [of _ _ a] prod.case lt not_True_eq_False if_False io Let_def wd(2) hc dv nxt s(3))
    by (rule fsx_bmap [OF s(1,2) f(4) q(1) f(1,2) j S L fr q(2)]) (rule rest)
qed

lemma fsx_writei_loop:
  fixes s :: "'z fsst_scheme"
  assumes s: "sb s = S" "icache s ip = x" "i_dev x = dev" and T: "at_rest T" "kmeta S (t_view T) x" "kfile S (t_view T) x n"
    and i: "i \<le> n * BSIZE" "i + length bs \<le> MAXFILE * BSIZE"
    and S: "unat (sb_size S) \<le> BPB" and L: "LogLk dev \<notin> L"
    and free: "need (nblk (i + length bs)) \<le> card (free_blocks S (t_view T)) + need n"
    and room: "bm_cost S T + kcost T x + wleft i 0 (length bs) + 1 \<le> t_room T"
  shows "fsx L p dev T s (loopM (Suc (length bs)) (writei_turn ip x (of_nat (length bs))) (wr_state i bs 0)) L
     (\<lambda>off T' s'. off = of_nat (i + length bs) \<and> (\<exists>y. s' = s\<lparr>icache := (icache s)(ip := y)\<rparr> \<and> writing S (t_view T) x n i bs (length bs) T' y))"
proof -
  let ?m = "length bs" and ?v = "t_view T"
  let ?I = "\<lambda>r z T' s'. \<exists>a y. a + r = ?m \<and> z = wr_state i bs a \<and> s' = s\<lparr>icache := (icache s)(ip := y)\<rparr> \<and> writing S ?v x n i bs a T' y"
  let ?Q = "\<lambda>off T' s'. off = of_nat (i + ?m) \<and> (\<exists>y. s' = s\<lparr>icache := (icache s)(ip := y)\<rparr> \<and> writing S ?v x n i bs ?m T' y)"
  show ?thesis
  proof (rule fsx_loop [where I = ?I and n = ?m])
    fix r z U and u :: "'z fsst_scheme"
    assume "?I r z U u"
    then obtain a y where a: "a + r = ?m" "z = wr_state i bs a" "u = s\<lparr>icache := (icache s)(ip := y)\<rparr>" and w: "writing S ?v x n i bs a U y"
      by blast
    let ?R = "\<lambda>q T' s'. case q of Inl z \<Rightarrow> \<exists>n'<r. ?I n' z T' s' | Inr w \<Rightarrow> ?Q w T' s'"
    show "fsx L p dev U u (writei_turn ip x (of_nat ?m) z) L ?R"
    proof (cases "a < ?m")
      case True
      let ?c = "min (?m - a) (BSIZE - (i + a) mod BSIZE)"
      have c: "0 < ?c" "a + ?c \<le> ?m" by (rule chunk [OF True])+
      have "?R (Inl (wr_state i bs (a + ?c))) T' (u\<lparr>icache := (icache u)(ip := y')\<rparr>)" if "writing S ?v x n i bs (a + ?c) T' y'" for T' y'
        unfolding sum.case
        by (rule exI [of _ "?m - (a + ?c)"], rule conjI, use a(1) c in linarith, rule exI [of _ "a + ?c"], rule exI [of _ y'])
          (use that a c in simp)
      then show ?thesis
        unfolding a(2)
        by (intro fsx_writei_turn [OF _ _ s(3) w True i S L free] fsx_ret) (use a(3) s in simp_all)
    next
      case False
      then have "a = ?m" using a(1) by simp
      then show ?thesis using w unfolding a(2,3) by (auto simp: writei_turn_def wr_state_def intro!: fsx_ret)
    qed
  next
    have "writing S ?v x n i bs 0 T x"
      using T room kgrown_refl [OF T(2,3)] nblk_bound(5) [of i n] i(1) by (auto simp: writing_def kgrown_def max_absorb1)
    moreover have "s = s\<lparr>icache := (icache s)(ip := x)\<rparr>" using s(2) by (simp add: fun_upd_idem)
    ultimately show "?I ?m (wr_state i bs 0) T s" by (intro exI [of _ 0] exI [of _ x]) simp
  qed simp
qed

section \<open>The inode\<close>

lemma kfile_inode:
  fixes x :: inode
  assumes "kmeta S v x" and "kfile S v x n"
  defines "b \<equiv> IBLOCK (i_inum x) S"
  shows "kblk (v(b := d)) (x\<lparr>d_size := z\<rparr>) = kblk v x" and "used S (v(b := d)) = used S v"
    and "kown (v(b := d)) (x\<lparr>d_size := z\<rparr>) n = kown v x n"
    and "kfile S (v(b := d)) (x\<lparr>d_size := z\<rparr>) n" and "kmeta S (v(b := d)) (x\<lparr>d_size := z\<rparr>)"
    and "k < n * BSIZE \<Longrightarrow> kbyte (v(b := d)) (x\<lparr>d_size := z\<rparr>) k = kbyte v x k"
proof -
  have i: "kind (x\<lparr>d_size := z\<rparr>) = kind x" by (simp add: kind_def)
  have "kind x \<noteq> b" if "kind x \<noteq> 0" using kfileD(3,6,8) [OF assms(2)] that by (auto simp: b_def)
  then show k: "kblk (v(b := d)) (x\<lparr>d_size := z\<rparr>) = kblk v x" by (auto simp: kblk_def i)
  show u: "used S (v(b := d)) = used S v" using assms(1) by (intro ext used_frame) (simp add: kmeta_def b_def)
  show o: "kown (v(b := d)) (x\<lparr>d_size := z\<rparr>) n = kown v x n" by (simp add: kown_def k i)
  show "kfile S (v(b := d)) (x\<lparr>d_size := z\<rparr>) n" using assms(2) by (simp add: kfile_def k i o u)
  show "kmeta S (v(b := d)) (x\<lparr>d_size := z\<rparr>)" using assms(1) by (simp add: kmeta_def u bitmap_wf_def)
  show "kbyte (v(b := d)) (x\<lparr>d_size := z\<rparr>) k = kbyte v x k" if "k < n * BSIZE"
  proof -
    have "k div BSIZE < n" using that by (simp add: BSIZE_def div_less_iff_less_mult)
    then have "kblk v x (k div BSIZE) \<noteq> b" using kfileD(6,7) [OF assms(2)] by (simp add: b_def)
    then show ?thesis by (simp add: kbyte_def k)
  qed
qed

lemma fsx_iupdate:
  fixes s :: "'z fsst_scheme" and ip :: nat
  defines "x \<equiv> icache s ip" and "b \<equiv> IBLOCK (i_inum (icache s ip)) (sb s)"
  assumes "i_dev x = dev" and "at_rest T" and "can_log b T" and "LogLk dev \<notin> L"
    and g: "fsx L p dev (edit b (put_dinode (dinode_off (i_inum x)) x) T) s g L' R"
  shows "fsx L p dev T s (thn (iupdate ip) g) L' R"
  unfolding iupdate_def seq_assoc
  apply (rule fsx_sb, rule fsx_get_inode, unfold id_apply x_def [symmetric] assms(3))
  by (rule fsx_edit) (use assms in \<open>simp_all add: at_rest_def\<close>)

section \<open>Writing\<close>

text \<open>
  \<open>written S v x n i bs v' x'\<close>: the bytes \<open>bs\<close> are stored at \<open>i\<close> in the file, its size and its
  inode on the disk follow, and nothing else has changed: not another block in use, not another inode.
\<close>

definition written :: "superblock \<Rightarrow> (u32 \<Rightarrow> block) \<Rightarrow> inode \<Rightarrow> nat \<Rightarrow> nat \<Rightarrow> u8 list \<Rightarrow> (u32 \<Rightarrow> block) \<Rightarrow> inode \<Rightarrow> bool" where
  "written S v x n i bs v' x' \<longleftrightarrow>
     (let n' = max n (nblk (i + length bs)); I = IBLOCK (i_inum x) S in
      x' = x\<lparr>d_addrs := d_addrs x', d_size := d_size x'\<rparr>
      \<and> kcontent v' x' = take i (kcontent v x) @ bs @ drop (i + length bs) (kcontent v x)
      \<and> kfile S v' x' n' \<and> same_dinode (dinode_at (v' I) (dinode_off (i_inum x))) x'
      \<and> (\<forall>b. used S v' b \<longleftrightarrow> used S v b \<or> b \<in> kown v' x' n')
      \<and> (\<forall>b. used S v b \<longrightarrow> b \<notin> kown v x n \<longrightarrow> \<not> bitmap_block S b \<longrightarrow> b \<noteq> I \<longrightarrow> v' b = v b)
      \<and> (\<forall>j. j \<noteq> i_inum x \<longrightarrow> IBLOCK j S = I \<longrightarrow> same_dinode (dinode_at (v' I) (dinode_off j)) (dinode_at (v I) (dinode_off j))))"

lemma kcontent_splice:
  assumes "i \<le> l" and "\<And>k. k < l \<or> i \<le> k \<and> k < i + length bs \<Longrightarrow> g k = (if i \<le> k \<and> k < i + length bs then bs ! (k - i) else f k)"
  shows "map g [0..<max l (i + length bs)] = take i (map f [0..<l]) @ bs @ drop (i + length bs) (map f [0..<l])"
proof (rule nth_equalityI)
  show "length (map g [0..<max l (i + length bs)]) = length (take i (map f [0..<l]) @ bs @ drop (i + length bs) (map f [0..<l]))"
    using assms(1) by auto
  fix k
  assume "k < length (map g [0..<max l (i + length bs)])"
  then have "k < max l (i + length bs)" by simp
  then show "map g [0..<max l (i + length bs)] ! k = (take i (map f [0..<l]) @ bs @ drop (i + length bs) (map f [0..<l])) ! k"
    using assms by (auto simp: nth_append less_max_iff_disj)
qed

lemma writingD:
  assumes w: "writing S v x n i bs (length bs) T y" and i: "unat (d_size x) \<le> n * BSIZE" and m: "kmeta S v x" "kfile S v x n"
  shows "kext S v x n (t_view T) y (max n (nblk (i + length bs)))" and "kmeta S (t_view T) y" and "kfile S (t_view T) y (max n (nblk (i + length bs)))"
    and "y = x\<lparr>d_addrs := d_addrs y\<rparr>" and "d_size y = d_size x" and "i_inum y = i_inum x"
    and "t_view T (IBLOCK (i_inum x) S) = v (IBLOCK (i_inum x) S)"
    and "i \<le> unat (d_size x) \<Longrightarrow> map (kbyte (t_view T) y) [0..<max (unat (d_size x)) (i + length bs)]
      = take i (kcontent v x) @ bs @ drop (i + length bs) (kcontent v x)"
proof -
  show k: "kext S v x n (t_view T) y (max n (nblk (i + length bs)))" using w by (simp add: writing_def)
  then show "kmeta S (t_view T) y" "kfile S (t_view T) y (max n (nblk (i + length bs)))" and y: "y = x\<lparr>d_addrs := d_addrs y\<rparr>"
    by (auto simp: kext_def)
  show "t_view T (IBLOCK (i_inum x) S) = v (IBLOCK (i_inum x) S)"
    using k m kfileD(6) [OF m(2)] unfolding kext_def kmeta_def by blast
  show "d_size y = d_size x" "i_inum y = i_inum x" using y by (metis inode_addrs_other)+
  assume "i \<le> unat (d_size x)"
  then show "map (kbyte (t_view T) y) [0..<max (unat (d_size x)) (i + length bs)]
      = take i (kcontent v x) @ bs @ drop (i + length bs) (kcontent v x)"
    unfolding kcontent_def using w i by (intro kcontent_splice) (auto simp: writing_def)
qed

lemma written_inside:
  assumes w: "writing S v x n i bs (length bs) T y" and i: "i \<le> unat (d_size x)" "unat (d_size x) \<le> n * BSIZE"
    and m: "kmeta S v x" "kfile S v x n" and d: "same_dinode (dinode_at (v (IBLOCK (i_inum x) S)) (dinode_off (i_inum x))) x"
    and le: "i + length bs \<le> unat (d_size x)"
  shows "written S v x n i bs (t_view T) y"
proof -
  note k = writingD [OF w i(2) m]
  have "max n (nblk (i + length bs)) = n" using le i(2) nblk_bound(5) [of "i + length bs" n] by (simp add: max_absorb1)
  then have e: "y = x" using k(1) by (simp add: kext_def)
  have "max (unat (d_size x)) (i + length bs) = unat (d_size x)" using le by simp
  then have "kcontent (t_view T) y = take i (kcontent v x) @ bs @ drop (i + length bs) (kcontent v x)"
    using k(8) [OF i(1)] by (simp add: kcontent_def [of "t_view T"] e)
  then show ?thesis using k(1,3,7) d unfolding written_def Let_def kext_def by (auto simp: e)
qed

lemma written_behind:
  assumes w: "writing S v x n i bs (length bs) T y" and i: "i \<le> unat (d_size x)" "unat (d_size x) \<le> n * BSIZE" "i + length bs < 2 ^ 32"
    and m: "kmeta S v x" "kfile S v x n" and gt: "unat (d_size x) < i + length bs"
  defines "y' \<equiv> y\<lparr>d_size := of_nat (i + length bs)\<rparr>"
  shows "written S v x n i bs (t_view (edit (IBLOCK (i_inum y') S) (put_dinode (dinode_off (i_inum y')) y') T)) y'"
proof -
  let ?I = "IBLOCK (i_inum x) S" and ?m = "length bs" and ?n = "max n (nblk (i + length bs))" and ?v = "t_view T"
  note k = writingD [OF w i(2) m]
  define d' where "d' = put_dinode (dinode_off (i_inum y')) y' (?v ?I)"
  have v': "t_view (edit (IBLOCK (i_inum y') S) (put_dinode (dinode_off (i_inum y')) y') T) = ?v(?I := d')"
    by (simp add: d'_def y'_def k(6))
  note fi = kfile_inode(3-6) [OF k(2,3), unfolded k(6), where d = d' and z = "of_nat (i + ?m)", folded y'_def]
    kfile_inode(2) [OF k(2,3), unfolded k(6), where d = d']
  have z: "unat (d_size y') = max (unat (d_size x)) (i + ?m)"
    using gt i(3) by (simp add: y'_def unat_of_nat take_bit_nat_eq_self del: of_nat_add)
  have "b < ?n * BSIZE" if "b < unat (d_size y')" for b
    using that gt nblk_bound(1,2) [of b "i + ?m"] unfolding z by (auto simp: max_def BSIZE_def)
  then have "kcontent (?v(?I := d')) y' = map (kbyte ?v y) [0..<max (unat (d_size x)) (i + ?m)]"
    unfolding kcontent_def z [symmetric] by (intro map_cong) (simp_all add: fi(4))
  then have c: "kcontent (?v(?I := d')) y' = take i (kcontent v x) @ bs @ drop (i + ?m) (kcontent v x)"
    by (simp only: k(8) [OF i(1)])
  have "y' = x\<lparr>d_addrs := d_addrs y', d_size := d_size y'\<rparr>" unfolding y'_def using k(4) by (metis inode_addrs_size)
  moreover have "same_dinode (dinode_at d' (dinode_off (i_inum x))) y'"
    using dinode_at_put [of "dinode_off (i_inum x)" y'] by (simp add: d'_def y'_def k(6))
  moreover have "same_dinode (dinode_at d' (dinode_off j)) (dinode_at (v ?I) (dinode_off j))"
    if "j \<noteq> i_inum x" "IBLOCK j S = ?I" for j
    unfolding d'_def k(7) y'_def using that dinode_off_apart [OF that] by (intro dinode_at_put_other) (auto simp: k(6))
  ultimately show ?thesis using k(1) c fi unfolding v' written_def Let_def kext_def by simp
qed

text \<open>What follows the loop.\<close>

lemma fsx_writei_end:
  fixes s :: "'z fsst_scheme"
  assumes s: "sb s = S" "i_dev x = dev" and T: "kmeta S v x" "kfile S v x n"
    and d: "same_dinode (dinode_at (v (IBLOCK (i_inum x) S)) (dinode_off (i_inum x))) x"
    and i: "i \<le> unat (d_size x)" "unat (d_size x) \<le> n * BSIZE" "i + length bs < 2 ^ 32" and L: "LogLk dev \<notin> L"
    and w: "writing S v x n i bs (length bs) T y"
    and g: "\<And>T' y. at_rest T' \<Longrightarrow> written S v x n i bs (t_view T') y \<Longrightarrow> fsx L p dev T' (s\<lparr>icache := (icache s)(ip := y)\<rparr>) g L' R"
  shows "fsx L p dev T (s\<lparr>icache := (icache s)(ip := y)\<rparr>) (bnd (get_inode ip d_size) (\<lambda>sz.
      thn (whenM (of_nat (length bs) > (0 :: u32) \<and> of_nat (i + length bs) > sz)
        (thn (upd_inode ip (\<lambda>x. x\<lparr>d_size := of_nat (i + length bs)\<rparr>)) (iupdate ip))) g)) L' R"
proof -
  let ?m = "length bs" and ?s = "s\<lparr>icache := (icache s)(ip := y)\<rparr>" and ?y = "y\<lparr>d_size := of_nat (i + length bs)\<rparr>"
  have q: "at_rest T" "1 \<le> t_room T" using w by (simp_all add: writing_def)
  note k = writingD [OF w i(2) T]
  have dev: "i_dev y = dev" using k(4) s(2) by (metis inode_addrs_other(3))
  have um: "unat (of_nat ?m :: u32) = ?m" "unat (of_nat (i + ?m) :: u32) = i + ?m"
    using i(3) by (simp_all add: unat_of_nat_u32 del: of_nat_add)
  have c: "(of_nat ?m > (0 :: u32) \<and> of_nat (i + ?m) > d_size x) \<longleftrightarrow> unat (d_size x) < i + ?m"
    unfolding word_less_nat_alt um using i(1) by auto
  have st: "?s\<lparr>icache := upd (icache ?s) ip (\<lambda>x. x\<lparr>d_size := of_nat (i + ?m)\<rparr>)\<rparr> = s\<lparr>icache := (icache s)(ip := ?y)\<rparr>"
    by (simp add: upd_def)
  have ys: "d_size (icache ?s ip) = d_size x" by (simp add: k(5))
  show ?thesis
    apply (rule fsx_get_inode, unfold ys c)
  proof (rule fsx_when)
    assume gt: "unat (d_size x) < i + ?m"
    show "fsx L p dev T ?s (thn (thn (upd_inode ip (\<lambda>x. x\<lparr>d_size := of_nat (i + ?m)\<rparr>)) (iupdate ip)) g) L' R"
      unfolding seq_assoc using written_behind [OF w i T gt]
      by (intro fsx_upd_inode, unfold st) (rule fsx_iupdate, use s dev q L g in \<open>simp_all add: can_log_def at_rest_def\<close>)
  next
    assume "\<not> unat (d_size x) < i + ?m"
    then show "fsx L p dev T ?s g L' R" by (intro g [OF q(1)] written_inside [OF w i(1,2) T d]) simp
  qed
qed

lemma fsx_writei:
  fixes s :: "'z fsst_scheme"
  assumes s: "sb s = S" "icache s ip = x" "i_dev x = dev" and T: "at_rest T" "kmeta S (t_view T) x" "kfile S (t_view T) x n"
    and d: "same_dinode (dinode_at (t_view T (IBLOCK (i_inum x) S)) (dinode_off (i_inum x))) x"
    and i: "unat off \<le> unat (d_size x)" "unat (d_size x) \<le> n * BSIZE" "unat off + length bs \<le> MAXFILE * BSIZE"
    and S: "unat (sb_size S) \<le> BPB" and L: "LogLk dev \<notin> L"
    and free: "need (nblk (unat off + length bs)) \<le> card (free_blocks S (t_view T)) + need n"
    and room: "bm_cost S T + kcost T x + wleft (unat off) 0 (length bs) + 1 \<le> t_room T"
    and g: "\<And>T' y. at_rest T' \<Longrightarrow> written S (t_view T) x n (unat off) bs (t_view T') y \<Longrightarrow>
      fsx L p dev T' (s\<lparr>icache := (icache s)(ip := y)\<rparr>) (g (int (length bs))) L' R"
  shows "fsx L p dev T s (bnd (writei ip (KernelBytes bs) off (of_nat (length bs))) g) L' R"
proof -
  let ?i = "unat off" and ?m = "length bs" and ?v = "t_view T"
  have b: "?i + ?m < 2 ^ 31" using i(3) by (simp add: fs_consts)
  have um: "unat (of_nat ?m :: u32) = ?m" using b by (simp add: unat_of_nat take_bit_nat_eq_self)
  have uo: "unat (of_nat (?i + ?m) :: u32) = ?i + ?m" using b by (simp add: unat_of_nat take_bit_nat_eq_self del: of_nat_add)
  have sum: "off + of_nat ?m = of_nat (?i + ?m)" by simp
  have c1: "\<not> (off > d_size x \<or> off + of_nat ?m < off)"
    unfolding sum word_less_nat_alt uo using i(1) by simp
  have c2: "\<not> off + of_nat ?m > of_nat (MAXFILE * BSIZE)"
    unfolding sum word_less_nat_alt uo using i(3) by (simp add: fs_consts)
  have sm: "sint (of_nat ?m :: u32) = int ?m" using b by (simp add: signed_of_nat signed_take_bit_int_eq_self)
  have st: "wr_state ?i bs 0 = (0, off, KernelBytes bs)" by (simp add: wr_state_def)
  have io: "?i \<le> n * BSIZE" using i by simp
  note loop = fsx_writei_loop [OF s T io i(3) S L free room, unfolded st]
  have b32: "?i + ?m < 2 ^ 32" using b by simp
  note fin = fsx_writei_end [OF s(1,3) T(2,3) d i(1,2) b32 L]
  show ?thesis
    unfolding writei_def seq_assoc
    apply (rule fsx_get_inode)
    apply (unfold id_apply s(2) if_not_P [OF c1] if_not_P [OF c2] um seq_assoc)
    apply (rule fsx_bnd [OF loop])
    using fin [OF _ g] by (auto simp: sm)
qed

section \<open>Property\<close>

text \<open>
  C14: \<^verbatim>\<open>writei()\<close> from a buffer of the kernel refines the update of a list of bytes.  In a transaction with room for the blocks
  it touches and three more (bitmap, indirect block, inode), on a file without holes and with enough free
  blocks, it returns the number of bytes; the content of the file is the old one with the bytes stored at
  \<^verbatim>\<open>off\<close>, grown if they reach behind the end.  The file is again one without holes, the new blocks
  are exactly those newly marked in the bitmap, the inode on the disk agrees with the one in memory, no
  other inode and no other block in use changes, and nothing is written to the disk.  An
  \<^verbatim>\<open>off\<close> behind the end and a range behind the largest file give -1 and change nothing.
\<close>

theorem writei_writes:
  fixes s :: "'z fsst_scheme" and ip :: nat
  defines "x \<equiv> icache s ip" and "S \<equiv> sb s"
  assumes "bready {} p s" and "intxn dev T D (logs s dev) (cabs s)" and "i_dev x = dev" and "length bs < 2 ^ 32"
    and "at_rest T" and "kmeta S (t_view T) x" and "kfile S (t_view T) x n" and "unat (d_size x) \<le> n * BSIZE"
    and "same_dinode (dinode_at (t_view T (IBLOCK (i_inum x) S)) (dinode_off (i_inum x))) x" and "unat (sb_size S) \<le> BPB"
    and "need (nblk (unat off + length bs)) \<le> card (free_blocks S (t_view T)) + need n"
    and "nblk (unat off + length bs) - unat off div BSIZE + 3 \<le> t_room T"
  shows "if unat off \<le> unat (d_size x) \<and> unat off + length bs \<le> MAXFILE * BSIZE
    then \<exists>t T' y. writei ip (KernelBytes bs) off (of_nat (length bs)) s = Done (int (length bs)) t
      \<and> bready {} p t \<and> intxn dev T' D (logs t dev) (cabs t) \<and> at_rest T' \<and> written S (t_view T) x n (unat off) bs (t_view T') y
      \<and> icache t = (icache s)(ip := y) \<and> sb t = S
    else writei ip (KernelBytes bs) off (of_nat (length bs)) s = Done (-1) s"
proof (cases "unat off \<le> unat (d_size x) \<and> unat off + length bs \<le> MAXFILE * BSIZE")
  case True
  let ?f = "writei ip (KernelBytes bs) off (of_nat (length bs))"
  let ?R = "\<lambda>r T' s'. r = int (length bs) \<and> at_rest T' \<and>
    (\<exists>y. written S (t_view T) x n (unat off) bs (t_view T') y \<and> s' = s\<lparr>icache := (icache s)(ip := y)\<rparr>)"
  have "bm_cost S T \<le> 1" "kcost T x \<le> 1" by (simp_all add: bm_cost_def kcost_def)
  then have room: "bm_cost S T + kcost T x + wleft (unat off) 0 (length bs) + 1 \<le> t_room T"
    using assms(14) by (simp add: wleft_def)
  have "fsx {} p dev T s (bnd ?f ret) {} ?R"
    by (rule fsx_writei [OF S_def [symmetric, THEN meta_eq_to_obj_eq] x_def [symmetric, THEN meta_eq_to_obj_eq] assms(5,7,8,9,11) _ assms(10) _ assms(12) _ assms(13) room])
      (use True in \<open>auto intro!: fsx_ret\<close>)
  then obtain r t T' s' where t: "bnd ?f ret s = Done r t" "bready {} p t"
    "bio_same (s'\<lparr>logs := logs t\<rparr>) t" "intxn dev T' D (logs t dev) (cabs t)" "?R r T' s'"
    by (rule fsx_run [OF _ assms(3,4)])
  then obtain y where y: "written S (t_view T) x n (unat off) bs (t_view T') y" "s' = s\<lparr>icache := (icache s)(ip := y)\<rparr>" by blast
  have "?f s = Done r t" using t(1) by (simp add: run split: outcome.splits)
  moreover have "sb t = S" "icache t = (icache s)(ip := y)" using same_sb(1) [OF t(3)] same_icache(1) [OF t(3)] y(2) by (simp_all add: S_def)
  ultimately have "\<exists>t T' y. ?f s = Done (int (length bs)) t \<and> bready {} p t \<and> intxn dev T' D (logs t dev) (cabs t) \<and> at_rest T'
      \<and> written S (t_view T) x n (unat off) bs (t_view T') y \<and> icache t = (icache s)(ip := y) \<and> sb t = S"
    using t y by blast
  with True show ?thesis by simp
next
  case False
  have um: "unat (of_nat (length bs) :: u32) = length bs" using assms(6) by (simp add: unat_of_nat_u32)
  have "off > d_size x \<or> off + of_nat (length bs) < off \<or> off + of_nat (length bs) > of_nat (MAXFILE * BSIZE)"
  proof (cases "unat off + length bs < 2 ^ 32")
    case True
    then have "unat (off + of_nat (length bs)) = unat off + length bs" by (simp add: unat_word_ariths um)
    then show ?thesis using False by (auto simp: word_less_nat_alt fs_consts)
  next
    case False
    then show ?thesis using plus_wraps [of off "of_nat (length bs)"] by (simp add: um)
  qed
  then have "writei ip (KernelBytes bs) off (of_nat (length bs)) s = Done (-1) s"
    unfolding x_def by (auto simp: writei_def run get_inode_def)
  with False show ?thesis by (simp only: if_False)
qed

text \<open>An empty file.\<close>

definition empty_file :: inode where
  "empty_file = \<lparr>d_type = 0, d_major = 0, d_minor = 0, d_nlink = 0, d_size = 0, d_addrs = (\<lambda>_. 0),
     i_dev = 0, i_inum = 3, i_ref = 1, i_valid = True\<rparr>"

lemma empty_file_ok:
  defines "v \<equiv> \<lambda>bn. no_files (0, bn)"
  shows "kfile small_sb v empty_file 0" and "kmeta small_sb v empty_file" and "i_dev empty_file = 0" and "d_size empty_file = 0"
    and "same_dinode (dinode_at (v (IBLOCK (i_inum empty_file) small_sb)) (dinode_off (i_inum empty_file))) empty_file"
proof -
  have I: "IBLOCK (i_inum empty_file) small_sb = 32" by (simp add: IBLOCK_def empty_file_def small_sb_def fs_consts)
  have k: "kblk v empty_file j = 0" "kind empty_file = 0" for j by (simp_all add: kblk_def kind_def empty_file_def)
  show "kfile small_sb v empty_file 0" by (simp add: kfile_def k kown_def)
  show "kmeta small_sb v empty_file" unfolding kmeta_def I v_def using no_files_wf by (simp add: used_no_files)
  show "i_dev empty_file = 0" "d_size empty_file = 0" by (simp_all add: empty_file_def)
  have "v 32 = (\<lambda>_. 0)" by (simp add: v_def no_files_def)
  then show "same_dinode (dinode_at (v (IBLOCK (i_inum empty_file) small_sb)) (dinode_off (i_inum empty_file))) empty_file"
    unfolding I by (simp add: same_dinode_def dinode_at_def empty_file_def get16_def get32_zero_bytes)
qed

theorem writei_writes_witness:
  "\<exists>t v. writei 5 (KernelBytes [104, 105]) 0 2 (open_fs no_files small_sb (\<lambda>_. empty_file)) = Done 2 t
     \<and> kcontent v (icache t 5) = [104, 105] \<and> used small_sb v (kblk v (icache t 5) 0)"
proof -
  let ?s = "open_fs no_files small_sb (\<lambda>_. empty_file)" and ?T = "fresh_txn 10 no_files" and ?bs = "[104, 105] :: u8 list"
  have i: "intxn 0 ?T (no_files, []) (logs ?s 0) (cabs ?s)" by (rule open_fs_ready(4)) simp
  have e: "icache ?s 5 = empty_file" "sb ?s = small_sb" "t_view ?T = (\<lambda>bn. no_files (0, bn))" "at_rest ?T" "t_room ?T = 10"
    by (simp_all add: open_fs_ready fresh_txn_def at_rest_def)
  have "46 \<in> free_blocks small_sb (t_view ?T)" unfolding free_blocks_def e by (simp add: used_no_files) (simp add: small_sb_def)
  then have "0 < card (free_blocks small_sb (t_view ?T))" by (auto simp: card_gt_0_iff)
  then have f: "need (nblk (unat (0 :: u32) + length ?bs)) \<le> card (free_blocks small_sb (t_view ?T)) + need 0"
    by (simp add: nblk_def need_def BSIZE_def NDIRECT_def)
  have x: "kfile small_sb (t_view ?T) empty_file 0" "kmeta small_sb (t_view ?T) empty_file" "i_dev empty_file = 0" "d_size empty_file = 0"
    "same_dinode (dinode_at (t_view ?T (IBLOCK (i_inum empty_file) small_sb)) (dinode_off (i_inum empty_file))) empty_file"
    unfolding e(3) by (rule empty_file_ok)+
  have c: "length ?bs < 2 ^ 32" "unat (d_size empty_file) \<le> 0 * BSIZE" "unat (sb_size small_sb) \<le> BPB"
    "nblk (unat (0 :: u32) + length ?bs) - unat (0 :: u32) div BSIZE + 3 \<le> t_room ?T"
    "unat (0 :: u32) \<le> unat (d_size empty_file) \<and> unat (0 :: u32) + length ?bs \<le> MAXFILE * BSIZE"
    by (simp_all add: x(4) e(5) small_sb_def nblk_def fs_consts)
  obtain t y and T' :: txn where t: "writei 5 (KernelBytes ?bs) 0 (of_nat (length ?bs)) ?s = Done (int (length ?bs)) t"
    "written small_sb (t_view ?T) empty_file 0 (unat (0 :: u32)) ?bs (t_view T') y" "icache t = (icache ?s)(5 := y)"
    using writei_writes [where s = ?s and ip = 5 and bs = ?bs and off = 0 and n = 0, unfolded e(1,2),
        OF open_fs_ready(1) i x(3) c(1) e(4) x(2,1) c(2) x(5) c(3) f c(4), unfolded if_P [OF c(5)]] by blast
  have "kcontent (t_view ?T) empty_file = []" by (simp add: kcontent_def x)
  then have "kcontent (t_view T') y = ?bs" "kfile small_sb (t_view T') y 1"
    using t(2) by (simp_all add: written_def Let_def nblk_def BSIZE_def)
  then have "kcontent (t_view T') (icache t 5) = ?bs" "used small_sb (t_view T') (kblk (t_view T') (icache t 5) 0)"
    using t(3) kfileD(4,7) [of small_sb "t_view T'" y 1] by auto
  with t(1) show ?thesis by auto
qed

end
