(* ===== verification/Grep.thy ===== *)
theory Grep
  imports Prelude
begin

text \<open>
  The pattern matcher and the line loop of \<^verbatim>\<open>user/grep.c\<close> (\<^verbatim>\<open>user/find.c\<close> has a copy of
  the matcher).  A C string is the list of its bytes before the terminating zero.
\<close>

section \<open>The matcher\<close>

definition CARET :: u8 where "CARET = 94"
definition STAR :: u8 where "STAR = 42"
definition DOLLAR :: u8 where "DOLLAR = 36"
definition DOT :: u8 where "DOT = 46"
definition NL :: u8 where "NL = 10"

lemmas char_defs = CARET_def STAR_def DOLLAR_def DOT_def NL_def

function matchhere :: "u8 list \<Rightarrow> u8 list \<Rightarrow> bool"
  and matchstar :: "u8 \<Rightarrow> u8 list \<Rightarrow> u8 list \<Rightarrow> bool" where
  "matchhere re tx =
     (case re of
        [] \<Rightarrow> True
      | c # re1 \<Rightarrow>
          if re1 \<noteq> [] \<and> hd re1 = STAR then matchstar c (tl re1) tx
          else if c = DOLLAR \<and> re1 = [] then tx = []
          else (case tx of [] \<Rightarrow> False | t # tx1 \<Rightarrow> (c = DOT \<or> c = t) \<and> matchhere re1 tx1))"
| "matchstar c re tx =
     (matchhere re tx \<or>
      (case tx of [] \<Rightarrow> False | t # tx1 \<Rightarrow> (t = c \<or> c = DOT) \<and> matchstar c re tx1))"
  by pat_completeness auto
termination
  by (relation "measure (\<lambda>x. case x of Inl (re, tx) \<Rightarrow> 2 * (length re + length tx)
      | Inr (c, re, tx) \<Rightarrow> 2 * (length re + length tx) + 1)") (auto simp: neq_Nil_conv)

declare matchhere.simps [simp del] matchstar.simps [simp del]

text \<open>The loop of \<^verbatim>\<open>match()\<close> looks at every suffix, the empty one included.\<close>

primrec match_from :: "u8 list \<Rightarrow> u8 list \<Rightarrow> bool" where
  "match_from re [] = matchhere re []"
| "match_from re (t # tx) = (matchhere re (t # tx) \<or> match_from re tx)"

definition match :: "u8 list \<Rightarrow> u8 list \<Rightarrow> bool" where
  "match re tx = (if re \<noteq> [] \<and> hd re = CARET then matchhere (tl re) tx else match_from re tx)"

section \<open>The loop over a file\<close>

text \<open>
  The inner loop over the lines of \<^verbatim>\<open>buf\<close>: what is written, and what is left after the last
  newline.  \<^verbatim>\<open>strchr()\<close> does not look past a zero byte.
\<close>

function grep_lines :: "u8 list \<Rightarrow> u8 list \<Rightarrow> u8 list \<times> u8 list" where
  "grep_lines pattern p =
     (let line = takeWhile (\<lambda>c. c \<noteq> NL \<and> c \<noteq> 0) p; q = drop (length line) p in
      if q = [] \<or> hd q \<noteq> NL then ([], p)
      else let (out, left) = grep_lines pattern (tl q) in
        (if match pattern line then line @ [NL] @ out else out, left))"
  by pat_completeness auto
termination
proof (relation "measure (\<lambda>(_, p). length p)")
  fix pattern p line q
  assume "q = drop (length line) p" and "\<not> (q = [] \<or> hd q \<noteq> NL)"
  then have "length (tl q) < length p" by (cases p) (auto simp: drop_Cons split: nat.splits)
  then show "((pattern, tl q), pattern, p) \<in> measure (\<lambda>(_, p). length p)" by simp
qed simp

declare grep_lines.simps [simp del]

definition GREP_BUF :: nat where "GREP_BUF = 1024"

text \<open>
  \<^verbatim>\<open>read()\<close> on a file with \<open>avail\<close> bytes left, of which \<open>asked\<close> are asked for: 0 when there is
  nothing to deliver or no room; otherwise the reader \<open>rd\<close> chooses, per position in the file, between
  failure (-1) and how many of the bytes, at least one, are delivered (a pipe or the console delivers fewer
  than are asked for).
\<close>

definition read_n :: "(nat \<Rightarrow> int) \<Rightarrow> nat \<Rightarrow> nat \<Rightarrow> int" where
  "read_n rd asked avail =
     (if rd avail < 0 then -1 else min (max 1 (rd avail)) (int (min asked avail)))"

lemma read_n_pos: "0 < read_n rd k n \<Longrightarrow> 0 < n \<and> 0 < nat (read_n rd k n)"
  by (auto simp: read_n_def split: if_splits)

text \<open>
  The outer loop: \<open>buf\<close> is the part of the buffer that is kept.  Every turn but the last one consumes
  input.
\<close>

function grep :: "u8 list \<Rightarrow> (nat \<Rightarrow> int) \<Rightarrow> u8 list \<Rightarrow> u8 list \<Rightarrow> u8 list" where
  "grep pattern rd buf input =
     (let n = read_n rd (GREP_BUF - length buf - 1) (length input) in
      if n \<le> 0 then []
      else let (out, left) = grep_lines pattern (buf @ take (nat n) input) in
        out @ grep pattern rd left (drop (nat n) input))"
  by pat_completeness auto
termination
  by (relation "measure (\<lambda>(_, _, _, input). length input)") (auto simp: not_le dest!: read_n_pos)

declare grep.simps [simp del]

section \<open>What a pattern means\<close>

text \<open>An item of a pattern: one character or any number of them; a dot stands for every character.\<close>

datatype item = One u8 | Many u8

text \<open>The items of a pattern, and whether it ends in the end-of-line mark.\<close>

fun items :: "u8 list \<Rightarrow> item list \<times> bool" where
  "items [] = ([], False)"
| "items [c] = (if c = DOLLAR then ([], True) else ([One c], False))"
| "items (c # d # re) =
     (if d = STAR then let (xs, e) = items re in (Many c # xs, e)
      else let (xs, e) = items (d # re) in (One c # xs, e))"

definition covers :: "u8 \<Rightarrow> u8 \<Rightarrow> bool" where
  "covers c t \<longleftrightarrow> c = DOT \<or> c = t"

text \<open>The texts an item, and a sequence of items, describe.\<close>

primrec item_lang :: "item \<Rightarrow> u8 list set" where
  "item_lang (One c) = {[t] | t. covers c t}"
| "item_lang (Many c) = {ts. \<forall>t\<in>set ts. covers c t}"

primrec lang :: "item list \<Rightarrow> u8 list set" where
  "lang [] = {[]}"
| "lang (x # xs) = {u @ v | u v. u \<in> item_lang x \<and> v \<in> lang xs}"

text \<open>A text that starts with one of the described texts, and is it if the pattern says so.\<close>

definition fits :: "item list \<times> bool \<Rightarrow> u8 list \<Rightarrow> bool" where
  "fits p tx \<longleftrightarrow> (\<exists>u v. tx = u @ v \<and> u \<in> lang (fst p) \<and> (snd p \<longrightarrow> v = []))"

lemma fits_Nil: "fits ([], e) tx \<longleftrightarrow> (e \<longrightarrow> tx = [])"
  by (auto simp: fits_def)

lemma ex_append_Nil: "(\<exists>u v. [] = u @ v \<and> P u v) \<longleftrightarrow> P [] []"
  by auto

lemma ex_append_Cons: "(\<exists>u v. t # ts = u @ v \<and> P u v) \<longleftrightarrow> P [] (t # ts) \<or> (\<exists>u v. ts = u @ v \<and> P (t # u) v)"
  (is "?l \<longleftrightarrow> ?r")
proof
  assume ?l
  then obtain u v where "t # ts = u @ v" "P u v" by blast
  then show ?r by (cases u) auto
next
  assume ?r
  then show ?l by (metis append_Cons append_Nil)
qed

lemma lang_One: "lang (One c # xs) = {t # v | t v. covers c t \<and> v \<in> lang xs}"
  by auto (metis append_Cons append_Nil)

lemma fits_One:
  "fits (One c # xs, e) tx \<longleftrightarrow> (case tx of [] \<Rightarrow> False | t # ts \<Rightarrow> covers c t \<and> fits (xs, e) ts)"
  by (cases tx) (auto simp: fits_def lang_One ex_append_Nil ex_append_Cons simp del: lang.simps(2))

lemma fits_Many_iff:
  "fits (Many c # xs, e) tx \<longleftrightarrow> (\<exists>u v. tx = u @ v \<and> (\<forall>t\<in>set u. covers c t) \<and> fits (xs, e) v)"
  (is "?l \<longleftrightarrow> ?r")
proof
  assume ?l
  then obtain y w where y: "tx = y @ w" "y \<in> lang (Many c # xs)" "e \<longrightarrow> w = []" unfolding fits_def by auto
  then obtain u v where "y = u @ v" "\<forall>t\<in>set u. covers c t" "v \<in> lang xs" by auto
  with y have "tx = (u @ v) @ w" "\<forall>t\<in>set u. covers c t" "v \<in> lang xs" "e \<longrightarrow> w = []" by auto
  then show ?r unfolding fits_def by (intro exI [of _ u] exI [of _ "v @ w"]) auto
next
  assume ?r
  then obtain u v w where "tx = u @ v @ w" "\<forall>t\<in>set u. covers c t" "v \<in> lang xs" "e \<longrightarrow> w = []"
    unfolding fits_def by auto
  then show ?l unfolding fits_def by (intro exI [of _ "u @ v"] exI [of _ w]) auto
qed

lemma fits_Many:
  "fits (Many c # xs, e) tx \<longleftrightarrow>
     fits (xs, e) tx \<or> (case tx of [] \<Rightarrow> False | t # ts \<Rightarrow> covers c t \<and> fits (Many c # xs, e) ts)"
proof (cases tx)
  case Nil
  then show ?thesis by (simp add: fits_Many_iff)
next
  case (Cons t ts)
  then show ?thesis unfolding fits_Many_iff by (simp only: ex_append_Cons list.case list.set ball_simps) auto
qed

lemma items_Cons:
  "items (c # re) =
     (if re \<noteq> [] \<and> hd re = STAR then (Many c # fst (items (tl re)), snd (items (tl re)))
      else if c = DOLLAR \<and> re = [] then ([], True)
      else (One c # fst (items re), snd (items re)))"
  by (cases re) (auto split: prod.splits)

text \<open>The two mutually recursive routines decide the relation, by computation induction.\<close>

lemma matcher_fits:
  "matchhere re tx \<longleftrightarrow> fits (items re) tx"
  "matchstar c re' tx' \<longleftrightarrow> fits (Many c # fst (items re'), snd (items re')) tx'"
proof (induction re tx and c re' tx' rule: matchhere_matchstar.induct)
  case (1 re tx)
  show ?case
  proof (cases re)
    case Nil
    then show ?thesis by (simp add: matchhere.simps fits_Nil)
  next
    case (Cons c re1)
    show ?thesis
      using 1 [OF Cons]
      by (subst matchhere.simps)
        (auto simp: Cons items_Cons fits_Nil fits_One covers_def simp del: items.simps split: list.splits)
  qed
next
  case (2 c re tx)
  show ?case
    by (subst matchstar.simps, subst fits_Many)
      (use 2 in \<open>auto simp: covers_def split: list.splits\<close>)
qed

lemma match_from_suffix: "match_from re tx \<longleftrightarrow> (\<exists>u v. tx = u @ v \<and> matchhere re v)"
proof (induction tx)
  case (Cons t tx)
  then show ?case by (auto simp: Cons_eq_append_conv)
qed simp

section \<open>What the loop writes\<close>

text \<open>Lines as a file holds them.\<close>

definition unlines :: "u8 list list \<Rightarrow> u8 list" where
  "unlines ls = concat (map (\<lambda>l. l @ [NL]) ls)"

lemma unlines_simps [simp]:
  "unlines [] = []" "unlines (l # ls) = l @ NL # unlines ls" "unlines (ls @ ls') = unlines ls @ unlines ls'"
  by (simp_all add: unlines_def)

definition plain :: "u8 list \<Rightarrow> bool" where
  "plain l \<longleftrightarrow> NL \<notin> set l \<and> 0 \<notin> set l"

lemma grep_lines_none:
  assumes "NL \<notin> set x"
  shows "grep_lines pat x = ([], x)"
proof -
  have "hd (drop n x) \<noteq> NL" if "drop n x \<noteq> []" for n
    using assms that by (metis hd_in_set in_set_dropD)
  then show ?thesis by (subst grep_lines.simps) (auto simp: Let_def)
qed

lemma grep_lines_line:
  assumes "plain l"
  shows "grep_lines pat (l @ NL # x) =
    (let (out, left) = grep_lines pat x in (if match pat l then l @ [NL] @ out else out, left))"
proof -
  have "takeWhile (\<lambda>c. c \<noteq> NL \<and> c \<noteq> 0) (l @ NL # x) = l"
    using assms by (subst takeWhile_append2) (auto simp: plain_def)
  then show ?thesis by (subst grep_lines.simps) (simp add: Let_def)
qed

lemma grep_lines_prefix:
  assumes "x @ y = unlines ls @ rest" and "\<forall>l\<in>set ls. plain l" and "NL \<notin> set rest"
  shows "\<exists>ls1 ls2 left. ls = ls1 @ ls2 \<and> x = unlines ls1 @ left \<and> NL \<notin> set left \<and>
    grep_lines pat x = (unlines (filter (match pat) ls1), left)"
  using assms
proof (induction ls arbitrary: x)
  case Nil
  then have "NL \<notin> set x" by (metis Un_iff append_Nil set_append unlines_simps(1))
  then show ?case by (simp add: grep_lines_none)
next
  case (Cons l ls)
  then have eq: "x @ y = l @ NL # unlines ls @ rest" by simp
  show ?case
  proof (cases "length x \<le> length l")
    case True
    then have "x = take (length x) l" using eq by (metis append_eq_append_conv_if append_take_drop_id)
    then have "NL \<notin> set x" using Cons.prems(2) by (metis in_set_takeD list.set_intros(1) plain_def)
    then show ?thesis by (intro exI [of "\<lambda>ls1. \<exists>ls2 left. _ ls1 ls2 left" "[]"]) (simp add: grep_lines_none)
  next
    case False
    then obtain x' where x: "x = l @ NL # x'" "x' @ y = unlines ls @ rest"
      using eq by (auto simp: append_eq_append_conv2 Cons_eq_append_conv append_eq_Cons_conv)
    from Cons.IH [OF x(2)] Cons.prems obtain ls1 ls2 left where
      "ls = ls1 @ ls2" "x' = unlines ls1 @ left" "NL \<notin> set left"
      "grep_lines pat x' = (unlines (filter (match pat) ls1), left)" by auto
    then show ?thesis
      using x Cons.prems
      by (intro exI [of "\<lambda>ls1. \<exists>ls2 left. _ ls1 ls2 left" "l # ls1"]) (simp add: grep_lines_line)
  qed
qed

lemma read_n_le: "nat (read_n rd k n) \<le> k" "nat (read_n rd k n) \<le> n"
  by (auto simp: read_n_def)

lemma read_n_stops: "read_n rd k n \<le> 0 \<Longrightarrow> 0 \<le> rd n \<Longrightarrow> k = 0 \<or> n = 0"
  by (auto simp: read_n_def min_def split: if_splits)

text \<open>A read of no bytes, without a failure: no line is left.\<close>

lemma no_line_left:
  assumes "buf @ input = unlines ls @ rest" and "\<forall>l\<in>set ls. length l + 1 < GREP_BUF" and "NL \<notin> set buf"
    and "GREP_BUF - length buf - 1 = 0 \<or> length input = 0"
  shows "ls = []"
proof (rule ccontr)
  assume "ls \<noteq> []"
  then obtain l ls' where l: "ls = l # ls'" by (cases ls) auto
  have "length l < length buf" using assms l by (auto dest: arg_cong [of _ _ length])
  then have "NL = buf ! length l"
    using assms(1) l by (metis append.assoc nth_append nth_append_length append_Cons unlines_simps(2))
  then show False using \<open>length l < length buf\<close> assms(3) nth_mem by metis
qed

lemma grep_buffered:
  assumes "buf @ input = unlines ls @ rest" and "\<forall>l\<in>set ls. plain l \<and> length l + 1 < GREP_BUF"
    and "NL \<notin> set rest" and "NL \<notin> set buf"
  shows "\<exists>k. grep pat rd buf input = unlines (filter (match pat) (take k ls)) \<and>
    ((\<forall>m. 0 \<le> rd m) \<longrightarrow> length ls \<le> k)"
  using assms
proof (induction pat rd buf input arbitrary: ls rule: grep.induct)
  case (1 pat rd buf input)
  let ?n = "read_n rd (GREP_BUF - length buf - 1) (length input)"
  show ?case
  proof (cases "?n \<le> 0")
    case True
    have "length ls \<le> 0" if "\<forall>m. 0 \<le> rd m"
      using no_line_left [OF 1(2)] 1(3,5) read_n_stops [OF True] that by auto
    then show ?thesis using True by (subst grep.simps) (intro exI [of _ 0], simp)
  next
    case False
    have "(buf @ take (nat ?n) input) @ drop (nat ?n) input = unlines ls @ rest" using 1(2) by simp
    from grep_lines_prefix [OF this, of pat] 1(3,4) obtain ls1 ls2 left where
      r: "ls = ls1 @ ls2" "buf @ take (nat ?n) input = unlines ls1 @ left" "NL \<notin> set left"
      "grep_lines pat (buf @ take (nat ?n) input) = (unlines (filter (match pat) ls1), left)" by auto
    have "buf @ input = (unlines ls1 @ left) @ drop (nat ?n) input"
      by (metis r(2) append.assoc append_take_drop_id)
    then have "left @ drop (nat ?n) input = unlines ls2 @ rest" using 1(2) r(1) by simp
    with 1(1) [OF refl False refl r(4) [symmetric], of ls2] 1(3,4) r(1,3) obtain k where
      k: "grep pat rd left (drop (nat ?n) input) = unlines (filter (match pat) (take k ls2))"
      "(\<forall>m. 0 \<le> rd m) \<longrightarrow> length ls2 \<le> k" by auto
    have "grep pat rd buf input = unlines (filter (match pat) (take (length ls1 + k) ls))"
      unfolding r(1) take_append
      by (subst grep.simps) (simp only: Let_def False r(4) k(1) prod.case if_False filter_append unlines_simps
          take_all add_diff_cancel_left' le_add1)
    with k(2) r(1) show ?thesis by (intro exI [of _ "length ls1 + k"]) auto
  qed
qed

text \<open>A first line that fills the buffer ends the search: \<^verbatim>\<open>read()\<close> is then asked for no bytes.\<close>

lemma grep_long_line:
  assumes "buf @ input = l @ more" and "NL \<notin> set l" and "GREP_BUF \<le> length l + 1" and "length buf < GREP_BUF"
  shows "grep pat rd buf input = []"
  using assms
proof (induction pat rd buf input rule: grep.induct)
  case (1 pat rd buf input)
  let ?n = "read_n rd (GREP_BUF - length buf - 1) (length input)"
  let ?x = "buf @ take (nat ?n) input"
  have len: "length ?x < GREP_BUF"
    using read_n_le(1) [of rd "GREP_BUF - length buf - 1" "length input"] 1(5)
    unfolding length_append length_take by arith
  have eq: "?x @ drop (nat ?n) input = l @ more" using 1(2) by simp
  have "?x = take (length ?x) (l @ more)" using eq by (metis append_eq_conv_conj)
  also have "\<dots> = take (length ?x) l" using len 1(4) by simp
  finally have "NL \<notin> set ?x" using 1(3) by (metis in_set_takeD)
  then have lines: "grep_lines pat ?x = ([], ?x)" by (rule grep_lines_none)
  show ?case
  proof (cases "?n \<le> 0")
    case False
    from 1(1) [OF refl False refl lines [symmetric] eq 1(3,4) len] show ?thesis
      by (subst grep.simps) (simp only: Let_def False lines prod.case if_False append_Nil)
  qed (subst grep.simps, simp)
qed

lemma grep_long_line_stops:
  assumes "NL \<notin> set l" and "GREP_BUF \<le> length l + 1"
  shows "grep pat rd [] (l @ more) = []"
  using assms by (intro grep_long_line) (simp_all add: GREP_BUF_def)

section \<open>Properties\<close>

text \<open>
  C35: \<^verbatim>\<open>match()\<close> decides exactly the language of its pattern.  A pattern is a sequence of
  characters and starred characters, a dot standing for any character, with an optional dollar at its
  end; it matches a text if some part of the text (a prefix when the pattern starts with a caret, a
  suffix of the rest when it ends in a dollar) is a concatenation of texts its items describe.
\<close>

theorem match_decides_language:
  "match re tx \<longleftrightarrow>
     (if re \<noteq> [] \<and> hd re = CARET then fits (items (tl re)) tx
      else (\<exists>u v. tx = u @ v \<and> fits (items re) v))"
  by (simp add: match_def matcher_fits(1) match_from_suffix)

text \<open>
  C36: \<^verbatim>\<open>grep()\<close> on a file whose lines have no zero bytes and are shorter than 1023 bytes, with
  possibly an unfinished last line, however many bytes each \<^verbatim>\<open>read()\<close> delivers: it writes
  exactly the finished lines that match, in order, wherever they lie relative to the buffer and to the
  reads; the unfinished line is never written.  If a \<^verbatim>\<open>read()\<close> fails, it has written the matching
  lines of a first part of the file.
\<close>

theorem grep_selects_lines:
  assumes "\<forall>l\<in>set ls. plain l \<and> length l + 1 < GREP_BUF" and "NL \<notin> set rest"
  shows "\<exists>k. grep pat rd [] (unlines ls @ rest) = unlines (filter (match pat) (take k ls)) \<and>
    ((\<forall>m. 0 \<le> rd m) \<longrightarrow> length ls \<le> k)"
  using assms by (intro grep_buffered) auto

text \<open>The witness: a reader that delivers two bytes at a time.\<close>

theorem grep_selects_lines_witness:
  "grep [CARET, 97] (\<lambda>_. 2) [] (unlines [[97, 98], [98], [97]] @ [97]) = unlines [[97, 98], [97]]"
proof -
  let ?ls = "[[97, 98], [98], [97]] :: u8 list list"
  have "\<forall>l\<in>set ?ls. plain l \<and> length l + 1 < GREP_BUF" "NL \<notin> set [97]"
    by (simp_all add: plain_def GREP_BUF_def char_defs)
  from grep_selects_lines [OF this, of "[CARET, 97]" "\<lambda>_. 2"] obtain k where
    k: "grep [CARET, 97] (\<lambda>_. 2) [] (unlines ?ls @ [97]) = unlines (filter (match [CARET, 97]) (take k ?ls))"
      "length ?ls \<le> k" by auto
  show ?thesis
    unfolding k(1) take_all [OF k(2)] by (simp add: match_def matchhere.simps char_defs)
qed

end
