(* ===== verification/ULib.thy ===== *)
theory ULib
  imports Digits
begin

text \<open>
  The user library: the string routines of \<^verbatim>\<open>user/ulib.c\<close> and the formatted output of
  \<^verbatim>\<open>user/printf.c\<close>.  The routines are named like those of the kernel with a prefix
  \<open>u_\<close>; an object behind a \<^verbatim>\<open>char *\<close> is a function from offsets to bytes, and a loop
  that runs until it meets a zero byte is partial.
\<close>

section \<open>Strings and memory\<close>

partial_function (option) u_strcpy_from :: "cobj \<Rightarrow> cobj \<Rightarrow> nat \<Rightarrow> cobj option" where
  "u_strcpy_from s t i =
     (let s1 = s(i := t i) in if t i \<noteq> 0 then u_strcpy_from s1 t (i + 1) else Some s1)"

definition u_strcpy :: "cobj \<Rightarrow> cobj \<Rightarrow> cobj option" where
  "u_strcpy s t = u_strcpy_from s t 0"

partial_function (option) u_strcmp_from :: "cobj \<Rightarrow> cobj \<Rightarrow> nat \<Rightarrow> int option" where
  "u_strcmp_from p q i =
     (if p i \<noteq> 0 \<and> p i = q i then u_strcmp_from p q (i + 1) else Some (uint (p i) - uint (q i)))"

definition u_strcmp :: "cobj \<Rightarrow> cobj \<Rightarrow> int option" where
  "u_strcmp p q = u_strcmp_from p q 0"

definition u_strlen :: "cobj \<Rightarrow> u32 option" where
  "u_strlen s = map_option of_nat (strlen_from s 0)"

definition u_memset :: "u64 \<Rightarrow> u32 \<Rightarrow> u32 \<Rightarrow> memory \<Rightarrow> memory" where
  "u_memset dst c n m = memset_loop (ucast c) (unat n) dst m"

text \<open>The offset of the first \<^verbatim>\<open>c\<close>, or no offset for the null pointer.\<close>

partial_function (option) u_strchr_from :: "cobj \<Rightarrow> u8 \<Rightarrow> nat \<Rightarrow> nat option option" where
  "u_strchr_from s c i =
     (if s i = 0 then Some None else if s i = c then Some (Some i) else u_strchr_from s c (i + 1))"

definition u_strchr :: "cobj \<Rightarrow> u8 \<Rightarrow> nat option option" where
  "u_strchr s c = u_strchr_from s c 0"

text \<open>
  \<^verbatim>\<open>gets()\<close> on the bytes that file descriptor 0 still delivers: the string stored in
  \<^verbatim>\<open>buf\<close> and what is left of the input.
\<close>

fun u_gets_loop :: "nat \<Rightarrow> u8 list \<Rightarrow> u8 list \<times> u8 list" where
  "u_gets_loop 0 input = ([], input)"
| "u_gets_loop (Suc room) [] = ([], [])"
| "u_gets_loop (Suc room) (c # input) =
     (if c = 10 \<or> c = 13 then ([c], input)
      else let (line, left) = u_gets_loop room input in (c # line, left))"

definition u_gets :: "int \<Rightarrow> u8 list \<Rightarrow> u8 list \<times> u8 list" where
  "u_gets mx input = u_gets_loop (nat (mx - 1)) input"

text \<open>\<^verbatim>\<open>atoi()\<close> with the 32-bit arithmetic of \<^verbatim>\<open>int\<close>.\<close>

fun u_atoi_loop :: "u32 \<Rightarrow> u8 list \<Rightarrow> u32" where
  "u_atoi_loop n [] = n"
| "u_atoi_loop n (c # cs) = (if 48 \<le> c \<and> c \<le> 57 then u_atoi_loop (n * 10 + ucast c - 48) cs else n)"

definition u_atoi :: "u8 list \<Rightarrow> u32" where
  "u_atoi s = u_atoi_loop 0 s"

text \<open>Unlike the kernel's routine, this one always copies upwards.\<close>

definition u_memmove :: "u64 \<Rightarrow> u64 \<Rightarrow> int \<Rightarrow> memory \<Rightarrow> memory" where
  "u_memmove vdst vsrc n m = copy_up (nat n) vdst vsrc m"

section \<open>Formatted output\<close>

text \<open>\<^verbatim>\<open>"0123456789ABCDEF"[i]\<close>\<close>

definition u_digit :: "nat \<Rightarrow> u8" where
  "u_digit i = (if i < 10 then of_nat (48 + i) else of_nat (55 + i))"

text \<open>Every character is one \<^verbatim>\<open>write()\<close> of \<^verbatim>\<open>putc()\<close>; these are the characters.\<close>

definition u_printint :: "u32 \<Rightarrow> nat \<Rightarrow> bool \<Rightarrow> u8 list" where
  "u_printint xx base sg = int_chars u_digit xx base sg"

definition u_printptr :: "u64 \<Rightarrow> u8 list" where
  "u_printptr x = ptr_chars u_digit x"

text \<open>One character \<^verbatim>\<open>c\<close> after a percent sign: what is printed and the arguments left.\<close>

definition u_directive :: "u8 \<Rightarrow> va list \<Rightarrow> u8 list \<times> va list" where
  "u_directive c ap =
     (if c = 100 then (u_printint (va_int ap) 10 True, tl ap)
      else if c = 108 then (u_printint (ucast (va_ptr ap)) 10 False, tl ap)
      else if c = 120 then (u_printint (va_int ap) 16 False, tl ap)
      else if c = 112 then (u_printptr (va_ptr ap), tl ap)
      else if c = 115 then (va_str ap, tl ap)
      else if c = 99 then ([ucast (va_int ap)], tl ap)
      else if c = 37 then ([c], ap)
      else ([37, c], ap))"

text \<open>The scan, with \<^verbatim>\<open>state\<close> telling whether the last character was a percent sign.\<close>

primrec u_vprintf :: "bool \<Rightarrow> u8 list \<Rightarrow> va list \<Rightarrow> u8 list" where
  "u_vprintf state [] ap = []"
| "u_vprintf state (c # cs) ap =
     (if \<not> state then (if c = 37 then u_vprintf True cs ap else c # u_vprintf False cs ap)
      else let (out, ap1) = u_directive c ap in out @ u_vprintf False cs ap1)"

text \<open>\<^verbatim>\<open>fprintf()\<close> and \<^verbatim>\<open>printf()\<close>: the descriptor written and the characters.\<close>

definition u_fprintf :: "nat \<Rightarrow> u8 list \<Rightarrow> va list \<Rightarrow> nat \<times> u8 list" where
  "u_fprintf fd fmt ap = (fd, u_vprintf False fmt ap)"

definition u_printf :: "u8 list \<Rightarrow> va list \<Rightarrow> nat \<times> u8 list" where
  "u_printf fmt ap = u_fprintf 1 fmt ap"

section \<open>What they compute\<close>

text \<open>\<open>s\<close> holds a string of length \<open>k\<close>.\<close>

definition cstr_len :: "cobj \<Rightarrow> nat \<Rightarrow> bool" where
  "cstr_len s k \<longleftrightarrow> s k = 0 \<and> (\<forall>j<k. s j \<noteq> 0)"

lemma cstr_len_next: "cstr_len s k \<Longrightarrow> i \<le> k \<Longrightarrow> s i \<noteq> 0 \<Longrightarrow> i + 1 \<le> k"
  by (cases "i = k") (auto simp: cstr_len_def)

lemma u_strcpy_from_eq:
  "cstr_len t k \<Longrightarrow> i \<le> k \<Longrightarrow> u_strcpy_from s t i = Some (\<lambda>j. if i \<le> j \<and> j \<le> k then t j else s j)"
proof (induction "k - i" arbitrary: i s)
  case 0
  then show ?case by (subst u_strcpy_from.simps) (auto simp: cstr_len_def Let_def fun_eq_iff)
next
  case (Suc d)
  then have "u_strcpy_from (s(i := t i)) t (i + 1) = Some (\<lambda>j. if i + 1 \<le> j \<and> j \<le> k then t j else (s(i := t i)) j)"
    by (intro Suc) auto
  moreover have "t i \<noteq> 0" using Suc by (auto simp: cstr_len_def)
  ultimately show ?case
    using Suc by (subst u_strcpy_from.simps) (auto simp: Let_def fun_eq_iff)
qed

lemma u_strcmp_from_eq:
  assumes "cstr_len p k" "\<forall>j<i. p j = q j" "i \<le> k"
  shows "\<exists>r. u_strcmp_from p q i = Some r \<and> (r = 0 \<longleftrightarrow> (\<forall>j\<le>k. p j = q j))"
  using assms
proof (induction "k - i" arbitrary: i)
  case 0
  then show ?case
    by (subst u_strcmp_from.simps) (auto simp: cstr_len_def le_less uint_0_iff)
next
  case (Suc d)
  show ?case
  proof (cases "p i = q i")
    case True
    moreover have "p i \<noteq> 0" using Suc by (auto simp: cstr_len_def)
    ultimately show ?thesis
      using Suc(1) [of "i + 1"] Suc by (subst u_strcmp_from.simps) (auto simp: less_Suc_eq)
  next
    case False
    then show ?thesis using Suc by (subst u_strcmp_from.simps) (auto intro!: exI [of _ i])
  qed
qed

lemma u_digit_table: "\<forall>i\<in>set [0..<16]. (\<lambda>c. if unat c < 58 then unat c - 48 else unat c - 55) (u_digit i) = i \<and> u_digit i \<noteq> 45"
  by code_simp

definition u_hexval :: "u8 \<Rightarrow> nat" where
  "u_hexval c = (if unat c < 58 then unat c - 48 else unat c - 55)"

interpretation ud: digit_table u_digit u_hexval
  by unfold_locales (use u_digit_table in \<open>auto simp: u_hexval_def\<close>)

lemma u_digit_decimal: "\<forall>i\<in>set [0..<10]. 48 \<le> u_digit i \<and> u_digit i \<le> 57"
  by code_simp

lemma decimal_digits: "c \<in> set (digits_rev u_digit n 10 x) \<Longrightarrow> 48 \<le> c \<and> c \<le> 57"
proof (induction n arbitrary: x)
  case (Suc n)
  have "x mod 10 \<in> set [0..<10]" by simp
  then show ?case using Suc u_digit_decimal by (auto split: if_splits)
qed simp

lemma u_atoi_loop_digits:
  "\<forall>c\<in>set cs. 48 \<le> c \<and> c \<le> 57 \<Longrightarrow>
   u_atoi_loop (of_nat m) cs = of_nat (foldl (\<lambda>n c. n * 10 + u_hexval c) m cs)"
proof (induction cs arbitrary: m)
  case (Cons c cs)
  then have c: "48 \<le> unat c" "unat c \<le> 57" by (auto simp: word_le_nat_alt)
  have "(of_nat m * 10 + ucast c - 48 :: u32) = of_nat (m * 10 + u_hexval c)"
  proof -
    have "(ucast c :: u32) = of_nat (unat c)" by simp
    then have "(ucast c - 48 :: u32) = of_nat (unat c - 48)" using c by (simp add: of_nat_diff)
    then have "(of_nat m * 10 + (ucast c - 48) :: u32) = of_nat (m * 10 + u_hexval c)"
      using c by (simp add: u_hexval_def mult.commute)
    then show ?thesis by (simp add: add_diff_eq)
  qed
  then show ?case using Cons by (simp del: of_nat_add of_nat_mult)
qed simp

lemma u_atoi_digits: "u_atoi (rev (digits_rev u_digit 32 10 (unat x))) = (x :: u32)"
proof -
  let ?ds = "rev (digits_rev u_digit 32 10 (unat x))"
  have "u_atoi ?ds = of_nat (read_nat u_hexval 10 ?ds)"
    using u_atoi_loop_digits [of ?ds 0] decimal_digits
    by (auto simp: u_atoi_def read_nat_def simp del: digits_rev.simps)
  also have "read_nat u_hexval 10 ?ds = unat x"
    by (intro ud.read_digits ud.u32_digits) auto
  finally show ?thesis by simp
qed

section \<open>Properties\<close>

text \<open>
  C38: \<^verbatim>\<open>atoi()\<close> reads back every number the library prints in decimal: an unsigned number
  and a signed one that is not negative give the same 32 bits, and a negative one, whose sign
  \<^verbatim>\<open>atoi()\<close> does not know, gives 0.
\<close>

theorem u_atoi_u_printint:
  "u_atoi (u_printint x 10 sg) = (if sg \<and> sint x < 0 then 0 else x)"
proof (cases "sg \<and> sint x < 0")
  case True
  then show ?thesis by (simp add: u_printint_def int_chars_def u_atoi_def)
next
  case False
  then have "u_printint x 10 sg = rev (digits_rev u_digit 32 10 (unat x))"
    by (auto simp: u_printint_def int_chars_def simp del: digits_rev.simps)
  then show ?thesis using False by (simp only: u_atoi_digits if_False)
qed

lemma u_strcpy_eq: "cstr_len t k \<Longrightarrow> u_strcpy s t = Some (\<lambda>j. if j \<le> k then t j else s j)"
  using u_strcpy_from_eq [of t k 0 s] by (simp add: u_strcpy_def)

text \<open>
  On terminated strings \<^verbatim>\<open>strcpy()\<close> and \<^verbatim>\<open>strcmp()\<close> return, and
  \<^verbatim>\<open>strcmp()\<close> gives 0 exactly for equal strings; in particular for a string and its copy,
  which is no longer than the string.
\<close>

theorem u_strcmp_u_strcpy:
  assumes "cstr_len t k"
  shows "\<exists>s'. u_strcpy s t = Some s' \<and> cstr_len s' k \<and> u_strcmp s' t = Some 0 \<and> (\<forall>j>k. s' j = s j) \<and>
    (\<forall>q. (\<exists>r. u_strcmp t q = Some r \<and> (r = 0 \<longleftrightarrow> (\<forall>j\<le>k. t j = q j))))"
proof -
  let ?s = "\<lambda>j. if j \<le> k then t j else s j"
  have "cstr_len ?s k" using assms by (auto simp: cstr_len_def)
  then show ?thesis
    using u_strcpy_eq [OF assms, of s] u_strcmp_from_eq [of ?s k 0 t] u_strcmp_from_eq [OF assms, of 0]
    by (auto simp: u_strcmp_def)
qed

theorem u_strcmp_u_strcpy_witness:
  "\<exists>s'. u_strcpy (\<lambda>_. 9) (at_list [97, 98]) = Some s' \<and> cstr_len s' 2 \<and> s' 3 = 9"
  using u_strcmp_u_strcpy [of "at_list [97, 98]" 2 "\<lambda>_. 9"]
  by (auto simp: cstr_len_def at_list_def less_2_cases_iff)

text \<open>The library's \<^verbatim>\<open>memmove()\<close> copies wrongly when the destination overlaps the source from above.\<close>

lemma u_memmove_overlap: "u_memmove 1 0 2 ((\<lambda>_. 0)(0 := 7, 1 := 8)) 2 = 7"
  by (simp add: u_memmove_def eval_nat_numeral)

end
