(* ===== verification/Shell.thy ===== *)
theory Shell
  imports ULib "HOL-Library.Sublist"
begin

text \<open>
  The shell (\<^verbatim>\<open>user/sh.c\<close>): the parser, which keeps pointers into the line it parses and
  cuts the line into strings at the end, and the interpretation of a command as system calls.

  A pointer into the line is the part of the line from there to its end \<^verbatim>\<open>es\<close>.  The
  allocation of the nodes is not modelled; a node is a value.
\<close>

section \<open>Commands\<close>

text \<open>A command over the strings in it: \<open>'w\<close> is a pair of pointers before the line is cut, a string afterwards.\<close>

datatype 'w cmd =
    EXEC "'w list"
  | REDIR "'w cmd" 'w int nat
  | PIPE "'w cmd" "'w cmd"
  | LIST "'w cmd" "'w cmd"
  | BACK "'w cmd"

type_synonym ptr = "u8 list"
type_synonym span = "ptr \<times> ptr"

definition MAXARGS :: nat where "MAXARGS = 10"

text \<open>\<^verbatim>\<open>O_RDONLY\<close> and \<^verbatim>\<open>O_WRONLY|O_CREATE\<close>.\<close>

definition MODE_IN :: int where "MODE_IN = 0"
definition MODE_OUT :: int where "MODE_OUT = 0x201"

text \<open>An exit with a message, or a recursion deeper than the fuel allows.\<close>

datatype sherr = Died string | OutOfFuel

section \<open>Tokens\<close>

definition whitespace :: "u8 list" where "whitespace = [32, 9, 13, 10, 11]"
definition symbols :: "u8 list" where "symbols = [60, 124, 62, 38, 59, 40, 41]"

definition is_white :: "u8 \<Rightarrow> bool" where "is_white c \<longleftrightarrow> c \<in> set whitespace"
definition is_symbol :: "u8 \<Rightarrow> bool" where "is_symbol c \<longleftrightarrow> c \<in> set symbols"

text \<open>\<^verbatim>\<open>while(s < es && strchr(whitespace, *s)) s++\<close>\<close>

definition skip_white :: "ptr \<Rightarrow> ptr" where
  "skip_white s = dropWhile is_white s"

definition word_char :: "u8 \<Rightarrow> bool" where
  "word_char c \<longleftrightarrow> \<not> is_white c \<and> \<not> is_symbol c"

text \<open>
  \<^verbatim>\<open>gettoken()\<close> returns the token, \<^verbatim>\<open>*q\<close>, \<^verbatim>\<open>*eq\<close> and the new \<^verbatim>\<open>*ps\<close>.
\<close>

definition gettoken :: "ptr \<Rightarrow> u8 \<times> ptr \<times> ptr \<times> ptr" where
  "gettoken ps =
     (let q = skip_white ps in
      case q of
        [] \<Rightarrow> (0, q, q, q)
      | c # s \<Rightarrow>
          if c = 0 then (0, q, q, skip_white q)
          else if c \<in> {124, 40, 41, 59, 38, 60} then (c, q, s, skip_white s)
          else if c = 62 then
            (case s of
               d # s1 \<Rightarrow> if d = 62 then (43, q, s1, skip_white s1) else (62, q, s, skip_white s)
             | [] \<Rightarrow> (62, q, s, skip_white s))
          else let eq = dropWhile word_char q in (97, q, eq, skip_white eq))"

definition peek :: "ptr \<Rightarrow> u8 list \<Rightarrow> bool \<times> ptr" where
  "peek ps toks = (let s = skip_white ps in (s \<noteq> [] \<and> hd s \<noteq> 0 \<and> hd s \<in> set toks, s))"

lemma length_skip_white: "length (skip_white s) \<le> length s"
  by (simp add: skip_white_def length_dropWhile_le)

lemma suffix_skip_white: "suffix (skip_white s) s"
  by (simp add: skip_white_def suffix_dropWhile)

lemma skip_white_Nil [simp]: "skip_white [] = []"
  by (simp add: skip_white_def)

lemma skip_white_idem [simp]: "skip_white (skip_white s) = skip_white s"
  by (cases "skip_white s") (metis dropWhile.simps hd_dropWhile list.sel(1) list.distinct(1) skip_white_def)+

lemma peek_ps: "peek s toks = (b, s1) \<Longrightarrow> s1 = skip_white s"
  by (simp add: peek_def Let_def)

text \<open>What a token is: a piece of the line, and if it is a word, a maximal one.\<close>

definition is_word :: "u8 list \<Rightarrow> bool" where
  "is_word w \<longleftrightarrow> w \<noteq> [] \<and> (\<forall>c\<in>set w. word_char c \<and> c \<noteq> 0)"

definition ends_word :: "ptr \<Rightarrow> bool" where
  "ends_word s \<longleftrightarrow> s = [] \<or> \<not> word_char (hd s)"

lemma ends_word_dropWhile: "ends_word (dropWhile word_char s)"
  unfolding ends_word_def using hd_dropWhile by blast

lemma word_char_unfold:
  "word_char c \<longleftrightarrow> c \<notin> {32, 9, 13, 10, 11} \<and> c \<notin> {60, 124, 62, 38, 59, 40, 41}"
  by (simp add: word_char_def is_white_def is_symbol_def whitespace_def symbols_def)

lemma skip_white_Cons: "skip_white s = c # r \<Longrightarrow> \<not> is_white c"
  unfolding skip_white_def by (metis hd_dropWhile list.sel(1) list.distinct(1))

lemma gettoken_word:
  assumes "skip_white s = c # r" "c \<noteq> 0" "\<not> is_symbol c"
  shows "gettoken s = (97, skip_white s, dropWhile word_char r, skip_white (dropWhile word_char r))"
proof -
  have "word_char c" using assms skip_white_Cons [OF assms(1)] by (simp add: word_char_def)
  then have "dropWhile word_char (c # r) = dropWhile word_char r" by simp
  then show ?thesis using assms by (simp add: gettoken_def Let_def is_symbol_def symbols_def)
qed

lemma gettoken_symbol:
  assumes "skip_white s = c # r" "is_symbol c" "c \<noteq> 62"
  shows "gettoken s = (c, skip_white s, r, skip_white r)"
  using assms by (auto simp: gettoken_def is_symbol_def symbols_def)

lemma gettoken_shape:
  assumes "gettoken s = (tok, q, eq, s1)"
  shows "q = skip_white s \<and> s1 = skip_white eq \<and>
    (\<exists>w. q = w @ eq \<and> (tok \<noteq> 0 \<longleftrightarrow> w \<noteq> []) \<and>
      (tok = 97 \<longrightarrow> (\<forall>c\<in>set w. word_char c) \<and> ends_word eq))"
proof (cases "skip_white s")
  case Nil
  then show ?thesis using assms by (auto simp: gettoken_def Let_def)
next
  case (Cons c r)
  consider "c = 0" | "c \<noteq> 0" "\<not> is_symbol c" | "is_symbol c" "c \<noteq> 62" | "c = 62" by blast
  then show ?thesis
  proof cases
    case 1
    then show ?thesis using assms Cons by (auto simp: gettoken_def Let_def)
  next
    case 2
    have "word_char c" using 2 skip_white_Cons [OF Cons] by (simp add: word_char_def)
    moreover have "r = takeWhile word_char r @ dropWhile word_char r" by simp
    ultimately show ?thesis using assms gettoken_word [OF Cons 2] Cons
      by (auto simp: ends_word_dropWhile dest: set_takeWhileD intro!: exI [of _ "c # takeWhile word_char r"])
  next
    case 3
    then show ?thesis using assms gettoken_symbol [OF Cons 3] Cons
      by (auto simp: is_symbol_def symbols_def)
  next
    case 4
    then show ?thesis using assms Cons
      by (auto simp: gettoken_def Let_def split: list.splits if_splits) (metis append_Cons append_Nil list.distinct(1))
  qed
qed

lemma gettoken_le:
  assumes "gettoken s = (tok, q, eq, s1)"
  shows "length s1 \<le> length s" "tok \<noteq> 0 \<Longrightarrow> length s1 < length s"
proof -
  from gettoken_shape [OF assms] obtain w where w: "skip_white s = w @ eq" "s1 = skip_white eq" "tok \<noteq> 0 \<longleftrightarrow> w \<noteq> []"
    by blast
  have "length (w @ eq) \<le> length s" using length_skip_white [of s] by (simp add: w(1))
  then show "length s1 \<le> length s" "tok \<noteq> 0 \<Longrightarrow> length s1 < length s"
    using length_skip_white [of eq] w(2,3) by (auto simp: neq_Nil_conv)
qed

lemma peek_gettoken_less:
  assumes "peek s toks = (True, s1)" and "gettoken s1 = (tok, q, eq, s2)"
  shows "length s2 < length s"
proof -
  obtain c r where c: "skip_white s = c # r" "c \<noteq> 0" using assms(1) by (auto simp: peek_def Let_def neq_Nil_conv)
  then have "skip_white s1 = c # r"
    using peek_ps [OF assms(1)] skip_white_idem by metis
  then have "tok \<noteq> 0" using assms(2) c(2) by (auto simp: gettoken_def Let_def split: if_splits list.splits)
  then have "length s2 < length s1" by (rule gettoken_le(2) [OF assms(2)])
  also have "length s1 \<le> length s" using peek_ps [OF assms(1)] by (simp add: length_skip_white)
  finally show ?thesis .
qed

section \<open>The parser\<close>

lemma redirs_less:
  assumes "(True, s1) = peek ps toks" "(tok, q, eq, s2) = gettoken s1" "(tok2, q2, eq2, s3) = gettoken s2"
  shows "length s3 < length ps"
  using peek_gettoken_less [OF assms(1,2) [symmetric]] gettoken_le(1) [OF assms(3) [symmetric]] by simp

function parseredirs :: "span cmd \<Rightarrow> ptr \<Rightarrow> sherr + span cmd \<times> ptr" where
  "parseredirs cmd ps =
     (case peek ps [60, 62] of (b, s1) \<Rightarrow>
      if \<not> b then Inr (cmd, s1)
      else
      case gettoken s1 of (tok, _, _, s2) \<Rightarrow>
      case gettoken s2 of (tok2, q, eq, s3) \<Rightarrow>
      if tok2 \<noteq> 97 then Inl (Died ''missing file for redirection'')
      else parseredirs
        (if tok = 60 then REDIR cmd (q, eq) MODE_IN 0
         else if tok = 62 then REDIR cmd (q, eq) MODE_OUT 1
         else if tok = 43 then REDIR cmd (q, eq) MODE_OUT 1
         else cmd) s3)"
  by pat_completeness auto
termination
  by (relation "measure (\<lambda>(_, s). length s)") (auto dest: redirs_less)

declare parseredirs.simps [simp del]

text \<open>\<^verbatim>\<open>cmd->argv[argc] = q\<close> for the \<^verbatim>\<open>execcmd\<close> inside the redirections wrapped around it.\<close>

primrec add_arg :: "'w cmd \<Rightarrow> 'w \<Rightarrow> 'w cmd" where
  "add_arg (EXEC args) w = EXEC (args @ [w])"
| "add_arg (REDIR c f mode fd) w = REDIR (add_arg c w) f mode fd"
| "add_arg (PIPE l r) w = PIPE l r"
| "add_arg (LIST l r) w = LIST l r"
| "add_arg (BACK c) w = BACK c"

lemma parseredirs_le: "parseredirs cmd ps = Inr (c, s) \<Longrightarrow> length s \<le> length ps"
proof (induction cmd ps rule: parseredirs.induct)
  case (1 cmd ps)
  obtain b s1 tok q eq s2 tok2 q2 eq2 s3 where
    e: "peek ps [60, 62] = (b, s1)" "gettoken s1 = (tok, q, eq, s2)" "gettoken s2 = (tok2, q2, eq2, s3)"
    by (metis prod.exhaust)
  show ?case
  proof (cases "b \<and> tok2 = 97")
    case True
    have "length s \<le> length s3"
      using 1 e True by (subst (asm) (2) parseredirs.simps) simp
    moreover have "length s3 < length ps" 
      using redirs_less [of s1 ps "[60, 62]" tok q eq s2 tok2 q2 eq2 s3] e True by simp
    ultimately show ?thesis by simp
  next
    case False
    then show ?thesis
      using 1(2) e peek_ps [OF e(1)] length_skip_white [of ps]
      by (subst (asm) parseredirs.simps) (auto split: if_splits)
  qed
qed

text \<open>The loop of \<^verbatim>\<open>parseexec()\<close> over the arguments.\<close>

function parseargs :: "span cmd \<Rightarrow> nat \<Rightarrow> ptr \<Rightarrow> sherr + span cmd \<times> ptr" where
  "parseargs rt argc ps =
     (case peek ps [124, 41, 38, 59] of (b, s1) \<Rightarrow>
      if b then Inr (rt, s1)
      else
      case gettoken s1 of (tok, q, eq, s2) \<Rightarrow>
      if tok = 0 then Inr (rt, s2)
      else if tok \<noteq> 97 then Inl (Died ''syntax'')
      else if argc + 1 \<ge> MAXARGS then Inl (Died ''too many args'')
      else
      case parseredirs (add_arg rt (q, eq)) s2 of
        Inl e \<Rightarrow> Inl e
      | Inr (rt1, s3) \<Rightarrow> parseargs rt1 (argc + 1) s3)"
  by pat_completeness auto
termination
  by (relation "measure (\<lambda>(_, argc, _). MAXARGS - argc)") auto

declare parseargs.simps [simp del]

text \<open>The loop of \<^verbatim>\<open>parseline()\<close> over the ampersands.\<close>

function parsebacks :: "span cmd \<Rightarrow> ptr \<Rightarrow> span cmd \<times> ptr" where
  "parsebacks cmd ps =
     (case peek ps [38] of (b, s1) \<Rightarrow>
      if b then case gettoken s1 of (_, _, _, s2) \<Rightarrow> parsebacks (BACK cmd) s2
      else (cmd, s1))"
  by pat_completeness auto
termination
  by (relation "measure (\<lambda>(_, s). length s)") (auto dest: peek_gettoken_less [OF sym sym])

declare parsebacks.simps [simp del]

text \<open>The recursive routines; each call uses one unit of fuel.\<close>

fun parseline :: "nat \<Rightarrow> ptr \<Rightarrow> sherr + span cmd \<times> ptr"
  and parsepipe :: "nat \<Rightarrow> ptr \<Rightarrow> sherr + span cmd \<times> ptr"
  and parseblock :: "nat \<Rightarrow> ptr \<Rightarrow> sherr + span cmd \<times> ptr"
  and parseexec :: "nat \<Rightarrow> ptr \<Rightarrow> sherr + span cmd \<times> ptr" where
  "parseline 0 ps = Inl OutOfFuel"
| "parseline (Suc n) ps =
     (case parsepipe n ps of
        Inl e \<Rightarrow> Inl e
      | Inr (cmd, s1) \<Rightarrow>
          case parsebacks cmd s1 of (cmd1, s2) \<Rightarrow>
          case peek s2 [59] of (b, s3) \<Rightarrow>
          if \<not> b then Inr (cmd1, s3)
          else case gettoken s3 of (_, _, _, s4) \<Rightarrow>
            case parseline n s4 of Inl e \<Rightarrow> Inl e | Inr (right, s5) \<Rightarrow> Inr (LIST cmd1 right, s5))"
| "parsepipe 0 ps = Inl OutOfFuel"
| "parsepipe (Suc n) ps =
     (case parseexec n ps of
        Inl e \<Rightarrow> Inl e
      | Inr (cmd, s1) \<Rightarrow>
          case peek s1 [124] of (b, s2) \<Rightarrow>
          if \<not> b then Inr (cmd, s2)
          else case gettoken s2 of (_, _, _, s3) \<Rightarrow>
            case parsepipe n s3 of Inl e \<Rightarrow> Inl e | Inr (right, s4) \<Rightarrow> Inr (PIPE cmd right, s4))"
| "parseblock 0 ps = Inl OutOfFuel"
| "parseblock (Suc n) ps =
     (case peek ps [40] of (b, s1) \<Rightarrow>
      if \<not> b then Inl (Died ''parseblock'')
      else case gettoken s1 of (_, _, _, s2) \<Rightarrow>
        case parseline n s2 of
          Inl e \<Rightarrow> Inl e
        | Inr (cmd, s3) \<Rightarrow>
            case peek s3 [41] of (b1, s4) \<Rightarrow>
            if \<not> b1 then Inl (Died ''syntax - missing )'')
            else case gettoken s4 of (_, _, _, s5) \<Rightarrow> parseredirs cmd s5)"
| "parseexec 0 ps = Inl OutOfFuel"
| "parseexec (Suc n) ps =
     (case peek ps [40] of (b, s1) \<Rightarrow>
      if b then parseblock n s1
      else case parseredirs (EXEC []) s1 of
        Inl e \<Rightarrow> Inl e
      | Inr (rt, s2) \<Rightarrow> parseargs rt 0 s2)"

text \<open>\<^verbatim>\<open>*eq = 0\<close> in the line, and the string that a pointer then points to.\<close>

definition put_nul :: "u8 list \<Rightarrow> ptr \<Rightarrow> u8 list" where
  "put_nul buf eq = buf[length buf - length eq := 0]"

definition string_at :: "u8 list \<Rightarrow> ptr \<Rightarrow> u8 list" where
  "string_at buf q = takeWhile (\<lambda>c. c \<noteq> 0) (drop (length buf - length q) buf)"

primrec nulterminate :: "span cmd \<Rightarrow> u8 list \<Rightarrow> u8 list" where
  "nulterminate (EXEC args) buf = fold (\<lambda>(q, eq) b. put_nul b eq) args buf"
| "nulterminate (REDIR c f mode fd) buf = put_nul (nulterminate c buf) (snd f)"
| "nulterminate (PIPE l r) buf = nulterminate r (nulterminate l buf)"
| "nulterminate (LIST l r) buf = nulterminate r (nulterminate l buf)"
| "nulterminate (BACK c) buf = nulterminate c buf"

text \<open>
  Four units of fuel per byte of the line are enough (\<open>parsecmd_returns\<close>).  The command is
  given with the strings its pointers point to in the cut line.
\<close>

definition parsecmd :: "u8 list \<Rightarrow> sherr + u8 list cmd" where
  "parsecmd s =
     (case parseline (4 * length s + 4) s of
        Inl e \<Rightarrow> Inl e
      | Inr (cmd, s1) \<Rightarrow>
          case peek s1 [] of (_, s2) \<Rightarrow>
          if s2 \<noteq> [] then Inl (Died ''syntax'')
          else let buf = nulterminate cmd s in Inr (map_cmd (\<lambda>(q, eq). string_at buf q) cmd))"

section \<open>What the parser builds\<close>

text \<open>A pair of pointers that delimits a word of the line.\<close>

definition span_ok :: "u8 list \<Rightarrow> span \<Rightarrow> bool" where
  "span_ok buf = (\<lambda>(q, eq). suffix q buf \<and> (\<exists>w. q = w @ eq \<and> is_word w) \<and> ends_word eq)"

text \<open>A command that fits the nodes of the shell and whose strings are all of a kind \<open>P\<close>.\<close>

primrec cmd_ok :: "('w \<Rightarrow> bool) \<Rightarrow> 'w cmd \<Rightarrow> bool" where
  "cmd_ok P (EXEC args) \<longleftrightarrow> length args < MAXARGS \<and> (\<forall>w\<in>set args. P w)"
| "cmd_ok P (REDIR c f mode fd) \<longleftrightarrow>
     cmd_ok P c \<and> P f \<and> (mode = MODE_IN \<and> fd = 0 \<or> mode = MODE_OUT \<and> fd = 1)"
| "cmd_ok P (PIPE l r) \<longleftrightarrow> cmd_ok P l \<and> cmd_ok P r"
| "cmd_ok P (LIST l r) \<longleftrightarrow> cmd_ok P l \<and> cmd_ok P r"
| "cmd_ok P (BACK c) \<longleftrightarrow> cmd_ok P c"

text \<open>The arguments inside the redirections.\<close>

primrec inner_args :: "'w cmd \<Rightarrow> 'w list option" where
  "inner_args (EXEC args) = Some args"
| "inner_args (REDIR c f mode fd) = inner_args c"
| "inner_args (PIPE l r) = None"
| "inner_args (LIST l r) = None"
| "inner_args (BACK c) = None"

lemma add_arg_ok:
  assumes "cmd_ok P c" "inner_args c = Some args" "length args + 1 < MAXARGS" "P w"
  shows "cmd_ok P (add_arg c w) \<and> inner_args (add_arg c w) = Some (args @ [w])"
  using assms by (induction c) auto

lemma suffix_in: "suffix s buf \<Longrightarrow> c \<in> set s \<Longrightarrow> c \<in> set buf"
  by (auto simp: suffix_def)

lemma gettoken_suffix:
  assumes "gettoken s = (tok, q, eq, s1)"
  shows "suffix s1 s"
proof -
  from gettoken_shape [OF assms] obtain w where w: "skip_white s = w @ eq" "s1 = skip_white eq" by blast
  have "suffix s1 eq" using w(2) suffix_skip_white by simp
  also have "suffix eq (skip_white s)" by (simp add: w(1) suffixI)
  also have "suffix (skip_white s) s" by (rule suffix_skip_white)
  finally show ?thesis .
qed

lemma gettoken_span:
  assumes "gettoken s = (97, q, eq, s1)" and "suffix s buf" and "0 \<notin> set buf"
  shows "span_ok buf (q, eq)"
proof -
  from gettoken_shape [OF assms(1)] obtain w where
    w: "q = skip_white s" "q = w @ eq" "w \<noteq> []" "\<forall>c\<in>set w. word_char c" "ends_word eq" by auto
  have q: "suffix q buf" using w(1) suffix_skip_white assms(2) suffix_order.trans by blast
  then have "0 \<notin> set w" using assms(3) w(2) suffix_in by fastforce
  then have "\<forall>c\<in>set w. word_char c \<and> c \<noteq> 0" using w(4) by metis
  with w(3) have "is_word w" by (simp add: is_word_def)
  with q w(2,5) show ?thesis by (auto simp: span_ok_def)
qed

lemma peek_suffix: "peek s toks = (b, s1) \<Longrightarrow> suffix s1 s"
  using peek_ps suffix_skip_white by metis

lemmas suffix_steps = peek_suffix gettoken_suffix suffix_order.trans

lemma parseredirs_ok:
  assumes "parseredirs c s = Inr (c', s')" "suffix s buf" "0 \<notin> set buf" "cmd_ok (span_ok buf) c"
  shows "suffix s' s \<and> cmd_ok (span_ok buf) c' \<and> inner_args c' = inner_args c"
  using assms
proof (induction c s rule: parseredirs.induct)
  case (1 c s)
  obtain b s1 tok q eq s2 tok2 q2 eq2 s3 where
    e: "peek s [60, 62] = (b, s1)" "gettoken s1 = (tok, q, eq, s2)" "gettoken s2 = (tok2, q2, eq2, s3)"
    by (metis prod.exhaust)
  have s2: "suffix s2 s" and s3: "suffix s3 s" using e by (meson suffix_steps)+
  let ?c = "if tok = 60 then REDIR c (q2, eq2) MODE_IN 0 else if tok = 62 then REDIR c (q2, eq2) MODE_OUT 1
         else if tok = 43 then REDIR c (q2, eq2) MODE_OUT 1 else c"
  show ?case
  proof (cases "b \<and> tok2 = 97")
    case True
    have p: "parseredirs ?c s3 = Inr (c', s')"
      using 1(2) e True by (subst (asm) parseredirs.simps) simp
    have "span_ok buf (q2, eq2)"
      by (rule gettoken_span [OF _ suffix_order.trans [OF s2 1(3)] 1(4)]) (use e(3) True in simp)
    then have "cmd_ok (span_ok buf) ?c" "inner_args ?c = inner_args c" using 1(5) by auto
    moreover have "suffix s3 buf" using s3 1(3) suffix_order.trans by metis
    ultimately show ?thesis
      using 1(1) [OF e(1) [symmetric] _ e(2) [symmetric] refl refl e(3) [symmetric] refl refl _ p] True 1(4) s3
      by (auto intro: suffix_order.trans)
  next
    case False
    then show ?thesis
      using 1(2,5) e peek_suffix [OF e(1)]
      by (subst (asm) parseredirs.simps) (auto split: if_splits)
  qed
qed

lemma parseargs_ok:
  assumes "parseargs c argc s = Inr (c', s')" "suffix s buf" "0 \<notin> set buf" "cmd_ok (span_ok buf) c"
    "inner_args c = Some args" "length args = argc"
  shows "suffix s' s \<and> cmd_ok (span_ok buf) c'"
  using assms
proof (induction c argc s arbitrary: args rule: parseargs.induct)
  case (1 c argc s)
  obtain b s1 tok q eq s2 where e: "peek s [124, 41, 38, 59] = (b, s1)" "gettoken s1 = (tok, q, eq, s2)"
    by (metis prod.exhaust)
  have s1: "suffix s1 s" and s2: "suffix s2 s" using e by (meson suffix_steps)+
  show ?case
  proof (cases "\<not> b \<and> tok = 97 \<and> argc + 1 < MAXARGS")
    case True
    have "parseargs c argc s = (case parseredirs (add_arg c (q, eq)) s2 of
        Inl e \<Rightarrow> Inl e | Inr (rt1, s3) \<Rightarrow> parseargs rt1 (argc + 1) s3)"
      using e True by (subst parseargs.simps) (simp add: not_le)
    with 1(2) obtain c1 s3 where
      p: "parseredirs (add_arg c (q, eq)) s2 = Inr (c1, s3)" "parseargs c1 (argc + 1) s3 = Inr (c', s')"
      by (auto split: sum.splits)
    have "span_ok buf (q, eq)"
      by (rule gettoken_span [OF _ suffix_order.trans [OF s1 1(3)] 1(4)]) (use e(2) True in simp)
    then have a: "cmd_ok (span_ok buf) (add_arg c (q, eq))" "inner_args (add_arg c (q, eq)) = Some (args @ [(q, eq)])"
      using add_arg_ok [OF 1(5,6)] 1(7) True by simp_all
    from parseredirs_ok [OF p(1) suffix_order.trans [OF s2 1(3)] 1(4) a(1)] a(2)
    have c1: "suffix s3 s2" "cmd_ok (span_ok buf) c1" "inner_args c1 = Some (args @ [(q, eq)])" by simp_all
    have s3: "suffix s3 s" using c1(1) s2 by (rule suffix_order.trans)
    have "suffix s' s3 \<and> cmd_ok (span_ok buf) c'"
      using True 1(7)
      by (intro 1(1) [OF e(1) [symmetric] _ e(2) [symmetric] refl refl _ _ _ p(1) refl p(2)
            suffix_order.trans [OF s3 1(3)] 1(4) c1(2,3)]) auto
    then show ?thesis using s3 by (auto intro: suffix_order.trans)
  next
    case False
    then show ?thesis
      using 1(2,5) e s1 s2 by (subst (asm) parseargs.simps) (auto split: if_splits)
  qed
qed

lemma parsebacks_ok:
  assumes "parsebacks c s = (c', s')" "cmd_ok P c"
  shows "suffix s' s \<and> cmd_ok P c'"
  using assms
proof (induction c s rule: parsebacks.induct)
  case (1 c s)
  obtain b s1 tok q eq s2 where e: "peek s [38] = (b, s1)" "gettoken s1 = (tok, q, eq, s2)"
    by (metis prod.exhaust)
  have s2: "suffix s1 s" "suffix s2 s" using e by (meson suffix_steps)+
  show ?case
  proof (cases b)
    case True
    then have "parsebacks (BACK c) s2 = (c', s')" using 1(2) e by (subst (asm) parsebacks.simps) simp
    from 1(1) [OF e(1) [symmetric] True e(2) [symmetric] refl refl this] 1(3) s2(2)
    show ?thesis by (auto intro: suffix_order.trans)
  next
    case False
    then show ?thesis using 1(2,3) e s2 by (subst (asm) parsebacks.simps) simp
  qed
qed

text \<open>Every routine moves forward in the line and builds commands of words of the line.\<close>

definition builds :: "u8 list \<Rightarrow> ptr \<Rightarrow> sherr + span cmd \<times> ptr \<Rightarrow> bool" where
  "builds buf s r \<longleftrightarrow> (\<forall>c s'. r = Inr (c, s') \<longrightarrow> suffix s' s \<and> cmd_ok (span_ok buf) c)"

lemma buildsI: "(\<And>c s'. r = Inr (c, s') \<Longrightarrow> suffix s' s \<and> cmd_ok (span_ok buf) c) \<Longrightarrow> builds buf s r"
  by (simp add: builds_def)

lemma buildsD: "builds buf s r \<Longrightarrow> r = Inr (c, s') \<Longrightarrow> suffix s' s \<and> cmd_ok (span_ok buf) c"
  by (simp add: builds_def)

lemma peek_gettoken_suffix:
  "peek s toks = (b, s1) \<Longrightarrow> gettoken s1 = (tok, q, eq, s2) \<Longrightarrow> suffix s1 s \<and> suffix s2 s"
  by (meson suffix_steps)

lemma parseexec_step:
  assumes "0 \<notin> set buf" "suffix s buf" "\<And>s. suffix s buf \<Longrightarrow> builds buf s (parseblock n s)"
  shows "builds buf s (parseexec (Suc n) s)"
proof (rule buildsI)
  fix c s'
  assume r: "parseexec (Suc n) s = Inr (c, s')"
  obtain b s1 where e: "peek s [40] = (b, s1)" by fastforce
  then have s1: "suffix s1 s" "suffix s1 buf" using assms(2) by (meson suffix_steps)+
  show "suffix s' s \<and> cmd_ok (span_ok buf) c"
  proof (cases b)
    case True
    with r e have "parseblock n s1 = Inr (c, s')" by simp
    with buildsD [OF assms(3) [OF s1(2)]] s1(1) show ?thesis by (meson suffix_order.trans)
  next
    case False
    with r e obtain c1 s2 where p: "parseredirs (EXEC []) s1 = Inr (c1, s2)" "parseargs c1 0 s2 = Inr (c, s')"
      by (auto split: sum.splits)
    have "cmd_ok (span_ok buf) (EXEC [])" by (simp add: MAXARGS_def)
    from parseredirs_ok [OF p(1) s1(2) assms(1) this]
    have c1: "suffix s2 s1" "cmd_ok (span_ok buf) c1" "inner_args c1 = Some []" by simp_all
    from parseargs_ok [OF p(2) suffix_order.trans [OF c1(1) s1(2)] assms(1) c1(2,3)] c1(1) s1(1)
    show ?thesis by (auto intro: suffix_order.trans)
  qed
qed

lemma parseblock_step:
  assumes "0 \<notin> set buf" "suffix s buf" "\<And>s. suffix s buf \<Longrightarrow> builds buf s (parseline n s)"
  shows "builds buf s (parseblock (Suc n) s)"
proof (rule buildsI)
  fix c s'
  assume r: "parseblock (Suc n) s = Inr (c, s')"
  obtain b s1 tok q eq s2 where e: "peek s [40] = (b, s1)" "gettoken s1 = (tok, q, eq, s2)" by (metis prod.exhaust)
  with r obtain c1 s3 where l: "parseline n s2 = Inr (c1, s3)" by (auto split: if_splits sum.splits)
  obtain b1 s4 tok q eq s5 where e1: "peek s3 [41] = (b1, s4)" "gettoken s4 = (tok, q, eq, s5)" by (metis prod.exhaust)
  from r e l e1 have p: "parseredirs c1 s5 = Inr (c, s')" by (simp split: if_splits)
  have s2: "suffix s2 s" using peek_gettoken_suffix [OF e] by simp
  from buildsD [OF assms(3) l] suffix_order.trans [OF s2 assms(2)]
  have c1: "suffix s3 s2" "cmd_ok (span_ok buf) c1" by simp_all
  have s5: "suffix s5 s" using peek_gettoken_suffix [OF e1] c1(1) s2 by (meson suffix_order.trans)
  from parseredirs_ok [OF p suffix_order.trans [OF s5 assms(2)] assms(1) c1(2)] s5
  show "suffix s' s \<and> cmd_ok (span_ok buf) c" by (auto intro: suffix_order.trans)
qed

lemma parsepipe_step:
  assumes "suffix s buf" "\<And>s. suffix s buf \<Longrightarrow> builds buf s (parsepipe n s)"
    "\<And>s. suffix s buf \<Longrightarrow> builds buf s (parseexec n s)"
  shows "builds buf s (parsepipe (Suc n) s)"
proof (rule buildsI)
  fix c s'
  assume r: "parsepipe (Suc n) s = Inr (c, s')"
  then obtain c1 s1 where x: "parseexec n s = Inr (c1, s1)" by (auto split: sum.splits)
  from buildsD [OF assms(3) [OF assms(1)] x] have c1: "suffix s1 s" "cmd_ok (span_ok buf) c1" by simp_all
  obtain b s2 tok q eq s3 where e: "peek s1 [124] = (b, s2)" "gettoken s2 = (tok, q, eq, s3)" by (metis prod.exhaust)
  have s2: "suffix s2 s" and s3: "suffix s3 s" using peek_gettoken_suffix [OF e] c1(1) by (meson suffix_order.trans)+
  show "suffix s' s \<and> cmd_ok (span_ok buf) c"
  proof (cases b)
    case True
    with r x e obtain c2 where p: "parsepipe n s3 = Inr (c2, s')" "c = PIPE c1 c2" by (auto split: sum.splits)
    from buildsD [OF assms(2) p(1)] suffix_order.trans [OF s3 assms(1)] p(2) c1(2) s3
    show ?thesis by (auto intro: suffix_order.trans)
  next
    case False
    with r x e c1(2) s2 show ?thesis by simp
  qed
qed

lemma parseline_step:
  assumes "suffix s buf" "\<And>s. suffix s buf \<Longrightarrow> builds buf s (parseline n s)"
    "\<And>s. suffix s buf \<Longrightarrow> builds buf s (parsepipe n s)"
  shows "builds buf s (parseline (Suc n) s)"
proof (rule buildsI)
  fix c s'
  assume r: "parseline (Suc n) s = Inr (c, s')"
  then obtain c0 s0 where x: "parsepipe n s = Inr (c0, s0)" by (auto split: sum.splits)
  obtain c1 s1 where bk: "parsebacks c0 s0 = (c1, s1)" by fastforce
  from buildsD [OF assms(3) [OF assms(1)] x] parsebacks_ok [OF bk]
  have c1: "suffix s1 s" "cmd_ok (span_ok buf) c1" by (auto intro: suffix_order.trans)
  obtain b s2 tok q eq s3 where e: "peek s1 [59] = (b, s2)" "gettoken s2 = (tok, q, eq, s3)" by (metis prod.exhaust)
  have s2: "suffix s2 s" and s3: "suffix s3 s" using peek_gettoken_suffix [OF e] c1(1) by (meson suffix_order.trans)+
  show "suffix s' s \<and> cmd_ok (span_ok buf) c"
  proof (cases b)
    case True
    with r x bk e obtain c2 where p: "parseline n s3 = Inr (c2, s')" "c = LIST c1 c2" by (auto split: sum.splits)
    from buildsD [OF assms(2) p(1)] suffix_order.trans [OF s3 assms(1)] p(2) c1(2) s3
    show ?thesis by (auto intro: suffix_order.trans)
  next
    case False
    with r x bk e c1(2) s2 show ?thesis by simp
  qed
qed

lemma parsers_build:
  assumes "0 \<notin> set buf"
  shows "suffix s buf \<Longrightarrow> builds buf s (parseline n s) \<and> builds buf s (parsepipe n s) \<and>
    builds buf s (parseblock n s) \<and> builds buf s (parseexec n s)"
proof (induction n arbitrary: s)
  case 0
  then show ?case by (simp add: builds_def)
next
  case (Suc n)
  then show ?case
    using assms by (intro conjI parseline_step parsepipe_step parseblock_step parseexec_step) auto
qed

section \<open>The fuel is enough\<close>

lemma parseredirs_fed: "parseredirs c s \<noteq> Inl OutOfFuel"
proof (induction c s rule: parseredirs.induct)
  case (1 c s)
  obtain b s1 tok q eq s2 tok2 q2 eq2 s3 where
    e: "peek s [60, 62] = (b, s1)" "gettoken s1 = (tok, q, eq, s2)" "gettoken s2 = (tok2, q2, eq2, s3)"
    by (metis prod.exhaust)
  note IH = 1 [OF e(1) [symmetric] _ e(2) [symmetric] refl refl e(3) [symmetric] refl refl]
  show ?case using e IH by (subst parseredirs.simps) (simp split: if_splits)
qed

lemma parseargs_fed: "parseargs c argc s \<noteq> Inl OutOfFuel"
proof (induction c argc s rule: parseargs.induct)
  case (1 c argc s)
  obtain b s1 tok q eq s2 where e: "peek s [124, 41, 38, 59] = (b, s1)" "gettoken s1 = (tok, q, eq, s2)"
    by (metis prod.exhaust)
  note IH = 1 [OF e(1) [symmetric] _ e(2) [symmetric] refl refl]
  show ?case using e IH parseredirs_fed [of "add_arg c (q, eq)" s2]
    by (subst parseargs.simps) (auto split: sum.splits if_splits)
qed

text \<open>\<open>fed k n r\<close>: with at least \<open>k\<close> units of fuel the result is not for want of fuel.\<close>

definition fed :: "nat \<Rightarrow> nat \<Rightarrow> sherr + 'a \<Rightarrow> bool" where
  "fed k n r \<longleftrightarrow> (k \<le> n \<longrightarrow> r \<noteq> Inl OutOfFuel)"

lemma parseexec_fed:
  assumes "\<And>s'. suffix s' s \<Longrightarrow> fed (4 * length s' + 1) n (parseblock n s')"
  shows "fed (4 * length s + 2) (Suc n) (parseexec (Suc n) s)"
proof -
  obtain b s1 where e: "peek s [40] = (b, s1)" by fastforce
  have s1: "suffix s1 s" by (rule peek_suffix [OF e])
  then have "length s1 \<le> length s" by (rule suffix_length_le)
  then show ?thesis
    using assms [OF s1] e parseredirs_fed [of "EXEC []" s1] parseargs_fed
    by (auto simp: fed_def split: sum.splits)
qed

lemma parseblock_fed:
  assumes "\<And>s'. suffix s' s \<Longrightarrow> fed (4 * length s' + 4) n (parseline n s')"
  shows "fed (4 * length s + 1) (Suc n) (parseblock (Suc n) s)"
proof -
  obtain b s1 tok q eq s2 where e: "peek s [40] = (b, s1)" "gettoken s1 = (tok, q, eq, s2)" by (metis prod.exhaust)
  have s2: "suffix s2 s" using peek_gettoken_suffix [OF e] by simp
  have "length s2 < length s" if b using peek_gettoken_less e that by simp
  then show ?thesis
    using assms [OF s2] e parseredirs_fed by (auto simp: fed_def split: sum.splits prod.splits)
qed

lemma parsepipe_fed:
  assumes "\<And>s'. suffix s' s \<Longrightarrow> fed (4 * length s' + 3) n (parsepipe n s')" "fed (4 * length s + 2) n (parseexec n s)"
    and "builds s s (parseexec n s)"
  shows "fed (4 * length s + 3) (Suc n) (parsepipe (Suc n) s)"
proof (cases "parseexec n s")
  case (Inl e)
  then show ?thesis using assms(2) by (auto simp: fed_def)
next
  case (Inr r)
  obtain c1 s1 b s2 tok q eq s3 where e: "r = (c1, s1)" "peek s1 [124] = (b, s2)" "gettoken s2 = (tok, q, eq, s3)"
    by (metis prod.exhaust)
  have s1: "suffix s1 s" using assms(3) Inr e(1) by (auto dest: buildsD)
  then have s3: "suffix s3 s" using peek_gettoken_suffix [OF e(2,3)] by (meson suffix_order.trans)
  have "length s3 < length s" if b
    using peek_gettoken_less [of s1 "[124]" s2] e that suffix_length_le [OF s1] by fastforce
  then show ?thesis
    using assms(1) [OF s3] Inr e by (auto simp: fed_def split: sum.splits)
qed

lemma parseline_fed:
  assumes "\<And>s'. suffix s' s \<Longrightarrow> fed (4 * length s' + 4) n (parseline n s')" "fed (4 * length s + 3) n (parsepipe n s)"
    and "builds s s (parsepipe n s)"
  shows "fed (4 * length s + 4) (Suc n) (parseline (Suc n) s)"
proof (cases "parsepipe n s")
  case (Inl e)
  then show ?thesis using assms(2) by (auto simp: fed_def)
next
  case (Inr r)
  obtain c0 s0 c1 s1 b s2 tok q eq s3 where e: "r = (c0, s0)" "parsebacks c0 s0 = (c1, s1)"
    "peek s1 [59] = (b, s2)" "gettoken s2 = (tok, q, eq, s3)"
    by (metis prod.exhaust)
  from buildsD [OF assms(3)] Inr e(1) have "suffix s0 s" "cmd_ok (span_ok s) c0" by auto
  with parsebacks_ok [OF e(2)] have s1: "suffix s1 s" by (meson suffix_order.trans)
  then have s3: "suffix s3 s" using peek_gettoken_suffix [OF e(3,4)] by (meson suffix_order.trans)
  have "length s3 < length s" if b
    using peek_gettoken_less [of s1 "[59]" s2] e that suffix_length_le [OF s1] by fastforce
  then show ?thesis
    using assms(1) [OF s3] Inr e by (auto simp: fed_def split: sum.splits)
qed

lemma parsers_fed:
  "0 \<notin> set s \<Longrightarrow>
    fed (4 * length s + 4) n (parseline n s) \<and> fed (4 * length s + 3) n (parsepipe n s) \<and>
    fed (4 * length s + 1) n (parseblock n s) \<and> fed (4 * length s + 2) n (parseexec n s)"
proof (induction n arbitrary: s)
  case 0
  then show ?case by (simp add: fed_def)
next
  case (Suc n)
  have "0 \<notin> set s'" if "suffix s' s" for s' using Suc.prems suffix_in [OF that] by blast
  then show ?case
    using Suc.IH parsers_build [OF Suc.prems, of s n] Suc.prems
    by (intro conjI parseline_fed parsepipe_fed parseblock_fed parseexec_fed) auto
qed

section \<open>Cutting the line\<close>

text \<open>Zeros are only written where the line has no word character.\<close>

definition cuts :: "u8 list \<Rightarrow> u8 list \<Rightarrow> u8 list \<Rightarrow> bool" where
  "cuts buf b b' \<longleftrightarrow> length b' = length b \<and>
     (\<forall>i<length buf. (word_char (buf ! i) \<longrightarrow> b' ! i = b ! i) \<and> (b ! i = 0 \<longrightarrow> b' ! i = 0))"

lemma cuts_refl: "cuts buf b b"
  by (simp add: cuts_def)

lemma cuts_trans: "cuts buf b b' \<Longrightarrow> cuts buf b' b'' \<Longrightarrow> cuts buf b b''"
  by (simp add: cuts_def)

lemma cuts_put_nul:
  assumes "span_ok buf (q, eq)" and "length b = length buf"
  shows "cuts buf b (put_nul b eq)"
proof -
  have "suffix eq buf" using assms(1) by (auto simp: span_ok_def intro: suffix_appendD)
  then obtain p where p: "buf = p @ eq" by (auto simp: suffix_def)
  have "ends_word eq" using assms(1) by (simp add: span_ok_def)
  then show ?thesis
    using assms(2) p by (cases eq) (auto simp: cuts_def put_nul_def ends_word_def nth_list_update)
qed

lemma cuts_fold:
  "\<forall>w\<in>set args. span_ok buf w \<Longrightarrow> length b = length buf \<Longrightarrow>
   cuts buf b (fold (\<lambda>(q, eq) b. put_nul b eq) args b)"
proof (induction args arbitrary: b)
  case (Cons w args)
  obtain q eq where w: "w = (q, eq)" by fastforce
  have c: "cuts buf b (put_nul b eq)" using Cons.prems w by (auto intro: cuts_put_nul)
  with Cons have "cuts buf (put_nul b eq) (fold (\<lambda>(q, eq) b. put_nul b eq) args (put_nul b eq))"
    by (simp add: cuts_def)
  with c show ?case by (auto simp: w intro: cuts_trans)
qed (simp add: cuts_refl)

lemma cuts_nulterminate:
  "cmd_ok (span_ok buf) c \<Longrightarrow> length b = length buf \<Longrightarrow> cuts buf b (nulterminate c b)"
proof (induction c arbitrary: b)
  case (REDIR c f mode fd)
  then have c: "cuts buf b (nulterminate c b)" by simp
  then have "cuts buf (nulterminate c b) (put_nul (nulterminate c b) (snd f))"
    using REDIR.prems by (intro cuts_put_nul [of buf "fst f"]) (auto simp: cuts_def)
  with c show ?case by (auto intro: cuts_trans)
next
  case (PIPE l r)
  then have c: "cuts buf b (nulterminate l b)" by simp
  with PIPE have "cuts buf (nulterminate l b) (nulterminate r (nulterminate l b))" by (simp add: cuts_def)
  with c show ?case by (auto intro: cuts_trans)
next
  case (LIST l r)
  then have c: "cuts buf b (nulterminate l b)" by simp
  with LIST have "cuts buf (nulterminate l b) (nulterminate r (nulterminate l b))" by (simp add: cuts_def)
  with c show ?case by (auto intro: cuts_trans)
qed (auto intro: cuts_fold)

text \<open>After every string of the command stands a zero.\<close>

definition cut_at :: "u8 list \<Rightarrow> u8 list \<Rightarrow> ptr \<Rightarrow> bool" where
  "cut_at buf b eq \<longleftrightarrow> length eq \<le> length buf \<and> (eq \<noteq> [] \<longrightarrow> b ! (length buf - length eq) = 0)"

lemma cut_at_cuts: "cut_at buf b eq \<Longrightarrow> cuts buf b b' \<Longrightarrow> cut_at buf b' eq"
  by (cases eq) (auto simp: cut_at_def cuts_def dest!: spec [of _ "length buf - length eq"])

lemma cut_at_put_nul:
  assumes "span_ok buf (q, eq)" and "length b = length buf"
  shows "cut_at buf (put_nul b eq) eq"
proof -
  have "suffix eq buf" using assms(1) by (auto simp: span_ok_def intro: suffix_appendD)
  then have "length eq \<le> length buf" by (rule suffix_length_le)
  then show ?thesis
    using assms(2) by (cases eq) (auto simp: cut_at_def put_nul_def)
qed

lemma cut_at_fold:
  "\<forall>w\<in>set args. span_ok buf w \<Longrightarrow> length b = length buf \<Longrightarrow> (q, eq) \<in> set args \<Longrightarrow>
   cut_at buf (fold (\<lambda>(q, eq) b. put_nul b eq) args b) eq"
proof (induction args arbitrary: b)
  case (Cons w args)
  obtain q' eq' where w: "w = (q', eq')" by fastforce
  have l: "length (put_nul b eq') = length buf" using Cons.prems by (simp add: put_nul_def)
  show ?case
  proof (cases "(q, eq) \<in> set args")
    case True
    then show ?thesis using Cons l w by simp
  next
    case False
    then have "cut_at buf (put_nul b eq') eq" using Cons.prems w by (auto intro: cut_at_put_nul)
    then show ?thesis
      using cuts_fold [of args buf "put_nul b eq'"] Cons.prems l w by (auto intro: cut_at_cuts)
  qed
qed simp

lemma cut_at_nulterminate:
  "cmd_ok (span_ok buf) c \<Longrightarrow> length b = length buf \<Longrightarrow> (q, eq) \<in> set_cmd c \<Longrightarrow> cut_at buf (nulterminate c b) eq"
proof (induction c arbitrary: b)
  case (EXEC args)
  then show ?case by (auto intro: cut_at_fold)
next
  case (REDIR c f mode fd)
  have c: "cuts buf b (nulterminate c b)" using REDIR.prems by (auto intro: cuts_nulterminate)
  then have l: "length (nulterminate c b) = length buf" using REDIR.prems by (simp add: cuts_def)
  show ?case
  proof (cases "(q, eq) = f")
    case True
    then have f: "f = (q, eq)" by simp
    have "cut_at buf (put_nul (nulterminate c b) eq) eq"
      using REDIR.prems by (intro cut_at_put_nul [of _ q] l) (simp add: f)
    then show ?thesis by (simp add: f)
  next
    case False
    then have "cut_at buf (nulterminate c b) eq" using REDIR by auto
    moreover have "cuts buf (nulterminate c b) (put_nul (nulterminate c b) (snd f))"
      using REDIR.prems l by (intro cuts_put_nul [of buf "fst f"]) auto
    ultimately show ?thesis by (auto intro: cut_at_cuts)
  qed
next
  case (PIPE l r)
  have c: "cuts buf b (nulterminate l b)" using PIPE.prems by (auto intro: cuts_nulterminate)
  then have "length (nulterminate l b) = length buf" using PIPE.prems by (simp add: cuts_def)
  then show ?case using PIPE by (auto intro: cut_at_cuts cuts_nulterminate)
next
  case (LIST l r)
  have c: "cuts buf b (nulterminate l b)" using LIST.prems by (auto intro: cuts_nulterminate)
  then have "length (nulterminate l b) = length buf" using LIST.prems by (simp add: cuts_def)
  then show ?case using LIST by (auto intro: cut_at_cuts cuts_nulterminate)
qed auto

text \<open>The text between two pointers.\<close>

definition span_text :: "span \<Rightarrow> u8 list" where
  "span_text = (\<lambda>(q, eq). take (length q - length eq) q)"

lemma string_at_cut:
  assumes "cmd_ok (span_ok buf) c" "(q, eq) \<in> set_cmd c" "span_ok buf (q, eq)"
  shows "string_at (nulterminate c buf) q = span_text (q, eq)"
proof -
  let ?b = "nulterminate c buf"
  from assms(3) obtain p w where w: "buf = p @ q" "q = w @ eq" "is_word w"
    by (auto simp: span_ok_def suffix_def)
  have cu: "cuts buf buf ?b" using assms(1) by (simp add: cuts_nulterminate)
  then have len: "length ?b = length buf" by (simp add: cuts_def)
  have ca: "cut_at buf ?b eq" using assms(1,2) by (auto intro: cut_at_nulterminate)
  have b: "drop (length p) ?b = w @ drop (length p + length w) ?b"
  proof (rule nth_equalityI)
    show "length (drop (length p) ?b) = length (w @ drop (length p + length w) ?b)"
      using len w by simp
    fix i
    assume "i < length (drop (length p) ?b)"
    then have i: "length p + i < length buf" using len by simp
    show "drop (length p) ?b ! i = (w @ drop (length p + length w) ?b) ! i"
    proof (cases "i < length w")
      case True
      then have e: "buf ! (length p + i) = w ! i" by (simp add: w nth_append)
      then have "word_char (buf ! (length p + i))" using w(3) True by (simp add: is_word_def)
      then have "?b ! (length p + i) = w ! i" using cu i e by (simp add: cuts_def)
      then show ?thesis using True i len by (simp add: nth_append)
    next
      case False
      then show ?thesis using i len by (simp add: nth_append)
    qed
  qed
  moreover have "takeWhile (\<lambda>c. c \<noteq> 0) (drop (length p + length w) ?b) = []"
  proof (cases "eq = []")
    case True
    then show ?thesis using len w by simp
  next
    case False
    then have "?b ! (length p + length w) = 0" using ca w by (simp add: cut_at_def)
    moreover have "length p + length w < length ?b" using False len w by simp
    ultimately show ?thesis by (simp add: Cons_nth_drop_Suc [symmetric])
  qed
  moreover have "takeWhile (\<lambda>c. c \<noteq> 0) (w @ x) = w @ takeWhile (\<lambda>c. c \<noteq> 0) x" for x
    using w(3) by (simp add: is_word_def)
  moreover have "length ?b - length q = length p" using len w by simp
  ultimately show ?thesis by (simp add: string_at_def span_text_def w(2))
qed

lemma cmd_ok_set: "cmd_ok P c \<Longrightarrow> w \<in> set_cmd c \<Longrightarrow> P w"
  by (induction c) auto

lemma cmd_ok_map: "cmd_ok P c \<Longrightarrow> (\<And>w. P w \<Longrightarrow> Q (f w)) \<Longrightarrow> cmd_ok Q (map_cmd f c)"
  by (induction c) auto

lemma span_text_word: "span_ok buf w \<Longrightarrow> is_word (span_text w)"
  by (auto simp: span_ok_def span_text_def)

lemma parsecmd_eq:
  assumes "0 \<notin> set s"
  shows "parsecmd s =
    (case parseline (4 * length s + 4) s of
       Inl e \<Rightarrow> Inl e
     | Inr (cmd, s1) \<Rightarrow> if skip_white s1 \<noteq> [] then Inl (Died ''syntax'') else Inr (map_cmd span_text cmd))"
proof -
  have "map_cmd (\<lambda>(q, eq). string_at (nulterminate c s) q) c = map_cmd span_text c"
    if "parseline (4 * length s + 4) s = Inr (c, s1)" for c s1
  proof (rule cmd.map_cong0)
    fix w
    assume w: "w \<in> set_cmd c"
    have ok: "cmd_ok (span_ok s) c" 
      using parsers_build [OF assms, of s "4 * length s + 4"] that by (auto dest: buildsD)
    then have "span_ok s w" using w by (rule cmd_ok_set)
    then show "(case w of (q, eq) \<Rightarrow> string_at (nulterminate c s) q) = span_text w"
      using string_at_cut [OF ok, of "fst w" "snd w"] w by (cases w) simp
  qed
  then show ?thesis
    by (auto simp: parsecmd_def peek_def Let_def split: sum.splits)
qed

section \<open>Properties\<close>

text \<open>
  C33: The shell's parser returns on every line: \<^verbatim>\<open>parsecmd()\<close> never recurses deeper than four
  calls per byte of the line.  It gives an error message or a command with fewer than
  \<^verbatim>\<open>MAXARGS\<close> arguments in every node, whose strings (read from the line after
  \<^verbatim>\<open>nulterminate()\<close> has cut it) are all words: not empty and without white space, symbols
  or zeros.
\<close>

theorem parsecmd_returns:
  assumes "0 \<notin> set s"
  shows "case parsecmd s of Inl e \<Rightarrow> e \<noteq> OutOfFuel | Inr c \<Rightarrow> cmd_ok is_word c"
proof -
  let ?r = "parseline (4 * length s + 4) s"
  have "?r \<noteq> Inl OutOfFuel" using parsers_fed [OF assms] by (auto simp: fed_def)
  moreover have "cmd_ok is_word (map_cmd span_text c)" if "?r = Inr (c, s1)" for c s1
    using parsers_build [OF assms, of s "4 * length s + 4"] that
    by (auto dest: buildsD intro: cmd_ok_map span_text_word)
  ultimately show ?thesis by (auto simp: parsecmd_eq [OF assms] split: sum.splits)
qed

theorem parsecmd_returns_witness:
  "case parsecmd (bytes_of ''(ls; wc) < f | cat > g &'') of Inl e \<Rightarrow> e \<noteq> OutOfFuel | Inr c \<Rightarrow> cmd_ok is_word c"
  by (rule parsecmd_returns) code_simp

end
