(* ===== verification/ShellPrint.thy ===== *)
theory ShellPrint
  imports Shell
begin

text \<open>
  Printing commands in the shell's language (\<^verbatim>\<open>user/sh.c\<close>) and the round trip through its
  parser.
\<close>

section \<open>Printing commands\<close>

text \<open>Commands in the shell's language, with parentheses where the grammar needs them.\<close>

definition redir_text :: "u8 list \<times> int \<times> nat \<Rightarrow> u8 list" where
  "redir_text = (\<lambda>(f, mode, fd). [if mode = MODE_IN then 60 else 62, 32] @ f @ [32])"

definition word_text :: "u8 list \<Rightarrow> u8 list" where
  "word_text w = w @ [32]"

definition paren :: "bool \<Rightarrow> u8 list \<Rightarrow> u8 list" where
  "paren b x = (if b then [40, 32] @ x @ [41, 32] else x)"

primrec print_cmd :: "u8 list cmd \<Rightarrow> nat \<Rightarrow> u8 list" where
  "print_cmd (EXEC args) lvl = concat (map word_text args)"
| "print_cmd (REDIR c f mode fd) lvl = print_cmd c 3 @ redir_text (f, mode, fd)"
| "print_cmd (PIPE l r) lvl = paren (2 < lvl) (print_cmd l 3 @ [124, 32] @ print_cmd r 2)"
| "print_cmd (LIST l r) lvl = paren (0 < lvl) (print_cmd l 1 @ [59, 32] @ print_cmd r 0)"
| "print_cmd (BACK c) lvl = paren (1 < lvl) (print_cmd c 1 @ [38, 32])"

subsection \<open>Reading one token back\<close>

lemma white_space [simp]: "is_white 32"
  by (simp add: is_white_def whitespace_def)

lemma skip_white_space [simp]: "skip_white (32 # s) = skip_white s"
  by (simp add: skip_white_def)

lemma symbol_nonwhite: "is_symbol c \<Longrightarrow> \<not> is_white c \<and> c \<noteq> 0"
  by (auto simp: is_symbol_def symbols_def is_white_def whitespace_def)

lemma skip_white_symbol: "is_symbol c \<Longrightarrow> skip_white (c # s) = c # s"
  by (simp add: skip_white_def symbol_nonwhite)

lemma skip_white_word: "is_word w \<Longrightarrow> skip_white (w @ s) = w @ s"
  by (cases w) (auto simp: is_word_def skip_white_def word_char_def)

lemma gettoken_skip [simp]: "gettoken (skip_white s) = gettoken s"
  by (simp add: gettoken_def)

lemma peek_skip [simp]: "peek (skip_white s) toks = peek s toks"
  by (simp add: peek_def)

lemma gettoken_word_text:
  assumes "is_word w"
  shows "gettoken (word_text w @ s) = (97, w @ 32 # s, 32 # s, skip_white s)"
proof -
  obtain c r where c: "w = c # r" "word_char c" "c \<noteq> 0" using assms by (cases w) (auto simp: is_word_def)
  have "dropWhile word_char (r @ 32 # s) = 32 # s"
    using assms c(1) by (subst dropWhile_append2) (auto simp: is_word_def word_char_def)
  moreover have "skip_white (word_text w @ s) = c # r @ 32 # s"
    using skip_white_word [OF assms, of "32 # s"] c(1) by (simp add: word_text_def)
  ultimately show ?thesis using c gettoken_word [of "word_text w @ s" c "r @ 32 # s"] by (simp add: word_char_def)
qed

lemma gettoken_symbol_text: "is_symbol c \<Longrightarrow> c \<noteq> 62 \<Longrightarrow> gettoken (c # 32 # s) = (c, c # 32 # s, 32 # s, skip_white s)"
  using gettoken_symbol [of "c # 32 # s" c "32 # s"] by (simp add: skip_white_symbol)

lemma gettoken_gt_text: "gettoken (62 # 32 # s) = (62, 62 # 32 # s, 32 # s, skip_white s)"
  using skip_white_symbol [of 62 "32 # s"] by (simp add: gettoken_def is_symbol_def symbols_def)

lemma peek_word: "is_word w \<Longrightarrow> set toks \<subseteq> set symbols \<Longrightarrow> peek (word_text w @ s) toks = (False, word_text w @ s)"
  using skip_white_word [of w "32 # s"]
  by (cases w) (auto simp: peek_def word_text_def is_word_def word_char_def is_symbol_def)

lemma peek_symbol: "is_symbol c \<Longrightarrow> peek (c # s) toks = (c \<in> set toks, c # s)"
  by (auto simp: peek_def skip_white_symbol symbol_nonwhite Let_def)

text \<open>What may come after a command: nothing or one of some symbols.\<close>

definition follow :: "u8 list \<Rightarrow> u8 list \<Rightarrow> bool" where
  "follow F s \<longleftrightarrow> s = [] \<or> hd s \<in> set F"

lemma peek_follow:
  "follow F s \<Longrightarrow> set F \<subseteq> set symbols \<Longrightarrow> peek s toks = (s \<noteq> [] \<and> hd s \<in> set toks, s)"
  using peek_symbol [of "hd s" "tl s" toks] by (cases s) (auto simp: follow_def peek_def is_symbol_def)

lemma skip_white_follow: "follow F s \<Longrightarrow> set F \<subseteq> set symbols \<Longrightarrow> skip_white s = s"
  using skip_white_symbol [of "hd s" "tl s"] by (cases s) (auto simp: follow_def is_symbol_def)

subsection \<open>Redirections and arguments\<close>

type_synonym redir = "u8 list \<times> int \<times> nat"

definition redir_ok :: "redir \<Rightarrow> bool" where
  "redir_ok = (\<lambda>(f, mode, fd). is_word f \<and> (mode = MODE_IN \<and> fd = 0 \<or> mode = MODE_OUT \<and> fd = 1))"

definition redirs_text :: "redir list \<Rightarrow> u8 list" where
  "redirs_text rs = concat (map redir_text rs)"

definition wrap :: "u8 list cmd \<Rightarrow> redir list \<Rightarrow> u8 list cmd" where
  "wrap c rs = foldl (\<lambda>c (f, mode, fd). REDIR c f mode fd) c rs"

definition words_text :: "u8 list list \<Rightarrow> u8 list" where
  "words_text ws = concat (map word_text ws)"

lemma redirs_text_simps [simp]:
  "redirs_text [] = []" "redirs_text (r # rs) = redir_text r @ redirs_text rs"
  by (simp_all add: redirs_text_def)

lemma wrap_simps [simp]: "wrap c [] = c" "wrap c ((f, mode, fd) # rs) = wrap (REDIR c f mode fd) rs"
  by (simp_all add: wrap_def)

lemma words_text_simps [simp]: "words_text [] = []" "words_text (w # ws) = word_text w @ words_text ws"
  by (simp_all add: words_text_def)

lemma span_text_simp [simp]: "span_text (w @ s, s) = w"
  by (simp add: span_text_def)

lemma parseredirs_skip: "parseredirs c (skip_white s) = parseredirs c s"
  by (subst (1 2) parseredirs.simps) (simp only: peek_skip)

lemma parseargs_skip: "parseargs c k (skip_white s) = parseargs c k s"
  by (subst (1 2) parseargs.simps) (simp only: peek_skip)

lemma parseredirs_stop: "\<not> fst (peek s [60, 62]) \<Longrightarrow> parseredirs c s = Inr (c, skip_white s)"
  by (subst parseredirs.simps) (auto simp: peek_def Let_def)

lemma redir_text_symbol: "is_symbol (if mode = MODE_IN then 60 else 62)"
  by (simp add: is_symbol_def symbols_def)

lemma parseredirs_one:
  assumes "redir_ok (f, mode, fd)"
  shows "parseredirs c (redir_text (f, mode, fd) @ s) = parseredirs (REDIR c (f @ 32 # s, 32 # s) mode fd) s"
proof -
  let ?o = "if mode = MODE_IN then 60 else 62 :: u8"
  let ?s = "?o # 32 # word_text f @ s"
  have e: "redir_text (f, mode, fd) @ s = ?s" by (simp add: redir_text_def word_text_def)
  have "peek ?s [60, 62] = (True, ?s)" using peek_symbol [OF redir_text_symbol [of mode]] by simp
  moreover have "gettoken ?s = (?o, ?s, 32 # word_text f @ s, skip_white (word_text f @ s))"
    using gettoken_gt_text gettoken_symbol_text [of 60] by (auto simp: is_symbol_def symbols_def)
  moreover have "gettoken (word_text f @ s) = (97, f @ 32 # s, 32 # s, skip_white s)"
    using assms by (intro gettoken_word_text) (simp add: redir_ok_def)
  moreover have "MODE_OUT \<noteq> MODE_IN" by (simp add: MODE_IN_def MODE_OUT_def)
  ultimately show ?thesis
    using assms unfolding e
    by (subst parseredirs.simps) (auto simp: redir_ok_def parseredirs_skip)
qed

lemma parseredirs_text:
  assumes "\<forall>r\<in>set rs. redir_ok r" and "\<not> fst (peek s [60, 62])"
  shows "\<exists>c'. parseredirs c (redirs_text rs @ s) = Inr (c', skip_white s) \<and>
    map_cmd span_text c' = wrap (map_cmd span_text c) rs"
  using assms(1)
proof (induction rs arbitrary: c)
  case Nil
  then show ?case using parseredirs_stop [OF assms(2)] by simp
next
  case (Cons r rs)
  obtain f mode fd where r: "r = (f, mode, fd)" by (cases r) auto
  let ?s = "redirs_text rs @ s"
  have "parseredirs c (redirs_text (r # rs) @ s) = parseredirs (REDIR c (f @ 32 # ?s, 32 # ?s) mode fd) ?s"
    using parseredirs_one [of f mode fd c ?s] Cons.prems r by simp
  then show ?case
    using Cons.IH [of "REDIR c (f @ 32 # ?s, 32 # ?s) mode fd"] Cons.prems by (simp add: r)
qed

text \<open>Adding arguments under redirections, in the printed command.\<close>

primrec add_args :: "'w cmd \<Rightarrow> 'w list \<Rightarrow> 'w cmd" where
  "add_args c [] = c"
| "add_args c (w # ws) = add_args (add_arg c w) ws"

lemma map_add_arg: "map_cmd f (add_arg c w) = add_arg (map_cmd f c) (f w)"
  by (induction c) auto

lemma add_args_EXEC: "add_args (EXEC args) ws = EXEC (args @ ws)"
  by (induction ws arbitrary: args) auto

definition no_redir :: "u8 list \<Rightarrow> bool" where
  "no_redir s \<longleftrightarrow> \<not> fst (peek s [60, 62])"

lemma no_redir_word: "is_word w \<Longrightarrow> no_redir (word_text w @ s)"
  by (simp add: no_redir_def peek_word symbols_def)

lemma no_redir_follow: "follow F s \<Longrightarrow> set F \<subseteq> {124, 41, 38, 59, 40} \<Longrightarrow> no_redir s"
proof -
  assume f: "follow F s" "set F \<subseteq> {124, 41, 38, 59, 40}"
  then have "set F \<subseteq> set symbols" by (auto simp: symbols_def)
  with f show ?thesis using peek_follow [of F s "[60, 62]"] by (auto simp: no_redir_def follow_def)
qed

lemma parseargs_stop:
  assumes "follow [124, 41, 38, 59] s"
  shows "parseargs c k s = Inr (c, s)"
proof (cases s)
  case Nil
  then show ?thesis by (subst parseargs.simps) (simp add: peek_def gettoken_def)
next
  case (Cons d r)
  have "peek s [124, 41, 38, 59] = (True, s)"
    using assms Cons peek_follow [OF assms, of "[124, 41, 38, 59]"] by (auto simp: follow_def symbols_def)
  then show ?thesis by (subst parseargs.simps) simp
qed

lemma parseargs_text:
  assumes "\<forall>w\<in>set ws. is_word w" "\<forall>r\<in>set rs. redir_ok r" "follow [124, 41, 38, 59] s"
    "k + length ws < MAXARGS" "ws \<noteq> [] \<or> rs = []"
  shows "\<exists>c'. parseargs c k (words_text ws @ redirs_text rs @ s) = Inr (c', s) \<and>
    map_cmd span_text c' = wrap (add_args (map_cmd span_text c) ws) rs"
  using assms
proof (induction ws arbitrary: c k)
  case Nil
  then show ?case by (simp add: parseargs_stop)
next
  case (Cons w ws)
  let ?s = "words_text ws @ redirs_text rs @ s"
  let ?c = "add_arg c (w @ 32 # ?s, 32 # ?s)"
  have step: "parseargs c k (word_text w @ ?s) =
      (case parseredirs ?c ?s of Inl e \<Rightarrow> Inl e | Inr (rt1, s3) \<Rightarrow> parseargs rt1 (k + 1) s3)"
    using Cons.prems gettoken_word_text [of w ?s] peek_word [of w "[124, 41, 38, 59]" ?s]
    by (subst parseargs.simps) (simp add: symbols_def parseredirs_skip)
  show ?case
  proof (cases ws)
    case Nil
    have "\<not> fst (peek s [60, 62])"
      using no_redir_follow [OF Cons.prems(3)] by (simp add: no_redir_def)
    from parseredirs_text [OF Cons.prems(2) this, of ?c] obtain c' where
      c': "parseredirs ?c ?s = Inr (c', s)" "map_cmd span_text c' = wrap (map_cmd span_text ?c) rs"
      using skip_white_follow [OF Cons.prems(3)] Nil by (auto simp: symbols_def)
    then show ?thesis using step Nil Cons.prems by (simp add: parseargs_stop map_add_arg)
  next
    case ws: (Cons v vs)
    then have "no_redir ?s" using Cons.prems(1) by (simp add: no_redir_word)
    then have "parseredirs ?c ?s = Inr (?c, skip_white ?s)" by (simp add: parseredirs_stop no_redir_def)
    then show ?thesis
      using step Cons.IH [of "k + 1" ?c] Cons.prems ws by (simp add: parseargs_skip map_add_arg)
  qed
qed

subsection \<open>The four levels of the grammar\<close>

text \<open>
  Parsing a printed command and what follows it: either the fuel is too small or the result is the
  command and what follows.
\<close>

definition reads :: "sherr + span cmd \<times> ptr \<Rightarrow> u8 list \<Rightarrow> u8 list cmd \<Rightarrow> bool" where
  "reads r s c \<longleftrightarrow> r = Inl OutOfFuel \<or> (\<exists>c'. r = Inr (c', s) \<and> map_cmd span_text c' = c)"

text \<open>The first half of \<^verbatim>\<open>parseline()\<close>: a pipeline and the ampersands after it.\<close>

definition parsejob :: "nat \<Rightarrow> ptr \<Rightarrow> sherr + span cmd \<times> ptr" where
  "parsejob n s = (case parsepipe n s of Inl e \<Rightarrow> Inl e | Inr (c, s1) \<Rightarrow> Inr (parsebacks c s1))"

definition reads_exec :: "u8 list cmd \<Rightarrow> bool" where
  "reads_exec c \<longleftrightarrow> (\<forall>n rs s. (\<forall>r\<in>set rs. redir_ok r) \<longrightarrow> follow [124, 41, 38, 59] s \<longrightarrow>
     reads (parseexec n (print_cmd c 3 @ redirs_text rs @ s)) s (wrap c rs))"

definition reads_pipe :: "u8 list cmd \<Rightarrow> bool" where
  "reads_pipe c \<longleftrightarrow> (\<forall>n s. follow [41, 38, 59] s \<longrightarrow> reads (parsepipe n (print_cmd c 2 @ s)) s c)"

definition amps :: "nat \<Rightarrow> u8 list" where
  "amps k = concat (replicate k [38, 32])"

definition reads_job :: "u8 list cmd \<Rightarrow> bool" where
  "reads_job c \<longleftrightarrow> (\<forall>n k s. follow [41, 59] s \<longrightarrow>
     reads (parsejob n (print_cmd c 1 @ amps k @ s)) s ((BACK ^^ k) c))"

definition reads_line :: "u8 list cmd \<Rightarrow> bool" where
  "reads_line c \<longleftrightarrow> (\<forall>n s. follow [41] s \<longrightarrow> reads (parseline n (print_cmd c 0 @ s)) s c)"

lemma parseline_job:
  "parseline (Suc n) ps =
     (case parsejob n ps of
        Inl e \<Rightarrow> Inl e
      | Inr (cmd1, s2) \<Rightarrow>
          case peek s2 [59] of (b, s3) \<Rightarrow>
          if \<not> b then Inr (cmd1, s3)
          else case gettoken s3 of (_, _, _, s4) \<Rightarrow>
            case parseline n s4 of Inl e \<Rightarrow> Inl e | Inr (right, s5) \<Rightarrow> Inr (LIST cmd1 right, s5))"
  by (auto simp: parsejob_def split: sum.splits prod.splits)

lemma parse_skip:
  "parseexec n (skip_white s) = parseexec n s" "parsepipe n (skip_white s) = parsepipe n s"
  "parseline n (skip_white s) = parseline n s"
proof (induction n arbitrary: s)
  case (Suc n)
  { case 1 show ?case by simp }
  { case 2 show ?case using Suc(1) by simp }
  { case 3 show ?case using Suc(2) by simp }
qed simp_all

lemma follow_mono: "follow F s \<Longrightarrow> set F \<subseteq> set G \<Longrightarrow> follow G s"
  by (auto simp: follow_def)

lemma peek_redirs:
  assumes "follow [124, 41, 38, 59] s"
  shows "\<not> fst (peek (redirs_text rs @ s) [40])"
proof (cases rs)
  case Nil
  then show ?thesis using peek_follow [OF assms, of "[40]"] assms by (auto simp: symbols_def follow_def)
next
  case (Cons r rs')
  then show ?thesis
    using peek_symbol [OF redir_text_symbol] by (cases r) (simp add: redir_text_def)
qed

lemma exec_EXEC:
  assumes "cmd_ok is_word (EXEC ws)"
  shows "reads_exec (EXEC ws)"
  unfolding reads_exec_def
proof (intro allI impI)
  fix n rs s
  assume rs: "\<forall>r\<in>set rs. redir_ok r" and s: "follow [124, 41, 38, 59] s"
  let ?t = "words_text ws @ redirs_text rs @ s"
  have ws: "\<forall>w\<in>set ws. is_word w" "0 + length ws < MAXARGS" using assms by auto
  have t: "print_cmd (EXEC ws) 3 @ redirs_text rs @ s = ?t" by (simp add: words_text_def)
  have nr: "\<not> fst (peek s [60, 62])" using no_redir_follow [OF s] by (simp add: no_redir_def)
  have sw: "skip_white s = s" using skip_white_follow [OF s] by (simp add: symbols_def)
  show "reads (parseexec n (print_cmd (EXEC ws) 3 @ redirs_text rs @ s)) s (wrap (EXEC ws) rs)"
  proof (cases n)
    case 0
    then show ?thesis by (simp add: reads_def)
  next
    case (Suc m)
    show ?thesis
    proof (cases ws)
      case Nil
      obtain s1 where p: "peek (redirs_text rs @ s) [40] = (False, s1)"
        using peek_redirs [OF s, of rs] by (metis fst_conv prod.exhaust)
      from parseredirs_text [OF rs nr, of "EXEC []"] obtain c' where
        c': "parseredirs (EXEC []) (redirs_text rs @ s) = Inr (c', s)" "map_cmd span_text c' = wrap (EXEC []) rs"
        by (auto simp: sw)
      have "s1 = skip_white (redirs_text rs @ s)" using peek_ps [OF p] .
      then have "parseexec n ?t = Inr (c', s)"
        using Suc Nil p c'(1) parseargs_stop [OF s] by (simp add: parseredirs_skip)
      then show ?thesis unfolding t using c'(2) Nil by (simp add: reads_def)
    next
      case (Cons w ws')
      have w: "is_word w" using ws Cons by simp
      let ?u = "words_text ws' @ redirs_text rs @ s"
      have "peek ?t [40] = (False, ?t)" using peek_word [OF w, of "[40]" ?u] Cons by (simp add: symbols_def)
      moreover have "parseredirs (EXEC []) ?t = Inr (EXEC [], skip_white ?t)"
        using no_redir_word [OF w, of ?u] Cons by (intro parseredirs_stop) (simp add: no_redir_def)
      ultimately have e: "parseexec n ?t = parseargs (EXEC []) 0 ?t"
        using Suc by (simp add: parseargs_skip)
      from parseargs_text [OF ws(1) rs s ws(2), of "EXEC []"] Cons show ?thesis
        unfolding t e by (auto simp: reads_def add_args_EXEC)
    qed
  qed
qed

lemma exec_REDIR:
  assumes "reads_exec c" and "redir_ok (f, mode, fd)"
  shows "reads_exec (REDIR c f mode fd)"
  unfolding reads_exec_def
proof (intro allI impI)
  fix n rs s
  assume "\<forall>r\<in>set rs. redir_ok r" and "follow [124, 41, 38, 59] s"
  then show "reads (parseexec n (print_cmd (REDIR c f mode fd) 3 @ redirs_text rs @ s)) s (wrap (REDIR c f mode fd) rs)"
    using assms(1) [unfolded reads_exec_def, rule_format, of "(f, mode, fd) # rs" s n] assms(2) by auto
qed

text \<open>A command in parentheses.\<close>

lemma exec_block:
  assumes "reads_line c" and "print_cmd c 3 = [40, 32] @ print_cmd c 0 @ [41, 32]"
  shows "reads_exec c"
  unfolding reads_exec_def
proof (intro allI impI)
  fix n rs s
  assume rs: "\<forall>r\<in>set rs. redir_ok r" and s: "follow [124, 41, 38, 59] s"
  let ?u = "41 # 32 # redirs_text rs @ s"
  let ?t = "40 # 32 # print_cmd c 0 @ ?u"
  have t: "print_cmd c 3 @ redirs_text rs @ s = ?t" by (simp add: assms(2))
  have sym: "is_symbol 40" "is_symbol 41" by (simp_all add: is_symbol_def symbols_def)
  have l: "reads (parseline m (print_cmd c 0 @ ?u)) ?u c" for m
    using assms(1) by (simp add: reads_line_def follow_def)
  have nr: "\<not> fst (peek s [60, 62])" using no_redir_follow [OF s] by (simp add: no_redir_def)
  have sw: "skip_white s = s" using skip_white_follow [OF s] by (simp add: symbols_def)
  have "reads (parseblock m ?t) s (wrap c rs)" for m
  proof (cases m)
    case (Suc k)
    have b: "parseblock m ?t =
        (case parseline k (print_cmd c 0 @ ?u) of
           Inl e \<Rightarrow> Inl e
         | Inr (cmd, s3) \<Rightarrow>
            case peek s3 [41] of (b1, s4) \<Rightarrow>
            if \<not> b1 then Inl (Died ''syntax - missing )'')
            else case gettoken s4 of (_, _, _, s5) \<Rightarrow> parseredirs cmd s5)"
      using gettoken_symbol_text [OF sym(1), of "print_cmd c 0 @ ?u"]
      by (simp add: Suc peek_symbol [OF sym(1)] parse_skip)
    show ?thesis
    proof (cases "parseline k (print_cmd c 0 @ ?u) = Inl OutOfFuel")
      case False
      with l [of k] obtain c' where c': "parseline k (print_cmd c 0 @ ?u) = Inr (c', ?u)" "map_cmd span_text c' = c"
        by (auto simp: reads_def)
      from parseredirs_text [OF rs nr, of c'] show ?thesis
        using gettoken_symbol_text [OF sym(2), of "redirs_text rs @ s"]
        by (auto simp: b c' peek_symbol [OF sym(2)] parseredirs_skip reads_def sw)
    qed (simp add: b reads_def)
  qed (simp add: reads_def)
  then show "reads (parseexec n (print_cmd c 3 @ redirs_text rs @ s)) s (wrap c rs)"
    unfolding t by (cases n) (simp_all add: reads_def peek_symbol [OF sym(1)])
qed

lemma pipe_of_exec:
  assumes "reads_exec c" and "print_cmd c 2 = print_cmd c 3"
  shows "reads_pipe c"
  unfolding reads_pipe_def
proof (intro allI impI)
  fix n s
  assume s: "follow [41, 38, 59] s"
  then have "follow [124, 41, 38, 59] s" by (rule follow_mono) auto
  then have e: "reads (parseexec m (print_cmd c 2 @ s)) s c" for m
    using assms(1) [unfolded reads_exec_def, rule_format, of "[]" s m] by (simp add: assms(2))
  have p: "peek s [124] = (False, s)"
    using peek_follow [OF s, of "[124]"] s by (auto simp: symbols_def follow_def)
  show "reads (parsepipe n (print_cmd c 2 @ s)) s c"
  proof (cases n)
    case (Suc m)
    then show ?thesis using e [of m] p by (auto simp: reads_def)
  qed (simp add: reads_def)
qed

lemma pipe_PIPE:
  assumes "reads_exec l" and "reads_pipe r"
  shows "reads_pipe (PIPE l r)"
  unfolding reads_pipe_def
proof (intro allI impI)
  fix n s
  assume s: "follow [41, 38, 59] s"
  let ?u = "124 # 32 # print_cmd r 2 @ s"
  have t: "print_cmd (PIPE l r) 2 @ s = print_cmd l 3 @ ?u" by (simp add: paren_def)
  have sym: "is_symbol 124" by (simp add: is_symbol_def symbols_def)
  have e: "reads (parseexec m (print_cmd l 3 @ ?u)) ?u l" for m
    using assms(1) [unfolded reads_exec_def, rule_format, of "[]" ?u m] by (simp add: follow_def)
  have r: "reads (parsepipe m (print_cmd r 2 @ s)) s r" for m
    using assms(2) s by (simp add: reads_pipe_def)
  show "reads (parsepipe n (print_cmd (PIPE l r) 2 @ s)) s (PIPE l r)"
  proof (cases n)
    case (Suc m)
    then show ?thesis
      using e [of m] r [of m] gettoken_symbol_text [OF sym, of "print_cmd r 2 @ s"] unfolding t
      by (auto simp: reads_def peek_symbol [OF sym] parse_skip)
  qed (simp add: reads_def)
qed

lemma parsebacks_amps:
  assumes "follow [41, 59] s"
  shows "parsebacks c (amps k @ s) = ((BACK ^^ k) c, s)"
proof (induction k arbitrary: c)
  case 0
  have "peek s [38] = (False, s)"
    using peek_follow [OF assms, of "[38]"] assms by (auto simp: symbols_def follow_def)
  then show ?case by (subst parsebacks.simps) (simp add: amps_def)
next
  case (Suc k)
  have sym: "is_symbol 38" by (simp add: is_symbol_def symbols_def)
  have "parsebacks c (skip_white s) = parsebacks c s" for c s
    by (subst (1 2) parsebacks.simps) simp
  then have "parsebacks c (38 # 32 # amps k @ s) = parsebacks (BACK c) (amps k @ s)"
    using gettoken_symbol_text [OF sym, of "amps k @ s"]
    by (subst parsebacks.simps) (simp add: peek_symbol [OF sym])
  then show ?case using Suc by (simp add: amps_def funpow_swap1)
qed

lemma job_of_pipe:
  assumes "reads_pipe c" and "print_cmd c 1 = print_cmd c 2"
  shows "reads_job c"
  unfolding reads_job_def
proof (intro allI impI)
  fix n k s
  assume s: "follow [41, 59] s"
  have "follow [41, 38, 59] (amps k @ s)"
    using s by (cases k) (auto simp: amps_def follow_def)
  then have "reads (parsepipe n (print_cmd c 1 @ amps k @ s)) (amps k @ s) c"
    using assms by (simp add: reads_pipe_def)
  moreover have "map_cmd f ((BACK ^^ k) c') = (BACK ^^ k) (map_cmd f c')" for f :: "span \<Rightarrow> u8 list" and c'
    by (induction k) auto
  ultimately show "reads (parsejob n (print_cmd c 1 @ amps k @ s)) s ((BACK ^^ k) c)"
    using parsebacks_amps [OF s] by (auto simp: parsejob_def reads_def)
qed

lemma job_BACK:
  assumes "reads_job c"
  shows "reads_job (BACK c)"
  unfolding reads_job_def
proof (intro allI impI)
  fix n k s
  assume "follow [41, 59] s"
  then show "reads (parsejob n (print_cmd (BACK c) 1 @ amps k @ s)) s ((BACK ^^ k) (BACK c))"
    using assms [unfolded reads_job_def, rule_format, of s n "Suc k"]
    by (simp add: paren_def amps_def funpow_swap1)
qed

lemma line_of_job:
  assumes "reads_job c" and "print_cmd c 0 = print_cmd c 1"
  shows "reads_line c"
  unfolding reads_line_def
proof (intro allI impI)
  fix n s
  assume s: "follow [41] s"
  then have "follow [41, 59] s" by (rule follow_mono) auto
  then have j: "reads (parsejob m (print_cmd c 0 @ s)) s c" for m
    using assms(1) [unfolded reads_job_def, rule_format, of s m 0] by (simp add: assms(2) amps_def)
  have p: "peek s [59] = (False, s)"
    using peek_follow [OF s, of "[59]"] s by (auto simp: symbols_def follow_def)
  show "reads (parseline n (print_cmd c 0 @ s)) s c"
  proof (cases n)
    case (Suc m)
    then show ?thesis using j [of m] p by (auto simp: parseline_job reads_def simp del: parseline.simps)
  qed (simp add: reads_def)
qed

lemma line_LIST:
  assumes "reads_job l" and "reads_line r"
  shows "reads_line (LIST l r)"
  unfolding reads_line_def
proof (intro allI impI)
  fix n s
  assume s: "follow [41] s"
  let ?u = "59 # 32 # print_cmd r 0 @ s"
  have t: "print_cmd (LIST l r) 0 @ s = print_cmd l 1 @ ?u" by (simp add: paren_def)
  have sym: "is_symbol 59" by (simp add: is_symbol_def symbols_def)
  have j: "reads (parsejob m (print_cmd l 1 @ ?u)) ?u l" for m
    using assms(1) [unfolded reads_job_def, rule_format, of ?u m 0] by (simp add: follow_def amps_def)
  have r: "reads (parseline m (print_cmd r 0 @ s)) s r" for m
    using assms(2) s by (simp add: reads_line_def)
  show "reads (parseline n (print_cmd (LIST l r) 0 @ s)) s (LIST l r)"
  proof (cases n)
    case (Suc m)
    then show ?thesis
      using j [of m] r [of m] gettoken_symbol_text [OF sym, of "print_cmd r 0 @ s"] unfolding t
      by (auto simp: reads_def parseline_job peek_symbol [OF sym] parse_skip simp del: parseline.simps)
  qed (simp add: reads_def)
qed

lemma levels_of_exec:
  assumes "reads_exec c" and "\<And>lvl. print_cmd c lvl = print_cmd c 3"
  shows "reads_pipe c" "reads_job c" "reads_line c"
proof -
  show p: "reads_pipe c" by (rule pipe_of_exec [OF assms(1) assms(2)])
  show j: "reads_job c" by (rule job_of_pipe [OF p]) (metis assms(2))
  show "reads_line c" by (rule line_of_job [OF j]) (metis assms(2))
qed

lemma reads_all:
  "cmd_ok is_word c \<Longrightarrow> reads_exec c \<and> reads_pipe c \<and> reads_job c \<and> reads_line c"
proof (induction c)
  case (EXEC ws)
  then have "reads_exec (EXEC ws)" by (rule exec_EXEC)
  then show ?case by (auto intro: levels_of_exec)
next
  case (REDIR c f mode fd)
  then have "reads_exec (REDIR c f mode fd)" by (intro exec_REDIR) (auto simp: redir_ok_def)
  then show ?case by (auto intro: levels_of_exec)
next
  case (PIPE l r)
  then have p: "reads_pipe (PIPE l r)" by (intro pipe_PIPE) auto
  then have j: "reads_job (PIPE l r)" by (rule job_of_pipe) (simp add: paren_def)
  then have l: "reads_line (PIPE l r)" by (rule line_of_job) (simp add: paren_def)
  then have "reads_exec (PIPE l r)" by (rule exec_block) (simp add: paren_def)
  with p j l show ?case by simp
next
  case (LIST l r)
  then have l: "reads_line (LIST l r)" by (intro line_LIST) auto
  then have e: "reads_exec (LIST l r)" by (rule exec_block) (simp add: paren_def)
  then have p: "reads_pipe (LIST l r)" by (rule pipe_of_exec) (simp add: paren_def)
  then have "reads_job (LIST l r)" by (rule job_of_pipe) (simp add: paren_def)
  with p e l show ?case by simp
next
  case (BACK c)
  then have j: "reads_job (BACK c)" by (intro job_BACK) auto
  then have l: "reads_line (BACK c)" by (rule line_of_job) (simp add: paren_def)
  then have e: "reads_exec (BACK c)" by (rule exec_block) (simp add: paren_def)
  then have "reads_pipe (BACK c)" by (rule pipe_of_exec) (simp add: paren_def)
  with e j l show ?case by simp
qed

lemma print_no_nul: "cmd_ok is_word c \<Longrightarrow> 0 \<notin> set (print_cmd c lvl)"
  by (induction c arbitrary: lvl) (auto simp: word_text_def redir_text_def paren_def is_word_def)

text \<open>
  C32: Parsing is the inverse of printing: for every command that fits the shell's nodes (words as
  strings, fewer than \<^verbatim>\<open>MAXARGS\<close> arguments, the two kinds of redirection), however its
  pipelines, lists, background jobs and redirections are nested, \<^verbatim>\<open>parsecmd()\<close> applied to its
  text gives back exactly the command.
\<close>

theorem parsecmd_print:
  assumes "cmd_ok is_word c"
  shows "parsecmd (print_cmd c 0) = Inr c"
proof -
  let ?s = "print_cmd c 0"
  have nz: "0 \<notin> set ?s" by (rule print_no_nul [OF assms])
  have "reads (parseline (4 * length ?s + 4) (?s @ [])) [] c"
    using reads_all [OF assms] by (simp add: reads_line_def follow_def del: append_Nil2)
  moreover have "parseline (4 * length ?s + 4) ?s \<noteq> Inl OutOfFuel"
    using parsers_fed [OF nz] by (auto simp: fed_def)
  ultimately show ?thesis
    by (auto simp: parsecmd_eq [OF nz] reads_def)
qed

text \<open>\<^verbatim>\<open>(ls -l; wc < in) | sort > out &\<close>\<close>

definition sample_cmd :: "u8 list cmd" where
  "sample_cmd =
     BACK (PIPE (LIST (EXEC [bytes_of ''ls'', bytes_of ''-l'']) (REDIR (EXEC [bytes_of ''wc'']) (bytes_of ''in'') MODE_IN 0))
       (REDIR (EXEC [bytes_of ''sort'']) (bytes_of ''out'') MODE_OUT 1))"

theorem parsecmd_print_witness: "parsecmd (print_cmd sample_cmd 0) = Inr sample_cmd"
  by (rule parsecmd_print) code_simp

end
