(* ===== verification/ShellRun.thy ===== *)
theory ShellRun
  imports Shell
begin

text \<open>
  Running commands (\<^verbatim>\<open>runcmd()\<close>, \<^verbatim>\<open>fork1()\<close>, \<^verbatim>\<open>getcmd()\<close> and
  \<^verbatim>\<open>main()\<close> of \<^verbatim>\<open>user/sh.c\<close>).  What a shell process does is the tree of its system
  calls, with a branch for every result it distinguishes and one for the child of every
  \<^verbatim>\<open>fork()\<close>.
\<close>

section \<open>The system calls of the shell\<close>

datatype script =
    SExit
  | SWrite nat "u8 list" script
  | SExec "u8 list" "u8 list list" script
  | SClose nat script
  | SDup nat script
  | SOpen "u8 list" int "nat \<Rightarrow> script" script
  | SPipe "nat \<times> nat \<Rightarrow> script" script
  | SFork script script script
  | SWait script
  | SChdir "u8 list" script script

text \<open>
  \<^verbatim>\<open>SExec\<close> goes on when \<^verbatim>\<open>exec()\<close> returns; \<^verbatim>\<open>SOpen\<close>, \<^verbatim>\<open>SPipe\<close>
  and \<^verbatim>\<open>SChdir\<close> have a branch for success and one for failure; \<^verbatim>\<open>SFork\<close> has one for
  failure, one for the child and one for the parent.
\<close>

definition sh_panic :: "string \<Rightarrow> script" where
  "sh_panic s = SWrite 2 (u_vprintf False (bytes_of ''%s\<newline>'') [VStr (Some (bytes_of s))]) SExit"

definition fork1 :: "script \<Rightarrow> script \<Rightarrow> script" where
  "fork1 child parent = SFork (sh_panic ''fork'') child parent"

primrec runcmd :: "u8 list cmd \<Rightarrow> script" where
  "runcmd (EXEC argv) =
     (case argv of
        [] \<Rightarrow> SExit
      | a # _ \<Rightarrow> SExec a argv (SWrite 2 (u_vprintf False (bytes_of ''exec %s failed\<newline>'') [VStr (Some a)]) SExit))"
| "runcmd (REDIR c f mode fd) =
     SClose fd (
     SOpen f mode (\<lambda>_. runcmd c)
       (SWrite 2 (u_vprintf False (bytes_of ''open %s failed\<newline>'') [VStr (Some f)]) SExit))"
| "runcmd (LIST l r) = fork1 (runcmd l) (SWait (runcmd r))"
| "runcmd (PIPE l r) =
     SPipe (\<lambda>(p0, p1).
       fork1 (SClose 1 (SDup p1 (SClose p0 (SClose p1 (runcmd l))))) (
       fork1 (SClose 0 (SDup p0 (SClose p0 (SClose p1 (runcmd r))))) (
       SClose p0 (SClose p1 (SWait (SWait SExit))))))
     (sh_panic ''pipe'')"
| "runcmd (BACK c) = fork1 (runcmd c) SExit"

text \<open>The child of the main loop: a syntax error ends it with a message.\<close>

definition run_line :: "u8 list \<Rightarrow> script" where
  "run_line buf = (case parsecmd buf of Inl (Died m) \<Rightarrow> sh_panic m | Inl OutOfFuel \<Rightarrow> SExit | Inr c \<Rightarrow> runcmd c)"

definition SH_CONSOLE :: "u8 list" where "SH_CONSOLE = bytes_of ''console''"

text \<open>
  Opening the console until the descriptor is at least 3; a call returns the lowest descriptor that is
  free, so the fourth one at the latest ends the loop.
\<close>

primrec open3 :: "nat \<Rightarrow> script \<Rightarrow> script" where
  "open3 0 k = k"
| "open3 (Suc n) k = SOpen SH_CONSOLE 2 (\<lambda>fd. if fd \<ge> 3 then SClose fd k else open3 n k) k"

text \<open>
  \<^verbatim>\<open>getcmd()\<close> and the main loop, on the strings that \<^verbatim>\<open>gets()\<close> stores in
  \<^verbatim>\<open>buf\<close>, one per turn; no string, or an empty one, is the end of the input.
\<close>

definition getcmd :: "u8 list \<Rightarrow> script \<Rightarrow> script \<Rightarrow> script" where
  "getcmd buf eof cmd = SWrite 2 (bytes_of ''$ '') (if buf = [] then eof else cmd)"

primrec sh_loop :: "u8 list list \<Rightarrow> script" where
  "sh_loop [] = getcmd [] SExit SExit"
| "sh_loop (buf # ls) =
     getcmd buf SExit (
     if take 3 buf = bytes_of ''cd '' then
       (let dir = drop 3 (butlast buf) in
        SChdir dir (sh_loop ls)
          (SWrite 2 (u_vprintf False (bytes_of ''cannot cd %s\<newline>'') [VStr (Some dir)]) (sh_loop ls)))
     else fork1 (run_line buf) (SWait (sh_loop ls)))"

definition sh_main :: "u8 list list \<Rightarrow> script" where
  "sh_main ls = open3 4 (sh_loop ls)"

section \<open>What the programs are connected to\<close>

text \<open>What a descriptor refers to: something inherited, a file, or an end of the pipe created at some point of the tree of processes.\<close>

datatype obj = Inherited nat | AtFile "u8 list" int | PipeR "nat list" | PipeW "nat list"

type_synonym fdtable = "obj option list"

text \<open>The descriptor a call that opens something returns.\<close>

primrec lowest :: "fdtable \<Rightarrow> nat option" where
  "lowest [] = None"
| "lowest (x # t) = (if x = None then Some 0 else map_option Suc (lowest t))"

text \<open>A program that is started with its descriptors, or a wait with those of the waiting process.\<close>

datatype event = Run "u8 list list" fdtable | Await fdtable

text \<open>
  The events of a process and of its descendants when there are enough processes and pipes:
  \<open>opens\<close> says which files can be opened, a child is named by its parent's name.
\<close>

primrec events :: "(u8 list \<Rightarrow> int \<Rightarrow> bool) \<Rightarrow> script \<Rightarrow> fdtable \<Rightarrow> nat list \<Rightarrow> event list" where
  "events opens SExit t p = []"
| "events opens (SWrite fd cs k) t p = events opens k t p"
| "events opens (SExec path argv k) t p = [Run argv t]"
| "events opens (SClose fd k) t p = events opens k (t[fd := None]) p"
| "events opens (SDup fd k) t p =
     (case lowest t of Some n \<Rightarrow> events opens k (t[n := t ! fd]) p | None \<Rightarrow> events opens k t p)"
| "events opens (SOpen f mode k bad) t p =
     (case lowest t of
        Some n \<Rightarrow> if opens f mode then events opens (k n) (t[n := Some (AtFile f mode)]) p else events opens bad t p
      | None \<Rightarrow> events opens bad t p)"
| "events opens (SPipe k bad) t p =
     (case lowest t of
        Some p0 \<Rightarrow>
          (case lowest (t[p0 := Some (PipeR p)]) of
             Some p1 \<Rightarrow> events opens (k (p0, p1)) (t[p0 := Some (PipeR p), p1 := Some (PipeW p)]) p
           | None \<Rightarrow> events opens bad t p)
      | None \<Rightarrow> events opens bad t p)"
| "events opens (SFork bad child parent) t p = events opens child t (0 # p) @ events opens parent t (1 # p)"
| "events opens (SWait k) t p = Await t # events opens k t p"
| "events opens (SChdir d k bad) t p = events opens k t p"

text \<open>Three of the 16 descriptors of a process open and no other.\<close>

definition std :: "obj \<Rightarrow> obj \<Rightarrow> obj \<Rightarrow> fdtable" where
  "std i o' e = [Some i, Some o', Some e] @ replicate 13 None"

text \<open>The meaning of a command.\<close>

primrec meaning :: "(u8 list \<Rightarrow> int \<Rightarrow> bool) \<Rightarrow> u8 list cmd \<Rightarrow> obj \<Rightarrow> obj \<Rightarrow> obj \<Rightarrow> nat list \<Rightarrow> event list" where
  "meaning opens (EXEC argv) i o' e p = (if argv = [] then [] else [Run argv (std i o' e)])"
| "meaning opens (REDIR c f mode fd) i o' e p =
     (if \<not> opens f mode then []
      else if fd = 0 then meaning opens c (AtFile f mode) o' e p
      else meaning opens c i (AtFile f mode) e p)"
| "meaning opens (LIST l r) i o' e p =
     meaning opens l i o' e (0 # p) @ [Await (std i o' e)] @ meaning opens r i o' e (1 # p)"
| "meaning opens (PIPE l r) i o' e p =
     meaning opens l i (PipeW p) e (0 # p) @ meaning opens r (PipeR p) o' e (0 # 1 # p) @
     [Await (std i o' e), Await (std i o' e)]"
| "meaning opens (BACK c) i o' e p = meaning opens c i o' e (0 # p)"

lemma std_unfold: "std i o' e = [Some i, Some o', Some e, None, None, None, None, None, None, None, None, None, None, None, None, None]"
  by (simp add: std_def eval_nat_numeral)

text \<open>
  C34: \<^verbatim>\<open>runcmd()\<close> connects the programs of a command as the command says.  Started with the
  descriptors 0, 1 and 2, every program is run with exactly these three open: the left side of a pipe
  writes to the pipe, the right side reads from it, a redirected program has the file in place of its
  input or output, and the rest is inherited.  No program and no waiting shell keeps an end of a pipe
  or any other descriptor open, so that a reader sees the end of its input.
\<close>

theorem runcmd_connects:
  assumes "cmd_ok P c"
  shows "events opens (runcmd c) (std i o' e) p = meaning opens c i o' e p"
  using assms
proof (induction c arbitrary: i o' e p)
  case (EXEC argv)
  then show ?case by (simp split: list.splits)
qed (auto simp: fork1_def sh_panic_def std_unfold)

theorem runcmd_connects_witness:
  "events (\<lambda>_ _. True) (runcmd (PIPE (REDIR (EXEC [[97]]) [102] MODE_IN 0) (EXEC [[98]])))
     (std (Inherited 0) (Inherited 1) (Inherited 2)) [] =
   [Run [[97]] (std (AtFile [102] MODE_IN) (PipeW []) (Inherited 2)),
    Run [[98]] (std (PipeR []) (Inherited 1) (Inherited 2)),
    Await (std (Inherited 0) (Inherited 1) (Inherited 2)),
    Await (std (Inherited 0) (Inherited 1) (Inherited 2))]"
  using runcmd_connects [of "\<lambda>_. True" "PIPE (REDIR (EXEC [[97]]) [102] MODE_IN 0) (EXEC [[98]])"
      "\<lambda>_ _. True" "Inherited 0" "Inherited 1" "Inherited 2" "[]"]
  by (simp add: MAXARGS_def)

text \<open>The shell started without descriptors has the three it needs.\<close>

lemma open3_console:
  assumes "opens SH_CONSOLE 2"
  shows "events opens (open3 4 k) (replicate 16 None) p =
    events opens k (std (AtFile SH_CONSOLE 2) (AtFile SH_CONSOLE 2) (AtFile SH_CONSOLE 2)) p"
  using assms by (simp add: std_def eval_nat_numeral)

text \<open>\<^verbatim>\<open>>>\<close> is parsed as \<^verbatim>\<open>>\<close>: the file is opened in the same way.\<close>

lemma append_is_overwrite:
  "parsecmd (bytes_of ''a >> f'') = parsecmd (bytes_of ''a > f'')"
  by code_simp

end
