(* ===== verification/PageTable.thy ===== *)
theory PageTable
  imports Vm
begin

text \<open>
  The Sv39 tree of \<^verbatim>\<open>kernel/vm.c\<close> as a map from virtual pages to page-table entries.  A map
  \<open>N\<close> from page-table pages to their levels says which pages of physical memory make up the
  tree; \<open>pte_at\<close> reads the entry of a virtual address.  The lemmas say how stores to entries and
  the allocation of page-table pages change that map.
\<close>

section \<open>Entries in memory\<close>

definition aligned8 :: "u64 \<Rightarrow> bool" where
  "aligned8 p \<longleftrightarrow> unat p mod 8 = 0"

lemma unat_aligned8_add:
  assumes "aligned8 p" and "i < 8"
  shows "unat (p + of_nat i) = unat p + i"
proof -
  have "unat p + i < 2 ^ 64"
  proof -
    obtain k where k: "unat p = 8 * k" using assms(1) by (auto simp: aligned8_def)
    with unat_u64_bound [of p] have "k < 2 ^ 61" by simp
    with k assms(2) show ?thesis by simp
  qed
  then show ?thesis using assms(2) by (simp add: unat_word_ariths unat_of_nat)
qed

lemma load64_store64_other:
  assumes "aligned8 p" and "aligned8 q" and "p \<noteq> q"
  shows "load64 (store64 p v m) q = load64 m q"
proof (rule load64_cong)
  fix i :: nat
  assume i: "i < 8"
  have "\<not> in_region (q + of_nat i) p 8"
  proof
    assume "in_region (q + of_nat i) p 8"
    then have j: "unat (q + of_nat i - p) < 8" by (simp add: in_region_def)
    define j where "j = unat (q + of_nat i - p)"
    have "q + of_nat i = p + of_nat j" by (simp add: j_def)
    then have "unat q + i = unat p + j"
      using unat_aligned8_add [OF assms(1), of j] unat_aligned8_add [OF assms(2) i] j by (metis j_def)
    moreover have "unat q mod 8 = 0" "unat p mod 8 = 0" using assms by (simp_all add: aligned8_def)
    ultimately have "i mod 8 = j mod 8" by (metis add_cancel_left_left mod_add_left_eq)
    with i j have "i = j" by (simp add: j_def)
    with \<open>unat q + i = unat p + j\<close> have "unat q = unat p" by simp
    then show False using assms(3) by (simp add: word_unat_eq_iff)
  qed
  then show "store64 p v m (q + of_nat i) = m (q + of_nat i)" by (simp add: store64_def)
qed

text \<open>Entry \<open>i\<close> of the page-table page \<open>p\<close>.\<close>

definition slot :: "u64 \<Rightarrow> nat \<Rightarrow> u64" where
  "slot p i = p + 8 * of_nat i"

definition ent :: "memory \<Rightarrow> u64 \<Rightarrow> nat \<Rightarrow> u64" where
  "ent m p i = load64 m (slot p i)"

definition valid :: "u64 \<Rightarrow> bool" where
  "valid e \<longleftrightarrow> e AND PTE_V \<noteq> 0"

definition idx :: "nat \<Rightarrow> u64 \<Rightarrow> nat" where
  "idx level va = unat va div 2 ^ (12 + 9 * level) mod 512"

lemma valid_bit: "valid e \<longleftrightarrow> bit e 0"
proof -
  have "e AND PTE_V = (if bit e 0 then 1 else 0)"
    by (rule bit_word_eqI) (auto simp: PTE_V_def bit_simps, metis gr0I)
  then show ?thesis by (simp add: valid_def)
qed

lemma idx_less [simp]: "idx l va < 512"
  by (simp add: idx_def)

lemma PX_idx: "PX l va = of_nat (idx l va)"
proof -
  have m: "PXMASK = mask 9" by (simp add: PXMASK_def mask_eq_exp_minus_1)
  have d: "unat (drop_bit n va) = unat va div 2 ^ n" for n
    by (metis unat_drop_bit_eq drop_bit_eq_div)
  have "unat (PX l va) = unat va div 2 ^ (12 + 9 * l) mod 512"
    unfolding PX_def m PXSHIFT_def PGSHIFT_def
    by (simp add: take_bit_eq_mask [symmetric] take_bit_eq_mod unat_mod d)
  then have "unat (PX l va) = unat (of_nat (idx l va) :: u64)"
    using idx_less [of l va] by (simp add: idx_def unat_of_nat_u64)
  then show ?thesis by (rule unsigned_word_eqI)
qed

lemma pte_addr_slot: "pte_addr p l va = slot p (idx l va)"
  by (simp add: pte_addr_def slot_def PX_idx)

lemma slot_offset: "i < 512 \<Longrightarrow> slot p i = p + of_nat (8 * i)"
  by (simp add: slot_def)

lemma unat_page_add:
  assumes "page_aligned p" and "j < 4096"
  shows "unat (p + of_nat j) = unat p + j"
proof -
  obtain k where k: "unat p = 4096 * k" using assms(1) by (auto simp: page_aligned_unat)
  with unat_u64_bound [of p] have "k < 2 ^ 52" by simp
  with k assms(2) have "unat p + j < 2 ^ 64" by simp
  then show ?thesis using assms(2) by (simp add: unat_word_ariths unat_of_nat)
qed

lemma unat_slot: "page_aligned p \<Longrightarrow> i < 512 \<Longrightarrow> unat (slot p i) = unat p + 8 * i"
  by (simp only: slot_offset) (rule unat_page_add, auto)

lemma aligned8_slot: "page_aligned p \<Longrightarrow> i < 512 \<Longrightarrow> aligned8 (slot p i)"
proof -
  assume p: "page_aligned p" "i < 512"
  then obtain k where "unat p = 4096 * k" by (auto simp: page_aligned_unat)
  then have "unat (slot p i) = 8 * (512 * k + i)" using p by (simp add: unat_slot)
  then show ?thesis by (simp add: aligned8_def)
qed

lemma page_of_slot: "page_aligned p \<Longrightarrow> i < 512 \<Longrightarrow> page_of (slot p i) = page_of p"
  by (simp only: slot_offset) (rule page_of_offset, auto)

lemma slot_inj:
  assumes "page_aligned p" "page_aligned q" "i < 512" "j < 512"
  shows "slot p i = slot q j \<longleftrightarrow> p = q \<and> i = j"
proof
  assume e: "slot p i = slot q j"
  then have "page_of p = page_of q" using assms page_of_slot by metis
  then have "p = q" by (rule page_of_inj [OF assms(1,2)])
  moreover have "unat p + 8 * i = unat q + 8 * j" using e assms by (metis unat_slot)
  ultimately show "p = q \<and> i = j" by simp
qed simp

lemma slot_nonzero: "page_aligned p \<Longrightarrow> p \<noteq> 0 \<Longrightarrow> i < 512 \<Longrightarrow> slot p i \<noteq> 0"
  using unat_slot [of p i] by (metis add_is_0 unat_0 unat_eq_zero)

lemma ent_store:
  assumes "page_aligned p" "page_aligned q" "i < 512" "j < 512"
  shows "ent (store64 (slot q j) v m) p i = (if p = q \<and> i = j then v else ent m p i)"
  using assms by (auto simp: ent_def slot_inj aligned8_slot load64_store64_other)

lemma ent_frame:
  assumes "page_aligned p" "i < 512" "\<And>a. page_of a = page_of p \<Longrightarrow> m' a = m a"
  shows "ent m' p i = ent m p i"
proof -
  have "page_of (slot p i + of_nat j) = page_of p" if "j < 8" for j
  proof -
    have "slot p i + of_nat j = p + of_nat (8 * i + j)" by (simp add: slot_def)
    then show ?thesis using page_of_offset [OF assms(1), of "8 * i + j"] that assms(2) by (simp add: add.assoc)
  qed
  then show ?thesis unfolding ent_def by (intro load64_cong assms(3))
qed

lemma ent_zero_page:
  assumes "page_aligned p" "i < 512" "\<And>a. page_of a = page_of p \<Longrightarrow> m a = 0"
  shows "ent m p i = 0"
proof -
  have "ent m p i = ent (\<lambda>_. 0) p i" by (rule ent_frame [OF assms(1,2)]) (simp add: assms(3))
  also have "\<dots> = 0" by (rule bit_word_eqI) (simp add: ent_def bit_load64)
  finally show ?thesis .
qed

lemma PTE2PA_PA2PTE:
  assumes "page_aligned p" and "\<And>n. 10 \<le> n \<Longrightarrow> \<not> bit f n"
  shows "PTE2PA (PA2PTE p OR f) = p"
proof -
  have "p = push_bit 12 (drop_bit 12 p)"
  proof -
    have "PGROUNDDOWN p = p"
    proof -
      have "unat (PGROUNDDOWN p) = unat p"
        using assms(1) by (simp add: unat_PGROUNDDOWN page_aligned_unat) (metis mult_div_mod_eq add_0_right)
      then show ?thesis by (rule unsigned_word_eqI)
    qed
    then show ?thesis by (simp add: PGROUNDDOWN_bits)
  qed
  then have low: "\<not> bit p n" if "n < 12" for n using that by (metis bit_push_bit_iff not_le)
  show ?thesis
  proof (rule bit_word_eqI)
    fix n
    assume "n < LENGTH(64)"
    then show "bit (PTE2PA (PA2PTE p OR f)) n = bit p n"
      using assms(2) [of "10 + (n - 12)"] low [of n] unfolding PTE2PA_def PA2PTE_def
      by (cases "n < 12") (auto simp: bit_simps)
  qed
qed

section \<open>The tree\<close>

text \<open>
  The pages of a tree and their levels: a valid entry of a page above the leaves points to a page one
  level down, and no two entries point to the same page.
\<close>

type_synonym nodes = "u64 \<Rightarrow> nat option"

definition pt_wf :: "nodes \<Rightarrow> memory \<Rightarrow> bool" where
  "pt_wf N m \<longleftrightarrow>
     (\<forall>p l. N p = Some l \<longrightarrow> page_aligned p \<and> p \<noteq> 0) \<and>
     (\<forall>p l i. N p = Some (Suc l) \<longrightarrow> i < 512 \<longrightarrow> valid (ent m p i) \<longrightarrow> N (PTE2PA (ent m p i)) = Some l) \<and>
     (\<forall>p l i q k j. N p = Some (Suc l) \<longrightarrow> i < 512 \<longrightarrow> valid (ent m p i) \<longrightarrow>
        N q = Some (Suc k) \<longrightarrow> j < 512 \<longrightarrow> valid (ent m q j) \<longrightarrow>
        PTE2PA (ent m p i) = PTE2PA (ent m q j) \<longrightarrow> p = q \<and> i = j)"

lemma pt_wf_page: "pt_wf N m \<Longrightarrow> N p = Some l \<Longrightarrow> page_aligned p \<and> p \<noteq> 0"
  by (simp add: pt_wf_def)

lemma pt_wf_child: "pt_wf N m \<Longrightarrow> N p = Some (Suc l) \<Longrightarrow> i < 512 \<Longrightarrow> valid (ent m p i) \<Longrightarrow> N (PTE2PA (ent m p i)) = Some l"
  by (simp add: pt_wf_def)

lemma pt_wf_parent:
  "pt_wf N m \<Longrightarrow> N p = Some (Suc l) \<Longrightarrow> i < 512 \<Longrightarrow> valid (ent m p i) \<Longrightarrow>
   N q = Some (Suc k) \<Longrightarrow> j < 512 \<Longrightarrow> valid (ent m q j) \<Longrightarrow>
   PTE2PA (ent m p i) = PTE2PA (ent m q j) \<Longrightarrow> p = q \<and> i = j"
  unfolding pt_wf_def by blast

text \<open>Another memory with the same entries above the leaves.\<close>

lemma pt_wf_upper:
  assumes "pt_wf N m" and "\<And>p l i. N p = Some (Suc l) \<Longrightarrow> i < 512 \<Longrightarrow> ent m' p i = ent m p i"
  shows "pt_wf N m'"
  unfolding pt_wf_def
proof (intro conjI allI impI)
  fix p l
  assume "N p = Some l"
  then show "page_aligned p" "p \<noteq> 0" using pt_wf_page [OF assms(1)] by auto
next
  fix p l i
  assume "N p = Some (Suc l)" "i < 512" "valid (ent m' p i)"
  then show "N (PTE2PA (ent m' p i)) = Some l" using pt_wf_child [OF assms(1)] assms(2) by simp
next
  fix p l i q k j
  assume "N p = Some (Suc l)" "i < 512" "valid (ent m' p i)" "N q = Some (Suc k)" "j < 512" "valid (ent m' q j)"
    "PTE2PA (ent m' p i) = PTE2PA (ent m' q j)"
  then show "p = q" "i = j" using pt_wf_parent [OF assms(1)] assms(2) by auto
qed

text \<open>The address of the leaf entry that \<^verbatim>\<open>walk()\<close> finds, 0 if there is none, and its value.\<close>

primrec leaf_slot :: "memory \<Rightarrow> u64 \<Rightarrow> nat \<Rightarrow> u64 \<Rightarrow> u64" where
  "leaf_slot m va 0 p = slot p (idx 0 va)"
| "leaf_slot m va (Suc l) p =
     (let e = ent m p (idx (Suc l) va) in
      if valid e \<and> PTE2PA e \<noteq> 0 then leaf_slot m va l (PTE2PA e) else 0)"

primrec pte_at :: "memory \<Rightarrow> u64 \<Rightarrow> nat \<Rightarrow> u64 \<Rightarrow> u64" where
  "pte_at m va 0 p = ent m p (idx 0 va)"
| "pte_at m va (Suc l) p =
     (let e = ent m p (idx (Suc l) va) in if valid e then pte_at m va l (PTE2PA e) else 0)"

lemma leaf_slot_form:
  assumes "pt_wf N m" "N p = Some l" "leaf_slot m va l p \<noteq> 0"
  shows "\<exists>q. N q = Some 0 \<and> leaf_slot m va l p = slot q (idx 0 va) \<and> pte_at m va l p = ent m q (idx 0 va)"
  using assms(2,3)
proof (induction l arbitrary: p)
  case (Suc l)
  let ?e = "ent m p (idx (Suc l) va)"
  have v: "valid ?e" "PTE2PA ?e \<noteq> 0" "leaf_slot m va l (PTE2PA ?e) \<noteq> 0"
    using Suc.prems(2) by (auto simp: Let_def split: if_splits)
  have "N (PTE2PA ?e) = Some l" by (rule pt_wf_child [OF assms(1) Suc.prems(1) _ v(1)]) simp
  from Suc.IH [OF this v(3)] v show ?case by (simp add: Let_def)
qed auto

lemma leaf_slot_none:
  assumes "pt_wf N m" "N p = Some l" "leaf_slot m va l p = 0"
  shows "pte_at m va l p = 0"
  using assms(2,3)
proof (induction l arbitrary: p)
  case 0
  then show ?case using slot_nonzero pt_wf_page [OF assms(1) 0(1)] idx_less by auto
next
  case (Suc l)
  let ?e = "ent m p (idx (Suc l) va)"
  show ?case
  proof (cases "valid ?e")
    case True
    then have c: "N (PTE2PA ?e) = Some l" by (intro pt_wf_child [OF assms(1) Suc.prems(1)]) simp_all
    then have "PTE2PA ?e \<noteq> 0" using pt_wf_page [OF assms(1)] by blast
    then show ?thesis using Suc.IH [OF c] Suc.prems(2) True by (simp add: Let_def)
  qed (simp add: Let_def)
qed

lemma leaf_slot_inj:
  assumes "pt_wf N m" "N p = Some l" "N q = Some l"
    and "leaf_slot m va l p = leaf_slot m va' l q" "leaf_slot m va l p \<noteq> 0"
  shows "p = q \<and> (\<forall>k\<le>l. idx k va = idx k va')"
  using assms(2-)
proof (induction l arbitrary: p q)
  case 0
  then show ?case
    using slot_inj [of p q "idx 0 va" "idx 0 va'"] pt_wf_page [OF assms(1)] by auto
next
  case (Suc l)
  let ?e = "ent m p (idx (Suc l) va)" and ?f = "ent m q (idx (Suc l) va')"
  have v: "valid ?e" "leaf_slot m va (Suc l) p = leaf_slot m va l (PTE2PA ?e)"
    using Suc.prems(4) by (auto simp: Let_def split: if_splits)
  have w: "valid ?f" "leaf_slot m va' (Suc l) q = leaf_slot m va' l (PTE2PA ?f)"
    using Suc.prems(3,4) by (auto simp: Let_def split: if_splits)
  have "N (PTE2PA ?e) = Some l" "N (PTE2PA ?f) = Some l"
    using pt_wf_child [OF assms(1)] Suc.prems(1,2) v(1) w(1) by auto
  then have c: "PTE2PA ?e = PTE2PA ?f \<and> (\<forall>k\<le>l. idx k va = idx k va')"
    using Suc.prems(3,4) v(2) w(2) by (intro Suc.IH) auto
  then have "p = q \<and> idx (Suc l) va = idx (Suc l) va'"
    using pt_wf_parent [OF assms(1) Suc.prems(1) _ v(1) Suc.prems(2) _ w(1)] by simp
  with c show ?case by (auto simp: le_Suc_eq)
qed

text \<open>What is read below a page only depends on the pages of the tree.\<close>

definition same_ents :: "nodes \<Rightarrow> memory \<Rightarrow> memory \<Rightarrow> bool" where
  "same_ents N m m' \<longleftrightarrow> (\<forall>p l i. N p = Some l \<longrightarrow> i < 512 \<longrightarrow> ent m' p i = ent m p i)"

lemma same_entsI:
  assumes "pt_wf N m" "\<And>a p l. N p = Some l \<Longrightarrow> page_of a = page_of p \<Longrightarrow> m' a = m a"
  shows "same_ents N m m'"
  unfolding same_ents_def using assms(2) pt_wf_page [OF assms(1)] by (blast intro: ent_frame)

lemma pt_wf_same:
  assumes "pt_wf N m" "same_ents N m m'"
  shows "pt_wf N m'"
  using assms by (intro pt_wf_upper [OF assms(1)]) (auto simp: same_ents_def)

lemma pte_at_same:
  assumes "pt_wf N m" "same_ents N m m'" "N p = Some l"
  shows "pte_at m' va l p = pte_at m va l p \<and> leaf_slot m' va l p = leaf_slot m va l p"
  using assms(3)
proof (induction l arbitrary: p)
  case 0
  then show ?case using assms(2) by (simp add: same_ents_def)
next
  case (Suc l)
  have e: "ent m' p (idx (Suc l) va) = ent m p (idx (Suc l) va)"
    using assms(2) Suc.prems by (simp add: same_ents_def)
  show ?case
    using Suc.IH [OF pt_wf_child [OF assms(1) Suc.prems, of "idx (Suc l) va"]] by (auto simp: Let_def e)
qed

section \<open>Writing a leaf entry\<close>

lemma leaf_store:
  assumes "pt_wf N m" "N q = Some 0" "i < 512"
  shows "pt_wf N (store64 (slot q i) v m)"
    and "N p = Some l \<Longrightarrow> leaf_slot (store64 (slot q i) v m) va l p = leaf_slot m va l p"
    and "N p = Some l \<Longrightarrow> pte_at (store64 (slot q i) v m) va l p =
      (if leaf_slot m va l p = slot q i then v else pte_at m va l p)"
proof -
  let ?m = "store64 (slot q i) v m"
  have q: "page_aligned q" "q \<noteq> 0" using pt_wf_page [OF assms(1,2)] by auto
  have e: "ent ?m p j = (if p = q \<and> j = i then v else ent m p j)" if "N p = Some l" "j < 512" for p l j
    using ent_store pt_wf_page [OF assms(1) that(1)] q that(2) assms(3) by simp
  have up: "ent ?m p j = ent m p j" if "N p = Some (Suc l)" "j < 512" for p l j
    using e [OF that] that(1) assms(2) by auto
  show "pt_wf N ?m" by (rule pt_wf_upper [OF assms(1) up])
  show "leaf_slot ?m va l p = leaf_slot m va l p" if "N p = Some l"
    using that
  proof (induction l arbitrary: p)
    case (Suc l)
    show ?case
      using Suc.IH [OF pt_wf_child [OF assms(1) Suc.prems, of "idx (Suc l) va"]] up [OF Suc.prems]
      by (auto simp: Let_def)
  qed simp
  show "pte_at ?m va l p = (if leaf_slot m va l p = slot q i then v else pte_at m va l p)" if "N p = Some l"
    using that
  proof (induction l arbitrary: p)
    case 0
    then show ?case
      using e [OF 0, of "idx 0 va"] slot_inj [of p q "idx 0 va" i] pt_wf_page [OF assms(1) 0] q assms(3) by auto
  next
    case (Suc l)
    let ?e = "ent m p (idx (Suc l) va)"
    show ?case
    proof (cases "valid ?e")
      case True
      then have c: "N (PTE2PA ?e) = Some l" by (intro pt_wf_child [OF assms(1) Suc.prems]) simp_all
      then have "PTE2PA ?e \<noteq> 0" using pt_wf_page [OF assms(1)] by blast
      then show ?thesis using Suc.IH [OF c] up [OF Suc.prems] True by (simp add: Let_def)
    next
      case False
      then show ?thesis
        using up [OF Suc.prems] slot_nonzero [OF q assms(3)] by (auto simp: Let_def)
    qed
  qed
qed

section \<open>Adding a page to the tree\<close>

text \<open>A larger tree that maps the same addresses: what was valid stays, what is new maps nothing.\<close>

definition ext :: "nodes \<Rightarrow> memory \<Rightarrow> nodes \<Rightarrow> memory \<Rightarrow> bool" where
  "ext N m N' m' \<longleftrightarrow>
     (\<forall>p l. N p = Some l \<longrightarrow> N' p = Some l) \<and>
     (\<forall>p l i. N p = Some (Suc l) \<longrightarrow> i < 512 \<longrightarrow> valid (ent m p i) \<longrightarrow> ent m' p i = ent m p i) \<and>
     (\<forall>p l va. N p = Some l \<longrightarrow> pte_at m' va l p = pte_at m va l p)"

lemma ext_refl: "ext N m N m"
  by (simp add: ext_def)

lemma ext_trans: "ext N m N' m' \<Longrightarrow> ext N' m' N'' m'' \<Longrightarrow> ext N m N'' m''"
  by (simp add: ext_def)

lemma ext_same:
  assumes "pt_wf N m" and "same_ents N m m'"
  shows "ext N m N m'"
  unfolding ext_def
proof (intro conjI allI impI)
  show "ent m' p i = ent m p i" if "N p = Some (Suc l)" "i < 512" for p l i
    using assms(2) that by (simp add: same_ents_def)
  show "pte_at m' va l p = pte_at m va l p" if "N p = Some l" for p l va
    using pte_at_same [OF assms that] by simp
qed

lemma pte_at_zero_page: "(\<And>j. j < 512 \<Longrightarrow> ent m f j = 0) \<Longrightarrow> pte_at m va l f = 0"
  by (cases l) (simp_all add: valid_bit)

lemma valid_or_V: "valid (e OR PTE_V)"
  by (simp add: valid_bit PTE_V_def bit_simps)

lemma PTE_V_low: "10 \<le> n \<Longrightarrow> \<not> bit PTE_V n"
  by (auto simp: PTE_V_def bit_simps)

lemma node_add:
  assumes wf: "pt_wf N m" and p: "N p = Some (Suc l)" "i < 512" "\<not> valid (ent m p i)"
    and f: "N f = None" "page_aligned f" "f \<noteq> 0" "\<And>j. j < 512 \<Longrightarrow> ent m f j = 0"
  defines "m' \<equiv> store64 (slot p i) (PA2PTE f OR PTE_V) m"
  shows "ent m' p i = PA2PTE f OR PTE_V" "PTE2PA (ent m' p i) = f"
    "pt_wf (N(f \<mapsto> l)) m'" "ext N m (N(f \<mapsto> l)) m'"
proof -
  let ?e = "PA2PTE f OR PTE_V" and ?N = "N(f \<mapsto> l)"
  have pa: "page_aligned p" using pt_wf_page [OF wf p(1)] by simp
  have f': "PTE2PA ?e = f" by (rule PTE2PA_PA2PTE [OF f(2) PTE_V_low])
  have pf: "p \<noteq> f" using p(1) f(1) by auto
  have e: "ent m' q j = (if q = p \<and> j = i then ?e else ent m q j)" if "q = f \<or> N q = Some k" "j < 512" for q j k
    using that ent_store [OF _ pa _ p(2)] pt_wf_page [OF wf] f(2) unfolding m'_def by auto
  show ep: "ent m' p i = ?e" using e [of p "Suc l" i] p by simp
  then show "PTE2PA (ent m' p i) = f" using f' by simp
  have fz: "ent m' f j = 0" if "j < 512" for j using e [of f 0 j] f(4) pf that by auto
  have up: "N q = Some (Suc k) \<and> (q = p \<and> j = i \<and> k = l \<or> valid (ent m q j) \<and> ent m' q j = ent m q j)"
    if "?N q = Some (Suc k)" "j < 512" "valid (ent m' q j)" for q k j
  proof -
    have "q \<noteq> f" using fz [OF that(2)] that(3) by (auto simp: valid_bit)
    then have "N q = Some (Suc k)" using that(1) by simp
    then show ?thesis using e [of q "Suc k" j] that p(1) by auto
  qed
  have nof: "PTE2PA (ent m q j) \<noteq> f" if "N q = Some (Suc k)" "j < 512" "valid (ent m q j)" for q k j
    using pt_wf_child [OF wf that] f(1) by auto
  show "pt_wf ?N m'"
    unfolding pt_wf_def
  proof (intro conjI allI impI)
    fix q k
    assume "?N q = Some k"
    then show "page_aligned q" "q \<noteq> 0" using pt_wf_page [OF wf] f(2,3) by (auto split: if_splits)
  next
    fix q k j
    assume a: "?N q = Some (Suc k)" "j < 512" "valid (ent m' q j)"
    from up [OF a] consider "q = p" "j = i" "k = l" | "N q = Some (Suc k)" "valid (ent m q j)" "ent m' q j = ent m q j"
      by auto
    then show "?N (PTE2PA (ent m' q j)) = Some k"
    proof cases
      case 1
      then show ?thesis using ep f' by simp
    next
      case 2
      then show ?thesis using nof [OF 2(1) a(2) 2(2)] pt_wf_child [OF wf 2(1) a(2) 2(2)] by simp
    qed
  next
    fix q k j q' k' j'
    assume a: "?N q = Some (Suc k)" "j < 512" "valid (ent m' q j)"
      and b: "?N q' = Some (Suc k')" "j' < 512" "valid (ent m' q' j')"
      and eq: "PTE2PA (ent m' q j) = PTE2PA (ent m' q' j')"
    note n = nof [OF _ a(2)] nof [OF _ b(2)]
    from up [OF a] up [OF b] eq ep f' n have "q = p \<and> j = i \<and> q' = p \<and> j' = i \<or>
        N q = Some (Suc k) \<and> valid (ent m q j) \<and> N q' = Some (Suc k') \<and> valid (ent m q' j') \<and>
        PTE2PA (ent m q j) = PTE2PA (ent m q' j')" by metis
    then show "q = q'" "j = j'" using pt_wf_parent [OF wf _ a(2) _ _ b(2)] by blast+
  qed
  have "pte_at m' va k q = pte_at m va k q" if "N q = Some k" for q k va
    using that
  proof (induction k arbitrary: q)
    case 0
    then show ?case using e [of q 0 "idx 0 va"] p(1) by auto
  next
    case (Suc k)
    show ?case
    proof (cases "q = p \<and> idx (Suc k) va = i")
      case True
      then have "pte_at m' va (Suc k) q = pte_at m' va k f" using ep f' valid_or_V [of "PA2PTE f"] by simp
      also have "\<dots> = 0" by (rule pte_at_zero_page [OF fz])
      finally show ?thesis using True p(3) by simp
    next
      case False
      then have "ent m' q (idx (Suc k) va) = ent m q (idx (Suc k) va)"
        using e [of q "Suc k" "idx (Suc k) va"] Suc.prems by auto
      then show ?thesis
        using Suc.IH [OF pt_wf_child [OF wf Suc.prems, of "idx (Suc k) va"]] by (simp add: Let_def)
    qed
  qed
  moreover have "ent m' q j = ent m q j" if "N q = Some (Suc k)" "j < 512" "valid (ent m q j)" for q k j
    using e [of q "Suc k" j] that p(3) by auto
  ultimately show "ext N m ?N m'" using f(1) by (auto simp: ext_def)
qed

section \<open>Walking\<close>

lemma run_gets_load [run]: "gets (\<lambda>s. load64 (mem s) a) s = Done (load64 (mem s) a) s"
  by (simp add: run)

lemma walk_loop_pure: "walk_loop va False l p s = Done (leaf_slot (mem s) va l p) s"
proof (induction l arbitrary: p)
  case 0
  then show ?case by (simp add: run pte_addr_slot)
next
  case (Suc l)
  then show ?case
    by (auto simp: walk_step_def run pte_addr_slot ent_def [symmetric] valid_def Let_def)
qed

text \<open>Without allocation \<^verbatim>\<open>walk()\<close> only reads.\<close>

lemma walk_pure:
  "walk p va False s = (if va < MAXVA then Done (leaf_slot (mem s) va 2 p) s else Panic ''walk'' s)"
  by (auto simp: walk_def run walk_loop_pure not_less)

text \<open>A state in which the allocator is usable and no page of the trees is free.\<close>

definition pt_state :: "'z kmem_scheme \<Rightarrow> nodes \<Rightarrow> u64 list \<Rightarrow> bool" where
  "pt_state s N xs \<longleftrightarrow> kmem_inv s xs \<and> pt_wf N (mem s) \<and> (\<forall>x\<in>set xs. N x = None)"

text \<open>
  A step that takes page-table pages from the free list: the trees only grow, and no byte changes
  outside their pages and the pages that were free.
\<close>

definition quiet :: "nodes \<Rightarrow> u64 list \<Rightarrow> memory \<Rightarrow> memory \<Rightarrow> bool" where
  "quiet N xs m m' \<longleftrightarrow> (\<forall>a. (\<forall>p\<in>dom N \<union> set xs. page_of a \<noteq> page_of p) \<longrightarrow> m' a = m a)"

definition pt_grow :: "'z kmem_scheme \<Rightarrow> nodes \<Rightarrow> u64 list \<Rightarrow> 'z kmem_scheme \<Rightarrow> nodes \<Rightarrow> u64 list \<Rightarrow> bool" where
  "pt_grow s N xs t N' xs' \<longleftrightarrow> pt_state t N' xs' \<and> N \<subseteq>\<^sub>m N' \<and> hw_bal s t \<and>
     kmem.more t = kmem.more s \<and> ksym_end t = ksym_end s \<and>
     (\<exists>us. xs = us @ xs' \<and> dom N' = dom N \<union> set us) \<and> quiet N xs (mem s) (mem t)"

definition pt_step :: "'z kmem_scheme \<Rightarrow> nodes \<Rightarrow> u64 list \<Rightarrow> 'z kmem_scheme \<Rightarrow> nodes \<Rightarrow> u64 list \<Rightarrow> bool" where
  "pt_step s N xs t N' xs' \<longleftrightarrow> pt_grow s N xs t N' xs' \<and> ext N (mem s) N' (mem t)"

lemma pt_step_refl: "pt_state s N xs \<Longrightarrow> pt_step s N xs s N xs"
  by (auto simp: pt_step_def pt_grow_def ext_refl hw_bal_refl quiet_def)

lemma pt_grow_trans:
  assumes "pt_grow s N xs t N' xs'" "pt_grow t N' xs' u N'' xs''"
  shows "pt_grow s N xs u N'' xs''"
proof -
  obtain us us' where us: "xs = us @ xs'" "dom N' = dom N \<union> set us" "xs' = us' @ xs''" "dom N'' = dom N' \<union> set us'"
    using assms by (auto simp: pt_grow_def)
  have "mem u a = mem s a" if "\<forall>p\<in>dom N \<union> set xs. page_of a \<noteq> page_of p" for a
  proof -
    have "\<forall>p\<in>dom N' \<union> set xs'. page_of a \<noteq> page_of p" unfolding us(2) using that us(1) by auto
    then show ?thesis using assms that by (simp add: pt_grow_def quiet_def)
  qed
  then have "quiet N xs (mem s) (mem u)" by (simp add: quiet_def)
  moreover have "\<exists>us. xs = us @ xs'' \<and> dom N'' = dom N \<union> set us"
    using us by (intro exI [of _ "us @ us'"]) auto
  ultimately show ?thesis
    using assms by (auto simp: pt_grow_def intro: map_le_trans hw_bal_trans)
qed

lemma pt_step_trans: "pt_step s N xs t N' xs' \<Longrightarrow> pt_step t N' xs' u N'' xs'' \<Longrightarrow> pt_step s N xs u N'' xs''"
  by (auto simp: pt_step_def intro: pt_grow_trans ext_trans)

lemma kmem_inv_mem:
  assumes "kmem_inv s xs" and "\<And>a x. x \<in> set xs \<Longrightarrow> page_of a = page_of x \<Longrightarrow> m a = mem s a"
  shows "kmem_inv (s\<lparr>mem := m\<rparr>) xs"
proof -
  have "chain m (freelist s) xs = chain (mem s) (freelist s) xs"
  proof (rule chain_cong)
    fix x
    assume x: "x \<in> set xs"
    then have "page_aligned x" using assms(1) page_ok_aligned by (auto simp: kmem_inv_def kmem_wf_def)
    then show "load64 m x = load64 (mem s) x" using assms(2) [OF x] by (rule load64_page_cong)
  qed
  then show ?thesis
    using assms(1)
    by (simp add: kmem_inv_def kmem_wf_def page_ok_def kmem_ready_def irq_wf_def depth_def irq_on_def lk_clean_def)
qed

lemma free_page_facts:
  assumes "kmem_inv s (x # xs)"
  shows "page_aligned x" "x \<noteq> 0" "x \<notin> set xs" "\<And>y. y \<in> set xs \<Longrightarrow> page_of y \<noteq> page_of x"
proof -
  have d: "distinct (x # xs)" "0 \<notin> set (x # xs)" "\<forall>y\<in>set (x # xs). page_ok s y"
    using kmem_alloc.distinct_pages [OF assms] by auto
  then show x: "page_aligned x" "x \<noteq> 0" "x \<notin> set xs" using page_ok_aligned by auto
  show "page_of y \<noteq> page_of x" if "y \<in> set xs" for y
    using that d x page_ok_aligned page_of_inj by (metis list.set_intros(2))
qed

lemma page_apart: "page_aligned p \<Longrightarrow> page_aligned q \<Longrightarrow> p \<noteq> q \<Longrightarrow> page_of p \<noteq> page_of q"
  using page_of_inj by blast

lemma store64_slot_other:
  assumes "page_aligned p" "i < 512" "page_of a \<noteq> page_of p"
  shows "store64 (slot p i) v m a = m a"
proof -
  have "\<not> in_region a (slot p i) 8"
  proof
    assume "in_region a (slot p i) 8"
    then have j: "unat (a - slot p i) < 8" by (simp add: in_region_def)
    define j where "j = unat (a - slot p i)"
    have "a = p + of_nat (8 * i + j)" by (simp add: slot_def j_def)
    moreover have "8 * i + j < 4096" using j assms(2) by (simp add: j_def)
    ultimately have "page_of a = page_of p" using page_of_offset [OF assms(1)] by metis
    then show False using assms(3) by simp
  qed
  then show ?thesis by (simp add: store64_def)
qed

lemma pt_stateD:
  assumes "pt_state s N xs"
  shows "kmem_inv s xs" "pt_wf N (mem s)" "\<And>x. x \<in> set xs \<Longrightarrow> N x = None"
  using assms by (auto simp: pt_state_def)

lemma free_apart:
  assumes "pt_state s N xs" "x \<in> set xs" "N p = Some l"
  shows "page_of x \<noteq> page_of p"
proof -
  have "page_aligned x" using kmem_alloc.distinct_pages [OF pt_stateD(1) [OF assms(1)]] assms(2) page_ok_aligned by auto
  moreover have "page_aligned p" using pt_wf_page [OF pt_stateD(2) [OF assms(1)] assms(3)] by simp
  moreover have "x \<noteq> p" using pt_stateD(3) [OF assms(1,2)] assms(3) by auto
  ultimately show ?thesis by (rule page_apart)
qed

text \<open>A page taken from the free list and cleared becomes the child of an empty entry.\<close>

lemma walk_step_new:
  assumes st: "pt_state s N (x # ys)" and p: "N p = Some (Suc l)" and "\<not> valid (ent (mem s) p (idx (Suc l) va))"
  shows "\<exists>t. walk_step va True (Suc l) p s = Done x t \<and> pt_step s N (x # ys) t (N(x \<mapsto> l)) ys \<and> x \<noteq> 0 \<and>
    valid (ent (mem t) p (idx (Suc l) va)) \<and> PTE2PA (ent (mem t) p (idx (Suc l) va)) = x"
proof -
  note inv = pt_stateD(1) [OF st] and wf = pt_stateD(2) [OF st]
  obtain t where t: "kalloc s = Done x t" "kmem_inv t ys" "hw_bal s t" "kmem.more t = kmem.more s"
      "ksym_end t = ksym_end s" "\<And>a. mem t a = (if page_of a = page_of x then 5 else mem s a)"
    using kalloc_pop [of s x ys] inv by (auto simp: kmem_inv_def)
  note x = free_page_facts [OF inv]
  have Nx: "N x = None" using pt_stateD(3) [OF st] by simp
  let ?i = "idx (Suc l) va"
  let ?m = "memset x 0 (ucast PGSIZE) (mem t)"
  let ?m' = "store64 (slot p ?i) (PA2PTE x OR PTE_V) ?m"
  let ?t = "t\<lparr>mem := ?m'\<rparr>"
  have m: "?m a = (if page_of a = page_of x then 0 else mem s a)" for a
    by (simp add: memset_page [OF x(1)] t(6))
  have se: "same_ents N (mem s) ?m"
  proof (rule same_entsI [OF wf])
    fix a q k
    assume q: "N q = Some k" "page_of a = page_of q"
    then have "page_of x \<noteq> page_of a" using free_apart [OF st _ q(1), of x] by simp
    then show "?m a = mem s a" using m [of a] by simp
  qed
  have wfm: "pt_wf N ?m" by (rule pt_wf_same [OF wf se])
  have zero: "ent ?m x j = 0" if "j < 512" for j by (rule ent_zero_page [OF x(1) that]) (simp add: m)
  have inv_p: "\<not> valid (ent ?m p ?i)" using se assms(3) p by (simp add: same_ents_def)
  note add = node_add [OF wfm p idx_less inv_p Nx x(1,2) zero]
  have m': "?m' a = ?m a" if "page_of a \<noteq> page_of p" for a
    using pt_wf_page [OF wf p] by (intro store64_slot_other [OF _ idx_less that]) simp
  have "kmem_inv ?t ys"
    by (rule kmem_inv_mem [OF t(2)]) (use free_apart [OF st _ p] x(4) m' m t(6) in auto)
  moreover have "\<forall>y\<in>set ys. (N(x \<mapsto> l)) y = None" using pt_stateD(3) [OF st] x(3) by auto
  ultimately have "pt_state ?t (N(x \<mapsto> l)) ys" using add(3) by (simp add: pt_state_def)
  moreover have "ext N (mem s) (N(x \<mapsto> l)) ?m'" by (rule ext_trans [OF ext_same [OF wf se] add(4)])
  moreover have "?m' a = mem s a" if "\<forall>q\<in>dom N \<union> set (x # ys). page_of a \<noteq> page_of q" for a
    using that p m' [of a] m [of a] by auto
  then have "quiet N (x # ys) (mem s) ?m'" by (simp add: quiet_def)
  moreover have "\<exists>us. x # ys = us @ ys \<and> dom (N(x \<mapsto> l)) = dom N \<union> set us" by (rule exI [of _ "[x]"]) auto
  ultimately have "pt_step s N (x # ys) ?t (N(x \<mapsto> l)) ys"
    using t(3-5) Nx unfolding pt_step_def pt_grow_def by (auto simp: map_le_def dom_def)
  moreover have "walk_step va True (Suc l) p s = Done x ?t"
    using assms(3) t(1) x(2) by (simp add: walk_step_def run pte_addr_slot ent_def [symmetric] valid_def)
  ultimately show ?thesis using add(1,2) x(2) valid_or_V [of "PA2PTE x"] by (intro exI [of _ ?t]) auto
qed

text \<open>One level of \<^verbatim>\<open>walk()\<close> with allocation: the child's page, in a tree that has it.\<close>

lemma walk_step_alloc:
  assumes st: "pt_state s N xs" and p: "N p = Some (Suc l)"
  shows "\<exists>r t N' xs'. walk_step va True (Suc l) p s = Done r t \<and> pt_step s N xs t N' xs' \<and> length xs \<le> length xs' + 1 \<and>
    (if r = 0 then xs' = [] else N' r = Some l \<and> valid (ent (mem t) p (idx (Suc l) va)) \<and>
      PTE2PA (ent (mem t) p (idx (Suc l) va)) = r)"
proof -
  note wf = pt_stateD(2) [OF st]
  consider (old) "valid (ent (mem s) p (idx (Suc l) va))"
    | (full) "\<not> valid (ent (mem s) p (idx (Suc l) va))" "xs = []"
    | (new) x ys where "\<not> valid (ent (mem s) p (idx (Suc l) va))" "xs = x # ys"
    by (cases xs) auto
  then show ?thesis
  proof cases
    case old
    then have "N (PTE2PA (ent (mem s) p (idx (Suc l) va))) = Some l"
      by (intro pt_wf_child [OF wf p]) simp_all
    moreover from this have "PTE2PA (ent (mem s) p (idx (Suc l) va)) \<noteq> 0" using pt_wf_page [OF wf] by blast
    moreover have "walk_step va True (Suc l) p s = Done (PTE2PA (ent (mem s) p (idx (Suc l) va))) s"
      using old by (simp add: walk_step_def run pte_addr_slot ent_def [symmetric] valid_def)
    ultimately show ?thesis using old pt_step_refl [OF st] by (auto intro!: exI [of _ N] exI [of _ xs])
  next
    case full
    then obtain t where t: "kalloc s = Done 0 t" "kmem_inv t []" "hw_bal s t" "kmem.more t = kmem.more s"
        "ksym_end t = ksym_end s" "mem t = mem s"
      using kalloc_empty [of s] pt_stateD(1) [OF st] by (auto simp: kmem_inv_def)
    then have "pt_step s N xs t N []"
      using wf full by (simp add: pt_step_def pt_grow_def pt_state_def ext_refl quiet_def)
    moreover have "walk_step va True (Suc l) p s = Done 0 t"
      using t full by (simp add: walk_step_def run pte_addr_slot ent_def [symmetric] valid_def)
    ultimately show ?thesis using full by (auto intro!: exI [of _ N])
  next
    case new
    from walk_step_new [OF st [unfolded new(2)] p new(1)] new(2) show ?thesis by fastforce
  qed
qed

lemma walk_loop_alloc:
  assumes "pt_state s N xs" and "N p = Some l"
  shows "\<exists>r t N' xs'. walk_loop va True l p s = Done r t \<and> pt_step s N xs t N' xs' \<and> length xs \<le> length xs' + l \<and>
    (if r = 0 then xs' = [] else r = leaf_slot (mem t) va l p)"
  using assms
proof (induction l arbitrary: s N xs p)
  case 0
  then show ?case
    using pt_step_refl [OF 0(1)] slot_nonzero pt_wf_page [OF pt_stateD(2) [OF 0(1)] 0(2)]
    by (fastforce simp: run pte_addr_slot)
next
  case (Suc l)
  obtain r t N1 xs1 where 1: "walk_step va True (Suc l) p s = Done r t" "pt_step s N xs t N1 xs1" "length xs \<le> length xs1 + 1"
      "if r = 0 then xs1 = [] else N1 r = Some l \<and> valid (ent (mem t) p (idx (Suc l) va)) \<and>
        PTE2PA (ent (mem t) p (idx (Suc l) va)) = r"
    using walk_step_alloc [OF Suc.prems] by blast
  show ?case
  proof (cases "r = 0")
    case True
    then show ?thesis using 1 by (auto simp: run)
  next
    case False
    have st: "pt_state t N1 xs1" and ex: "ext N (mem s) N1 (mem t)" using 1(2) by (auto simp: pt_step_def pt_grow_def)
    have r: "N1 r = Some l" "valid (ent (mem t) p (idx (Suc l) va))" "PTE2PA (ent (mem t) p (idx (Suc l) va)) = r"
      using 1(4) False by auto
    obtain r' u N2 xs2 where 2: "walk_loop va True l r t = Done r' u" "pt_step t N1 xs1 u N2 xs2" "length xs1 \<le> length xs2 + l"
        "if r' = 0 then xs2 = [] else r' = leaf_slot (mem u) va l r"
      using Suc.IH [OF st r(1)] by blast
    have "N1 p = Some (Suc l)" using ex Suc.prems(2) by (simp add: ext_def)
    then have "ent (mem u) p (idx (Suc l) va) = ent (mem t) p (idx (Suc l) va)"
      using 2(2) r(2) by (simp add: pt_step_def ext_def)
    then have "leaf_slot (mem u) va (Suc l) p = leaf_slot (mem u) va l r"
      using r False by (simp add: Let_def)
    then show ?thesis
      using 1(1,3) 2(1,3,4) False pt_step_trans [OF 1(2) 2(2)] by (fastforce simp: run)
  qed
qed

lemma walk_alloc:
  assumes "pt_state s N xs" and "N root = Some 2" and "va < MAXVA"
  shows "\<exists>r t N' xs'. walk root va True s = Done r t \<and> pt_step s N xs t N' xs' \<and> length xs \<le> length xs' + 2 \<and>
    (if r = 0 then xs' = [] else r = leaf_slot (mem t) va 2 root)"
  using walk_loop_alloc [OF assms(1,2), of va] assms(3) by (simp add: walk_def run not_le [symmetric])

section \<open>The map\<close>

definition pte_of :: "memory \<Rightarrow> u64 \<Rightarrow> u64 \<Rightarrow> u64" where
  "pte_of m root va = pte_at m va 2 root"

lemma unat_MAXVA: "unat MAXVA = 2 ^ 38"
  by (simp add: MAXVA_def)

lemma page_of_idx:
  assumes "va < MAXVA"
  shows "page_of va = idx 0 va + 512 * idx 1 va + 512 * 512 * idx 2 va"
proof -
  define n where "n = unat va div 4096"
  have d: "unat va div 2 ^ (12 + 9 * l) = n div 512 ^ l" for l
    by (simp add: n_def div_mult2_eq [symmetric] power_add power_mult)
  have "unat va < 2 ^ 38" using assms by (simp add: word_less_nat_alt unat_MAXVA)
  then have "n < 2 ^ 26" by (simp add: n_def)
  then have "n div 512 ^ 2 mod 512 = n div 512 ^ 2" by (simp add: div_less_iff_less_mult)
  moreover have "n = n mod 512 + 512 * (n div 512 mod 512) + 512 * 512 * (n div 512 ^ 2)"
  proof -
    have "n div 512 ^ 2 = n div 512 div 512" by (simp add: power2_eq_square div_mult2_eq)
    moreover have "512 * (n div 512) + n mod 512 = n" by (rule mult_div_mod_eq)
    moreover have "512 * (n div 512 div 512) + n div 512 mod 512 = n div 512" by (rule mult_div_mod_eq)
    ultimately show ?thesis by linarith
  qed
  moreover have i: "idx l va = n div 512 ^ l mod 512" for l by (simp only: idx_def d)
  have "idx 0 va = n mod 512" "idx 1 va = n div 512 mod 512" by (simp_all add: i)
  moreover have "page_of va = n" by (simp add: page_of_def n_def)
  ultimately show ?thesis using i [of 2] by simp
qed

lemma same_idx:
  assumes "va < MAXVA" "va' < MAXVA"
  shows "page_of va = page_of va' \<longleftrightarrow> (\<forall>k\<le>2. idx k va = idx k va')"
proof
  assume "\<forall>k\<le>2. idx k va = idx k va'"
  then show "page_of va = page_of va'" using page_of_idx [OF assms(1)] page_of_idx [OF assms(2)] by simp
next
  assume "page_of va = page_of va'"
  then have "unat va div 2 ^ (12 + 9 * k) = unat va' div 2 ^ (12 + 9 * k)" for k
    by (simp add: page_of_def power_add div_mult2_eq)
  then show "\<forall>k\<le>2. idx k va = idx k va'" by (simp add: idx_def)
qed

lemma leaf_slot_cong:
  "\<forall>k\<le>l. idx k va = idx k va' \<Longrightarrow> leaf_slot m va l p = leaf_slot m va' l p \<and> pte_at m va l p = pte_at m va' l p"
  by (induction l arbitrary: p) (auto simp: Let_def)

lemma pte_of_page:
  assumes "va < MAXVA" "va' < MAXVA" "page_of va = page_of va'"
  shows "pte_of m root va = pte_of m root va'"
  using leaf_slot_cong [of 2 va va'] same_idx [OF assms(1,2)] assms(3) by (simp add: pte_of_def)

text \<open>Writing the leaf entry that \<^verbatim>\<open>walk()\<close> returned changes the map of one tree at one page.\<close>

lemma pte_of_store:
  assumes "pt_wf N m" "N root = Some 2" "N r = Some 2" "va < MAXVA" "va' < MAXVA" "leaf_slot m va 2 root \<noteq> 0"
  shows "pte_of (store64 (leaf_slot m va 2 root) v m) r va' =
    (if r = root \<and> page_of va' = page_of va then v else pte_of m r va')"
proof -
  obtain q where q: "N q = Some 0" "leaf_slot m va 2 root = slot q (idx 0 va)"
    using leaf_slot_form [OF assms(1,2,6)] by blast
  have "leaf_slot m va' 2 r = leaf_slot m va 2 root \<longleftrightarrow> r = root \<and> page_of va' = page_of va"
    using leaf_slot_inj [OF assms(1,2,3), of va va'] leaf_slot_cong [of 2 va' va m root] same_idx [OF assms(5,4)]
      assms(6) by metis
  then show ?thesis
    using leaf_store(3) [OF assms(1) q(1) idx_less [of 0 va] assms(3), of v va'] q(2) by (simp add: pte_of_def)
qed

lemma leaf_entry:
  assumes "pt_wf N m" "N root = Some 2" "leaf_slot m va 2 root \<noteq> 0"
  shows "load64 m (leaf_slot m va 2 root) = pte_of m root va"
  using leaf_slot_form [OF assms] by (auto simp: pte_of_def ent_def)

text \<open>The same in a state: the allocator and the tree stay as they are.\<close>

lemma pt_grow_store:
  assumes "pt_state s N xs" "N root = Some 2" "leaf_slot (mem s) va 2 root \<noteq> 0"
  shows "pt_grow s N xs (s\<lparr>mem := store64 (leaf_slot (mem s) va 2 root) v (mem s)\<rparr>) N xs"
proof -
  note wf = pt_stateD(2) [OF assms(1)]
  obtain q where q: "N q = Some 0" "leaf_slot (mem s) va 2 root = slot q (idx 0 va)"
    using leaf_slot_form [OF wf assms(2,3)] by blast
  let ?m = "store64 (slot q (idx 0 va)) v (mem s)"
  have other: "?m a = mem s a" if "page_of a \<noteq> page_of q" for a
    using pt_wf_page [OF wf q(1)] by (intro store64_slot_other [OF _ idx_less that]) simp
  have "kmem_inv (s\<lparr>mem := ?m\<rparr>) xs"
    by (rule kmem_inv_mem [OF pt_stateD(1) [OF assms(1)]]) (metis other free_apart [OF assms(1) _ q(1)])
  then have "pt_state (s\<lparr>mem := ?m\<rparr>) N xs"
    using leaf_store(1) [OF wf q(1) idx_less] pt_stateD(3) [OF assms(1)] by (simp add: pt_state_def)
  moreover have "quiet N xs (mem s) ?m"
    using other q(1) by (auto simp: quiet_def dom_def)
  ultimately show ?thesis
    unfolding q(2) pt_grow_def by (simp add: hw_bal_refl)
qed

section \<open>Mapping pages\<close>

text \<open>One turn of the loop of \<^verbatim>\<open>mappages()\<close>.\<close>

lemma map_page:
  assumes st: "pt_state s N xs" and root: "N root = Some 2" and va: "va < MAXVA"
    and free: "\<not> valid (pte_of (mem s) root va)" and room: "2 < length xs"
  shows "\<exists>t N' xs'. walk root va True s = Done (leaf_slot (mem t) va 2 root) t \<and> leaf_slot (mem t) va 2 root \<noteq> 0 \<and>
    pt_grow s N xs t N' xs' \<and> length xs \<le> length xs' + 2 \<and> ext N (mem s) N' (mem t) \<and>
    \<not> valid (load64 (mem t) (leaf_slot (mem t) va 2 root))"
proof -
  obtain r t N' xs' where t: "walk root va True s = Done r t" "pt_step s N xs t N' xs'" "length xs \<le> length xs' + 2"
      "if r = 0 then xs' = [] else r = leaf_slot (mem t) va 2 root"
    using walk_alloc [OF st root va] by blast
  then have r: "r \<noteq> 0" "r = leaf_slot (mem t) va 2 root" using room by (auto split: if_splits)
  have g: "pt_grow s N xs t N' xs'" "ext N (mem s) N' (mem t)" using t(2) by (auto simp: pt_step_def)
  have "pt_wf N' (mem t)" "N' root = Some 2"
    using g root by (auto simp: pt_grow_def pt_state_def ext_def)
  then have "load64 (mem t) r = pte_of (mem t) root va" using leaf_entry r by metis
  also have "\<dots> = pte_of (mem s) root va" using g(2) root by (simp add: ext_def pte_of_def)
  finally have "\<not> valid (load64 (mem t) (leaf_slot (mem t) va 2 root))" using r(2) free by simp
  then show ?thesis using t(1,3) g r by (intro exI [of _ t] exI [of _ N'] exI [of _ xs']) simp
qed

text \<open>\<^verbatim>\<open>va\<close> moved up by \<open>k\<close> pages.\<close>

definition page_up :: "u64 \<Rightarrow> nat \<Rightarrow> u64" where
  "page_up va k = va + of_nat (4096 * k)"

lemma page_up_Suc: "page_up va (Suc k) = page_up (va + PGSIZE) k"
  by (simp add: page_up_def PGSIZE_def)

lemma page_up_0 [simp]: "page_up va 0 = va"
  by (simp add: page_up_def)

lemma unat_page_up: "unat va + 4096 * k < 2 ^ 64 \<Longrightarrow> unat (page_up va k) = unat va + 4096 * k"
  unfolding page_up_def by (simp add: unat_word_ariths unat_of_nat)

lemma page_of_page_up: "unat va + 4096 * k < 2 ^ 64 \<Longrightarrow> page_of (page_up va k) = page_of va + k"
  by (simp add: page_of_def unat_page_up)

lemma page_up_lt_MAXVA: "unat va + 4096 * k < 2 ^ 38 \<Longrightarrow> page_up va k < MAXVA"
  by (simp add: word_less_nat_alt unat_MAXVA unat_page_up)

text \<open>The entry for page number \<open>n\<close> of a mapping that starts at page number \<open>n0\<close> and \<^verbatim>\<open>pa\<close>.\<close>

definition new_pte :: "u64 \<Rightarrow> u64 \<Rightarrow> nat \<Rightarrow> u64" where
  "new_pte pa perm k = PA2PTE (page_up pa k) OR perm OR PTE_V"

text \<open>\<open>d + 1\<close> pages from \<open>va\<close> on are mapped in the tree \<open>root\<close>, and nothing else is.\<close>

definition maps_range :: "nodes \<Rightarrow> memory \<Rightarrow> memory \<Rightarrow> u64 \<Rightarrow> u64 \<Rightarrow> nat \<Rightarrow> (nat \<Rightarrow> u64) \<Rightarrow> bool" where
  "maps_range N m m' root va d f \<longleftrightarrow>
     (\<forall>r a. N r = Some 2 \<longrightarrow> a < MAXVA \<longrightarrow> pte_of m' r a =
       (if r = root \<and> page_of va \<le> page_of a \<and> page_of a \<le> page_of va + d then f (page_of a - page_of va)
        else pte_of m r a))"

lemma maps_range_trans:
  assumes "maps_range N m m1 root a 0 (\<lambda>_. f 0)" "maps_range N' m1 m2 root (a + PGSIZE) d (\<lambda>k. f (Suc k))"
    and "N \<subseteq>\<^sub>m N'" and "page_of (a + PGSIZE) = Suc (page_of a)"
  shows "maps_range N m m2 root a (Suc d) f"
  unfolding maps_range_def
proof (intro allI impI)
  fix r b
  assume r: "N r = Some 2" and b: "b < MAXVA"
  have "N' r = Some 2" using assms(3) r by (auto simp: map_le_def dom_def)
  then have 2: "pte_of m2 r b = (if r = root \<and> Suc (page_of a) \<le> page_of b \<and> page_of b \<le> Suc (page_of a) + d
      then f (Suc (page_of b - Suc (page_of a))) else pte_of m1 r b)"
    using assms(2,4) b by (simp add: maps_range_def)
  have 1: "pte_of m1 r b = (if r = root \<and> page_of b = page_of a then f 0 else pte_of m r b)"
    using assms(1) r b by (auto simp: maps_range_def)
  show "pte_of m2 r b = (if r = root \<and> page_of a \<le> page_of b \<and> page_of b \<le> page_of a + Suc d
      then f (page_of b - page_of a) else pte_of m r b)"
  proof (cases "r = root \<and> page_of a \<le> page_of b \<and> page_of b \<le> page_of a + Suc d")
    case True
    show ?thesis
    proof (cases "page_of b = page_of a")
      case True
      then show ?thesis using 1 2 \<open>r = root \<and> _\<close> by simp
    next
      case False
      then have "Suc (page_of b - Suc (page_of a)) = page_of b - page_of a" using True by auto
      then show ?thesis using 2 True False by simp
    qed
  next
    case False
    then show ?thesis using 1 2 by auto
  qed
qed

lemma mappages_turn_maps:
  assumes st: "pt_state s N xs" and root: "N root = Some 2" and a: "a < MAXVA"
    and free: "\<not> valid (pte_of (mem s) root a)" and room: "2 < length xs"
  shows "\<exists>t N' xs'. mappages_turn root lst perm (a, pa) s =
      Done (if a = lst then Inr 0 else Inl (a + PGSIZE, pa + PGSIZE)) t \<and>
    pt_grow s N xs t N' xs' \<and> length xs \<le> length xs' + 2 \<and>
    maps_range N (mem s) (mem t) root a 0 (\<lambda>_. new_pte pa perm 0)"
proof -
  obtain t N' xs' where t: "walk root a True s = Done (leaf_slot (mem t) a 2 root) t" "leaf_slot (mem t) a 2 root \<noteq> 0"
      "pt_grow s N xs t N' xs'" "length xs \<le> length xs' + 2" "ext N (mem s) N' (mem t)"
      "\<not> valid (load64 (mem t) (leaf_slot (mem t) a 2 root))"
    using map_page [OF assms] by auto
  have st': "pt_state t N' xs'" "N' root = Some 2" using t(3,5) root by (auto simp: pt_grow_def ext_def)
  let ?t = "t\<lparr>mem := store64 (leaf_slot (mem t) a 2 root) (new_pte pa perm 0) (mem t)\<rparr>"
  have "pte_of (mem ?t) r b = (if r = root \<and> page_of b = page_of a then new_pte pa perm 0 else pte_of (mem s) r b)"
    if "N r = Some 2" "b < MAXVA" for r b
  proof -
    have "N' r = Some 2" using t(5) that by (simp add: ext_def)
    then have "pte_of (mem ?t) r b = (if r = root \<and> page_of b = page_of a then new_pte pa perm 0 else pte_of (mem t) r b)"
      using pte_of_store [OF pt_stateD(2) [OF st'(1)] st'(2) _ a that(2) t(2)] by simp
    moreover have "pte_of (mem t) r b = pte_of (mem s) r b" using t(5) that(1) by (simp add: ext_def pte_of_def)
    ultimately show ?thesis by simp
  qed
  then have "maps_range N (mem s) (mem ?t) root a 0 (\<lambda>_. new_pte pa perm 0)" by (auto simp: maps_range_def)
  moreover have "pt_grow s N xs ?t N' xs'"
    by (rule pt_grow_trans [OF t(3) pt_grow_store [OF st' t(2)]])
  moreover have "mappages_turn root lst perm (a, pa) s = Done (if a = lst then Inr 0 else Inl (a + PGSIZE, pa + PGSIZE)) ?t"
    using t(1,2,6) by (simp add: mappages_turn_def run valid_def new_pte_def)
  ultimately show ?thesis using t(4) by blast
qed

lemma mappages_loop:
  assumes "pt_state s N xs" "N root = Some 2" "unat a + 4096 * d < 2 ^ 38" "lst = page_up a d" "d < fuel"
    and "\<forall>k\<le>d. \<not> valid (pte_of (mem s) root (page_up a k))" and "2 * (d + 1) < length xs"
  shows "\<exists>t N' xs'. loopM fuel (mappages_turn root lst perm) (a, pa) s = Done 0 t \<and>
      pt_grow s N xs t N' xs' \<and> length xs \<le> length xs' + 2 * (d + 1) \<and>
      maps_range N (mem s) (mem t) root a d (new_pte pa perm)"
  using assms
proof (induction d arbitrary: s N xs a pa fuel)
  case (0 s N xs a pa fuel)
  obtain f where f: "fuel = Suc f" using 0 by (cases fuel) auto
  have a: "a < MAXVA" using 0 page_up_lt_MAXVA [of a 0] by simp
  from mappages_turn_maps [OF 0(1,2) a, of lst perm pa] 0 f show ?case by (fastforce simp: run maps_range_def)
next
  case (Suc d s N xs a pa fuel)
  obtain f where f: "fuel = Suc f" using Suc.prems(5) by (cases fuel) auto
  have a: "a < MAXVA" and av: "unat a < 2 ^ 38" using Suc.prems(3) page_up_lt_MAXVA [of a 0] by simp_all
  have nl: "a \<noteq> lst" using Suc.prems(3,4) unat_page_up [of a "Suc d"] by auto
  have free: "\<not> valid (pte_of (mem s) root a)" using Suc.prems(6) by (metis page_up_0 zero_le)
  obtain t N1 xs1 where t: "mappages_turn root lst perm (a, pa) s = Done (Inl (a + PGSIZE, pa + PGSIZE)) t"
      "pt_grow s N xs t N1 xs1" "length xs \<le> length xs1 + 2" "maps_range N (mem s) (mem t) root a 0 (\<lambda>_. new_pte pa perm 0)"
    using mappages_turn_maps [OF Suc.prems(1,2) a free, of lst perm pa] Suc.prems(7) nl by auto
  have st: "pt_state t N1 xs1" and sub: "N \<subseteq>\<^sub>m N1" using t(2) by (auto simp: pt_grow_def)
  have r1: "N1 root = Some 2" using sub Suc.prems(2) by (auto simp: map_le_def dom_def)
  have a1: "unat (a + PGSIZE) = unat a + 4096" "page_of (a + PGSIZE) = Suc (page_of a)"
    using unat_page_up [of a 1] page_of_page_up [of a 1] Suc.prems(3) by (simp_all add: page_up_Suc)
  have "\<not> valid (pte_of (mem t) root (page_up (a + PGSIZE) k))" if "k \<le> d" for k
  proof -
    have k: "page_up a (Suc k) < MAXVA" "page_of (page_up a (Suc k)) = page_of a + Suc k"
      using that Suc.prems(3) page_up_lt_MAXVA [of a "Suc k"] page_of_page_up [of a "Suc k"] by simp_all
    then have "pte_of (mem t) root (page_up a (Suc k)) = pte_of (mem s) root (page_up a (Suc k))"
      using t(4) Suc.prems(2) by (simp add: maps_range_def)
    moreover have "\<not> valid (pte_of (mem s) root (page_up a (Suc k)))" using Suc.prems(6) that by blast
    ultimately show ?thesis by (simp add: page_up_Suc)
  qed
  then obtain u N2 xs2 where u: "loopM f (mappages_turn root lst perm) (a + PGSIZE, pa + PGSIZE) t = Done 0 u"
      "pt_grow t N1 xs1 u N2 xs2" "length xs1 \<le> length xs2 + 2 * (d + 1)"
      "maps_range N1 (mem t) (mem u) root (a + PGSIZE) d (new_pte (pa + PGSIZE) perm)"
    using Suc.IH [OF st r1, of "a + PGSIZE" f "pa + PGSIZE"] Suc.prems t(3) f a1 by (auto simp: page_up_Suc)
  have "new_pte (pa + PGSIZE) perm = (\<lambda>k. new_pte pa perm (Suc k))" by (simp add: new_pte_def page_up_Suc fun_eq_iff)
  then have "maps_range N (mem s) (mem u) root a (Suc d) (new_pte pa perm)"
    using maps_range_trans [of N "mem s" "mem t" root a "new_pte pa perm" N1 "mem u" d] t(4) u(4) sub a1(2) by simp
  moreover have "loopM fuel (mappages_turn root lst perm) (a, pa) s = Done 0 u" using t(1) u(1) by (simp add: f run)
  ultimately show ?case
    using pt_grow_trans [OF t(2) u(2)] t(3) u(3) by (intro exI [of _ u] exI [of _ N2] exI [of _ xs2]) simp
qed

lemma max_pages_enough: "unat va + 4096 * d < 2 ^ 38 \<Longrightarrow> d < max_pages"
  by (simp add: max_pages_def unat_MAXVA)

text \<open>The first and the last page of a range, and how many pages lie between.\<close>

lemma range_pages:
  assumes "0 < sz" "unat va + unat sz \<le> 2 ^ 38"
  defines "d \<equiv> page_of (va + sz - 1) - page_of va"
  shows "PGROUNDDOWN (va + sz - 1) = page_up (PGROUNDDOWN va) d" "unat (PGROUNDDOWN va) + 4096 * d < 2 ^ 38"
    "page_of (PGROUNDDOWN va) = page_of va" "page_of (va + sz - 1) = page_of va + d"
proof -
  have s: "0 < unat sz" using assms(1) by (simp add: unat_gt_0)
  have "unat (va + sz) = unat va + unat sz" using assms(2) by (simp add: unat_word_ariths)
  then have e: "unat (va + sz - 1) = unat va + unat sz - 1" using s by (subst unat_minus_1) auto
  have le: "page_of va \<le> page_of (va + sz - 1)" using s by (auto simp: page_of_def e intro: div_le_mono)
  have u: "unat (PGROUNDDOWN x) = 4096 * page_of x" for x by (simp add: unat_PGROUNDDOWN page_of_def)
  have "4096 * page_of (va + sz - 1) \<le> unat va + unat sz - 1" by (simp add: page_of_def e)
  then show b: "unat (PGROUNDDOWN va) + 4096 * d < 2 ^ 38" using assms(2) s le by (simp add: u d_def)
  then have "unat (page_up (PGROUNDDOWN va) d) = 4096 * page_of va + 4096 * d"
    using unat_page_up [of "PGROUNDDOWN va" d] u by simp
  then have "unat (PGROUNDDOWN (va + sz - 1)) = unat (page_up (PGROUNDDOWN va) d)"
    using le by (simp add: u d_def)
  then show "PGROUNDDOWN (va + sz - 1) = page_up (PGROUNDDOWN va) d" by (rule unsigned_word_eqI)
  show "page_of (PGROUNDDOWN va) = page_of va" using u [of va] by (simp add: page_of_def)
  show "page_of (va + sz - 1) = page_of va + d" using le by (simp add: d_def)
qed

text \<open>Whether no page of a range is mapped, and whether every one is.\<close>

definition page_in :: "u64 \<Rightarrow> u64 \<Rightarrow> u64 \<Rightarrow> bool" where
  "page_in va sz a \<longleftrightarrow> page_of va \<le> page_of a \<and> page_of a \<le> page_of (va + sz - 1)"

definition unmapped :: "memory \<Rightarrow> u64 \<Rightarrow> u64 \<Rightarrow> u64 \<Rightarrow> bool" where
  "unmapped m root va sz \<longleftrightarrow> (\<forall>a. a < MAXVA \<longrightarrow> page_in va sz a \<longrightarrow> \<not> valid (pte_of m root a))"

section \<open>Unmapping pages\<close>

lemma pt_state_free:
  assumes "pt_state s N xs" "page_ok s p" "p \<notin> set xs" "N p = None"
  shows "\<exists>t. kfree p s = Done () t \<and> pt_state t N (p # xs) \<and> same_ents N (mem s) (mem t) \<and> hw_bal s t \<and>
    kmem.more t = kmem.more s \<and> ksym_end t = ksym_end s"
proof -
  note inv = pt_stateD(1) [OF assms(1)] and wf = pt_stateD(2) [OF assms(1)]
  obtain t where t: "kfree p s = Done () t" "kmem_ready t" "kmem_wf t (p # xs)" "hw_bal s t" "ksym_end t = ksym_end s"
      "kmem.more t = kmem.more s" "\<forall>a. page_of a \<noteq> page_of p \<longrightarrow> mem t a = mem s a"
    using kfree_push [OF _ _ assms(2,3)] inv by (auto simp: kmem_inv_def)
  have "same_ents N (mem s) (mem t)"
  proof (rule same_entsI [OF wf])
    fix a q l
    assume q: "N q = Some l" "page_of a = page_of q"
    then have "p \<noteq> q" using assms(4) by auto
    then have "page_of p \<noteq> page_of q"
      using page_apart [OF page_ok_aligned [OF assms(2)]] pt_wf_page [OF wf q(1)] by metis
    then show "mem t a = mem s a" using t(7) q(2) by metis
  qed
  moreover from this have "pt_wf N (mem t)" by (rule pt_wf_same [OF wf])
  ultimately show ?thesis
    using t pt_stateD(3) [OF assms(1)] assms(4) by (auto simp: pt_state_def kmem_inv_def)
qed

text \<open>A page whose mapping can be removed, with its frame if that is asked for.\<close>

definition removable :: "'z kmem_scheme \<Rightarrow> nodes \<Rightarrow> u64 list \<Rightarrow> bool \<Rightarrow> u64 \<Rightarrow> bool" where
  "removable s N xs do_free e \<longleftrightarrow> valid e \<and> PTE_FLAGS e \<noteq> PTE_V \<and>
     (do_free \<longrightarrow> page_ok s (PTE2PA e) \<and> PTE2PA e \<notin> set xs \<and> N (PTE2PA e) = None)"

definition freed :: "bool \<Rightarrow> u64 \<Rightarrow> u64 list \<Rightarrow> u64 list" where
  "freed do_free e xs = (if do_free then PTE2PA e # xs else xs)"

lemma leaf_slot_valid:
  assumes "pt_wf N m" "N root = Some 2" "valid (pte_of m root a)"
  shows "leaf_slot m a 2 root \<noteq> 0"
  using leaf_slot_none [OF assms(1,2), of a] assms(3) by (auto simp: pte_of_def valid_bit)

lemma uvmunmap_turn_unmaps:
  assumes st: "pt_state s N xs" and root: "N root = Some 2" and a: "a < MAXVA"
    and e: "removable s N xs fr (pte_of (mem s) root a)"
  shows "\<exists>t. uvmunmap_turn root lst fr a s = Done (if a = lst then Inr () else Inl (a + PGSIZE)) t \<and>
    pt_state t N (freed fr (pte_of (mem s) root a) xs) \<and> hw_bal s t \<and> kmem.more t = kmem.more s \<and>
    ksym_end t = ksym_end s \<and> maps_range N (mem s) (mem t) root a 0 (\<lambda>_. 0)"
proof -
  let ?e = "pte_of (mem s) root a" and ?l = "leaf_slot (mem s) a 2 root"
  note wf = pt_stateD(2) [OF st]
  have l0: "?l \<noteq> 0" using leaf_slot_valid [OF wf root] e by (simp add: removable_def)
  obtain u where u: "whenM fr (kfree (PTE2PA ?e)) s = Done () u" "pt_state u N (freed fr ?e xs)"
      "same_ents N (mem s) (mem u)" "hw_bal s u" "kmem.more u = kmem.more s" "ksym_end u = ksym_end s"
  proof (cases fr)
    case True
    then show ?thesis
      using pt_state_free [OF st, of "PTE2PA ?e"] e that by (auto simp: removable_def run freed_def)
  next
    case False
    then show ?thesis using st that [of s] by (simp add: run freed_def same_ents_def hw_bal_refl)
  qed
  have lu: "leaf_slot (mem u) a 2 root = ?l" using pte_at_same [OF wf u(3) root] by simp
  let ?t = "u\<lparr>mem := store64 ?l 0 (mem u)\<rparr>"
  have g: "pt_grow u N (freed fr ?e xs) ?t N (freed fr ?e xs)"
    using pt_grow_store [OF u(2) root, of a 0] lu l0 by simp
  have "pte_of (mem ?t) r b = (if r = root \<and> page_of b = page_of a then 0 else pte_of (mem s) r b)"
    if "N r = Some 2" "b < MAXVA" for r b
    using pte_of_store [OF pt_stateD(2) [OF u(2)] root that(1) a that(2)] lu l0
      pte_at_same [OF wf u(3) that(1)] by (simp add: pte_of_def)
  then have "maps_range N (mem s) (mem ?t) root a 0 (\<lambda>_. 0)" by (auto simp: maps_range_def)
  moreover have "uvmunmap_turn root lst fr a s = Done (if a = lst then Inr () else Inl (a + PGSIZE)) ?t"
    using l0 u(1) a e leaf_entry [OF wf root l0]
    by (simp add: uvmunmap_turn_def run walk_pure removable_def valid_def)
  ultimately show ?thesis using g u(4-6) by (auto simp: pt_grow_def)
qed

primrec freed_list :: "bool \<Rightarrow> u64 list \<Rightarrow> u64 list \<Rightarrow> u64 list" where
  "freed_list fr [] xs = xs"
| "freed_list fr (e # es) xs = freed_list fr es (freed fr e xs)"

text \<open>The entries of \<open>d + 1\<close> pages.\<close>

definition ptes :: "memory \<Rightarrow> u64 \<Rightarrow> u64 \<Rightarrow> nat \<Rightarrow> u64 list" where
  "ptes m root a d = map (\<lambda>k. pte_of m root (page_up a k)) [0..<Suc d]"

lemma ptes_Suc: "ptes m root a (Suc d) = pte_of m root a # ptes m root (a + PGSIZE) d"
  unfolding ptes_def by (subst upt_conv_Cons) (simp_all add: map_Suc_upt [symmetric] page_up_Suc comp_def del: upt_Suc map_Suc_upt)

lemma removable_freed:
  assumes "removable s N xs fr e'" "fr \<longrightarrow> PTE2PA e' \<noteq> PTE2PA e" "ksym_end t = ksym_end s"
  shows "removable t N (freed fr e xs) fr e'"
  using assms by (auto simp: removable_def freed_def page_ok_def)

lemma uvmunmap_loop:
  assumes "pt_state s N xs" "N root = Some 2" "unat a + 4096 * d < 2 ^ 38" "lst = page_up a d" "d < fuel"
    and "\<forall>e\<in>set (ptes (mem s) root a d). removable s N xs fr e"
    and "fr \<longrightarrow> distinct (map PTE2PA (ptes (mem s) root a d))"
  shows "\<exists>t. loopM fuel (uvmunmap_turn root lst fr) a s = Done () t \<and>
      pt_state t N (freed_list fr (ptes (mem s) root a d) xs) \<and> hw_bal s t \<and> kmem.more t = kmem.more s \<and>
      ksym_end t = ksym_end s \<and> maps_range N (mem s) (mem t) root a d (\<lambda>_. 0)"
  using assms
proof (induction d arbitrary: s xs a fuel)
  case (0 s xs a fuel)
  obtain f where f: "fuel = Suc f" using 0 by (cases fuel) auto
  have a: "a < MAXVA" using 0 page_up_lt_MAXVA [of a 0] by simp
  have "removable s N xs fr (pte_of (mem s) root a)" using 0(6) by (simp add: ptes_def)
  from uvmunmap_turn_unmaps [OF 0(1,2) a this, of lst] 0(4) f show ?case by (auto simp: run ptes_def)
next
  case (Suc d s xs a fuel)
  obtain f where f: "fuel = Suc f" using Suc.prems(5) by (cases fuel) auto
  have a: "a < MAXVA" using Suc.prems(3) page_up_lt_MAXVA [of a 0] by simp
  have nl: "a \<noteq> lst" using Suc.prems(3,4) unat_page_up [of a "Suc d"] by auto
  let ?e = "pte_of (mem s) root a" and ?es = "ptes (mem s) root (a + PGSIZE) d"
  have es: "\<forall>e\<in>set (?e # ?es). removable s N xs fr e" "fr \<longrightarrow> distinct (map PTE2PA (?e # ?es))"
    using Suc.prems(6,7) by (simp_all only: ptes_Suc)
  obtain t where t: "uvmunmap_turn root lst fr a s = Done (Inl (a + PGSIZE)) t" "pt_state t N (freed fr ?e xs)"
      "hw_bal s t" "kmem.more t = kmem.more s" "ksym_end t = ksym_end s" "maps_range N (mem s) (mem t) root a 0 (\<lambda>_. 0)"
    using uvmunmap_turn_unmaps [OF Suc.prems(1,2) a, of fr lst] es(1) nl by auto
  have a1: "unat (a + PGSIZE) = unat a + 4096" "page_of (a + PGSIZE) = Suc (page_of a)"
    using unat_page_up [of a 1] page_of_page_up [of a 1] Suc.prems(3) by (simp_all add: page_up_Suc)
  have "pte_of (mem t) root (page_up (a + PGSIZE) k) = pte_of (mem s) root (page_up (a + PGSIZE) k)" if "k \<le> d" for k
  proof -
    have "page_up a (Suc k) < MAXVA" "page_of (page_up a (Suc k)) = page_of a + Suc k"
      using that Suc.prems(3) page_up_lt_MAXVA [of a "Suc k"] page_of_page_up [of a "Suc k"] by simp_all
    then show ?thesis using t(6) Suc.prems(2) by (simp add: maps_range_def page_up_Suc)
  qed
  then have same: "ptes (mem t) root (a + PGSIZE) d = ?es" by (simp add: ptes_def)
  have "\<forall>e\<in>set ?es. removable t N (freed fr ?e xs) fr e"
  proof
    fix e
    assume e: "e \<in> set ?es"
    then have "fr \<longrightarrow> PTE2PA e \<noteq> PTE2PA ?e" using es(2) by (metis distinct.simps(2) image_eqI list.simps(9) set_map)
    with e es(1) t(5) show "removable t N (freed fr ?e xs) fr e" by (intro removable_freed) auto
  qed
  then obtain u where u: "loopM f (uvmunmap_turn root lst fr) (a + PGSIZE) t = Done () u"
      "pt_state u N (freed_list fr ?es (freed fr ?e xs))" "hw_bal t u" "kmem.more u = kmem.more t"
      "ksym_end u = ksym_end t" "maps_range N (mem t) (mem u) root (a + PGSIZE) d (\<lambda>_. 0)"
    using Suc.IH [OF t(2) Suc.prems(2), of "a + PGSIZE" f] Suc.prems(3-5) es(2) f a1 same by (auto simp: page_up_Suc)
  have "maps_range N (mem s) (mem u) root a (Suc d) (\<lambda>_. 0)"
    using maps_range_trans [of N "mem s" "mem t" root a "\<lambda>_. 0" N "mem u" d] t(6) u(6) a1(2) by simp
  moreover have "loopM fuel (uvmunmap_turn root lst fr) a s = Done () u" using t(1) u(1) by (simp add: f run)
  ultimately show ?case
    using u(2,4,5) t(4,5) hw_bal_trans [OF t(3) u(3)] by (simp add: ptes_Suc)
qed

lemma freed_list_eq: "freed_list fr es xs = (if fr then rev (map PTE2PA es) @ xs else xs)"
  by (induction es arbitrary: xs) (auto simp: freed_def)

section \<open>A small address space\<close>

text \<open>
  Three free pages, and a table with one user page: page 1 of the address space is the frame
  \<^verbatim>\<open>0x80006000\<close>.
\<close>

definition ROOT :: u64 where "ROOT = 0x80000000"

definition demo_mem :: memory where
  "demo_mem =
     store64 (slot 0x80005000 1) (PA2PTE 0x80006000 OR (PTE_R OR PTE_W OR PTE_U OR PTE_V)) (
     store64 (slot 0x80004000 0) (PA2PTE 0x80005000 OR PTE_V) (
     store64 (slot ROOT 0) (PA2PTE 0x80004000 OR PTE_V) (
     store64 (slot 0x80003000 0) 0x80002000 (
     store64 (slot 0x80002000 0) 0x80001000 (\<lambda>_. 0)))))"

definition demo_kmem :: kmem where
  "demo_kmem = (boot_kmem KERNBASE)\<lparr>mem := demo_mem, freelist := 0x80003000\<rparr>"

definition demo_nodes :: nodes where
  "demo_nodes = [ROOT \<mapsto> 2, 0x80004000 \<mapsto> 1, 0x80005000 \<mapsto> 0]"

definition demo_free :: "u64 list" where
  "demo_free = [0x80003000, 0x80002000, 0x80001000]"

lemma demo_aligned:
  "page_aligned ROOT" "page_aligned 0x80001000" "page_aligned 0x80002000" "page_aligned 0x80003000"
  "page_aligned 0x80004000" "page_aligned 0x80005000" "page_aligned 0x80006000"
  by (simp_all add: page_aligned_def PGSIZE_def ROOT_def)

lemma demo_ent:
  assumes "page_aligned p" "i < 512"
  shows "ent demo_mem p i =
    (if p = 0x80005000 \<and> i = 1 then PA2PTE 0x80006000 OR (PTE_R OR PTE_W OR PTE_U OR PTE_V)
     else if p = 0x80004000 \<and> i = 0 then PA2PTE 0x80005000 OR PTE_V
     else if p = ROOT \<and> i = 0 then PA2PTE 0x80004000 OR PTE_V
     else if p = 0x80003000 \<and> i = 0 then 0x80002000
     else if p = 0x80002000 \<and> i = 0 then 0x80001000 else 0)"
proof -
  have z: "ent (\<lambda>_. 0) p i = 0" by (rule ent_zero_page [OF assms]) simp
  show ?thesis
    unfolding demo_mem_def using assms demo_aligned by (simp add: ent_store z)
qed

lemma demo_kmem_inv: "kmem_inv demo_kmem demo_free"
proof -
  have l: "load64 demo_mem p = ent demo_mem p 0" for p by (simp add: ent_def slot_def)
  have "chain demo_mem 0x80003000 demo_free"
    using demo_aligned by (simp add: demo_free_def l demo_ent ROOT_def)
  then show ?thesis
    using boot_kmem_ok(2) [of KERNBASE]
    by (simp add: kmem_inv_def kmem_wf_def demo_kmem_def page_ok_def demo_free_def boot_kmem_def KERNBASE_def PHYSTOP_def
        PGSIZE_def kmem_ready_def irq_wf_def depth_def irq_on_def lk_clean_def)
qed

lemma demo_nodes_cases:
  assumes "demo_nodes p = Some l"
  obtains "p = ROOT" "l = 2" | "p = 0x80004000" "l = 1" | "p = 0x80005000" "l = 0"
  using assms by (auto simp: demo_nodes_def split: if_splits)

lemma demo_children:
  assumes "demo_nodes p = Some (Suc l)" "i < 512" "valid (ent demo_mem p i)"
  shows "i = 0 \<and> (p = ROOT \<and> l = 1 \<and> PTE2PA (ent demo_mem p i) = 0x80004000 \<or>
    p = 0x80004000 \<and> l = 0 \<and> PTE2PA (ent demo_mem p i) = 0x80005000)"
  using assms(1)
proof (cases rule: demo_nodes_cases)
  case 1
  then show ?thesis
    using assms(2,3) demo_aligned PTE2PA_PA2PTE [OF demo_aligned(5) PTE_V_low]
    by (auto simp: demo_ent ROOT_def valid_bit split: if_splits)
next
  case 2
  then show ?thesis
    using assms(2,3) demo_aligned PTE2PA_PA2PTE [OF demo_aligned(6) PTE_V_low]
    by (auto simp: demo_ent ROOT_def valid_bit split: if_splits)
qed simp

lemma demo_wf: "pt_wf demo_nodes demo_mem"
  unfolding pt_wf_def
proof (intro conjI allI impI)
  fix p l
  assume "demo_nodes p = Some l"
  then show "page_aligned p" "p \<noteq> 0"
    by (auto elim!: demo_nodes_cases simp: demo_aligned demo_aligned(1) [unfolded ROOT_def] ROOT_def)
next
  fix p l i
  assume "demo_nodes p = Some (Suc l)" "i < 512" "valid (ent demo_mem p i)"
  from demo_children [OF this] show "demo_nodes (PTE2PA (ent demo_mem p i)) = Some l"
    by (auto simp: demo_nodes_def ROOT_def)
next
  fix p l i q k j
  assume a: "demo_nodes p = Some (Suc l)" "i < 512" "valid (ent demo_mem p i)"
    and b: "demo_nodes q = Some (Suc k)" "j < 512" "valid (ent demo_mem q j)"
    and c: "PTE2PA (ent demo_mem p i) = PTE2PA (ent demo_mem q j)"
  from demo_children [OF a] demo_children [OF b] c show "p = q" "i = j" by auto
qed

lemma demo_state: "pt_state demo_kmem demo_nodes demo_free" "demo_nodes ROOT = Some 2"
  using demo_kmem_inv demo_wf
  by (auto simp: pt_state_def demo_kmem_def demo_nodes_def demo_free_def ROOT_def)

lemma demo_pte:
  assumes "unat va < 2 ^ 21"
  shows "pte_of demo_mem ROOT va =
    (if page_of va = 1 then PA2PTE 0x80006000 OR (PTE_R OR PTE_W OR PTE_U OR PTE_V) else 0)"
proof -
  have i: "idx 2 va = 0" "idx 1 va = 0" "idx 0 va = page_of va" using assms by (simp_all add: idx_def page_of_def)
  have e: "ent demo_mem ROOT 0 = PA2PTE 0x80004000 OR PTE_V" "ent demo_mem 0x80004000 0 = PA2PTE 0x80005000 OR PTE_V"
    using demo_aligned by (simp_all add: demo_ent ROOT_def)
  have p: "page_of va < 512" using assms by (simp add: page_of_def)
  have q: "PTE2PA (PA2PTE 0x80004000 OR PTE_V) = 0x80004000" "PTE2PA (PA2PTE 0x80005000 OR PTE_V) = 0x80005000"
    using demo_aligned by (simp_all add: PTE2PA_PA2PTE PTE_V_low)
  have "pte_at demo_mem va (Suc 0) 0x80004000 = ent demo_mem 0x80005000 (page_of va)"
    using i by (simp add: e q valid_or_V)
  then have "pte_at demo_mem va (Suc (Suc 0)) ROOT = ent demo_mem 0x80005000 (page_of va)"
    using i(1) by (simp add: e q valid_or_V numeral_2_eq_2 del: pte_at.simps(1))
  then have "pte_of demo_mem ROOT va = ent demo_mem 0x80005000 (page_of va)" by (simp add: pte_of_def numeral_2_eq_2)
  then show ?thesis using p demo_aligned by (simp add: demo_ent ROOT_def)
qed

section \<open>Properties\<close>

text \<open>
  C7: \<^verbatim>\<open>mappages()\<close> adds exactly the requested mappings.  If no page of the range is mapped
  and there are free pages for the levels of the tree, it succeeds; afterwards every page of the range
  has the entry for its physical page with the given permissions, and every other page of this tree and
  of every other tree has the entry it had.  The pages it took from the free list have become pages of
  the tree, and no byte outside the trees and the free pages has changed.
\<close>

theorem mappages_maps:
  assumes "pt_state s N xs" and "N root = Some 2" and "0 < sz" and "unat va + unat sz \<le> 2 ^ 38"
    and "unmapped (mem s) root va sz" and "2 * (page_of (va + sz - 1) - page_of va + 1) < length xs"
  shows "\<exists>t N' xs'. mappages root va sz pa perm s = Done 0 t \<and> pt_grow s N xs t N' xs' \<and>
    (\<forall>r a. N r = Some 2 \<longrightarrow> a < MAXVA \<longrightarrow> pte_of (mem t) r a =
      (if r = root \<and> page_in va sz a then PA2PTE (pa + of_nat (4096 * (page_of a - page_of va))) OR perm OR PTE_V
       else pte_of (mem s) r a))"
proof -
  let ?d = "page_of (va + sz - 1) - page_of va"
  note rp = range_pages [OF assms(3,4)]
  have k: "page_up (PGROUNDDOWN va) k < MAXVA" "page_of (page_up (PGROUNDDOWN va) k) = page_of va + k" if "k \<le> ?d" for k
    using that rp(2) page_up_lt_MAXVA [of "PGROUNDDOWN va" k] page_of_page_up [of "PGROUNDDOWN va" k] rp(3) by simp_all
  note pg = rp(4)
  have "\<forall>j\<le>?d. \<not> valid (pte_of (mem s) root (page_up (PGROUNDDOWN va) j))"
    using assms(5) k pg by (auto simp: unmapped_def page_in_def)
  from mappages_loop [OF assms(1,2) rp(2,1) max_pages_enough [OF rp(2)] this assms(6), of perm pa]
  obtain t N' xs' where t: "loopM max_pages (mappages_turn root (PGROUNDDOWN (va + sz - 1)) perm) (PGROUNDDOWN va, pa) s = Done 0 t"
      "pt_grow s N xs t N' xs'" "maps_range N (mem s) (mem t) root (PGROUNDDOWN va) ?d (new_pte pa perm)"
    by blast
  have "mappages root va sz pa perm s = Done 0 t" using t(1) by (simp add: mappages_def)
  moreover have "page_in va sz a \<longleftrightarrow> page_of va \<le> page_of a \<and> page_of a \<le> page_of va + ?d" for a
    using pg by (simp add: page_in_def)
  ultimately show ?thesis
    using t(2,3) rp(3) unfolding maps_range_def by (auto simp: new_pte_def page_up_def)
qed

theorem mappages_maps_witness:
  "\<exists>t. mappages ROOT 0x2000 PGSIZE 0x80007000 (PTE_R OR PTE_U) demo_kmem = Done 0 t \<and>
    pte_of (mem t) ROOT 0x2000 = PA2PTE 0x80007000 OR (PTE_R OR PTE_U) OR PTE_V \<and>
    pte_of (mem t) ROOT 0x1000 = pte_of demo_mem ROOT 0x1000"
proof -
  have b: "0 < PGSIZE" "unat (0x2000 :: u64) + unat PGSIZE \<le> 2 ^ 38" by (simp_all add: PGSIZE_def)
  have pg: "page_in 0x2000 PGSIZE a \<longleftrightarrow> page_of a = 2" for a by (auto simp: page_in_def page_of_def PGSIZE_def)
  have "unat a < 2 ^ 21" if "page_of a = 2" for a using that by (simp add: page_of_def)
  then have u: "unmapped (mem demo_kmem) ROOT 0x2000 PGSIZE"
    using demo_pte by (simp add: unmapped_def pg demo_kmem_def valid_bit)
  have r: "2 * (page_of (0x2000 + PGSIZE - 1) - page_of 0x2000 + 1) < length demo_free"
    by (simp add: page_of_def PGSIZE_def demo_free_def)
  have m: "(0x2000 :: u64) < MAXVA" "(0x1000 :: u64) < MAXVA" by (simp_all add: MAXVA_def)
  have p: "page_of 0x2000 = 2" "page_of 0x1000 = 1" by (simp_all add: page_of_def)
  from mappages_maps [OF demo_state b u r, where pa = "0x80007000" and perm = "PTE_R OR PTE_U"] obtain t where
    t: "mappages ROOT 0x2000 PGSIZE 0x80007000 (PTE_R OR PTE_U) demo_kmem = Done 0 t"
      "\<And>r a. demo_nodes r = Some 2 \<Longrightarrow> a < MAXVA \<Longrightarrow> pte_of (mem t) r a =
        (if r = ROOT \<and> page_in 0x2000 PGSIZE a then PA2PTE (0x80007000 + of_nat (4096 * (page_of a - page_of 0x2000))) OR
          (PTE_R OR PTE_U) OR PTE_V else pte_of (mem demo_kmem) r a)" by blast
  show ?thesis
    using t(1) t(2) [OF demo_state(2) m(1)] t(2) [OF demo_state(2) m(2)] by (simp add: pg p demo_kmem_def)
qed

text \<open>
  C8: \<^verbatim>\<open>uvmunmap()\<close> removes exactly the mappings of the range: if every page of it is mapped
  by a leaf entry, the entries are 0 afterwards and every other entry of every tree is as before.
  With \<^verbatim>\<open>do_free\<close> the frames of the removed pages, which have to be distinct pages of the
  allocator that are neither free nor part of a page table, are put on the free list, each once.
\<close>

theorem uvmunmap_unmaps:
  assumes "pt_state s N xs" and "N root = Some 2" and "0 < sz" and "unat va + unat sz \<le> 2 ^ 38"
    and "\<forall>e\<in>set (ptes (mem s) root (PGROUNDDOWN va) (page_of (va + sz - 1) - page_of va)). removable s N xs do_free e"
    and "do_free \<longrightarrow> distinct (map PTE2PA (ptes (mem s) root (PGROUNDDOWN va) (page_of (va + sz - 1) - page_of va)))"
  shows "\<exists>t xs'. uvmunmap root va sz do_free s = Done () t \<and> pt_state t N xs' \<and> hw_bal s t \<and> kmem.more t = kmem.more s \<and>
    xs' = (if do_free then rev (map PTE2PA (ptes (mem s) root (PGROUNDDOWN va) (page_of (va + sz - 1) - page_of va))) @ xs else xs) \<and>
    (\<forall>r a. N r = Some 2 \<longrightarrow> a < MAXVA \<longrightarrow>
      pte_of (mem t) r a = (if r = root \<and> page_in va sz a then 0 else pte_of (mem s) r a))"
proof -
  let ?d = "page_of (va + sz - 1) - page_of va"
  note rp = range_pages [OF assms(3,4)]
  from uvmunmap_loop [OF assms(1,2) rp(2,1) max_pages_enough [OF rp(2)] assms(5,6)]
  obtain t where t: "loopM max_pages (uvmunmap_turn root (PGROUNDDOWN (va + sz - 1)) do_free) (PGROUNDDOWN va) s = Done () t"
      "pt_state t N (freed_list do_free (ptes (mem s) root (PGROUNDDOWN va) ?d) xs)" "hw_bal s t" "kmem.more t = kmem.more s"
      "maps_range N (mem s) (mem t) root (PGROUNDDOWN va) ?d (\<lambda>_. 0)"
    by blast
  have "uvmunmap root va sz do_free s = Done () t" using t(1) by (simp add: uvmunmap_def)
  moreover have "page_in va sz a \<longleftrightarrow> page_of va \<le> page_of a \<and> page_of a \<le> page_of va + ?d" for a
    using rp(4) by (simp add: page_in_def)
  ultimately show ?thesis
    using t(2-5) rp(3) unfolding maps_range_def by (auto simp: freed_list_eq)
qed

theorem uvmunmap_unmaps_witness:
  "\<exists>t xs. uvmunmap ROOT 0x1000 PGSIZE True demo_kmem = Done () t \<and> pt_state t demo_nodes xs \<and>
    xs = 0x80006000 # demo_free \<and> pte_of (mem t) ROOT 0x1000 = 0"
proof -
  let ?e = "PA2PTE 0x80006000 OR (PTE_R OR PTE_W OR PTE_U OR PTE_V)"
  have b: "0 < PGSIZE" "unat (0x1000 :: u64) + unat PGSIZE \<le> 2 ^ 38" by (simp_all add: PGSIZE_def)
  have pg: "page_in 0x1000 PGSIZE a \<longleftrightarrow> page_of a = 1" for a by (auto simp: page_in_def page_of_def PGSIZE_def)
  have d: "page_of (0x1000 + PGSIZE - 1) - page_of 0x1000 = 0" "PGROUNDDOWN 0x1000 = 0x1000" "page_of 0x1000 = 1"
    by (simp_all add: page_of_def PGSIZE_def PGROUNDDOWN_bits)
  have e: "ptes (mem demo_kmem) ROOT 0x1000 0 = [?e]"
    using demo_pte [of "0x1000"] d(3) by (simp add: ptes_def demo_kmem_def)
  have low: "\<not> bit (PTE_R OR PTE_W OR PTE_U OR PTE_V) n" if "10 \<le> n" for n
  proof -
    have "\<not> bit PTE_R n" "\<not> bit PTE_W n" "\<not> bit PTE_U n"
      using that unfolding PTE_R_def PTE_W_def PTE_U_def by (simp_all only: bit_push_bit_iff bit_1_iff) auto
    then show ?thesis using PTE_V_low [OF that] by (simp add: bit_or_iff)
  qed
  have pa: "PTE2PA ?e = 0x80006000" by (rule PTE2PA_PA2PTE [OF demo_aligned(7) low])
  have f: "valid ?e" "PTE_FLAGS ?e \<noteq> PTE_V"
    by (simp_all add: valid_bit PTE_V_def bit_simps PA2PTE_def PTE_FLAGS_def PTE_R_def PTE_W_def PTE_X_def PTE_U_def)
  have r: "removable demo_kmem demo_nodes demo_free True ?e"
    using f by (simp add: removable_def pa page_ok_def demo_kmem_def boot_kmem_def demo_free_def demo_nodes_def ROOT_def
        PGSIZE_def KERNBASE_def PHYSTOP_def)
  have m: "(0x1000 :: u64) < MAXVA" by (simp add: MAXVA_def)
  have e': "ptes (mem demo_kmem) ROOT (PGROUNDDOWN 0x1000) (page_of (0x1000 + PGSIZE - 1) - page_of 0x1000) = [?e]"
    unfolding d(1,2) by (rule e)
  have h: "\<forall>x\<in>set [?e]. removable demo_kmem demo_nodes demo_free True x" "True \<longrightarrow> distinct (map PTE2PA [?e])"
    using r by simp_all
  from uvmunmap_unmaps [OF demo_state b, where do_free = True, unfolded e', OF h] obtain t xs where
    "uvmunmap ROOT 0x1000 PGSIZE True demo_kmem = Done () t" "pt_state t demo_nodes xs"
    "xs = rev (map PTE2PA [?e]) @ demo_free"
    "\<forall>r a. demo_nodes r = Some 2 \<longrightarrow> a < MAXVA \<longrightarrow> pte_of (mem t) r a =
      (if r = ROOT \<and> page_in 0x1000 PGSIZE a then 0 else pte_of (mem demo_kmem) r a)"
    by auto
  then show ?thesis using demo_state(2) m by (auto simp: pa pg d(3))
qed

end
