(* ===== verification/UserMem.thy ===== *)
theory UserMem
  imports PageTable
begin

text \<open>
  Copying between the kernel and user memory: what \<^verbatim>\<open>walkaddr()\<close>, \<^verbatim>\<open>copyout()\<close>
  and \<^verbatim>\<open>copyin()\<close> of \<^verbatim>\<open>kernel/vm.c\<close> (modelled in Vm) do to the memory a
  page table of PageTable describes, below 4 GB.
\<close>

section \<open>Translating a user address\<close>

text \<open>The frame of a user page, 0 if there is none, and the physical address of a user byte.\<close>

definition upage :: "memory \<Rightarrow> u64 \<Rightarrow> u64 \<Rightarrow> u64" where
  "upage m root va =
     (let e = pte_of m root va in if valid e \<and> e AND PTE_U \<noteq> 0 then PTE2PA e else 0)"

definition phys :: "memory \<Rightarrow> u64 \<Rightarrow> u64 \<Rightarrow> u64" where
  "phys m root va = upage m root va + of_nat (unat va mod 4096)"

lemma page_aligned_push: "page_aligned (push_bit 12 x)"
proof -
  have "PGROUNDDOWN (push_bit 12 x) = push_bit 12 x"
    unfolding PGROUNDDOWN_bits by (rule bit_word_eqI) (auto simp: bit_simps)
  then show ?thesis by (metis page_aligned_PGROUNDDOWN)
qed

lemma page_aligned_upage: "page_aligned (upage m root va)"
  using page_aligned_push by (simp add: upage_def Let_def PTE2PA_def page_aligned_def)

lemma walkaddr_run:
  assumes "pt_wf N (mem s)" "N root = Some 2" "va < MAXVA"
  shows "walkaddr root va s = Done (upage (mem s) root va) s"
proof (cases "leaf_slot (mem s) va 2 root = 0")
  case True
  then have "pte_of (mem s) root va = 0" using leaf_slot_none [OF assms(1,2)] by (simp add: pte_of_def)
  then show ?thesis using True assms(3) by (simp add: walkaddr_def run walk_pure upage_def valid_bit)
next
  case False
  then show ?thesis
    using leaf_entry [OF assms(1,2) False] assms(3)
    by (simp add: walkaddr_def run walk_pure upage_def valid_def Let_def)
qed

lemma upage_same:
  assumes "pt_wf N m" "same_ents N m m'" "N root = Some 2"
  shows "upage m' root va = upage m root va" "phys m' root va = phys m root va"
  using pte_at_same [OF assms] by (simp_all add: upage_def phys_def pte_of_def)

text \<open>The addresses below 4 GB, where the cast to \<^verbatim>\<open>uint\<close> loses nothing.\<close>

lemma va0_of_small:
  assumes "unat va < 2 ^ 32"
  shows "va0_of va = PGROUNDDOWN va"
proof -
  have "unat (PGROUNDDOWN va) < 2 ^ 32"
    using assms by (simp add: unat_PGROUNDDOWN)
  then have "unat (ucast (PGROUNDDOWN va) :: u32) = unat (PGROUNDDOWN va)"
    by (simp add: unsigned_ucast_eq take_bit_nat_eq_self)
  then have "unat (va0_of va) = unat (PGROUNDDOWN va)" by (simp add: va0_of_def unat_ucast_u32_u64)
  then show ?thesis by (rule unsigned_word_eqI)
qed

lemma page_offset: "va - PGROUNDDOWN va = of_nat (unat va mod 4096)"
proof -
  have "PGROUNDDOWN va = of_nat (4096 * (unat va div 4096))"
    unfolding unat_PGROUNDDOWN [symmetric] by simp
  then have "PGROUNDDOWN va + of_nat (unat va mod 4096) = of_nat (4096 * (unat va div 4096) + unat va mod 4096)"
    by (simp only: of_nat_add)
  then have "PGROUNDDOWN va + of_nat (unat va mod 4096) = va" by simp
  then show ?thesis by (metis add_diff_cancel_left')
qed

lemma chunk_small:
  assumes "unat va < 2 ^ 32"
  shows "chunk va len = min (4096 - unat va mod 4096) len"
proof -
  have "unat (PGSIZE - of_nat (unat va mod 4096)) = 4096 - unat va mod 4096"
  proof -
    have "unat (of_nat (unat va mod 4096) :: u64) = unat va mod 4096" by (rule unat_of_nat_u64) (simp add: less_trans [OF mod_less_divisor])
    moreover have "unat va mod 4096 \<le> 4096" using mod_less_divisor [of 4096 "unat va"] by linarith
    ultimately show ?thesis by (subst unat_sub) (simp_all add: PGSIZE_def word_le_nat_alt)
  qed
  then show ?thesis by (simp add: chunk_def va0_of_small [OF assms] page_offset)
qed

lemma page_of_add:
  assumes "unat va + i < 2 ^ 64" "unat va mod 4096 + i < 4096"
  shows "page_of (va + of_nat i) = page_of va" "unat (va + of_nat i) mod 4096 = unat va mod 4096 + i"
proof -
  have u: "unat (va + of_nat i) = unat va + i" using assms(1) by (simp add: unat_word_ariths unat_of_nat)
  have e: "unat (va + of_nat i) = (unat va mod 4096 + i) + 4096 * (unat va div 4096)" by (simp add: u)
  show "page_of (va + of_nat i) = page_of va"
    unfolding page_of_def e using assms(2) by (subst div_mult_self2) simp_all
  show "unat (va + of_nat i) mod 4096 = unat va mod 4096 + i"
    unfolding e using assms(2) by (subst mod_mult_self2) simp
qed

lemma small_lt_MAXVA: "unat va < 2 ^ 32 \<Longrightarrow> va < MAXVA"
  by (simp add: word_less_nat_alt unat_MAXVA)

lemma upage_page: "va < MAXVA \<Longrightarrow> va' < MAXVA \<Longrightarrow> page_of va = page_of va' \<Longrightarrow> upage m root va = upage m root va'"
  using pte_of_page [of va va'] by (simp add: upage_def)

lemma phys_in_chunk:
  assumes "unat va + i < 2 ^ 32" "unat va mod 4096 + i < 4096"
  shows "phys m root (va + of_nat i) = phys m root va + of_nat i" "upage m root (va + of_nat i) = upage m root va"
proof -
  have u: "unat (va + of_nat i) = unat va + i" using assms(1) by (simp add: unat_word_ariths unat_of_nat)
  have b: "unat va + i < 2 ^ 64" using assms(1) by simp
  note p = page_of_add [OF b assms(2)]
  show q: "upage m root (va + of_nat i) = upage m root va"
    using u assms(1) p(1) by (intro upage_page small_lt_MAXVA) simp_all
  show "phys m root (va + of_nat i) = phys m root va + of_nat i"
    by (simp add: phys_def q p(2))
qed

lemma next_page: "PGROUNDDOWN va + PGSIZE = va + of_nat (4096 - unat va mod 4096)"
proof -
  define r where "r = unat va mod 4096"
  have "r \<le> 4096" using mod_less_divisor [of 4096 "unat va"] by (simp add: r_def)
  then have "of_nat r + of_nat (4096 - r) = (PGSIZE :: u64)"
    by (simp flip: of_nat_add add: PGSIZE_def)
  then have "PGSIZE - of_nat (4096 - r) = (va - PGROUNDDOWN va)"
    unfolding page_offset r_def [symmetric] by (simp add: algebra_simps)
  then show ?thesis unfolding r_def by (simp add: algebra_simps)
qed

section \<open>Writing and reading\<close>

text \<open>The bytes \<open>bs\<close> have been written at the addresses \<open>f 0\<close>, \<open>f 1\<close>, and so on, and nowhere else.\<close>

definition wrote :: "memory \<Rightarrow> memory \<Rightarrow> (nat \<Rightarrow> u64) \<Rightarrow> u8 list \<Rightarrow> bool" where
  "wrote m m' f bs \<longleftrightarrow>
     (\<forall>i<length bs. m' (f i) = bs ! i) \<and> (\<forall>a. (\<forall>i<length bs. a \<noteq> f i) \<longrightarrow> m' a = m a)"

lemma wrote_put_bytes:
  assumes "length bs \<le> 4096" and "\<And>i. i < length bs \<Longrightarrow> f i = p + of_nat i"
  shows "wrote m (put_bytes p bs m) f bs"
proof -
  have u: "unat (of_nat i :: u64) = i" if "i < length bs" for i
    using that assms(1) by (intro unat_of_nat_u64) simp
  have "in_region a p (length bs) \<longleftrightarrow> (\<exists>i<length bs. a = f i)" for a
  proof
    assume "in_region a p (length bs)"
    then have "unat (a - p) < length bs" "a = p + of_nat (unat (a - p))" by (simp_all add: in_region_def)
    then show "\<exists>i<length bs. a = f i" using assms(2) by metis
  next
    assume "\<exists>i<length bs. a = f i"
    then show "in_region a p (length bs)" using u assms(2) by (auto simp: in_region_def)
  qed
  then show ?thesis using u assms(2) by (auto simp: wrote_def put_bytes_def)
qed

lemma wrote_append:
  assumes "wrote m m1 f bs" "wrote m1 m2 (\<lambda>i. f (length bs + i)) cs" "inj_on f {..<length bs + length cs}"
  shows "wrote m m2 f (bs @ cs)"
  unfolding wrote_def
proof (intro conjI allI impI)
  fix i
  assume i: "i < length (bs @ cs)"
  show "m2 (f i) = (bs @ cs) ! i"
  proof (cases "i < length bs")
    case True
    then have "f i \<noteq> f (length bs + j)" if "j < length cs" for j
      using inj_onD [OF assms(3), of i "length bs + j"] that by auto
    then have "m2 (f i) = m1 (f i)" using assms(2) by (simp add: wrote_def)
    then show ?thesis using assms(1) True by (simp add: wrote_def nth_append)
  next
    case False
    then obtain j where "i = length bs + j" "j < length cs" using i by (metis add_less_cancel_left length_append less_or_eq_imp_le linorder_not_less le_add_diff_inverse)
    then show ?thesis using assms(2) by (simp add: wrote_def nth_append)
  qed
next
  fix a
  assume a: "\<forall>i<length (bs @ cs). a \<noteq> f i"
  then have "\<forall>i<length cs. a \<noteq> f (length bs + i)" "\<forall>i<length bs. a \<noteq> f i" by simp_all
  then show "m2 a = m a" using assms(1,2) by (simp add: wrote_def)
qed

text \<open>A range of user memory below 4 GB whose pages, where they are mapped, are not page tables and do not share frames.\<close>

definition user_range :: "nodes \<Rightarrow> memory \<Rightarrow> u64 \<Rightarrow> u64 \<Rightarrow> nat \<Rightarrow> bool" where
  "user_range N m root va n \<longleftrightarrow> unat va + n \<le> 2 ^ 32 \<and>
     (\<forall>i<n. N (upage m root (va + of_nat i)) = None) \<and>
     inj_on (\<lambda>i. phys m root (va + of_nat i)) {i. i < n \<and> upage m root (va + of_nat i) \<noteq> 0}"

lemma same_ents_write:
  assumes "pt_wf N m" "wrote m m' f bs" "\<And>i. i < length bs \<Longrightarrow> \<exists>q. page_aligned q \<and> N q = None \<and> page_of (f i) = page_of q"
  shows "same_ents N m m'"
proof (rule same_entsI [OF assms(1)])
  fix a p l
  assume p: "N p = Some l" "page_of a = page_of p"
  have "a \<noteq> f i" if i: "i < length bs" for i
  proof
    assume "a = f i"
    obtain q where q: "page_aligned q" "N q = None" "page_of (f i) = page_of q" using assms(3) [OF i] by blast
    then have "p = q" using p \<open>a = f i\<close> pt_wf_page [OF assms(1) p(1)] by (intro page_of_inj) auto
    then show False using p(1) q(2) by simp
  qed
  then show "m' a = m a" using assms(2) by (simp add: wrote_def)
qed

lemma page_of_phys: "page_of (phys m root va) = page_of (upage m root va)"
  unfolding phys_def by (intro page_of_offset page_aligned_upage) simp

lemma upage_va0:
  assumes "unat va < 2 ^ 32"
  shows "upage m root (va0_of va) = upage m root va" "va0_of va < MAXVA"
proof -
  have "unat (PGROUNDDOWN va) < 2 ^ 32" using assms by (simp add: unat_PGROUNDDOWN)
  then show "va0_of va < MAXVA" using assms by (simp add: va0_of_small small_lt_MAXVA)
  then show "upage m root (va0_of va) = upage m root va"
    using assms unat_PGROUNDDOWN [of va]
    by (intro upage_page small_lt_MAXVA) (simp_all add: va0_of_small page_of_def)
qed

lemma walkaddr_va0:
  assumes "pt_wf N (mem s)" "N root = Some 2" "unat va < 2 ^ 32"
  shows "walkaddr root (PGROUNDDOWN va) s = Done (upage (mem s) root va) s"
  using walkaddr_run [OF assms(1,2) upage_va0(2) [OF assms(3)]] upage_va0(1) [OF assms(3)]
  by (simp add: va0_of_small [OF assms(3)])

text \<open>One turn of \<^verbatim>\<open>copyout()\<close> and of \<^verbatim>\<open>copyin()\<close>, below 4 GB.\<close>

lemma copyout_turn_run:
  assumes "pt_wf N (mem s)" "N root = Some 2" "unat va < 2 ^ 32" "src \<noteq> []"
  defines "n \<equiv> min (4096 - unat va mod 4096) (length src)"
  shows "copyout_turn root (va, src) s =
    (if upage (mem s) root va = 0 then Done (Inr (-1)) s
     else Done (Inl (PGROUNDDOWN va + PGSIZE, drop n src))
            (s\<lparr>mem := put_bytes (phys (mem s) root va) (take n src) (mem s)\<rparr>))"
proof -
  have n_small: "n mod 2 ^ 32 = n" by (simp add: n_def)
  show ?thesis
    using assms(4) walkaddr_va0 [OF assms(1-3)] n_small
    by (simp add: copyout_turn_def run chunk_small [OF assms(3)] va0_of_small [OF assms(3)] page_offset phys_def n_def Let_def)
qed

lemma copyin_turn_run:
  assumes "pt_wf N (mem s)" "N root = Some 2" "unat va < 2 ^ 32" "len \<noteq> 0"
  defines "n \<equiv> min (4096 - unat va mod 4096) len"
  shows "copyin_turn root (va, len, acc) s =
    (if upage (mem s) root va = 0 then Done (Inr (-1, acc)) s
     else Done (Inl (PGROUNDDOWN va + PGSIZE, len - n, acc @ get_bytes (phys (mem s) root va) n (mem s))) s)"
  using assms(4) walkaddr_va0 [OF assms(1-3)]
  by (simp add: copyin_turn_def run chunk_small [OF assms(3)] va0_of_small [OF assms(3)] page_offset phys_def n_def Let_def)

text \<open>A part of a range, and what is left of one after the chunk in its first page.\<close>

lemma user_range_sub:
  assumes "user_range N m root va n" "c + k \<le> n"
  shows "user_range N m root (va + of_nat c) k"
proof -
  have e: "va + of_nat c + of_nat i = va + of_nat (c + i)" for i by simp
  have inj: "inj_on (\<lambda>i. phys m root (va + of_nat i)) {i. i < n \<and> upage m root (va + of_nat i) \<noteq> 0}"
    using assms(1) by (simp add: user_range_def)
  have "inj_on (\<lambda>i. phys m root (va + of_nat (c + i))) {i. i < k \<and> upage m root (va + of_nat (c + i)) \<noteq> 0}"
  proof (rule inj_onI)
    fix x y
    assume xy: "x \<in> {i. i < k \<and> upage m root (va + of_nat (c + i)) \<noteq> 0}"
      "y \<in> {i. i < k \<and> upage m root (va + of_nat (c + i)) \<noteq> 0}"
      "phys m root (va + of_nat (c + x)) = phys m root (va + of_nat (c + y))"
    from inj_onD [OF inj xy(3)] xy(1,2) assms(2) show "x = y" by auto
  qed
  moreover have "N (upage m root (va + of_nat (c + i))) = None" if "i < k" for i
    using assms that unfolding user_range_def by (metis add_less_cancel_left order_less_le_trans)
  moreover have "unat (va + of_nat c) \<le> unat va + c" using assms by (simp add: user_range_def unat_word_ariths unat_of_nat)
  ultimately show ?thesis
    using assms unfolding user_range_def e by simp
qed

lemma next_range:
  assumes "user_range N m root va n" "4096 - unat va mod 4096 < n"
  defines "c \<equiv> 4096 - unat va mod 4096"
  shows "user_range N m root (va + of_nat c) (n - c)"
  using assms(2,3) by (intro user_range_sub [OF assms(1)]) simp

lemma range_chunk:
  assumes "user_range N m root va n" "i < n" "i < 4096 - unat va mod 4096"
  shows "phys m root (va + of_nat i) = phys m root va + of_nat i" "upage m root (va + of_nat i) = upage m root va"
  using assms by (auto simp: user_range_def intro!: phys_in_chunk)

lemma user_range_same:
  assumes "pt_wf N m" "same_ents N m m'" "N root = Some 2"
  shows "user_range N m' root va n = user_range N m root va n"
  by (simp add: user_range_def upage_same [OF assms])

text \<open>
  The outcome of a copy of \<open>n\<close> bytes: the number \<open>k\<close> of bytes that lie below the first page
  that is not mapped, and the status.
\<close>

definition reach :: "memory \<Rightarrow> u64 \<Rightarrow> u64 \<Rightarrow> nat \<Rightarrow> nat \<Rightarrow> bool" where
  "reach m root va n k \<longleftrightarrow> k \<le> n \<and> (\<forall>i<k. upage m root (va + of_nat i) \<noteq> 0) \<and>
     (k < n \<longrightarrow> upage m root (va + of_nat k) = 0)"

lemma reach_add:
  assumes "reach m root (va + of_nat c) (n - c) k" "c \<le> n" "\<And>i. i < c \<Longrightarrow> upage m root (va + of_nat i) \<noteq> 0"
  shows "reach m root va n (c + k)"
proof -
  have "upage m root (va + of_nat i) \<noteq> 0" if "i < c + k" for i
  proof (cases "i < c")
    case False
    then obtain j where "i = c + j" "j < k" using \<open>i < c + k\<close> by (metis add_less_cancel_left le_add_diff_inverse not_less)
    then show ?thesis using assms(1) by (simp add: reach_def add.assoc)
  qed (rule assms(3))
  then show ?thesis using assms(1,2) by (auto simp: reach_def add.assoc)
qed

lemma same_ents_user:
  assumes "pt_wf N m" "user_range N m root va n" "wrote m m' (\<lambda>i. phys m root (va + of_nat i)) bs" "length bs \<le> n"
  shows "same_ents N m m'"
proof (rule same_ents_write [OF assms(1,3)])
  fix i
  assume "i < length bs"
  then have "N (upage m root (va + of_nat i)) = None" using assms(2,4) by (simp add: user_range_def)
  then show "\<exists>q. page_aligned q \<and> N q = None \<and> page_of (phys m root (va + of_nat i)) = page_of q"
    using page_of_phys page_aligned_upage by blast
qed

lemma copyout_chunk:
  assumes "pt_wf N (mem s)" "N root = Some 2" "user_range N (mem s) root va (length src)"
    and "upage (mem s) root va \<noteq> 0" "c \<le> 4096 - unat va mod 4096" "c \<le> length src"
  defines "m' \<equiv> put_bytes (phys (mem s) root va) (take c src) (mem s)"
  shows "wrote (mem s) m' (\<lambda>i. phys (mem s) root (va + of_nat i)) (take c src)" "same_ents N (mem s) m'"
proof -
  note ch = range_chunk [OF assms(3)]
  show w: "wrote (mem s) m' (\<lambda>i. phys (mem s) root (va + of_nat i)) (take c src)"
    unfolding m'_def using assms(5,6) by (intro wrote_put_bytes) (auto simp: ch)
  show "same_ents N (mem s) m'"
    using same_ents_user [OF assms(1,3) w] by simp
qed

lemma wrote_chunks:
  assumes "wrote m m1 f (take c src)" "wrote m1 m2 (\<lambda>i. f (c + i)) (take k (drop c src))"
    and "c + k \<le> length src" "inj_on f {..<c + k}"
  shows "wrote m m2 f (take (c + k) src)"
proof -
  have l: "length (take c src) = c" "length (take k (drop c src)) = k" using assms(3) by simp_all
  have "wrote m m2 f (take c src @ take k (drop c src))"
    using assms(2,4) by (intro wrote_append [OF assms(1)]) (simp_all only: l)
  then show ?thesis by (simp only: take_add)
qed

lemma inj_on_reach:
  assumes "user_range N m root va n" "reach m root va n k"
  shows "inj_on (\<lambda>i. phys m root (va + of_nat i)) {..<k}"
proof (rule inj_on_subset)
  show "inj_on (\<lambda>i. phys m root (va + of_nat i)) {i. i < n \<and> upage m root (va + of_nat i) \<noteq> 0}"
    using assms(1) by (simp add: user_range_def)
  show "{..<k} \<subseteq> {i. i < n \<and> upage m root (va + of_nat i) \<noteq> 0}"
    using assms(2) by (auto simp: reach_def)
qed

text \<open>The outcome of \<^verbatim>\<open>copyout()\<close>, and how that of a first chunk and that of the rest join.\<close>

definition copied :: "nodes \<Rightarrow> memory \<Rightarrow> u64 \<Rightarrow> u64 \<Rightarrow> u8 list \<Rightarrow> nat \<Rightarrow> memory \<Rightarrow> bool" where
  "copied N m root va src k m' \<longleftrightarrow> reach m root va (length src) k \<and>
     wrote m m' (\<lambda>i. phys m root (va + of_nat i)) (take k src) \<and> same_ents N m m'"

lemma copied_join:
  assumes "pt_wf N m" "N root = Some 2" "user_range N m root va (length src)" "c \<le> length src"
    and "\<And>i. i < c \<Longrightarrow> upage m root (va + of_nat i) \<noteq> 0"
    and "wrote m m1 (\<lambda>i. phys m root (va + of_nat i)) (take c src)" "same_ents N m m1"
    and "copied N m1 root (va + of_nat c) (drop c src) k m2"
  shows "copied N m root va src (c + k) m2"
proof -
  note same = upage_same [OF assms(1,7,2)]
  have r: "reach m root (va + of_nat c) (length src - c) k"
    using assms(8) by (simp add: copied_def reach_def same)
  then have rc: "reach m root va (length src) (c + k)" using assms(4,5) by (intro reach_add) simp_all
  have "wrote m1 m2 (\<lambda>i. phys m root (va + of_nat (c + i))) (take k (drop c src))"
    using assms(8) by (simp add: copied_def same add.assoc)
  then have "wrote m m2 (\<lambda>i. phys m root (va + of_nat i)) (take (c + k) src)"
    using rc inj_on_reach [OF assms(3) rc] by (intro wrote_chunks [OF assms(6)]) (simp_all add: reach_def)
  moreover have "same_ents N m m2" using assms(7,8) by (simp add: same_ents_def copied_def)
  ultimately show ?thesis using rc by (simp add: copied_def)
qed

lemma copyout_loop:
  assumes "pt_wf N (mem s)" "N root = Some 2" "user_range N (mem s) root va (length src)" "length src < fuel"
  shows "\<exists>k m'. loopM fuel (copyout_turn root) (va, src) s =
      Done (if k = length src then 0 else -1) (s\<lparr>mem := m'\<rparr>) \<and> copied N (mem s) root va src k m'"
  using assms
proof (induction fuel arbitrary: va src s)
  case (Suc fuel)
  define m where "m = mem s"
  define c where "c = min (4096 - unat va mod 4096) (length src)"
  define m1 where "m1 = put_bytes (phys m root va) (take c src) m"
  show ?case
  proof (cases "src = [] \<or> upage m root va = 0")
    case True
    have "copyout_turn root (va, src) s = Done (Inr (if src = [] then 0 else -1)) s"
    proof (cases "src = []")
      case False
      then have "unat va < 2 ^ 32" using Suc.prems(3) by (cases src) (simp_all add: user_range_def)
      then show ?thesis using True False copyout_turn_run [OF Suc.prems(1,2)] by (simp add: m_def)
    qed (simp add: copyout_turn_def run)
    then show ?thesis using True
      by (intro exI [of _ 0] exI [of _ m]) (auto simp: run copied_def reach_def wrote_def same_ents_def m_def)
  next
    case False
    then have v: "unat va < 2 ^ 32" using Suc.prems(3) by (cases src) (simp_all add: user_range_def)
    have c: "c \<le> 4096 - unat va mod 4096" "c \<le> length src" by (simp_all add: c_def)
    have turn: "copyout_turn root (va, src) s =
        Done (Inl (va + of_nat (4096 - unat va mod 4096), drop c src)) (s\<lparr>mem := m1\<rparr>)"
      using False copyout_turn_run [OF Suc.prems(1,2) v] by (simp add: next_page m_def m1_def c_def)
    note w = copyout_chunk [OF Suc.prems(1-3) _ c, folded m_def, folded m1_def]
    have up: "upage m root va \<noteq> 0" using False by simp
    note w = w [OF up]
    have near: "upage m root (va + of_nat i) \<noteq> 0" if "i < c" for i
      using range_chunk(2) [OF Suc.prems(3), of i] that up c by (simp add: m_def)
    show ?thesis
    proof (cases "c = length src")
      case True
      obtain g where g: "fuel = Suc g" using Suc.prems(4) False by (cases fuel) auto
      have "copied N m root va src (length src) m1" using near w True by (simp add: copied_def reach_def)
      then show ?thesis
        using turn True by (intro exI [of _ "length src"] exI [of _ m1]) (simp add: run g copyout_turn_def m_def)
    next
      case far: False
      then have cc: "c = 4096 - unat va mod 4096" "c < length src" by (auto simp: c_def min_def split: if_splits)
      have wf: "pt_wf N (mem (s\<lparr>mem := m1\<rparr>))"
        using pt_wf_same [OF Suc.prems(1)] w(2) by (simp add: m_def)
      have rg: "user_range N (mem (s\<lparr>mem := m1\<rparr>)) root (va + of_nat c) (length (drop c src))"
        using next_range [OF Suc.prems(3)] cc user_range_same [OF Suc.prems(1) w(2) [unfolded m_def] Suc.prems(2)]
        by simp
      have "length (drop c src) < fuel" using Suc.prems(4) cc c mod_less_divisor [of 4096 "unat va"] by auto
      from Suc.IH [OF wf Suc.prems(2) rg this] obtain k m2 where
        k: "loopM fuel (copyout_turn root) (va + of_nat c, drop c src) (s\<lparr>mem := m1\<rparr>) =
            Done (if k = length src - c then 0 else -1) (s\<lparr>mem := m2\<rparr>)"
          "copied N m1 root (va + of_nat c) (drop c src) k m2" by auto
      have "copied N m root va src (c + k) m2"
        using Suc.prems(1-3) less_imp_le [OF cc(2)] near w k(2) by (intro copied_join [of N m root va src c m1]) (simp_all add: m_def)
      then show ?thesis
        using turn k(1) cc by (intro exI [of _ "c + k"] exI [of _ m2]) (auto simp: run m_def)
    qed
  qed
qed simp

text \<open>\<^verbatim>\<open>copyin()\<close> changes nothing and returns the bytes it reaches.\<close>

definition ubytes :: "memory \<Rightarrow> u64 \<Rightarrow> u64 \<Rightarrow> nat \<Rightarrow> u8 list" where
  "ubytes m root va n = map (\<lambda>i. m (phys m root (va + of_nat i))) [0..<n]"

lemma ubytes_add: "ubytes m root va (c + k) = ubytes m root va c @ ubytes m root (va + of_nat c) k"
  by (rule nth_equalityI) (auto simp: ubytes_def nth_append algebra_simps simp flip: of_nat_add)

lemma ubytes_chunk:
  assumes "unat va + c \<le> 2 ^ 32" "c \<le> 4096 - unat va mod 4096"
  shows "get_bytes (phys m root va) c m = ubytes m root va c"
  using assms phys_in_chunk(1) [of va _ m root] by (auto simp: get_bytes_def ubytes_def)

lemma copyin_loop:
  assumes "pt_wf N (mem s)" "N root = Some 2" "unat va + n \<le> 2 ^ 32" "n < fuel"
  shows "\<exists>k. loopM fuel (copyin_turn root) (va, n, acc) s =
      Done (if k = n then 0 else -1, acc @ ubytes (mem s) root va k) s \<and> reach (mem s) root va n k"
  using assms(3,4)
proof (induction fuel arbitrary: va n acc)
  case (Suc fuel)
  define c where "c = min (4096 - unat va mod 4096) n"
  show ?case
  proof (cases "n = 0 \<or> upage (mem s) root va = 0")
    case True
    have "copyin_turn root (va, n, acc) s = Done (Inr (if n = 0 then 0 else -1, acc)) s"
    proof (cases "n = 0")
      case False
      then show ?thesis using True Suc.prems(1) copyin_turn_run [OF assms(1,2)] by simp
    qed (simp add: copyin_turn_def run)
    then show ?thesis using True by (intro exI [of _ 0]) (auto simp: run reach_def ubytes_def)
  next
    case False
    have c: "c \<le> 4096 - unat va mod 4096" "c \<le> n" "0 < c"
      using False mod_less_divisor [of 4096 "unat va"] by (simp_all add: c_def)
    have v: "unat va < 2 ^ 32" "unat va + c \<le> 2 ^ 32" using False Suc.prems(1) c(2) by simp_all
    have turn: "copyin_turn root (va, n, acc) s =
        Done (Inl (va + of_nat (4096 - unat va mod 4096), n - c, acc @ ubytes (mem s) root va c)) s"
      using False copyin_turn_run [OF assms(1,2) v(1)] ubytes_chunk [OF v(2) c(1)] by (simp add: next_page c_def)
    have near: "upage (mem s) root (va + of_nat i) \<noteq> 0" if "i < c" for i
      using phys_in_chunk(2) [of va i] v(2) c(1) that False by simp
    show ?thesis
    proof (cases "c = n")
      case True
      obtain g where "fuel = Suc g" using Suc.prems(2) c by (cases fuel) auto
      then show ?thesis
        using turn True near by (intro exI [of _ n]) (simp add: run copyin_turn_def reach_def)
    next
      case far: False
      then have cc: "c = 4096 - unat va mod 4096" "c < n" by (auto simp: c_def min_def split: if_splits)
      have "unat (va + of_nat c) = unat va + c" using Suc.prems(1) cc(2) by (simp add: unat_word_ariths unat_of_nat)
      then have "unat (va + of_nat c) + (n - c) \<le> 2 ^ 32" "n - c < fuel" using Suc.prems c by linarith+
      from Suc.IH [OF this, of "acc @ ubytes (mem s) root va c"] obtain k where
        k: "loopM fuel (copyin_turn root) (va + of_nat c, n - c, acc @ ubytes (mem s) root va c) s =
            Done (if k = n - c then 0 else -1, acc @ ubytes (mem s) root va (c + k)) s"
          "reach (mem s) root (va + of_nat c) (n - c) k"
        by (auto simp: ubytes_add)
      have "reach (mem s) root va n (c + k)" by (rule reach_add [OF k(2) c(2) near])
      then show ?thesis using turn k(1) cc by (intro exI [of _ "c + k"]) (auto simp: run)
    qed
  qed
qed simp

lemma copyin_reads:
  assumes "pt_wf N (mem s)" "N root = Some 2" "unat va + n \<le> 2 ^ 32"
  shows "\<exists>k. copyin root va n s = Done (if k = n then 0 else -1, ubytes (mem s) root va k) s \<and> reach (mem s) root va n k"
  using copyin_loop [OF assms, of "Suc n" "[]"] by (simp add: copyin_def)

lemma copyout_copied:
  assumes "pt_wf N (mem s)" "N root = Some 2" "user_range N (mem s) root va (length src)"
  shows "\<exists>k m'. copyout root va src s = Done (if k = length src then 0 else -1) (s\<lparr>mem := m'\<rparr>) \<and>
    copied N (mem s) root va src k m'"
  using copyout_loop [OF assms, of "Suc (length src)"] by (simp add: copyout_def)

lemma reach_all: "reach m root va n k \<Longrightarrow> (\<forall>i<n. upage m root (va + of_nat i) \<noteq> 0) \<Longrightarrow> k = n"
  by (auto simp: reach_def)

lemma ubytes_wrote:
  assumes "pt_wf N m" "N root = Some 2" "copied N m root va src (length src) m'"
  shows "ubytes m' root va (length src) = src"
proof -
  have "same_ents N m m'" "wrote m m' (\<lambda>i. phys m root (va + of_nat i)) src" using assms(3) by (simp_all add: copied_def)
  then show ?thesis
    using upage_same(2) [OF assms(1) _ assms(2)] by (intro nth_equalityI) (simp_all add: ubytes_def wrote_def)
qed

text \<open>4 GB above, the cast gives the same page: the upper half of the address goes into the offset.\<close>

lemma va0_of_high:
  assumes "unat va < 2 ^ 32"
  shows "va0_of (2 ^ 32 + va) = PGROUNDDOWN va"
proof -
  have "unat (2 ^ 32 + va) = unat va mod 4096 + 4096 * (2 ^ 20 + unat va div 4096)"
    using assms by (simp add: unat_word_ariths)
  then have "unat (2 ^ 32 + va) div 4096 = 2 ^ 20 + unat va div 4096" by (simp only: div_mult_self2)
  then have "unat (PGROUNDDOWN (2 ^ 32 + va)) = 4096 * (unat va div 4096) + 2 ^ 32" by (simp add: unat_PGROUNDDOWN)
  moreover have "4096 * (unat va div 4096) < 2 ^ 32" using assms by simp
  moreover have "unat (ucast w :: u32) = unat w mod 2 ^ 32" for w :: u64
    unfolding unsigned_ucast_eq take_bit_nat_def by simp
  ultimately have "unat (va0_of (2 ^ 32 + va)) = unat (PGROUNDDOWN va)"
    unfolding va0_of_def unat_ucast_u32_u64 by (simp add: unat_PGROUNDDOWN)
  then show ?thesis by (rule unsigned_word_eqI)
qed

section \<open>Properties\<close>

lemma demo_upage:
  assumes "unat va < 2 ^ 21"
  shows "upage demo_mem ROOT va = (if page_of va = 1 then 0x80006000 else 0)"
proof -
  have "PTE2PA (PA2PTE 0x80006000 OR (PTE_R OR PTE_W OR PTE_U OR PTE_V)) = 0x80006000"
    by (simp add: PTE2PA_def PA2PTE_def PTE_R_def PTE_W_def PTE_U_def PTE_V_def)
  moreover have "(PA2PTE 0x80006000 OR (PTE_R OR PTE_W OR PTE_U OR PTE_V)) AND PTE_U \<noteq> 0"
    by (simp add: PA2PTE_def PTE_R_def PTE_W_def PTE_U_def PTE_V_def)
  moreover have "valid (PA2PTE 0x80006000 OR (PTE_R OR PTE_W OR PTE_U OR PTE_V))"
    by (simp add: valid_def PA2PTE_def PTE_R_def PTE_W_def PTE_U_def PTE_V_def)
  ultimately show ?thesis using assms by (simp add: upage_def demo_pte valid_bit Let_def)
qed

lemma demo_pt: "pt_wf demo_nodes (mem demo_kmem)" "mem demo_kmem = demo_mem"
  using demo_wf by (simp_all add: demo_kmem_def)

lemma demo_user_range:
  assumes "unat va + n < 2 ^ 21"
  shows "user_range demo_nodes demo_mem ROOT va n"
proof -
  have u: "unat (va + of_nat i) = unat va + i" "unat (va + of_nat i) < 2 ^ 21" if "i < n" for i
    using assms that by (simp_all add: unat_word_ariths unat_of_nat)
  have "x = y" if "x < n" "y < n" "page_of (va + of_nat x) = 1" "page_of (va + of_nat y) = 1"
    "unat (va + of_nat x) mod 4096 = unat (va + of_nat y) mod 4096" for x y
  proof -
    have "unat (va + of_nat x) = unat (va + of_nat y)"
      using that(3-5) unfolding page_of_def by (metis div_mult_mod_eq)
    then show ?thesis using u that(1,2) by simp
  qed
  moreover have "unat (of_nat (unat a mod 4096) :: u64) = unat a mod 4096" for a :: u64
    by (rule unat_of_nat_u64) (simp add: less_trans [OF mod_less_divisor])
  then have "unat a mod 4096 = unat b mod 4096" if "(of_nat (unat a mod 4096) :: u64) = of_nat (unat b mod 4096)" for a b :: u64
    using that by metis
  ultimately have "inj_on (\<lambda>i. phys demo_mem ROOT (va + of_nat i)) {i. i < n \<and> upage demo_mem ROOT (va + of_nat i) \<noteq> 0}"
    using u(2) by (auto simp: inj_on_def phys_def demo_upage split: if_splits)
  moreover have "demo_nodes 0x80006000 = None" "demo_nodes 0 = None" by (simp_all add: demo_nodes_def ROOT_def)
  then have "demo_nodes (upage demo_mem ROOT (va + of_nat i)) = None" if "i < n" for i
    using u(2) [OF that] by (simp add: demo_upage)
  ultimately show ?thesis using assms by (simp add: user_range_def)
qed

text \<open>
  C9: \<^verbatim>\<open>copyout()\<close> for a destination below 4 GB.  It writes the longest prefix of the
  bytes whose user pages are mapped: each byte to the frame that the page table gives for its user
  address, no other byte of memory and no entry of any page table.  It returns 0 if that is all of
  them and -1 if it came to a page that is not mapped, and touches no other part of the machine.
\<close>

theorem copyout_writes:
  assumes "pt_wf N (mem s)" and "N root = Some 2" and "user_range N (mem s) root va (length src)"
  shows "\<exists>k m'. copyout root va src s = Done (if k = length src then 0 else -1) (s\<lparr>mem := m'\<rparr>) \<and>
    k \<le> length src \<and> (\<forall>i<k. upage (mem s) root (va + of_nat i) \<noteq> 0) \<and>
    (k < length src \<longrightarrow> upage (mem s) root (va + of_nat k) = 0) \<and>
    (\<forall>i<k. m' (phys (mem s) root (va + of_nat i)) = src ! i) \<and>
    (\<forall>a. (\<forall>i<k. a \<noteq> phys (mem s) root (va + of_nat i)) \<longrightarrow> m' a = mem s a) \<and>
    (\<forall>r x. N r = Some 2 \<longrightarrow> pte_of m' r x = pte_of (mem s) r x)"
proof -
  from copyout_copied [OF assms] obtain k m' where
    c: "copyout root va src s = Done (if k = length src then 0 else -1) (s\<lparr>mem := m'\<rparr>)"
      "copied N (mem s) root va src k m'" by blast
  have r: "reach (mem s) root va (length src) k" "same_ents N (mem s) m'"
    and w: "wrote (mem s) m' (\<lambda>i. phys (mem s) root (va + of_nat i)) (take k src)"
    using c(2) by (simp_all add: copied_def)
  have "length (take k src) = k" using r(1) by (simp add: reach_def)
  then have "(\<forall>i<k. m' (phys (mem s) root (va + of_nat i)) = src ! i)"
      "(\<forall>a. (\<forall>i<k. a \<noteq> phys (mem s) root (va + of_nat i)) \<longrightarrow> m' a = mem s a)"
    using w by (simp_all add: wrote_def)
  moreover have "\<forall>r x. N r = Some 2 \<longrightarrow> pte_of m' r x = pte_of (mem s) r x"
    using pte_at_same [OF assms(1) r(2)] by (simp add: pte_of_def)
  ultimately show ?thesis using c(1) r(1) unfolding reach_def by blast
qed

theorem copyout_writes_witness:
  "\<exists>m'. copyout ROOT 0x1FFE [1, 2, 3] demo_kmem = Done (-1) (demo_kmem\<lparr>mem := m'\<rparr>) \<and>
    m' 0x80006FFE = 1 \<and> m' 0x80006FFF = 2"
proof -
  have l: "length [1, 2, 3 :: u8] = 3" by simp
  have "user_range demo_nodes (mem demo_kmem) ROOT 0x1FFE (length [1, 2, 3 :: u8])"
    unfolding demo_pt(2) by (rule demo_user_range) simp
  from copyout_writes [OF demo_pt(1) demo_state(2) this] obtain k m' where
    k: "copyout ROOT 0x1FFE [1, 2, 3] demo_kmem = Done (if k = 3 then 0 else -1) (demo_kmem\<lparr>mem := m'\<rparr>)" "k \<le> 3"
      "\<forall>i<k. upage demo_mem ROOT (0x1FFE + of_nat i) \<noteq> 0" "k < 3 \<longrightarrow> upage demo_mem ROOT (0x1FFE + of_nat k) = 0"
      "\<forall>i<k. m' (phys demo_mem ROOT (0x1FFE + of_nat i)) = [1, 2, 3] ! i"
    unfolding demo_pt(2) l by blast
  have u: "upage demo_mem ROOT 0x1FFE = 0x80006000" "upage demo_mem ROOT 0x1FFF = 0x80006000" "upage demo_mem ROOT 0x2000 = 0"
    by (simp_all add: demo_upage page_of_def)
  have "k = 0 \<or> k = 1 \<or> k = 2 \<or> k = 3" using k(2) by linarith
  moreover have "k \<noteq> 0"
  proof
    assume "k = 0"
    then show False using k(4) u(1) by simp
  qed
  moreover have "k \<noteq> 1"
  proof
    assume "k = 1"
    then show False using k(4) u(2) by simp
  qed
  moreover have "k \<noteq> 3" using k(3) u(3) by (auto dest!: spec [of _ 2])
  ultimately have "k = 2" by blast
  then show ?thesis using k(1) k(5) [rule_format, of 0] k(5) [rule_format, of 1] u by (auto simp: phys_def)
qed

text \<open>
  C10: what \<^verbatim>\<open>copyout()\<close> writes to user memory \<^verbatim>\<open>copyin()\<close> reads back: if the
  pages of a range below 4 GB are mapped, to frames that are not shared and not page tables, both
  succeed and the second returns the bytes given to the first.
\<close>

theorem copyin_copyout:
  assumes "pt_wf N (mem s)" and "N root = Some 2" and "user_range N (mem s) root va (length src)"
    and "\<forall>i<length src. upage (mem s) root (va + of_nat i) \<noteq> 0"
  shows "\<exists>t. copyout root va src s = Done 0 t \<and> copyin root va (length src) t = Done (0, src) t"
proof -
  from copyout_copied [OF assms(1-3)] obtain k m' where
    c: "copyout root va src s = Done (if k = length src then 0 else -1) (s\<lparr>mem := m'\<rparr>)"
      "copied N (mem s) root va src k m'" by blast
  have k: "k = length src" using c(2) reach_all [OF _ assms(4)] by (simp add: copied_def)
  have e: "same_ents N (mem s) m'" using c(2) by (simp add: copied_def)
  let ?t = "s\<lparr>mem := m'\<rparr>"
  have wf: "pt_wf N (mem ?t)" using pt_wf_same [OF assms(1) e] by simp
  have b: "unat va + length src \<le> 2 ^ 32" using assms(3) by (simp add: user_range_def)
  from copyin_reads [OF wf assms(2) b] obtain j where
    j: "copyin root va (length src) ?t = Done (if j = length src then 0 else -1, ubytes m' root va j) ?t"
      "reach m' root va (length src) j" by auto
  have "j = length src" using reach_all [OF j(2)] assms(4) upage_same(1) [OF assms(1) e assms(2)] by simp
  then show ?thesis using c k j(1) ubytes_wrote [OF assms(1,2)] by auto
qed

theorem copyin_copyout_witness:
  "\<exists>t. copyout ROOT 0x1010 [7, 8, 9] demo_kmem = Done 0 t \<and> copyin ROOT 0x1010 3 t = Done (0, [7, 8, 9]) t"
proof -
  have r: "user_range demo_nodes (mem demo_kmem) ROOT 0x1010 (length [7, 8, 9 :: u8])"
    unfolding demo_pt(2) by (rule demo_user_range) simp
  have "upage (mem demo_kmem) ROOT (0x1010 + of_nat i) \<noteq> 0" if "i < 3" for i
  proof -
    have "unat (0x1010 + of_nat i :: u64) = 0x1010 + i" using that by (simp add: unat_word_ariths unat_of_nat)
    then show ?thesis using that by (simp add: demo_upage page_of_def demo_pt(2))
  qed
  then show ?thesis using copyin_copyout [OF demo_pt(1) demo_state(2) r] by (simp add: numeral_3_eq_3)
qed

end
