(* ===== verification/Ring.thy ===== *)
theory Ring
  imports Prelude
begin

text \<open>
  Ring buffers with free-running 32-bit counters, as the pipes (\<^verbatim>\<open>kernel/pipe.c\<close>) and the
  console input (\<^verbatim>\<open>kernel/console.c\<close>) have them: a counter is reduced modulo the size of the
  buffer only to index it, and may wrap around.
\<close>

section \<open>The content of a ring buffer\<close>

text \<open>The number of bytes between the counters \<open>r\<close> and \<open>w\<close>, and the bytes, oldest first.\<close>

definition ring_used :: "u32 \<Rightarrow> u32 \<Rightarrow> nat" where
  "ring_used r w = unat (w - r)"

definition ring_queue :: "nat \<Rightarrow> (nat \<Rightarrow> u8) \<Rightarrow> u32 \<Rightarrow> u32 \<Rightarrow> u8 list" where
  "ring_queue cap d r w = map (\<lambda>i. d (unat (r + of_nat i) mod cap)) [0..<ring_used r w]"

section \<open>The interface\<close>

text \<open>All it takes for the wrap-around to be harmless is that the size divides \<open>2 ^ 32\<close>.\<close>

locale ring_buffer =
  fixes cap :: nat
  assumes cap_pos: "0 < cap" and cap_less: "cap < 2 ^ 32" and cap_dvd: "cap dvd 2 ^ 32"
begin

lemma length_queue [simp]: "length (ring_queue cap d r w) = ring_used r w"
  by (simp add: ring_queue_def)

lemma empty_iff: "r = w \<longleftrightarrow> ring_queue cap d r w = []"
  by (auto simp: ring_queue_def ring_used_def unat_eq_0)

lemma unat_mod_cap: "unat ((r :: u32) + of_nat i) mod cap = (unat r + i) mod cap"
proof -
  have "unat (r + of_nat i) = (unat r + i) mod 2 ^ 32"
    by (simp add: unat_word_ariths unat_of_nat mod_simps)
  then show ?thesis using mod_mod_cancel [OF cap_dvd] by metis
qed

lemma word_used: "w = r + of_nat (ring_used r w)"
  by (simp add: ring_used_def)

lemma used_Suc: "ring_used r w < cap \<Longrightarrow> ring_used r (w + 1) = Suc (ring_used r w)"
proof -
  assume "ring_used r w < cap"
  then have "unat (w - r) + 1 < 2 ^ 32" using cap_less by (simp add: ring_used_def)
  then have "unat (w - r + 1) = unat (w - r) + 1" by (simp add: unat_word_ariths)
  then show ?thesis by (simp add: ring_used_def algebra_simps)
qed

lemma used_pred: "r \<noteq> w \<Longrightarrow> ring_used r w = Suc (ring_used (r + 1) w)" "r \<noteq> w \<Longrightarrow> ring_used r w = Suc (ring_used r (w - 1))"
proof -
  have *: "unat (x - 1) = unat x - 1" "0 < unat x" if "x \<noteq> 0" for x :: u32
    using that by (simp_all add: unat_minus_one unat_gt_0)
  assume "r \<noteq> w"
  then have "w - r \<noteq> 0" by simp
  from * [OF this] show "ring_used r w = Suc (ring_used (r + 1) w)" "ring_used r w = Suc (ring_used r (w - 1))"
    by (simp_all add: ring_used_def algebra_simps)
qed

lemma full_iff:
  assumes "ring_used r w \<le> cap"
  shows "w = r + of_nat cap \<longleftrightarrow> ring_used r w = cap"
proof
  assume "w = r + of_nat cap"
  then show "ring_used r w = cap" using cap_less by (simp add: ring_used_def unat_of_nat)
next
  assume "ring_used r w = cap"
  then show "w = r + of_nat cap" using word_used [of w r] by simp
qed

lemma index_inj:
  assumes "i < j" "j < cap"
  shows "(n + i) mod cap \<noteq> (n + j) mod cap"
proof
  assume "(n + i) mod cap = (n + j) mod cap"
  then have "cap dvd (n + j) - (n + i)" using assms(1) by (metis mod_eq_dvd_iff_nat add_le_cancel_left less_imp_le)
  then have "cap dvd j - i" by simp
  then have "cap \<le> j - i" using assms(1) by (intro dvd_imp_le) simp_all
  then show False using assms(2) by simp
qed

lemma put:
  assumes "ring_used r w < cap"
  shows "ring_queue cap (d(unat w mod cap := c)) r (w + 1) = ring_queue cap d r w @ [c]"
proof -
  have w: "unat w mod cap = (unat r + ring_used r w) mod cap"
    using unat_mod_cap [of r "ring_used r w"] word_used [of w r] by simp
  have "(d(unat w mod cap := c)) (unat (r + of_nat i) mod cap) = d (unat (r + of_nat i) mod cap)" if "i < ring_used r w" for i
    using index_inj [OF that assms, of "unat r"] by (simp add: w unat_mod_cap)
  moreover have "(d(unat w mod cap := c)) (unat (r + of_nat (ring_used r w)) mod cap) = c"
    using word_used [of w r] by simp
  ultimately show ?thesis by (simp add: ring_queue_def used_Suc [OF assms])
qed

lemma get:
  assumes "r \<noteq> w"
  shows "ring_queue cap d r w = d (unat r mod cap) # ring_queue cap d (r + 1) w"
proof -
  have "[0..<ring_used r w] = 0 # map Suc [0..<ring_used (r + 1) w]"
    using used_pred(1) [OF assms] by (simp add: map_Suc_upt upt_conv_Cons)
  then show ?thesis by (simp add: ring_queue_def algebra_simps)
qed

lemma unput:
  assumes "r \<noteq> w"
  shows "ring_queue cap d r (w - 1) = butlast (ring_queue cap d r w)"
  using used_pred(2) [OF assms] by (simp add: ring_queue_def butlast_append)

end

end
