(* ===== verification/Wait.thy ===== *)
theory Wait
  imports Sleeplock
begin

text \<open>
  More of the calculus of Sleeplock: runs that end by returning or by going to sleep, memory, the
  fields of the running process, and which processes a wakeup has woken.
\<close>

section \<open>Ending in the calculus\<close>

text \<open>Whatever a run from a state equivalent to \<open>s\<close> ends in satisfies \<open>P\<close>.\<close>

definition ends :: "('z pst_scheme, 'a) kop \<Rightarrow> 'z pst_scheme \<Rightarrow> (('a, 'z pst_scheme) outcome \<Rightarrow> bool) \<Rightarrow> bool" where
  "ends f s P \<longleftrightarrow> (\<forall>s0. eqv s s0 \<longrightarrow> P (f s0))"

lemma endsD: "ends f s P \<Longrightarrow> P (f s)"
  by (simp add: ends_def)

lemma ends_bnd: "does f s x s1 \<Longrightarrow> ends (g x) s1 P \<Longrightarrow> ends (bnd f g) s P"
  unfolding does_def ends_def by (fastforce simp: run)

lemma ends_thn: "does f s x s1 \<Longrightarrow> ends g s1 P \<Longrightarrow> ends (thn f g) s P"
  unfolding thn_def by (rule ends_bnd)

lemma ends_does: "does f s x s1 \<Longrightarrow> (\<And>t. eqv s1 t \<Longrightarrow> P (Done x t)) \<Longrightarrow> ends f s P"
  unfolding does_def ends_def by metis

lemma ends_loop: "does (body x) s (Inl y) s1 \<Longrightarrow> ends (loopM n body y) s1 P \<Longrightarrow> ends (loopM (Suc n) body x) s P"
  unfolding loopM.simps by (rule ends_bnd, assumption, simp)

lemma does_loop: "does (body x) s (Inl y) s1 \<Longrightarrow> does (loopM n body y) s1 r s2 \<Longrightarrow> does (loopM (Suc n) body x) s r s2"
  unfolding loopM.simps by (rule does_bnd, assumption, simp)

lemma does_loop_exit: "does (body x) s (Inr r) s1 \<Longrightarrow> does (loopM (Suc n) body x) s r s1"
  unfolding loopM.simps by (rule does_bnd, assumption, simp add: does_ret)

section \<open>Memory and the process\<close>

lemma calm_mem: "calm s t \<Longrightarrow> calm (s\<lparr>mem := m\<rparr>) (t\<lparr>mem := m\<rparr>)"
  by (simp add: calm_def)

lemma eqv_mem [eqvs]: "eqv s t \<Longrightarrow> mem t = mem s" "eqv s t \<Longrightarrow> eqv (s\<lparr>mem := m\<rparr>) (t\<lparr>mem := m\<rparr>)"
  unfolding eqv_def using calm_mem [of s t m] by (auto simp: calm_def)

lemma settled_mem [simp]: "settled L (s\<lparr>mem := m\<rparr>) = settled L s"
  by (simp add: settled_def irq_wf_def depth_def irq_on_def lk_clean_def)

lemma acq_mem [simp]: "(acq l s)\<lparr>mem := m\<rparr> = acq l (s\<lparr>mem := m\<rparr>)"
  by (simp add: acq_def irq_on_def)

lemma curproc_mem [simp]: "curproc (s\<lparr>mem := m\<rparr>) = curproc s"
  by (simp add: curproc_def)

lemma eqv_killed: "eqv s t \<Longrightarrow> p_killed (procs t p) = p_killed (procs s p) \<and> p_pagetable (procs t p) = p_pagetable (procs s p)"
  unfolding eqv_def calm_def proc_calm_def by (metis proc.select_convs proc.surjective proc.update_convs)

lemma does_killed: "does (get_proc p p_killed) s (p_killed (procs s p)) s"
  unfolding get_proc_def by (rule does_gets) (simp add: eqv_killed)

lemma does_mykilled:
  assumes "settled L s" "curproc s = Some p"
  shows "does (bnd curp (\<lambda>p. get_proc p p_killed)) s (p_killed (procs s p)) s"
  by (rule does_bnd [OF does_curp [OF assms]]) (rule does_killed)

lemma does_pagetable: "does (get_proc p p_pagetable) s (p_pagetable (procs s p)) s"
  unfolding get_proc_def by (rule does_gets) (simp add: eqv_killed)

section \<open>Sleeping and waking\<close>

definition sleeping :: "nat \<Rightarrow> chan \<Rightarrow> 'z pst_scheme \<Rightarrow> bool" where
  "sleeping p ch s \<longleftrightarrow> p_state (procs s p) = SLEEPING \<and> p_chan (procs s p) = Some ch"

definition awake :: "chan \<Rightarrow> 'z pst_scheme \<Rightarrow> bool" where
  "awake ch s \<longleftrightarrow> (\<forall>i<NPROC. \<not> sleeping i ch s)"

text \<open>A lock is held in a state equivalent to one in which it has just been taken.\<close>

lemma eqv_acq_held:
  assumes "settled {} s" and "eqv (acq l s) u"
  shows "irq_wf u" "depth u = depth s + 1" "0 < depth u" "lk_held l u" "curproc u = curproc s" "mem u = mem s"
    "pst.more u = pst.more s" "l' \<noteq> l \<Longrightarrow> lk_clean l' u"
proof -
  have bal: "hw_bal (acq l s) u" using assms(2) by (simp add: eqv_def calm_def)
  have wf: "irq_wf s" and cl: "lk_clean l' s" using assms(1) by (simp_all add: settled_def)
  show "irq_wf u" by (rule hw_bal_irq_wf [OF bal irq_wf_acq [OF wf]])
  show d: "depth u = depth s + 1" using bal by (simp add: hw_bal_def)
  show "0 < depth u" using wf d unfolding irq_wf_def by linarith
  show "lk_held l u" using hw_bal_lk [OF bal, of l] by simp
  show "curproc u = curproc s" using eqv_curproc [OF assms(2)] by simp
  show "mem u = mem s" using eqv_mem(1) [OF assms(2)] by simp
  show "pst.more u = pst.more s" using assms(2) by (simp add: eqv_def)
  show "l' \<noteq> l \<Longrightarrow> lk_clean l' u" using hw_bal_lk [OF bal, of l'] cl lk_clean_acq [of l' l s] by simp
qed

lemma wakeup_eqv:
  assumes "settled {} s" and "eqv (acq l s) u" and "\<forall>p. l \<noteq> ProcLock p"
  shows "\<exists>t. wakeup ch u = Done () t \<and> eqv (acq l s) t \<and> awake ch t"
proof -
  have "settled {l} u" using eqv_settled [OF assms(2)] settled_acq [OF assms(1), of l] by simp
  from wakeup_run [OF this, of ch] assms(3) obtain t where
    t: "wakeup ch u = Done () t" "calm u t" "pst.more t = pst.more u"
      "\<forall>i. procs t i = (if i < NPROC then wake ch (procs u i) else procs u i)" by auto
  have "eqv u t" using t(2,3) by (simp add: eqv_def)
  moreover have "awake ch t" using t(4) by (simp add: awake_def sleeping_def wake_def)
  ultimately show ?thesis using t(1) eqv_trans [OF assms(2)] by blast
qed

lemma release_eqv:
  assumes "settled {} s" and "eqv (acq l s) u"
  shows "\<exists>t. release l u = Done () t \<and> eqv s t \<and> procs t = procs u"
proof -
  have r: "release l u = Done () (rel l u)" using eqv_acq_held [OF assms] by (intro run_release)
  moreover have "eqv s (rel l u)" using does_release [OF assms(1), of l] assms(2) r by (auto simp: does_def)
  ultimately show ?thesis by simp
qed

lemma ends_wake_release:
  assumes "settled {} s" and "\<forall>p. l \<noteq> ProcLock p"
  shows "ends (thn (wakeup ch) (thn (release l) (ret v))) (acq l s) (\<lambda>r. \<exists>t. r = Done v t \<and> eqv s t \<and> awake ch t)"
  unfolding ends_def
proof (intro allI impI)
  fix u
  assume e: "eqv (acq l s) u"
  from wakeup_eqv [OF assms(1) e assms(2)] obtain w where w: "wakeup ch u = Done () w" "eqv (acq l s) w" "awake ch w" by blast
  from release_eqv [OF assms(1) w(2)] obtain t where t: "release l w = Done () t" "eqv s t" "procs t = procs w" by blast
  then show "\<exists>t. thn (wakeup ch) (thn (release l) (ret v)) u = Done v t \<and> eqv s t \<and> awake ch t"
    using w by (simp add: run awake_def sleeping_def)
qed

text \<open>
  The state in which a process has gone to sleep: the lock is free again, and nothing but the
  process has changed.
\<close>

definition slept :: "'z pst_scheme \<Rightarrow> nat \<Rightarrow> chan \<Rightarrow> lockid \<Rightarrow> 'z pst_scheme \<Rightarrow> bool" where
  "slept s p ch lk t \<longleftrightarrow> sleeping p ch t \<and> lk_free lk t \<and> mem t = mem s \<and> pst.more t = pst.more s"

lemma sleep_held:
  assumes "irq_wf u" and "depth u = 1" and "curproc u = Some p" and "lk_held lk u" and "lk \<noteq> ProcLock p"
    and "lk_clean (ProcLock p) u"
  shows "sleep ch lk u = Blocked ((rel lk (acq (ProcLock p) u))
    \<lparr>procs := upd (procs u) p (\<lambda>q. q\<lparr>p_chan := Some ch, p_state := SLEEPING\<rparr>)\<rparr>)"
proof -
  let ?v = "acq (ProcLock p) u"
  let ?t = "(rel lk ?v)\<lparr>procs := upd (procs u) p (\<lambda>q. q\<lparr>p_chan := Some ch, p_state := SLEEPING\<rparr>)\<rparr>"
  have off: "\<not> irq_on u" using assms(1,2) by (simp add: irq_wf_def)
  have a: "acquire (ProcLock p) u = Done () ?v"
    using assms(1,6) by (intro run_acquire lk_clean_free)
  have r: "release lk ?v = Done () (rel lk ?v)"
    using assms(1,2,4,5) lk_held_acq_other [of lk "ProcLock p" u] by (intro run_release) simp_all
  have "irq_on ?t = irq_on (rel lk ?v)" "depth ?t = depth (rel lk ?v)" "curproc ?t = curproc (rel lk ?v)"
      "lk_held (ProcLock p) ?t = lk_held (ProcLock p) (rel lk ?v)"
    by (simp_all add: irq_on_def depth_def curproc_def lk_held_def)
  then have "sched ?t = Blocked ?t"
    using assms(2,3,5) lk_held_rel_other [of "ProcLock p" lk ?v] irq_on_rel [of ?v lk]
    by (intro sched_blocks [where p = p]) simp_all
  then show ?thesis
    using run_curp_off [OF off _ assms(3)] assms(2,5) a r by (simp add: sleep_def sleep_steps_def run upd_proc_def)
qed

lemma sleep_eqv:
  assumes "settled {} s" and "depth s = 0" and "curproc s = Some p" and "eqv (acq lk s) u" and "\<forall>p. lk \<noteq> ProcLock p"
  shows "\<exists>t. sleep ch lk u = Blocked t \<and> slept s p ch lk t \<and> (\<forall>c. c \<noteq> ch \<longrightarrow> awake c u \<longrightarrow> awake c t)"
proof -
  let ?t = "(rel lk (acq (ProcLock p) u))\<lparr>procs := upd (procs u) p (\<lambda>q. q\<lparr>p_chan := Some ch, p_state := SLEEPING\<rparr>)\<rparr>"
  note h = eqv_acq_held [OF assms(1,4)]
  have "ProcLock p \<noteq> lk" using assms(5) by metis
  then have "sleep ch lk u = Blocked ?t"
    using h(1-5) h(8) [of "ProcLock p"] assms(2,3) by (intro sleep_held) auto
  moreover have "lk_free lk ?t" by (simp add: lk_free_def rel_def locks_rel_def)
  then have "slept s p ch lk ?t" using h by (simp add: slept_def sleeping_def)
  moreover have "awake c u \<longrightarrow> awake c ?t" if "c \<noteq> ch" for c
    using that by (auto simp: awake_def sleeping_def upd_def)
  ultimately show ?thesis by blast
qed

lemma ends_loop_exit:
  assumes "ends (body x) s (\<lambda>r. (\<exists>v t. r = Done (Inr v) t \<and> P (Done v t)) \<or> (\<exists>t. r = Blocked t \<and> P (Blocked t)))"
  shows "ends (loopM (Suc n) body x) s P"
  using assms by (auto simp: ends_def run)

lemma ends_mono: "ends f s P \<Longrightarrow> (\<And>r. P r \<Longrightarrow> Q r) \<Longrightarrow> ends f s Q"
  by (simp add: ends_def)

lemma settled_procs [simp]: "settled L (s\<lparr>procs := f\<rparr>) = settled L s"
  by (simp add: settled_def irq_wf_def depth_def irq_on_def lk_clean_def)

end
