(* ===== verification/Pipe.thy ===== *)
theory Pipe
  imports File UserMem Ring Wait
begin

text \<open>
  Pipes are first-in first-out: what \<^verbatim>\<open>pipewrite()\<close> and \<^verbatim>\<open>piperead()\<close> of
  \<^verbatim>\<open>kernel/pipe.c\<close> (modelled in File) do to the bytes in the pipe, to user memory and to the
  processes that sleep at its ends.
\<close>

section \<open>Pipes in the calculus\<close>

lemma more_pipes: "pst.more t = pst.more s \<Longrightarrow> pipes t = pipes s"
  by (cases s; cases t) simp

lemma more_pipes_upd: "pst.more t = pst.more s \<Longrightarrow> pst.more (t\<lparr>pipes := f\<rparr>) = pst.more (s\<lparr>pipes := f\<rparr>)"
  by (cases s; cases t) simp

lemma calm_pipes [simp]:
  "calm s (t\<lparr>pipes := f\<rparr>) = calm s t" "calm (s\<lparr>pipes := f\<rparr>) t = calm s t"
  by (simp_all add: calm_def hw_bal_def depth_def curproc_def irq_on_def)

lemma eqv_pipes [eqvs]: "eqv s t \<Longrightarrow> pipes t = pipes s" "eqv s t \<Longrightarrow> eqv (s\<lparr>pipes := f\<rparr>) (t\<lparr>pipes := f\<rparr>)"
  unfolding eqv_def using more_pipes more_pipes_upd by auto

lemma settled_pipes [simp]: "settled L (s\<lparr>pipes := f\<rparr>) = settled L s"
  by (simp add: settled_def irq_wf_def depth_def irq_on_def lk_clean_def)

lemma acq_pipes [simp]: "pipes (acq l s) = pipes s" "(acq l s)\<lparr>pipes := f\<rparr> = acq l (s\<lparr>pipes := f\<rparr>)"
  by (simp_all add: acq_def irq_on_def)

lemma curproc_pipes [simp]: "curproc (s\<lparr>pipes := f\<rparr>) = curproc s" "depth (s\<lparr>pipes := f\<rparr>) = depth s"
  by (simp_all add: curproc_def depth_def)

lemma does_get_pipe: "does (get_pipe pi g) s (g (pipes s pi)) s"
  unfolding get_pipe_def by (rule does_gets) (simp add: eqvs)

lemma does_upd_pipe: "does (upd_pipe pi f) s () (s\<lparr>pipes := upd (pipes s) pi f\<rparr>)"
  unfolding upd_pipe_def by (rule does_modify) (simp add: eqvs)

section \<open>One byte of user memory\<close>

lemma does_copyin1:
  assumes "pt_wf N (mem s)" "N root = Some 2" "unat va < 2 ^ 32"
  shows "does (copyin root va 1) s
    (if upage (mem s) root va = 0 then (-1, []) else (0, [mem s (phys (mem s) root va)])) s"
  unfolding does_def
proof (intro allI impI)
  fix u
  assume e: "eqv s u"
  then have m: "mem u = mem s" by (simp add: eqvs)
  obtain k where k: "copyin root va 1 u = Done (if k = 1 then 0 else -1, ubytes (mem s) root va k) u" "reach (mem s) root va 1 k"
    using copyin_reads [of N u root va 1] assms by (auto simp: m)
  have "k = 0 \<and> upage (mem s) root va = 0 \<or> k = 1 \<and> upage (mem s) root va \<noteq> 0"
    using k(2) by (cases k) (auto simp: reach_def)
  then have "copyin root va 1 u =
      Done (if upage (mem s) root va = 0 then (-1, []) else (0, [mem s (phys (mem s) root va)])) u"
    using k(1) by (auto simp: ubytes_def)
  then show "\<exists>t. copyin root va 1 u =
      Done (if upage (mem s) root va = 0 then (-1, []) else (0, [mem s (phys (mem s) root va)])) t \<and> eqv s t"
    using e by blast
qed

lemma does_copyout1:
  assumes "pt_wf N (mem s)" "N root = Some 2" "user_range N (mem s) root va 1"
  shows "does (copyout root va [b]) s (if upage (mem s) root va = 0 then -1 else 0)
    (if upage (mem s) root va = 0 then s else s\<lparr>mem := (mem s)(phys (mem s) root va := b)\<rparr>)"
  unfolding does_def
proof (intro allI impI)
  fix u
  assume e: "eqv s u"
  then have m: "mem u = mem s" by (simp add: eqvs)
  obtain k m' where k: "copyout root va [b] u = Done (if k = 1 then 0 else -1) (u\<lparr>mem := m'\<rparr>)"
      "copied N (mem s) root va [b] k m'"
    using copyout_copied [of N u root va "[b]"] assms by (auto simp: m)
  have r: "reach (mem s) root va 1 k" and w: "wrote (mem s) m' (\<lambda>i. phys (mem s) root (va + of_nat i)) (take k [b])"
    using k(2) by (simp_all add: copied_def)
  show "\<exists>t. copyout root va [b] u = Done (if upage (mem s) root va = 0 then -1 else 0) t \<and>
      eqv (if upage (mem s) root va = 0 then s else s\<lparr>mem := (mem s)(phys (mem s) root va := b)\<rparr>) t"
  proof (cases k)
    case 0
    then have "m' = mem u" "upage (mem s) root va = 0" using w r m by (simp_all add: wrote_def reach_def fun_eq_iff)
    then show ?thesis using k(1) 0 e by simp
  next
    case (Suc j)
    then have "k = 1" "upage (mem s) root va \<noteq> 0" using r by (auto simp: reach_def)
    moreover have "m' = (mem s)(phys (mem s) root va := b)"
      using w \<open>k = 1\<close> by (auto simp: wrote_def fun_eq_iff)
    ultimately show ?thesis using k(1) eqv_mem(2) [OF e] by simp
  qed
qed

section \<open>The bytes in a pipe\<close>

interpretation pq: ring_buffer PIPESIZE
  by unfold_locales (simp_all add: PIPESIZE_def)

definition pipe_bytes :: "pipe_t \<Rightarrow> u8 list" where
  "pipe_bytes x = ring_queue PIPESIZE (pi_data x) (pi_nread x) (pi_nwrite x)"

definition pipe_ok :: "pipe_t \<Rightarrow> bool" where
  "pipe_ok x \<longleftrightarrow> length (pipe_bytes x) \<le> PIPESIZE"

definition pput :: "u8 \<Rightarrow> pipe_t \<Rightarrow> pipe_t" where
  "pput c x = x\<lparr>pi_data := (pi_data x)(unat (pi_nwrite x) mod PIPESIZE := c), pi_nwrite := pi_nwrite x + 1\<rparr>"

definition pget :: "pipe_t \<Rightarrow> pipe_t" where
  "pget x = x\<lparr>pi_nread := pi_nread x + 1\<rparr>"

lemma pput_simps [simp]: "pi_readopen (pput c x) = pi_readopen x" "pi_writeopen (pput c x) = pi_writeopen x"
  "pi_readopen (fold pput cs x) = pi_readopen x"
  by (simp_all add: pput_def) (induction cs arbitrary: x; simp add: pput_def)

lemma length_pipe_bytes: "length (pipe_bytes x) = ring_used (pi_nread x) (pi_nwrite x)"
  by (simp add: pipe_bytes_def)

lemma pipe_full: "pipe_ok x \<Longrightarrow> pi_nwrite x = pi_nread x + of_nat PIPESIZE \<longleftrightarrow> length (pipe_bytes x) = PIPESIZE"
  using pq.full_iff by (simp add: pipe_ok_def length_pipe_bytes)

lemma pipe_empty: "pi_nread x = pi_nwrite x \<longleftrightarrow> pipe_bytes x = []"
  unfolding pipe_bytes_def by (rule pq.empty_iff)

lemma pipe_bytes_pput: "length (pipe_bytes x) < PIPESIZE \<Longrightarrow> pipe_bytes (pput c x) = pipe_bytes x @ [c]"
  using pq.put by (simp add: pipe_bytes_def pput_def)

lemma pipe_bytes_puts: "length (pipe_bytes x) + length cs \<le> PIPESIZE \<Longrightarrow> pipe_bytes (fold pput cs x) = pipe_bytes x @ cs"
  by (induction cs arbitrary: x) (simp_all add: pipe_bytes_pput)

lemma pipe_bytes_pget:
  assumes "pipe_bytes x \<noteq> []"
  shows "pipe_bytes (pget x) = tl (pipe_bytes x)" "pi_data x (unat (pi_nread x) mod PIPESIZE) = hd (pipe_bytes x)"
  using pq.get [of "pi_nread x" "pi_nwrite x" "pi_data x"] assms pipe_empty [of x]
  by (simp_all add: pipe_bytes_def pget_def)

lemma pipe_bytes_gets: "k \<le> length (pipe_bytes x) \<Longrightarrow> pipe_bytes ((pget ^^ k) x) = drop k (pipe_bytes x)"
proof (induction k)
  case (Suc k)
  then have "pipe_bytes ((pget ^^ k) x) = drop k (pipe_bytes x)" "drop k (pipe_bytes x) \<noteq> []" by simp_all
  then show ?case using pipe_bytes_pget(1) [of "(pget ^^ k) x"] by (simp add: drop_Suc tl_drop)
qed simp

section \<open>Writing\<close>

text \<open>The running process \<open>p\<close> at the entry of a system call, with a well-formed page table.\<close>

definition pipe_user :: "nodes \<Rightarrow> nat \<Rightarrow> 'z pst_scheme \<Rightarrow> bool" where
  "pipe_user N p s \<longleftrightarrow> settled {} s \<and> depth s = 0 \<and> curproc s = Some p \<and>
     pt_wf N (mem s) \<and> N (p_pagetable (procs s p)) = Some 2"

text \<open>
  How \<^verbatim>\<open>pipewrite()\<close> ends when \<open>m\<close> of its \<open>n\<close> bytes are left, from the user address
  \<open>va\<close> on, of which the first \<open>k\<close> are mapped.
\<close>

definition write_end ::
  "'z flst_scheme \<Rightarrow> u64 \<Rightarrow> nat \<Rightarrow> u64 \<Rightarrow> int \<Rightarrow> nat \<Rightarrow> nat \<Rightarrow> (int, 'z flst_scheme) outcome \<Rightarrow> bool" where
  "write_end s pi p va n m k r \<longleftrightarrow>
     (let room = PIPESIZE - length (pipe_bytes (pipes s pi));
          bs = ubytes (mem s) (p_pagetable (procs s p)) va (min k room);
          s' = s\<lparr>pipes := upd (pipes s) pi (fold pput bs)\<rparr> in
      if room < m \<and> room \<le> k then
        if \<not> pi_readopen (pipes s pi) \<or> p_killed (procs s p) then \<exists>t. r = Done (-1) t \<and> eqv s' t
        else \<exists>t. r = Blocked t \<and> slept s' p (PipeWrite pi) (PipeLock pi) t \<and> awake (PipeRead pi) t
      else \<exists>t. r = Done n t \<and> eqv s' t \<and> awake (PipeRead pi) t)"

lemma ubytes_Suc: "ubytes m root va (Suc k) = m (phys m root va) # ubytes m root (va + 1) k"
  using ubytes_add [of m root va 1 k] by (simp add: ubytes_def)

lemma write_end_step:
  fixes s :: "'z flst_scheme" and p :: nat and va :: u64
  assumes "length (pipe_bytes (pipes s pi)) < PIPESIZE"
  defines "s1 \<equiv> s\<lparr>pipes := upd (pipes s) pi (pput (mem s (phys (mem s) (p_pagetable (procs s p)) va)))\<rparr>"
  shows "write_end s pi p va n (Suc m) (Suc k) r = write_end s1 pi p (va + 1) n m k r"
proof -
  define room where "room = PIPESIZE - Suc (length (pipe_bytes (pipes s pi)))"
  have r: "PIPESIZE - length (pipe_bytes (pipes s pi)) = Suc room" "PIPESIZE - length (pipe_bytes (pipes s1 pi)) = room"
    using assms(1) by (simp_all add: room_def s1_def pipe_bytes_pput)
  have f: "mem s1 = mem s" "procs s1 = procs s" "pi_readopen (pipes s1 pi) = pi_readopen (pipes s pi)"
    by (simp_all add: s1_def)
  have e: "s1\<lparr>pipes := upd (pipes s1) pi (fold pput (ubytes (mem s) (p_pagetable (procs s p)) (va + 1) (min k room)))\<rparr> =
      s\<lparr>pipes := upd (pipes s) pi (fold pput (ubytes (mem s) (p_pagetable (procs s p)) va (min (Suc k) (Suc room))))\<rparr>"
    by (simp add: s1_def ubytes_Suc comp_def)
  show ?thesis unfolding write_end_def Let_def r f e by (simp only: Suc_less_eq Suc_le_mono)
qed

text \<open>The turns of the loop.\<close>

lemma write_turn_done:
  assumes "settled {} s" "\<not> i < n"
  shows "ends (pipewrite_turn pi root addr n i) (acq (PipeLock pi) s)
    (\<lambda>r. \<exists>t. r = Done (Inr n) t \<and> eqv s t \<and> awake (PipeRead pi) t)"
  using assms ends_wake_release [OF assms(1), of "PipeLock pi"] by (simp add: pipewrite_turn_def)

lemma write_turn_copy:
  assumes "pipe_user N p s" "pipe_ok (pipes s pi)" "length (pipe_bytes (pipes s pi)) < PIPESIZE" "i < n"
    and "unat (addr + word_of_int i) < 2 ^ 32"
  defines "va \<equiv> addr + word_of_int i" and "root \<equiv> p_pagetable (procs s p)"
  shows "upage (mem s) root va = 0 \<Longrightarrow> ends (pipewrite_turn pi root addr n i) (acq (PipeLock pi) s)
      (\<lambda>r. \<exists>t. r = Done (Inr n) t \<and> eqv s t \<and> awake (PipeRead pi) t)"
    "upage (mem s) root va \<noteq> 0 \<Longrightarrow> does (pipewrite_turn pi root addr n i) (acq (PipeLock pi) s) (Inl (i + 1))
      (acq (PipeLock pi) (s\<lparr>pipes := upd (pipes s) pi (pput (mem s (phys (mem s) root va)))\<rparr>))"
proof -
  have wf: "pt_wf N (mem (acq (PipeLock pi) s))" "N root = Some 2" "settled {} s"
    using assms(1) by (simp_all add: pipe_user_def root_def)
  have "pi_nwrite (pipes s pi) \<noteq> pi_nread (pipes s pi) + of_nat PIPESIZE"
    using pipe_full [OF assms(2)] assms(3) by simp
  note full = this
  note g = does_get_pipe [of pi id "acq (PipeLock pi) s"]
  have c: "does (copyin root (addr + word_of_int i) (Suc 0)) (acq (PipeLock pi) s)
      (if upage (mem s) root va = 0 then (-1, []) else (0, [mem s (phys (mem s) root va)])) (acq (PipeLock pi) s)"
    using does_copyin1 [OF wf(1,2) assms(5)] by (simp add: va_def split: if_splits)
  show "ends (pipewrite_turn pi root addr n i) (acq (PipeLock pi) s)
      (\<lambda>r. \<exists>t. r = Done (Inr n) t \<and> eqv s t \<and> awake (PipeRead pi) t)" if u: "upage (mem s) root va = 0"
    unfolding pipewrite_turn_def Let_def
    by (simp add: assms(4), rule ends_bnd [OF g], simp add: full, rule ends_bnd [OF c],
        simp add: u ends_wake_release [OF wf(3)])
  show "does (pipewrite_turn pi root addr n i) (acq (PipeLock pi) s) (Inl (i + 1))
      (acq (PipeLock pi) (s\<lparr>pipes := upd (pipes s) pi (pput (mem s (phys (mem s) root va)))\<rparr>))" if u: "upage (mem s) root va \<noteq> 0"
  proof -
    let ?f = "\<lambda>x. x\<lparr>pi_data := (pi_data x)(unat (pi_nwrite x) mod PIPESIZE := mem s (phys (mem s) root va)),
          pi_nwrite := pi_nwrite x + 1\<rparr>"
    have f: "?f = pput (mem s (phys (mem s) root va))" by (simp add: pput_def fun_eq_iff)
    have "does (upd_pipe pi ?f) (acq (PipeLock pi) s) ()
        (acq (PipeLock pi) (s\<lparr>pipes := upd (pipes s) pi (pput (mem s (phys (mem s) root va)))\<rparr>))"
      using does_upd_pipe [of pi ?f "acq (PipeLock pi) s"] unfolding f by simp
    note d = does_thn [OF this does_ret [of "Inl (i + 1)"]]
    show ?thesis
      unfolding pipewrite_turn_def Let_def
      by (simp add: assms(4), rule does_bnd [OF g], simp add: full, rule does_bnd [OF c], simp add: u d)
  qed
qed

lemma write_turn_full:
  assumes "pipe_user N p s" "pipe_ok (pipes s pi)" "length (pipe_bytes (pipes s pi)) = PIPESIZE" "i < n"
  shows "\<not> pi_readopen (pipes s pi) \<or> p_killed (procs s p) \<Longrightarrow>
      does (pipewrite_turn pi root addr n i) (acq (PipeLock pi) s) (Inr (-1)) s"
    "pi_readopen (pipes s pi) \<Longrightarrow> \<not> p_killed (procs s p) \<Longrightarrow> ends (pipewrite_turn pi root addr n i) (acq (PipeLock pi) s)
      (\<lambda>r. \<exists>t. r = Blocked t \<and> slept s p (PipeWrite pi) (PipeLock pi) t \<and> awake (PipeRead pi) t)"
proof -
  have u: "settled {} s" "depth s = 0" "curproc s = Some p" using assms(1) by (simp_all add: pipe_user_def)
  have full: "pi_nwrite (pipes s pi) = pi_nread (pipes s pi) + of_nat PIPESIZE"
    using pipe_full [OF assms(2)] assms(3) by simp
  note g = does_get_pipe [of pi id "acq (PipeLock pi) s"]
  have "does (bnd curp (\<lambda>p. get_proc p p_killed)) (acq (PipeLock pi) s) (p_killed (procs s p)) (acq (PipeLock pi) s)"
    using does_mykilled [OF settled_acq [OF u(1)], of "PipeLock pi"] u(3) by simp
  then have k: "does (if \<not> pi_readopen (pipes s pi) then ret True else bnd curp (\<lambda>p. get_proc p p_killed))
      (acq (PipeLock pi) s) (\<not> pi_readopen (pipes s pi) \<or> p_killed (procs s p)) (acq (PipeLock pi) s)"
    by (simp add: does_ret)
  note r = does_release [OF u(1), of "PipeLock pi"]
  show "does (pipewrite_turn pi root addr n i) (acq (PipeLock pi) s) (Inr (-1)) s"
    if "\<not> pi_readopen (pipes s pi) \<or> p_killed (procs s p)"
    unfolding pipewrite_turn_def Let_def
    by (simp add: assms(4), rule does_bnd [OF g], simp add: full split del: if_split, rule does_bnd [OF k],
        simp only: that if_True, rule does_thn [OF r does_ret]) simp
  show "ends (pipewrite_turn pi root addr n i) (acq (PipeLock pi) s)
      (\<lambda>r. \<exists>t. r = Blocked t \<and> slept s p (PipeWrite pi) (PipeLock pi) t \<and> awake (PipeRead pi) t)"
    if "pi_readopen (pipes s pi)" "\<not> p_killed (procs s p)"
  proof -
    have w: "ends (thn (wakeup (PipeRead pi)) (sleep (PipeWrite pi) (PipeLock pi))) (acq (PipeLock pi) s)
        (\<lambda>r. \<exists>t. r = Blocked t \<and> slept s p (PipeWrite pi) (PipeLock pi) t \<and> awake (PipeRead pi) t)"
      unfolding ends_def
    proof (intro allI impI)
      fix s0
      assume "eqv (acq (PipeLock pi) s) s0"
      from wakeup_eqv [OF u(1) this, of "PipeRead pi"] obtain w where
        w: "wakeup (PipeRead pi) s0 = Done () w" "eqv (acq (PipeLock pi) s) w" "awake (PipeRead pi) w" by auto
      from sleep_eqv [OF u w(2), of "PipeWrite pi"] w(1,3)
      show "\<exists>t. thn (wakeup (PipeRead pi)) (sleep (PipeWrite pi) (PipeLock pi)) s0 = Blocked t \<and>
          slept s p (PipeWrite pi) (PipeLock pi) t \<and> awake (PipeRead pi) t"
        by (auto simp: run)
    qed
    show ?thesis
      unfolding pipewrite_turn_def Let_def
      by (simp add: assms(4), rule ends_bnd [OF g], simp add: full split del: if_split, rule ends_bnd [OF k]) (simp add: that w)
  qed
qed

text \<open>The whole loop.\<close>

lemma pipe_user_pput [simp]: "pipe_user N p (s\<lparr>pipes := f\<rparr>) = pipe_user N p s"
  by (simp add: pipe_user_def)

lemma pipewrite_run:
  fixes s :: "'z flst_scheme"
  assumes "pipe_user N p s" "pipe_ok (pipes s pi)" "int m = n - i" "m < fuel"
    and "unat (addr + word_of_int i) + m \<le> 2 ^ 32"
    and "reach (mem s) (p_pagetable (procs s p)) (addr + word_of_int i) m k"
  shows "ends (loopM fuel (pipewrite_turn pi (p_pagetable (procs s p)) addr n) i) (acq (PipeLock pi) s)
    (write_end s pi p (addr + word_of_int i) n m k)"
  using assms
proof (induction fuel arbitrary: i m k s)
  case (Suc fuel)
  let ?root = "p_pagetable (procs s p)"
  let ?va = "addr + word_of_int i"
  let ?x = "pipes s pi"
  have st: "settled {} s" using Suc.prems(1) by (simp add: pipe_user_def)
  show ?case
  proof (cases "m = 0")
    case True
    then have "\<not> i < n" "k = 0" using Suc.prems(3,6) by (simp_all add: reach_def)
    then show ?thesis
      using write_turn_done [OF st] True
      by (intro ends_loop_exit) (auto simp: write_end_def Let_def ubytes_def intro: ends_mono)
  next
    case False
    then have lt: "i < n" and va: "unat ?va < 2 ^ 32" using Suc.prems(3,5) by linarith+
    show ?thesis
    proof (cases "length (pipe_bytes ?x) = PIPESIZE")
      case True
      then have "write_end s pi p ?va n m k = (\<lambda>r.
          if \<not> pi_readopen ?x \<or> p_killed (procs s p) then \<exists>t. r = Done (-1) t \<and> eqv s t
          else \<exists>t. r = Blocked t \<and> slept s p (PipeWrite pi) (PipeLock pi) t \<and> awake (PipeRead pi) t)"
        using False by (simp add: write_end_def Let_def ubytes_def fun_eq_iff)
      note we = this
      show ?thesis
      proof (cases "\<not> pi_readopen ?x \<or> p_killed (procs s p)")
        case stop: True
        from ends_does [OF does_loop_exit [where body = "pipewrite_turn pi ?root addr n", OF write_turn_full(1) [OF Suc.prems(1,2) True lt stop]]]
        show ?thesis using stop by (simp add: we)
      next
        case False
        then show ?thesis
          using write_turn_full(2) [OF Suc.prems(1,2) True lt] by (auto simp: we intro!: ends_loop_exit)
      qed
    next
      case nf: False
      then have room: "length (pipe_bytes ?x) < PIPESIZE" using Suc.prems(2) by (simp add: pipe_ok_def)
      note turn = write_turn_copy [OF Suc.prems(1,2) room lt va]
      show ?thesis
      proof (cases k)
        case 0
        then have "upage (mem s) ?root ?va = 0" using Suc.prems(6) False by (simp add: reach_def)
        then show ?thesis
          using turn(1) room 0
          by (intro ends_loop_exit) (auto simp: write_end_def Let_def ubytes_def elim!: ends_mono)
      next
        case (Suc k')
        let ?s1 = "s\<lparr>pipes := upd (pipes s) pi (pput (mem s (phys (mem s) ?root ?va)))\<rparr>"
        obtain m' where m': "m = Suc m'" using False by (cases m) auto
        have s1: "mem ?s1 = mem s" "procs ?s1 = procs s" by simp_all
        have i1: "addr + word_of_int (i + 1) = ?va + 1" by simp
        have u: "upage (mem s) ?root ?va \<noteq> 0" using Suc.prems(6) Suc by (auto simp: reach_def)
        have "reach (mem s) ?root (?va + 1) m' k'"
          using Suc.prems(6) unfolding Suc m' reach_def by (auto simp: algebra_simps dest: spec [of _ "Suc _"])
        moreover have "unat (?va + 1) + m' \<le> 2 ^ 32"
          using Suc.prems(5) m' by (simp add: unat_word_ariths)
        moreover have "pipe_ok (pipes ?s1 pi)" using room by (simp add: pipe_ok_def pipe_bytes_pput)
        ultimately have "ends (loopM fuel (pipewrite_turn pi ?root addr n) (i + 1)) (acq (PipeLock pi) ?s1)
            (write_end ?s1 pi p (?va + 1) n m' k')"
          using Suc.IH [of ?s1 m' "i + 1" k'] Suc.prems(1,3,4) m' unfolding s1 i1 by simp
        then show ?thesis
          unfolding Suc m' write_end_step [OF room, abs_def] 
          by (rule ends_loop [where body = "pipewrite_turn pi ?root addr n", OF turn(2) [OF u]])
      qed
    qed
  qed
qed simp

section \<open>Reading\<close>

lemma read_turn_stop:
  assumes "\<not> i < n \<or> pipe_bytes (pipes s pi) = []"
  shows "does (piperead_turn pi root addr n i) (acq (PipeLock pi) s) (Inr i) (acq (PipeLock pi) s)"
proof (cases "i < n")
  case True
  then have "pi_nread (pipes s pi) = pi_nwrite (pipes s pi)" using assms pipe_empty by simp
  note e = this
  note g = does_get_pipe [of pi id "acq (PipeLock pi) s"]
  show ?thesis
    unfolding piperead_turn_def by (simp add: True, rule does_bnd [OF g], simp add: e does_ret)
qed (simp add: piperead_turn_def does_ret)

lemma read_turn_copy:
  fixes s :: "'z flst_scheme" and addr :: u64
  assumes "pipe_user N p s" "pipe_bytes (pipes s pi) \<noteq> []" "i < n"
  defines "va \<equiv> addr + word_of_int i" and "root \<equiv> p_pagetable (procs s p)"
    and "s1 \<equiv> s\<lparr>pipes := upd (pipes s) pi pget\<rparr>"
  assumes "user_range N (mem s) root va 1"
  shows "does (piperead_turn pi root addr n i) (acq (PipeLock pi) s)
    (if upage (mem s) root va = 0 then Inr i else Inl (i + 1))
    (acq (PipeLock pi) (if upage (mem s) root va = 0 then s1
       else s1\<lparr>mem := (mem s)(phys (mem s) root va := hd (pipe_bytes (pipes s pi)))\<rparr>))"
proof -
  let ?l = "PipeLock pi"
  have ne: "pi_nread (pipes s pi) \<noteq> pi_nwrite (pipes s pi)" using assms(2) pipe_empty by simp
  note g = does_get_pipe [of pi id "acq ?l s"]
  have "(\<lambda>x. x\<lparr>pi_nread := pi_nread x + 1\<rparr>) = pget" by (simp add: pget_def fun_eq_iff)
  then have u: "does (upd_pipe pi (\<lambda>x. x\<lparr>pi_nread := pi_nread x + 1\<rparr>)) (acq ?l s) () (acq ?l s1)"
    using does_upd_pipe [of pi pget "acq ?l s"] by (simp add: s1_def)
  have c: "does (copyout root va [b]) (acq ?l s1) (if upage (mem s) root va = 0 then -1 else 0)
      (acq ?l (if upage (mem s) root va = 0 then s1 else s1\<lparr>mem := (mem s)(phys (mem s) root va := b)\<rparr>))" for b
    using does_copyout1 [of N "acq ?l s1" root va b] assms(1,7) by (simp add: s1_def pipe_user_def root_def split: if_splits)
  show ?thesis
    unfolding piperead_turn_def va_def [symmetric]
    by (simp add: assms(3) split del: if_split, rule does_bnd [OF g],
        simp add: ne Let_def pipe_bytes_pget(2) [OF assms(2)] split del: if_split,
        rule does_thn [OF u], rule does_bnd [OF c], simp add: does_ret)
qed

text \<open>
  The copying loop: the bytes it takes out of the pipe are those it stores, and one more if the
  user page of the last one is not mapped.
\<close>

definition taken :: "nat \<Rightarrow> nat \<Rightarrow> nat" where
  "taken k m = (if k < m then Suc k else k)"

lemma piperead_run:
  fixes s :: "'z flst_scheme"
  assumes "pipe_user N p s" "int m = n - i" "m < fuel"
    and "user_range N (mem s) (p_pagetable (procs s p)) (addr + word_of_int i) m"
  shows "\<exists>k m'. does (loopM fuel (piperead_turn pi (p_pagetable (procs s p)) addr n) i) (acq (PipeLock pi) s) (i + int k)
      (acq (PipeLock pi) (s\<lparr>mem := m',
        pipes := upd (pipes s) pi (pget ^^ taken k (min m (length (pipe_bytes (pipes s pi)))))\<rparr>)) \<and>
    copied N (mem s) (p_pagetable (procs s p)) (addr + word_of_int i) (take m (pipe_bytes (pipes s pi))) k m'"
  using assms
proof (induction fuel arbitrary: i m s)
  case (Suc fuel)
  let ?root = "p_pagetable (procs s p)"
  let ?va = "addr + word_of_int i"
  let ?q = "pipe_bytes (pipes s pi)"
  let ?body = "piperead_turn pi ?root addr n"
  have wf: "pt_wf N (mem s)" "N ?root = Some 2" using Suc.prems(1) by (simp_all add: pipe_user_def)
  have id: "s\<lparr>mem := mem s, pipes := f\<rparr> = s\<lparr>pipes := f\<rparr>" for f by simp
  show ?case
  proof (cases "m = 0 \<or> ?q = []")
    case True
    then have "\<not> i < n \<or> ?q = []" using Suc.prems(2) by auto
    note d = does_loop_exit [where body = ?body and n = fuel, OF read_turn_stop [OF this]]
    have "min m (length ?q) = 0" using True by auto
    then have z: "upd (pipes s) pi (pget ^^ taken 0 (min m (length ?q))) = pipes s"
      by (simp add: taken_def upd_def)
    from True have "copied N (mem s) ?root ?va (take m ?q) 0 (mem s)"
      by (auto simp: copied_def reach_def wrote_def same_ents_def)
    then show ?thesis
      using d by (intro exI [of _ 0] exI [of _ "mem s"]) (simp only: z of_nat_0 add_0_right, simp)
  next
    case False
    then obtain j where j: "m = Suc j" by (cases m) auto
    have r1: "user_range N (mem s) ?root ?va 1" using user_range_sub [OF Suc.prems(4), of 0 1] j by simp
    have "i < n" "?q \<noteq> []" using Suc.prems(2) False by auto
    note turn = read_turn_copy [OF Suc.prems(1) this(2,1) r1]
    show ?thesis
    proof (cases "upage (mem s) ?root ?va = 0")
      case True
      then have "does (?body i) (acq (PipeLock pi) s) (Inr i) (acq (PipeLock pi) (s\<lparr>pipes := upd (pipes s) pi pget\<rparr>))"
        using turn by simp
      note d = does_loop_exit [where body = ?body and n = fuel, OF this]
      have "0 < min m (length ?q)" using False by auto
      then have z: "pget ^^ taken 0 (min m (length ?q)) = pget" by (simp add: taken_def)
      from True have "copied N (mem s) ?root ?va (take m ?q) 0 (mem s)"
        by (auto simp: copied_def reach_def wrote_def same_ents_def)
      then show ?thesis
        using d by (intro exI [of _ 0] exI [of _ "mem s"]) (simp only: z id of_nat_0 add_0_right, simp)
    next
      case up: False
      let ?m1 = "(mem s)(phys (mem s) ?root ?va := hd ?q)"
      define s1 where "s1 = s\<lparr>pipes := upd (pipes s) pi pget, mem := ?m1\<rparr>"
      have s1: "procs s1 = procs s" "mem s1 = ?m1" "pipes s1 = upd (pipes s) pi pget" by (simp_all add: s1_def)
      have d: "does (?body i) (acq (PipeLock pi) s) (Inl (i + 1)) (acq (PipeLock pi) s1)" using turn up by (simp add: s1_def)
      have w: "wrote (mem s) ?m1 (\<lambda>i. phys (mem s) ?root (?va + of_nat i)) [hd ?q]" by (simp add: wrote_def)
      have e: "same_ents N (mem s) ?m1"
        using same_ents_user [OF wf(1) r1 w] by simp
      have i1: "addr + word_of_int (i + 1) = ?va + of_nat 1" by simp
      have q1: "pipe_bytes (pipes s1 pi) = tl ?q" using pipe_bytes_pget(1) False by (simp add: s1(3))
      have pu: "pipe_user N p s1"
        using Suc.prems(1) pt_wf_same [OF wf(1) e] unfolding pipe_user_def s1 by (simp add: s1_def depth_def)
      have h: "int j = n - (i + 1)" "j < fuel" using Suc.prems(2,3) j by simp_all
      have "user_range N (mem s1) (p_pagetable (procs s1 p)) (addr + word_of_int (i + 1)) j"
        using user_range_sub [OF Suc.prems(4), of 1 j] user_range_same [OF wf(1) e wf(2)] j unfolding s1 i1 by simp
      from Suc.IH [OF pu h this] obtain k m' where
        k: "does (loopM fuel ?body (i + 1)) (acq (PipeLock pi) s1) (i + 1 + int k)
          (acq (PipeLock pi) (s1\<lparr>mem := m', pipes := upd (pipes s1) pi (pget ^^ taken k (min j (length (tl ?q))))\<rparr>))"
          "copied N ?m1 ?root (?va + of_nat 1) (take j (tl ?q)) k m'"
        unfolding i1 q1 s1(1,2) by blast
      have q: "?q = hd ?q # tl ?q" using False by simp
      have t: "taken (Suc k) (min m (length ?q)) = Suc (taken k (min j (length (tl ?q))))"
        by (subst q) (simp add: taken_def j)
      have "copied N (mem s) ?root ?va (take m ?q) (Suc k) m'"
      proof -
        have "take 1 (take m ?q) = [hd ?q]" "drop 1 (take m ?q) = take j (tl ?q)" by (subst q, simp add: j)+
        moreover have "user_range N (mem s) ?root ?va (length (take m ?q))"
          using user_range_sub [OF Suc.prems(4), of 0 "length (take m ?q)"] by simp
        moreover have "1 \<le> length ?q" using False by (simp add: Suc_le_eq)
        ultimately show ?thesis
          using copied_join [OF wf(1,2), of ?va "take m ?q" 1 ?m1 k m'] up w e k(2) False by auto
      qed
      moreover have "does (loopM (Suc fuel) ?body i) (acq (PipeLock pi) s) (i + int (Suc k))
          (acq (PipeLock pi) (s\<lparr>mem := m', pipes := upd (pipes s) pi (pget ^^ taken (Suc k) (min m (length ?q)))\<rparr>))"
        using does_loop [where body = ?body, OF d k(1)] by (simp add: t s1_def funpow_swap1 comp_def algebra_simps)
      ultimately show ?thesis by blast
    qed
  qed
qed simp

section \<open>The system calls\<close>

text \<open>The number of bytes of a range before the first page that is not mapped.\<close>

definition mapped :: "memory \<Rightarrow> u64 \<Rightarrow> u64 \<Rightarrow> nat \<Rightarrow> nat" where
  "mapped m root va n = length (takeWhile (\<lambda>i. upage m root (va + of_nat i) \<noteq> 0) [0..<n])"

lemma reach_mapped: "reach m root va n (mapped m root va n)"
proof -
  let ?P = "\<lambda>i. upage m root (va + of_nat i) \<noteq> 0"
  let ?k = "length (takeWhile ?P [0..<n])"
  have l: "?k \<le> n" using length_takeWhile_le [of ?P "[0..<n]"] by simp
  have "?P i" if "i < ?k" for i
    using that l nth_mem [OF that] set_takeWhileD [of _ ?P "[0..<n]"] takeWhile_nth [OF that] by fastforce
  moreover have "\<not> ?P ?k" if "?k < n"
    using nth_length_takeWhile [of ?P "[0..<n]"] that by simp
  ultimately show ?thesis using l by (auto simp: reach_def mapped_def)
qed

lemma reach_unique: "reach m root va n k \<Longrightarrow> reach m root va n j \<Longrightarrow> k = j"
  by (cases k j rule: linorder_cases) (auto simp: reach_def)

lemma ends_call:
  assumes "pipe_user N p s" and "ends (f (p_pagetable (procs s p))) (acq l s) P"
  shows "ends (bnd curp (\<lambda>p. bnd (get_proc p p_pagetable) (\<lambda>pt. thn (acquire l) (f pt)))) s P"
proof -
  have u: "settled {} s" "curproc s = Some p" using assms(1) by (simp_all add: pipe_user_def)
  show ?thesis
    by (rule ends_bnd [OF does_curp [OF u]], rule ends_bnd [OF does_pagetable], rule ends_thn [OF does_acquire [OF u(1)]])
      (simp_all add: assms(2))
qed

lemma pipewrite_ends:
  assumes "pipe_user N p s" "pipe_ok (pipes s pi)" "0 \<le> n" "unat addr + nat n \<le> 2 ^ 32"
  shows "ends (pipewrite pi addr n) s
    (write_end s pi p addr n (nat n) (mapped (mem s) (p_pagetable (procs s p)) addr (nat n)))"
proof -
  have "ends (pipewrite_loop pi (p_pagetable (procs s p)) addr n 0) (acq (PipeLock pi) s)
      (write_end s pi p (addr + word_of_int 0) n (nat n) (mapped (mem s) (p_pagetable (procs s p)) addr (nat n)))"
    unfolding pipewrite_loop_def using assms reach_mapped
    by (intro pipewrite_run) simp_all
  then show ?thesis unfolding pipewrite_def by (intro ends_call [OF assms(1)]) simp
qed

text \<open>A process with the address space of the demonstration, and a pipe.\<close>

definition demo_pipe :: "u8 list \<Rightarrow> pipe_t" where
  "demo_pipe bs = fold pput bs \<lparr>pi_data = (\<lambda>_. 0), pi_nread = 0, pi_nwrite = 0, pi_readopen = True, pi_writeopen = True\<rparr>"

definition demo_flst :: "u8 list \<Rightarrow> flst" where
  "demo_flst bs = (booted (\<lambda>_ _. 0) \<lparr>logs = undefined, sb = undefined, icache = undefined, uart0 = undefined,
     panicked = False, pr_locking = True, cons = undefined, ftable = undefined, pipes = (\<lambda>_. demo_pipe bs), devsw = undefined\<rparr>)
     \<lparr>mem := demo_mem, procs := (\<lambda>_. zero_proc\<lparr>p_pagetable := ROOT\<rparr>)\<rparr>"

lemma demo_flst_user: "pipe_user demo_nodes 0 (demo_flst bs)" "mem (demo_flst bs) = demo_mem" "pipes (demo_flst bs) pi = demo_pipe bs"
    "procs (demo_flst bs) = (\<lambda>_. zero_proc\<lparr>p_pagetable := ROOT\<rparr>)"
proof -
  have "curproc (demo_flst bs) = Some 0" "depth (demo_flst bs) = 0"
    by (simp_all add: demo_flst_def booted_def curproc_def depth_def zero_defs)
  then show "pipe_user demo_nodes 0 (demo_flst bs)"
    using demo_wf demo_state(2) by (simp add: pipe_user_def) (simp add: demo_flst_def)
qed (simp_all add: demo_flst_def booted_def)

lemma demo_pipe_bytes:
  assumes "length bs \<le> PIPESIZE"
  shows "pipe_bytes (demo_pipe bs) = bs" "pipe_ok (demo_pipe bs)"
proof -
  have "pipe_bytes \<lparr>pi_data = (\<lambda>_. 0), pi_nread = 0, pi_nwrite = 0, pi_readopen = True, pi_writeopen = True\<rparr> = []"
    by (simp add: pipe_empty [symmetric])
  then show "pipe_bytes (demo_pipe bs) = bs" using pipe_bytes_puts assms by (simp add: demo_pipe_def)
  then show "pipe_ok (demo_pipe bs)" using assms by (simp add: pipe_ok_def)
qed

lemma demo_upage_page:
  assumes "i < 4096"
  shows "upage demo_mem ROOT (0x1000 + of_nat i) = 0x80006000"
proof -
  have "unat (0x1000 + of_nat i :: u64) = 0x1000 + i" using assms by (simp add: unat_word_ariths unat_of_nat)
  then show ?thesis using assms by (simp add: demo_upage page_of_def)
qed

lemma demo_pipe_open: "pi_readopen (demo_pipe bs)" "\<not> p_killed (zero_proc\<lparr>p_pagetable := ROOT\<rparr>)"
  by (simp_all add: demo_pipe_def zero_proc_def)

text \<open>
  C11: \<^verbatim>\<open>pipewrite()\<close> appends to the bytes in the pipe, in order, and changes nothing else.
  It takes as many of the \<open>n\<close> bytes at \<open>addr\<close> as the pipe has room for, up to the first user page
  that is not mapped.  If the room ends first, the call fails when nobody can read or the caller has
  been killed, and otherwise wakes the readers and sleeps, having released the lock of the pipe.  In
  all other cases it wakes the readers and returns \<open>n\<close>, also when an unmapped page cut it short.
\<close>

theorem pipewrite_appends:
  assumes "pipe_user N p s" and "pipe_ok (pipes s pi)" and "0 \<le> n" and "unat addr + nat n \<le> 2 ^ 32"
  defines "x \<equiv> pipes s pi" and "pt \<equiv> p_pagetable (procs s p)"
  defines "room \<equiv> PIPESIZE - length (pipe_bytes x)" and "k \<equiv> mapped (mem s) pt addr (nat n)"
  shows "\<exists>t. pipewrite pi addr n s =
      (if room < nat n \<and> room \<le> k then if \<not> pi_readopen x \<or> p_killed (procs s p) then Done (-1) t else Blocked t
       else Done n t) \<and>
    pipe_bytes (pipes t pi) = pipe_bytes x @ ubytes (mem s) pt addr (min k room) \<and> pipe_ok (pipes t pi) \<and>
    (\<forall>q. q \<noteq> pi \<longrightarrow> pipes t q = pipes s q) \<and> mem t = mem s \<and>
    (pipewrite pi addr n s = Blocked t \<longrightarrow> sleeping p (PipeWrite pi) t \<and> lk_free (PipeLock pi) t) \<and>
    (pipewrite pi addr n s = Blocked t \<or> pipewrite pi addr n s = Done n t \<longrightarrow> awake (PipeRead pi) t)"
proof -
  define bs where "bs = ubytes (mem s) pt addr (min k room)"
  define s' where "s' = s\<lparr>pipes := upd (pipes s) pi (fold pput bs)\<rparr>"
  have e: "if room < nat n \<and> room \<le> k then
        if \<not> pi_readopen x \<or> p_killed (procs s p) then \<exists>t. pipewrite pi addr n s = Done (-1) t \<and> eqv s' t
        else \<exists>t. pipewrite pi addr n s = Blocked t \<and> slept s' p (PipeWrite pi) (PipeLock pi) t \<and> awake (PipeRead pi) t
      else \<exists>t. pipewrite pi addr n s = Done n t \<and> eqv s' t \<and> awake (PipeRead pi) t"
    using endsD [OF pipewrite_ends [OF assms(1-4)]]
    unfolding write_end_def Let_def x_def [symmetric] pt_def [symmetric] k_def [symmetric] room_def [symmetric]
      bs_def [symmetric] s'_def [symmetric] .
  have "length (pipe_bytes x) + length bs \<le> PIPESIZE"
    using assms(2) by (simp add: bs_def ubytes_def room_def pipe_ok_def x_def)
  from pipe_bytes_puts [OF this] have b: "pipe_bytes (pipes s' pi) = pipe_bytes x @ bs" "pipe_ok (pipes s' pi)"
    using \<open>length (pipe_bytes x) + length bs \<le> PIPESIZE\<close> by (simp_all add: s'_def x_def pipe_ok_def)
  have o: "pipes s' q = pipes s q" if "q \<noteq> pi" for q using that by (simp add: s'_def)
  have "\<exists>t. pipewrite pi addr n s =
      (if room < nat n \<and> room \<le> k then if \<not> pi_readopen x \<or> p_killed (procs s p) then Done (-1) t else Blocked t
       else Done n t) \<and> pipes t = pipes s' \<and> mem t = mem s \<and>
      (pipewrite pi addr n s = Blocked t \<longrightarrow> sleeping p (PipeWrite pi) t \<and> lk_free (PipeLock pi) t) \<and>
      (pipewrite pi addr n s = Blocked t \<or> pipewrite pi addr n s = Done n t \<longrightarrow> awake (PipeRead pi) t)"
  proof -
    have v: "pipes t = pipes s' \<and> mem t = mem s" if "eqv s' t" for t
      using eqv_pipes(1) [OF that] eqv_mem(1) [OF that] by (simp add: s'_def)
    have w: "pipes t = pipes s' \<and> mem t = mem s \<and> sleeping p (PipeWrite pi) t \<and> lk_free (PipeLock pi) t"
      if "slept s' p (PipeWrite pi) (PipeLock pi) t" for t
      using that more_pipes [of t s'] by (simp add: slept_def s'_def)
    have "n \<noteq> -1" using assms(3) by simp
    show ?thesis
    proof (cases "room < nat n \<and> room \<le> k")
      case True
      show ?thesis
      proof (cases "\<not> pi_readopen x \<or> p_killed (procs s p)")
        case stop: True
        then obtain t where t: "pipewrite pi addr n s = Done (-1) t" "eqv s' t" using e True by auto
        show ?thesis using True stop t(1) v [OF t(2)] \<open>n \<noteq> -1\<close> by (intro exI [of _ t]) simp
      next
        case go: False
        then obtain t where t: "pipewrite pi addr n s = Blocked t" "slept s' p (PipeWrite pi) (PipeLock pi) t" "awake (PipeRead pi) t"
          using e True by auto
        show ?thesis using True go t(1,3) w [OF t(2)] by (intro exI [of _ t]) simp
      qed
    next
      case False
      then obtain t where t: "pipewrite pi addr n s = Done n t" "eqv s' t" "awake (PipeRead pi) t" using e by auto
      show ?thesis using False v [OF t(2)] t(1,3) by (intro exI [of _ t]) auto
    qed
  qed
  then obtain t where t: "pipewrite pi addr n s =
      (if room < nat n \<and> room \<le> k then if \<not> pi_readopen x \<or> p_killed (procs s p) then Done (-1) t else Blocked t
       else Done n t)" "pipes t = pipes s'" "mem t = mem s"
      "pipewrite pi addr n s = Blocked t \<longrightarrow> sleeping p (PipeWrite pi) t \<and> lk_free (PipeLock pi) t"
      "pipewrite pi addr n s = Blocked t \<or> pipewrite pi addr n s = Done n t \<longrightarrow> awake (PipeRead pi) t" by blast
  show ?thesis
    using t(1,3-5) b o unfolding t(2) [symmetric] bs_def by blast
qed

theorem pipewrite_appends_witness:
  "\<exists>t. pipewrite 0x80007000 0x1000 3 (demo_flst (replicate 510 7)) = Blocked t \<and>
    pipe_bytes (pipes t 0x80007000) = replicate 510 7 @ ubytes demo_mem ROOT 0x1000 2 \<and> sleeping 0 (PipeWrite 0x80007000) t"
proof -
  let ?s = "demo_flst (replicate 510 7)"
  have len: "length (replicate 510 (7 :: u8)) \<le> PIPESIZE" by (simp add: PIPESIZE_def)
  have ok: "pipe_ok (pipes ?s 0x80007000)" unfolding demo_flst_user(3) by (rule demo_pipe_bytes(2) [OF len])
  have k: "mapped demo_mem ROOT 0x1000 3 = 3"
    by (rule reach_all [OF reach_mapped]) (auto simp: demo_upage_page)
  show ?thesis
    using pipewrite_appends [OF demo_flst_user(1) ok, of 3 "0x1000"] k
    by (auto simp: demo_flst_user demo_pipe_bytes(1) [OF len] demo_pipe_open PIPESIZE_def)
qed

lemma piperead_wait:
  assumes "pipe_user N p s" "pipe_bytes (pipes s pi) = []" "pi_writeopen (pipes s pi)"
  shows "ends (piperead_loop pi root addr n) (acq (PipeLock pi) s) (\<lambda>r.
    if p_killed (procs s p) then \<exists>t. r = Done (-1) t \<and> eqv s t
    else \<exists>t. r = Blocked t \<and> slept s p (PipeRead pi) (PipeLock pi) t)"
proof -
  let ?l = "PipeLock pi"
  have u: "settled {} s" "depth s = 0" "curproc s = Some p" using assms(1) by (simp_all add: pipe_user_def)
  have e: "pi_nread (pipes s pi) = pi_nwrite (pipes s pi)" using assms(2) pipe_empty by simp
  note g = does_get_pipe [of pi id "acq ?l s"]
  have c: "does curp (acq ?l s) p (acq ?l s)"
    using u by (intro does_curp [of "{?l}"]) (simp_all add: settled_acq)
  have k: "does (get_proc p p_killed) (acq ?l s) (p_killed (procs s p)) (acq ?l s)"
    using does_killed [of p "acq ?l s"] by simp
  have "does (thn (release ?l) (ret (-1))) (acq ?l s) (-1) s"
    by (rule does_thn [OF does_release [OF u(1)] does_ret]) simp
  then have r: "ends (thn (release ?l) (ret (-1))) (acq ?l s) (\<lambda>r. \<exists>t. r = Done (-1) t \<and> eqv s t)"
    by (rule ends_does) simp
  have w: "ends (sleep (PipeRead pi) ?l) (acq ?l s) (\<lambda>r. \<exists>t. r = Blocked t \<and> slept s p (PipeRead pi) ?l t)"
    unfolding ends_def using sleep_eqv [OF u] by (metis lockid.distinct)
  show ?thesis
    unfolding piperead_loop_def
    by (rule ends_bnd [OF g], simp add: e assms(3), rule ends_bnd [OF c], rule ends_bnd [OF k]) (simp add: r w)
qed

lemma piperead_take:
  assumes "pipe_user N p s" "pipe_bytes (pipes s pi) \<noteq> [] \<or> \<not> pi_writeopen (pipes s pi)" "0 \<le> n"
    and "user_range N (mem s) (p_pagetable (procs s p)) addr (nat n)"
  shows "\<exists>k m'. ends (piperead_loop pi (p_pagetable (procs s p)) addr n) (acq (PipeLock pi) s)
      (\<lambda>r. \<exists>t. r = Done (int k) t \<and> eqv (s\<lparr>mem := m',
        pipes := upd (pipes s) pi (pget ^^ taken k (min (nat n) (length (pipe_bytes (pipes s pi)))))\<rparr>) t \<and> awake (PipeWrite pi) t) \<and>
    copied N (mem s) (p_pagetable (procs s p)) addr (take (nat n) (pipe_bytes (pipes s pi))) k m'"
proof -
  let ?l = "PipeLock pi" and ?q = "pipe_bytes (pipes s pi)" and ?root = "p_pagetable (procs s p)"
  have st: "settled {} s" using assms(1) by (simp add: pipe_user_def)
  have "user_range N (mem s) ?root (addr + word_of_int 0) (nat n)" using assms(4) by simp
  from piperead_run [OF assms(1) _ _ this, of n "Suc (nat n)" pi] assms(3) obtain k m' where
    k: "does (loopM (Suc (nat n)) (piperead_turn pi ?root addr n) 0) (acq ?l s) (0 + int k)
      (acq ?l (s\<lparr>mem := m', pipes := upd (pipes s) pi (pget ^^ taken k (min (nat n) (length ?q)))\<rparr>))"
      "copied N (mem s) ?root (addr + word_of_int 0) (take (nat n) ?q) k m'" by auto
  let ?s' = "s\<lparr>mem := m', pipes := upd (pipes s) pi (pget ^^ taken k (min (nat n) (length ?q)))\<rparr>"
  have c: "does (piperead_copy pi ?root addr n) (acq ?l s) (int k) (acq ?l ?s')"
    using k(1) by (simp add: piperead_copy_def)
  have w: "ends (thn (wakeup (PipeWrite pi)) (thn (release ?l) (ret (int k)))) (acq ?l ?s')
      (\<lambda>r. \<exists>t. r = Done (int k) t \<and> eqv ?s' t \<and> awake (PipeWrite pi) t)"
    using st by (intro ends_wake_release) simp_all
  have e: "\<not> (pi_nread (pipes s pi) = pi_nwrite (pipes s pi) \<and> pi_writeopen (pipes s pi))"
    using assms(2) pipe_empty by blast
  note g = does_get_pipe [of pi id "acq ?l s"]
  have "ends (piperead_loop pi ?root addr n) (acq ?l s) (\<lambda>r. \<exists>t. r = Done (int k) t \<and> eqv ?s' t \<and> awake (PipeWrite pi) t)"
    unfolding piperead_loop_def
    by (rule ends_bnd [OF g], simp only: id_apply acq_pipes e if_False, rule ends_bnd [OF c], rule w)
  then show ?thesis using k(2) by auto
qed

text \<open>
  C12: \<^verbatim>\<open>piperead()\<close> takes the oldest bytes.  On an empty pipe that can still be written it
  fails if the caller has been killed and sleeps otherwise, and changes nothing.  In all other cases it
  stores the first bytes of the pipe at \<open>addr\<close>, at most \<open>n\<close> of them and up to the first user page that
  is not mapped, and nothing else, removes them, wakes the writers and returns their number.  A byte
  whose user page is not mapped is removed as well, and lost.
\<close>

theorem piperead_takes:
  fixes s :: "'z flst_scheme" and pi :: u64
  assumes "pipe_user N p s" and "0 \<le> n" and "user_range N (mem s) (p_pagetable (procs s p)) addr (nat n)"
  defines "q \<equiv> pipe_bytes (pipes s pi)" and "pt \<equiv> p_pagetable (procs s p)"
  defines "m \<equiv> min (nat n) (length q)"
  defines "k \<equiv> mapped (mem s) pt addr m"
  shows "if q = [] \<and> pi_writeopen (pipes s pi)
    then \<exists>t. piperead pi addr n s = (if p_killed (procs s p) then Done (-1) t else Blocked t) \<and>
      pipes t = pipes s \<and> mem t = mem s \<and> (\<not> p_killed (procs s p) \<longrightarrow> sleeping p (PipeRead pi) t \<and> lk_free (PipeLock pi) t)
    else \<exists>t. piperead pi addr n s = Done (int k) t \<and> ubytes (mem t) pt addr k = take k q \<and>
      (\<forall>a. (\<forall>i<k. a \<noteq> phys (mem s) pt (addr + of_nat i)) \<longrightarrow> mem t a = mem s a) \<and>
      pipe_bytes (pipes t pi) = drop (if k < m then Suc k else k) q \<and> (\<forall>j. j \<noteq> pi \<longrightarrow> pipes t j = pipes s j) \<and>
      awake (PipeWrite pi) t"
proof (cases "q = [] \<and> pi_writeopen (pipes s pi)")
  case True
  then have "ends (piperead pi addr n) s (\<lambda>r. if p_killed (procs s p) then \<exists>t. r = Done (-1) t \<and> eqv s t
      else \<exists>t. r = Blocked t \<and> slept s p (PipeRead pi) (PipeLock pi) t)"
    unfolding piperead_def by (intro ends_call [OF assms(1)] piperead_wait [OF assms(1)]) (simp_all add: q_def)
  note r = endsD [OF this]
  show ?thesis
  proof (cases "p_killed (procs s p)")
    case killed: True
    then obtain t where t: "piperead pi addr n s = Done (-1) t" "eqv s t" using r by auto
    show ?thesis using True killed t(1) eqv_pipes(1) [OF t(2)] eqv_mem(1) [OF t(2)] by simp
  next
    case alive: False
    then obtain t where t: "piperead pi addr n s = Blocked t" "slept s p (PipeRead pi) (PipeLock pi) t" using r by auto
    then have "pipes t = pipes s" by (intro more_pipes) (simp add: slept_def)
    then show ?thesis using True alive t by (simp add: slept_def)
  qed
next
  case False
  then have ne: "pipe_bytes (pipes s pi) \<noteq> [] \<or> \<not> pi_writeopen (pipes s pi)" by (simp add: q_def)
  from piperead_take [OF assms(1) ne assms(2,3)] obtain j m' where
    j: "ends (piperead_loop pi pt addr n) (acq (PipeLock pi) s)
      (\<lambda>r. \<exists>t. r = Done (int j) t \<and> eqv (s\<lparr>mem := m', pipes := upd (pipes s) pi (pget ^^ taken j m)\<rparr>) t \<and> awake (PipeWrite pi) t)"
      "copied N (mem s) pt addr (take (nat n) q) j m'"
    unfolding q_def [symmetric] pt_def [symmetric] m_def [symmetric] by blast
  have len: "length (take (nat n) q) = m" by (simp add: m_def min.commute)
  have r: "reach (mem s) pt addr m j" using j(2) unfolding copied_def len by blast
  then have jk: "j = k" using reach_unique reach_mapped unfolding k_def by metis
  have "ends (piperead pi addr n) s
      (\<lambda>r. \<exists>t. r = Done (int j) t \<and> eqv (s\<lparr>mem := m', pipes := upd (pipes s) pi (pget ^^ taken j m)\<rparr>) t \<and> awake (PipeWrite pi) t)"
    unfolding piperead_def using j(1) by (intro ends_call [OF assms(1)]) (simp add: pt_def)
  from endsD [OF this] obtain t where t: "piperead pi addr n s = Done (int k) t"
      "eqv (s\<lparr>mem := m', pipes := upd (pipes s) pi (pget ^^ taken k m)\<rparr>) t" "awake (PipeWrite pi) t"
    unfolding jk by blast
  have f: "mem t = m'" "pipes t = upd (pipes s) pi (pget ^^ taken k m)"
    using eqv_mem(1) [OF t(2)] eqv_pipes(1) [OF t(2)] by simp_all
  have km: "k \<le> m" "m \<le> length q" "m \<le> nat n" using r jk by (simp_all add: reach_def m_def)
  have w: "wrote (mem s) m' (\<lambda>i. phys (mem s) pt (addr + of_nat i)) (take k q)"
    and e: "same_ents N (mem s) m'"
    using j(2) km by (simp_all add: copied_def jk take_take)
  have wf: "pt_wf N (mem s)" "N pt = Some 2" using assms(1) by (simp_all add: pipe_user_def pt_def)
  have "copied N (mem s) pt addr (take k q) (length (take k q)) m'"
    using w e r jk km by (simp add: copied_def reach_def)
  from ubytes_wrote [OF wf this] have "ubytes m' pt addr k = take k q" using km by simp
  moreover have "pipe_bytes (pipes t pi) = drop (taken k m) q"
    using pipe_bytes_gets [of "taken k m" "pipes s pi"] km by (simp add: f taken_def q_def)
  moreover have "\<forall>a. (\<forall>i<k. a \<noteq> phys (mem s) pt (addr + of_nat i)) \<longrightarrow> m' a = mem s a"
    using w km by (simp add: wrote_def)
  ultimately show ?thesis
    using False t(1,3) f by (simp add: taken_def)
qed

theorem piperead_takes_witness:
  "\<exists>t. piperead 0x80007000 0x1000 8 (demo_flst [1, 2, 3]) = Done 3 t \<and> ubytes (mem t) ROOT 0x1000 3 = [1, 2, 3] \<and>
    pipe_bytes (pipes t 0x80007000) = []"
proof -
  let ?s = "demo_flst [1, 2, 3]"
  have q: "pipe_bytes (demo_pipe [1, 2, 3]) = [1, 2, 3]" by (rule demo_pipe_bytes) (simp add: PIPESIZE_def)
  have r: "user_range demo_nodes (mem ?s) (p_pagetable (procs ?s 0)) 0x1000 (nat 8)"
    unfolding demo_flst_user by (simp, rule demo_user_range) simp
  have "mapped demo_mem ROOT 0x1000 3 = 3" by (rule reach_all [OF reach_mapped]) (auto simp: demo_upage_page)
  then show ?thesis
    using piperead_takes [OF demo_flst_user(1) _ r, of "0x80007000"]
    by (auto simp: demo_flst_user q numeral_3_eq_3)
qed

end
