(* ===== verification/Descriptor.thy ===== *)
theory Descriptor
  imports SysFile Pipe
begin

text \<open>
  System calls on file descriptors, from \<^verbatim>\<open>syscall()\<close> (\<^verbatim>\<open>kernel/syscall.c\<close>) through
  \<^verbatim>\<open>kernel/sysfile.c\<close> and \<^verbatim>\<open>kernel/file.c\<close> down to the pipe: which descriptors are
  refused, and that a \<^verbatim>\<open>write()\<close> on the end of a pipe arrives in it.
\<close>

section \<open>Arguments in the calculus\<close>

text \<open>Argument register \<open>a\<close>\<open>n\<close> of a process, and its low half as a signed number.\<close>

definition reg :: "'z pst_scheme \<Rightarrow> nat \<Rightarrow> nat \<Rightarrow> u64" where
  "reg s p n = load64 (mem s) (p_tf (procs s p) + TF_A n)"

definition ireg :: "'z pst_scheme \<Rightarrow> nat \<Rightarrow> nat \<Rightarrow> int" where
  "ireg s p n = sint (ucast (reg s p n) :: u32)"

lemma eqv_tf: "eqv s t \<Longrightarrow> p_tf (procs t p) = p_tf (procs s p) \<and> p_ofile (procs t p) = p_ofile (procs s p)"
  unfolding eqv_def calm_def proc_calm_def by (metis proc.select_convs proc.surjective proc.update_convs)

lemma does_tf: "does (get_proc p p_tf) s (p_tf (procs s p)) s"
  unfolding get_proc_def by (rule does_gets) (simp add: eqv_tf)

lemma does_r_tf:
  assumes "p_tf (procs s p) \<noteq> 0"
  shows "does (r_tf p (TF_A n)) s (reg s p n) s"
  unfolding r_tf_def reg_def
  by (rule does_bnd [OF does_tf], simp add: assms, rule does_gets) (simp add: eqvs)

lemma does_w_tf:
  assumes "p_tf (procs s p) \<noteq> 0"
  shows "does (w_tf p (TF_A n) v) s () (s\<lparr>mem := store64 (p_tf (procs s p) + TF_A n) v (mem s)\<rparr>)"
  unfolding w_tf_def upd_mem_def
  by (rule does_bnd [OF does_tf], simp add: assms, rule does_modify) (simp add: eqvs)

text \<open>The running process \<open>p\<close>, with a trap frame.\<close>

definition in_call :: "nat \<Rightarrow> 'z pst_scheme \<Rightarrow> bool" where
  "in_call p s \<longleftrightarrow> settled {} s \<and> curproc s = Some p \<and> p_tf (procs s p) \<noteq> 0"

lemma in_callD: "in_call p s \<Longrightarrow> does curp s p s" "in_call p s \<Longrightarrow> p_tf (procs s p) \<noteq> 0"
  using does_curp [of "{}" s p] by (simp_all add: in_call_def)

lemma does_argraw:
  assumes "in_call p s" "n \<le> 5"
  shows "does (argraw n) s (reg s p n) s"
  unfolding argraw_def
  by (rule does_bnd [OF in_callD(1) [OF assms(1)]]) (simp add: assms(2) does_r_tf in_callD(2) [OF assms(1)])

lemma does_argint: "in_call p s \<Longrightarrow> n \<le> 5 \<Longrightarrow> does (argint n) s (ireg s p n) s"
  unfolding argint_def ireg_def by (rule does_bnd, rule does_argraw, assumption+, rule does_ret)

lemma does_argaddr: "in_call p s \<Longrightarrow> n \<le> 5 \<Longrightarrow> does (argaddr n) s (reg s p n) s"
  unfolding argaddr_def by (rule does_argraw)

text \<open>The open file of descriptor \<open>fd\<close>.\<close>

definition fd_file :: "'z pst_scheme \<Rightarrow> nat \<Rightarrow> int \<Rightarrow> nat option" where
  "fd_file s p fd = (if fd < 0 \<or> fd \<ge> int NOFILE then None else p_ofile (procs s p) (nat fd))"

lemma does_argfd:
  assumes "in_call p s" "n \<le> 5"
  shows "does (argfd n) s (map_option (\<lambda>f. (nat (ireg s p n), f)) (fd_file s p (ireg s p n))) s"
proof (cases "ireg s p n < 0 \<or> ireg s p n \<ge> int NOFILE")
  case True
  show ?thesis
    unfolding argfd_def fd_file_def using True
    by (intro does_bnd [OF does_argint [OF assms]]) (auto simp: does_ret)
next
  case False
  note c = in_callD(1) [OF assms(1)]
  have g: "does (get_proc p (\<lambda>x. p_ofile x fd)) s (p_ofile (procs s p) fd) s" for fd
    unfolding get_proc_def by (rule does_gets) (simp add: eqv_tf)
  have "does (ret (case p_ofile (procs s p) fd of None \<Rightarrow> None | Some f \<Rightarrow> Some (fd, f))) s
      (map_option (\<lambda>f. (fd, f)) (p_ofile (procs s p) fd)) s" for fd
    by (cases "p_ofile (procs s p) fd") (simp_all add: does_ret)
  note r = this
  show ?thesis
    unfolding argfd_def fd_file_def
    by (rule does_bnd [OF does_argint [OF assms]], simp add: False, rule does_bnd [OF c], rule does_bnd [OF g], rule r)
qed

section \<open>Dispatch\<close>

lemma ends_syscall:
  assumes "in_call p s" and "ireg s p 7 = int nr" and "0 < nr" and "map_of syscalls nr = Some f"
    and "ends (bnd f (\<lambda>r. w_tf p (TF_A 0) r)) s P"
  shows "ends syscall s P"
proof -
  note c = in_callD(1) [OF assms(1)] and tf = in_callD(2) [OF assms(1)]
  have n: "sint (ucast (reg s p 7) :: u32) = int nr" using assms(2) by (simp add: ireg_def)
  show ?thesis
    unfolding syscall_def Let_def
    by (rule ends_bnd [OF c], rule ends_bnd [OF does_r_tf [OF tf]]) (simp add: n assms(3-5))
qed

lemma syscalls_of:
  "map_of syscalls SYS_dup = Some sys_dup" "map_of syscalls SYS_read = Some sys_read"
  "map_of syscalls SYS_write = Some sys_write" "map_of syscalls SYS_close = Some sys_close"
  "map_of syscalls SYS_fstat = Some sys_fstat"
  by (simp_all add: syscalls_def SYS_fork_def SYS_exit_def SYS_wait_def SYS_pipe_def SYS_read_def SYS_kill_def
      SYS_exec_def SYS_fstat_def SYS_chdir_def SYS_dup_def SYS_getpid_def SYS_sbrk_def SYS_sleep_def SYS_uptime_def
      SYS_open_def SYS_write_def SYS_mknod_def SYS_unlink_def SYS_link_def SYS_mkdir_def SYS_close_def)

section \<open>Refused descriptors\<close>

lemma more_ftable: "pst.more t = pst.more s \<Longrightarrow> ftable t = ftable s"
  by (cases s; cases t) simp

lemma does_get_file: "does (get_file f g) s (g (ftable s f)) s"
  unfolding get_file_def by (rule does_gets) (metis eqv_def more_ftable)

text \<open>
  The descriptor is not open, or is open but not for reading, respectively writing, as the call
  wants.
\<close>

definition refused :: "nat \<Rightarrow> 'z flst_scheme \<Rightarrow> nat \<Rightarrow> int \<Rightarrow> bool" where
  "refused nr s p fd \<longleftrightarrow> (case fd_file s p fd of None \<Rightarrow> True
     | Some f \<Rightarrow> nr = SYS_read \<and> \<not> f_readable (ftable s f) \<or> nr = SYS_write \<and> \<not> f_writable (ftable s f))"

lemma does_refused:
  assumes "in_call p s"
  shows "fd_file s p (ireg s p 0) = None \<Longrightarrow> does sys_dup s (-1) s"
    "fd_file s p (ireg s p 0) = None \<Longrightarrow> does sys_close s (-1) s"
    "fd_file s p (ireg s p 0) = None \<Longrightarrow> does sys_fstat s (-1) s"
    "refused SYS_read s p (ireg s p 0) \<Longrightarrow> does sys_read s (-1) s"
    "refused SYS_write s p (ireg s p 0) \<Longrightarrow> does sys_write s (-1) s"
proof -
  have r: "does (ret (int_result (-1))) s (-1) s" using does_ret [of "-1" s] by (simp add: int_result_def)
  note a = does_argfd [OF assms, of 0, simplified]
  have i: "does (argint 2) s (ireg s p 2) s" and d: "does (argaddr (Suc 0)) s (reg s p 1) s"
    using does_argint [OF assms, of 2] does_argaddr [OF assms, of 1] by simp_all
  show "does sys_dup s (-1) s" "does sys_close s (-1) s" "does sys_fstat s (-1) s"
    if "fd_file s p (ireg s p 0) = None"
    unfolding sys_dup_def sys_close_def sys_fstat_def by (rule does_bnd [OF a], simp add: that r)+
  show "does sys_read s (-1) s" if "refused SYS_read s p (ireg s p 0)"
  proof (cases "fd_file s p (ireg s p 0)")
    case None
    then show ?thesis unfolding sys_read_def by (intro does_bnd [OF a]) (simp add: r)
  next
    case (Some f)
    then have "\<not> f_readable (ftable s f)" using that by (simp add: refused_def SYS_read_def SYS_write_def)
    then have "does (fileread f (reg s p 1) (ireg s p 2)) s (-1) s"
      unfolding fileread_def by (intro does_bnd [OF does_get_file]) (simp add: does_ret)
    note f = does_bnd [where g = "\<lambda>r. ret (int_result r)", OF this r]
    show ?thesis
      unfolding sys_read_def
      by (rule does_bnd [OF a], simp add: Some, rule does_bnd [OF i], rule does_bnd [OF d], rule f)
  qed
  show "does sys_write s (-1) s" if "refused SYS_write s p (ireg s p 0)"
  proof (cases "fd_file s p (ireg s p 0)")
    case None
    then show ?thesis unfolding sys_write_def by (intro does_bnd [OF a]) (simp add: r)
  next
    case (Some f)
    then have "\<not> f_writable (ftable s f)" using that by (simp add: refused_def SYS_read_def SYS_write_def)
    then have "does (filewrite f (reg s p 1) (ireg s p 2)) s (-1) s"
      unfolding filewrite_def by (intro does_bnd [OF does_get_file]) (simp add: does_ret)
    note f = does_bnd [where g = "\<lambda>r. ret (int_result r)", OF this r]
    show ?thesis
      unfolding sys_write_def
      by (rule does_bnd [OF a], simp add: Some, rule does_bnd [OF i], rule does_bnd [OF d], rule f)
  qed
qed

section \<open>A process with a pipe\<close>

text \<open>
  The process of the demonstration, in a system call \<open>nr\<close> with the descriptor \<open>fd\<close>, an address and
  a count; descriptor 3 is the writing end of an empty pipe.
\<close>

definition demo_frame :: "u64 \<Rightarrow> u64 \<Rightarrow> memory" where
  "demo_frame nr fd = store64 (slot 0x80007000 21) nr (store64 (slot 0x80007000 14) fd (
     store64 (slot 0x80007000 15) 0x1000 (store64 (slot 0x80007000 16) 3 demo_mem)))"

definition demo_call :: "u64 \<Rightarrow> u64 \<Rightarrow> krst" where
  "demo_call nr fd = (booted (\<lambda>_ _. 0) \<lparr>logs = undefined, sb = undefined, icache = undefined, uart0 = undefined,
     panicked = False, pr_locking = True, cons = undefined,
     ftable = (\<lambda>_. \<lparr>f_type = FD_PIPE, f_ref = 1, f_readable = False, f_writable = True, f_pipe = 0x80008000, f_ip = None,
       f_off = 0, f_major = 0\<rparr>),
     pipes = (\<lambda>_. demo_pipe []), devsw = undefined, ksym_forkret = 0, ksym_usertrap = 0, ksym_kernelvec = 0,
     ksym_uservec = 0, ksym_userret = 0, fork_first = False\<rparr>)
     \<lparr>mem := demo_frame nr fd,
      procs := (\<lambda>_. zero_proc\<lparr>p_pagetable := ROOT, p_tf := 0x80007000, p_ofile := [3 \<mapsto> 5]\<rparr>)\<rparr>"

lemma demo_frame_aligned: "page_aligned 0x80007000"
  by (simp add: page_aligned_def PGSIZE_def)

lemma demo_frame_wf: "pt_wf demo_nodes (demo_frame nr fd)" "same_ents demo_nodes demo_mem (demo_frame nr fd)"
proof -
  have "ent (demo_frame nr fd) p i = ent demo_mem p i" if "demo_nodes p = Some l" "i < 512" for p l i
  proof -
    have "page_aligned p" "p \<noteq> 0x80007000"
      using pt_wf_page [OF demo_wf that(1)] that(1) by (auto simp: demo_nodes_def ROOT_def split: if_splits)
    then show ?thesis using that(2) demo_frame_aligned by (simp add: demo_frame_def ent_store)
  qed
  then show e: "same_ents demo_nodes demo_mem (demo_frame nr fd)" by (simp add: same_ents_def)
  show "pt_wf demo_nodes (demo_frame nr fd)" by (rule pt_wf_same [OF demo_wf e])
qed

lemma demo_call_simps [simp]:
  "mem (demo_call nr fd) = demo_frame nr fd" "pipes (demo_call nr fd) pi = demo_pipe []"
  "procs (demo_call nr fd) p = zero_proc\<lparr>p_pagetable := ROOT, p_tf := 0x80007000, p_ofile := [3 \<mapsto> 5]\<rparr>"
  "ftable (demo_call nr fd) f = \<lparr>f_type = FD_PIPE, f_ref = 1, f_readable = False, f_writable = True,
    f_pipe = 0x80008000, f_ip = None, f_off = 0, f_major = 0\<rparr>"
  by (simp_all add: demo_call_def booted_def)

lemma demo_call_ok: "in_call 0 (demo_call nr fd)" "pipe_user demo_nodes 0 (demo_call nr fd)"
proof -
  have "settled {} (demo_call nr fd)" by (simp add: demo_call_def)
  moreover have "curproc (demo_call nr fd) = Some 0" "depth (demo_call nr fd) = 0"
    by (simp_all add: demo_call_def booted_def curproc_def depth_def zero_defs)
  ultimately show "in_call 0 (demo_call nr fd)" "pipe_user demo_nodes 0 (demo_call nr fd)"
    using demo_frame_wf(1) demo_state(2) by (simp_all add: in_call_def pipe_user_def)
qed

lemma demo_regs:
  "reg (demo_call nr fd) 0 0 = fd" "reg (demo_call nr fd) 0 1 = 0x1000" "reg (demo_call nr fd) 0 2 = 3"
  "reg (demo_call nr fd) 0 7 = nr"
proof -
  have r: "reg (demo_call nr fd) 0 i = ent (demo_frame nr fd) 0x80007000 (14 + i)" for i
    by (simp add: reg_def ent_def slot_def TF_A_def algebra_simps)
  show "reg (demo_call nr fd) 0 0 = fd" "reg (demo_call nr fd) 0 1 = 0x1000" "reg (demo_call nr fd) 0 2 = 3"
    "reg (demo_call nr fd) 0 7 = nr"
    unfolding r demo_frame_def using demo_frame_aligned by (simp_all add: ent_store)
qed

section \<open>Errors\<close>

text \<open>
  C18: A bad descriptor is an error without side effect.  If one of \<^verbatim>\<open>dup()\<close>, \<^verbatim>\<open>read()\<close>,
  \<^verbatim>\<open>write()\<close>, \<^verbatim>\<open>close()\<close> and \<^verbatim>\<open>fstat()\<close> is called with a descriptor that is out of
  range, not open, or (for \<^verbatim>\<open>read()\<close> and \<^verbatim>\<open>write()\<close>) open only for the opposite direction,
  \<^verbatim>\<open>syscall()\<close> returns with -1 in the register \<^verbatim>\<open>a0\<close> of the trap frame and everything
  else in memory, in the process and in the files as it was.
\<close>

theorem syscall_refuses:
  assumes "in_call p s" and "ireg s p 7 = int nr" and "nr \<in> {SYS_dup, SYS_read, SYS_write, SYS_close, SYS_fstat}"
    and "refused nr s p (ireg s p 0)"
  shows "\<exists>t. syscall s = Done () t \<and> eqv (s\<lparr>mem := store64 (p_tf (procs s p) + TF_A 0) (-1) (mem s)\<rparr>) t"
proof -
  let ?P = "\<lambda>r. \<exists>t. r = Done () t \<and> eqv (s\<lparr>mem := store64 (p_tf (procs s p) + TF_A 0) (-1) (mem s)\<rparr>) t"
  have w: "ends (bnd f (\<lambda>r. w_tf p (TF_A 0) r)) s ?P" if "does f s (-1) s" for f
    by (rule ends_does [OF does_bnd [OF that does_w_tf [OF in_callD(2) [OF assms(1)]]]]) simp
  have none: "fd_file s p (ireg s p 0) = None" if "nr \<noteq> SYS_read" "nr \<noteq> SYS_write"
    using assms(4) that by (auto simp: refused_def split: option.splits)
  have "SYS_dup \<notin> {SYS_read, SYS_write}" "SYS_close \<notin> {SYS_read, SYS_write}" "SYS_fstat \<notin> {SYS_read, SYS_write}"
    by (simp_all add: SYS_dup_def SYS_read_def SYS_write_def SYS_close_def SYS_fstat_def)
  then have "\<exists>f. map_of syscalls nr = Some f \<and> does f s (-1) s"
    using assms(3,4) syscalls_of does_refused [OF assms(1)] none by auto
  moreover have "0 < nr" using assms(3) by (auto simp: SYS_dup_def SYS_read_def SYS_write_def SYS_close_def SYS_fstat_def)
  ultimately obtain f where "map_of syscalls nr = Some f" "does f s (-1) s" "0 < nr" by blast
  then show ?thesis using endsD [OF ends_syscall [OF assms(1,2) _ _ w]] by blast
qed

theorem syscall_refuses_witness:
  "\<exists>t. syscall (demo_call 5 3) = Done () t \<and> eqv ((demo_call 5 3)\<lparr>mem := store64 (0x80007000 + TF_A 0) (-1) (demo_frame 5 3)\<rparr>) t"
proof -
  have r: "ireg (demo_call 5 3) 0 0 = 3" "ireg (demo_call 5 3) 0 7 = int SYS_read"
    by (simp_all add: ireg_def demo_regs SYS_read_def)
  have "refused SYS_read (demo_call 5 3) 0 (ireg (demo_call 5 3) 0 0)"
    unfolding r by (simp add: refused_def fd_file_def NOFILE_def)
  then show ?thesis using syscall_refuses [OF demo_call_ok(1) r(2)] by simp
qed

section \<open>Writing to a pipe\<close>

lemma ends_map:
  assumes "ends f s P"
  shows "ends (bnd f (\<lambda>v. ret (h v))) s (\<lambda>r. \<exists>q. P q \<and> r = map_outcome h id q)"
proof -
  have "bnd f (\<lambda>v. ret (h v)) u = map_outcome h id (f u)" for u
    by (cases "f u") (simp_all add: run)
  then show ?thesis using assms by (auto simp: ends_def)
qed

lemma ends_sys_write:
  assumes "in_call p s" and "fd_file s p (ireg s p 0) = Some f" and "f_writable (ftable s f)" and "f_type (ftable s f) = FD_PIPE"
    and "ends (pipewrite (f_pipe (ftable s f)) (reg s p 1) (ireg s p 2)) s P"
  shows "ends sys_write s (\<lambda>r. \<exists>q. P q \<and> r = map_outcome int_result id q)"
proof -
  note a = does_argfd [OF assms(1), of 0, simplified]
  have i: "does (argint 2) s (ireg s p 2) s" and d: "does (argaddr (Suc 0)) s (reg s p 1) s"
    using does_argint [OF assms(1), of 2] does_argaddr [OF assms(1), of 1] by simp_all
  have "ends (filewrite f (reg s p 1) (ireg s p 2)) s P"
    unfolding filewrite_def by (rule ends_bnd [OF does_get_file]) (use assms(5) in \<open>simp add: assms(3,4)\<close>)
  note w = ends_map [OF this, of int_result]
  show ?thesis
    unfolding sys_write_def
    by (rule ends_bnd [OF a], simp add: assms(2), rule ends_bnd [OF i], rule ends_bnd [OF d], rule w)
qed

text \<open>
  C17: A \<^verbatim>\<open>write()\<close> on the writing end of a pipe, through \<^verbatim>\<open>syscall()\<close>,
  \<^verbatim>\<open>sys_write()\<close>, \<^verbatim>\<open>filewrite()\<close> and \<^verbatim>\<open>pipewrite()\<close>: the bytes of the caller's
  memory at the address in \<^verbatim>\<open>a1\<close>, as many as are mapped and fit, are appended to the pipe.  The
  call sleeps if the room ended first, the pipe has a reader and the caller has not been killed;
  otherwise it ends with the count of \<^verbatim>\<open>a2\<close>, or -1 if the room ended first, in \<^verbatim>\<open>a0\<close>.
\<close>

theorem syscall_write_pipe:
  fixes s :: "'z krst_scheme"
  assumes "in_call p s" and "pipe_user N p s" and "ireg s p 7 = int SYS_write"
    and "fd_file s p (ireg s p 0) = Some f" and "f_writable (ftable s f)" and "f_type (ftable s f) = FD_PIPE"
    and "pipe_ok (pipes s (f_pipe (ftable s f)))" and "0 \<le> ireg s p 2" and "unat (reg s p 1) + nat (ireg s p 2) \<le> 2 ^ 32"
  defines "pi \<equiv> f_pipe (ftable s f)" and "pt \<equiv> p_pagetable (procs s p)" and "n \<equiv> nat (ireg s p 2)"
  defines "room \<equiv> PIPESIZE - length (pipe_bytes (pipes s pi))" and "k \<equiv> mapped (mem s) pt (reg s p 1) n"
  shows "\<exists>t. syscall s =
      (if room < n \<and> room \<le> k \<and> pi_readopen (pipes s pi) \<and> \<not> p_killed (procs s p) then Blocked t else Done () t) \<and>
    pipe_bytes (pipes t pi) = pipe_bytes (pipes s pi) @ ubytes (mem s) pt (reg s p 1) (min k room) \<and>
    (syscall s = Done () t \<longrightarrow> reg t p 0 = (if room < n \<and> room \<le> k then -1 else word_of_int (ireg s p 2)))"
proof -
  note tf = in_callD(2) [OF assms(1)]
  let ?P = "write_end s pi p (reg s p 1) (ireg s p 2) n k"
  have e: "ends (pipewrite pi (reg s p 1) (ireg s p 2)) s ?P"
    using pipewrite_ends [OF assms(2,7,8,9)] by (simp add: pi_def n_def k_def pt_def)
  define bs where "bs = ubytes (mem s) pt (reg s p 1) (min k room)"
  define s' where "s' = s\<lparr>pipes := upd (pipes s) pi (fold pput bs)\<rparr>"
  define stuck where "stuck \<longleftrightarrow> room < n \<and> room \<le> k"
  define sleeps where "sleeps \<longleftrightarrow> stuck \<and> pi_readopen (pipes s pi) \<and> \<not> p_killed (procs s p)"
  have P: "?P q \<longleftrightarrow> (if sleeps then \<exists>t. q = Blocked t \<and> slept s' p (PipeWrite pi) (PipeLock pi) t \<and> awake (PipeRead pi) t
      else if stuck then \<exists>t. q = Done (-1) t \<and> eqv s' t
      else \<exists>t. q = Done (ireg s p 2) t \<and> eqv s' t \<and> awake (PipeRead pi) t)" for q
    unfolding write_end_def Let_def pt_def [symmetric] room_def [symmetric] bs_def [symmetric] s'_def [symmetric]
      stuck_def [symmetric]
    by (cases stuck; cases "\<not> pi_readopen (pipes s pi) \<or> p_killed (procs s p)") (auto simp: sleeps_def)
  have w: "w_tf p (TF_A 0) v t = Done () (t\<lparr>mem := store64 (p_tf (procs s p) + TF_A 0) v (mem t)\<rparr>) \<and>
      reg (t\<lparr>mem := store64 (p_tf (procs s p) + TF_A 0) v (mem t)\<rparr>) p 0 = v \<and> pipes t = pipes s'" if "eqv s' t" for t v
  proof -
    have "p_tf (procs t p) = p_tf (procs s p)" using eqv_tf [OF that, of p] by (simp add: s'_def)
    then show ?thesis using tf eqv_pipes(1) [OF that] by (simp add: w_tf_def get_proc_def run reg_def)
  qed
  let ?Q = "\<lambda>r. \<exists>t. r = (if sleeps then Blocked t else Done () t) \<and> pipes t = pipes s' \<and>
      (\<not> sleeps \<longrightarrow> reg t p 0 = (if stuck then -1 else word_of_int (ireg s p 2)))"
  have "ends (bnd sys_write (\<lambda>r. w_tf p (TF_A 0) r)) s ?Q"
    unfolding ends_def
  proof (intro allI impI)
    fix u
    assume "eqv s u"
    then obtain q where q: "?P q" "sys_write u = map_outcome int_result id q"
      using ends_sys_write [OF assms(1,4-6) e [unfolded pi_def]] unfolding ends_def pi_def by blast
    show "?Q (bnd sys_write (\<lambda>r. w_tf p (TF_A 0) r) u)"
    proof (cases sleeps)
      case True
      then obtain t where t: "q = Blocked t" "slept s' p (PipeWrite pi) (PipeLock pi) t" using q(1) unfolding P by auto
      then have "pipes t = pipes s'" by (intro more_pipes) (simp add: slept_def)
      then show ?thesis using True q(2) t(1) by (simp add: run)
    next
      case False
      then obtain v t where t: "q = Done v t" "eqv s' t" "v = (if stuck then -1 else ireg s p 2)"
        using q(1) unfolding P by (auto split: if_splits)
      show ?thesis
        using False q(2) w [OF t(2), of "int_result v"] t(1,3) by (auto simp: run int_result_def)
    qed
  qed
  from endsD [OF ends_syscall [OF assms(1,3) _ syscalls_of(3) this]] obtain t where
    t: "syscall s = (if sleeps then Blocked t else Done () t)" "pipes t = pipes s'"
      "\<not> sleeps \<longrightarrow> reg t p 0 = (if stuck then -1 else word_of_int (ireg s p 2))" by (auto simp: SYS_write_def)
  have "length (pipe_bytes (pipes s pi)) + length bs \<le> PIPESIZE"
    using assms(7) by (simp add: bs_def ubytes_def room_def pipe_ok_def pi_def)
  from pipe_bytes_puts [OF this] have "pipe_bytes (pipes t pi) = pipe_bytes (pipes s pi) @ bs"
    by (simp add: t(2) s'_def)
  then show ?thesis
    using t(1,3) unfolding bs_def sleeps_def stuck_def by (intro exI [of _ t]) auto
qed

theorem syscall_write_pipe_witness:
  "\<exists>t. syscall (demo_call 16 3) = Done () t \<and> reg t 0 0 = 3 \<and>
    pipe_bytes (pipes t 0x80008000) = ubytes (demo_frame 16 3) ROOT 0x1000 3"
proof -
  let ?s = "demo_call 16 3"
  have r: "ireg ?s 0 0 = 3" "ireg ?s 0 7 = int SYS_write" "ireg ?s 0 2 = 3" "reg ?s 0 1 = 0x1000"
    by (simp_all add: ireg_def demo_regs SYS_write_def) (simp add: demo_regs(2) [simplified])
  have f: "fd_file ?s 0 (ireg ?s 0 0) = Some 5" unfolding r by (simp add: fd_file_def NOFILE_def)
  have q: "pipe_bytes (demo_pipe []) = []" "pipe_ok (demo_pipe [])" by (rule demo_pipe_bytes, simp)+
  have u: "upage (demo_frame 16 3) ROOT va = upage demo_mem ROOT va" for va
    by (rule upage_same(1) [OF demo_wf demo_frame_wf(2) demo_state(2)])
  have k: "mapped (demo_frame 16 3) ROOT 0x1000 3 = 3"
    by (rule reach_all [OF reach_mapped]) (auto simp: u demo_upage_page)
  from syscall_write_pipe [OF demo_call_ok r(2) f] show ?thesis
    unfolding r by (auto simp: q k PIPESIZE_def)
qed

end
