(* ===== verification/Fair.thy ===== *)
theory Fair
  imports Sched "HOL-Library.Sublist"
begin

text \<open>
  The scheduler of \<^verbatim>\<open>proc.c\<close> is fair: one pass over the process table switches to every
  process that is runnable when the pass begins, whatever the processes do while they run, as long as
  they come back the way \<^verbatim>\<open>sched()\<close> requires.

  \<^verbatim>\<open>swtch()\<close> ends an operation as \<open>Blocked\<close>; \<open>pass\<close> joins the parts.  Its parameter \<open>env\<close>
  is what happens between the switch to a process and the process's switch back: the process runs in
  the kernel and in user space, interrupts arrive, other processes are woken.
\<close>

section \<open>A whole pass\<close>

definition after :: "nat \<Rightarrow> nat list \<Rightarrow> nat list" where
  "after p ps = tl (dropWhile (\<lambda>q. q \<noteq> p) ps)"

lemma after_append: "p \<notin> set as \<Longrightarrow> after p (as @ p # bs) = bs"
  unfolding after_def by (subst dropWhile_append2) auto

lemma length_after: "p \<in> set ps \<Longrightarrow> length (after p ps) < length ps"
  by (induction ps) (auto simp: after_def)

function pass :: "(nat \<Rightarrow> 'z pst_scheme \<Rightarrow> 'z pst_scheme) \<Rightarrow> ('z pst_scheme, unit) kop \<Rightarrow> nat list
    \<Rightarrow> 'z pst_scheme \<Rightarrow> nat list \<times> (unit, 'z pst_scheme) outcome" where
  "pass env f ps s =
    (case f s of
       Blocked t \<Rightarrow>
         (case curproc t of
            None \<Rightarrow> ([], Blocked t)
          | Some p \<Rightarrow>
              if p \<in> set ps
              then apfst (Cons p) (pass env (scheduler_resume p (after p ps)) (after p ps) (env p t))
              else ([], Blocked t))
     | r \<Rightarrow> ([], r))"
  by pat_completeness auto
termination
  by (relation "measure (\<lambda>(env, f, ps, s). length ps)") (auto simp: length_after)

declare pass.simps [simp del]

section \<open>What the scheduler and a process owe each other\<close>

text \<open>
  \<open>on_cpu p s\<close>: the hart holds the lock of \<open>p\<close> and no other.  Both directions of
  \<^verbatim>\<open>swtch()\<close> happen in such a state.
\<close>

definition on_cpu :: "nat \<Rightarrow> 'z hw_scheme \<Rightarrow> bool" where
  "on_cpu p s \<longleftrightarrow> irq_wf s \<and> depth s = 1 \<and> lk_held (ProcLock p) s
     \<and> (\<forall>l. l \<noteq> ProcLock p \<longrightarrow> lk_clean l s)"

definition runnable :: "'z pst_scheme \<Rightarrow> nat set" where
  "runnable s = {p. p_state (procs s p) = RUNNABLE}"

text \<open>
  \<open>hands_back env\<close>: a process that is given the hart returns it through \<^verbatim>\<open>sched()\<close>, and
  takes no other runnable process off the table meanwhile (only a scheduler does).
\<close>

definition hands_back :: "(nat \<Rightarrow> 'z pst_scheme \<Rightarrow> 'z pst_scheme) \<Rightarrow> bool" where
  "hands_back env \<longleftrightarrow> (\<forall>p t. on_cpu p t \<longrightarrow> curproc t = Some p \<longrightarrow> p_state (procs t p) = RUNNING
     \<longrightarrow> on_cpu p (env p t) \<and> runnable t \<subseteq> runnable (env p t))"

definition idle_hart :: "'z hw_scheme \<Rightarrow> bool" where
  "idle_hart s \<longleftrightarrow> settled {} s \<and> depth s = 0"

lemma on_cpu_frame:
  "same_hw s t \<Longrightarrow> on_cpu p s \<Longrightarrow> on_cpu p t"
  by (auto simp: same_hw_def on_cpu_def irq_wf_def depth_def lk_held_def lk_clean_def irq_on_def)

lemma on_cpu_proc [simp]:
  "on_cpu p (s\<lparr>cpus := upd (cpus s) (tp s) (\<lambda>k. k\<lparr>cpu_proc := q\<rparr>)\<rparr>) = on_cpu p s"
  by (simp add: on_cpu_def irq_wf_def depth_def lk_held_def lk_clean_def irq_on_def upd_def)

lemma on_cpu_acq: "idle_hart s \<Longrightarrow> on_cpu p (acq (ProcLock p) s)"
  using irq_on_acq [of "ProcLock p" s]
  by (auto simp: on_cpu_def idle_hart_def settled_def irq_wf_def depth_def lk_held_def lk_clean_def
      acq_def locks_acq_def pushed_def upd_def)

lemma release_on_cpu:
  fixes s :: "'z pst_scheme"
  assumes "on_cpu p s"
  shows "\<exists>t. release (ProcLock p) s = Done () t \<and> idle_hart t \<and> procs t = procs s \<and> curproc t = curproc s"
proof -
  let ?t = "rel (ProcLock p) s"
  have s: "irq_wf s" "depth s = 1" "lk_held (ProcLock p) s" "\<forall>l. l \<noteq> ProcLock p \<longrightarrow> lk_clean l s"
    using assms by (simp_all add: on_cpu_def)
  have "release (ProcLock p) s = Done () ?t"
    using s by (intro run_release) simp_all
  moreover have "depth ?t = 0"
    using s(2) by (simp add: rel_def depth_def)
  moreover have "lk_clean l ?t" for l
    using s(4) by (cases "l = ProcLock p") (auto simp: rel_def lk_clean_def locks_rel_def)
  moreover have "procs ?t = procs s" "curproc ?t = curproc s"
    by (simp_all add: rel_def curproc_def)
  ultimately show ?thesis
    by (auto simp: idle_hart_def settled_def irq_wf_def)
qed

text \<open>The scheduler passes a process over that is not runnable.\<close>

lemma scheduler_scan_skip:
  assumes "idle_hart s" and "p \<notin> runnable s"
  shows "\<exists>t. scheduler_scan (p # ps) found s = scheduler_scan ps found t \<and> idle_hart t \<and> procs t = procs s"
proof -
  have s: "settled {} s" using assms(1) by (simp add: idle_hart_def)
  obtain t where t: "proc_section p (\<lambda>q. q) s = Done () t" "settled {} t" "hw_bal s t" "procs t = procs s"
    using proc_section_run [OF s, of p "\<lambda>q. q"] by auto
  have a: "acquire (ProcLock p) s = Done () (acq (ProcLock p) s)"
    using run_acquire_settled [OF s] by simp
  have "release (ProcLock p) (acq (ProcLock p) s) = Done () t"
    using t(1) a by (simp add: proc_section_def upd_proc_def run)
  then have "scheduler_scan (p # ps) found s = scheduler_scan ps found t"
    using a assms(2) by (simp add: run get_proc_def runnable_def)
  then show ?thesis
    using t assms(1) by (auto simp: idle_hart_def hw_bal_def)
qed

text \<open>It switches to one that is runnable, holding its lock.\<close>

lemma scheduler_scan_switch:
  assumes "idle_hart s" and "p \<in> runnable s"
  shows "\<exists>t. scheduler_scan (p # ps) found s = Blocked t \<and> on_cpu p t \<and> curproc t = Some p
    \<and> procs t = upd (procs s) p (\<lambda>q. q\<lparr>p_state := RUNNING\<rparr>)"
proof -
  have s: "settled {} s" "depth s = 0" using assms(1) by (simp_all add: idle_hart_def)
  have a: "acquire (ProcLock p) s = Done () (acq (ProcLock p) s)"
    using run_acquire_settled [OF s(1)] by simp
  let ?u = "(acq (ProcLock p) s)\<lparr>procs := upd (procs s) p (\<lambda>q. q\<lparr>p_state := RUNNING\<rparr>)\<rparr>"
  let ?t = "?u\<lparr>cpus := upd (cpus ?u) (tp s) (\<lambda>k. k\<lparr>cpu_proc := Some p\<rparr>)\<rparr>"
  have "scheduler_scan (p # ps) found s = Blocked ?t"
    using a assms(2)
    by (simp add: run get_proc_def upd_proc_def runnable_def upd_cpu_def mycpu_def swtch_def)
  moreover have "on_cpu p ?t"
    using on_cpu_frame [of _ ?u, OF _ on_cpu_acq [OF assms(1)]] on_cpu_proc [of p ?u] by simp
  ultimately show ?thesis
    by (auto simp: curproc_def upd_def)
qed

text \<open>A scan ends at the first runnable process, or with interrupts on when there is none.\<close>

lemma scheduler_scan_run:
  assumes "idle_hart s"
  shows "(\<exists>as p bs t. ps = as @ p # bs \<and> set as \<inter> runnable s = {} \<and> p \<in> runnable s
      \<and> scheduler_scan ps found s = Blocked t \<and> on_cpu p t \<and> curproc t = Some p
      \<and> procs t = upd (procs s) p (\<lambda>q. q\<lparr>p_state := RUNNING\<rparr>))
    \<or> (\<exists>t. set ps \<inter> runnable s = {} \<and> scheduler_scan ps found s = Done () t \<and> idle_hart t \<and> procs t = procs s)"
  using assms
proof (induction ps arbitrary: s)
  case Nil
  have "idle_hart (irq_set_on s)"
    using Nil by (auto simp: idle_hart_def settled_def irq_wf_def lk_clean_def depth_def)
  moreover have "procs (irq_set_on s) = procs s" by (simp add: irq_set_on_def)
  ultimately show ?case
    using Nil by (cases found) (auto simp: run)
next
  case (Cons p ps)
  show ?case
  proof (cases "p \<in> runnable s")
    case True
    obtain t where "scheduler_scan (p # ps) found s = Blocked t" "on_cpu p t" "curproc t = Some p"
        "procs t = upd (procs s) p (\<lambda>q. q\<lparr>p_state := RUNNING\<rparr>)"
      using scheduler_scan_switch [OF Cons.prems True, of ps found] by blast
    then have "p # ps = [] @ p # ps \<and> set [] \<inter> runnable s = {} \<and> p \<in> runnable s
      \<and> scheduler_scan (p # ps) found s = Blocked t \<and> on_cpu p t \<and> curproc t = Some p
      \<and> procs t = upd (procs s) p (\<lambda>q. q\<lparr>p_state := RUNNING\<rparr>)"
      using True by simp
    then show ?thesis by blast
  next
    case False
    obtain t where t: "scheduler_scan (p # ps) found s = scheduler_scan ps found t" "idle_hart t" "procs t = procs s"
      using scheduler_scan_skip [OF Cons.prems False, of ps found] by blast
    have r: "runnable t = runnable s" using t(3) by (simp add: runnable_def)
    from Cons.IH [OF t(2)] show ?thesis
    proof (elim disjE exE conjE)
      fix as q bs u
      assume "ps = as @ q # bs" "set as \<inter> runnable t = {}" "q \<in> runnable t" "scheduler_scan ps found t = Blocked u"
        "on_cpu q u" "curproc u = Some q" "procs u = upd (procs t) q (\<lambda>x. x\<lparr>p_state := RUNNING\<rparr>)"
      then show ?thesis
        using False t r by (intro disjI1 exI [of _ "p # as"] exI [of _ q] exI [of _ bs] exI [of _ u]) simp
    next
      fix u
      assume "set ps \<inter> runnable t = {}" "scheduler_scan ps found t = Done () u" "idle_hart u" "procs u = procs t"
      then show ?thesis
        using False t r by auto
    qed
  qed
qed

text \<open>When the process comes back, its lock is released and the scan goes on.\<close>

lemma scheduler_resume_run:
  assumes "on_cpu p s"
  shows "\<exists>t. scheduler_resume p ps s = scheduler_scan ps True t \<and> idle_hart t \<and> procs t = procs s"
proof -
  let ?u = "s\<lparr>cpus := upd (cpus s) (tp s) (\<lambda>k. k\<lparr>cpu_proc := None\<rparr>)\<rparr>"
  obtain t where "release (ProcLock p) ?u = Done () t" "idle_hart t" "procs t = procs s"
    using release_on_cpu [of p ?u] assms by auto
  then show ?thesis
    by (auto simp: scheduler_resume_def run mycpu_def upd_cpu_def)
qed

section \<open>Fairness\<close>

lemma subseq_sorted_wrt: "subseq xs ys \<Longrightarrow> sorted_wrt R ys \<Longrightarrow> sorted_wrt R xs \<and> set xs \<subseteq> set ys"
  by (induction rule: list_emb.induct) auto

lemma pass_done: "f s = Done () t \<Longrightarrow> pass env f ps s = ([], Done () t)"
  by (simp add: pass.simps)

lemma pass_switch:
  "f s = Blocked t \<Longrightarrow> curproc t = Some p \<Longrightarrow> ps = as @ p # bs \<Longrightarrow> p \<notin> set as
    \<Longrightarrow> pass env f ps s = apfst (Cons p) (pass env (scheduler_resume p bs) bs (env p t))"
  by (subst pass.simps) (simp add: after_append)

lemma pass_cong: "f s = g t \<Longrightarrow> pass env f ps s = pass env g ps t"
  by (subst (1 2) pass.simps) simp

lemma pass_run:
  assumes "hands_back env" and "idle_hart s" and "distinct ps"
  shows "\<exists>qs t. pass env (scheduler_scan ps found) ps s = (qs, Done () t) \<and> subseq qs ps
    \<and> set ps \<inter> runnable s \<subseteq> set qs \<and> idle_hart t"
  using assms(2,3)
proof (induction "length ps" arbitrary: ps found s rule: less_induct)
  case less
  from scheduler_scan_run [OF less.prems(1), of ps found] show ?case
  proof (elim disjE exE conjE)
    fix t assume "set ps \<inter> runnable s = {}" "scheduler_scan ps found s = Done () t" "idle_hart t"
    then show ?thesis by (auto simp: pass_done)
  next
    fix as p bs t
    assume ps: "ps = as @ p # bs" "set as \<inter> runnable s = {}" "p \<in> runnable s"
      and t: "scheduler_scan ps found s = Blocked t" "on_cpu p t" "curproc t = Some p"
        "procs t = upd (procs s) p (\<lambda>q. q\<lparr>p_state := RUNNING\<rparr>)"
    have "on_cpu p (env p t)" and v: "runnable t \<subseteq> runnable (env p t)"
      using assms(1) t by (auto simp: hands_back_def upd_def)
    then obtain u where u: "scheduler_resume p bs (env p t) = scheduler_scan bs True u" "idle_hart u"
        "procs u = procs (env p t)"
      using scheduler_resume_run by blast
    obtain qs w where w: "pass env (scheduler_scan bs True) bs u = (qs, Done () w)" "subseq qs bs"
        "set bs \<inter> runnable u \<subseteq> set qs" "idle_hart w"
      using less.hyps [OF _ u(2), of bs True] less.prems(2) ps(1) by auto
    have "pass env (scheduler_scan ps found) ps s = apfst (Cons p) (pass env (scheduler_scan bs True) bs u)"
      using pass_switch [of "scheduler_scan ps found", OF t(1) t(3) ps(1)] less.prems(2) ps(1) pass_cong [of "scheduler_resume p bs" _ "scheduler_scan bs True", OF u(1)] by simp
    moreover have "set ps \<inter> runnable s \<subseteq> insert p (set bs \<inter> runnable u)"
      using ps v t(4) u(3) by (auto simp: runnable_def upd_def)
    moreover have "subseq (p # qs) ps"
      using w(2) ps(1) by (auto intro: list_emb_append2)
    ultimately show ?thesis
      using w by fastforce
  qed
qed

text \<open>A process that is interrupted by the timer as soon as it runs.\<close>

definition yielding :: "nat \<Rightarrow> 'z pst_scheme \<Rightarrow> 'z pst_scheme" where
  "yielding p t = (case thn (release (ProcLock p)) (yield :: ('z pst_scheme, unit) kop) t of Blocked v \<Rightarrow> v | _ \<Rightarrow> t)"

lemma run_sched:
  assumes "on_cpu p s" and "curproc s = Some p" and "p_state (procs s p) \<noteq> RUNNING"
  shows "sched s = Blocked s"
proof -
  have s: "\<not> irq_on s" "0 < depth s" "depth s = 1" "lk_held (ProcLock p) s"
    using assms(1) by (auto simp: on_cpu_def irq_wf_def)
  then show ?thesis
    using assms(2,3) run_holding [OF s(1,2), of "ProcLock p"] run_curp_off [OF s(1,2)]
    by (simp add: sched_def run get_proc_def swtch_def mycpu_def depth_def irq_on_def)
qed

lemma yielding_hands_back: "hands_back yielding"
  unfolding hands_back_def
proof (intro allI impI)
  fix p and t :: "'z pst_scheme"
  assume t: "on_cpu p t" "curproc t = Some p" "p_state (procs t p) = RUNNING"
  obtain u where u: "release (ProcLock p) t = Done () u" "idle_hart u" "procs u = procs t" "curproc u = Some p"
    using release_on_cpu [OF t(1)] t(2) by auto
  obtain v where v: "curp u = Done p v" "calm u v"
    using run_curp [of u p] u(2,4) by (auto simp: idle_hart_def settled_def)
  have idle: "idle_hart v" and cur: "curproc v = Some p"
    using v(2) u(2,4) calm_settled [OF v(2), of "{}"]
    by (auto simp: idle_hart_def calm_def hw_bal_def)
  let ?w = "(acq (ProcLock p) v)\<lparr>procs := upd (procs v) p (\<lambda>q. q\<lparr>p_state := RUNNABLE\<rparr>)\<rparr>"
  have w: "on_cpu p ?w"
    using on_cpu_frame [of _ ?w, OF _ on_cpu_acq [OF idle]] by simp
  have "(sched :: ('z pst_scheme, unit) kop) ?w = Blocked ?w"
    using cur by (intro run_sched [OF w]) (simp_all add: curproc_def acq_def)
  then have "yielding p t = ?w"
    using u(1) v(1) run_acquire_settled [of "{}" v] idle
    by (simp add: yielding_def yield_def run upd_proc_def idle_hart_def)
  moreover have "p_state (procs v q) = RUNNABLE" if "p_state (procs t q) = RUNNABLE" for q
  proof -
    have "proc_calm (procs t q) (procs v q)"
      using v(2) u(3) by (simp add: calm_def)
    then show ?thesis using that by (auto simp: proc_calm_def)
  qed
  then have "runnable t \<subseteq> runnable ?w"
    by (auto simp: runnable_def)
  ultimately show "on_cpu p (yielding p t) \<and> runnable t \<subseteq> runnable (yielding p t)"
    using w by simp
qed

text \<open>
  C19: Fairness of the scheduler.  Let a pass begin on an idle hart, and let every process it switches to
  come back through \<^verbatim>\<open>sched()\<close> without taking another runnable process off the table.  Then the
  pass ends, it has switched to every process that was runnable when it began, to each at most once and
  in the order of the table, and it leaves the hart idle.  So a runnable process waits for at most
  \<^verbatim>\<open>NPROC - 1\<close> others.
\<close>

theorem scheduler_fair:
  assumes "hands_back env" and "idle_hart s"
  shows "\<exists>qs t. pass env scheduler_pass [0..<NPROC] s = (qs, Done () t) \<and> sorted_wrt (<) qs
    \<and> runnable s \<inter> {..<NPROC} \<subseteq> set qs \<and> set qs \<subseteq> {..<NPROC} \<and> idle_hart t"
proof -
  let ?s = "irq_set_on s"
  have s: "idle_hart ?s" "runnable ?s = runnable s"
    using assms(2)
    by (auto simp: idle_hart_def settled_def irq_wf_def lk_clean_def depth_def runnable_def irq_set_on_def)
  have "pass env scheduler_pass ps s = pass env (scheduler_scan [0..<NPROC] False) ps ?s" for ps
    by (rule pass_cong) (simp add: scheduler_pass_def run)
  moreover obtain qs t where "pass env (scheduler_scan [0..<NPROC] False) [0..<NPROC] ?s = (qs, Done () t)"
      "subseq qs [0..<NPROC]" "set [0..<NPROC] \<inter> runnable ?s \<subseteq> set qs" "idle_hart t"
    using pass_run [OF assms(1) s(1), of "[0..<NPROC]" False] by auto
  moreover from this(2) have "sorted_wrt (<) qs \<and> set qs \<subseteq> {..<NPROC}"
    using subseq_sorted_wrt [OF _ sorted_wrt_upt [of 0 NPROC]] by (auto simp: lessThan_atLeast0)
  ultimately show ?thesis
    using s(2) by auto
qed

text \<open>Two runnable processes that yield whenever they run.\<close>

definition two_runnable :: pst where
  "two_runnable = boot_pst\<lparr>procs := (procs boot_pst)(3 := zero_proc\<lparr>p_state := RUNNABLE\<rparr>,
     5 := zero_proc\<lparr>p_state := RUNNABLE\<rparr>)\<rparr>"

lemma two_runnable_ok: "idle_hart two_runnable" "{3, 5} \<subseteq> runnable two_runnable"
  using boot_pst_ok(1) [of "{}"] boot_pst_ok(2)
  by (auto simp: two_runnable_def idle_hart_def settled_def irq_wf_def depth_def irq_on_def lk_clean_def
      runnable_def)

theorem scheduler_fair_witness:
  "\<exists>qs t. pass yielding scheduler_pass [0..<NPROC] two_runnable = (qs, Done () t) \<and> sorted_wrt (<) qs
    \<and> {3, 5} \<subseteq> set qs \<and> idle_hart t"
  using scheduler_fair [OF yielding_hands_back two_runnable_ok(1)] two_runnable_ok(2)
  by (fastforce simp: param_defs)

end
