(* ===== verification/LostWakeup.thy ===== *)
theory LostWakeup
  imports Sched
begin

text \<open>
  \<^verbatim>\<open>sleep()\<close> on one hart against \<^verbatim>\<open>wakeup()\<close> on another (\<^verbatim>\<open>kernel/proc.c\<close>), in every
  interleaving of their statements.  A statement is one call of \<^verbatim>\<open>acquire()\<close> or \<^verbatim>\<open>release()\<close>,
  one update of the process table, or the switch; how \<^verbatim>\<open>acquire()\<close> and \<^verbatim>\<open>release()\<close>
  interleave themselves is the subject of Spinlock.
\<close>

section \<open>Two harts\<close>

text \<open>A state of the kernel, and the statements the two harts have still to execute.\<close>

type_synonym 'z two = "'z pst_scheme \<times> ('z pst_scheme, unit) kop list \<times> ('z pst_scheme, unit) kop list"

text \<open>
  A step executes the next statement of one of the harts \<open>h\<close> and \<open>g\<close>.  A statement that blocks has
  switched to the scheduler of its hart, whose statements come next.  A hart that spins stays where it
  is and tries again.
\<close>

inductive two_step :: "nat \<Rightarrow> nat \<Rightarrow> 'z two \<Rightarrow> 'z two \<Rightarrow> bool" for h g where
  left_done: "f (s\<lparr>tp := h\<rparr>) = Done () t \<Longrightarrow> two_step h g (s, f # fs, ws) (t, fs, ws)"
| left_switch: "f (s\<lparr>tp := h\<rparr>) = Blocked t \<Longrightarrow> two_step h g (s, f # fs, ws) (t, fs, ws)"
| right_done: "f (s\<lparr>tp := g\<rparr>) = Done () t \<Longrightarrow> two_step h g (s, fs, f # ws) (t, fs, ws)"
| right_switch: "f (s\<lparr>tp := g\<rparr>) = Blocked t \<Longrightarrow> two_step h g (s, fs, f # ws) (t, fs, ws)"

definition panics :: "('s, unit) kop list \<Rightarrow> 's \<Rightarrow> bool" where
  "panics fs s = (case fs of [] \<Rightarrow> False | f # _ \<Rightarrow> (case f s of Panic m t \<Rightarrow> True | _ \<Rightarrow> False))"

text \<open>
  The sleeper: \<^verbatim>\<open>sleep()\<close>, which the process calls with \<open>lk\<close> held, up to the point where the
  scheduler of its hart has released \<^verbatim>\<open>p->lock\<close>.
\<close>

definition sleeper :: "nat \<Rightarrow> chan \<Rightarrow> lockid \<Rightarrow> ('z pst_scheme, unit) kop list" where
  "sleeper p ch lk = sleep_steps p ch lk @ [sched, scheduler_resume p []]"

text \<open>
  The waker: \<^verbatim>\<open>wakeup()\<close> under \<open>lk\<close>, as \<^verbatim>\<open>clockintr()\<close>, \<^verbatim>\<open>releasesleep()\<close>,
  \<^verbatim>\<open>piperead()\<close> and the others call it.
\<close>

definition waker :: "chan \<Rightarrow> lockid \<Rightarrow> ('z pst_scheme, unit) kop list" where
  "waker ch lk = acquire lk # concat (map (wakeup_turn ch) [0..<NPROC]) @ [release lk]"

section \<open>Who holds what\<close>

text \<open>The locks in \<open>A\<close> are held by \<open>h\<close>, those in \<open>B\<close> by \<open>g\<close>, all others are free.\<close>

definition owned :: "nat \<Rightarrow> lockid set \<Rightarrow> nat \<Rightarrow> lockid set \<Rightarrow> 'z hw_scheme \<Rightarrow> bool" where
  "owned h A g B s \<longleftrightarrow> finite A \<and> finite B \<and>
     (\<forall>l\<in>A. lk_held l (s\<lparr>tp := h\<rparr>)) \<and> (\<forall>l\<in>B. lk_held l (s\<lparr>tp := g\<rparr>)) \<and>
     (\<forall>l. l \<notin> A \<longrightarrow> l \<notin> B \<longrightarrow> lk_clean l s) \<and>
     irq_wf (s\<lparr>tp := h\<rparr>) \<and> depth (s\<lparr>tp := h\<rparr>) = int (card A) \<and>
     irq_wf (s\<lparr>tp := g\<rparr>) \<and> depth (s\<lparr>tp := g\<rparr>) = int (card B)"

lemma owned_sym: "owned h A g B s \<longleftrightarrow> owned g B h A s"
  by (auto simp: owned_def)

lemma owned_disjoint:
  assumes "owned h A g B s" and "h \<noteq> g" and "l \<in> A"
  shows "l \<notin> B"
  using assms by (force simp: owned_def lk_held_def)

lemma owned_procs [simp]: "owned h A g B (s\<lparr>procs := f\<rparr>) = owned h A g B s"
  by (simp add: owned_def lk_held_def lk_clean_def irq_wf_def irq_on_def depth_def)

lemma owned_tp [simp]: "owned h A g B (s\<lparr>tp := k\<rparr>) = owned h A g B s"
  by (simp add: owned_def lk_held_def lk_clean_def irq_wf_def irq_on_def depth_def)

text \<open>What one hart does to its nesting and its interrupts, the other does not see.\<close>

lemma acq_other:
  assumes "g \<noteq> tp u"
  shows "irq_wf ((acq l u)\<lparr>tp := g\<rparr>) = irq_wf (u\<lparr>tp := g\<rparr>)" "depth ((acq l u)\<lparr>tp := g\<rparr>) = depth (u\<lparr>tp := g\<rparr>)"
  using assms by (simp_all add: irq_wf_def depth_def irq_on_def acq_def csrs_off_def)

lemma rel_other:
  assumes "g \<noteq> tp u"
  shows "irq_wf ((rel l u)\<lparr>tp := g\<rparr>) = irq_wf (u\<lparr>tp := g\<rparr>)" "depth ((rel l u)\<lparr>tp := g\<rparr>) = depth (u\<lparr>tp := g\<rparr>)"
  using assms by (simp_all add: irq_wf_def depth_def irq_on_def rel_def csrs_on_def)

lemma tp_acq_rel [simp]:
  "h = tp u \<Longrightarrow> (acq l u)\<lparr>tp := h\<rparr> = acq l u" "h = tp u \<Longrightarrow> (rel l u)\<lparr>tp := h\<rparr> = rel l u"
  by (simp_all add: acq_def rel_def)

lemma owned_acquire:
  assumes "owned h A g B s" and "h \<noteq> g" and "l \<notin> A" and "l \<notin> B"
  shows "acquire l (s\<lparr>tp := h\<rparr>) = Done () (acq l (s\<lparr>tp := h\<rparr>))" (is ?run)
    and "owned h (insert l A) g B (acq l (s\<lparr>tp := h\<rparr>))" (is ?own)
proof -
  let ?u = "s\<lparr>tp := h\<rparr>"
  have o: "irq_wf ?u" "lk_clean l s" "depth ?u = int (card A)" "irq_wf (s\<lparr>tp := g\<rparr>)" "depth (s\<lparr>tp := g\<rparr>) = int (card B)"
      "finite A" "finite B" "\<And>k. k \<in> A \<Longrightarrow> lk_held k ?u" "\<And>k. k \<in> B \<Longrightarrow> lk_held k (s\<lparr>tp := g\<rparr>)"
      "\<And>k. k \<notin> A \<Longrightarrow> k \<notin> B \<Longrightarrow> lk_clean k s"
    using assms by (simp_all add: owned_def)
  then show ?run
    by (intro run_acquire) (simp_all add: lk_clean_def lk_free_def)
  have "lk_held k (acq l ?u)" if "k \<in> insert l A" for k
    using that o(8) lk_held_acq_other [of k l ?u] by (cases "k = l") simp_all
  moreover have "lk_held k ((acq l ?u)\<lparr>tp := g\<rparr>)" if "k \<in> B" for k
    using o(9) [OF that] that assms(4) by (auto simp: lk_held_def acq_def locks_acq_def)
  moreover have "lk_clean k (acq l ?u)" if "k \<notin> insert l A" "k \<notin> B" for k
    using o(10) [of k] that by (simp add: lk_clean_def acq_def locks_acq_def)
  ultimately show ?own
    using o(1-7) assms(2,3) acq_other [of g ?u l] by (simp add: owned_def)
qed

lemma owned_release:
  assumes "owned h A g B s" and "h \<noteq> g" and "l \<in> A"
  shows "release l (s\<lparr>tp := h\<rparr>) = Done () (rel l (s\<lparr>tp := h\<rparr>))" (is ?run)
    and "owned h (A - {l}) g B (rel l (s\<lparr>tp := h\<rparr>))" (is ?own)
proof -
  let ?u = "s\<lparr>tp := h\<rparr>"
  have o: "irq_wf ?u" "depth ?u = int (card A)" "irq_wf (s\<lparr>tp := g\<rparr>)" "depth (s\<lparr>tp := g\<rparr>) = int (card B)"
      "finite A" "finite B" "\<And>k. k \<in> A \<Longrightarrow> lk_held k ?u" "\<And>k. k \<in> B \<Longrightarrow> lk_held k (s\<lparr>tp := g\<rparr>)"
      "\<And>k. k \<notin> A \<Longrightarrow> k \<notin> B \<Longrightarrow> lk_clean k s"
    using assms by (simp_all add: owned_def)
  have pos: "0 < card A" using assms(3) o(5) card_gt_0_iff by blast
  then show ?run
    using o(1,2,7) assms(3) by (intro run_release) simp_all
  have "lk_held k (rel l ?u)" if "k \<in> A - {l}" for k
    using that o(7) lk_held_rel_other [of k l ?u] by simp
  moreover have "lk_held k ((rel l ?u)\<lparr>tp := g\<rparr>)" if "k \<in> B" for k
    using o(8) [OF that] that owned_disjoint [OF assms] by (auto simp: lk_held_def rel_def locks_rel_def)
  moreover have "lk_clean k (rel l ?u)" if "k \<notin> A - {l}" "k \<notin> B" for k
    using o(9) [of k] that by (auto simp: lk_clean_def rel_def locks_rel_def)
  moreover have "irq_wf (rel l ?u)"
    using irq_wf_rel [OF o(1)] o(2) pos by simp
  ultimately show ?own
    using o(1-6) assms(2,3) pos rel_other [of g ?u l] by (simp add: owned_def)
qed

text \<open>A lock of the other hart: \<^verbatim>\<open>acquire()\<close> spins.\<close>

lemma owned_spin:
  assumes "owned h A g B s" and "h \<noteq> g" and "l \<in> B"
  shows "\<exists>t. acquire l (s\<lparr>tp := h\<rparr>) = Spin t"
proof -
  have "irq_wf (s\<lparr>tp := h\<rparr>)" "lk_held l (s\<lparr>tp := g\<rparr>)"
    using assms by (simp_all add: owned_def)
  then show ?thesis
    using run_acquire_other [of "s\<lparr>tp := h\<rparr>" l] assms(2) by (auto simp: lk_held_def lk_free_def)
qed

lemmas owned_acquire' = owned_acquire [OF iffD1 [OF owned_sym]]

lemmas owned_release' = owned_release [OF iffD1 [OF owned_sym]]

lemmas owned_spin' = owned_spin [OF iffD1 [OF owned_sym]]

section \<open>Positions\<close>

text \<open>The sleeper: before each of its five statements, and at its end.\<close>

datatype spos = Entered | Both | Dropped | Marked | Switched | Gone

definition s_list :: "nat \<Rightarrow> chan \<Rightarrow> lockid \<Rightarrow> ('z pst_scheme, unit) kop list" where
  "s_list p ch lk = [acquire (ProcLock p), release lk,
     upd_proc p (\<lambda>q. q\<lparr>p_chan := Some ch, p_state := SLEEPING\<rparr>), sched, scheduler_resume p []]"

primrec s_done :: "spos \<Rightarrow> nat" where
  "s_done Entered = 0" | "s_done Both = 1" | "s_done Dropped = 2" | "s_done Marked = 3" | "s_done Switched = 4"
| "s_done Gone = 5"

primrec s_next :: "spos \<Rightarrow> spos" where
  "s_next Entered = Both" | "s_next Both = Dropped" | "s_next Dropped = Marked" | "s_next Marked = Switched"
| "s_next Switched = Gone" | "s_next Gone = Gone"

primrec s_held :: "nat \<Rightarrow> lockid \<Rightarrow> spos \<Rightarrow> lockid set" where
  "s_held p lk Entered = {lk}" | "s_held p lk Both = {ProcLock p, lk}" | "s_held p lk Dropped = {ProcLock p}"
| "s_held p lk Marked = {ProcLock p}" | "s_held p lk Switched = {ProcLock p}" | "s_held p lk Gone = {}"

text \<open>The waker: before its first statement, at the loop test, inside a turn of the loop, at its end.\<close>

datatype wpos = Start | Between nat | Locked nat | Woke nat | Finished

definition w_loop :: "chan \<Rightarrow> lockid \<Rightarrow> nat \<Rightarrow> ('z pst_scheme, unit) kop list" where
  "w_loop ch lk k = concat (map (wakeup_turn ch) [k..<NPROC]) @ [release lk]"

primrec w_rest :: "chan \<Rightarrow> lockid \<Rightarrow> wpos \<Rightarrow> ('z pst_scheme, unit) kop list" where
  "w_rest ch lk Start = acquire lk # w_loop ch lk 0"
| "w_rest ch lk (Between k) = w_loop ch lk k"
| "w_rest ch lk (Locked k) = upd_proc k (wake ch) # release (ProcLock k) # w_loop ch lk (Suc k)"
| "w_rest ch lk (Woke k) = release (ProcLock k) # w_loop ch lk (Suc k)"
| "w_rest ch lk Finished = []"

primrec w_next :: "wpos \<Rightarrow> wpos" where
  "w_next Start = Between 0"
| "w_next (Between k) = (if k < NPROC then Locked k else Finished)"
| "w_next (Locked k) = Woke k"
| "w_next (Woke k) = Between (Suc k)"
| "w_next Finished = Finished"

primrec w_held :: "lockid \<Rightarrow> wpos \<Rightarrow> lockid set" where
  "w_held lk Start = {}" | "w_held lk (Between k) = {lk}" | "w_held lk (Locked k) = {ProcLock k, lk}"
| "w_held lk (Woke k) = {ProcLock k, lk}" | "w_held lk Finished = {}"

primrec w_bound :: "wpos \<Rightarrow> bool" where
  "w_bound Start = True" | "w_bound (Between k) = (k \<le> NPROC)" | "w_bound (Locked k) = (k < NPROC)"
| "w_bound (Woke k) = (k < NPROC)" | "w_bound Finished = True"

text \<open>The waker has looked at process \<open>p\<close>.\<close>

primrec passed :: "nat \<Rightarrow> wpos \<Rightarrow> bool" where
  "passed p Start = False" | "passed p (Between k) = (p < k)" | "passed p (Locked k) = (p < k)"
| "passed p (Woke k) = (p \<le> k)" | "passed p Finished = True"

lemma w_loop_unroll:
  "k < NPROC \<Longrightarrow> w_loop ch lk k = acquire (ProcLock k) # upd_proc k (wake ch) # release (ProcLock k) # w_loop ch lk (Suc k)"
  "w_loop ch lk NPROC = [release lk]"
  by (simp_all add: w_loop_def upt_conv_Cons wakeup_turn_def)

text \<open>
  The invariant, at a pair of positions.  The waker takes \<open>lk\<close> only after the sleeper has
  \<^verbatim>\<open>p->lock\<close>, and so looks at \<open>p\<close> only after the sleeper has switched.
\<close>

definition snapshot :: "nat \<Rightarrow> nat \<Rightarrow> nat \<Rightarrow> chan \<Rightarrow> lockid \<Rightarrow> spos \<Rightarrow> wpos \<Rightarrow> 'z pst_scheme \<Rightarrow> bool" where
  "snapshot h g p ch lk a w s \<longleftrightarrow> owned h (s_held p lk a) g (w_held lk w) s \<and> w_bound w \<and>
     (a \<in> {Entered, Both} \<longrightarrow> w = Start) \<and> (a \<noteq> Gone \<longrightarrow> \<not> passed p w \<and> cpu_proc (cpus s h) = Some p) \<and>
     (a \<in> {Marked, Switched, Gone} \<longrightarrow>
       p_chan (procs s p) = Some ch \<and> p_state (procs s p) = (if passed p w then RUNNABLE else SLEEPING))"

lemma cpu_proc_acq_rel [simp]:
  "cpu_proc (cpus (acq l s) k) = cpu_proc (cpus s k)" "cpu_proc (cpus (rel l s) k) = cpu_proc (cpus s k)"
  by (simp_all add: acq_def rel_def upd_def)

section \<open>Steps\<close>

lemma owned_cpu_proc [simp]:
  "owned h A g B (s\<lparr>cpus := upd (cpus s) k (\<lambda>c. c\<lparr>cpu_proc := x\<rparr>)\<rparr>) = owned h A g B s"
  by (simp add: owned_def lk_held_def lk_clean_def irq_wf_def irq_on_def depth_def upd_def)

lemma sched_switches:
  assumes "owned h {ProcLock p} g B s" and "cpu_proc (cpus s h) = Some p" and "p_state (procs s p) \<noteq> RUNNING"
  shows "sched (s\<lparr>tp := h\<rparr>) = Blocked (s\<lparr>tp := h\<rparr>)"
proof (rule sched_blocks)
  show "\<not> irq_on (s\<lparr>tp := h\<rparr>)" "depth (s\<lparr>tp := h\<rparr>) = 1" "lk_held (ProcLock p) (s\<lparr>tp := h\<rparr>)"
    using assms(1) by (simp_all add: owned_def irq_wf_def)
qed (use assms in \<open>simp_all add: curproc_def\<close>)

lemma scheduler_releases:
  assumes "owned h {ProcLock p} g B s" and "h \<noteq> g"
  shows "\<exists>t. scheduler_resume p [] (s\<lparr>tp := h\<rparr>) = Done () t \<and> owned h {} g B t \<and> procs t = procs s"
proof -
  define u where "u = s\<lparr>tp := h, cpus := upd (cpus s) h (\<lambda>k. k\<lparr>cpu_proc := None\<rparr>)\<rparr>"
  have o: "owned h {ProcLock p} g B u"
    using owned_cpu_proc [of h "{ProcLock p}" g B "s\<lparr>tp := h\<rparr>"] assms(1) by (simp add: u_def)
  have e: "u\<lparr>tp := h\<rparr> = u" unfolding u_def by (cases s) simp
  have "release (ProcLock p) u = Done () (rel (ProcLock p) u)" "owned h {} g B (rel (ProcLock p) u)"
    using owned_release [OF o assms(2), of "ProcLock p"] unfolding e by simp_all
  moreover have "procs u = procs s" by (simp add: u_def)
  ultimately show ?thesis
    by (simp add: scheduler_resume_def run upd_cpu_def u_def [symmetric])
qed

lemma sleeper_turn:
  assumes S: "snapshot h g p ch lk a w s" and hg: "h \<noteq> g" and lk: "\<forall>q. lk \<noteq> ProcLock q" and a: "a \<noteq> Gone"
  shows "\<exists>f t. drop (s_done a) (s_list p ch lk) = f # drop (s_done (s_next a)) (s_list p ch lk) \<and>
    (f (s\<lparr>tp := h\<rparr>) = Done () t \<or> f (s\<lparr>tp := h\<rparr>) = Blocked t) \<and> snapshot h g p ch lk (s_next a) w t"
proof -
  have o: "owned h (s_held p lk a) g (w_held lk w) s" using S by (simp add: snapshot_def)
  have ne: "ProcLock p \<noteq> lk" using lk by metis
  then have minus: "{ProcLock p, lk} - {lk} = {ProcLock p}" by auto
  show ?thesis
  proof (cases a)
    case Entered
    then have w: "w = Start" using S by (simp add: snapshot_def)
    then show ?thesis
      using owned_acquire [OF o hg, of "ProcLock p"] Entered S ne by (auto simp: snapshot_def s_list_def)
  next
    case Both
    then show ?thesis
      using owned_release [OF o hg, of lk] minus S by (auto simp: snapshot_def s_list_def)
  next
    case Dropped
    then show ?thesis
      using S by (auto simp: snapshot_def s_list_def upd_proc_def run)
  next
    case Marked
    then show ?thesis
      using sched_switches [of h p g "w_held lk w" s] o S by (auto simp: snapshot_def s_list_def)
  next
    case Switched
    then show ?thesis
      using scheduler_releases [of h p g "w_held lk w" s] o hg S by (auto simp: snapshot_def s_list_def)
  qed (use a in simp)
qed

lemma waker_turn:
  assumes S: "snapshot h g p ch lk a w s" and hg: "h \<noteq> g" and lk: "\<forall>q. lk \<noteq> ProcLock q" and p: "p < NPROC"
    and w: "w \<noteq> Finished"
  shows "\<exists>f. w_rest ch lk w = f # w_rest ch lk (w_next w) \<and>
    ((\<exists>t. f (s\<lparr>tp := g\<rparr>) = Done () t \<and> snapshot h g p ch lk a (w_next w) t) \<or>
     (\<exists>t. f (s\<lparr>tp := g\<rparr>) = Spin t) \<and> a \<noteq> Gone)"
proof -
  have o: "owned h (s_held p lk a) g (w_held lk w) s" using S by (simp add: snapshot_def)
  have ne: "ProcLock q \<noteq> lk" for q using lk by metis
  show ?thesis
  proof (cases w)
    case Start
    show ?thesis
    proof (cases "lk \<in> s_held p lk a")
      case True
      then show ?thesis
        using owned_spin' [OF o hg [symmetric]] Start by (cases a) auto
    next
      case False
      then show ?thesis
        using owned_acquire' [OF o hg [symmetric], of lk] Start S by (cases a) (auto simp: snapshot_def owned_sym [of h])
    qed
  next
    case (Between k)
    show ?thesis
    proof (cases "k < NPROC")
      case True
      show ?thesis
      proof (cases "ProcLock k \<in> s_held p lk a")
        case True
        then show ?thesis
          using owned_spin' [OF o hg [symmetric]] Between \<open>k < NPROC\<close> w_loop_unroll(1) [of k ch lk] by (cases a) auto
      next
        case False
        then show ?thesis
          using owned_acquire' [OF o hg [symmetric], of "ProcLock k"] Between S ne [of k] \<open>k < NPROC\<close>
          by (auto simp: snapshot_def owned_sym [of h] w_loop_unroll)
      qed
    next
      case False
      then have "k = NPROC" using S Between by (simp add: snapshot_def)
      then show ?thesis
        using owned_release' [OF o hg [symmetric], of lk] Between S p w_loop_unroll(2) [of ch lk]
        by (auto simp: snapshot_def owned_sym [of h])
    qed
  next
    case (Locked k)
    have "k \<noteq> p \<or> a = Gone"
      using owned_disjoint [OF o hg, of "ProcLock p"] S Locked by (cases a) (auto simp: snapshot_def)
    then show ?thesis
      using Locked S by (auto simp: snapshot_def upd_proc_def run wake_def upd_def)
  next
    case (Woke k)
    have minus: "{ProcLock k, lk} - {ProcLock k} = {lk}" using ne by auto
    then show ?thesis
      using owned_release' [OF o hg [symmetric], of "ProcLock k"] Woke S
      by (auto simp: snapshot_def owned_sym [of h] less_Suc_eq_le)
  qed (use w in simp)
qed

section \<open>Every interleaving\<close>

definition two_inv :: "nat \<Rightarrow> nat \<Rightarrow> nat \<Rightarrow> chan \<Rightarrow> lockid \<Rightarrow> 'z two \<Rightarrow> bool" where
  "two_inv h g p ch lk c \<longleftrightarrow> (case c of (s, fs, ws) \<Rightarrow>
     \<exists>a w. fs = drop (s_done a) (s_list p ch lk) \<and> ws = w_rest ch lk w \<and> snapshot h g p ch lk a w s)"

text \<open>What the next statement of each hart does, in a state of the invariant.\<close>

lemma left_turn:
  assumes "two_inv h g p ch lk (s, f # fs, ws)" and "h \<noteq> g" and "\<forall>q. lk \<noteq> ProcLock q"
  shows "\<exists>t. (f (s\<lparr>tp := h\<rparr>) = Done () t \<or> f (s\<lparr>tp := h\<rparr>) = Blocked t) \<and> two_inv h g p ch lk (t, fs, ws)"
proof -
  obtain a w where a: "f # fs = drop (s_done a) (s_list p ch lk)" "ws = w_rest ch lk w" "snapshot h g p ch lk a w s"
    using assms(1) by (auto simp: two_inv_def)
  then have "a \<noteq> Gone" by (auto simp: s_list_def)
  from sleeper_turn [OF a(3) assms(2,3) this] a(1) obtain t where
    "fs = drop (s_done (s_next a)) (s_list p ch lk)" "snapshot h g p ch lk (s_next a) w t"
    "f (s\<lparr>tp := h\<rparr>) = Done () t \<or> f (s\<lparr>tp := h\<rparr>) = Blocked t"
    by auto
  then show ?thesis
    using a(2) unfolding two_inv_def prod.case by blast
qed

lemma right_turn:
  assumes "two_inv h g p ch lk (s, fs, f # ws)" and "h \<noteq> g" and "\<forall>q. lk \<noteq> ProcLock q" and "p < NPROC"
  shows "(\<exists>t. f (s\<lparr>tp := g\<rparr>) = Done () t \<and> two_inv h g p ch lk (t, fs, ws)) \<or>
    (\<exists>t. f (s\<lparr>tp := g\<rparr>) = Spin t) \<and> fs \<noteq> []"
proof -
  obtain a w where a: "fs = drop (s_done a) (s_list p ch lk)" "f # ws = w_rest ch lk w" "snapshot h g p ch lk a w s"
    using assms(1) by (auto simp: two_inv_def)
  then have "w \<noteq> Finished" by auto
  with waker_turn [OF a(3) assms(2-4)] a(2) have
    "ws = w_rest ch lk (w_next w)"
    "(\<exists>t. f (s\<lparr>tp := g\<rparr>) = Done () t \<and> snapshot h g p ch lk a (w_next w) t) \<or> (\<exists>t. f (s\<lparr>tp := g\<rparr>) = Spin t) \<and> a \<noteq> Gone"
    by (metis list.inject)+
  moreover have "fs \<noteq> []" if "a \<noteq> Gone"
    using that a(1) by (cases a) (simp_all add: s_list_def)
  ultimately show ?thesis
    using a(1) unfolding two_inv_def prod.case by blast
qed

lemma two_inv_step:
  assumes "two_step h g c d" and "two_inv h g p ch lk c" and "h \<noteq> g" and "\<forall>q. lk \<noteq> ProcLock q" and "p < NPROC"
  shows "two_inv h g p ch lk d"
  using assms(1,2)
proof cases
  case (left_done f s t fs ws)
  then show ?thesis using left_turn [OF _ assms(3,4), of p ch s f fs ws] assms(2) by auto
next
  case (left_switch f s t fs ws)
  then show ?thesis using left_turn [OF _ assms(3,4), of p ch s f fs ws] assms(2) by auto
next
  case (right_done f s t fs ws)
  then show ?thesis using right_turn [OF _ assms(3-5), of ch s fs f ws] assms(2) by auto
next
  case (right_switch f s t fs ws)
  then show ?thesis using right_turn [OF _ assms(3-5), of ch s fs f ws] assms(2) by auto
qed

text \<open>Both harts are about to start: the process has the lock of its condition, no other lock is taken.\<close>

definition poised :: "nat \<Rightarrow> nat \<Rightarrow> nat \<Rightarrow> 'z pst_scheme \<Rightarrow> bool" where
  "poised h g p s \<longleftrightarrow> h \<noteq> g \<and> (\<forall>l. lk_clean l s) \<and> cpu_noff (cpus s h) = 0 \<and> cpu_noff (cpus s g) = 0 \<and>
     cpu_proc (cpus s h) = Some p \<and> p < NPROC"

lemma two_inv_start:
  assumes "poised h g p s" and "\<forall>q. lk \<noteq> ProcLock q"
  shows "two_inv h g p ch lk (acq lk (s\<lparr>tp := h\<rparr>), sleeper p ch lk, waker ch lk)"
proof -
  have "owned h {} g {} s"
    using assms(1) by (simp add: poised_def owned_def irq_wf_def depth_def)
  then have "owned h {lk} g {} (acq lk (s\<lparr>tp := h\<rparr>))"
    using owned_acquire(2) [of h "{}" g "{}" s lk] assms(1) by (simp add: poised_def)
  then have "snapshot h g p ch lk Entered Start (acq lk (s\<lparr>tp := h\<rparr>))"
    using assms(1) by (simp add: snapshot_def poised_def)
  moreover have "sleeper p ch lk = drop (s_done Entered) (s_list p ch lk)"
    using assms(2) by (simp add: sleeper_def sleep_steps_def s_list_def)
  moreover have "waker ch lk = w_rest ch lk Start"
    by (simp add: waker_def w_loop_def)
  ultimately show ?thesis unfolding two_inv_def by blast
qed

lemma two_inv_reach:
  assumes "(two_step h g)\<^sup>*\<^sup>* (acq lk (s\<lparr>tp := h\<rparr>), sleeper p ch lk, waker ch lk) c" and "poised h g p s"
    and "\<forall>q. lk \<noteq> ProcLock q"
  shows "two_inv h g p ch lk c"
  using assms(1)
proof (induction rule: rtranclp_induct)
  case base
  show ?case using two_inv_start [OF assms(2,3)] .
next
  case (step c d)
  then show ?case using two_inv_step [of h g c d p ch lk] assms(2,3) by (simp add: poised_def)
qed

text \<open>In a state of the invariant no hart panics, and one of them can move until both are at their end.\<close>

lemma two_inv_safe:
  assumes "two_inv h g p ch lk (t, fs, ws)" and "h \<noteq> g" and "\<forall>q. lk \<noteq> ProcLock q" and "p < NPROC"
  shows "\<not> panics fs (t\<lparr>tp := h\<rparr>)" "\<not> panics ws (t\<lparr>tp := g\<rparr>)"
    "fs \<noteq> [] \<or> ws \<noteq> [] \<Longrightarrow> \<exists>c. two_step h g (t, fs, ws) c"
proof -
  have l: "\<exists>t'. f (t\<lparr>tp := h\<rparr>) = Done () t' \<or> f (t\<lparr>tp := h\<rparr>) = Blocked t'" if "fs = f # fs'" for f fs'
    using left_turn [OF _ assms(2,3), of p ch t f fs' ws] assms(1) that by blast
  then show "\<not> panics fs (t\<lparr>tp := h\<rparr>)"
    unfolding panics_def by (cases fs) (fastforce split: outcome.splits)+
  have r: "(\<exists>t'. f (t\<lparr>tp := g\<rparr>) = Done () t') \<or> (\<exists>t'. f (t\<lparr>tp := g\<rparr>) = Spin t') \<and> fs \<noteq> []" if "ws = f # ws'" for f ws'
    using right_turn [OF _ assms(2-4), of ch t fs f ws'] assms(1) that by blast
  then show "\<not> panics ws (t\<lparr>tp := g\<rparr>)"
    unfolding panics_def by (cases ws) (fastforce split: outcome.splits)+
  assume ends: "fs \<noteq> [] \<or> ws \<noteq> []"
  show "\<exists>c. two_step h g (t, fs, ws) c"
  proof (cases fs)
    case (Cons f fs')
    obtain t' where t': "f (t\<lparr>tp := h\<rparr>) = Done () t' \<or> f (t\<lparr>tp := h\<rparr>) = Blocked t'" using l [OF Cons] by blast
    have "two_step h g (t, f # fs', ws) (t', fs', ws)"
      by (rule disjE [OF t'], erule two_step.left_done, erule two_step.left_switch)
    then show ?thesis unfolding Cons by blast
  next
    case Nil
    with ends obtain f ws' where "ws = f # ws'" by (cases ws) auto
    moreover from r [OF this] Nil obtain t' where "f (t\<lparr>tp := g\<rparr>) = Done () t'" by blast
    ultimately show ?thesis by (metis two_step.right_done)
  qed
qed

lemma two_inv_end:
  assumes "two_inv h g p ch lk (t, [], [])"
  shows "p_state (procs t p) = RUNNABLE \<and> (\<forall>l. lk_clean l t)"
proof -
  obtain a w where a: "[] = drop (s_done a) (s_list p ch lk :: ('a pst_scheme, unit) kop list)"
    "[] = (w_rest ch lk w :: ('a pst_scheme, unit) kop list)" "snapshot h g p ch lk a w t"
    using assms by (auto simp: two_inv_def)
  then have "a = Gone" "w = Finished"
    by (cases a; simp add: s_list_def) (use a(2) in \<open>cases w; simp add: w_loop_def\<close>)
  then show ?thesis using a(3) by (simp add: snapshot_def owned_def)
qed

text \<open>
  C4: No wakeup is lost, in any interleaving.  A process \<open>p\<close> calls \<^verbatim>\<open>sleep(chan, lk)\<close> on one
  hart, holding the lock \<open>lk\<close> of its condition; another hart runs \<^verbatim>\<open>acquire(lk); wakeup(chan);
  release(lk)\<close>.  However their statements interleave, none of them panics and they do not deadlock
  (one of the harts can always go on, until both have come to their end); and when both have, \<open>p\<close> is
  runnable and every lock is free.
\<close>

theorem no_lost_wakeup:
  assumes "poised h g p s" and "\<forall>q. lk \<noteq> ProcLock q"
    and "(two_step h g)\<^sup>*\<^sup>* (acq lk (s\<lparr>tp := h\<rparr>), sleeper p ch lk, waker ch lk) (t, fs, ws)"
  shows "\<not> panics fs (t\<lparr>tp := h\<rparr>) \<and> \<not> panics ws (t\<lparr>tp := g\<rparr>) \<and>
    (fs \<noteq> [] \<or> ws \<noteq> [] \<longrightarrow> (\<exists>c. two_step h g (t, fs, ws) c)) \<and>
    (fs = [] \<and> ws = [] \<longrightarrow> p_state (procs t p) = RUNNABLE \<and> (\<forall>l. lk_clean l t))"
proof -
  note inv = two_inv_reach [OF assms(3,1,2)]
  have "h \<noteq> g" "p < NPROC" using assms(1) by (simp_all add: poised_def)
  then show ?thesis
    using two_inv_safe [OF inv _ assms(2)] two_inv_end [of h g p ch lk t] inv by blast
qed

text \<open>Every step takes a statement away, so a run that can always go on comes to its end.\<close>

lemma two_run_ends:
  assumes "\<And>d. (two_step h g)\<^sup>*\<^sup>* c d \<Longrightarrow> snd d \<noteq> ([], []) \<Longrightarrow> \<exists>e. two_step h g d e"
  shows "\<exists>t. (two_step h g)\<^sup>*\<^sup>* c (t, [], [])"
  using assms
proof (induction "length (fst (snd c)) + length (snd (snd c))" arbitrary: c rule: less_induct)
  case less
  show ?case
  proof (cases "snd c = ([], [])")
    case True
    then show ?thesis by (metis prod.collapse rtranclp.rtrancl_refl)
  next
    case False
    then obtain e where e: "two_step h g c e" using less.prems by blast
    then have "length (fst (snd e)) + length (snd (snd e)) < length (fst (snd c)) + length (snd (snd c))"
      by cases simp_all
    from less.hyps [OF this] less.prems e show ?thesis
      by (meson converse_rtranclp_into_rtranclp)
  qed
qed

theorem no_lost_wakeup_witness:
  "\<exists>t. (two_step 0 1)\<^sup>*\<^sup>* (acq TicksLock (boot_pst\<lparr>tp := 0\<rparr>), sleeper 0 TicksChan TicksLock, waker TicksChan TicksLock)
      (t, [], []) \<and> p_state (procs t 0) = RUNNABLE"
proof -
  have "poised 0 1 0 boot_pst"
    by (simp add: poised_def boot_pst_def lk_clean_def zero_defs param_defs)
  note C = no_lost_wakeup [OF this, of TicksLock TicksChan]
  obtain t where t: "(two_step 0 1)\<^sup>*\<^sup>* (acq TicksLock (boot_pst\<lparr>tp := 0\<rparr>), sleeper 0 TicksChan TicksLock,
      waker TicksChan TicksLock) (t, [], [])"
    using two_run_ends [of 0 1 "(acq TicksLock (boot_pst\<lparr>tp := 0\<rparr>), sleeper 0 TicksChan TicksLock, waker TicksChan TicksLock)"]
      C by (metis lockid.distinct prod.collapse)
  have "p_state (procs t 0) = RUNNABLE" using C [OF _ t] by simp
  then show ?thesis using t by (intro exI conjI)
qed

end
