(* ===== verification/Mkfs.thy ===== *)
theory Mkfs
  imports Layout Dir
begin

text \<open>
  \<^verbatim>\<open>mkfs/mkfs.c\<close>, the host program that builds the first image of a disk.  Its globals are a
  record; the image is a file of sectors.  A host file that is copied into the image is the list of the
  pieces that the calls of \<^verbatim>\<open>read()\<close> return, \<open>None\<close> if it cannot be opened.
  \<^verbatim>\<open>exit(1)\<close> and a failed \<^verbatim>\<open>assert()\<close> end the program as \<open>Panic\<close>.  The host
  has the byte order of the disk.
\<close>

section \<open>The program\<close>

definition NINODES :: nat where "NINODES = 200"

definition nbitmap :: nat where "nbitmap = FSSIZE div (BSIZE * 8) + 1"
definition ninodeblocks :: nat where "ninodeblocks = NINODES div IPB + 1"
definition nlog :: nat where "nlog = LOGSIZE"

definition nmeta :: nat where "nmeta = 2 + nlog + ninodeblocks + nbitmap"

record mkst =
  img :: "nat \<Rightarrow> block"
  img_sects :: nat
  mk_sb :: superblock
  freeinode :: u32
  freeblock :: u32

type_synonym host_file = "u8 list list option"

definition xshort :: "u16 \<Rightarrow> u16" where
  "xshort x = get16 ((\<lambda>_. 0)(0 := ucast x, 1 := ucast (drop_bit 8 x))) 0"

definition xint :: "u32 \<Rightarrow> u32" where
  "xint x = get32 ((\<lambda>_. 0)(0 := ucast x, 1 := ucast (drop_bit 8 x), 2 := ucast (drop_bit 16 x),
     3 := ucast (drop_bit 24 x))) 0"

text \<open>The file offset \<^verbatim>\<open>sec * BSIZE\<close> is computed in 32 bits.\<close>

definition sector :: "u32 \<Rightarrow> nat" where
  "sector sec = unat (sec * of_nat BSIZE) div BSIZE"

definition wsect :: "u32 \<Rightarrow> block \<Rightarrow> (mkst, unit) kop" where
  "wsect sec buf = modify (\<lambda>s. s\<lparr>img := (img s)(sector sec := buf),
     img_sects := max (img_sects s) (Suc (sector sec))\<rparr>)"

definition rsect :: "u32 \<Rightarrow> (mkst, block) kop" where
  "rsect sec =
     bnd (gets img_sects) (\<lambda>n.
     thn (panic_if (sector sec \<ge> n) ''read'') (
     gets (\<lambda>s. img s (sector sec))))"

definition winode :: "u32 \<Rightarrow> dinode \<Rightarrow> (mkst, unit) kop" where
  "winode inum ip =
     bnd (gets (\<lambda>s. IBLOCK inum (mk_sb s))) (\<lambda>bn.
     bnd (rsect bn) (\<lambda>buf.
     wsect bn (put_dinode (dinode_off inum) ip buf)))"

definition rinode :: "u32 \<Rightarrow> (mkst, dinode) kop" where
  "rinode inum =
     bnd (gets (\<lambda>s. IBLOCK inum (mk_sb s))) (\<lambda>bn.
     bnd (rsect bn) (\<lambda>buf.
     ret (dinode_at buf (dinode_off inum))))"

definition mk_ialloc :: "u16 \<Rightarrow> (mkst, u32) kop" where
  "mk_ialloc type =
     bnd (gets freeinode) (\<lambda>inum.
     thn (modify (\<lambda>s. s\<lparr>freeinode := inum + 1\<rparr>)) (
     thn (winode inum \<lparr>d_type = xshort type, d_major = 0, d_minor = 0, d_nlink = xshort 1, d_size = xint 0,
       d_addrs = (\<lambda>_. 0)\<rparr>) (
     ret inum)))"

definition mk_balloc :: "int \<Rightarrow> (mkst, unit) kop" where
  "mk_balloc used =
     thn (panic_if (\<not> used < int BSIZE * 8) ''assert'') (
     bnd (gets (\<lambda>s. sb_bmapstart (mk_sb s))) (\<lambda>b.
     wsect b (fold set_used [0..<nat used] (\<lambda>_. 0))))"

text \<open>\<^verbatim>\<open>xint(freeblock++)\<close>\<close>

definition new_block :: "(mkst, u32) kop" where
  "new_block =
     bnd (gets freeblock) (\<lambda>b.
     thn (modify (\<lambda>s. s\<lparr>freeblock := b + 1\<rparr>)) (
     ret (xint b)))"

definition need_addr :: "nat \<Rightarrow> dinode \<Rightarrow> (mkst, dinode) kop" where
  "need_addr i din =
     (if xint (d_addrs din i) = 0
      then bnd new_block (\<lambda>b. ret (din\<lparr>d_addrs := (d_addrs din)(i := b)\<rparr>))
      else ret din)"

text \<open>
  \<^verbatim>\<open>iappend()\<close>: the block of the file that holds byte \<^verbatim>\<open>off\<close>, allocated if there is none;
  one turn of the loop; the function.  The buffer and its length are the list of bytes not yet written.
\<close>

definition iappend_block :: "dinode \<Rightarrow> nat \<Rightarrow> (mkst, dinode \<times> u32) kop" where
  "iappend_block din fbn =
     (if fbn < NDIRECT then
        bnd (need_addr fbn din) (\<lambda>din.
        ret (din, xint (d_addrs din fbn)))
      else
        bnd (need_addr NDIRECT din) (\<lambda>din.
        bnd (rsect (xint (d_addrs din NDIRECT))) (\<lambda>indirect.
        bnd (if get32 indirect (4 * (fbn - NDIRECT)) = 0
             then
               bnd new_block (\<lambda>b.
               thn (wsect (xint (d_addrs din NDIRECT)) (put32 (4 * (fbn - NDIRECT)) b indirect)) (
               ret (put32 (4 * (fbn - NDIRECT)) b indirect)))
             else ret indirect) (\<lambda>indirect.
        ret (din, xint (get32 indirect (4 * (fbn - NDIRECT))))))))"

definition iappend_turn :: "dinode \<times> u32 \<times> u8 list \<Rightarrow> (mkst, (dinode \<times> u32 \<times> u8 list) + (dinode \<times> u32)) kop" where
  "iappend_turn = (\<lambda>(din, off, p).
     if p = [] then ret (Inr (din, off))
     else
     let fbn = off div of_nat BSIZE in
     thn (panic_if (\<not> unat fbn < MAXFILE) ''assert'') (
     bnd (iappend_block din (unat fbn)) (\<lambda>(din, x).
     let n1 = min (of_nat (length p)) ((fbn + 1) * of_nat BSIZE - off) in
     bnd (rsect x) (\<lambda>buf.
     thn (wsect x (put_list (unat (off - fbn * of_nat BSIZE)) (take (unat n1) p) buf)) (
     ret (Inl (din, off + n1, drop (unat n1) p)))))))"

definition iappend :: "u32 \<Rightarrow> u8 list \<Rightarrow> (mkst, unit) kop" where
  "iappend inum xp =
     bnd (rinode inum) (\<lambda>din.
     bnd (loopM (Suc (length xp)) iappend_turn (din, xint (d_size din), xp)) (\<lambda>(din, off).
     winode inum (din\<lparr>d_size := xint off\<rparr>)))"

definition mk_superblock :: superblock where
  "mk_superblock = \<lparr>sb_magic = FSMAGIC, sb_size = xint (of_nat FSSIZE), sb_nblocks = xint (of_nat (FSSIZE - nmeta)),
     sb_ninodes = xint (of_nat NINODES), sb_nlog = xint (of_nat nlog), sb_logstart = xint 2,
     sb_inodestart = xint (of_nat (2 + nlog)), sb_bmapstart = xint (of_nat (2 + nlog + ninodeblocks))\<rparr>"

definition put_superblock :: "superblock \<Rightarrow> block \<Rightarrow> block" where
  "put_superblock x = put_addrs 8 0 (\<lambda>i. [sb_magic x, sb_size x, sb_nblocks x, sb_ninodes x, sb_nlog x,
     sb_logstart x, sb_inodestart x, sb_bmapstart x] ! i)"

definition shortname :: "u8 list \<Rightarrow> u8 list" where
  "shortname nm = (if take 5 nm = [117, 115, 101, 114, 47] then drop 5 nm else nm)"

definition skip_underscore :: "u8 list \<Rightarrow> u8 list" where
  "skip_underscore nm = (case nm of c # cs \<Rightarrow> if c = 95 then cs else nm | [] \<Rightarrow> nm)"

definition mk_dirent :: "u32 \<Rightarrow> u8 list \<Rightarrow> u8 list" where
  "mk_dirent inum nm = dirent_bytes (xshort (ucast inum)) (at_list (take DIRSIZ nm))"

text \<open>The body of the loop over the files on the command line.\<close>

definition mkfs_file :: "u32 \<Rightarrow> u8 list \<times> host_file \<Rightarrow> (mkst, unit) kop" where
  "mkfs_file rootino = (\<lambda>(nm, f).
     thn (panic_if (SLASH \<in> set (shortname nm)) ''assert'') (
     case f of
       None \<Rightarrow> panic ''open''
     | Some chunks \<Rightarrow>
     bnd (mk_ialloc T_FILE) (\<lambda>inum.
     thn (iappend rootino (mk_dirent inum (skip_underscore (shortname nm)))) (
     for_all (takeWhile (\<lambda>c. c \<noteq> []) chunks) (iappend inum)))))"

definition mkfs :: "(u8 list \<times> host_file) list \<Rightarrow> (mkst, unit) kop" where
  "mkfs argv =
     (case argv of
        [] \<Rightarrow> panic ''Usage: mkfs fs.img files...''
      | (_, fs) # files \<Rightarrow>
     thn (panic_if (\<not> (BSIZE mod 64 = 0 \<and> BSIZE mod 16 = 0)) ''assert'') (
     thn (panic_if (fs = None) ''open'') (
     thn (modify (\<lambda>s. s\<lparr>mk_sb := mk_superblock, freeblock := of_nat nmeta\<rparr>)) (
     thn (for_all [0..<FSSIZE] (\<lambda>i. wsect (of_nat i) (\<lambda>_. 0))) (
     thn (wsect 1 (put_superblock mk_superblock (\<lambda>_. 0))) (
     bnd (mk_ialloc T_DIR) (\<lambda>rootino.
     thn (panic_if (rootino \<noteq> ROOTINO) ''assert'') (
     thn (iappend rootino (mk_dirent rootino [46])) (
     thn (iappend rootino (mk_dirent rootino [46, 46])) (
     thn (for_all files (mkfs_file rootino)) (
     bnd (rinode rootino) (\<lambda>din.
     let off = (xint (d_size din) div of_nat BSIZE + 1) * of_nat BSIZE in
     thn (winode rootino (din\<lparr>d_size := xint off\<rparr>)) (
     bnd (gets freeblock) (\<lambda>b.
     mk_balloc (sint b)))))))))))))))"

definition mkfs_start :: mkst where
  "mkfs_start = \<lparr>img = (\<lambda>_ _. 0), img_sects = 0,
     mk_sb = \<lparr>sb_magic = 0, sb_size = 0, sb_nblocks = 0, sb_ninodes = 0, sb_nlog = 0, sb_logstart = 0,
       sb_inodestart = 0, sb_bmapstart = 0\<rparr>,
     freeinode = 1, freeblock = 0\<rparr>"

section \<open>Sectors\<close>

lemma nmeta_eq: "nmeta = 46"
  by (simp add: nmeta_def nlog_def ninodeblocks_def nbitmap_def NINODES_def param_defs fs_consts)

lemma xint_id [simp]: "xint x = x"
proof -
  have "xint x = get32 (put32 0 x (\<lambda>_. 0)) 0" by (simp add: xint_def put32_def numeral_2_eq_2)
  then show ?thesis by simp
qed

lemma xshort_id [simp]: "xshort x = x"
proof -
  have "xshort x = get16 (put16 0 x (\<lambda>_. 0)) 0" by (simp add: xshort_def put16_def)
  then show ?thesis by (simp add: get16_put16)
qed

lemma sector_small:
  assumes "unat x < FSSIZE"
  shows "sector x = unat x"
proof -
  have "unat (x * 1024) = unat x * 1024"
    using assms by (subst unat_mult_lem [THEN iffD1]) (simp_all add: param_defs)
  then show ?thesis by (simp add: sector_def BSIZE_def)
qed

lemma run_rsect [run]:
  "rsect x s = (if sector x < img_sects s then Done (img s (sector x)) s else Panic ''read'' s)"
  by (simp add: rsect_def run)

lemma run_wsect:
  "unat x < FSSIZE \<Longrightarrow> img_sects s = FSSIZE \<Longrightarrow> wsect x buf s = Done () (s\<lparr>img := (img s)(unat x := buf)\<rparr>)"
  by (simp add: wsect_def run sector_small)

end
