(* ===== verification/Image.thy ===== *)
theory Image
  imports Mkfs
begin

text \<open>
  What the image of a disk means, in the terms of \<^verbatim>\<open>bmap()\<close> and \<^verbatim>\<open>readi()\<close> of the kernel: the
  blocks of a file (\<open>blk\<close>, \<open>owns\<close>) and its bytes (\<open>content\<close>).  The functions of
  \<^verbatim>\<open>mkfs.c\<close> keep the files of an image apart (\<open>image_ok\<close>), and \<^verbatim>\<open>iappend()\<close> appends to one
  of them.
\<close>

section \<open>Files in an image\<close>

text \<open>
  The block that holds block \<open>j\<close> of a file, 0 if there is none; the indirect block; how many blocks
  a file of \<open>sz\<close> bytes has, and how many it takes with the indirect block; which those are.
\<close>

definition ind :: "dinode \<Rightarrow> nat" where
  "ind d = unat (d_addrs d NDIRECT)"

definition blk :: "(nat \<Rightarrow> block) \<Rightarrow> dinode \<Rightarrow> nat \<Rightarrow> nat" where
  "blk m d j = (if j < NDIRECT then unat (d_addrs d j)
     else if ind d = 0 then 0 else unat (get32 (m (ind d)) (4 * (j - NDIRECT))))"

definition owns :: "(nat \<Rightarrow> block) \<Rightarrow> dinode \<Rightarrow> nat \<Rightarrow> nat set" where
  "owns m d n = blk m d ` {..<n} \<union> (if NDIRECT < n then {ind d} else {})"

definition content :: "(nat \<Rightarrow> block) \<Rightarrow> dinode \<Rightarrow> nat \<Rightarrow> u8 list" where
  "content m d sz = map (\<lambda>k. m (blk m d (k div BSIZE)) (k mod BSIZE)) [0..<sz]"

text \<open>A file with \<open>n\<close> blocks of its own below \<open>fb\<close>.\<close>

definition file_wf :: "(nat \<Rightarrow> block) \<Rightarrow> nat \<Rightarrow> dinode \<Rightarrow> nat \<Rightarrow> bool" where
  "file_wf m fb d n \<longleftrightarrow> n \<le> MAXFILE \<and> (\<forall>j<MAXFILE. blk m d j = 0 \<longleftrightarrow> n \<le> j) \<and> (ind d = 0 \<longleftrightarrow> n \<le> NDIRECT)
     \<and> owns m d n \<subseteq> {nmeta..<fb} \<and> inj_on (blk m d) {..<n} \<and> (NDIRECT < n \<longrightarrow> ind d \<notin> blk m d ` {..<n})"

lemma blk_frame: "(ind d \<noteq> 0 \<Longrightarrow> m' (ind d) = m (ind d)) \<Longrightarrow> blk m' d j = blk m d j"
  by (auto simp: blk_def)

lemma file_wf_ind: "file_wf m fb d n \<Longrightarrow> ind d \<noteq> 0 \<Longrightarrow> ind d \<in> owns m d n"
  by (auto simp: file_wf_def owns_def)

lemma file_wf_frame:
  assumes "file_wf m fb d n" and "\<And>b. b \<in> owns m d n \<Longrightarrow> m' b = m b" and "fb \<le> fb'"
  shows "file_wf m' fb' d n" and "blk m' d = blk m d" and "owns m' d n = owns m d n"
    and "nblk sz \<le> n \<Longrightarrow> content m' d sz = content m d sz"
proof -
  show b: "blk m' d = blk m d"
    using blk_frame [of d m' m] assms(2) file_wf_ind [OF assms(1)] by blast
  show o: "owns m' d n = owns m d n"
    by (simp add: owns_def b)
  have "owns m d n \<subseteq> {nmeta..<fb'}"
    using assms(1,3) unfolding file_wf_def by (meson ivl_subset le_refl subset_trans)
  then show "file_wf m' fb' d n"
    using assms(1) by (simp add: file_wf_def b o)
  assume "nblk sz \<le> n"
  then have "k div BSIZE < n" if "k < sz" for k
    using that unfolding nblk_def BSIZE_def by linarith
  then show "content m' d sz = content m d sz"
    using assms(2) by (auto simp: content_def b owns_def)
qed

text \<open>One more block.\<close>

lemma file_wf_add:
  assumes wf: "file_wf m fb d n" and "n < MAXFILE" and "nmeta \<le> fb" and "b \<in> {fb..<fb'}"
    and blk': "\<And>j. j < MAXFILE \<Longrightarrow> blk m' d' j = (if j = n then b else blk m d j)"
    and i: "ind d' = 0 \<longleftrightarrow> n < NDIRECT" "ind d' = ind d \<or> ind d' \<in> {fb..<fb'}" "ind d' \<noteq> b"
  shows "file_wf m' fb' d' (Suc n)" and "owns m' d' (Suc n) \<subseteq> owns m d n \<union> {fb..<fb'}"
proof -
  have old: "blk m d ` {..<n} \<subseteq> {nmeta..<fb}" and n0: "nmeta \<noteq> 0"
    using wf by (auto simp: file_wf_def owns_def nmeta_eq)
  have img: "blk m' d' ` {..<Suc n} = insert b (blk m d ` {..<n})"
    using blk' assms(2) by (force simp: lessThan_Suc image_iff)
  show sub: "owns m' d' (Suc n) \<subseteq> owns m d n \<union> {fb..<fb'}"
    using i assms(4) wf by (auto simp: owns_def img file_wf_def)
  have new: "ind d' \<notin> insert b (blk m d ` {..<n})" if "NDIRECT \<le> n"
    using i that old wf by (auto simp: file_wf_def)
  have "owns m d n \<union> {fb..<fb'} \<subseteq> {nmeta..<fb'}"
    using wf assms(3,4) by (fastforce simp: file_wf_def)
  moreover have "inj_on (blk m' d') {..<Suc n}"
  proof -
    have "inj_on (blk m' d') {..<n} \<longleftrightarrow> inj_on (blk m d) {..<n}"
      using blk' assms(2) by (intro inj_on_cong) simp
    moreover have "blk m' d' ` {..<n} = blk m d ` {..<n}"
      using blk' assms(2) by (intro image_cong) simp_all
    moreover have "b \<notin> blk m d ` {..<n}" using old assms(4) by fastforce
    ultimately show ?thesis
      using wf blk' [OF assms(2)] by (simp add: lessThan_Suc file_wf_def)
  qed
  moreover have "\<forall>j<MAXFILE. blk m' d' j = 0 \<longleftrightarrow> Suc n \<le> j"
    using wf blk' assms(3,4) n0 by (auto simp: file_wf_def)
  ultimately show "file_wf m' fb' d' (Suc n)"
    using sub new i assms(2) unfolding file_wf_def img by (auto simp: not_less)
qed

section \<open>Growing a file\<close>

text \<open>
  \<open>grown s d n t d' n'\<close>: the file \<open>d\<close> with \<open>n\<close> blocks has become \<open>d'\<close> with \<open>n'\<close>
  blocks.  It has taken the blocks it needs from the free ones in order, and nothing but its own blocks
  has changed.
\<close>

abbreviation fb :: "mkst \<Rightarrow> nat" where
  "fb s \<equiv> unat (freeblock s)"

definition fresh :: "mkst \<Rightarrow> bool" where
  "fresh s \<longleftrightarrow> img_sects s = FSSIZE \<and> nmeta \<le> fb s \<and> (\<forall>b\<ge>fb s. img s b = (\<lambda>_. 0))"

definition grown :: "mkst \<Rightarrow> dinode \<Rightarrow> nat \<Rightarrow> mkst \<Rightarrow> dinode \<Rightarrow> nat \<Rightarrow> bool" where
  "grown s d n t d' n' \<longleftrightarrow> t = s\<lparr>img := img t, freeblock := freeblock t\<rparr> \<and> d' = d\<lparr>d_addrs := d_addrs d'\<rparr>
     \<and> fresh t \<and> file_wf (img t) (fb t) d' n' \<and> n \<le> n' \<and> fb t + need n = fb s + need n'
     \<and> (\<forall>j<n. blk (img t) d' j = blk (img s) d j)
     \<and> owns (img t) d' n' \<subseteq> owns (img s) d n \<union> {fb s..<fb t}
     \<and> (\<forall>b<fb s. b \<notin> owns (img s) d n \<longrightarrow> img t b = img s b)"

lemma grown_refl: "fresh s \<Longrightarrow> file_wf (img s) (fb s) d n \<Longrightarrow> grown s d n s d n"
  by (simp add: grown_def)

lemma grown_trans:
  assumes "grown s d n t d' n'" and "grown t d' n' u d'' n''"
  shows "grown s d n u d'' n''"
proof -
  have le: "fb s \<le> fb t" "fb t \<le> fb u"
    using assms need_mono [of n n'] need_mono [of n' n''] by (auto simp: grown_def)
  have a: "owns (img u) d'' n'' \<subseteq> owns (img s) d n \<union> {fb s..<fb u}"
  proof -
    have "owns (img u) d'' n'' \<subseteq> owns (img t) d' n' \<union> {fb t..<fb u}"
      "owns (img t) d' n' \<subseteq> owns (img s) d n \<union> {fb s..<fb t}"
      using assms by (simp_all add: grown_def)
    then show ?thesis using le by fastforce
  qed
  have b: "img u b = img s b" if "b < fb s" "b \<notin> owns (img s) d n" for b
  proof -
    have "b \<notin> owns (img t) d' n'" using assms(1) that by (auto simp: grown_def)
    then show ?thesis using assms that le by (simp add: grown_def)
  qed
  have "u = s\<lparr>img := img u, freeblock := freeblock u\<rparr>" "d'' = d\<lparr>d_addrs := d_addrs d''\<rparr>"
    using assms unfolding grown_def by (metis mkst.update_convs mkst.surjective mkst.ext_inject, metis dinode.update_convs dinode.surjective dinode.ext_inject)
  then show ?thesis
    using assms a b unfolding grown_def by auto
qed

lemma unat_freeblock_Suc: "unat (b :: u32) < FSSIZE \<Longrightarrow> unat (b + 1) = Suc (unat b)"
  by (subst unat_add_lem [THEN iffD1]) (simp_all add: param_defs)

lemma run_new_block [run]: "new_block s = Done (freeblock s) (s\<lparr>freeblock := freeblock s + 1\<rparr>)"
  by (simp add: new_block_def run)

lemma run_need_addr [run]:
  "need_addr i d s = (if d_addrs d i = 0 then Done (d\<lparr>d_addrs := (d_addrs d)(i := freeblock s)\<rparr>) (s\<lparr>freeblock := freeblock s + 1\<rparr>)
     else Done d s)"
  by (simp add: need_addr_def run)

lemma grown_add:
  fixes m' :: "nat \<Rightarrow> block"
  assumes s: "fresh s" "file_wf (img s) (fb s) d n" "n < MAXFILE"
    and f': "unat f' + need n = fb s + need (Suc n)"
    and "b \<in> {fb s..<unat f'}" and "\<And>j. j < MAXFILE \<Longrightarrow> blk m' d' j = (if j = n then b else blk (img s) d j)"
    and "ind d' = 0 \<longleftrightarrow> n < NDIRECT" "ind d' = ind d \<or> ind d' \<in> {fb s..<unat f'}" "ind d' \<noteq> b"
    and m': "\<And>k. k \<notin> owns (img s) d n \<Longrightarrow> k \<notin> {fb s..<unat f'} \<Longrightarrow> m' k = img s k"
    and d': "d' = d\<lparr>d_addrs := a\<rparr>"
  shows "grown s d n (s\<lparr>img := m', freeblock := f'\<rparr>) d' (Suc n)"
proof -
  have nm: "nmeta \<le> fb s" and lt: "owns (img s) d n \<subseteq> {..<fb s}"
    using s by (auto simp: fresh_def file_wf_def)
  have wf: "file_wf m' (unat f') d' (Suc n)" "owns m' d' (Suc n) \<subseteq> owns (img s) d n \<union> {fb s..<unat f'}"
    using file_wf_add [OF s(2,3) nm assms(5,6-9)] by blast+
  have le: "fb s \<le> unat f'" using f' by (simp add: need_def split: if_splits)
  have "m' k = (\<lambda>_. 0)" if "unat f' \<le> k" for k
  proof -
    have "k \<notin> owns (img s) d n" using lt that le by auto
    then show ?thesis using m' that s(1) le by (simp add: fresh_def)
  qed
  then have "fresh (s\<lparr>img := m', freeblock := f'\<rparr>)"
    using s(1) nm le by (simp add: fresh_def)
  moreover have "blk m' d' j = blk (img s) d j" if "j < n" for j
    using that s(3) assms(6) by simp
  ultimately show ?thesis
    using wf f' m' d' unfolding grown_def by simp
qed

lemma get32_zero [simp]: "get32 (\<lambda>_. 0) i = 0"
  by (rule bit_word_eqI) (simp add: bit_get32)

lemma file_wfD:
  assumes "file_wf m k d n"
  shows "n \<le> MAXFILE" and "j < MAXFILE \<Longrightarrow> blk m d j = 0 \<longleftrightarrow> n \<le> j" and "ind d = 0 \<longleftrightarrow> n \<le> NDIRECT"
  using assms by (simp_all add: file_wf_def)

lemma file_wf_data:
  assumes "file_wf m k d n" and "j < n"
  shows "blk m d j \<in> {nmeta..<k} \<and> (NDIRECT < n \<longrightarrow> blk m d j \<noteq> ind d)"
proof -
  have "blk m d j \<in> blk m d ` {..<n}" using assms(2) by simp
  then show ?thesis using assms(1) unfolding file_wf_def owns_def by (metis UnCI subsetD)
qed

definition data_kept :: "mkst \<Rightarrow> dinode \<Rightarrow> nat \<Rightarrow> mkst \<Rightarrow> bool" where
  "data_kept s d n t \<longleftrightarrow> (\<forall>j<n. img t (blk (img s) d j) = img s (blk (img s) d j))"

text \<open>The block is there already.\<close>

lemma iappend_block_old:
  assumes "fresh s" and "file_wf (img s) (fb s) d n" and "fb s \<le> FSSIZE" and "fbn < n"
  shows "\<exists>x. iappend_block d fbn s = Done (d, x) s \<and> unat x = blk (img s) d fbn"
proof (cases "fbn < NDIRECT")
  case True
  then have "d_addrs d fbn \<noteq> 0"
    using file_wfD(1) [OF assms(2)] file_wfD(2) [OF assms(2), of fbn] assms(4) by (auto simp: blk_def)
  then show ?thesis using True by (simp add: iappend_block_def run blk_def)
next
  case False
  have b: "blk (img s) d fbn \<noteq> 0" "NDIRECT < n"
    using file_wfD(1) [OF assms(2)] file_wfD(2) [OF assms(2), of fbn] assms(4) False by auto
  have i: "ind d \<in> {nmeta..<fb s}"
    using assms(2) b(2) by (auto simp: file_wf_def owns_def)
  have a: "d_addrs d NDIRECT \<noteq> 0" "ind d \<noteq> 0" using i by (auto simp: ind_def nmeta_eq unat_eq_0)
  have sec: "sector (d_addrs d NDIRECT) = ind d" "sector (d_addrs d NDIRECT) < img_sects s"
    using i assms(1,3) sector_small [of "d_addrs d NDIRECT"] by (auto simp: ind_def fresh_def)
  have "get32 (img s (ind d)) (4 * (fbn - NDIRECT)) \<noteq> 0"
    using b a False by (auto simp: blk_def)
  then show ?thesis
    using a False sec by (simp add: iappend_block_def run blk_def)
qed

text \<open>A direct block is added.\<close>

lemma iappend_block_direct:
  assumes "fresh s" and "file_wf (img s) (fb s) d n" and "fb s < FSSIZE" and "n < NDIRECT"
  shows "\<exists>d' x t. iappend_block d n s = Done (d', x) t \<and> grown s d n t d' (Suc n) \<and> blk (img t) d' n = unat x
    \<and> data_kept s d n t"
proof -
  let ?d = "d\<lparr>d_addrs := (d_addrs d)(n := freeblock s)\<rparr>"
  let ?f = "freeblock s + 1"
  have f: "unat ?f = Suc (fb s)" using assms(3) by (rule unat_freeblock_Suc)
  have d0: "d_addrs d n = 0" "ind d = 0"
    using file_wfD(2) [OF assms(2), of n] file_wfD(3) [OF assms(2)] assms(4)
    by (simp_all add: blk_def unat_eq_0 MAXFILE_def)
  have i: "ind ?d = 0" using d0 assms(4) by (simp add: ind_def)
  have "grown s d n (s\<lparr>img := img s, freeblock := ?f\<rparr>) ?d (Suc n)"
  proof (rule grown_add [OF assms(1,2), where b = "fb s"])
    fix j assume "j < MAXFILE"
    then show "blk (img s) ?d j = (if j = n then fb s else blk (img s) d j)"
      using assms(4) i d0 by (auto simp: blk_def)
  next
    show "ind ?d \<noteq> fb s" using i assms(1) by (simp add: fresh_def nmeta_eq)
  qed (use assms(4) f i d0 in \<open>simp_all add: MAXFILE_def need_def\<close>)
  moreover have "iappend_block d n s = Done (?d, freeblock s) (s\<lparr>img := img s, freeblock := ?f\<rparr>)"
    using d0 assms(4) by (simp add: iappend_block_def run)
  ultimately show ?thesis
    using assms(4) by (intro exI conjI) (auto simp: blk_def data_kept_def)
qed

text \<open>The first block behind the indirect block, and the indirect block with it.\<close>

lemma iappend_block_indirect:
  assumes "fresh s" and "file_wf (img s) (fb s) d NDIRECT" and "Suc (fb s) < FSSIZE"
  shows "\<exists>d' x t. iappend_block d NDIRECT s = Done (d', x) t \<and> grown s d NDIRECT t d' (Suc NDIRECT)
    \<and> blk (img t) d' NDIRECT = unat x \<and> data_kept s d NDIRECT t"
proof -
  let ?d = "d\<lparr>d_addrs := (d_addrs d)(NDIRECT := freeblock s)\<rparr>"
  let ?g = "freeblock s + 1" and ?f = "freeblock s + 1 + 1"
  let ?m = "(img s)(fb s := put32 0 ?g (img s (fb s)))"
  have g: "unat ?g = Suc (fb s)" using assms(3) by (intro unat_freeblock_Suc) simp
  have f: "unat ?f = Suc (Suc (fb s))" using assms(3) g by (subst unat_freeblock_Suc) simp_all
  have d0: "d_addrs d NDIRECT = 0" "ind d = 0"
    using assms(2) by (auto simp: file_wf_def ind_def unat_eq_0)
  have i: "ind ?d = fb s" by (simp add: ind_def)
  have nz: "fb s \<noteq> 0" "img s (fb s) = (\<lambda>_. 0)" "img_sects s = FSSIZE" using assms(1) by (auto simp: fresh_def nmeta_eq)
  have sec: "sector (freeblock s) = fb s" using assms(3) by (intro sector_small) simp
  have "grown s d NDIRECT (s\<lparr>img := ?m, freeblock := ?f\<rparr>) ?d (Suc NDIRECT)"
  proof (rule grown_add [OF assms(1,2), where b = "Suc (fb s)"])
    fix j assume "j < MAXFILE"
    show "blk ?m ?d j = (if j = NDIRECT then Suc (fb s) else blk (img s) d j)"
    proof (cases "j \<le> NDIRECT")
      case True
      then show ?thesis using i nz g by (auto simp: blk_def)
    next
      case False
      then have "get32 (put32 0 ?g (\<lambda>_. 0)) (4 * (j - NDIRECT)) = 0"
        by (subst get32_put32_other) auto
      then show ?thesis using False i nz d0 by (simp add: blk_def)
    qed
  qed (use f i d0 in \<open>auto simp: MAXFILE_def NINDIRECT_def BSIZE_def need_def nz\<close>)
  moreover have "iappend_block d NDIRECT s = Done (?d, ?g) (s\<lparr>img := ?m, freeblock := ?f\<rparr>)"
    using d0 assms(3) nz sec by (simp add: iappend_block_def run run_wsect)
  moreover have "data_kept s d NDIRECT (s\<lparr>img := ?m, freeblock := ?f\<rparr>)"
    using file_wf_data [OF assms(2)] by (fastforce simp: data_kept_def)
  moreover have "blk ?m ?d NDIRECT = unat ?g" using i nz by (simp add: blk_def)
  ultimately show ?thesis by fastforce
qed

text \<open>A further one.\<close>

lemma iappend_block_further:
  assumes "fresh s" and "file_wf (img s) (fb s) d n" and "fb s < FSSIZE" and "NDIRECT < n" and "n < MAXFILE"
  shows "\<exists>d' x t. iappend_block d n s = Done (d', x) t \<and> grown s d n t d' (Suc n) \<and> blk (img t) d' n = unat x
    \<and> data_kept s d n t"
proof -
  let ?f = "freeblock s + 1"
  let ?m = "(img s)(ind d := put32 (4 * (n - NDIRECT)) (freeblock s) (img s (ind d)))"
  have f: "unat ?f = Suc (fb s)" using assms(3) by (rule unat_freeblock_Suc)
  have i: "ind d \<in> owns (img s) d n" "ind d \<in> {nmeta..<fb s}"
    using assms(2,4) by (auto simp: file_wf_def owns_def)
  then have i0: "ind d \<noteq> 0" "ind d < FSSIZE" "d_addrs d NDIRECT \<noteq> 0"
    using assms(3) by (auto simp: nmeta_eq ind_def unat_eq_0)
  have g0: "get32 (img s (ind d)) (4 * (n - NDIRECT)) = 0"
    using file_wfD(2) [OF assms(2,5)] assms(4) i0 by (simp add: blk_def unat_eq_0)
  have sec: "sector (d_addrs d NDIRECT) = ind d" "img_sects s = FSSIZE"
    using i0 assms(1) sector_small [of "d_addrs d NDIRECT"] by (auto simp: fresh_def ind_def)
  have "grown s d n (s\<lparr>img := ?m, freeblock := ?f\<rparr>) d (Suc n)"
  proof (rule grown_add [OF assms(1,2,5), where b = "fb s" and a = "d_addrs d"])
    fix j assume "j < MAXFILE"
    have "get32 (put32 (4 * (n - NDIRECT)) v e) (4 * (j - NDIRECT)) = get32 e (4 * (j - NDIRECT))"
      if "NDIRECT \<le> j" "j \<noteq> n" for v e
      using that assms(4) by (intro get32_put32_other) auto
    then show "blk ?m d j = (if j = n then fb s else blk (img s) d j)"
      using assms(4) i0 by (auto simp: blk_def)
  qed (use assms(4) f i i0 in \<open>auto simp: need_def\<close>)
  moreover have "iappend_block d n s = Done (d, freeblock s) (s\<lparr>img := ?m, freeblock := ?f\<rparr>)"
    using i0 assms(4) g0 sec by (simp add: iappend_block_def run run_wsect ind_def)
  moreover have "data_kept s d n (s\<lparr>img := ?m, freeblock := ?f\<rparr>)"
    using file_wf_data [OF assms(2)] assms(4) by (simp add: data_kept_def)
  moreover have "blk ?m d n = fb s" using i0 assms(4) by (simp add: blk_def)
  ultimately show ?thesis by fastforce
qed

lemma iappend_block_run:
  assumes "fresh s" and "file_wf (img s) (fb s) d n" and "fbn < MAXFILE" and "fbn \<le> n"
    and "fb s + need (max n (Suc fbn)) \<le> FSSIZE + need n"
  shows "\<exists>d' x t. iappend_block d fbn s = Done (d', x) t \<and> grown s d n t d' (max n (Suc fbn))
    \<and> blk (img t) d' fbn = unat x \<and> data_kept s d n t"
proof (cases "fbn = n")
  case False
  then have "fbn < n" "max n (Suc fbn) = n" using assms(4) by auto
  then show ?thesis
    using iappend_block_old [OF assms(1,2), of fbn] grown_refl [OF assms(1,2)] assms(5)
    by (auto simp: data_kept_def)
next
  case True
  then have m: "max n (Suc fbn) = Suc n" by simp
  have nd: "need (Suc n) = (if n = NDIRECT then need n + 2 else need n + 1)" by (simp add: need_def)
  consider "n < NDIRECT" | "n = NDIRECT" | "NDIRECT < n" by linarith
  then show ?thesis
  proof cases
    case 1
    then show ?thesis using iappend_block_direct [OF assms(1,2) _ 1] assms(5) nd unfolding m True by simp
  next
    case 2
    then show ?thesis using iappend_block_indirect [OF assms(1)] assms(2,5) nd unfolding m True by simp
  next
    case 3
    then show ?thesis using iappend_block_further [OF assms(1,2) _ 3] assms(3,5) nd unfolding m True by simp
  qed
qed

section \<open>Appending\<close>

lemma grown_write:
  assumes "fresh s" and "file_wf (img s) (fb s) d n" and "j < n"
  shows "grown s d n (s\<lparr>img := (img s)(blk (img s) d j := v)\<rparr>) d n"
    and "blk ((img s)(blk (img s) d j := v)) d = blk (img s) d"
proof -
  let ?b = "blk (img s) d j" and ?m = "(img s)(blk (img s) d j := v)"
  have b: "?b \<in> {nmeta..<fb s}" "NDIRECT < n \<longrightarrow> ?b \<noteq> ind d" "?b \<in> owns (img s) d n"
    using file_wf_data [OF assms(2,3)] assms(3) by (auto simp: owns_def)
  have "ind d = 0 \<or> ind d \<noteq> ?b" using b(2) file_wfD(3) [OF assms(2)] by auto
  then have e: "blk ?m d i = blk (img s) d i" for i
    by (intro blk_frame) auto
  then show "blk ?m d = blk (img s) d" by blast
  have o: "owns ?m d n = owns (img s) d n" by (simp add: owns_def e)
  have "file_wf ?m (fb s) d n"
    using assms(2) by (simp add: file_wf_def o e inj_on_def image_def)
  moreover have "fresh (s\<lparr>img := ?m\<rparr>)"
    using assms(1) b(1) by (auto simp: fresh_def)
  ultimately show "grown s d n (s\<lparr>img := ?m\<rparr>) d n"
    using b e o by (auto simp: grown_def)
qed

lemma content_append:
  assumes wf: "file_wf m z d (nblk (k + length q))"
    and m': "m' = m(blk m d (k div BSIZE) := put_list (k mod BSIZE) q (m (blk m d (k div BSIZE))))"
    and b': "blk m' d = blk m d" and q: "q \<noteq> []" "k mod BSIZE + length q \<le> BSIZE"
  shows "content m' d (k + length q) = content m d k @ q"
proof (rule nth_equalityI)
  fix i assume "i < length (content m' d (k + length q))"
  then have i: "i < k + length q" by (simp add: content_def)
  have lt: "i div BSIZE < nblk (k + length q)" "k div BSIZE < nblk (k + length q)"
    using i length_greater_0_conv [of q] q(1) unfolding nblk_def BSIZE_def by linarith+
  have inj: "blk m d (i div BSIZE) = blk m d (k div BSIZE) \<longleftrightarrow> i div BSIZE = k div BSIZE"
    using wf lt by (auto simp: file_wf_def inj_on_def)
  have c: "m' (blk m d (i div BSIZE)) = (if i div BSIZE = k div BSIZE
      then put_list (k mod BSIZE) q (m (blk m d (k div BSIZE))) else m (blk m d (i div BSIZE)))"
    unfolding m' by (simp add: inj)
  have v: "content m' d (k + length q) ! i = m' (blk m d (i div BSIZE)) (i mod BSIZE)"
    using i by (simp add: content_def b' del: upt_Suc)
  show "content m' d (k + length q) ! i = (content m d k @ q) ! i"
  proof (cases "i < k")
    case True
    have "i mod BSIZE < k mod BSIZE" if "i div BSIZE = k div BSIZE"
      using True that by (metis div_mult_mod_eq nat_add_left_cancel_less)
    then show ?thesis
      unfolding v c using True by (auto simp: content_def nth_append put_list_def)
  next
    case False
    have r: "i div BSIZE = k div BSIZE" "i mod BSIZE = k mod BSIZE + (i - k)"
      using False i q(2) block_split [of k BSIZE "i - k"] by simp_all
    moreover have "put_list a q e (a + (i - k)) = q ! (i - k)" for a e
      using False i unfolding put_list_def by (auto simp: less_diff_conv2)
    ultimately show ?thesis
      unfolding v c using False i by (simp add: content_def nth_append)
  qed
qed (simp add: content_def)

lemma nblk_eq: "r < BSIZE \<Longrightarrow> nblk (BSIZE * q + r) = (if r = 0 then q else Suc q)"
  unfolding nblk_def BSIZE_def by auto

lemma nblk_step:
  assumes "0 < n" and "n \<le> BSIZE - k mod BSIZE"
  shows "nblk (k + n) = max (nblk k) (Suc (k div BSIZE))" and "k div BSIZE \<le> nblk k"
proof -
  obtain q r where k: "k = BSIZE * q + r" "r < BSIZE" "k div BSIZE = q" "k mod BSIZE = r"
    by (metis BSIZE_def mod_less_divisor mult_div_mod_eq zero_less_numeral)
  have "nblk (k + n) = Suc q"
  proof (cases "r + n = BSIZE")
    case True
    then have "k + n = BSIZE * Suc q + 0" using k by simp
    then show ?thesis using nblk_eq [of 0 "Suc q"] by (simp add: BSIZE_def)
  next
    case False
    then show ?thesis using assms k nblk_eq [of "r + n" q] by (simp add: add.assoc)
  qed
  then show "nblk (k + n) = max (nblk k) (Suc (k div BSIZE))" "k div BSIZE \<le> nblk k"
    using nblk_eq [OF k(2), of q] unfolding k(3) k(1) [symmetric] by (auto split: if_splits)
qed

text \<open>The arithmetic of one turn, on 32-bit words, below the largest file size.\<close>

lemma turn_words:
  assumes "k < MAXFILE * BSIZE" and "l < 2 ^ 31" and "0 < l"
  defines "off \<equiv> of_nat k :: u32" and "n \<equiv> min l (BSIZE - k mod BSIZE)"
  shows "unat (off div of_nat BSIZE) = k div BSIZE"
    and "unat (off - off div of_nat BSIZE * of_nat BSIZE) = k mod BSIZE"
    and "min (of_nat l) ((off div of_nat BSIZE + 1) * of_nat BSIZE - off) = of_nat n" and "unat (of_nat n :: u32) = n"
proof -
  have k: "k < 274432" using assms(1) by (simp add: fs_consts)
  have u: "unat off = k" using k by (simp add: off_def unat_of_nat)
  show d: "unat (off div of_nat BSIZE) = k div BSIZE"
    using u by (simp add: unat_div BSIZE_def)
  have dw: "off div of_nat BSIZE = of_nat (k div BSIZE)"
    unfolding word_unat_eq_iff d using k by (simp add: BSIZE_def unat_of_nat)
  have s: "(off div of_nat BSIZE + 1) * of_nat BSIZE - off = of_nat (BSIZE - k mod BSIZE)"
  proof -
    have "k mod BSIZE < BSIZE" by (simp add: BSIZE_def)
    then have "(k div BSIZE + 1) * BSIZE = k + (BSIZE - k mod BSIZE)"
      using div_mult_mod_eq [of k BSIZE] unfolding add_mult_distrib by linarith
    then have "of_nat ((k div BSIZE + 1) * BSIZE) = off + of_nat (BSIZE - k mod BSIZE)"
      by (simp only: off_def of_nat_add)
    then show ?thesis by (simp add: dw algebra_simps)
  qed
  have m: "off - off div of_nat BSIZE * of_nat BSIZE = of_nat (k mod BSIZE)"
  proof -
    have "off = of_nat (k div BSIZE * BSIZE + k mod BSIZE)" by (simp add: off_def)
    then have "off = of_nat (k div BSIZE) * of_nat BSIZE + of_nat (k mod BSIZE)"
      by (simp only: of_nat_add of_nat_mult)
    then show ?thesis unfolding dw by (simp only: add_diff_cancel_left')
  qed
  show "unat (off - off div of_nat BSIZE * of_nat BSIZE) = k mod BSIZE"
    unfolding m by (simp add: BSIZE_def unat_of_nat)
  show "min (of_nat l) ((off div of_nat BSIZE + 1) * of_nat BSIZE - off) = of_nat n"
    unfolding s n_def using assms(2) by (intro min_of_nat) (auto simp: BSIZE_def)
  show "unat (of_nat n :: u32) = n"
    using assms(2) by (simp add: n_def unat_of_nat BSIZE_def)
qed

lemma iappend_turn_run:
  assumes s: "fresh s" "file_wf (img s) (fb s) d (nblk k)" and k: "k < MAXFILE * BSIZE"
    and p: "p \<noteq> []" "length p < 2 ^ 31"
  defines "n \<equiv> min (length p) (BSIZE - k mod BSIZE)"
  assumes room: "fb s + need (nblk (k + n)) \<le> FSSIZE + need (nblk k)"
  shows "\<exists>d' t. iappend_turn (d, of_nat k, p) s = Done (Inl (d', of_nat (k + n), drop n p)) t
    \<and> grown s d (nblk k) t d' (nblk (k + n)) \<and> content (img t) d' (k + n) = content (img s) d k @ take n p"
proof -
  let ?j = "k div BSIZE"
  note w = turn_words [OF k p(2), folded n_def]
  have n: "0 < n" "n \<le> BSIZE - k mod BSIZE" "k mod BSIZE < BSIZE" using p(1) by (auto simp: n_def BSIZE_def)
  note nb = nblk_step [OF n(1,2)]
  have j: "?j < MAXFILE" using k by (simp add: less_mult_imp_div_less)
  obtain d' x t where t: "iappend_block d ?j s = Done (d', x) t" "grown s d (nblk k) t d' (nblk (k + n))"
      "blk (img t) d' ?j = unat x" "data_kept s d (nblk k) t"
    using iappend_block_run [OF s j nb(2)] room unfolding nb(1) by blast
  let ?v = "put_list (k mod BSIZE) (take n p) (img t (unat x))"
  let ?u = "t\<lparr>img := (img t)(unat x := ?v)\<rparr>"
  have tw: "fresh t" "file_wf (img t) (fb t) d' (nblk (k + n))" "?j < nblk (k + n)"
    using t(2) nb(1) by (auto simp: grown_def)
  note g = grown_write [OF tw, of ?v, unfolded t(3)]
  have "unat x \<in> {nmeta..<fb t}" using file_wf_data [OF tw(2,3)] t(3) by simp
  moreover have "fb t \<le> FSSIZE" using t(2) room by (simp add: grown_def)
  ultimately have x: "unat x < FSSIZE" by simp
  have "iappend_turn (d, of_nat k, p) s = Done (Inl (d', of_nat (k + n), drop n p)) ?u"
    using p w n(1) j t(1) x tw(1) by (simp add: iappend_turn_def Let_def run sector_small run_wsect fresh_def)
  moreover have "grown s d (nblk k) ?u d' (nblk (k + n))"
    using grown_trans [OF t(2) g(1)] .
  moreover have "content ((img t)(unat x := ?v)) d' (k + length (take n p)) = content (img t) d' k @ take n p"
    using n p(1) tw(2) g(2) t(3) by (intro content_append [where z = "fb t"]) (auto simp: n_def)
  moreover have "content (img t) d' k = content (img s) d k"
  proof -
    have "i div BSIZE < nblk k" if "i < k" for i using that unfolding nblk_def BSIZE_def by linarith
    then show ?thesis using t(2,4) by (simp add: content_def grown_def data_kept_def)
  qed
  ultimately show ?thesis
    by (auto simp: n_def min_absorb2)
qed

lemma nblk_mono: "a \<le> b \<Longrightarrow> nblk a \<le> nblk b"
  unfolding nblk_def by (intro div_le_mono) simp

lemma iappend_loop_run:
  assumes "fresh s" and "file_wf (img s) (fb s) d (nblk k)" and "k + length p \<le> MAXFILE * BSIZE" and "length p < N"
    and "fb s + need (nblk (k + length p)) \<le> FSSIZE + need (nblk k)"
  shows "\<exists>d' t. loopM N iappend_turn (d, of_nat k, p) s = Done (d', of_nat (k + length p)) t
    \<and> grown s d (nblk k) t d' (nblk (k + length p)) \<and> content (img t) d' (k + length p) = content (img s) d k @ p"
  using assms
proof (induction N arbitrary: s d k p)
  case (Suc N)
  show ?case
  proof (cases "p = []")
    case True
    then show ?thesis
      using grown_refl [OF Suc.prems(1,2)] by (simp add: run_loopM iappend_turn_def run)
  next
    case False
    let ?n = "min (length p) (BSIZE - k mod BSIZE)"
    have n: "0 < ?n" "?n \<le> length p" "length (drop ?n p) = length p - ?n" using False by (auto simp: BSIZE_def)
    have sum: "k + ?n + length (drop ?n p) = k + length p" using n by simp
    have k: "k < MAXFILE * BSIZE" using Suc.prems(3) False by (cases p) auto
    have l: "length p < 2 ^ 31" using Suc.prems(3) by (simp add: fs_consts)
    have mono: "need (nblk k) \<le> need (nblk (k + ?n))" "need (nblk (k + ?n)) \<le> need (nblk (k + length p))"
      using n by (auto intro!: need_mono nblk_mono)
    obtain d' t where t: "iappend_turn (d, of_nat k, p) s = Done (Inl (d', of_nat (k + ?n), drop ?n p)) t"
        "grown s d (nblk k) t d' (nblk (k + ?n))" "content (img t) d' (k + ?n) = content (img s) d k @ take ?n p"
      using iappend_turn_run [OF Suc.prems(1,2) k False l] mono Suc.prems(5) by auto
    have g: "fresh t" "file_wf (img t) (fb t) d' (nblk (k + ?n))" "fb t + need (nblk k) = fb s + need (nblk (k + ?n))"
      using t(2) by (simp_all only: grown_def)
    have r: "fb t + need (nblk (k + length p)) \<le> FSSIZE + need (nblk (k + ?n))"
      using g(3) Suc.prems(5) by linarith
    have m: "length (drop ?n p) < N" using Suc.prems(4) n by linarith
    obtain e u where u: "loopM N iappend_turn (d', of_nat (k + ?n), drop ?n p) t = Done (e, of_nat (k + length p)) u"
        "grown t d' (nblk (k + ?n)) u e (nblk (k + length p))"
        "content (img u) e (k + length p) = content (img t) d' (k + ?n) @ drop ?n p"
      using Suc.IH [of t d' "k + ?n" "drop ?n p", unfolded sum, OF g(1,2) Suc.prems(3) m r] by blast
    have "content (img u) e (k + length p) = content (img s) d k @ p"
      using u(3) t(3) by simp
    then show ?thesis
      using grown_trans [OF t(2) u(2)] t(1) u(1) by (simp add: run_loopM)
  qed
qed simp

section \<open>Inodes in an image\<close>

abbreviation fi :: "mkst \<Rightarrow> nat" where
  "fi s \<equiv> unat (freeinode s)"

definition isect :: "nat \<Rightarrow> nat" where
  "isect i = 2 + nlog + i div IPB"

definition inode_of :: "mkst \<Rightarrow> nat \<Rightarrow> dinode" where
  "inode_of s i = dinode_at (img s (isect i)) (64 * (i mod IPB))"

definition put_inode :: "nat \<Rightarrow> dinode \<Rightarrow> mkst \<Rightarrow> mkst" where
  "put_inode i d s = s\<lparr>img := (img s)(isect i := put_dinode (64 * (i mod IPB)) d (img s (isect i)))\<rparr>"

definition isize :: "mkst \<Rightarrow> nat \<Rightarrow> nat" where
  "isize s i = unat (d_size (inode_of s i))"

definition ifile :: "mkst \<Rightarrow> nat \<Rightarrow> u8 list" where
  "ifile s i = content (img s) (inode_of s i) (isize s i)"

lemma isect_bounds: "i < NINODES \<Longrightarrow> 32 \<le> isect i \<and> isect i < 45"
  by (auto simp: isect_def nlog_def NINODES_def param_defs fs_consts)

lemma unat_inum: "i < NINODES \<Longrightarrow> unat (of_nat i :: u32) = i"
  by (simp add: unat_of_nat NINODES_def)

lemma inode_place:
  assumes "i < NINODES"
  shows "sector (IBLOCK (of_nat i) mk_superblock) = isect i" "dinode_off (of_nat i) = 64 * (i mod IPB)"
    and "unat (IBLOCK (of_nat i) mk_superblock) = isect i"
proof -
  have d: "unat (of_nat i div 16 :: u32) = i div 16"
    using unat_inum [OF assms] by (simp add: unat_div)
  have "unat (of_nat i div 16 + 32 :: u32) = i div 16 + 32"
    using assms d by (subst unat_add_lem [THEN iffD1]) (simp_all add: NINODES_def)
  then show u: "unat (IBLOCK (of_nat i) mk_superblock) = isect i"
    by (simp add: IBLOCK_def mk_superblock_def isect_def nlog_def param_defs IPB_def BSIZE_def)
  show "sector (IBLOCK (of_nat i) mk_superblock) = isect i"
    using sector_small [of "IBLOCK (of_nat i) mk_superblock"] isect_bounds [OF assms] u by (simp add: param_defs)
  show "dinode_off (of_nat i) = 64 * (i mod IPB)"
    using unat_inum [OF assms] by (simp add: dinode_off_def IPB_def BSIZE_def unat_mod)
qed

lemma run_rinode:
  "mk_sb s = mk_superblock \<Longrightarrow> img_sects s = FSSIZE \<Longrightarrow> i < NINODES \<Longrightarrow> rinode (of_nat i) s = Done (inode_of s i) s"
  using isect_bounds [of i] by (simp add: rinode_def run inode_place inode_of_def param_defs)

lemma run_winode:
  "mk_sb s = mk_superblock \<Longrightarrow> img_sects s = FSSIZE \<Longrightarrow> i < NINODES \<Longrightarrow> winode (of_nat i) d s = Done () (put_inode i d s)"
  using isect_bounds [of i] by (simp add: winode_def run run_wsect inode_place put_inode_def param_defs)

lemma put_inode_simps [simp]:
  "img_sects (put_inode i d s) = img_sects s" "mk_sb (put_inode i d s) = mk_sb s"
  "freeinode (put_inode i d s) = freeinode s" "freeblock (put_inode i d s) = freeblock s"
  by (simp_all add: put_inode_def)

lemma inode_of_put: "same_dinode (inode_of (put_inode i d s) i) d"
  by (simp add: inode_of_def put_inode_def dinode_at_put)

lemma inode_of_put_other:
  assumes "j \<noteq> i"
  shows "same_dinode (inode_of (put_inode i d s) j) (inode_of s j)"
proof (cases "isect j = isect i")
  case True
  then have "j div IPB = i div IPB" by (simp add: isect_def)
  then have "j mod IPB \<noteq> i mod IPB" using assms by (metis div_mult_mod_eq)
  then show ?thesis
    using True by (simp add: inode_of_def put_inode_def) (rule dinode_at_put_other, arith)
qed (simp add: inode_of_def put_inode_def)

lemma same_dinode_blk:
  assumes "same_dinode d e"
  shows "blk m d = blk m e" "ind d = ind e" "owns m d = owns m e" "content m d = content m e"
    and "file_wf m k d = file_wf m k e"
proof -
  show i: "ind d = ind e" using assms by (simp add: same_dinode_def ind_def)
  show b: "blk m d = blk m e" using assms i by (auto simp: same_dinode_def blk_def)
  show o: "owns m d = owns m e" by (rule ext) (simp add: owns_def b i)
  show "content m d = content m e" by (rule ext) (simp add: content_def b)
  show "file_wf m k d = file_wf m k e" by (rule ext) (simp add: file_wf_def b i o)
qed

lemma d_size_blk:
  "blk m (d\<lparr>d_size := z\<rparr>) = blk m d" "owns m (d\<lparr>d_size := z\<rparr>) = owns m d" "content m (d\<lparr>d_size := z\<rparr>) = content m d"
  "file_wf m k (d\<lparr>d_size := z\<rparr>) = file_wf m k d"
proof -
  have i: "ind (d\<lparr>d_size := z\<rparr>) = ind d" by (simp add: ind_def)
  show b: "blk m (d\<lparr>d_size := z\<rparr>) = blk m d" by (rule ext) (simp add: blk_def i)
  show o: "owns m (d\<lparr>d_size := z\<rparr>) = owns m d" by (rule ext) (simp add: owns_def b i)
  show "content m (d\<lparr>d_size := z\<rparr>) = content m d" by (rule ext) (simp add: content_def b)
  show "file_wf m k (d\<lparr>d_size := z\<rparr>) = file_wf m k d" by (rule ext) (simp add: file_wf_def b i o)
qed

section \<open>The invariant of an image under construction\<close>

text \<open>
  Every inode in use describes a file with blocks of its own; together they have taken exactly the blocks
  below \<^verbatim>\<open>freeblock\<close>.
\<close>

definition inodes :: "mkst \<Rightarrow> nat set" where
  "inodes s = {1..<fi s}"

definition iblocks :: "mkst \<Rightarrow> nat \<Rightarrow> nat set" where
  "iblocks s i = owns (img s) (inode_of s i) (nblk (isize s i))"

definition ineed :: "mkst \<Rightarrow> nat \<Rightarrow> nat" where
  "ineed s i = need (nblk (isize s i))"

definition image_ok :: "mkst \<Rightarrow> bool" where
  "image_ok s \<longleftrightarrow> fresh s \<and> mk_sb s = mk_superblock \<and> 1 \<le> fi s \<and> fi s \<le> NINODES \<and> fb s \<le> FSSIZE
     \<and> (\<forall>i\<in>inodes s. file_wf (img s) (fb s) (inode_of s i) (nblk (isize s i)))
     \<and> (\<forall>i\<in>inodes s. \<forall>j\<in>inodes s. i \<noteq> j \<longrightarrow> iblocks s i \<inter> iblocks s j = {})
     \<and> fb s = nmeta + sum (ineed s) (inodes s)"

lemma image_okD:
  assumes "image_ok s"
  shows "fresh s" "mk_sb s = mk_superblock" "img_sects s = FSSIZE" "fb s \<le> FSSIZE" "nmeta \<le> fb s"
    and "i \<in> inodes s \<Longrightarrow> i < NINODES" and "i \<in> inodes s \<Longrightarrow> file_wf (img s) (fb s) (inode_of s i) (nblk (isize s i))"
    and "i \<in> inodes s \<Longrightarrow> iblocks s i \<subseteq> {nmeta..<fb s}"
proof -
  show "fresh s" "mk_sb s = mk_superblock" "img_sects s = FSSIZE" "fb s \<le> FSSIZE" "nmeta \<le> fb s"
    using assms by (simp_all add: image_ok_def fresh_def)
  show "i < NINODES" if "i \<in> inodes s" using assms that by (simp add: image_ok_def inodes_def)
  show wf: "file_wf (img s) (fb s) (inode_of s i) (nblk (isize s i))" if "i \<in> inodes s"
    using assms that unfolding image_ok_def by blast
  show "iblocks s i \<subseteq> {nmeta..<fb s}" if "i \<in> inodes s"
    using wf [OF that] by (simp add: iblocks_def file_wf_def)
qed

lemma grown_frame:
  assumes "grown s d n t d' n'"
  shows "mk_sb t = mk_sb s" "freeinode t = freeinode s" "img_sects t = img_sects s" "fresh t"
    "d_type d' = d_type d" "d_nlink d' = d_nlink d"
proof -
  have e: "t = s\<lparr>img := img t, freeblock := freeblock t\<rparr>" "d' = d\<lparr>d_addrs := d_addrs d'\<rparr>"
    using assms by (simp_all only: grown_def)
  show "mk_sb t = mk_sb s" "freeinode t = freeinode s" "img_sects t = img_sects s"
    using arg_cong [OF e(1), of mk_sb] arg_cong [OF e(1), of freeinode] arg_cong [OF e(1), of img_sects] by simp_all
  show "d_type d' = d_type d" "d_nlink d' = d_nlink d"
    using arg_cong [OF e(2), of d_type] arg_cong [OF e(2), of d_nlink] by simp_all
  show "fresh t" using assms by (simp only: grown_def)
qed

lemma grown_le: "grown s d n t d' n' \<Longrightarrow> fb s \<le> fb t"
  using need_mono [of n n'] by (simp add: grown_def)

text \<open>What an inode says, apart from where its blocks are.\<close>

definition same_file :: "mkst \<Rightarrow> mkst \<Rightarrow> nat \<Rightarrow> bool" where
  "same_file s t i \<longleftrightarrow> ifile t i = ifile s i \<and> isize t i = isize s i
     \<and> d_type (inode_of t i) = d_type (inode_of s i) \<and> d_nlink (inode_of t i) = d_nlink (inode_of s i)"

lemma other_inode:
  fixes e :: dinode
  assumes s: "image_ok s" "j \<in> inodes s" "j \<noteq> i" "i < NINODES"
    and t: "\<And>b. b = isect j \<or> b \<in> iblocks s j \<Longrightarrow> img t b = img s b" "fb s \<le> fb t"
  defines "u \<equiv> put_inode i e t"
  shows "same_file s u j" and "iblocks u j = iblocks s j"
    and "file_wf (img u) (fb t) (inode_of u j) (nblk (isize u j))" and "ineed u j = ineed s j"
proof -
  note wf = image_okD(7) [OF s(1,2)] and bj = image_okD(8) [OF s(1,2)]
  have lt: "isect i < nmeta" using isect_bounds [OF s(4)] by (simp add: nmeta_eq)
  have "inode_of t j = inode_of s j" using t(1) by (simp add: inode_of_def)
  then have sd: "same_dinode (inode_of u j) (inode_of s j)"
    using inode_of_put_other [OF s(3), of e t] by (simp add: u_def)
  note b = same_dinode_blk [OF sd]
  have z: "isize u j = isize s j" using sd by (simp add: isize_def same_dinode_def)
  have m: "img u b = img s b" if "b \<in> iblocks s j" for b
    using that t(1) bj lt by (auto simp: u_def put_inode_def)
  note f = file_wf_frame [OF wf m [unfolded iblocks_def] t(2)]
  show "iblocks u j = iblocks s j" using f(3) by (simp add: iblocks_def z b)
  show "file_wf (img u) (fb t) (inode_of u j) (nblk (isize u j))" using f(1) by (simp add: z b)
  show "ineed u j = ineed s j" by (simp add: ineed_def z)
  show "same_file s u j"
    using f(4) sd by (simp add: same_file_def ifile_def z b) (simp add: same_dinode_def)
qed

lemma grown_other:
  assumes s: "image_ok s" "i \<in> inodes s" "j \<in> inodes s" "j \<noteq> i"
    and t: "grown s (inode_of s i) (nblk (isize s i)) t d n" and "b = isect j \<or> b \<in> iblocks s j"
  shows "img t b = img s b"
proof -
  have "isect j < nmeta" using isect_bounds [OF image_okD(6) [OF s(1,3)]] by (simp add: nmeta_eq)
  moreover have "iblocks s i \<inter> iblocks s j = {}" using s by (auto simp: image_ok_def)
  ultimately have "b < fb s" "b \<notin> iblocks s i"
    using assms(6) image_okD(8) [OF s(1,2)] image_okD(8) [OF s(1,3)] image_okD(5) [OF s(1)] by auto
  then show ?thesis using t by (simp add: grown_def iblocks_def)
qed

lemma image_update:
  assumes s: "image_ok s" "i \<in> inodes s"
    and t: "grown s (inode_of s i) (nblk (isize s i)) t d (nblk z)" and z: "z < 2 ^ 32" and room: "fb t \<le> FSSIZE"
  defines "u \<equiv> put_inode i (d\<lparr>d_size := of_nat z\<rparr>) t"
  shows "image_ok u" and "freeinode u = freeinode s" and "ifile u i = content (img t) d z" and "isize u i = z"
    and "d_type (inode_of u i) = d_type (inode_of s i)" and "d_nlink (inode_of u i) = d_nlink (inode_of s i)"
    and "\<And>j. j \<in> inodes s \<Longrightarrow> j \<noteq> i \<Longrightarrow> same_file s u j" and "img u 1 = img s 1"
proof -
  let ?d = "d\<lparr>d_size := of_nat z\<rparr>"
  have i: "i < NINODES" using image_okD(6) [OF s] .
  have lt: "32 \<le> isect i" "isect i < nmeta" using isect_bounds [OF i] by (auto simp: nmeta_eq)
  have sd: "same_dinode (inode_of u i) ?d" unfolding u_def by (rule inode_of_put)
  note b = same_dinode_blk [OF sd, unfolded d_size_blk]
  show sz: "isize u i = z" using sd z by (simp add: isize_def same_dinode_def unat_of_nat)
  note st = grown_frame [OF t]
  show "d_type (inode_of u i) = d_type (inode_of s i)" "d_nlink (inode_of u i) = d_nlink (inode_of s i)"
    using sd st by (simp_all add: same_dinode_def)
  show fu: "freeinode u = freeinode s" using st by (simp add: u_def)
  then have inu: "inodes u = inodes s" by (simp add: inodes_def)
  have wt: "file_wf (img t) (fb t) d (nblk z)" using t by (simp add: grown_def)
  have m: "img u k = img t k" if "k \<in> owns (img t) d (nblk z)" for k
    using that wt lt by (auto simp: u_def put_inode_def file_wf_def)
  note f = file_wf_frame [OF wt m le_refl]
  have ib: "iblocks u i = owns (img t) d (nblk z)" using f(3) by (simp add: iblocks_def sz b)
  show "ifile u i = content (img t) d z" using f(4) by (simp add: ifile_def sz b)
  have oth: "same_file s u j" "iblocks u j = iblocks s j" "file_wf (img u) (fb t) (inode_of u j) (nblk (isize u j))"
      "ineed u j = ineed s j" if "j \<in> inodes s" "j \<noteq> i" for j
    unfolding u_def using other_inode [OF s(1) that i grown_other [OF s that t] grown_le [OF t]] by simp_all
  show "\<And>j. j \<in> inodes s \<Longrightarrow> j \<noteq> i \<Longrightarrow> same_file s u j" using oth(1) by blast
  show "img u 1 = img s 1"
  proof -
    have "1 \<notin> iblocks s i" "1 < fb s" "1 \<noteq> isect i"
      using lt image_okD(8) [OF s] image_okD(5) [OF s(1)] by (auto simp: nmeta_eq)
    then show ?thesis using t by (simp add: u_def put_inode_def grown_def iblocks_def)
  qed
  have fbu: "fb u = fb t" by (simp add: u_def)
  have "fresh u"
    using st(4) lt by (auto simp: fresh_def u_def put_inode_def)
  moreover have "file_wf (img u) (fb u) (inode_of u j) (nblk (isize u j))" if "j \<in> inodes s" for j
    using oth(3) [OF that] f(1) by (cases "j = i") (simp_all add: fbu sz b)
  moreover have "iblocks u j \<inter> iblocks u k = {}" if "j \<in> inodes s" "k \<in> inodes s" "j \<noteq> k" for j k
  proof -
    have own: "iblocks u i \<subseteq> iblocks s i \<union> {fb s..<fb t}" using t ib by (simp add: grown_def iblocks_def)
    have "iblocks u i \<inter> iblocks s l = {}" if "l \<in> inodes s" "l \<noteq> i" for l
    proof -
      have "iblocks s i \<inter> iblocks s l = {}" using s that by (auto simp: image_ok_def)
      then show ?thesis using own image_okD(8) [OF s(1) that(1)] by fastforce
    qed
    moreover have "iblocks s j \<inter> iblocks s k = {}" using s(1) that by (auto simp: image_ok_def)
    ultimately show ?thesis using that oth(2) by (metis inf_commute)
  qed
  moreover have "fb u = nmeta + sum (ineed u) (inodes s)"
  proof -
    have fin: "finite (inodes s)" by (simp add: inodes_def)
    have "sum (ineed u) (inodes s - {i}) = sum (ineed s) (inodes s - {i})"
      using oth(4) by (intro sum.cong) auto
    moreover have "ineed u i = need (nblk z)" "ineed s i = need (nblk (isize s i))" by (simp_all add: ineed_def sz)
    moreover have "fb t + ineed s i = fb s + need (nblk z)" using t by (simp add: grown_def ineed_def)
    moreover have "fb s = nmeta + sum (ineed s) (inodes s)" using s(1) by (simp add: image_ok_def)
    ultimately show ?thesis
      using sum.remove [OF fin s(2), of "ineed u"] sum.remove [OF fin s(2), of "ineed s"] by (simp add: fbu)
  qed
  ultimately show "image_ok u"
    using s(1) room st fu by (simp add: image_ok_def inu fbu) (simp add: u_def)
qed

section \<open>The functions on images\<close>

text \<open>\<^verbatim>\<open>iappend()\<close> appends to one file, takes the blocks it needs and changes no other file.\<close>

lemma iappend_run:
  assumes "image_ok s" and "i \<in> inodes s" and "isize s i + length p \<le> MAXFILE * BSIZE"
    and "fb s + need (nblk (isize s i + length p)) \<le> FSSIZE + need (nblk (isize s i))"
  shows "\<exists>t. iappend (of_nat i) p s = Done () t \<and> image_ok t \<and> inodes t = inodes s \<and> img t 1 = img s 1
    \<and> fb t + need (nblk (isize s i)) = fb s + need (nblk (isize s i + length p))
    \<and> isize t i = isize s i + length p \<and> ifile t i = ifile s i @ p \<and> d_type (inode_of t i) = d_type (inode_of s i)
    \<and> (\<forall>j \<in> inodes s - {i}. same_file s t j)"
proof -
  let ?k = "isize s i" let ?z = "?k + length p"
  note ok = image_okD [OF assms(1)]
  have i: "i < NINODES" using ok(6) assms(2) .
  obtain d t where t: "loopM (Suc (length p)) iappend_turn (inode_of s i, of_nat ?k, p) s = Done (d, of_nat ?z) t"
      "grown s (inode_of s i) (nblk ?k) t d (nblk ?z)" "content (img t) d ?z = content (img s) (inode_of s i) ?k @ p"
    using iappend_loop_run [OF ok(1) ok(7) [OF assms(2)] assms(3) lessI assms(4)] by blast
  have z: "?z < 2 ^ 32" using assms(3) by (simp add: fs_consts)
  have room: "fb t \<le> FSSIZE" using t(2) assms(4) by (simp add: grown_def)
  note u = image_update [OF assms(1,2) t(2) z room]
  have "iappend (of_nat i) p s = Done () (put_inode i (d\<lparr>d_size := of_nat ?z\<rparr>) t)"
    using t(1) run_rinode [OF ok(2,3) i] run_winode [of t i] grown_frame [OF t(2)] ok(2,3) i
    by (simp add: iappend_def run isize_def)
  then show ?thesis
    using u t(2,3) by (auto simp: ifile_def inodes_def grown_def)
qed

text \<open>\<^verbatim>\<open>ialloc()\<close> adds an empty file.\<close>

lemma mk_ialloc_run:
  assumes "image_ok s" and "fi s < NINODES"
  shows "\<exists>t. mk_ialloc ty s = Done (of_nat (fi s)) t \<and> image_ok t \<and> fi t = Suc (fi s) \<and> fb t = fb s \<and> img t 1 = img s 1
    \<and> isize t (fi s) = 0 \<and> ifile t (fi s) = [] \<and> d_type (inode_of t (fi s)) = ty
    \<and> (\<forall>j \<in> inodes s. same_file s t j)"
proof -
  let ?i = "fi s"
  let ?d = "\<lparr>d_type = ty, d_major = 0, d_minor = 0, d_nlink = 1, d_size = 0, d_addrs = (\<lambda>_. 0)\<rparr>"
  let ?s = "s\<lparr>freeinode := freeinode s + 1\<rparr>"
  let ?t = "put_inode ?i ?d ?s"
  note ok = image_okD [OF assms(1)]
  have lt: "32 \<le> isect ?i" "isect ?i < nmeta" using isect_bounds [OF assms(2)] by (auto simp: nmeta_eq)
  have fi: "unat (freeinode s + 1) = Suc ?i"
    using assms(2) by (subst unat_add_lem [THEN iffD1]) (simp_all add: NINODES_def)
  have ins: "inodes ?t = insert ?i (inodes s)" using assms(1) by (auto simp: inodes_def fi image_ok_def)
  have ne: "j \<noteq> ?i" if "j \<in> inodes s" for j using that by (auto simp: inodes_def)
  have run: "mk_ialloc ty s = Done (of_nat ?i) ?t"
    using run_winode [of ?s ?i ?d] ok(2,3) assms(2) by (simp add: mk_ialloc_def run)
  note sd = inode_of_put [of ?i ?d ?s]
  have z: "isize ?t ?i = 0" "d_type (inode_of ?t ?i) = ty" using sd by (simp_all add: isize_def same_dinode_def)
  have n0: "nblk 0 = 0" by (simp add: nblk_def BSIZE_def)
  have wf: "file_wf m k (inode_of ?t ?i) 0" for m k
    unfolding same_dinode_blk(5) [OF sd] by (simp add: file_wf_def blk_def ind_def owns_def)
  have own: "iblocks ?t ?i = {}" by (simp add: iblocks_def z n0 owns_def)
  have oth: "same_file s ?t j" "iblocks ?t j = iblocks s j" "file_wf (img ?t) (fb s) (inode_of ?t j) (nblk (isize ?t j))"
      "ineed ?t j = ineed s j" if "j \<in> inodes s" for j
    using other_inode [OF assms(1) that ne [OF that] assms(2), of ?s ?d] by simp_all
  have "fresh ?t" using ok(1) lt by (auto simp: fresh_def put_inode_def)
  moreover have "sum (ineed ?t) (inodes ?t) = sum (ineed s) (inodes s)"
  proof -
    have "sum (ineed ?t) (inodes s) = sum (ineed s) (inodes s)" using oth(4) by (intro sum.cong) auto
    then show ?thesis using ne unfolding ins by (subst sum.insert) (auto simp: inodes_def ineed_def z n0 need_def)
  qed
  ultimately have "image_ok ?t"
    using assms ok(2) oth(2,3) ne wf own fi unfolding image_ok_def ins by (simp add: z n0)
  moreover have "img ?t 1 = img s 1" using lt by (simp add: put_inode_def)
  ultimately show ?thesis
    using run z oth(1) fi by (auto simp: ifile_def content_def)
qed

lemma inodes_fi:
  assumes "image_ok s" "image_ok t" "inodes t = inodes s"
  shows "fi t = fi s"
proof -
  have "card (inodes t) = fi t - 1" "card (inodes s) = fi s - 1" by (simp_all add: inodes_def)
  moreover have "1 \<le> fi s" "1 \<le> fi t" using assms(1,2) by (simp_all add: image_ok_def)
  ultimately show ?thesis using assms(3) by simp
qed

text \<open>Appending one piece after the other.\<close>

lemma same_file_trans: "same_file s t j \<Longrightarrow> same_file t u j \<Longrightarrow> same_file s u j"
  by (simp add: same_file_def)

lemma iappend_pieces:
  assumes "image_ok s" and "i \<in> inodes s" and "isize s i + length (concat ps) \<le> MAXFILE * BSIZE"
    and "fb s + need (nblk (isize s i + length (concat ps))) \<le> FSSIZE + need (nblk (isize s i))"
  shows "\<exists>t. for_all ps (iappend (of_nat i)) s = Done () t \<and> image_ok t \<and> inodes t = inodes s \<and> img t 1 = img s 1
    \<and> fb t + need (nblk (isize s i)) = fb s + need (nblk (isize s i + length (concat ps)))
    \<and> isize t i = isize s i + length (concat ps)
    \<and> ifile t i = ifile s i @ concat ps \<and> d_type (inode_of t i) = d_type (inode_of s i)
    \<and> (\<forall>j \<in> inodes s - {i}. same_file s t j)"
  using assms
proof (induction ps arbitrary: s)
  case Nil
  then show ?case by (auto simp: run same_file_def)
next
  case (Cons p ps)
  let ?k = "isize s i"
  have mono: "need (nblk (?k + length p)) \<le> need (nblk (?k + length (concat (p # ps))))"
    by (intro need_mono nblk_mono) simp
  obtain t where t: "iappend (of_nat i) p s = Done () t" "image_ok t" "inodes t = inodes s" "img t 1 = img s 1"
      "fb t + need (nblk ?k) = fb s + need (nblk (?k + length p))" "isize t i = ?k + length p"
      "ifile t i = ifile s i @ p" "d_type (inode_of t i) = d_type (inode_of s i)" "\<forall>j \<in> inodes s - {i}. same_file s t j"
    using iappend_run [OF Cons.prems(1,2), of p] Cons.prems(3,4) mono by fastforce
  have sum: "isize t i + length (concat ps) = ?k + length (concat (p # ps))" using t(6) by simp
  have room: "fb t + need (nblk (isize t i + length (concat ps))) \<le> FSSIZE + need (nblk (isize t i))"
    using Cons.prems(4) t(5) unfolding sum unfolding t(6) by linarith
  obtain u where u: "for_all ps (iappend (of_nat i)) t = Done () u" "image_ok u" "inodes u = inodes t" "img u 1 = img t 1"
      "fb u + need (nblk (isize t i)) = fb t + need (nblk (isize t i + length (concat ps)))"
      "isize u i = isize t i + length (concat ps)" "ifile u i = ifile t i @ concat ps"
      "d_type (inode_of u i) = d_type (inode_of t i)" "\<forall>j \<in> inodes t - {i}. same_file t u j"
    using Cons.IH [OF t(2) _ _ room] Cons.prems(2,3) unfolding sum t(3) by blast
  have "fb u + need (nblk ?k) = fb s + need (nblk (?k + length (concat (p # ps))))"
    using u(5) t(5) unfolding sum unfolding t(6) by linarith
  moreover have "\<forall>j \<in> inodes s - {i}. same_file s u j"
    using t(3,9) u(9) same_file_trans by blast
  ultimately show ?case
    using t u by (simp add: run)
qed

text \<open>One file of the command line, and all of them.\<close>

definition fdata :: "u8 list \<times> host_file \<Rightarrow> u8 list" where
  "fdata f = (case snd f of None \<Rightarrow> [] | Some chunks \<Rightarrow> concat (takeWhile (\<lambda>c. c \<noteq> []) chunks))"

definition fname :: "u8 list \<times> host_file \<Rightarrow> u8 list" where
  "fname f = skip_underscore (shortname (fst f))"

definition fgood :: "u8 list \<times> host_file \<Rightarrow> bool" where
  "fgood f \<longleftrightarrow> snd f \<noteq> None \<and> SLASH \<notin> set (shortname (fst f)) \<and> length (fdata f) \<le> MAXFILE * BSIZE"

lemma length_mk_dirent [simp]: "length (mk_dirent n nm) = 16"
  by (simp add: mk_dirent_def dirent_bytes_def DIRSIZ_def)

lemma mkfs_file_run:
  assumes "image_ok s" and "1 \<in> inodes s" and "fi s < NINODES" and "fgood f" and "isize s 1 + 16 \<le> MAXFILE * BSIZE"
    and "fb s + need (nblk (length (fdata f))) + need (nblk (isize s 1 + 16)) \<le> FSSIZE + need (nblk (isize s 1))"
  shows "\<exists>t. mkfs_file 1 f s = Done () t \<and> image_ok t \<and> fi t = Suc (fi s) \<and> img t 1 = img s 1
    \<and> fb t + need (nblk (isize s 1)) = fb s + need (nblk (length (fdata f))) + need (nblk (isize s 1 + 16))
    \<and> isize t 1 = isize s 1 + 16 \<and> ifile t 1 = ifile s 1 @ mk_dirent (of_nat (fi s)) (fname f)
    \<and> d_type (inode_of t 1) = d_type (inode_of s 1)
    \<and> ifile t (fi s) = fdata f \<and> d_type (inode_of t (fi s)) = T_FILE \<and> (\<forall>j \<in> inodes s - {1}. same_file s t j)"
proof -
  let ?i = "fi s" and ?de = "mk_dirent (of_nat (fi s)) (fname f)"
  obtain nm cs where f: "f = (nm, Some cs)" using assms(4) by (cases f) (auto simp: fgood_def)
  let ?ps = "takeWhile (\<lambda>c. c \<noteq> []) cs"
  have ps: "concat ?ps = fdata f" by (simp add: f fdata_def)
  obtain a where a: "mk_ialloc T_FILE s = Done (of_nat ?i) a" "image_ok a" "fi a = Suc ?i" "fb a = fb s" "img a 1 = img s 1"
      "isize a ?i = 0" "ifile a ?i = []" "d_type (inode_of a ?i) = T_FILE" "\<forall>j \<in> inodes s. same_file s a j"
    using mk_ialloc_run [OF assms(1,3)] by blast
  have ne: "?i \<noteq> 1" using assms(2) by (auto simp: inodes_def)
  have ia: "inodes a = insert ?i (inodes s)" using assms(2) by (auto simp: inodes_def a(3))
  have a1: "same_file s a 1" using a(9) assms(2) by blast
  then have z1: "isize a 1 = isize s 1" by (simp add: same_file_def)
  obtain b where b: "iappend (of_nat 1) ?de a = Done () b" "image_ok b" "inodes b = inodes a" "img b 1 = img a 1"
      "fb b + need (nblk (isize a 1)) = fb a + need (nblk (isize a 1 + length ?de))" "isize b 1 = isize a 1 + length ?de"
      "ifile b 1 = ifile a 1 @ ?de" "d_type (inode_of b 1) = d_type (inode_of a 1)" "\<forall>j \<in> inodes a - {1}. same_file a b j"
    using iappend_run [OF a(2), of 1 ?de] assms(2,5,6) ia a(4) z1 by auto
  have bi: "same_file a b ?i" using b(9) ne ia by blast
  have zi: "isize b ?i = 0" using bi a(6) by (simp add: same_file_def)
  have n0: "need (nblk 0) = 0" by (simp add: nblk_def BSIZE_def need_def)
  obtain c where c: "for_all ?ps (iappend (of_nat ?i)) b = Done () c" "image_ok c" "inodes c = inodes b" "img c 1 = img b 1"
      "fb c = fb b + need (nblk (length (fdata f)))" "ifile c ?i = ifile b ?i @ fdata f"
      "d_type (inode_of c ?i) = d_type (inode_of b ?i)" "\<forall>j \<in> inodes b - {?i}. same_file b c j"
    using iappend_pieces [OF b(2), of ?i ?ps] assms(4,6) ia a(4) b(3,5) z1 zi n0 by (auto simp: ps fgood_def)
  have "1 \<in> inodes b - {?i}" using b(3) ia assms(2) ne by simp
  then have c1: "same_file b c 1" using c(8) by blast
  have "mkfs_file 1 f s = Done () c"
    using a(1) b(1) c(1) assms(4) by (simp add: mkfs_file_def f run fname_def fgood_def)
  moreover have "fi c = Suc (fi s)"
    using inodes_fi [OF a(2) c(2)] b(3) c(3) a(3) by simp
  moreover have "\<forall>j \<in> inodes s - {1}. same_file s c j"
  proof
    fix j assume "j \<in> inodes s - {1}"
    then have "same_file s a j" "same_file a b j" "same_file b c j"
      using a(9) b(9) c(8) b(3) ia by (auto simp: inodes_def)
    then show "same_file s c j" by (meson same_file_trans)
  qed
  ultimately show ?thesis
    using a b c c1 a1 bi z1 zi by (auto simp: same_file_def)
qed

primrec dirents :: "nat \<Rightarrow> (u8 list \<times> host_file) list \<Rightarrow> u8 list" where
  "dirents n [] = []"
| "dirents n (f # fs) = mk_dirent (of_nat n) (fname f) @ dirents (Suc n) fs"

lemma length_dirents [simp]: "length (dirents n fs) = 16 * length fs"
  by (induction fs arbitrary: n) simp_all

definition fneed :: "(u8 list \<times> host_file) list \<Rightarrow> nat" where
  "fneed fs = sum_list (map (\<lambda>f. need (nblk (length (fdata f)))) fs)"

lemma mkfs_files_run:
  assumes "image_ok s" and "1 \<in> inodes s" and "fi s + length fs \<le> NINODES" and "\<forall>f \<in> set fs. fgood f"
    and "isize s 1 + 16 * length fs \<le> MAXFILE * BSIZE"
    and "fb s + fneed fs + need (nblk (isize s 1 + 16 * length fs)) \<le> FSSIZE + need (nblk (isize s 1))"
  shows "\<exists>t. for_all fs (mkfs_file 1) s = Done () t \<and> image_ok t \<and> fi t = fi s + length fs \<and> img t 1 = img s 1
    \<and> fb t + need (nblk (isize s 1)) = fb s + fneed fs + need (nblk (isize s 1 + 16 * length fs))
    \<and> isize t 1 = isize s 1 + 16 * length fs \<and> ifile t 1 = ifile s 1 @ dirents (fi s) fs
    \<and> d_type (inode_of t 1) = d_type (inode_of s 1)
    \<and> (\<forall>k < length fs. ifile t (fi s + k) = fdata (fs ! k) \<and> d_type (inode_of t (fi s + k)) = T_FILE)
    \<and> (\<forall>j \<in> inodes s - {1}. same_file s t j)"
  using assms
proof (induction fs arbitrary: s)
  case Nil
  then show ?case by (auto simp: run same_file_def fneed_def)
next
  case (Cons f fs)
  let ?k = "isize s 1" and ?n = "length fs"
  have mono: "need (nblk (?k + 16)) \<le> need (nblk (?k + 16 * length (f # fs)))"
    by (intro need_mono nblk_mono) simp
  have fn: "fneed (f # fs) = need (nblk (length (fdata f))) + fneed fs" by (simp add: fneed_def)
  have pre: "fi s < NINODES" "fgood f" "?k + 16 \<le> MAXFILE * BSIZE"
      "fb s + need (nblk (length (fdata f))) + need (nblk (?k + 16)) \<le> FSSIZE + need (nblk ?k)"
    using Cons.prems(3-6) mono unfolding fn by auto
  obtain t where t: "mkfs_file 1 f s = Done () t" "image_ok t" "fi t = Suc (fi s)" "img t 1 = img s 1"
      "fb t + need (nblk ?k) = fb s + need (nblk (length (fdata f))) + need (nblk (?k + 16))"
      "isize t 1 = ?k + 16" "ifile t 1 = ifile s 1 @ mk_dirent (of_nat (fi s)) (fname f)"
      "d_type (inode_of t 1) = d_type (inode_of s 1)"
      "ifile t (fi s) = fdata f" "d_type (inode_of t (fi s)) = T_FILE" "\<forall>j \<in> inodes s - {1}. same_file s t j"
    using mkfs_file_run [OF Cons.prems(1,2) pre] by blast
  have sum: "isize t 1 + 16 * ?n = ?k + 16 * length (f # fs)" using t(6) by simp
  have ins: "1 \<in> inodes t" "fi s \<in> inodes t - {1}" "\<And>j. j \<in> inodes s - {1} \<Longrightarrow> j \<in> inodes t - {1}"
    using Cons.prems(2) t(3) by (auto simp: inodes_def)
  have room: "fb t + fneed fs + need (nblk (isize t 1 + 16 * ?n)) \<le> FSSIZE + need (nblk (isize t 1))"
    using Cons.prems(6) t(5) unfolding sum fn unfolding t(6) by linarith
  obtain u where u: "for_all fs (mkfs_file 1) t = Done () u" "image_ok u" "fi u = fi t + ?n" "img u 1 = img t 1"
      "fb u + need (nblk (isize t 1)) = fb t + fneed fs + need (nblk (isize t 1 + 16 * ?n))"
      "isize u 1 = isize t 1 + 16 * ?n" "ifile u 1 = ifile t 1 @ dirents (fi t) fs"
      "d_type (inode_of u 1) = d_type (inode_of t 1)"
      "\<forall>k < ?n. ifile u (fi t + k) = fdata (fs ! k) \<and> d_type (inode_of u (fi t + k)) = T_FILE"
      "\<forall>j \<in> inodes t - {1}. same_file t u j"
    using Cons.IH [OF t(2) ins(1) _ _ _ room] Cons.prems(3-5) t(3) unfolding sum by auto
  have "fb u + need (nblk ?k) = fb s + fneed (f # fs) + need (nblk (?k + 16 * length (f # fs)))"
    using u(5) t(5) unfolding sum fn unfolding t(6) by linarith
  moreover have "ifile u (fi s + k) = fdata ((f # fs) ! k) \<and> d_type (inode_of u (fi s + k)) = T_FILE"
    if "k < length (f # fs)" for k
    using that u(9) t(3,9,10) u(10) ins(2) by (cases k) (auto simp: same_file_def)
  moreover have "\<forall>j \<in> inodes s - {1}. same_file s u j"
    using t(11) u(10) ins(3) same_file_trans by blast
  ultimately show ?case
    using t u by (simp add: run)
qed

end
