(* ===== verification/BuildImage.thy ===== *)
theory BuildImage
  imports Image
begin

text \<open>
  The program \<^verbatim>\<open>mkfs\<close> as a whole: the image it builds holds the files it was given under their
  names in the root directory, and its bitmap marks the blocks that are in use.
\<close>

section \<open>The whole program\<close>

lemma clear_image:
  "n \<le> FSSIZE \<Longrightarrow> img s = (\<lambda>_ _. 0) \<Longrightarrow>
     for_all [0..<n] (\<lambda>i. wsect (of_nat i) (\<lambda>_. 0)) s = Done () (s\<lparr>img_sects := max (img_sects s) n\<rparr>)"
proof (induction n)
  case (Suc n)
  have "unat (of_nat n :: u32) = n" using Suc.prems(1) by (simp add: unat_of_nat param_defs)
  then have "sector (of_nat n) = n" using Suc.prems(1) sector_small [of "of_nat n"] by simp
  moreover have "s\<lparr>img := (img s)(n := \<lambda>_. 0), img_sects := k\<rparr> = s\<lparr>img_sects := k\<rparr>" for k
    using Suc.prems(2) by (cases s) (simp add: fun_eq_iff)
  moreover have "max (max (img_sects s) n) (Suc n) = max (img_sects s) (Suc n)" by simp
  ultimately have "wsect (of_nat n) (\<lambda>_. 0) (s\<lparr>img_sects := max (img_sects s) n\<rparr>) = Done () (s\<lparr>img_sects := max (img_sects s) (Suc n)\<rparr>)"
    by (simp add: wsect_def run)
  then show ?case
    using Suc by (simp add: for_all_append run)
qed (simp add: run)

lemma superblock_at_put: "superblock_at (put_superblock x d) = x"
proof -
  have "get32 (put_superblock x d) (0 + 4 * i) = [sb_magic x, sb_size x, sb_nblocks x, sb_ninodes x, sb_nlog x,
      sb_logstart x, sb_inodestart x, sb_bmapstart x] ! i" if "i < 8" for i
    unfolding put_superblock_def put_addrs_array using that by (rule c32.rd_wr_array)
  from this [of 0] this [of 1] this [of 2] this [of 3] this [of 4] this [of 5] this [of 6] this [of 7]
  show ?thesis by (simp add: superblock_at_def)
qed

lemma bitmap_used: "bit_used (fold set_used [0..<n] (\<lambda>_. 0)) b \<longleftrightarrow> b < n"
  by (induction n) (auto simp: bit_used_set less_Suc_eq, simp add: bit_used_bit)

text \<open>The image is filled with zeros and gets its superblock and the inode of the root.\<close>

definition empty_image :: mkst where
  "empty_image = \<lparr>img = (\<lambda>_ _. 0)(1 := put_superblock mk_superblock (\<lambda>_. 0)), img_sects = FSSIZE,
     mk_sb = mk_superblock, freeinode = 1, freeblock = of_nat nmeta\<rparr>"

lemma empty_image_ok: "image_ok empty_image" "fi empty_image = 1" "fb empty_image = nmeta"
  by (auto simp: image_ok_def empty_image_def fresh_def inodes_def nmeta_eq NINODES_def param_defs)

text \<open>The file of inode \<open>i\<close> holds the bytes \<open>bs\<close>, in blocks of its own.\<close>

definition holds :: "mkst \<Rightarrow> nat \<Rightarrow> u8 list \<Rightarrow> bool" where
  "holds s i bs \<longleftrightarrow> file_wf (img s) (fb s) (inode_of s i) (nblk (length bs))
     \<and> content (img s) (inode_of s i) (length bs) = bs"

definition hblocks :: "mkst \<Rightarrow> nat \<Rightarrow> u8 list \<Rightarrow> nat set" where
  "hblocks s i bs = owns (img s) (inode_of s i) (nblk (length bs))"

lemma length_ifile [simp]: "length (ifile s i) = isize s i"
  by (simp add: ifile_def content_def)

lemma image_holds: "image_ok s \<Longrightarrow> i \<in> inodes s \<Longrightarrow> holds s i (ifile s i)"
  using image_okD(7) by (simp add: holds_def) (simp add: ifile_def)

lemma holds_frame:
  assumes "holds s i bs" and "\<And>b. nmeta \<le> b \<Longrightarrow> img u b = img s b" and "freeblock u = freeblock s"
    and "same_dinode (inode_of u i) ((inode_of s i)\<lparr>d_size := z\<rparr>)"
  shows "holds u i bs" and "hblocks u i bs = hblocks s i bs"
proof -
  note b = same_dinode_blk [OF assms(4), unfolded d_size_blk]
  have wf: "file_wf (img s) (fb s) (inode_of s i) (nblk (length bs))" using assms(1) by (simp add: holds_def)
  have m: "img u k = img s k" if "k \<in> owns (img s) (inode_of s i) (nblk (length bs))" for k
    using that wf assms(2) by (auto simp: file_wf_def)
  note f = file_wf_frame [OF wf m le_refl]
  show "holds u i bs" using assms(1,3) f(1,4) by (simp add: holds_def b)
  show "hblocks u i bs = hblocks s i bs" using f(3) by (simp add: hblocks_def b)
qed

text \<open>What the command line asks for.\<close>

definition mk_data :: "(u8 list \<times> host_file) list \<Rightarrow> nat \<Rightarrow> u8 list" where
  "mk_data fs i = (if i = 1 then mk_dirent 1 [46] @ mk_dirent 1 [46, 46] @ dirents 2 fs else fdata (fs ! (i - 2)))"

definition fits :: "(u8 list \<times> host_file) list \<Rightarrow> bool" where
  "fits fs \<longleftrightarrow> (\<forall>f \<in> set fs. fgood f) \<and> length fs + 2 \<le> NINODES
     \<and> nmeta + need (nblk (16 * (length fs + 2))) + fneed fs \<le> FSSIZE"

text \<open>The state before the size of the root is rounded up and the bitmap is written.\<close>

lemma mkfs_before_end:
  assumes "fits fs"
  shows "\<exists>a b c t. mk_ialloc T_DIR empty_image = Done 1 a \<and> iappend 1 (mk_dirent 1 [46]) a = Done () b
    \<and> iappend 1 (mk_dirent 1 [46, 46]) b = Done () c \<and> for_all fs (mkfs_file 1) c = Done () t
    \<and> image_ok t \<and> inodes t = {1..<length fs + 2} \<and> img t 1 = img empty_image 1 \<and> d_type (inode_of t 1) = T_DIR
    \<and> (\<forall>i \<in> inodes t. ifile t i = mk_data fs i) \<and> (\<forall>i \<in> inodes t - {1}. d_type (inode_of t i) = T_FILE)"
proof -
  let ?e = empty_image and ?n = "length fs"
  have fit: "?n + 2 \<le> NINODES" "nmeta + need (nblk (16 * (?n + 2))) + fneed fs \<le> FSSIZE" "\<forall>f \<in> set fs. fgood f"
    using assms by (simp_all add: fits_def)
  have n0: "need (nblk 0) = 0" by (simp add: nblk_def BSIZE_def need_def)
  have mono: "need (nblk 16) \<le> need (nblk (16 * (?n + 2)))" "need (nblk 32) \<le> need (nblk (16 * (?n + 2)))"
    by (intro need_mono nblk_mono; simp)+
  have max: "16 * (?n + 2) \<le> MAXFILE * BSIZE" using fit(1) by (simp add: NINODES_def fs_consts)
  obtain a where a: "mk_ialloc T_DIR ?e = Done 1 a" "image_ok a" "fi a = 2" "fb a = nmeta" "img a 1 = img ?e 1"
      "isize a 1 = 0" "ifile a 1 = []" "d_type (inode_of a 1) = T_DIR"
    using mk_ialloc_run [OF empty_image_ok(1), of T_DIR] fit(1) by (auto simp: empty_image_ok(2,3))
  have ia: "inodes a = {1}" by (auto simp: inodes_def a(3))
  obtain b where b: "iappend 1 (mk_dirent 1 [46]) a = Done () b" "image_ok b" "inodes b = {1}" "img b 1 = img ?e 1"
      "fb b = nmeta + need (nblk 16)" "isize b 1 = 16" "ifile b 1 = mk_dirent 1 [46]" "d_type (inode_of b 1) = T_DIR"
    using iappend_run [OF a(2), of 1 "mk_dirent 1 [46]"] fit(2) mono max a(4-8) ia n0 by auto
  obtain c where c: "iappend 1 (mk_dirent 1 [46, 46]) b = Done () c" "image_ok c" "inodes c = {1}" "img c 1 = img ?e 1"
      "fb c = nmeta + need (nblk 32)" "isize c 1 = 32" "ifile c 1 = mk_dirent 1 [46] @ mk_dirent 1 [46, 46]"
      "d_type (inode_of c 1) = T_DIR"
    using iappend_run [OF b(2), of 1 "mk_dirent 1 [46, 46]"] fit(2) mono max b(3-8) by auto
  have fc: "fi c = 2" using inodes_fi [OF a(2) c(2)] a(3) c(3) ia by simp
  have sum: "32 + 16 * ?n = 16 * (?n + 2)" by simp
  have pre: "1 \<in> inodes c" "fi c + ?n \<le> NINODES" "isize c 1 + 16 * ?n \<le> MAXFILE * BSIZE"
      "fb c + fneed fs + need (nblk (isize c 1 + 16 * ?n)) \<le> FSSIZE + need (nblk (isize c 1))"
    unfolding c(3,5,6) fc sum using fit(1,2) max by simp_all
  obtain t where t: "for_all fs (mkfs_file 1) c = Done () t" "image_ok t" "fi t = 2 + ?n" "img t 1 = img c 1"
      "ifile t 1 = ifile c 1 @ dirents 2 fs" "d_type (inode_of t 1) = d_type (inode_of c 1)"
      "\<forall>k < ?n. ifile t (2 + k) = fdata (fs ! k) \<and> d_type (inode_of t (2 + k)) = T_FILE"
    using mkfs_files_run [OF c(2) pre(1,2) fit(3) pre(3,4), unfolded fc] by blast
  have it: "inodes t = {1..<?n + 2}" by (auto simp: inodes_def t(3))
  have "ifile t i = mk_data fs i \<and> (i \<noteq> 1 \<longrightarrow> d_type (inode_of t i) = T_FILE)" if "i \<in> inodes t" for i
  proof (cases "i = 1")
    case True
    then show ?thesis using t(5) c(7) by (simp add: mk_data_def)
  next
    case False
    then have "i = 2 + (i - 2)" "i - 2 < ?n" using that unfolding it by auto
    then obtain k where "i = 2 + k" "k < ?n" by blast
    then show ?thesis using t(7) by (simp add: mk_data_def)
  qed
  then show ?thesis
    using a b c t it by auto
qed

text \<open>The end of the program: the size of the root is rounded up, and the bitmap is written.\<close>

definition mkfs_end :: "mkst \<Rightarrow> mkst" where
  "mkfs_end s = (let t = put_inode 1 ((inode_of s 1)\<lparr>d_size := of_nat ((isize s 1 div BSIZE + 1) * BSIZE)\<rparr>) s
     in t\<lparr>img := (img t)(45 := fold set_used [0..<fb s] (\<lambda>_. 0))\<rparr>)"

lemma bmapstart_eq: "unat (sb_bmapstart mk_superblock) = 45" "sb_bmapstart mk_superblock = 45"
  by (simp_all add: mk_superblock_def nlog_def ninodeblocks_def NINODES_def param_defs fs_consts)

lemma mk_balloc_run:
  "n \<le> FSSIZE \<Longrightarrow> mk_sb s = mk_superblock \<Longrightarrow> img_sects s = FSSIZE
     \<Longrightarrow> mk_balloc (int n) s = Done () (s\<lparr>img := (img s)(45 := fold set_used [0..<n] (\<lambda>_. 0))\<rparr>)"
  by (simp add: mk_balloc_def run bmapstart_eq run_wsect param_defs BSIZE_def)

lemma mkfs_run:
  assumes "mk_ialloc T_DIR empty_image = Done 1 a" and "iappend 1 (mk_dirent 1 [46]) a = Done () b"
    and "iappend 1 (mk_dirent 1 [46, 46]) b = Done () c" and "for_all fs (mkfs_file 1) c = Done () t" and "image_ok t"
  shows "mkfs ((nm, Some h) # fs) mkfs_start = Done () (mkfs_end t)"
proof -
  let ?s = "mkfs_start\<lparr>mk_sb := mk_superblock, freeblock := of_nat nmeta\<rparr>"
  have clear: "for_all [0..<FSSIZE] (\<lambda>i. wsect (of_nat i) (\<lambda>_. 0)) ?s = Done () (?s\<lparr>img_sects := FSSIZE\<rparr>)"
    using clear_image [of FSSIZE ?s] by (simp add: mkfs_start_def)
  have sb: "wsect 1 (put_superblock mk_superblock (\<lambda>_. 0)) (?s\<lparr>img_sects := FSSIZE\<rparr>) = Done () empty_image"
    by (subst run_wsect) (simp_all add: param_defs mkfs_start_def empty_image_def)
  note ok = image_okD [OF assms(5)]
  have one: "1 < NINODES" by (simp add: NINODES_def)
  have r: "rinode 1 t = Done (inode_of t 1) t" using run_rinode [OF ok(2,3) one] by simp
  have w: "winode 1 d t = Done () (put_inode 1 d t)" for d using run_winode [OF ok(2,3) one] by simp
  have off: "(d_size (inode_of t 1) div of_nat BSIZE + 1) * of_nat BSIZE = (of_nat ((isize t 1 div BSIZE + 1) * BSIZE) :: u32)"
  proof -
    have "d_size (inode_of t 1) div of_nat BSIZE = of_nat (isize t 1 div BSIZE)"
      using unat_u32_bound [of "d_size (inode_of t 1)"]
      by (simp add: word_unat_eq_iff isize_def BSIZE_def unat_div unat_of_nat)
    then show ?thesis by (simp only: of_nat_mult of_nat_add of_nat_1)
  qed
  have f: "sint (freeblock t) = int (fb t)"
  proof -
    have "sint (of_nat n :: u32) = int n" if "n \<le> FSSIZE" for n
      using that by (simp add: signed_of_nat signed_take_bit_int_eq_self param_defs)
    from this [OF ok(4)] show ?thesis by simp
  qed
  have "mk_balloc (int (fb t)) (put_inode 1 d t) = Done () ((put_inode 1 d t)\<lparr>img := (img (put_inode 1 d t))(45 := fold set_used [0..<fb t] (\<lambda>_. 0))\<rparr>)" for d
    using ok(2-4) by (intro mk_balloc_run) simp_all
  moreover have "BSIZE mod 64 = 0" "BSIZE mod 16 = 0" by (simp_all add: BSIZE_def)
  ultimately show ?thesis
    using clear sb assms(1-4) r w f
    by (simp add: mkfs_def run ROOTINO_def mkfs_end_def Let_def off [unfolded One_nat_def])
qed

lemma mkfs_end_simps:
  assumes "image_ok s" and "1 \<in> inodes s"
  shows "img (mkfs_end s) 45 = fold set_used [0..<fb s] (\<lambda>_. 0)" and "freeblock (mkfs_end s) = freeblock s"
    and "img (mkfs_end s) 1 = img s 1" and "\<And>b. nmeta \<le> b \<Longrightarrow> img (mkfs_end s) b = img s b"
    and "same_dinode (inode_of (mkfs_end s) 1) ((inode_of s 1)\<lparr>d_size := of_nat ((isize s 1 div BSIZE + 1) * BSIZE)\<rparr>)"
    and "\<And>i. i \<in> inodes s - {1} \<Longrightarrow> same_dinode (inode_of (mkfs_end s) i) (inode_of s i)"
proof -
  let ?t = "put_inode 1 ((inode_of s 1)\<lparr>d_size := of_nat ((isize s 1 div BSIZE + 1) * BSIZE)\<rparr>) s"
  have e: "mkfs_end s = ?t\<lparr>img := (img ?t)(45 := fold set_used [0..<fb s] (\<lambda>_. 0))\<rparr>"
    by (simp add: mkfs_end_def Let_def)
  have i1: "32 \<le> isect 1" "isect 1 < 45" using isect_bounds [of 1] by (simp_all add: NINODES_def)
  have io: "inode_of (mkfs_end s) i = inode_of ?t i" if "i \<in> inodes s" for i
    using isect_bounds [OF image_okD(6) [OF assms(1) that]] by (simp add: e inode_of_def)
  show "img (mkfs_end s) 45 = fold set_used [0..<fb s] (\<lambda>_. 0)" "freeblock (mkfs_end s) = freeblock s"
    by (simp_all add: e)
  show "img (mkfs_end s) 1 = img s 1" using i1 by (simp add: e put_inode_def)
  show "img (mkfs_end s) b = img s b" if "nmeta \<le> b" for b using that i1 by (simp add: e put_inode_def nmeta_eq)
  show "same_dinode (inode_of (mkfs_end s) 1) ((inode_of s 1)\<lparr>d_size := of_nat ((isize s 1 div BSIZE + 1) * BSIZE)\<rparr>)"
    unfolding io [OF assms(2)] by (rule inode_of_put)
  show "same_dinode (inode_of (mkfs_end s) i) (inode_of s i)" if "i \<in> inodes s - {1}" for i
    using that io inode_of_put_other [of i 1] by simp
qed

lemma mkfs_end_holds:
  assumes "image_ok s" and "1 \<in> inodes s" and "i \<in> inodes s"
  shows "holds (mkfs_end s) i (ifile s i)" and "hblocks (mkfs_end s) i (ifile s i) = iblocks s i"
proof -
  note e = mkfs_end_simps [OF assms(1,2)]
  have "\<exists>z. same_dinode (inode_of (mkfs_end s) i) ((inode_of s i)\<lparr>d_size := z\<rparr>)"
    using e(5) e(6) [of i] assms(3) by (cases "i = 1") (auto intro: exI [of _ "d_size (inode_of s i)"])
  then obtain z where z: "same_dinode (inode_of (mkfs_end s) i) ((inode_of s i)\<lparr>d_size := z\<rparr>)" by blast
  show "holds (mkfs_end s) i (ifile s i)" "hblocks (mkfs_end s) i (ifile s i) = iblocks s i"
    using holds_frame [OF image_holds [OF assms(1,3)] e(4) e(2) z] by (simp_all add: hblocks_def iblocks_def)
qed

lemma mkfs_end_size:
  assumes "image_ok s" and "1 \<in> inodes s" and "isize s 1 \<le> 3200"
  shows "isize (mkfs_end s) 1 = (isize s 1 div BSIZE + 1) * BSIZE"
proof -
  have "isize s 1 div BSIZE \<le> 3200 div BSIZE" using assms(3) by (rule div_le_mono)
  then have "(isize s 1 div BSIZE + 1) * BSIZE < 2 ^ 32" by (simp add: BSIZE_def)
  moreover have "d_size x = v" if "same_dinode x (y\<lparr>d_size := v\<rparr>)" for x y :: dinode and v
    using that by (simp add: same_dinode_def)
  note this [OF mkfs_end_simps(5) [OF assms(1,2)]]
  ultimately show ?thesis unfolding isize_def [of "mkfs_end s"] by (simp only: unat_of_nat_u32)
qed

text \<open>What the image holds.\<close>

lemma mkfs_image:
  assumes "fits fs"
  obtains t where "mkfs ((nm, Some h) # fs) mkfs_start = Done () t" and "superblock_at (img t 1) = mk_superblock"
    and "\<And>i. i \<in> {1..<length fs + 2} \<Longrightarrow> holds t i (mk_data fs i)"
    and "\<And>i. i \<in> {1..<length fs + 2} \<Longrightarrow> d_type (inode_of t i) = (if i = 1 then T_DIR else T_FILE)
      \<and> isize t i = (if i = 1 then (16 * (length fs + 2) div BSIZE + 1) * BSIZE else length (mk_data fs i))"
    and "\<And>i j. i \<in> {1..<length fs + 2} \<Longrightarrow> j \<in> {1..<length fs + 2} \<Longrightarrow> i \<noteq> j
      \<Longrightarrow> hblocks t i (mk_data fs i) \<inter> hblocks t j (mk_data fs j) = {}"
    and "\<And>b. bit_used (img t (unat (sb_bmapstart mk_superblock))) b \<longleftrightarrow> b < fb t"
    and "fb t = nmeta + (\<Sum>i \<in> {1..<length fs + 2}. need (nblk (length (mk_data fs i))))"
proof -
  obtain a b c s where s: "mk_ialloc T_DIR empty_image = Done 1 a" "iappend 1 (mk_dirent 1 [46]) a = Done () b"
      "iappend 1 (mk_dirent 1 [46, 46]) b = Done () c" "for_all fs (mkfs_file 1) c = Done () s" "image_ok s"
      "inodes s = {1..<length fs + 2}" "img s 1 = img empty_image 1" "d_type (inode_of s 1) = T_DIR"
      "\<forall>i \<in> inodes s. ifile s i = mk_data fs i" "\<forall>i \<in> inodes s - {1}. d_type (inode_of s i) = T_FILE"
    using mkfs_before_end [OF assms] by blast
  let ?t = "mkfs_end s"
  have one: "1 \<in> inodes s" using s(6) by simp
  note e = mkfs_end_simps [OF s(5) one]
  have sz: "isize s i = length (mk_data fs i)" if "i \<in> inodes s" for i using s(9) that length_ifile by metis
  have h: "holds ?t i (mk_data fs i)" "hblocks ?t i (mk_data fs i) = iblocks s i" if "i \<in> inodes s" for i
    using mkfs_end_holds [OF s(5) one that] s(9) that by simp_all
  have "length fs + 2 \<le> 200" using assms by (simp add: fits_def NINODES_def)
  then have one_size: "isize ?t 1 = (16 * (length fs + 2) div BSIZE + 1) * BSIZE"
    using mkfs_end_size [OF s(5) one] sz [OF one] by (simp add: mk_data_def)
  have ty: "d_type (inode_of ?t i) = (if i = 1 then T_DIR else T_FILE)
      \<and> isize ?t i = (if i = 1 then (16 * (length fs + 2) div BSIZE + 1) * BSIZE else length (mk_data fs i))"
    if "i \<in> inodes s" for i
    using that e(5) e(6) [of i] s(8,10) one_size sz [OF that] by (cases "i = 1") (auto simp: same_dinode_def isize_def)
  have disj: "iblocks s i \<inter> iblocks s j = {}" if "i \<in> inodes s" "j \<in> inodes s" "i \<noteq> j" for i j
    using s(5) that unfolding image_ok_def by blast
  have "fb s = nmeta + sum (ineed s) (inodes s)" using s(5) unfolding image_ok_def by blast
  also have "sum (ineed s) (inodes s) = (\<Sum>i \<in> inodes s. need (nblk (length (mk_data fs i))))"
    by (intro sum.cong) (simp_all add: ineed_def sz)
  finally have f: "fb ?t = nmeta + (\<Sum>i \<in> inodes s. need (nblk (length (mk_data fs i))))" by (simp add: e(2))
  have sb: "superblock_at (img ?t 1) = mk_superblock"
    unfolding e(3) s(7) by (simp add: empty_image_def superblock_at_put)
  show thesis
    by (rule that [of ?t, unfolded s(6) [symmetric] bmapstart_eq])
      (use mkfs_run [OF s(1-5), of nm h] sb h ty disj f e(1,2) in \<open>simp_all add: bitmap_used\<close>)
qed

text \<open>
  C13: \<^verbatim>\<open>mkfs\<close> builds the image it is asked for.  If the files on the command line can be opened, have
  no slash in their names, and fit the inodes and the blocks of the disk, the program ends without an error.
  The superblock describes the layout.  Every file has an inode of its own, in the order of the command
  line from 2 on, with the file's bytes; inode 1 is a directory that holds \<open>.\<close>, \<open>..\<close> and an entry for
  each file, its size rounded up to a whole block.  No two files share a block, all blocks are behind the
  metadata, and the bitmap marks as used exactly the metadata and the blocks given to files.
\<close>

theorem mkfs_builds:
  assumes "fits fs"
  shows "\<exists>t. mkfs ((nm, Some h) # fs) mkfs_start = Done () t \<and> superblock_at (img t 1) = mk_superblock
    \<and> (\<forall>i \<in> {1..<length fs + 2}. holds t i (mk_data fs i)
        \<and> d_type (inode_of t i) = (if i = 1 then T_DIR else T_FILE)
        \<and> isize t i = (if i = 1 then (16 * (length fs + 2) div BSIZE + 1) * BSIZE else length (mk_data fs i)))
    \<and> (\<forall>i \<in> {1..<length fs + 2}. \<forall>j \<in> {1..<length fs + 2}. i \<noteq> j
        \<longrightarrow> hblocks t i (mk_data fs i) \<inter> hblocks t j (mk_data fs j) = {})
    \<and> (\<forall>b. bit_used (img t (unat (sb_bmapstart mk_superblock))) b \<longleftrightarrow> b < fb t)
    \<and> fb t = nmeta + (\<Sum>i \<in> {1..<length fs + 2}. need (nblk (length (mk_data fs i))))"
  by (rule mkfs_image [OF assms, of nm h], rule exI, intro conjI ballI impI) blast+

text \<open>One file of three bytes, \<^verbatim>\<open>_c\<close> on the command line.\<close>

definition one_file :: "(u8 list \<times> host_file) list" where
  "one_file = [([95, 99], Some [[1, 2], [3]])]"

lemma one_file_fits: "fits one_file" "length one_file + 2 = 3" "mk_data one_file 2 = [1, 2, 3]"
  "mk_data one_file 1 = mk_dirent 1 [46] @ mk_dirent 1 [46, 46] @ mk_dirent 2 [99]"
  by (simp_all add: one_file_def fits_def fgood_def fdata_def shortname_def SLASH_def fneed_def need_def nblk_def
      nmeta_eq NINODES_def param_defs fs_consts mk_data_def fname_def skip_underscore_def)

theorem mkfs_builds_witness:
  "\<exists>t. mkfs (([102], Some []) # one_file) mkfs_start = Done () t \<and> superblock_at (img t 1) = mk_superblock
    \<and> holds t 1 (mk_dirent 1 [46] @ mk_dirent 1 [46, 46] @ mk_dirent 2 [99]) \<and> holds t 2 [1, 2, 3] \<and> isize t 2 = 3
    \<and> isize t 1 = 1024 \<and> (\<forall>b. bit_used (img t 45) b \<longleftrightarrow> b < 48)"
proof -
  obtain t where t: "mkfs (([102], Some []) # one_file) mkfs_start = Done () t" "superblock_at (img t 1) = mk_superblock"
      "\<forall>i \<in> {1..<3}. holds t i (mk_data one_file i)
        \<and> d_type (inode_of t i) = (if i = 1 then T_DIR else T_FILE)
        \<and> isize t i = (if i = 1 then (16 * 3 div BSIZE + 1) * BSIZE else length (mk_data one_file i))"
      "\<forall>i \<in> {1..<3}. \<forall>j \<in> {1..<3}. i \<noteq> j
        \<longrightarrow> hblocks t i (mk_data one_file i) \<inter> hblocks t j (mk_data one_file j) = {}"
      "\<forall>b. bit_used (img t 45) b \<longleftrightarrow> b < fb t"
      "fb t = nmeta + (\<Sum>i \<in> {1..<3}. need (nblk (length (mk_data one_file i))))"
    using mkfs_builds [OF one_file_fits(1), of "[102]" "[]", unfolded one_file_fits(2) bmapstart_eq(1)] by blast
  have "{1..<3} = {1, 2 :: nat}" by auto
  then have "fb t = 48"
    using t(6) by (simp add: one_file_fits(3,4) [unfolded One_nat_def] nmeta_eq need_def nblk_def NDIRECT_def BSIZE_def)
  then show ?thesis
    using t(1,2,5) bspec [OF t(3), of 1] bspec [OF t(3), of 2] by (auto simp: one_file_fits(3,4) [unfolded One_nat_def] BSIZE_def)
qed

end
