(* ===== verification/Spec2Isabelle.thy ===== *)
theory Spec2Isabelle
  imports Trap Start InodeWrite Grep ShellPrint ShellRun Descriptor Fair LostWakeup BuildImage
begin

text \<open>
  A verification development for xv6 on RISC-V: the kernel under \<^verbatim>\<open>src/kernel\<close> and, of the
  user programs under \<^verbatim>\<open>src/user\<close>, the C library, the shell and \<^verbatim>\<open>grep\<close>; and
  \<^verbatim>\<open>src/mkfs/mkfs.c\<close>, which builds the first image of a disk.

  \<^bold>\<open>The program.\<close>
  Each hart starts in \<^verbatim>\<open>start()\<close> in machine mode and enters \<^verbatim>\<open>main()\<close> in supervisor
  mode.  Spinlocks disable interrupts on the hart that holds one.  The page allocator hands out the
  pages from which page tables, kernel stacks, trap frames and pipes are made.  Processes sleep on
  channels and are woken through the process table; sleep locks, pipes, the console, the log and the
  disk driver wait in this way.  The buffer cache sits between the disk driver and everything that
  reads blocks; the log makes the block writes of a file system call atomic; inodes, directories and
  path names are built on logged blocks; open files join inodes, pipes and the console; the system
  calls work on open files, processes and user memory, and are entered from the trap handler.

  \<^bold>\<open>How the code is modelled.\<close>
  A C function that can panic, wait or spin is a term of the type \<open>('s, 'a) kop\<close> of Prelude: a
  function from the state to an outcome, which is \<open>Done\<close> with a result, \<open>Panic\<close> with the message
  of \<^verbatim>\<open>panic()\<close>, \<open>Blocked\<close> when the hart has switched away in \<^verbatim>\<open>swtch()\<close>, or \<open>Spin\<close>
  when it waits forever for a spinlock or a loop has run out of its bound.  A function that switches
  away in the middle has a second definition, named with \<open>_resume\<close>, for what it does when it runs
  again.  A pointer into a table of structures is an index; a null pointer is \<open>None\<close>, or 0 for a
  physical address, and using it is a panic of the model.  Physical memory is a function from 64-bit
  addresses to bytes, total: that an access outside what \<^verbatim>\<open>kvminit()\<close> maps faults on the
  machine is not modelled.  Machine integers keep their width.

  The globals of the components are layers of one extensible record, so that an operation of a lower
  layer runs unchanged in the state of a higher one: \<open>hw\<close> (Machine: harts, control registers, locks),
  \<open>kmem\<close> (Kalloc: memory, free list), \<open>vmst\<close> (Vm: kernel page table), \<open>pst\<close> (Sched: process
  table, ticks), \<open>slst\<close> (Sleeplock), \<open>bio\<close> (Bio: buffers, disk), \<open>lgst\<close> (Log), \<open>fsst\<close> (Fs:
  superblock, inode cache), \<open>cnst\<close> (Console: UART, input buffer), \<open>flst\<close> (File: file table, pipes,
  device switch), \<open>krst\<close> (Proc: addresses of code), \<open>vdst\<close> (Virtio: the rings of the disks) and
  \<open>tpst\<close> (Trap: the interrupt controller).  Machine mode has a record of its own in Start.

  \<^bold>\<open>Which theory models which file.\<close>
  \<^item> Prelude: the outcome monad, its execution equations (\<open>run\<close>), weakest preconditions, loops.
  \<^item> Machine: \<^verbatim>\<open>param.h\<close>, \<^verbatim>\<open>memlayout.h\<close>, \<^verbatim>\<open>riscv.h\<close>, the records of
    \<^verbatim>\<open>proc.h\<close> and \<^verbatim>\<open>spinlock.h\<close> that belong to a hart.
  \<^item> Spinlock: \<^verbatim>\<open>spinlock.c\<close>.  CString: \<^verbatim>\<open>string.c\<close>.  Kalloc: \<^verbatim>\<open>kalloc.c\<close>.
  \<^item> Vm: \<^verbatim>\<open>vm.c\<close>; PageTable: what its page tables mean; UserMem: what its copying functions do.
  \<^item> Sched and Proc: \<^verbatim>\<open>proc.c\<close>; Fair: whole passes of its scheduler; LostWakeup:
    \<^verbatim>\<open>sleep()\<close> and \<^verbatim>\<open>wakeup()\<close> on two harts.  Sleeplock:
    \<^verbatim>\<open>sleeplock.c\<close>; Wait: the rules for code that waits in a loop.
  \<^item> Bio: \<^verbatim>\<open>bio.c\<close>; Bcache: the specification of the buffer cache and its refinement; Exec:
    symbolic execution over that specification.
  \<^item> Log: \<^verbatim>\<open>log.c\<close>; Commit, Recovery and Transaction: commit, recovery and the atomicity of a
    transaction; Txn: the rules for code inside a transaction.
  \<^item> Fs and Dir: \<^verbatim>\<open>fs.c\<close>, \<^verbatim>\<open>fs.h\<close>, \<^verbatim>\<open>stat.h\<close>; Layout: the structures in the bytes of
    a block; Alloc: the block allocator; Inode and InodeWrite: the bytes of a file.
  \<^item> Mkfs: \<^verbatim>\<open>mkfs/mkfs.c\<close>; Image: what an image means; BuildImage: the image the program builds.
  \<^item> Console: \<^verbatim>\<open>console.c\<close>, \<^verbatim>\<open>uart.c\<close>, \<^verbatim>\<open>printf.c\<close>; Digits: numbers in print, shared
    with ULib.
  \<^item> File: \<^verbatim>\<open>file.c\<close>, \<^verbatim>\<open>pipe.c\<close>; Ring and Pipe: ring buffers, and pipes as queues.
  \<^item> ElfExec: \<^verbatim>\<open>exec.c\<close>, \<^verbatim>\<open>elf.h\<close>.  Syscall: \<^verbatim>\<open>syscall.c\<close>, \<^verbatim>\<open>sysproc.c\<close>.
    SysFile: \<^verbatim>\<open>sysfile.c\<close> and the dispatch table; Descriptor: calls from \<^verbatim>\<open>syscall()\<close>
    down to the file they work on.
  \<^item> Virtio: \<^verbatim>\<open>virtio_disk.c\<close>.  Trap: \<^verbatim>\<open>trap.c\<close>, \<^verbatim>\<open>plic.c\<close>, \<^verbatim>\<open>main.c\<close>.
    Start: \<^verbatim>\<open>start.c\<close> and \<^verbatim>\<open>timervec\<close> of \<^verbatim>\<open>kernelvec.S\<close>.
  \<^item> ULib: \<^verbatim>\<open>user/ulib.c\<close>, \<^verbatim>\<open>user/printf.c\<close>.  Grep: \<^verbatim>\<open>user/grep.c\<close>.  Shell,
    ShellPrint and ShellRun: \<^verbatim>\<open>user/sh.c\<close>.

  \<^bold>\<open>What is shown.\<close>
  \<^item> Spinlock: at most one hart is in a critical section, in every interleaving; sections nest,
    and a hart can neither take nor release the lock of another.
  \<^item> Kalloc: the allocator implements the list of free pages (\<open>page_allocator\<close>).
  \<^item> PageTable and UserMem: \<^verbatim>\<open>mappages()\<close> and \<^verbatim>\<open>uvmunmap()\<close> change exactly the mappings
    they should, in every page table; \<^verbatim>\<open>copyout()\<close> and \<^verbatim>\<open>copyin()\<close> move the bytes of the
    mapped pages, for user addresses below 4 GB.
  \<^item> LostWakeup: in every interleaving of the statements of a \<^verbatim>\<open>sleep()\<close> and of a
    \<^verbatim>\<open>wakeup()\<close> under the lock of the condition, no wakeup is lost, no hart panics and the two
    do not deadlock.  Sched and Sleeplock: \<^verbatim>\<open>kill()\<close>; a sleep lock has one holder.
  \<^item> Fair: a pass of the scheduler reaches every runnable process.
  \<^item> Bcache: the linked list of buffers implements a map from blocks to contents with locks and
    reference counts; replacement is by least recent use.
  \<^item> Transaction: after a crash at any disk write, recovery leaves all or nothing of a transaction.
  \<^item> Alloc: \<^verbatim>\<open>balloc()\<close> and \<^verbatim>\<open>bfree()\<close> inside a transaction, over the calculus of Txn.
  \<^item> Inode and InodeWrite: \<^verbatim>\<open>readi()\<close> and \<^verbatim>\<open>writei()\<close> read and update the list of bytes
    that the blocks of a file stand for; \<^verbatim>\<open>bmap()\<close> extends a file by free blocks only.
  \<^item> BuildImage: \<^verbatim>\<open>mkfs\<close> builds an image that holds the files it was given; at the end of
    this theory the kernel's \<^verbatim>\<open>readi()\<close> reads them back.
  \<^item> Pipe: bytes leave a pipe in the order they entered it, the counters may wrap around, and a
    process that sleeps at one end is woken from the other.
  \<^item> Descriptor: a bad descriptor is an error without side effect, and \<^verbatim>\<open>write()\<close> on a pipe
    appends to it.
  \<^item> Start: \<^verbatim>\<open>start()\<close> reaches \<^verbatim>\<open>main()\<close> with the timer armed; every timer interrupt
    arms it again and returns to the interrupted code with its registers.
  \<^item> Console, ULib and CString: numbers are printed so that they read back; string functions.
  \<^item> Grep and Shell: the matcher decides the language of its pattern, and \<^verbatim>\<open>grep()\<close> writes
    the lines that match, however its input is cut into reads; the parser inverts a printer
    and ends on every line; a command runs with the descriptors it asks for.

  \<^bold>\<open>Bounds.\<close>
  A loop without an obvious measure is \<open>loopM\<close> with a number of turns that suffices, stated where it
  is used: one turn per page up to \<^verbatim>\<open>MAXVA\<close> for the loops over pages (\<^verbatim>\<open>walk()\<close> panics
  there), one per byte for the copying loops (each turn copies at least one), the number of table
  entries for scans.  Where a property says that such a function returns, running out of turns
  (\<open>Spin\<close>) is excluded by it.  The shell's parser takes four recursive calls per byte of the line.

  \<^bold>\<open>Not modelled.\<close>
  The assembly of \<^verbatim>\<open>entry.S\<close>, \<^verbatim>\<open>swtch.S\<close>, \<^verbatim>\<open>trampoline.S\<close> and of \<^verbatim>\<open>kernelvec\<close>
  in \<^verbatim>\<open>kernelvec.S\<close>: what it does is not a function of the C state.  The compiler's and
  the machine's memory ordering (\<^verbatim>\<open>__sync_synchronize()\<close> is no step of the model).
  \<^verbatim>\<open>ramdisk.c\<close> is not part of the build.  The test programs of \<^verbatim>\<open>src/user\<close> exercise the
  system calls and have no behaviour of their own to keep; of the other user programs the ones listed
  above are modelled.
\<close>

section \<open>The kernel reads what mkfs wrote\<close>

text \<open>The blocks of the image as the kernel sees them.\<close>

lemma kblk_image:
  assumes "\<forall>j\<le>NDIRECT. d_addrs x j = d_addrs d j"
  shows "unat (kblk (\<lambda>b. m (unat b)) x j) = blk m d j"
  using assms by (simp add: kblk_def blk_def ind_def kind_def unat_eq_zero)

lemma kcontent_image:
  assumes "\<forall>j\<le>NDIRECT. d_addrs x j = d_addrs d j"
  shows "kcontent (\<lambda>b. m (unat b)) x = content m d (unat (d_size x))"
  unfolding kcontent_def content_def kbyte_def by (simp add: kblk_image [OF assms])

lemma readable_image:
  assumes "at_rest T" and "t_view T = (\<lambda>b. m (unat b))" and "\<forall>j\<le>NDIRECT. d_addrs x j = d_addrs d j"
    and "file_wf m l d (nblk (unat (d_size x)))"
  shows "readable T x"
proof -
  have wf: "nblk (unat (d_size x)) \<le> MAXFILE" "\<And>j. j < MAXFILE \<Longrightarrow> blk m d j = 0 \<longleftrightarrow> nblk (unat (d_size x)) \<le> j"
    using assms(4) by (auto simp: file_wf_def)
  have "kblk (t_view T) x (k div BSIZE) \<noteq> 0" if "k < unat (d_size x)" for k
  proof -
    have "k div BSIZE < nblk (unat (d_size x))" by (rule nblk_bound(2) [OF that])
    then have "blk m d (k div BSIZE) \<noteq> 0" using wf by auto
    then have "unat (kblk (t_view T) x (k div BSIZE)) \<noteq> 0" unfolding assms(2) kblk_image [OF assms(3)] .
    then show ?thesis by auto
  qed
  moreover have "unat (d_size x) \<le> MAXFILE * BSIZE" using wf(1) unfolding nblk_bound(5) .
  ultimately show ?thesis using assms(1) by (simp add: readable_def at_rest_def)
qed

text \<open>
  C16: A file that \<^verbatim>\<open>mkfs\<close> put into the image is read back by the kernel.  If the blocks of the
  device are those of the image, and an entry of the inode cache has been filled from the inode that
  \<^verbatim>\<open>mkfs\<close> gave to file \<open>i\<close> of its command line, then \<^verbatim>\<open>readi()\<close> returns the bytes of that
  file from \<^verbatim>\<open>off\<close> on, at most \<^verbatim>\<open>n\<close>, and their number.
\<close>

theorem kernel_reads_image:
  fixes s :: "'z fsst_scheme" and i :: nat
  defines "I \<equiv> of_nat (i + 2) :: u32"
  assumes "BuildImage.fits fs" and "i < length fs" and "mkfs ((nm, Some h) # fs) mkfs_start = Done () m"
    and "bready {} p s" and "intxn dev T D (logs s dev) (cabs s)" and "at_rest T" and "t_view T = (\<lambda>b. img m (unat b))"
    and "icache s ip = fill_inode (dinode_at (t_view T (IBLOCK I mk_superblock)) (dinode_off I)) x" and "i_dev x = dev"
    and "unat off \<le> length (fdata (fs ! i))" and "unat off + unat n < 2 ^ 32"
  shows "\<exists>t bs. readi ip KernelObj off n s = Done (int (length bs), bs) t \<and> bs = take (unat n) (drop (unat off) (fdata (fs ! i)))"
proof -
  let ?y = "icache s ip" and ?d = "inode_of m (i + 2)"
  obtain m' where m': "mkfs ((nm, Some h) # fs) mkfs_start = Done () m'" "holds m' (i + 2) (mk_data fs (i + 2))"
    "isize m' (i + 2) = length (mk_data fs (i + 2))"
    by (rule mkfs_image [OF assms(2), of nm h]) (use assms(3) in force)
  then have e: "m' = m" using assms(4) by simp
  have bs: "mk_data fs (i + 2) = fdata (fs ! i)" by (simp add: mk_data_def)
  have "i + 2 < NINODES" using assms(2,3) by (simp add: BuildImage.fits_def)
  note I = inode_place [OF this, folded I_def]
  have y: "?y = fill_inode ?d x" unfolding assms(9,8) I inode_of_def ..
  have a: "\<forall>j\<le>NDIRECT. d_addrs ?y j = d_addrs ?d j" "unat (d_size ?y) = length (fdata (fs ! i))" "i_dev ?y = dev"
    using m'(3) [unfolded bs e isize_def] assms(10) by (simp_all add: y fill_inode_def)
  have wf: "file_wf (img m) (fb m) ?d (nblk (unat (d_size ?y)))" "content (img m) ?d (unat (d_size ?y)) = fdata (fs ! i)"
    using m'(2) [unfolded bs e holds_def] by (simp_all add: a(2))
  have "kcontent (t_view T) ?y = fdata (fs ! i)" unfolding assms(8) kcontent_image [OF a(1)] by (rule wf(2))
  with readi_run [OF assms(5,6) a(3) readable_image [OF assms(7,8) a(1) wf(1)], of off n] assms(11,12) a(2)
  show ?thesis by auto
qed

theorem kernel_reads_image_witness:
  "\<exists>m t. mkfs (([102], Some []) # one_file) mkfs_start = Done () m
     \<and> readi 5 KernelObj 1 9 (open_fs (\<lambda>k. img m (unat (snd k))) mk_superblock
         (\<lambda>_. fill_inode (dinode_at (img m (unat (IBLOCK 2 mk_superblock))) (dinode_off 2)) empty_file)) = Done (2, [2, 3]) t"
proof -
  obtain m where m: "mkfs (([102], Some []) # one_file) mkfs_start = Done () m" by (rule mkfs_image [OF one_file_fits(1)])
  let ?d = "\<lambda>k. img m (unat (snd k))"
  let ?x = "fill_inode (dinode_at (img m (unat (IBLOCK 2 mk_superblock))) (dinode_off 2)) empty_file"
  let ?s = "open_fs ?d mk_superblock (\<lambda>_. ?x)" and ?T = "fresh_txn 0 ?d"
  have i: "intxn 0 ?T (?d, []) (logs ?s 0) (cabs ?s)" by (rule open_fs_ready(4)) simp
  have T: "at_rest ?T" "t_view ?T = (\<lambda>b. img m (unat b))" by (simp_all add: fresh_txn_def at_rest_def)
  have f: "0 < length one_file" "fdata (one_file ! 0) = [1, 2, 3]" by (simp_all add: one_file_def fdata_def)
  have x: "icache ?s 5 = fill_inode (dinode_at (t_view ?T (IBLOCK (of_nat (0 + 2)) mk_superblock)) (dinode_off (of_nat (0 + 2)))) empty_file"
    unfolding T(2) open_fs_ready(3) by simp
  have o: "unat (1 :: u32) \<le> length (fdata (one_file ! 0))" "unat (1 :: u32) + unat (9 :: u32) < 2 ^ 32" "i_dev empty_file = 0"
    by (simp_all add: f empty_file_def)
  from kernel_reads_image [OF one_file_fits(1) f(1) m open_fs_ready(1) i T x o(3,1,2)] m show ?thesis by (auto simp: f)
qed

end
